(* ===== verification/Prelude.thy ===== *)
theory Prelude
  imports Main "HOL-Library.Word" "HOL-Library.Monad_Syntax" "HOL-Library.List_Lexorder"
    "HOL-Library.Product_Lexorder"
begin

text \<open>
  The shared vocabulary of the development: machine integers as the Rust code has them, indexing
  that can panic, loops that can panic, and the list and word lemmas the component theories use.

  Rust's \<open>u32\<close>, \<open>u128\<close> and \<open>u8\<close> are words of that width. A \<open>usize\<close> that counts or indexes
  something held in memory is a \<open>nat\<close>; where the code saturates or casts, the bound is written out.
  A computation that can panic (an index out of range, a failed \<open>assert!\<close>, \<open>expect\<close> on \<open>None\<close>) is an
  \<open>option\<close>, and \<open>None\<close> is the panic. Arithmetic is that of a release build: a shift takes its amount
  modulo the width, and a \<open>debug_assert!\<close> is not executed.
\<close>

unbundle bit_operations_syntax

named_theorems panic_simps \<open>in-range accesses return\<close>
named_theorems wbit_simps \<open>bits of a packed word list after an update\<close>

section \<open>Machine integers\<close>

type_synonym u8 = "8 word"
type_synonym u32 = "32 word"
type_synonym u128 = "128 word"

definition usize_max :: nat where
  "usize_max = 2 ^ 64 - 1"

text \<open>Shifts of a release build: the amount is reduced modulo the width.\<close>

definition shl :: "'a::len word \<Rightarrow> nat \<Rightarrow> 'a word" where
  "shl w k = push_bit (k mod LENGTH('a)) w"

definition shr :: "'a::len word \<Rightarrow> nat \<Rightarrow> 'a word" where
  "shr w k = drop_bit (k mod LENGTH('a)) w"

definition count_ones :: "'a::len word \<Rightarrow> nat" where
  "count_ones w = length (filter (bit w) [0..<LENGTH('a)])"

definition trailing_zeros :: "'a::len word \<Rightarrow> nat" where
  "trailing_zeros w = length (takeWhile (\<lambda>i. \<not> bit w i) [0..<LENGTH('a)])"

definition leading_zeros :: "'a::len word \<Rightarrow> nat" where
  "leading_zeros w = length (takeWhile (\<lambda>i. \<not> bit w i) (rev [0..<LENGTH('a)]))"

section \<open>Access and loops that can panic\<close>

definition idx :: "'a list \<Rightarrow> nat \<Rightarrow> 'a option" where
  "idx xs i = (if i < length xs then Some (xs ! i) else None)"

definition idx_update :: "'a list \<Rightarrow> nat \<Rightarrow> 'a \<Rightarrow> 'a list option" where
  "idx_update xs i v = (if i < length xs then Some (xs[i := v]) else None)"

text \<open>The slices \<open>&xs[a..]\<close> and \<open>&xs[a..b]\<close>.\<close>

definition slice_from :: "'a list \<Rightarrow> nat \<Rightarrow> 'a list option" where
  "slice_from xs a = (if a \<le> length xs then Some (drop a xs) else None)"

definition slice :: "'a list \<Rightarrow> nat \<Rightarrow> nat \<Rightarrow> 'a list option" where
  "slice xs a b = (if a \<le> b \<and> b \<le> length xs then Some (take (b - a) (drop a xs)) else None)"

definition assert_that :: "bool \<Rightarrow> unit option" where
  "assert_that p = (if p then Some () else None)"

text \<open>\<open>for x in xs { s = f(s, x) }\<close> with a body that can panic, and \<open>xs.map(f).collect()\<close>.\<close>

fun for_each :: "('s \<Rightarrow> 'a \<Rightarrow> 's option) \<Rightarrow> 's \<Rightarrow> 'a list \<Rightarrow> 's option" where
  "for_each f s [] = Some s"
| "for_each f s (x # xs) = Option.bind (f s x) (\<lambda>s'. for_each f s' xs)"

fun map_panic :: "('a \<Rightarrow> 'b option) \<Rightarrow> 'a list \<Rightarrow> 'b list option" where
  "map_panic f [] = Some []"
| "map_panic f (x # xs) = Option.bind (f x) (\<lambda>y. Option.bind (map_panic f xs) (\<lambda>ys. Some (y # ys)))"

text \<open>\<open>iter().all(f)\<close> and \<open>iter().any(f)\<close>, which stop at the first answer that decides.\<close>

fun all_panic :: "('a \<Rightarrow> bool option) \<Rightarrow> 'a list \<Rightarrow> bool option" where
  "all_panic f [] = Some True"
| "all_panic f (x # xs) = Option.bind (f x) (\<lambda>r. if r then all_panic f xs else Some False)"

fun any_panic :: "('a \<Rightarrow> bool option) \<Rightarrow> 'a list \<Rightarrow> bool option" where
  "any_panic f [] = Some False"
| "any_panic f (x # xs) = Option.bind (f x) (\<lambda>r. if r then Some True else any_panic f xs)"

lemma all_panic_Some:
  "(\<And>x. x \<in> set xs \<Longrightarrow> f x = Some (g x)) \<Longrightarrow> all_panic f xs = Some (\<forall>x \<in> set xs. g x)"
  by (induction xs) auto

lemma any_panic_Some:
  "(\<And>x. x \<in> set xs \<Longrightarrow> f x = Some (g x)) \<Longrightarrow> any_panic f xs = Some (\<exists>x \<in> set xs. g x)"
  by (induction xs) auto

lemma idx_in [panic_simps, simp]: "i < length xs \<Longrightarrow> idx xs i = Some (xs ! i)"
  by (simp add: idx_def)

lemma idx_out [simp]: "length xs \<le> i \<Longrightarrow> idx xs i = None"
  by (simp add: idx_def)

lemma idx_SomeD: "idx xs i = Some v \<Longrightarrow> i < length xs \<and> v = xs ! i"
  by (auto simp: idx_def split: if_splits)

lemma idx_update_in [panic_simps, simp]: "i < length xs \<Longrightarrow> idx_update xs i v = Some (xs[i := v])"
  by (simp add: idx_update_def)

lemma slice_from_in [panic_simps, simp]: "a \<le> length xs \<Longrightarrow> slice_from xs a = Some (drop a xs)"
  by (simp add: slice_from_def)

lemma slice_in [panic_simps, simp]:
  "a \<le> b \<Longrightarrow> b \<le> length xs \<Longrightarrow> slice xs a b = Some (take (b - a) (drop a xs))"
  by (simp add: slice_def)

lemma assert_that_True [panic_simps, simp]: "p \<Longrightarrow> assert_that p = Some ()"
  by (simp add: assert_that_def)

lemma assert_that_Some [simp]: "assert_that p = Some u \<longleftrightarrow> p"
  by (simp add: assert_that_def)

lemma for_each_append:
  "for_each f s (xs @ ys) = Option.bind (for_each f s xs) (\<lambda>s'. for_each f s' ys)"
  by (induction xs arbitrary: s) (auto split: Option.bind_splits)

lemma for_each_map: "for_each f s (map g xs) = for_each (\<lambda>s x. f s (g x)) s xs"
  by (induction xs arbitrary: s) auto

lemma for_each_cong:
  "(\<And>s x. x \<in> set xs \<Longrightarrow> f s x = g s x) \<Longrightarrow> for_each f s xs = for_each g s xs"
proof (induction xs arbitrary: s)
  case (Cons x xs)
  then show ?case by (cases "g s x") auto
qed simp

text \<open>A loop whose body keeps an invariant never panics and ends with the invariant.\<close>

lemma for_each_invariant:
  assumes "I 0 s"
    and "\<And>k s. k < length xs \<Longrightarrow> I k s \<Longrightarrow> \<exists>s'. f s (xs ! k) = Some s' \<and> I (Suc k) s'"
  shows "\<exists>s'. for_each f s xs = Some s' \<and> I (length xs) s'"
  using assms
proof (induction xs arbitrary: s I)
  case Nil
  then show ?case by simp
next
  case (Cons x xs)
  obtain s1 where s1: "f s x = Some s1" "I (Suc 0) s1"
    using Cons.prems(2)[of 0 s] Cons.prems(1) by auto
  have "\<exists>s'. for_each f s1 xs = Some s' \<and> (\<lambda>k. I (Suc k)) (length xs) s'"
  proof (rule Cons.IH)
    show "I (Suc 0) s1" by (rule s1)
    fix k s assume "k < length xs" "I (Suc k) s"
    then show "\<exists>s'. f s (xs ! k) = Some s' \<and> I (Suc (Suc k)) s'"
      using Cons.prems(2)[of "Suc k" s] by simp
  qed
  with s1 show ?case by auto
qed

lemma map_panic_Some:
  "(\<And>x. x \<in> set xs \<Longrightarrow> f x = Some (g x)) \<Longrightarrow> map_panic f xs = Some (map g xs)"
  by (induction xs) auto

section \<open>Words\<close>

lemma shl_less [simp]: "k < LENGTH('a) \<Longrightarrow> shl (w :: 'a::len word) k = push_bit k w"
  by (simp add: shl_def)

lemma shr_less [simp]: "k < LENGTH('a) \<Longrightarrow> shr (w :: 'a::len word) k = drop_bit k w"
  by (simp add: shr_def)

lemma bit_word_out: "LENGTH('a) \<le> n \<Longrightarrow> \<not> bit (w :: 'a::len word) n"
  using bit_imp_le_length by fastforce

lemma word_eq_all: "(u :: 'a::len word) = v \<longleftrightarrow> (\<forall>n. bit u n = bit v n)"
  by (auto intro: bit_eqI)

lemma word_nonzero_bit:
  assumes "(w :: 'a::len word) \<noteq> 0"
  obtains n where "n < LENGTH('a)" "bit w n"
  using assms by (metis bit_0_eq bit_eq_iff bit_imp_le_length bot_apply bot_bool_def)

lemma takeWhile_upt_least:
  assumes "m < n" "P m"
  shows "length (takeWhile (\<lambda>i. \<not> P i) [0..<n]) = (LEAST k. P k)"
proof -
  let ?k = "LEAST k. P k"
  have k: "P ?k" "?k \<le> m" using assms(2) by (auto intro: LeastI Least_le)
  then have "?k < n" using assms(1) by simp
  then have eq: "[0..<n] = [0..<?k] @ ?k # [Suc ?k..<n]"
    by (metis le0 le_add_diff_inverse less_imp_le upt_add_eq_append upt_conv_Cons)
  have "\<And>i. i \<in> set [0..<?k] \<Longrightarrow> \<not> P i" by (auto dest: not_less_Least)
  then have "takeWhile (\<lambda>i. \<not> P i) [0..<n] = [0..<?k]"
    unfolding eq using k(1) by (subst takeWhile_append2) auto
  then show ?thesis by simp
qed

lemma trailing_zeros_eq_Least:
  assumes "(w :: 'a::len word) \<noteq> 0"
  shows "trailing_zeros w = (LEAST k. bit w k)"
proof -
  obtain n where "n < LENGTH('a)" "bit w n" using assms by (rule word_nonzero_bit)
  then show ?thesis
    unfolding trailing_zeros_def by (rule takeWhile_upt_least [where P = "bit w"])
qed

lemma count_ones_eq_card: "count_ones (w :: 'a::len word) = card {k. bit w k}"
proof -
  have "{k. bit w k} = set (filter (bit w) [0..<LENGTH('a)])"
    by (auto dest: bit_imp_le_length)
  then have "card {k. bit w k} = card (set (filter (bit w) [0..<LENGTH('a)]))" by simp
  also have "\<dots> = count_ones w" unfolding count_ones_def by (rule distinct_card) simp
  finally show ?thesis ..
qed

end
