(* ===== verification/Variable_Set.thy ===== *)
theory Variable_Set
  imports Prelude
begin

text \<open>
  \<open>query/variableset.rs\<close>: a set of at most 128 query variables as the bits of a \<open>u128\<close>. The theory
  models every operation of \<open>VariableSet\<close> and its iterator, relates each to the set of its members
  (\<open>vs_elems\<close>), and shows that draining enumerates the members in order. The two drains are one
  interface, the locale \<open>draining\<close>, interpreted ascending and descending.
\<close>

section \<open>The bit set and its operations\<close>

record variable_set =
  vs_bits :: u128

definition vs_new_empty :: variable_set where
  "vs_new_empty = \<lparr>vs_bits = 0\<rparr>"

definition vs_new_full :: variable_set where
  "vs_new_full = \<lparr>vs_bits = NOT 0\<rparr>"

definition vs_set :: "variable_set \<Rightarrow> nat \<Rightarrow> variable_set" where
  "vs_set s i = s\<lparr>vs_bits := vs_bits s OR shl 1 i\<rparr>"

definition vs_unset :: "variable_set \<Rightarrow> nat \<Rightarrow> variable_set" where
  "vs_unset s i = s\<lparr>vs_bits := vs_bits s AND NOT (shl 1 i)\<rparr>"

definition vs_new_singleton :: "nat \<Rightarrow> variable_set" where
  "vs_new_singleton i = vs_set vs_new_empty i"

definition vs_is_empty :: "variable_set \<Rightarrow> bool" where
  "vs_is_empty s \<longleftrightarrow> vs_bits s = 0"

definition vs_count :: "variable_set \<Rightarrow> nat" where
  "vs_count s = count_ones (vs_bits s)"

definition vs_set_value :: "variable_set \<Rightarrow> nat \<Rightarrow> bool \<Rightarrow> variable_set" where
  "vs_set_value s i v = (if v then vs_set s i else vs_unset s i)"

definition vs_set_all :: "variable_set \<Rightarrow> variable_set" where
  "vs_set_all s = s\<lparr>vs_bits := NOT 0\<rparr>"

definition vs_unset_all :: "variable_set \<Rightarrow> variable_set" where
  "vs_unset_all s = s\<lparr>vs_bits := 0\<rparr>"

definition vs_is_set :: "variable_set \<Rightarrow> nat \<Rightarrow> bool" where
  "vs_is_set s i \<longleftrightarrow> 0 \<noteq> vs_bits s AND shl 1 i"

definition vs_find_first_set :: "variable_set \<Rightarrow> nat option" where
  "vs_find_first_set s =
     (if vs_bits s \<noteq> 0 then Some (trailing_zeros (vs_bits s)) else None)"

definition vs_find_last_set :: "variable_set \<Rightarrow> nat option" where
  "vs_find_last_set s =
     (if vs_bits s \<noteq> 0 then Some (127 - leading_zeros (vs_bits s)) else None)"

text \<open>A drain returns the drained index and the set without it.\<close>

definition vs_drain_next_ascending :: "variable_set \<Rightarrow> nat option \<times> variable_set" where
  "vs_drain_next_ascending s =
     (case vs_find_first_set s of
        Some i \<Rightarrow> (Some i, vs_unset s i)
      | None \<Rightarrow> (None, s))"

definition vs_drain_next_descending :: "variable_set \<Rightarrow> nat option \<times> variable_set" where
  "vs_drain_next_descending s =
     (case vs_find_last_set s of
        Some i \<Rightarrow> (Some i, vs_unset s i)
      | None \<Rightarrow> (None, s))"

definition vs_is_superset_of :: "variable_set \<Rightarrow> variable_set \<Rightarrow> bool" where
  "vs_is_superset_of s t \<longleftrightarrow> (vs_bits s AND vs_bits t) XOR vs_bits t = 0"

definition vs_is_subset_of :: "variable_set \<Rightarrow> variable_set \<Rightarrow> bool" where
  "vs_is_subset_of s t \<longleftrightarrow> (vs_bits s AND vs_bits t) XOR vs_bits s = 0"

definition vs_intersect :: "variable_set \<Rightarrow> variable_set \<Rightarrow> variable_set" where
  "vs_intersect s t = \<lparr>vs_bits = vs_bits s AND vs_bits t\<rparr>"

definition vs_union :: "variable_set \<Rightarrow> variable_set \<Rightarrow> variable_set" where
  "vs_union s t = \<lparr>vs_bits = vs_bits s OR vs_bits t\<rparr>"

definition vs_subtract :: "variable_set \<Rightarrow> variable_set \<Rightarrow> variable_set" where
  "vs_subtract s t = \<lparr>vs_bits = vs_bits s AND NOT (vs_bits t)\<rparr>"

definition vs_difference :: "variable_set \<Rightarrow> variable_set \<Rightarrow> variable_set" where
  "vs_difference s t = \<lparr>vs_bits = vs_bits s XOR vs_bits t\<rparr>"

definition vs_complement :: "variable_set \<Rightarrow> variable_set" where
  "vs_complement s = \<lparr>vs_bits = NOT (vs_bits s)\<rparr>"

definition vs_keep_single :: "variable_set \<Rightarrow> nat \<Rightarrow> variable_set" where
  "vs_keep_single s i =
     (let had_bit = vs_is_set s i; s' = vs_unset_all s
      in if had_bit then vs_set s' i else s')"

definition vs_keep_range :: "variable_set \<Rightarrow> nat \<Rightarrow> nat \<Rightarrow> variable_set" where
  "vs_keep_range s from_index to_index =
     (let s' = s\<lparr>vs_bits := vs_bits s AND shl (NOT 0) from_index\<rparr>
      in s'\<lparr>vs_bits := vs_bits s' AND NOT (shl (NOT 1) to_index)\<rparr>)"

section \<open>The members of a bit set\<close>

definition vs_elems :: "variable_set \<Rightarrow> nat set" where
  "vs_elems s = {i. bit (vs_bits s) i}"

lemma vs_elems_bound: "i \<in> vs_elems s \<Longrightarrow> i < 128"
  by (auto simp: vs_elems_def dest: bit_imp_le_length)

lemma vs_elems_finite [simp]: "finite (vs_elems s)"
  by (rule finite_subset [of _ "{..<128}"]) (auto dest: vs_elems_bound)

lemma vs_ext: "vs_elems s = vs_elems t \<longleftrightarrow> s = t"
  by (cases s; cases t) (auto simp: vs_elems_def set_eq_iff word_eq_all)

lemma vs_elems_new_empty [simp]: "vs_elems vs_new_empty = {}"
  by (simp add: vs_elems_def vs_new_empty_def)

lemma vs_elems_new_full [simp]: "vs_elems vs_new_full = {..<128}"
  by (auto simp: vs_elems_def vs_new_full_def bit_simps)

lemma vs_elems_set [simp]: "i < 128 \<Longrightarrow> vs_elems (vs_set s i) = insert i (vs_elems s)"
  by (auto simp: vs_elems_def vs_set_def bit_simps)

lemma vs_elems_unset [simp]: "i < 128 \<Longrightarrow> vs_elems (vs_unset s i) = vs_elems s - {i}"
  by (auto simp: vs_elems_def vs_unset_def bit_simps dest: bit_imp_le_length)

lemma vs_elems_new_singleton [simp]: "i < 128 \<Longrightarrow> vs_elems (vs_new_singleton i) = {i}"
  by (simp add: vs_new_singleton_def)

lemma vs_elems_set_value [simp]:
  "i < 128 \<Longrightarrow> vs_elems (vs_set_value s i v) = (if v then insert i (vs_elems s) else vs_elems s - {i})"
  by (simp add: vs_set_value_def)

lemma vs_elems_union [simp]: "vs_elems (vs_union s t) = vs_elems s \<union> vs_elems t"
  by (auto simp: vs_elems_def vs_union_def bit_simps)

lemma vs_elems_intersect [simp]: "vs_elems (vs_intersect s t) = vs_elems s \<inter> vs_elems t"
  by (auto simp: vs_elems_def vs_intersect_def bit_simps)

lemma vs_elems_subtract [simp]: "vs_elems (vs_subtract s t) = vs_elems s - vs_elems t"
  by (auto simp: vs_elems_def vs_subtract_def bit_simps dest: bit_imp_le_length)

lemma vs_elems_difference [simp]:
  "vs_elems (vs_difference s t) = (vs_elems s - vs_elems t) \<union> (vs_elems t - vs_elems s)"
  by (auto simp: vs_elems_def vs_difference_def bit_simps)

lemma vs_elems_complement [simp]: "vs_elems (vs_complement s) = {..<128} - vs_elems s"
  by (auto simp: vs_elems_def vs_complement_def bit_simps)

lemma vs_elems_set_all [simp]: "vs_elems (vs_set_all s) = {..<128}"
  by (auto simp: vs_elems_def vs_set_all_def bit_simps)

lemma vs_elems_unset_all [simp]: "vs_elems (vs_unset_all s) = {}"
  by (simp add: vs_elems_def vs_unset_all_def)

lemma vs_is_empty_iff [simp]: "vs_is_empty s \<longleftrightarrow> vs_elems s = {}"
  by (auto simp: vs_elems_def vs_is_empty_def word_eq_all)

lemma vs_is_set_iff [simp]: "i < 128 \<Longrightarrow> vs_is_set s i \<longleftrightarrow> i \<in> vs_elems s"
  unfolding vs_elems_def vs_is_set_def word_eq_all by (auto simp add: bit_simps)

lemma vs_count_card [simp]: "vs_count s = card (vs_elems s)"
  by (simp add: vs_count_def vs_elems_def count_ones_eq_card)

lemma vs_is_superset_of_iff [simp]: "vs_is_superset_of s t \<longleftrightarrow> vs_elems t \<subseteq> vs_elems s"
  by (auto simp: vs_elems_def vs_is_superset_of_def word_eq_all bit_simps)

lemma vs_is_subset_of_iff [simp]: "vs_is_subset_of s t \<longleftrightarrow> vs_elems s \<subseteq> vs_elems t"
  by (auto simp: vs_elems_def vs_is_subset_of_def word_eq_all bit_simps)

lemma vs_elems_keep_single [simp]: "i < 128 \<Longrightarrow> vs_elems (vs_keep_single s i) = vs_elems s \<inter> {i}"
  by (simp add: vs_keep_single_def Let_def)

lemma vs_elems_keep_range [simp]:
  assumes "a < 128" "b < 128"
  shows "vs_elems (vs_keep_range s a b) = vs_elems s \<inter> {a..b}"
proof (rule set_eqI)
  fix i
  have "bit (NOT (push_bit b (NOT 1 :: u128))) i \<longleftrightarrow> i < 128 \<and> i \<le> b"
    by (auto simp: bit_simps)
  moreover have "bit (push_bit a (NOT 0 :: u128)) i \<longleftrightarrow> i < 128 \<and> a \<le> i"
    by (auto simp: bit_simps)
  ultimately show "i \<in> vs_elems (vs_keep_range s a b) \<longleftrightarrow> i \<in> vs_elems s \<inter> {a..b}"
    using assms by (auto simp: vs_elems_def vs_keep_range_def Let_def bit_and_iff
        simp del: bit_not_iff dest: bit_imp_le_length)
qed

lemma vs_find_first_set_eq:
  "vs_find_first_set s = (if vs_elems s = {} then None else Some (Min (vs_elems s)))"
proof (cases "vs_bits s = 0")
  case True
  then show ?thesis by (simp add: vs_find_first_set_def vs_elems_def)
next
  case False
  then have "vs_elems s \<noteq> {}"
    by (metis vs_is_empty_def vs_is_empty_iff)
  moreover have "(LEAST k. bit (vs_bits s) k) = Min (vs_elems s)"
    using Least_Min [of "bit (vs_bits s)"] calculation vs_elems_finite [of s]
    by (auto simp: vs_elems_def)
  ultimately show ?thesis
    using False by (simp add: vs_find_first_set_def trailing_zeros_eq_Least)
qed

lemma takeWhile_rev_upt:
  assumes "m < n" "P m" "\<And>i. m < i \<Longrightarrow> i < n \<Longrightarrow> \<not> P i"
  shows "takeWhile (\<lambda>i. \<not> P i) (rev [0..<n]) = rev [Suc m..<n]"
proof -
  have "[0..<n] = [0..<m] @ m # [Suc m..<n]"
    using upt_add_eq_append [of 0 m "n - m"] upt_conv_Cons [OF assms(1)] assms(1) by simp
  then have eq: "rev [0..<n] = rev [Suc m..<n] @ m # rev [0..<m]" by simp
  show ?thesis unfolding eq by (subst takeWhile_append2) (use assms in auto)
qed

lemma leading_zeros_Max:
  assumes "(w :: 'a::len word) \<noteq> 0"
  shows "leading_zeros w = LENGTH('a) - Suc (Max {k. bit w k})"
proof -
  let ?m = "Max {k. bit w k}"
  have fin: "finite {k. bit w k}"
    by (rule finite_subset [of _ "{..<LENGTH('a)}"]) (auto dest: bit_imp_le_length)
  have "{k. bit w k} \<noteq> {}" using assms by (auto simp: word_eq_all)
  then have m: "bit w ?m" using Max_in [OF fin] by blast
  have "takeWhile (\<lambda>i. \<not> bit w i) (rev [0..<LENGTH('a)]) = rev [Suc ?m..<LENGTH('a)]"
  proof (rule takeWhile_rev_upt)
    show "?m < LENGTH('a)" using m by (rule bit_imp_le_length)
    show "\<not> bit w i" if "?m < i" for i
      using that Max_ge [OF fin] by (metis leD mem_Collect_eq)
  qed (rule m)
  then show ?thesis by (simp add: leading_zeros_def)
qed

lemma vs_find_last_set_eq:
  "vs_find_last_set s = (if vs_elems s = {} then None else Some (Max (vs_elems s)))"
proof (cases "vs_bits s = 0")
  case True
  then show ?thesis by (simp add: vs_find_last_set_def vs_elems_def)
next
  case False
  then have ne: "vs_elems s \<noteq> {}"
    by (metis vs_is_empty_def vs_is_empty_iff)
  then have "Max (vs_elems s) \<in> vs_elems s" by simp
  then have "Max (vs_elems s) \<le> 127" using vs_elems_bound by fastforce
  then have "127 - (128 - Suc (Max (vs_elems s))) = Max (vs_elems s)" by arith
  then show ?thesis
    using False ne by (simp add: vs_find_last_set_def leading_zeros_Max flip: vs_elems_def)
qed

section \<open>Draining\<close>

text \<open>
  Repeated draining as \<open>VariableSetIterator::next\<close> does it: the collected items of an iterator that
  ends when the drain returns \<open>None\<close>. The number of steps is bounded by the number of variables.
\<close>

fun vs_drain_steps :: "(variable_set \<Rightarrow> nat option \<times> variable_set) \<Rightarrow> nat \<Rightarrow> variable_set \<Rightarrow> nat list" where
  "vs_drain_steps drain 0 s = []"
| "vs_drain_steps drain (Suc n) s =
     (case drain s of
        (None, s') \<Rightarrow> []
      | (Some i, s') \<Rightarrow> i # vs_drain_steps drain n s')"

definition vs_into_iter :: "variable_set \<Rightarrow> nat list" where
  "vs_into_iter s = vs_drain_steps vs_drain_next_ascending 128 s"

locale draining =
  fixes drain :: "variable_set \<Rightarrow> nat option \<times> variable_set"
    and before :: "nat \<Rightarrow> nat \<Rightarrow> bool"
  assumes drain_empty: "vs_elems s = {} \<Longrightarrow> drain s = (None, s)"
    and drain_nonempty: "vs_elems s \<noteq> {} \<Longrightarrow>
      \<exists>i s'. drain s = (Some i, s') \<and> i \<in> vs_elems s \<and> vs_elems s' = vs_elems s - {i}
        \<and> (\<forall>j \<in> vs_elems s'. before i j)"
begin

lemma drain_steps_enumerates:
  "card (vs_elems s) \<le> n \<Longrightarrow>
     set (vs_drain_steps drain n s) = vs_elems s \<and> sorted_wrt before (vs_drain_steps drain n s)"
proof (induction n arbitrary: s)
  case 0
  then show ?case by simp
next
  case (Suc n)
  show ?case
  proof (cases "vs_elems s = {}")
    case True
    then show ?thesis by (simp add: drain_empty)
  next
    case False
    then obtain i s' where d: "drain s = (Some i, s')" "i \<in> vs_elems s"
      "vs_elems s' = vs_elems s - {i}" "\<forall>j \<in> vs_elems s'. before i j"
      using drain_nonempty by blast
    then have "card (vs_elems s') \<le> n" using Suc.prems by simp
    from Suc.IH [OF this] d show ?thesis by auto
  qed
qed

end

interpretation asc: draining vs_drain_next_ascending "(<)"
proof
  fix s assume ne: "vs_elems s \<noteq> {}"
  let ?i = "Min (vs_elems s)"
  have i: "?i \<in> vs_elems s" using ne by simp
  then have lt: "?i < 128" by (rule vs_elems_bound)
  have "\<forall>j \<in> vs_elems s - {?i}. ?i < j" using Min_le [of "vs_elems s"] le_neq_implies_less by fastforce
  then show "\<exists>i s'. vs_drain_next_ascending s = (Some i, s') \<and> i \<in> vs_elems s
      \<and> vs_elems s' = vs_elems s - {i} \<and> (\<forall>j \<in> vs_elems s'. i < j)"
    using ne lt by (simp add: vs_drain_next_ascending_def vs_find_first_set_eq)
qed (simp add: vs_drain_next_ascending_def vs_find_first_set_eq)

interpretation desc: draining vs_drain_next_descending "(>)"
proof
  fix s assume ne: "vs_elems s \<noteq> {}"
  let ?i = "Max (vs_elems s)"
  have i: "?i \<in> vs_elems s" using ne by simp
  then have lt: "?i < 128" by (rule vs_elems_bound)
  have "\<forall>j \<in> vs_elems s - {?i}. ?i > j" using Max_ge [of "vs_elems s"] le_neq_implies_less by fastforce
  then show "\<exists>i s'. vs_drain_next_descending s = (Some i, s') \<and> i \<in> vs_elems s
      \<and> vs_elems s' = vs_elems s - {i} \<and> (\<forall>j \<in> vs_elems s'. i > j)"
    using ne lt by (simp add: vs_drain_next_descending_def vs_find_last_set_eq)
qed (simp add: vs_drain_next_descending_def vs_find_last_set_eq)

lemma vs_card_le: "card (vs_elems s) \<le> 128"
proof -
  have "vs_elems s \<subseteq> {..<128}" by (auto dest: vs_elems_bound)
  then show ?thesis using card_mono [of "{..<128::nat}"] by fastforce
qed

lemma vs_into_iter_set: "set (vs_into_iter s) = vs_elems s"
  using asc.drain_steps_enumerates [OF vs_card_le, of s] by (auto simp: vs_into_iter_def)

lemma vs_into_iter_sorted: "sorted_wrt (<) (vs_into_iter s)"
  using asc.drain_steps_enumerates [OF vs_card_le, of s] by (auto simp: vs_into_iter_def)

lemma vs_into_iter_eq: "vs_into_iter s = sorted_list_of_set (vs_elems s)"
  by (rule sorted_distinct_set_unique)
    (use vs_into_iter_sorted [of s] in
      \<open>auto simp: vs_into_iter_set strict_sorted_iff\<close>)

section \<open>Properties\<close>

text \<open>
  The bit set denotes a set of indexes below 128, and its operations are the operations on sets:
  equal denotations are equal bit patterns, and union, intersection, subtraction, symmetric
  difference, complement, emptiness, cardinality and the two inclusion tests are those of the sets.
\<close>

theorem variable_set_algebra:
  "(vs_elems s = vs_elems t \<longleftrightarrow> s = t) \<and> vs_elems s \<subseteq> {..<128} \<and>
   vs_elems (vs_union s t) = vs_elems s \<union> vs_elems t \<and>
   vs_elems (vs_intersect s t) = vs_elems s \<inter> vs_elems t \<and>
   vs_elems (vs_subtract s t) = vs_elems s - vs_elems t \<and>
   vs_elems (vs_difference s t) = (vs_elems s - vs_elems t) \<union> (vs_elems t - vs_elems s) \<and>
   vs_elems (vs_complement s) = {..<128} - vs_elems s \<and>
   (vs_is_empty s \<longleftrightarrow> vs_elems s = {}) \<and> vs_count s = card (vs_elems s) \<and>
   (vs_is_subset_of s t \<longleftrightarrow> vs_elems s \<subseteq> vs_elems t) \<and>
   (vs_is_superset_of s t \<longleftrightarrow> vs_elems t \<subseteq> vs_elems s)"
  using vs_elems_bound [of _ s] vs_ext [of s t] by auto

text \<open>
  Iterating a set lists its members in ascending order, each once; draining from the top lists the
  same members in descending order; the first and the last set bit are the minimum and the maximum.
\<close>

theorem variable_set_iteration:
  "vs_into_iter s = sorted_list_of_set (vs_elems s) \<and>
   vs_drain_steps vs_drain_next_descending 128 s = rev (sorted_list_of_set (vs_elems s)) \<and>
   vs_find_first_set s = (if vs_elems s = {} then None else Some (Min (vs_elems s))) \<and>
   vs_find_last_set s = (if vs_elems s = {} then None else Some (Max (vs_elems s)))"
proof (intro conjI)
  let ?d = "vs_drain_steps vs_drain_next_descending 128 s"
  have d: "set ?d = vs_elems s" "sorted_wrt (>) ?d"
    using desc.drain_steps_enumerates [OF vs_card_le, of s] by simp_all
  then have "sorted_wrt (<) (rev ?d)" by (simp add: sorted_wrt_rev)
  then have "rev ?d = sorted_list_of_set (vs_elems s)"
    using d(1) by (intro sorted_distinct_set_unique) (auto simp: strict_sorted_iff)
  then show "?d = rev (sorted_list_of_set (vs_elems s))" by (metis rev_rev_ident)
qed (rule vs_into_iter_eq vs_find_first_set_eq vs_find_last_set_eq)+

text \<open>
  \<open>keep_range\<close> keeps the members between its two inclusive bounds, and \<open>keep_single\<close> at most the
  one index, for indexes inside the word; a bound of 127 does not shift the mask out.
\<close>

theorem keep_range_correct:
  "a < 128 \<Longrightarrow> b < 128 \<Longrightarrow> vs_elems (vs_keep_range s a b) = vs_elems s \<inter> {a..b} \<and>
     vs_elems (vs_keep_single s a) = vs_elems s \<inter> {a}"
  by simp

theorem keep_range_correct_witness:
  "vs_elems (vs_keep_range vs_new_full 3 127) = vs_elems vs_new_full \<inter> {3..127} \<and>
     vs_elems (vs_keep_single vs_new_full 3) = vs_elems vs_new_full \<inter> {3}"
  by (rule keep_range_correct) simp_all

end
