(* ===== verification/Liveness_Words.thy ===== *)
theory Liveness_Words
  imports Prelude
begin

text \<open>
  \<open>query/liveness.rs\<close>, the word level: liveness of candidates is packed 32 to a \<open>u32\<close>, and a region
  of a buffer is a range of bits that need not start or end on a word. The theory models the masks
  and the word-wise helpers and describes each by the bits it changes, \<open>wbit ws k\<close> being bit \<open>k\<close> of
  the packed list \<open>ws\<close>.
\<close>

section \<open>Masks and word-wise helpers\<close>

definition and_words :: "u32 list \<Rightarrow> u32 list \<Rightarrow> u32 list" where
  "and_words ws os = map2 (AND) ws os @ drop (length os) ws"

definition or_words :: "u32 list \<Rightarrow> u32 list \<Rightarrow> u32 list" where
  "or_words ws os = map2 (OR) ws os @ drop (length os) ws"

definition words_for :: "nat \<Rightarrow> nat" where
  "words_for bits = (bits + 31) div 32"

definition bit_range_mask :: "nat \<Rightarrow> nat \<Rightarrow> u32" where
  "bit_range_mask lo hi = shl (shr (NOT 0) (32 - (hi - lo))) lo"

definition set_bits :: "u32 list \<Rightarrow> nat \<Rightarrow> nat \<Rightarrow> u32 list option" where
  "set_bits live from to =
     (if from \<ge> to then Some live
      else
        let first = from div 32; last = (to - 1) div 32 in
        if first = last then do {
          w \<leftarrow> idx live first;
          idx_update live first (w OR bit_range_mask (from - first * 32) (to - first * 32))
        }
        else do {
          w \<leftarrow> idx live first;
          live1 \<leftarrow> idx_update live first (w OR bit_range_mask (from - first * 32) 32);
          mid \<leftarrow> slice live1 (first + 1) last;
          let live2 = take (first + 1) live1 @ replicate (length mid) (NOT 0) @ drop last live1;
          w' \<leftarrow> idx live2 last;
          idx_update live2 last (w' OR bit_range_mask 0 (to - last * 32))
        })"

text \<open>\<open>x.clamp(lo, hi)\<close>.\<close>

definition clamp :: "nat \<Rightarrow> nat \<Rightarrow> nat \<Rightarrow> nat" where
  "clamp x lo hi = (if x < lo then lo else if x > hi then hi else x)"

definition region_mask :: "nat \<Rightarrow> nat \<Rightarrow> nat \<Rightarrow> u32" where
  "region_mask bit_offset len k =
     (let word_lo = k * 32;
          word_hi = word_lo + 32;
          lo = clamp bit_offset word_lo word_hi;
          hi = clamp (bit_offset + len) word_lo word_hi
      in if lo \<ge> hi then 0 else bit_range_mask (lo - word_lo) (hi - word_lo))"

definition truncate_live :: "u32 list \<Rightarrow> nat \<Rightarrow> u32 list option" where
  "truncate_live live len =
     (let live' = take (words_for len) live; tail = len mod 32 in
      if tail \<noteq> 0 then
        (if live' = [] then None
         else let last = length live' - 1 in
           do { w \<leftarrow> idx live' last; idx_update live' last (w AND bit_range_mask 0 tail) })
      else Some live')"

section \<open>Bits of a packed list\<close>

definition wbit :: "u32 list \<Rightarrow> nat \<Rightarrow> bool" where
  "wbit ws k \<longleftrightarrow> k div 32 < length ws \<and> bit (ws ! (k div 32)) (k mod 32)"

lemma word_pos_eq: "(k::nat) div 32 = j div 32 \<Longrightarrow> k mod 32 = j mod 32 \<Longrightarrow> k = j"
  by (metis div_mult_mod_eq)

lemma word_pos_div: "n < 32 \<Longrightarrow> (w * 32 + n) div 32 = (w :: nat)"
  by simp

lemma word_pos_mod: "n < 32 \<Longrightarrow> (w * 32 + n) mod 32 = (n :: nat)"
  by simp

lemma wbit_out: "32 * length ws \<le> k \<Longrightarrow> \<not> wbit ws k"
  by (auto simp: wbit_def)

lemma wbit_ext:
  assumes "length ws = length us" "\<And>k. wbit ws k = wbit us k"
  shows "ws = us"
proof (rule nth_equalityI)
  fix i assume "i < length ws"
  show "ws ! i = us ! i"
  proof (rule bit_word_eqI)
    fix n assume "n < LENGTH(32)"
    then have "n < 32" by simp
    then have "(i * 32 + n) div 32 = i" "(i * 32 + n) mod 32 = n" by simp_all
    then show "bit (ws ! i) n = bit (us ! i) n"
      using assms(2) [of "i * 32 + n"] assms(1) \<open>i < length ws\<close> by (simp add: wbit_def)
  qed
qed (rule assms(1))

text \<open>What a caller reads: \<open>(live[k / 32] >> (k % 32)) & 1 != 0\<close>.\<close>

definition word_bit_set :: "u32 \<Rightarrow> nat \<Rightarrow> bool" where
  "word_bit_set w k \<longleftrightarrow> shr w (k mod 32) AND 1 \<noteq> 0"

lemma word_bit_set_iff: "word_bit_set w k \<longleftrightarrow> bit w (k mod 32)"
  by (simp add: word_bit_set_def word_eq_all bit_simps)

text \<open>Writing one word changes only that word's bits.\<close>

lemma wbit_update_word:
  "j < length ws \<Longrightarrow>
     wbit (ws[j := w]) k \<longleftrightarrow> (if k div 32 = j then bit w (k mod 32) else wbit ws k)"
  by (auto simp: wbit_def)

lemma wbit_set_one [wbit_simps]:
  assumes "k div 32 < length ws"
  shows "wbit (ws[k div 32 := ws ! (k div 32) OR 2 ^ (k mod 32)]) j \<longleftrightarrow> j = k \<or> wbit ws j"
  unfolding wbit_update_word [OF assms]
  using assms by (auto simp: bit_simps bit_exp_iff wbit_def dest: word_pos_eq)

lemma wbit_clear_one [wbit_simps]:
  assumes "k div 32 < length ws"
  shows "wbit (ws[k div 32 := ws ! (k div 32) AND NOT (2 ^ (k mod 32))]) j \<longleftrightarrow> j \<noteq> k \<and> wbit ws j"
  unfolding wbit_update_word [OF assms]
  using assms by (auto simp: bit_simps bit_exp_iff wbit_def dest: word_pos_eq)

lemma words_for_alt: "words_for n = n div 32 + (if n mod 32 = 0 then 0 else 1)"
proof -
  have "n + 31 = (n mod 32 + 31) + 32 * (n div 32)" by simp
  then have "words_for n = (n mod 32 + 31) div 32 + n div 32"
    unfolding words_for_def by (metis div_mult_self2 numeral_eq_iff zero_neq_numeral add.commute)
  moreover have "(n mod 32 + 31) div 32 = (if n mod 32 = 0 then 0 else 1)"
    using mod_less_divisor [of 32 n] by (auto intro: div_nat_eqI)
  ultimately show ?thesis by simp
qed

lemma words_for_div: "k < n \<Longrightarrow> k div 32 < words_for n"
  by (simp add: words_for_def)

lemma words_for_Suc: "words_for (Suc n) = (if n mod 32 = 0 then Suc (words_for n) else words_for n)"
  by (simp add: words_for_alt div_Suc mod_Suc)

lemma words_for_Suc_pos: "s < 32 \<Longrightarrow> words_for (32 * n + s + 1) = n + 1"
  by (simp add: words_for_def)

lemma words_for_bits: "k < 32 * words_for n \<Longrightarrow> n \<le> k \<Longrightarrow> k < n + 32"
  by (auto simp: words_for_alt split: if_splits)

lemma bit_bit_range_mask:
  assumes "lo < hi" "hi \<le> 32"
  shows "bit (bit_range_mask lo hi) n \<longleftrightarrow> lo \<le> n \<and> n < hi"
  using assms by (auto simp: bit_range_mask_def bit_simps)

lemma bit_region_mask:
  "n < 32 \<Longrightarrow> bit (region_mask off len k) n \<longleftrightarrow> off \<le> k * 32 + n \<and> k * 32 + n < off + len"
  by (auto simp: region_mask_def Let_def clamp_def bit_bit_range_mask)

lemma wbit_or_words [wbit_simps]:
  "length os = length ws \<Longrightarrow> wbit (or_words ws os) k \<longleftrightarrow> wbit ws k \<or> wbit os k"
  by (auto simp: or_words_def wbit_def bit_simps)

lemma wbit_and_words [wbit_simps]:
  "length os = length ws \<Longrightarrow> wbit (and_words ws os) k \<longleftrightarrow> wbit ws k \<and> wbit os k"
  by (auto simp: and_words_def wbit_def bit_simps)

lemma length_or_words [simp]: "length os = length ws \<Longrightarrow> length (or_words ws os) = length ws"
  by (simp add: or_words_def)

lemma length_and_words [simp]: "length os = length ws \<Longrightarrow> length (and_words ws os) = length ws"
  by (simp add: and_words_def)

lemma wbit_replicate_zero [simp]: "\<not> wbit (replicate n 0) k"
  by (simp add: wbit_def)

lemma wbit_append: "wbit (ws @ us) k \<longleftrightarrow>
    (if k < 32 * length ws then wbit ws k else wbit us (k - 32 * length ws))"
proof (cases "k < 32 * length ws")
  case True
  then show ?thesis by (auto simp: wbit_def nth_append)
next
  case False
  then obtain j where "k = 32 * length ws + j" using le_Suc_ex not_less by blast
  then show ?thesis by (auto simp: wbit_def nth_append)
qed

lemma wbit_append_zeros [simp]: "wbit (ws @ replicate n 0) k = wbit ws k"
  using wbit_out [of ws k] by (cases "k < 32 * length ws") (simp_all add: wbit_append)

lemma wbit_take: "wbit (take n ws) k \<longleftrightarrow> k < 32 * n \<and> wbit ws k"
  by (auto simp: wbit_def)

lemma wbit_drop: "wbit (drop n ws) k \<longleftrightarrow> wbit ws (32 * n + k)"
  by (auto simp: wbit_def)

text \<open>Masked words: the bits of a region and only those.\<close>

lemma wbit_map_mask:
  "length f = length ws \<Longrightarrow> (\<And>j. j < length ws \<Longrightarrow> f ! j = ws ! j AND region_mask off len j) \<Longrightarrow>
     wbit f k \<longleftrightarrow> wbit ws k \<and> off \<le> k \<and> k < off + len"
  by (auto simp: wbit_def bit_simps bit_region_mask)

lemma wbit_fill:
  assumes "first + n \<le> length ws"
  shows "wbit (take first ws @ replicate n (NOT 0) @ drop (first + n) ws) k \<longleftrightarrow>
    (if first \<le> k div 32 \<and> k div 32 < first + n then True else wbit ws k)"
  using assms by (auto simp: wbit_def nth_append bit_simps)

lemma word_pos_bounds:
  "(k::nat) div 32 = j \<longleftrightarrow> j * 32 \<le> k \<and> k < j * 32 + 32"
  by (auto intro: div_nat_eqI)

lemma wbit_or_mask:
  assumes "j < length ws" "lo < hi" "hi \<le> 32"
  shows "wbit (ws[j := ws ! j OR bit_range_mask lo hi]) k \<longleftrightarrow>
    wbit ws k \<or> j * 32 + lo \<le> k \<and> k < j * 32 + hi"
proof (cases "k div 32 = j")
  case True
  then have "k = j * 32 + k mod 32" by auto
  then have "lo \<le> k mod 32 \<and> k mod 32 < hi \<longleftrightarrow> j * 32 + lo \<le> k \<and> k < j * 32 + hi" by linarith
  then show ?thesis
    unfolding wbit_update_word [OF assms(1)] using True assms
    by (simp add: bit_simps bit_bit_range_mask wbit_def)
next
  case False
  then have "\<not> (j * 32 + lo \<le> k \<and> k < j * 32 + hi)"
    unfolding word_pos_bounds using assms by linarith
  with False show ?thesis by (auto simp: wbit_update_word [OF assms(1)])
qed

lemma set_bits_one_word:
  assumes "from < to" "from div 32 = (to - 1) div 32" "(to - 1) div 32 < length live"
  shows "\<exists>live'. set_bits live from to = Some live' \<and> length live' = length live
    \<and> (\<forall>k. wbit live' k \<longleftrightarrow> wbit live k \<or> from \<le> k \<and> k < to)"
proof -
  let ?f = "from div 32"
  have "?f * 32 \<le> from" using word_pos_bounds [of "from" ?f] by simp
  moreover have "to - 1 < ?f * 32 + 32" using word_pos_bounds [of "to - 1" ?f] assms(2) by simp
  ultimately have b: "from - ?f * 32 < to - ?f * 32" "to - ?f * 32 \<le> 32"
    "?f * 32 + (from - ?f * 32) = from" "?f * 32 + (to - ?f * 32) = to" using assms(1) by auto
  have "?f < length live" using assms(2,3) by simp
  note wbit_or_mask [OF this b(1,2), unfolded b(3,4)]
  with assms show ?thesis by (auto simp: set_bits_def Let_def)
qed

lemma set_bits_spans:
  assumes "from < to" "from div 32 < (to - 1) div 32" "(to - 1) div 32 < length live"
  shows "\<exists>live'. set_bits live from to = Some live' \<and> length live' = length live
    \<and> (\<forall>k. wbit live' k \<longleftrightarrow> wbit live k \<or> from \<le> k \<and> k < to)"
proof -
  define f l where "f = from div 32" and "l = (to - 1) div 32"
  define l1 where "l1 = live[f := live ! f OR bit_range_mask (from - f * 32) 32]"
  define l2 where "l2 = take (f + 1) l1 @ replicate (l - (f + 1)) (NOT 0) @ drop l l1"
  define l3 where "l3 = l2[l := l2 ! l OR bit_range_mask 0 (to - l * 32)]"
  note fl = assms(2,3) [folded f_def l_def]
  have pf: "f * 32 \<le> from" "from < f * 32 + 32"
    using word_pos_bounds [of "from" f] by (simp_all add: f_def)
  have "l * 32 \<le> to - 1" "to - 1 < l * 32 + 32"
    using word_pos_bounds [of "to - 1" l] by (simp_all add: l_def)
  then have pl: "l * 32 < to" "to \<le> l * 32 + 32" using assms(1) by auto
  have len: "length l1 = length live" "length l2 = length live" "length l3 = length live"
    using fl by (auto simp: l1_def l2_def l3_def)
  have b1: "wbit l1 k \<longleftrightarrow> wbit live k \<or> from \<le> k \<and> k < f * 32 + 32" for k
    unfolding l1_def using wbit_or_mask [of f live "from - f * 32" 32 k] fl pf by simp
  have "f + 1 + (l - (f + 1)) = l" using fl by simp
  then have "wbit l2 k \<longleftrightarrow> (if f + 1 \<le> k div 32 \<and> k div 32 < l then True else wbit l1 k)" for k
    unfolding l2_def using wbit_fill [of "f + 1" "l - (f + 1)" l1 k] fl len by simp
  then have b2: "wbit l2 k \<longleftrightarrow> wbit l1 k \<or> f * 32 + 32 \<le> k \<and> k < l * 32" for k
    using fl by (auto simp: less_eq_div_iff_mult_less_eq div_less_iff_less_mult)
  have b3: "wbit l3 k \<longleftrightarrow> wbit l2 k \<or> l * 32 \<le> k \<and> k < to" for k
    unfolding l3_def using wbit_or_mask [of l l2 0 "to - l * 32" k] fl pl len by simp
  have "\<forall>k. wbit l3 k \<longleftrightarrow> wbit live k \<or> from \<le> k \<and> k < to"
    unfolding b1 b2 b3 using pf pl fl by auto
  moreover have "take (Suc f) l1 @ replicate (l - Suc f) (- 1) @ drop l live = l2"
    using fl by (simp add: l2_def l1_def)
  then have "set_bits live from to = Some l3"
    using assms(1) fl len unfolding set_bits_def Let_def f_def [symmetric] l_def [symmetric]
    by (simp add: l1_def [symmetric] l3_def)
  ultimately show ?thesis using len(3) by blast
qed

lemma set_bits_correct:
  assumes "to \<le> 32 * length live"
  shows "\<exists>live'. set_bits live from to = Some live' \<and> length live' = length live
    \<and> (\<forall>k. wbit live' k \<longleftrightarrow> wbit live k \<or> from \<le> k \<and> k < to)"
proof (cases "from < to")
  case True
  then have "(to - 1) div 32 < length live" "from div 32 \<le> (to - 1) div 32"
    using assms by (auto intro: div_le_mono)
  with True show ?thesis
    using set_bits_one_word set_bits_spans by (metis le_neq_implies_less)
qed (auto simp: set_bits_def)

lemma wbit_and_low_mask:
  assumes "length ws = Suc j" "0 < t" "t \<le> 32"
  shows "wbit (ws[j := ws ! j AND bit_range_mask 0 t]) k \<longleftrightarrow> wbit ws k \<and> k < j * 32 + t"
proof (cases "k div 32 = j")
  case True
  then have "k = j * 32 + k mod 32" by auto
  then have "k mod 32 < t \<longleftrightarrow> k < j * 32 + t" by linarith
  with True assms show ?thesis
    by (simp add: wbit_update_word bit_simps bit_bit_range_mask wbit_def)
next
  case False
  have "k div 32 < j \<Longrightarrow> k < j * 32 + t" by (simp add: div_less_iff_less_mult)
  with False assms show ?thesis by (auto simp: wbit_update_word wbit_def)
qed

lemma truncate_live_correct:
  assumes "words_for len \<le> length live"
  shows "\<exists>live'. truncate_live live len = Some live' \<and> length live' = words_for len
    \<and> (\<forall>k. wbit live' k \<longleftrightarrow> wbit live k \<and> k < len)"
proof (cases "len mod 32 = 0")
  case True
  then have "32 * words_for len = len" by (auto simp: words_for_alt)
  with True assms show ?thesis by (auto simp: truncate_live_def Let_def wbit_take)
next
  case False
  define t j where "t = take (words_for len) live" and "j = len div 32"
  have wf: "words_for len = Suc j" using False by (simp add: words_for_alt j_def)
  have len: "length t = Suc j" using assms wf by (simp add: t_def)
  have eq: "j * 32 + len mod 32 = len" by (simp add: j_def)
  define t' where "t' = t[j := t ! j AND bit_range_mask 0 (len mod 32)]"
  have "wbit t' k \<longleftrightarrow> wbit live k \<and> k < len" for k
  proof -
    have "k < len \<Longrightarrow> k < 32 * words_for len" using words_for_div [of k len] by linarith
    then show ?thesis
      using wbit_and_low_mask [OF len, of "len mod 32" k] False
      unfolding t'_def by (auto simp: eq t_def wbit_take)
  qed
  moreover have "length t' = words_for len" using len wf by (simp add: t'_def)
  moreover have "t \<noteq> []" "length t - 1 = j" using len by auto
  then have "truncate_live live len = Some t'"
    using False len unfolding truncate_live_def Let_def t_def [symmetric] by (simp add: t'_def)
  ultimately show ?thesis by blast
qed

section \<open>Properties\<close>

text \<open>
  \<open>set_bits\<close> sets exactly the bits of the half-open range it is given, in one word or across several,
  keeps all others and the length, and does not panic when the range lies inside the words.
\<close>

theorem set_bits_range:
  "to \<le> 32 * length live \<Longrightarrow> \<exists>live'. set_bits live from to = Some live' \<and> length live' = length live
     \<and> (\<forall>k. wbit live' k \<longleftrightarrow> wbit live k \<or> from \<le> k \<and> k < to)"
  by (rule set_bits_correct)

theorem set_bits_range_witness:
  "\<exists>live'. set_bits [0, 0, 0] 5 70 = Some live' \<and> length live' = length [0 :: u32, 0, 0]
     \<and> (\<forall>k. wbit live' k \<longleftrightarrow> wbit [0, 0, 0] k \<or> 5 \<le> k \<and> k < 70)"
  by (rule set_bits_range) simp

text \<open>
  \<open>truncate_live\<close> cuts the words down to the number of entries: it keeps the bits below the length
  and clears the rest, also in the last word, which the length may cut in two.
\<close>

theorem truncate_live_range:
  "words_for len \<le> length live \<Longrightarrow> \<exists>live'. truncate_live live len = Some live' \<and> length live' = words_for len
     \<and> (\<forall>k. wbit live' k \<longleftrightarrow> wbit live k \<and> k < len)"
  by (rule truncate_live_correct)

theorem truncate_live_range_witness:
  "\<exists>live'. truncate_live [7, 0xFF, 1] 35 = Some live' \<and> length live' = words_for 35
     \<and> (\<forall>k. wbit live' k \<longleftrightarrow> wbit [7, 0xFF, 1] k \<and> k < 35)"
  by (rule truncate_live_range) (simp add: words_for_def)

end
