(* ===== verification/Inline_Value.thy ===== *)
theory Inline_Value
  imports Prelude
begin

text \<open>
  \<open>inline.rs\<close>, \<open>id.rs\<close> and \<open>inline/encodings/genid.rs\<close>: a raw inline value is an array of 32 bytes, a
  raw id one of 16. The array lengths are part of the types. The theory models the conversions
  between ids and values and states the contract of a codec (\<open>IntoInline\<close> with \<open>TryFromInline\<close>) that the
  membership constraints rely on, as the locale \<open>inline_codec\<close>.
\<close>

section \<open>Arrays of bytes\<close>

typedef raw_inline = "{bs :: u8 list. length bs = 32}"
  morphisms inline_bytes Raw_Inline
  by (rule exI [of _ "replicate 32 0"]) simp

typedef raw_id = "{bs :: u8 list. length bs = 16}"
  morphisms id_bytes Raw_Id
  by (rule exI [of _ "replicate 16 0"]) simp

lemma length_inline_bytes [simp]: "length (inline_bytes x) = 32"
  using inline_bytes [of x] by simp

lemma length_id_bytes [simp]: "length (id_bytes x) = 16"
  using id_bytes [of x] by simp

lemma Raw_Inline_bytes [code abstype]: "Raw_Inline (inline_bytes x) = x"
  by (rule inline_bytes_inverse)

lemma Raw_Id_bytes [code abstype]: "Raw_Id (id_bytes x) = x"
  by (rule id_bytes_inverse)

instantiation raw_inline :: equal
begin

definition equal_raw_inline :: "raw_inline \<Rightarrow> raw_inline \<Rightarrow> bool" where
  "equal_raw_inline x y \<longleftrightarrow> inline_bytes x = inline_bytes y"

instance
  by standard (simp add: equal_raw_inline_def inline_bytes_inject)

end

instantiation raw_id :: equal
begin

definition equal_raw_id :: "raw_id \<Rightarrow> raw_id \<Rightarrow> bool" where
  "equal_raw_id x y \<longleftrightarrow> id_bytes x = id_bytes y"

instance
  by standard (simp add: equal_raw_id_def id_bytes_inject)

end

text \<open>Arrays compare lexicographically.\<close>

instantiation raw_inline :: linorder
begin

definition less_eq_raw_inline :: "raw_inline \<Rightarrow> raw_inline \<Rightarrow> bool" where
  "less_eq_raw_inline x y \<longleftrightarrow> inline_bytes x \<le> inline_bytes y"

definition less_raw_inline :: "raw_inline \<Rightarrow> raw_inline \<Rightarrow> bool" where
  "less_raw_inline x y \<longleftrightarrow> inline_bytes x < inline_bytes y"

instance
  by standard (auto simp: less_eq_raw_inline_def less_raw_inline_def inline_bytes_inject less_le)

end

text \<open>A value whose first bytes are given and whose other bytes are zero.\<close>

definition inline_pad :: "u8 list \<Rightarrow> raw_inline" where
  "inline_pad bs = Raw_Inline (take 32 (bs @ replicate 32 0))"

lemma inline_bytes_pad [simp, code abstract]: "inline_bytes (inline_pad bs) = take 32 (bs @ replicate 32 0)"
  by (simp add: inline_pad_def Raw_Inline_inverse)

section \<open>Ids as values\<close>

definition id_into_value :: "raw_id \<Rightarrow> raw_inline" where
  "id_into_value i = Raw_Inline (replicate 16 0 @ id_bytes i)"

text \<open>\<open>id[16..32].try_into().unwrap()\<close>, which cannot fail on 32 bytes.\<close>

definition id_low_bytes :: "raw_inline \<Rightarrow> raw_id" where
  "id_low_bytes v = Raw_Id (take 16 (drop 16 (inline_bytes v)))"

lemma inline_bytes_id_into_value [simp, code abstract]:
  "inline_bytes (id_into_value i) = replicate 16 0 @ id_bytes i"
  by (simp add: id_into_value_def Raw_Inline_inverse)

lemma id_bytes_low_bytes [simp, code abstract]:
  "id_bytes (id_low_bytes v) = take 16 (drop 16 (inline_bytes v))"
  by (simp add: id_low_bytes_def Raw_Id_inverse)

definition id_from_value :: "raw_inline \<Rightarrow> raw_id option" where
  "id_from_value v =
     (if take 16 (inline_bytes v) \<noteq> replicate 16 0 then None else Some (id_low_bytes v))"

datatype id_parse_error = IsNil | BadFormat

definition raw_id_try_from_inline :: "raw_inline \<Rightarrow> id_parse_error + raw_id" where
  "raw_id_try_from_inline v =
     (if take 16 (inline_bytes v) \<noteq> replicate 16 0 then Inl BadFormat else Inr (id_low_bytes v))"

text \<open>\<open>Id\<close> excludes the nil id; \<open>Id::new\<close> and \<open>as_transmute_raw\<close> check it.\<close>

definition id_is_nil :: "raw_id \<Rightarrow> bool" where
  "id_is_nil i \<longleftrightarrow> id_bytes i = replicate 16 0"

definition id_try_from_inline :: "raw_inline \<Rightarrow> id_parse_error + raw_id" where
  "id_try_from_inline v =
     (if take 16 (inline_bytes v) \<noteq> replicate 16 0 then Inl BadFormat
      else if id_is_nil (id_low_bytes v) then Inl IsNil
      else Inr (id_low_bytes v))"

definition genid_validate :: "raw_inline \<Rightarrow> raw_inline option" where
  "genid_validate v = (if take 16 (inline_bytes v) = replicate 16 0 then Some v else None)"

text \<open>\<open>TryFromInline for Inline<S>\<close> and \<open>Encodes<Inline<S>> for S\<close>.\<close>

definition inline_try_from_inline :: "raw_inline \<Rightarrow> raw_inline option" where
  "inline_try_from_inline v = Some v"

definition inline_encode :: "raw_inline \<Rightarrow> raw_inline" where
  "inline_encode v = v"

text \<open>\<open>Result::ok\<close>.\<close>

definition ok :: "'e + 'a \<Rightarrow> 'a option" where
  "ok r = (case r of Inl _ \<Rightarrow> None | Inr a \<Rightarrow> Some a)"

lemma id_low_bytes_into [simp]: "id_low_bytes (id_into_value i) = i"
  by (simp add: id_bytes_inject [symmetric])

lemma id_into_low_bytes:
  assumes "take 16 (inline_bytes v) = replicate 16 0"
  shows "id_into_value (id_low_bytes v) = v"
proof -
  have "inline_bytes v = take 16 (inline_bytes v) @ take 16 (drop 16 (inline_bytes v))" by simp
  then show ?thesis using assms by (simp add: inline_bytes_inject [symmetric])
qed

section \<open>Codecs\<close>

text \<open>
  What a typed collection used as a constraint relies on of its element type: decoding inverts
  encoding, and a value that decodes is the encoding of what it decodes to. The second law fails for
  an encoding with several representations of one element.
\<close>

locale inline_codec =
  fixes to_inline :: "'t \<Rightarrow> raw_inline" and try_from_inline :: "raw_inline \<Rightarrow> 't option"
  assumes decode_encode: "try_from_inline (to_inline t) = Some t"
    and encode_decode: "try_from_inline r = Some t \<Longrightarrow> to_inline t = r"
begin

lemma to_inline_inj: "to_inline s = to_inline t \<Longrightarrow> s = t"
  by (metis decode_encode option.inject)

text \<open>Membership tested on the decoded value is membership of the encoding.\<close>

lemma decoded_member:
  "(case try_from_inline r of None \<Rightarrow> False | Some t \<Rightarrow> t \<in> S) \<longleftrightarrow> r \<in> to_inline ` S"
  using decode_encode encode_decode by (force split: option.splits)

lemma distinct_encodings: "distinct xs \<Longrightarrow> distinct (map to_inline xs)"
  by (simp add: distinct_map inj_on_def to_inline_inj)

end

interpretation raw_id_codec: inline_codec id_into_value id_from_value
  by unfold_locales (auto simp: id_from_value_def id_into_low_bytes split: if_splits)

interpretation genid_codec: inline_codec id_into_value "\<lambda>v. ok (raw_id_try_from_inline v)"
  by unfold_locales (auto simp: raw_id_try_from_inline_def ok_def id_into_low_bytes split: if_splits)

interpretation inline_codec_self: inline_codec inline_encode inline_try_from_inline
  by unfold_locales (auto simp: inline_encode_def inline_try_from_inline_def)

section \<open>Properties\<close>

text \<open>
  The embedding of a 16-byte identifier in a 32-byte value and its inverse: a value decodes to an
  identifier exactly when it is that identifier's encoding, so encoding and decoding are mutually
  inverse and every value with a non-zero upper half is refused. The three decoders of the code agree
  with it and differ only in their errors: \<open>BadFormat\<close> for a non-zero upper half, and for \<open>Id\<close>
  \<open>IsNil\<close> for the nil identifier. Validation accepts exactly the encodings.
\<close>

theorem id_codec:
  "(id_from_value v = Some i \<longleftrightarrow> v = id_into_value i) \<and>
   (id_from_value v = None \<longleftrightarrow> take 16 (inline_bytes v) \<noteq> replicate 16 0) \<and>
   raw_id_try_from_inline v = (case id_from_value v of None \<Rightarrow> Inl BadFormat | Some j \<Rightarrow> Inr j) \<and>
   id_try_from_inline v = (case id_from_value v of None \<Rightarrow> Inl BadFormat
     | Some j \<Rightarrow> if id_is_nil j then Inl IsNil else Inr j) \<and>
   genid_validate v = map_option id_into_value (id_from_value v)"
proof (intro conjI)
  show "id_from_value v = Some i \<longleftrightarrow> v = id_into_value i"
    using raw_id_codec.decode_encode raw_id_codec.encode_decode by blast
qed (auto simp: id_from_value_def raw_id_try_from_inline_def id_try_from_inline_def genid_validate_def id_into_low_bytes)

end
