(* ===== verification/Candidates.thy ===== *)
theory Candidates
  imports Liveness_Words Inline_Value
begin

text \<open>
  \<open>query/liveness.rs\<close>, the confirmable region: \<open>Candidates\<close> pairs the values and parent tags of a
  region with the packed liveness words that hold its bits, and with the bits of its neighbours in
  the first and the last word. A mutable borrow of the words is the word list passed in and out: a
  function that takes \<open>&mut Candidates\<close> returns the region with its words updated.

  What a confirmer may do is the relation \<open>cd_filters Q\<close>: the entries whose parent tag and value fail
  \<open>Q\<close> are dead afterwards, every other bit of the words, owned by the region or by a neighbour, is
  unchanged.
\<close>

section \<open>The region and its operations\<close>

record candidates =
  cd_values :: "raw_inline list"
  cd_parents :: "u32 list"
  cd_words :: "u32 list"
  cd_bit_offset :: nat

definition cd_len :: "candidates \<Rightarrow> nat" where
  "cd_len c = length (cd_values c)"

definition cd_is_empty :: "candidates \<Rightarrow> bool" where
  "cd_is_empty c \<longleftrightarrow> cd_values c = []"

definition cd_parent :: "candidates \<Rightarrow> nat \<Rightarrow> u32 option" where
  "cd_parent c i = idx (cd_parents c) i"

definition cd_is_live :: "candidates \<Rightarrow> nat \<Rightarrow> bool option" where
  "cd_is_live c i =
     (let b = cd_bit_offset c + i in
      do { w \<leftarrow> idx (cd_words c) (b div 32); Some (word_bit_set w b) })"

definition cd_kill :: "candidates \<Rightarrow> nat \<Rightarrow> candidates option" where
  "cd_kill c i =
     (let b = cd_bit_offset c + i in
      do {
        w \<leftarrow> idx (cd_words c) (b div 32);
        ws \<leftarrow> idx_update (cd_words c) (b div 32) (w AND NOT (shl 1 (b mod 32)));
        Some (c\<lparr>cd_words := ws\<rparr>)
      })"

text \<open>The loop \<open>for i in 0..len { if is_live(i) && !keep(i) { kill(i) } }\<close> every confirmer runs.\<close>

definition cd_retain_by :: "candidates \<Rightarrow> (nat \<Rightarrow> raw_inline \<Rightarrow> bool) \<Rightarrow> candidates option" where
  "cd_retain_by c keep =
     for_each (\<lambda>c i. do {
        live \<leftarrow> cd_is_live c i;
        v \<leftarrow> idx (cd_values c) i;
        if live \<and> \<not> keep i v then cd_kill c i else Some c
      }) c [0..<cd_len c]"

definition cd_retain :: "candidates \<Rightarrow> (raw_inline \<Rightarrow> bool) \<Rightarrow> candidates option" where
  "cd_retain c keep = cd_retain_by c (\<lambda>_. keep)"

definition cd_kill_all :: "candidates \<Rightarrow> candidates" where
  "cd_kill_all c =
     c\<lparr>cd_words := map (\<lambda>(k, w). w AND NOT (region_mask (cd_bit_offset c) (cd_len c) k))
                      (enumerate 0 (cd_words c))\<rparr>"

definition cd_live_word_len :: "candidates \<Rightarrow> nat" where
  "cd_live_word_len c = length (cd_words c)"

definition cd_live_words :: "candidates \<Rightarrow> u32 list" where
  "cd_live_words c =
     map (\<lambda>(k, w). w AND region_mask (cd_bit_offset c) (cd_len c) k) (enumerate 0 (cd_words c))"

text \<open>The loop zips the region's words with the incoming ones, so words past the shorter stay.\<close>

definition cd_set_live_words :: "candidates \<Rightarrow> u32 list \<Rightarrow> candidates" where
  "cd_set_live_words c words =
     c\<lparr>cd_words :=
        map (\<lambda>(k, word, incoming).
               let mask = region_mask (cd_bit_offset c) (cd_len c) k
               in (word AND NOT mask) OR (incoming AND mask))
            (enumerate 0 (zip (cd_words c) words))
        @ drop (length words) (cd_words c)\<rparr>"

definition cd_scratch :: "candidates \<Rightarrow> u32 list \<Rightarrow> candidates" where
  "cd_scratch c words = c\<lparr>cd_words := words\<rparr>"

text \<open>The division of a region at a word boundary; the two parts borrow disjoint words.\<close>

definition cd_split_at_word_boundary :: "candidates \<Rightarrow> nat \<Rightarrow> (candidates \<times> candidates) option" where
  "cd_split_at_word_boundary c mid =
     do {
       assert_that (mid > 0 \<and> mid < cd_len c);
       let word_mid_bits = cd_bit_offset c + mid;
       assert_that (word_mid_bits mod 32 = 0);
       let word_mid = word_mid_bits div 32;
       assert_that (mid \<le> length (cd_parents c) \<and> word_mid \<le> length (cd_words c));
       Some (\<lparr>cd_values = take mid (cd_values c), cd_parents = take mid (cd_parents c),
              cd_words = take word_mid (cd_words c), cd_bit_offset = cd_bit_offset c\<rparr>,
             \<lparr>cd_values = drop mid (cd_values c), cd_parents = drop mid (cd_parents c),
              cd_words = drop word_mid (cd_words c), cd_bit_offset = 0\<rparr>)
     }"

subsection \<open>Runs of equal parent tag\<close>

function run_end :: "u32 list \<Rightarrow> u32 \<Rightarrow> nat \<Rightarrow> nat" where
  "run_end parents parent e =
     (if e < length parents \<and> parents ! e = parent then run_end parents parent (e + 1) else e)"
  by pat_completeness auto
termination
  by (relation "measure (\<lambda>(ps, p, e). length ps - e)") auto

declare run_end.simps [simp del]

lemma run_end_ge: "e \<le> run_end ps p e"
  by (induction ps p e rule: run_end.induct) (subst run_end.simps, auto)

text \<open>
  One iteration takes the maximal run from \<open>start\<close>, lends its words to \<open>confirm\<close> and writes them
  back. The recursion carries the words; values, tags and the bit offset do not change.
\<close>

function for_each_parent_from ::
  "(u32 \<Rightarrow> candidates \<Rightarrow> candidates option) \<Rightarrow> candidates \<Rightarrow> u32 list \<Rightarrow> nat \<Rightarrow> u32 list option" where
  "for_each_parent_from confirm c words start =
     (if start < length (cd_parents c) then
        let parent = cd_parents c ! start;
            e = run_end (cd_parents c) parent (start + 1);
            first = (cd_bit_offset c + start) div 32;
            last = (cd_bit_offset c + e - 1) div 32
        in do {
          values \<leftarrow> slice (cd_values c) start e;
          parents \<leftarrow> slice (cd_parents c) start e;
          ws \<leftarrow> slice words first (last + 1);
          run \<leftarrow> confirm parent \<lparr>cd_values = values, cd_parents = parents, cd_words = ws,
                                   cd_bit_offset = (cd_bit_offset c + start) mod 32\<rparr>;
          for_each_parent_from confirm c (take first words @ cd_words run @ drop (last + 1) words) e
        }
      else Some words)"
  by pat_completeness auto
termination
proof (relation "measure (\<lambda>(f, c, ws, start). length (cd_parents c) - start)", goal_cases)
  case (2 confirm c words start x e xb xc xd xe xf xg)
  then have "start + 1 \<le> e" using run_end_ge by simp
  with 2 show ?case by auto
qed simp

declare for_each_parent_from.simps [simp del]

definition cd_for_each_parent ::
  "candidates \<Rightarrow> (u32 \<Rightarrow> candidates \<Rightarrow> candidates option) \<Rightarrow> candidates option" where
  "cd_for_each_parent c confirm =
     do { ws \<leftarrow> for_each_parent_from confirm c (cd_words c) 0; Some (c\<lparr>cd_words := ws\<rparr>) }"

section \<open>Regions and what a confirmer does to them\<close>

definition cd_wf :: "candidates \<Rightarrow> bool" where
  "cd_wf c \<longleftrightarrow> cd_bit_offset c < 32 \<and> length (cd_parents c) = length (cd_values c)
     \<and> length (cd_words c) = words_for (cd_bit_offset c + length (cd_values c))"

definition cd_alive :: "candidates \<Rightarrow> nat \<Rightarrow> bool" where
  "cd_alive c i \<longleftrightarrow> wbit (cd_words c) (cd_bit_offset c + i)"

text \<open>Same region, other liveness words of the same number.\<close>

definition cd_same_shape :: "candidates \<Rightarrow> candidates \<Rightarrow> bool" where
  "cd_same_shape c c' \<longleftrightarrow> cd_values c' = cd_values c \<and> cd_parents c' = cd_parents c
     \<and> cd_bit_offset c' = cd_bit_offset c \<and> length (cd_words c') = length (cd_words c)"

text \<open>The entries \<open>i\<close> with \<open>\<not> K i\<close> are dead in \<open>c'\<close>; every other bit, in or out of the region, is as in \<open>c\<close>.\<close>

definition cd_keeps :: "(nat \<Rightarrow> bool) \<Rightarrow> candidates \<Rightarrow> candidates \<Rightarrow> bool" where
  "cd_keeps K c c' \<longleftrightarrow> cd_same_shape c c' \<and>
     (\<forall>k. wbit (cd_words c') k \<longleftrightarrow> wbit (cd_words c) k \<and>
        (cd_bit_offset c \<le> k \<longrightarrow> k < cd_bit_offset c + cd_len c \<longrightarrow> K (k - cd_bit_offset c)))"

definition cd_filters :: "(u32 \<Rightarrow> raw_inline \<Rightarrow> bool) \<Rightarrow> candidates \<Rightarrow> candidates \<Rightarrow> bool" where
  "cd_filters Q c c' \<longleftrightarrow> cd_keeps (\<lambda>i. Q (cd_parents c ! i) (cd_values c ! i)) c c'"

lemma cd_same_shape_refl [simp]: "cd_same_shape c c"
  by (simp add: cd_same_shape_def)

lemma cd_same_shape_wf: "cd_same_shape c c' \<Longrightarrow> cd_wf c \<Longrightarrow> cd_wf c'"
  by (simp add: cd_same_shape_def cd_wf_def)

lemma cd_same_shape_words: "length ws = length (cd_words c) \<Longrightarrow> cd_same_shape c (c\<lparr>cd_words := ws\<rparr>)"
  by (simp add: cd_same_shape_def)

lemma cd_keeps_wf: "cd_keeps K c c' \<Longrightarrow> cd_wf c \<Longrightarrow> cd_wf c'"
  by (auto simp: cd_keeps_def intro: cd_same_shape_wf)

lemma cd_keeps_cong:
  assumes "\<And>i. i < cd_len c \<Longrightarrow> cd_alive c i \<Longrightarrow> K i = L i"
  shows "cd_keeps K c c' = cd_keeps L c c'"
proof -
  have "wbit (cd_words c) k \<and> (cd_bit_offset c \<le> k \<longrightarrow> k < cd_bit_offset c + cd_len c \<longrightarrow>
      K (k - cd_bit_offset c)) \<longleftrightarrow> wbit (cd_words c) k \<and> (cd_bit_offset c \<le> k \<longrightarrow>
      k < cd_bit_offset c + cd_len c \<longrightarrow> L (k - cd_bit_offset c))" for k
    using assms [of "k - cd_bit_offset c"] by (auto simp: cd_alive_def)
  then show ?thesis by (simp add: cd_keeps_def)
qed

lemma cd_keeps_all [simp]: "cd_keeps (\<lambda>_. True) c c"
  by (simp add: cd_keeps_def)

lemma cd_keeps_trans:
  "cd_keeps K c c1 \<Longrightarrow> cd_keeps L c1 c2 \<Longrightarrow> cd_keeps (\<lambda>i. K i \<and> L i) c c2"
  by (auto simp: cd_keeps_def cd_same_shape_def cd_len_def)

lemma cd_keeps_alive:
  "cd_keeps K c c' \<Longrightarrow> i < cd_len c \<Longrightarrow> cd_alive c' i \<longleftrightarrow> cd_alive c i \<and> K i"
  by (simp add: cd_keeps_def cd_alive_def cd_same_shape_def)

lemma cd_filters_wf: "cd_filters Q c c' \<Longrightarrow> cd_wf c \<Longrightarrow> cd_wf c'"
  unfolding cd_filters_def by (rule cd_keeps_wf)

lemma cd_filters_shape: "cd_filters Q c c' \<Longrightarrow> cd_same_shape c c'"
  by (simp add: cd_filters_def cd_keeps_def)

lemma cd_filters_refl [simp]: "cd_filters (\<lambda>_ _. True) c c"
  by (simp add: cd_filters_def)

lemma cd_filters_trans:
  assumes "cd_filters P c c1" "cd_filters Q c1 c2"
  shows "cd_filters (\<lambda>p x. P p x \<and> Q p x) c c2"
proof -
  have "cd_values c1 = cd_values c" "cd_parents c1 = cd_parents c"
    using cd_filters_shape [OF assms(1)] by (auto simp: cd_same_shape_def)
  with assms show ?thesis unfolding cd_filters_def by (auto dest: cd_keeps_trans)
qed

lemma cd_filters_alive:
  "cd_filters Q c c' \<Longrightarrow> i < cd_len c \<Longrightarrow>
     cd_alive c' i \<longleftrightarrow> cd_alive c i \<and> Q (cd_parents c ! i) (cd_values c ! i)"
  unfolding cd_filters_def by (rule cd_keeps_alive)

lemma cd_word_in: "cd_wf c \<Longrightarrow> i < cd_len c \<Longrightarrow> (cd_bit_offset c + i) div 32 < length (cd_words c)"
  by (auto simp: cd_wf_def cd_len_def intro: words_for_div)

lemma cd_is_live_eq: "cd_wf c \<Longrightarrow> i < cd_len c \<Longrightarrow> cd_is_live c i = Some (cd_alive c i)"
  by (simp add: cd_is_live_def cd_word_in word_bit_set_iff cd_alive_def wbit_def Let_def)

lemma cd_kill_keeps:
  assumes "cd_wf c" "i < cd_len c"
  shows "\<exists>c'. cd_kill c i = Some c' \<and> cd_keeps (\<lambda>j. j \<noteq> i) c c'"
  using cd_word_in [OF assms] assms(2)
  by (auto simp: cd_kill_def Let_def cd_keeps_def cd_same_shape_def wbit_clear_one cd_len_def)

lemma cd_retain_step:
  assumes "cd_wf c" "i < cd_len c"
  shows "\<exists>c'. do {
      live \<leftarrow> cd_is_live c i;
      v \<leftarrow> idx (cd_values c) i;
      if live \<and> \<not> keep i v then cd_kill c i else Some c
    } = Some c' \<and> cd_keeps (\<lambda>j. j = i \<longrightarrow> keep i (cd_values c ! i)) c c'"
proof (cases "cd_alive c i \<and> \<not> keep i (cd_values c ! i)")
  case True
  then show ?thesis
    using cd_kill_keeps [OF assms] assms by (auto simp: cd_is_live_eq cd_len_def)
next
  case False
  then have "cd_keeps (\<lambda>j. j = i \<longrightarrow> keep i (cd_values c ! i)) c c"
    by (intro cd_keeps_cong [THEN iffD1, OF _ cd_keeps_all]) auto
  with False show ?thesis using assms by (auto simp: cd_is_live_eq cd_len_def)
qed

lemma cd_retain_by_keeps:
  assumes "cd_wf c"
  shows "\<exists>c'. cd_retain_by c keep = Some c' \<and> cd_keeps (\<lambda>i. keep i (cd_values c ! i)) c c'"
proof -
  let ?I = "\<lambda>n c'. cd_keeps (\<lambda>i. i < n \<longrightarrow> keep i (cd_values c ! i)) c c'"
  have "\<exists>c'. cd_retain_by c keep = Some c' \<and> ?I (length [0..<cd_len c]) c'"
    unfolding cd_retain_by_def
  proof (rule for_each_invariant, goal_cases)
    case (2 n c1)
    then have sh: "cd_values c1 = cd_values c" "cd_len c1 = cd_len c"
      by (auto simp: cd_keeps_def cd_same_shape_def cd_len_def)
    have wf: "cd_wf c1" using 2(2) assms by (rule cd_keeps_wf)
    have n: "n < cd_len c1" "[0..<cd_len c] ! n = n" using 2 sh by simp_all
    obtain c2 where c2: "do {
        live \<leftarrow> cd_is_live c1 n;
        v \<leftarrow> idx (cd_values c1) n;
        if live \<and> \<not> keep n v then cd_kill c1 n else Some c1
      } = Some c2" "cd_keeps (\<lambda>j. j = n \<longrightarrow> keep n (cd_values c ! n)) c1 c2"
      using cd_retain_step [OF wf n(1)] sh by auto
    have "cd_keeps (\<lambda>i. (i < n \<longrightarrow> keep i (cd_values c ! i)) \<and> (i = n \<longrightarrow> keep n (cd_values c ! n))) c c2"
      using 2(2) c2(2) by (rule cd_keeps_trans)
    then have "?I (Suc n) c2" by (rule cd_keeps_cong [THEN iffD1, rotated]) (auto simp: less_Suc_eq)
    with c2(1) show ?case unfolding n(2) by blast
  qed simp
  moreover have "?I (length [0..<cd_len c]) c' = cd_keeps (\<lambda>i. keep i (cd_values c ! i)) c c'" for c'
    by (rule cd_keeps_cong) simp
  ultimately show ?thesis by simp
qed

lemma cd_retain_filters:
  "cd_wf c \<Longrightarrow> \<exists>c'. cd_retain c keep = Some c' \<and> cd_filters (\<lambda>_. keep) c c'"
  using cd_retain_by_keeps [of c "\<lambda>_. keep"] by (simp add: cd_retain_def cd_filters_def)

subsection \<open>The word-level operations\<close>

lemma cd_bits_in_words:
  "cd_wf c \<Longrightarrow> cd_bit_offset c \<le> k \<Longrightarrow> k < cd_bit_offset c + cd_len c \<Longrightarrow> k div 32 < length (cd_words c)"
  by (auto simp: cd_wf_def cd_len_def intro: words_for_div)

lemma wbit_cd_live_words:
  "wbit (cd_live_words c) k \<longleftrightarrow>
     wbit (cd_words c) k \<and> cd_bit_offset c \<le> k \<and> k < cd_bit_offset c + cd_len c"
  by (rule wbit_map_mask) (simp_all add: cd_live_words_def nth_enumerate_eq)

lemma length_cd_live_words [simp]: "length (cd_live_words c) = length (cd_words c)"
  by (simp add: cd_live_words_def)

lemma wbit_cd_set_live_words:
  assumes "length ws = length (cd_words c)"
  shows "wbit (cd_words (cd_set_live_words c ws)) k \<longleftrightarrow>
    (if cd_bit_offset c \<le> k \<and> k < cd_bit_offset c + cd_len c then wbit ws k else wbit (cd_words c) k)"
proof (cases "k div 32 < length (cd_words c)")
  case True
  have "k div 32 * 32 + k mod 32 = k" by simp
  then show ?thesis
    using assms True
    by (auto simp: cd_set_live_words_def wbit_def nth_enumerate_eq Let_def bit_simps bit_region_mask)
next
  case False
  then show ?thesis using assms by (simp add: cd_set_live_words_def wbit_def)
qed

lemma cd_set_live_words_shape:
  "length ws = length (cd_words c) \<Longrightarrow> cd_same_shape c (cd_set_live_words c ws)"
  by (simp add: cd_set_live_words_def cd_same_shape_def)

text \<open>Handing the words out and writing them back changes nothing, neighbours included.\<close>

lemma cd_set_live_words_live_words:
  "cd_set_live_words c (cd_live_words c) = c"
proof -
  have "cd_words (cd_set_live_words c (cd_live_words c)) = cd_words c"
    by (rule wbit_ext) (auto simp: wbit_cd_set_live_words wbit_cd_live_words
        cd_set_live_words_shape [unfolded cd_same_shape_def])
  then show ?thesis by (simp add: cd_set_live_words_def)
qed

lemma cd_kill_all_keeps: "cd_keeps (\<lambda>_. False) c (cd_kill_all c)"
proof -
  have "wbit (cd_words (cd_kill_all c)) k \<longleftrightarrow>
      wbit (cd_words c) k \<and> \<not> (cd_bit_offset c \<le> k \<and> k < cd_bit_offset c + cd_len c)" for k
  proof -
    have "k div 32 * 32 + k mod 32 = k" by simp
    then show ?thesis
      by (auto simp: cd_kill_all_def wbit_def nth_enumerate_eq bit_simps bit_region_mask)
  qed
  then show ?thesis by (auto simp: cd_keeps_def cd_same_shape_def cd_kill_all_def)
qed

subsection \<open>Runs\<close>

lemma run_end_bound: "e \<le> length ps \<Longrightarrow> run_end ps p e \<le> length ps"
  by (induction ps p e rule: run_end.induct) (subst run_end.simps, auto)

lemma run_end_same: "e \<le> k \<Longrightarrow> k < run_end ps p e \<Longrightarrow> ps ! k = p"
proof (induction ps p e rule: run_end.induct)
  case (1 ps p e)
  have "k < (if e < length ps \<and> ps ! e = p then run_end ps p (e + 1) else e)"
    using 1(3) by (simp add: run_end.simps [of ps p e])
  with 1(1,2) show ?case by (cases "k = e") (auto split: if_splits)
qed

text \<open>
  The sub-region of a run: its words are a slice of the region's, so a filter of the run is a filter
  of the region on the run's entries.
\<close>

definition cd_run :: "candidates \<Rightarrow> u32 list \<Rightarrow> nat \<Rightarrow> nat \<Rightarrow> candidates" where
  "cd_run c words start e =
     \<lparr>cd_values = take (e - start) (drop start (cd_values c)),
      cd_parents = take (e - start) (drop start (cd_parents c)),
      cd_words = take ((cd_bit_offset c + e - 1) div 32 + 1 - (cd_bit_offset c + start) div 32)
                   (drop ((cd_bit_offset c + start) div 32) words),
      cd_bit_offset = (cd_bit_offset c + start) mod 32\<rparr>"

lemma cd_run_wf:
  assumes "cd_wf c" "length words = length (cd_words c)" "start < e" "e \<le> cd_len c"
  shows "cd_wf (cd_run c words start e)"
    and "(cd_bit_offset c + e - 1) div 32 + 1 \<le> length words"
    and "(cd_bit_offset c + start) div 32 \<le> (cd_bit_offset c + e - 1) div 32"
proof -
  let ?o = "cd_bit_offset c"
  define f r where "f = (?o + start) div 32" and "r = (?o + start) mod 32"
  define l t where "l = (?o + e - 1) div 32" and "t = (?o + e - 1) mod 32"
  have pos: "?o + start = 32 * f + r" "?o + e - 1 = 32 * l + t" "r < 32" "t < 32"
    by (simp_all add: f_def r_def l_def t_def)
  have "e - 1 < cd_len c" "?o + (e - 1) = ?o + e - 1" using assms(3,4) by auto
  then show l: "(?o + e - 1) div 32 + 1 \<le> length words"
    using cd_word_in [OF assms(1)] assms(2) by (metis Suc_eq_plus1 Suc_leI)
  show fl: "(?o + start) div 32 \<le> (?o + e - 1) div 32" using assms(3) by (auto intro: div_le_mono)
  then obtain d where d: "l = f + d" unfolding f_def l_def using le_Suc_ex by blast
  have "r + (e - start) = 32 * d + t + 1" using pos(1,2) d assms(3) by simp
  then have "words_for (r + (e - start)) = l + 1 - f"
    using words_for_Suc_pos [OF pos(4), of d] d by simp
  moreover have "l + 1 \<le> length words" using l by (simp add: l_def)
  ultimately show "cd_wf (cd_run c words start e)"
    using assms pos(3) unfolding cd_run_def cd_wf_def f_def [symmetric] r_def [symmetric] l_def [symmetric]
    by (simp add: cd_len_def)
qed

lemma cd_run_filters:
  assumes "cd_wf c" "length words = length (cd_words c)" "start < e" "e \<le> cd_len c"
    and Q: "cd_filters Q (cd_run c words start e) run"
  defines "words' \<equiv> take ((cd_bit_offset c + start) div 32) words @ cd_words run
      @ drop ((cd_bit_offset c + e - 1) div 32 + 1) words"
  shows "length words' = length words"
    and "wbit words' k \<longleftrightarrow> wbit words k \<and> (cd_bit_offset c + start \<le> k \<longrightarrow>
      k < cd_bit_offset c + e \<longrightarrow> Q (cd_parents c ! (k - cd_bit_offset c)) (cd_values c ! (k - cd_bit_offset c)))"
proof -
  let ?o = "cd_bit_offset c"
  define f r where "f = (?o + start) div 32" and "r = (?o + start) mod 32"
  define l t where "l = (?o + e - 1) div 32" and "t = (?o + e - 1) mod 32"
  have pos: "?o + start = 32 * f + r" "?o + e - 1 = 32 * l + t" "r < 32" "t < 32"
    by (simp_all add: f_def r_def l_def t_def)
  note run = cd_run_wf [OF assms(1-4), folded f_def r_def l_def]
  have len: "length (cd_words run) = l + 1 - f"
    using cd_filters_shape [OF Q] run unfolding cd_same_shape_def cd_run_def
    unfolding f_def [symmetric] r_def [symmetric] l_def [symmetric] by simp
  have w: "words' = take f words @ cd_words run @ drop (l + 1) words"
    by (simp add: words'_def f_def l_def)
  show "length words' = length words" using len run by (simp add: w)
  show "wbit words' k \<longleftrightarrow> wbit words k \<and> (?o + start \<le> k \<longrightarrow> k < ?o + e \<longrightarrow>
      Q (cd_parents c ! (k - ?o)) (cd_values c ! (k - ?o)))"
  proof -
    have le: "f \<le> l + 1" using run(3) by simp
    consider (before) "k < 32 * f" | (inside) j where "k = 32 * f + j" "j < 32 * (l + 1 - f)"
      | (after) j where "k = 32 * (l + 1) + j"
    proof (cases "k < 32 * f")
      case False
      then obtain j where j: "k = 32 * f + j" using le_Suc_ex not_less by blast
      show ?thesis
      proof (cases "j < 32 * (l + 1 - f)")
        case False
        then obtain i where "j = 32 * (l + 1 - f) + i" using le_Suc_ex not_less by blast
        then have "k = 32 * (l + 1) + i" using j le by simp
        then show ?thesis by (rule that(3))
      qed (use j that(2) in blast)
    qed (use that(1) in blast)
    then show ?thesis
    proof cases
      case before
      then show ?thesis using run len pos(1) by (simp add: w wbit_append wbit_take)
    next
      case inside
      have "wbit words' k \<longleftrightarrow> wbit (cd_words run) j"
        using inside run len by (simp add: w wbit_append)
      also have "\<dots> \<longleftrightarrow> wbit (cd_words (cd_run c words start e)) j \<and> (r \<le> j \<longrightarrow> j < r + (e - start) \<longrightarrow>
          Q (cd_parents c ! (start + (j - r))) (cd_values c ! (start + (j - r))))"
        using Q assms(1,4) by (auto simp: cd_filters_def cd_keeps_def cd_run_def cd_len_def r_def cd_wf_def)
      also have "wbit (cd_words (cd_run c words start e)) j \<longleftrightarrow> wbit words k"
        using inside unfolding cd_run_def f_def [symmetric] l_def [symmetric]
        by (simp add: wbit_take wbit_drop)
      also have "r \<le> j \<longleftrightarrow> ?o + start \<le> k" using pos(1) inside by linarith
      also have "j < r + (e - start) \<longleftrightarrow> k < ?o + e" using pos(1) inside assms(3) by linarith
      also have "(?o + start \<le> k \<longrightarrow> k < ?o + e \<longrightarrow>
          Q (cd_parents c ! (start + (j - r))) (cd_values c ! (start + (j - r)))) \<longleftrightarrow>
        (?o + start \<le> k \<longrightarrow> k < ?o + e \<longrightarrow> Q (cd_parents c ! (k - ?o)) (cd_values c ! (k - ?o)))"
      proof -
        have "?o + start \<le> k \<Longrightarrow> start + (j - r) = k - ?o" using pos(1) inside by linarith
        then show ?thesis by auto
      qed
      finally show ?thesis .
    next
      case after
      have "\<not> k < ?o + e" using pos(2,4) after assms(3) by simp
      moreover have "wbit words' k \<longleftrightarrow> wbit words k"
      proof -
        have "length (take f words @ cd_words run) = l + 1" using run len by simp
        then show ?thesis
          using after wbit_append [of "take f words @ cd_words run" "drop (l + 1) words" k]
          by (simp add: w wbit_drop)
      qed
      ultimately show ?thesis by simp
    qed
  qed
qed

text \<open>
  The run-wise walk filters the region by what the per-run confirmer filters: if confirming a run of
  tag \<open>p\<close> is \<open>Q p\<close> on its values, the walk is \<open>Q\<close>, and it never panics.
\<close>

lemma for_each_parent_from_filters:
  assumes "cd_wf c" "length words = length (cd_words c)" "start \<le> cd_len c"
    and confirm: "\<And>p r. cd_wf r \<Longrightarrow> cd_len r \<le> cd_len c \<Longrightarrow> set (cd_parents r) = {p} \<Longrightarrow>
        p \<in> set (cd_parents c) \<Longrightarrow> set (cd_values r) \<subseteq> set (cd_values c) \<Longrightarrow>
        \<exists>r'. confirm p r = Some r' \<and> cd_filters Q r r'"
  shows "\<exists>words'. for_each_parent_from confirm c words start = Some words'
    \<and> length words' = length words
    \<and> (\<forall>k. wbit words' k \<longleftrightarrow> wbit words k \<and> (cd_bit_offset c + start \<le> k \<longrightarrow>
        k < cd_bit_offset c + cd_len c \<longrightarrow>
        Q (cd_parents c ! (k - cd_bit_offset c)) (cd_values c ! (k - cd_bit_offset c))))"
  using assms(2,3)
proof (induction "cd_len c - start" arbitrary: words start rule: less_induct)
  case less
  note wf = assms(1) and len = less.prems(1)
  have lens: "length (cd_parents c) = cd_len c" using wf by (simp add: cd_wf_def cd_len_def)
  show ?case
  proof (cases "start < cd_len c")
    case False
    then show ?thesis using lens by (subst for_each_parent_from.simps) auto
  next
    case True
    define p e where "p = cd_parents c ! start" and "e = run_end (cd_parents c) p (start + 1)"
    define f l where "f = (cd_bit_offset c + start) div 32" and "l = (cd_bit_offset c + e - 1) div 32"
    have e: "start < e" "e \<le> cd_len c"
      using run_end_ge [of "start + 1"] run_end_bound [of "start + 1" "cd_parents c" p] True lens
      by (auto simp: e_def Suc_le_lessD)
    note run = cd_run_wf [OF wf len e, folded f_def l_def]
    have same: "set (cd_parents (cd_run c words start e)) = {p}"
    proof -
      have "cd_parents c ! k = p" if "start \<le> k" "k < e" for k
        using that run_end_same [of "start + 1" k "cd_parents c" p] by (cases "k = start") (auto simp: p_def e_def)
      then have "cd_parents (cd_run c words start e) = replicate (e - start) p"
        using e lens by (auto simp: cd_run_def list_eq_iff_nth_eq)
      then show ?thesis using e by simp
    qed
    have sub: "set (cd_values (cd_run c words start e)) \<subseteq> set (cd_values c)"
      by (auto simp: cd_run_def dest: in_set_takeD in_set_dropD)
    have "p \<in> set (cd_parents c)" using True lens by (simp add: p_def)
    moreover have "cd_len (cd_run c words start e) \<le> cd_len c" by (simp add: cd_run_def cd_len_def)
    ultimately obtain r where r: "confirm p (cd_run c words start e) = Some r"
      "cd_filters Q (cd_run c words start e) r"
      using confirm [OF run(1) _ same _ sub] by blast
    define w where "w = take f words @ cd_words r @ drop (l + 1) words"
    note step = cd_run_filters [OF wf len e r(2), folded f_def l_def, folded w_def]
    have sl: "slice (cd_values c) start e = Some (take (e - start) (drop start (cd_values c)))"
      "slice (cd_parents c) start e = Some (take (e - start) (drop start (cd_parents c)))"
      "slice words f (l + 1) = Some (take (l + 1 - f) (drop f words))"
      using e lens run by (auto simp: cd_len_def)
    have unf: "for_each_parent_from confirm c words start = for_each_parent_from confirm c w e"
    proof -
      have "confirm p \<lparr>cd_values = take (e - start) (drop start (cd_values c)),
          cd_parents = take (e - start) (drop start (cd_parents c)),
          cd_words = take (l + 1 - f) (drop f words),
          cd_bit_offset = (cd_bit_offset c + start) mod 32\<rparr> = Some r"
        using r(1) by (simp only: cd_run_def f_def l_def)
      then show ?thesis
        unfolding for_each_parent_from.simps [of confirm c words start] Let_def
        by (simp only: p_def [symmetric] e_def [symmetric] f_def [symmetric] l_def [symmetric]
            w_def sl True lens if_True Option.bind.bind_lunit)
    qed
    have "\<exists>words'. for_each_parent_from confirm c w e = Some words' \<and> length words' = length w
      \<and> (\<forall>k. wbit words' k \<longleftrightarrow> wbit w k \<and> (cd_bit_offset c + e \<le> k \<longrightarrow>
        k < cd_bit_offset c + cd_len c \<longrightarrow>
        Q (cd_parents c ! (k - cd_bit_offset c)) (cd_values c ! (k - cd_bit_offset c))))"
      using less.hyps [of e w] step(1) len e by auto
    moreover have "(wbit words k \<and> (cd_bit_offset c + start \<le> k \<longrightarrow> k < cd_bit_offset c + e \<longrightarrow> B)) \<and>
        (cd_bit_offset c + e \<le> k \<longrightarrow> k < cd_bit_offset c + cd_len c \<longrightarrow> B) \<longleftrightarrow>
      wbit words k \<and> (cd_bit_offset c + start \<le> k \<longrightarrow> k < cd_bit_offset c + cd_len c \<longrightarrow> B)" for B k
      using e by (cases "k < cd_bit_offset c + e") auto
    ultimately show ?thesis unfolding unf step by (simp only: step(1))
  qed
qed

lemma cd_for_each_parent_filters:
  assumes "cd_wf c"
    and "\<And>p r. cd_wf r \<Longrightarrow> cd_len r \<le> cd_len c \<Longrightarrow> set (cd_parents r) = {p} \<Longrightarrow>
        p \<in> set (cd_parents c) \<Longrightarrow> set (cd_values r) \<subseteq> set (cd_values c) \<Longrightarrow>
        \<exists>r'. confirm p r = Some r' \<and> cd_filters Q r r'"
  shows "\<exists>c'. cd_for_each_parent c confirm = Some c' \<and> cd_filters Q c c'"
proof -
  obtain ws where "for_each_parent_from confirm c (cd_words c) 0 = Some ws"
    "length ws = length (cd_words c)"
    "\<forall>k. wbit ws k \<longleftrightarrow> wbit (cd_words c) k \<and> (cd_bit_offset c + 0 \<le> k \<longrightarrow>
        k < cd_bit_offset c + cd_len c \<longrightarrow>
        Q (cd_parents c ! (k - cd_bit_offset c)) (cd_values c ! (k - cd_bit_offset c)))"
    using for_each_parent_from_filters [of c "cd_words c" 0 confirm Q, OF assms(1) refl le0 assms(2)]
    by blast
  then show ?thesis
    by (simp add: cd_for_each_parent_def cd_filters_def cd_keeps_def cd_same_shape_def)
qed

section \<open>Properties\<close>

lemma cd_split_eq:
  assumes "cd_wf c" "0 < mid" "mid < cd_len c" "(cd_bit_offset c + mid) mod 32 = 0"
  shows "\<exists>l r. cd_split_at_word_boundary c mid = Some (l, r) \<and> cd_wf l \<and> cd_wf r
    \<and> cd_words l @ cd_words r = cd_words c \<and> cd_values l @ cd_values r = cd_values c
    \<and> cd_parents l @ cd_parents r = cd_parents c
    \<and> (\<forall>i < mid. cd_alive l i \<longleftrightarrow> cd_alive c i) \<and> (\<forall>i. cd_alive r i \<longleftrightarrow> cd_alive c (mid + i))"
proof -
  define w where "w = (cd_bit_offset c + mid) div 32"
  have w: "cd_bit_offset c + mid = 32 * w" using assms(4) by (auto simp: w_def)
  have off: "cd_bit_offset c < 32" and ps: "length (cd_parents c) = cd_len c"
    and ws: "length (cd_words c) = words_for (cd_bit_offset c + cd_len c)"
    using assms(1) by (auto simp: cd_wf_def cd_len_def)
  have "cd_bit_offset c + cd_len c = (cd_len c - mid) + 32 * w" using assms(3) w by simp
  then have wl: "length (cd_words c) = words_for (cd_len c - mid) + w"
    using ws by (simp add: words_for_def)
  define l where "l = \<lparr>cd_values = take mid (cd_values c), cd_parents = take mid (cd_parents c),
      cd_words = take w (cd_words c), cd_bit_offset = cd_bit_offset c\<rparr>"
  define r where "r = \<lparr>cd_values = drop mid (cd_values c), cd_parents = drop mid (cd_parents c),
      cd_words = drop w (cd_words c), cd_bit_offset = 0\<rparr>"
  have "cd_split_at_word_boundary c mid = Some (l, r)"
    using assms ps wl by (simp add: cd_split_at_word_boundary_def l_def r_def w_def Let_def)
  moreover have "cd_wf l" using off ps assms(3) w wl by (auto simp: cd_wf_def l_def cd_len_def words_for_def)
  moreover have "cd_wf r" using ps assms(3) wl by (auto simp: cd_wf_def r_def cd_len_def)
  moreover have "\<forall>i < mid. cd_alive l i \<longleftrightarrow> cd_alive c i"
    using w by (auto simp: cd_alive_def l_def wbit_take)
  moreover have "cd_alive r i \<longleftrightarrow> cd_alive c (mid + i)" for i
    using w by (auto simp: cd_alive_def r_def wbit_drop) (metis add.assoc)+
  ultimately show ?thesis by (auto simp: l_def r_def)
qed

text \<open>
  C37. \<open>for_each_parent\<close> hands every maximal run of candidates of one parent to the callback, each with
  the words it occupies, shared boundary words included. If the callback filters every run by a
  predicate on (parent, value), the whole region is filtered by it: no run's kills leak into a
  neighbour or outside the region.
\<close>

theorem for_each_parent_filters:
  assumes "cd_wf c"
    and "\<And>p r. cd_wf r \<Longrightarrow> set (cd_parents r) = {p} \<Longrightarrow> p \<in> set (cd_parents c) \<Longrightarrow>
      \<exists>r'. confirm p r = Some r' \<and> cd_filters Q r r'"
  shows "\<exists>c'. cd_for_each_parent c confirm = Some c' \<and> cd_filters Q c c'"
  using assms by (intro cd_for_each_parent_filters) blast+

theorem for_each_parent_filters_witness:
  "\<exists>c'. cd_for_each_parent
      \<lparr>cd_values = map inline_pad [[1], [2], [3], [4]], cd_parents = [0, 0, 1, 1], cd_words = [0xC0000000, 3],
       cd_bit_offset = 30\<rparr> (\<lambda>p r. cd_retain r (\<lambda>x. x \<noteq> inline_pad [2])) = Some c'
    \<and> cd_filters (\<lambda>p x. x \<noteq> inline_pad [2])
      \<lparr>cd_values = map inline_pad [[1], [2], [3], [4]], cd_parents = [0, 0, 1, 1], cd_words = [0xC0000000, 3],
       cd_bit_offset = 30\<rparr> c'"
  by (rule for_each_parent_filters) (simp_all add: cd_wf_def words_for_def cd_retain_filters)

text \<open>
  The liveness of a region as words: writing back what was read is the identity, the words read
  are clear outside the region, and writing replaces exactly the region's bits.
\<close>

theorem live_words_round_trip:
  "cd_set_live_words c (cd_live_words c) = c \<and>
   (wbit (cd_live_words c) k \<longleftrightarrow> wbit (cd_words c) k \<and> cd_bit_offset c \<le> k \<and> k < cd_bit_offset c + cd_len c) \<and>
   (length ws = length (cd_words c) \<longrightarrow>
     (wbit (cd_words (cd_set_live_words c ws)) k \<longleftrightarrow>
       (if cd_bit_offset c \<le> k \<and> k < cd_bit_offset c + cd_len c then wbit ws k else wbit (cd_words c) k)))"
  using cd_set_live_words_live_words wbit_cd_live_words wbit_cd_set_live_words by blast

theorem live_words_round_trip_witness:
  "wbit (cd_words (cd_set_live_words \<lparr>cd_values = [inline_pad [1], inline_pad [2]], cd_parents = [0, 0],
      cd_words = [7], cd_bit_offset = 1\<rparr> [0xF4])) 2"
  using live_words_round_trip [of "\<lparr>cd_values = [inline_pad [1], inline_pad [2]], cd_parents = [0, 0],
      cd_words = [7], cd_bit_offset = 1\<rparr>" 2 "[0xF4]"] by (simp add: cd_len_def wbit_def)

text \<open>
  Splitting a region for two threads: at an interior point on a word boundary the split succeeds,
  the two parts share no word, each is well formed, together they are the region, and each candidate
  keeps its liveness.
\<close>

theorem split_at_word_boundary_disjoint:
  assumes "cd_wf c" "0 < mid" "mid < cd_len c" "(cd_bit_offset c + mid) mod 32 = 0"
  shows "\<exists>l r. cd_split_at_word_boundary c mid = Some (l, r) \<and> cd_wf l \<and> cd_wf r
    \<and> cd_words l @ cd_words r = cd_words c \<and> cd_values l @ cd_values r = cd_values c
    \<and> cd_parents l @ cd_parents r = cd_parents c
    \<and> (\<forall>i < mid. cd_alive l i \<longleftrightarrow> cd_alive c i) \<and> (\<forall>i. cd_alive r i \<longleftrightarrow> cd_alive c (mid + i))"
  using assms by (rule cd_split_eq)

theorem split_at_word_boundary_disjoint_witness:
  "\<exists>l r. cd_split_at_word_boundary \<lparr>cd_values = [inline_pad [1], inline_pad [2], inline_pad [3]], cd_parents = [0, 0, 1],
      cd_words = [0x40000000, 1], cd_bit_offset = 30\<rparr> 2 = Some (l, r) \<and> cd_wf l \<and> cd_wf r"
  using split_at_word_boundary_disjoint [of "\<lparr>cd_values = [inline_pad [1], inline_pad [2], inline_pad [3]],
      cd_parents = [0, 0, 1], cd_words = [0x40000000, 1], cd_bit_offset = 30\<rparr>" 2]
  by (auto simp: cd_wf_def cd_len_def words_for_def)

end
