(* ===== verification/Proposal_Buffer.thy ===== *)
theory Proposal_Buffer
  imports Candidates
begin

text \<open>
  \<open>query/liveness.rs\<close>, the buffer a proposer appends to: \<open>ProposalBuffer\<close> keeps the candidate values,
  one parent tag per value and the packed liveness bits. Its abstraction \<open>pb_rows\<close> is the list of
  (parent tag, value, alive) triples, and every operation is characterised by what it does to that
  list. The invariant \<open>pb_wf\<close> is the two documented ones: the lengths agree, and every bit at or above
  the length is zero (tail-zero).
\<close>

section \<open>The buffer and its operations\<close>

record proposal_buffer =
  pb_entries :: "raw_inline list"
  pb_live :: "u32 list"
  pb_parents :: "u32 list"
  pb_parent :: u32

definition pb_new :: proposal_buffer where
  "pb_new = \<lparr>pb_entries = [], pb_live = [], pb_parents = [], pb_parent = 0\<rparr>"

definition pb_len :: "proposal_buffer \<Rightarrow> nat" where
  "pb_len b = length (pb_entries b)"

definition pb_open :: "u32 \<Rightarrow> proposal_buffer \<Rightarrow> proposal_buffer" where
  "pb_open parent b = b\<lparr>pb_parent := parent\<rparr>"

definition pb_parent_of :: "proposal_buffer \<Rightarrow> nat \<Rightarrow> u32 option" where
  "pb_parent_of b i = idx (pb_parents b) i"

text \<open>The append that \<open>push\<close> and the loop of \<open>rewrite_region\<close> both spell out.\<close>

definition pb_append :: "u32 \<Rightarrow> raw_inline \<Rightarrow> proposal_buffer \<Rightarrow> proposal_buffer option" where
  "pb_append parent v b =
     (let i = length (pb_entries b);
          live = (if i mod 32 = 0 then pb_live b @ [0] else pb_live b)
      in do {
        w \<leftarrow> idx live (i div 32);
        live' \<leftarrow> idx_update live (i div 32) (w OR shl 1 (i mod 32));
        Some (b\<lparr>pb_entries := pb_entries b @ [v], pb_parents := pb_parents b @ [parent], pb_live := live'\<rparr>)
      })"

definition pb_push :: "proposal_buffer \<Rightarrow> raw_inline \<Rightarrow> proposal_buffer option" where
  "pb_push b v = pb_append (pb_parent b) v b"

definition pb_extend :: "proposal_buffer \<Rightarrow> raw_inline list \<Rightarrow> proposal_buffer option" where
  "pb_extend b vs = for_each pb_push b vs"

text \<open>\<open>v.resize(n, x)\<close>.\<close>

definition resize :: "'a list \<Rightarrow> nat \<Rightarrow> 'a \<Rightarrow> 'a list" where
  "resize xs n x = take n xs @ replicate (n - length xs) x"

definition pb_extend_from_slice :: "proposal_buffer \<Rightarrow> raw_inline list \<Rightarrow> proposal_buffer option" where
  "pb_extend_from_slice b vs =
     (let from = length (pb_entries b);
          entries = pb_entries b @ vs;
          to = length entries
      in do {
        live \<leftarrow> set_bits (resize (pb_live b) (words_for to) 0) from to;
        Some (b\<lparr>pb_entries := entries, pb_parents := resize (pb_parents b) to (pb_parent b), pb_live := live\<rparr>)
      })"

definition pb_clear :: "proposal_buffer \<Rightarrow> proposal_buffer" where
  "pb_clear b = b\<lparr>pb_entries := [], pb_live := [], pb_parents := [], pb_parent := 0\<rparr>"

text \<open>The scan of \<open>next_live\<close>, from word \<open>w\<close> with the first word already masked.\<close>

function next_live_from :: "u32 list \<Rightarrow> nat \<Rightarrow> u32 \<Rightarrow> nat option" where
  "next_live_from live w word =
     (if word \<noteq> 0 then Some (w * 32 + trailing_zeros word)
      else if w + 1 \<ge> length live then None
      else next_live_from live (w + 1) (live ! (w + 1)))"
  by pat_completeness auto
termination
  by (relation "measure (\<lambda>(live, w, word). length live - w)") auto

declare next_live_from.simps [simp del]

text \<open>The outer option is the panic of \<open>live[w]\<close>, the inner one the result.\<close>

definition pb_next_live :: "proposal_buffer \<Rightarrow> nat \<Rightarrow> nat option option" where
  "pb_next_live b from =
     (if from \<ge> length (pb_entries b) then Some None
      else do {
        word \<leftarrow> idx (pb_live b) (from div 32);
        Some (next_live_from (pb_live b) (from div 32) (word AND shl (NOT 0) (from mod 32)))
      })"

definition pb_count_live :: "proposal_buffer \<Rightarrow> nat \<Rightarrow> nat option" where
  "pb_count_live b from =
     (if from \<ge> length (pb_entries b) then Some 0
      else
        let first = from div 32 in do {
        word \<leftarrow> idx (pb_live b) first;
        rest \<leftarrow> slice_from (pb_live b) (first + 1);
        Some (count_ones (word AND shl (NOT 0) (from mod 32)) + sum_list (map count_ones rest))
      })"

definition pb_is_live :: "proposal_buffer \<Rightarrow> nat \<Rightarrow> bool option" where
  "pb_is_live b i = do { w \<leftarrow> idx (pb_live b) (i div 32); Some (word_bit_set w (i mod 32)) }"

text \<open>\<open>filter_map\<close> over the enumerated region, reading each entry's liveness bit.\<close>

fun live_only :: "u32 list \<Rightarrow> nat \<Rightarrow> 'a list \<Rightarrow> 'a list option" where
  "live_only live i [] = Some []"
| "live_only live i (x # xs) = do {
     w \<leftarrow> idx live (i div 32);
     ys \<leftarrow> live_only live (i + 1) xs;
     Some (if word_bit_set w (i mod 32) then x # ys else ys)
   }"

definition pb_live_values :: "proposal_buffer \<Rightarrow> nat \<Rightarrow> raw_inline list option" where
  "pb_live_values b from = do { vs \<leftarrow> slice_from (pb_entries b) from; live_only (pb_live b) from vs }"

definition pb_tagged :: "proposal_buffer \<Rightarrow> nat \<Rightarrow> (u32 \<times> raw_inline) list option" where
  "pb_tagged b base = do {
     ps \<leftarrow> slice_from (pb_parents b) base;
     vs \<leftarrow> slice_from (pb_entries b) base;
     live_only (pb_live b) base (zip ps vs)
   }"

text \<open>
  \<open>region\<close> borrows the words from the one that holds bit \<open>base\<close>; \<open>pb_with_region\<close> lends the region to
  a client and puts the client's words back.
\<close>

definition pb_region :: "proposal_buffer \<Rightarrow> nat \<Rightarrow> candidates option" where
  "pb_region b base = do {
     vs \<leftarrow> slice_from (pb_entries b) base;
     ps \<leftarrow> slice_from (pb_parents b) base;
     ws \<leftarrow> slice_from (pb_live b) (base div 32);
     Some \<lparr>cd_values = vs, cd_parents = ps, cd_words = ws, cd_bit_offset = base mod 32\<rparr>
   }"

definition pb_with_region ::
  "proposal_buffer \<Rightarrow> nat \<Rightarrow> (candidates \<Rightarrow> candidates option) \<Rightarrow> proposal_buffer option" where
  "pb_with_region b base f = do {
     c \<leftarrow> pb_region b base;
     c' \<leftarrow> f c;
     Some (b\<lparr>pb_live := take (base div 32) (pb_live b) @ cd_words c'\<rparr>)
   }"

text \<open>One iteration of the compaction loop of \<open>retain_region\<close>; the state is the buffer and \<open>write\<close>.\<close>

definition retain_step ::
  "(u32 \<Rightarrow> raw_inline \<Rightarrow> bool option) \<Rightarrow> proposal_buffer \<times> nat \<Rightarrow> nat \<Rightarrow> (proposal_buffer \<times> nat) option" where
  "retain_step keep s read =
     (case s of (b, write) \<Rightarrow> do {
        p \<leftarrow> idx (pb_parents b) read;
        v \<leftarrow> idx (pb_entries b) read;
        k \<leftarrow> keep p v;
        if k then do {
          es \<leftarrow> idx_update (pb_entries b) write v;
          ps \<leftarrow> idx_update (pb_parents b) write p;
          rw \<leftarrow> idx (pb_live b) (read div 32);
          let b1 = shr rw (read mod 32) AND 1;
          ww \<leftarrow> idx (pb_live b) (write div 32);
          live \<leftarrow> idx_update (pb_live b) (write div 32)
                   ((ww AND NOT (shl 1 (write mod 32))) OR shl b1 (write mod 32));
          Some (b\<lparr>pb_entries := es, pb_parents := ps, pb_live := live\<rparr>, write + 1)
        } else Some s
      })"

definition pb_retain_region ::
  "proposal_buffer \<Rightarrow> nat \<Rightarrow> (u32 \<Rightarrow> raw_inline \<Rightarrow> bool option) \<Rightarrow> proposal_buffer option" where
  "pb_retain_region b base keep = do {
     (b', write) \<leftarrow> for_each (retain_step keep) (b, base) [base..<length (pb_entries b)];
     live \<leftarrow> truncate_live (pb_live b') write;
     Some (b'\<lparr>pb_entries := take write (pb_entries b'), pb_parents := take write (pb_parents b'),
              pb_live := live\<rparr>)
   }"

definition pb_rewrite_region ::
  "proposal_buffer \<Rightarrow> nat \<Rightarrow> (u32 \<times> raw_inline) list \<Rightarrow> proposal_buffer option" where
  "pb_rewrite_region b base vs = do {
     live \<leftarrow> truncate_live (pb_live b) base;
     for_each (\<lambda>b (parent, v). pb_append parent v b)
       (b\<lparr>pb_entries := take base (pb_entries b), pb_parents := take base (pb_parents b), pb_live := live\<rparr>) vs
   }"

definition pb_remap_region :: "proposal_buffer \<Rightarrow> nat \<Rightarrow> u32 list \<Rightarrow> proposal_buffer option" where
  "pb_remap_region b base m = do {
     ps \<leftarrow> slice_from (pb_parents b) base;
     ps' \<leftarrow> map_panic (\<lambda>p. idx m (unat p)) ps;
     Some (b\<lparr>pb_parents := take base (pb_parents b) @ ps'\<rparr>)
   }"

section \<open>Invariant and abstraction\<close>

type_synonym candidate_row = "u32 \<times> raw_inline \<times> bool"

definition pb_wf :: "proposal_buffer \<Rightarrow> bool" where
  "pb_wf b \<longleftrightarrow> length (pb_live b) = words_for (pb_len b) \<and> length (pb_parents b) = pb_len b
     \<and> (\<forall>k. wbit (pb_live b) k \<longrightarrow> k < pb_len b)"

definition pb_rows :: "proposal_buffer \<Rightarrow> candidate_row list" where
  "pb_rows b = map (\<lambda>i. (pb_parents b ! i, pb_entries b ! i, wbit (pb_live b) i)) [0..<pb_len b]"

definition row_tag :: "candidate_row \<Rightarrow> u32" where "row_tag r = fst r"
definition row_value :: "candidate_row \<Rightarrow> raw_inline" where "row_value r = fst (snd r)"
definition row_live :: "candidate_row \<Rightarrow> bool" where "row_live r = snd (snd r)"

lemma row_sel [simp]: "row_tag (p, v, l) = p" "row_value (p, v, l) = v" "row_live (p, v, l) = l"
  by (simp_all add: row_tag_def row_value_def row_live_def)

lemma length_pb_rows [simp]: "length (pb_rows b) = pb_len b"
  by (simp add: pb_rows_def)

lemma nth_pb_rows [simp]:
  "i < pb_len b \<Longrightarrow> pb_rows b ! i = (pb_parents b ! i, pb_entries b ! i, wbit (pb_live b) i)"
  by (simp add: pb_rows_def)

text \<open>A well-formed buffer is determined by its rows and its open tag.\<close>

lemma pb_eqI:
  assumes "pb_wf b" "pb_wf b'" "pb_rows b = pb_rows b'" "pb_parent b = pb_parent b'"
  shows "b = b'"
proof -
  have n: "pb_len b = pb_len b'" using assms(3) by (metis length_pb_rows)
  have rows: "pb_parents b ! i = pb_parents b' ! i" "pb_entries b ! i = pb_entries b' ! i"
    "wbit (pb_live b) i = wbit (pb_live b') i" if "i < pb_len b" for i
    using that n arg_cong [OF assms(3), of "\<lambda>xs. xs ! i"] by simp_all
  have "pb_parents b = pb_parents b'" "pb_entries b = pb_entries b'"
    using assms(1,2) n rows by (auto simp: list_eq_iff_nth_eq pb_wf_def pb_len_def)
  moreover have "pb_live b = pb_live b'"
    using assms(1,2) n rows(3) by (intro wbit_ext) (auto simp: pb_wf_def)
  ultimately show ?thesis using assms(4) by simp
qed

lemma pb_wf_new [simp]: "pb_wf pb_new" "pb_rows pb_new = []" "pb_parent pb_new = 0"
  by (simp_all add: pb_wf_def pb_new_def pb_len_def words_for_def wbit_def pb_rows_def)

lemma pb_clear_new [simp]: "pb_clear b = pb_new"
  by (simp add: pb_clear_def pb_new_def)

lemma pb_open_wf [simp]: "pb_wf (pb_open p b) = pb_wf b" "pb_rows (pb_open p b) = pb_rows b"
  "pb_parent (pb_open p b) = p" "pb_len (pb_open p b) = pb_len b"
  by (simp_all add: pb_open_def pb_wf_def pb_rows_def pb_len_def)

section \<open>Appending\<close>

lemma pb_append_rows:
  assumes "pb_wf b"
  shows "\<exists>b'. pb_append p v b = Some b' \<and> pb_wf b' \<and> pb_rows b' = pb_rows b @ [(p, v, True)]
    \<and> pb_parent b' = pb_parent b"
proof -
  define i live where "i = pb_len b"
    and "live = (if i mod 32 = 0 then pb_live b @ [0] else pb_live b)"
  have len: "length live = words_for (Suc i)" using assms
    by (auto simp: live_def pb_wf_def i_def words_for_Suc)
  have bits: "wbit live k = wbit (pb_live b) k" for k
    using wbit_append_zeros [of "pb_live b" 1 k] by (auto simp: live_def)
  have in_range: "i div 32 < length live" using len words_for_div [of i "Suc i"] by simp
  define live' where "live' = live[i div 32 := live ! (i div 32) OR 2 ^ (i mod 32)]"
  have bits': "wbit live' k \<longleftrightarrow> k = i \<or> wbit (pb_live b) k" for k
    unfolding live'_def by (simp only: wbit_set_one [OF in_range] bits)
  define b' where "b' = b\<lparr>pb_entries := pb_entries b @ [v], pb_parents := pb_parents b @ [p], pb_live := live'\<rparr>"
  have "pb_append p v b = Some b'"
    using in_range unfolding pb_append_def Let_def pb_len_def [symmetric] i_def [symmetric] live_def [symmetric]
    by (simp add: b'_def live'_def)
  moreover have tail: "wbit live' k \<Longrightarrow> k < Suc i" for k
    using assms unfolding bits' by (auto simp: pb_wf_def i_def less_Suc_eq)
  then have "pb_wf b'"
    using assms len by (simp add: pb_wf_def b'_def pb_len_def live'_def i_def)
  moreover have "pb_rows b' = pb_rows b @ [(p, v, True)]"
  proof (rule nth_equalityI)
    fix k assume "k < length (pb_rows b')"
    then have "k < Suc i" by (simp add: b'_def pb_len_def i_def)
    then show "pb_rows b' ! k = (pb_rows b @ [(p, v, True)]) ! k"
      using assms bits' [of k] by (auto simp: nth_append less_Suc_eq pb_wf_def b'_def pb_len_def i_def pb_rows_def)
  qed (simp add: b'_def pb_len_def)
  moreover have "pb_parent b' = pb_parent b" by (simp add: b'_def)
  ultimately show ?thesis by blast
qed

text \<open>
  What a proposer relies on: appending one candidate adds one live row with the open tag. Appending
  many is a consequence, proved once for every sink with that law.
\<close>

locale candidate_sink =
  fixes wf :: "'b \<Rightarrow> bool" and rows :: "'b \<Rightarrow> candidate_row list"
    and tag :: "'b \<Rightarrow> u32" and append1 :: "'b \<Rightarrow> raw_inline \<Rightarrow> 'b option"
  assumes append1: "wf b \<Longrightarrow>
    \<exists>b'. append1 b v = Some b' \<and> wf b' \<and> rows b' = rows b @ [(tag b, v, True)] \<and> tag b' = tag b"
begin

lemma append_all:
  "wf b \<Longrightarrow> \<exists>b'. for_each append1 b vs = Some b' \<and> wf b'
     \<and> rows b' = rows b @ map (\<lambda>v. (tag b, v, True)) vs \<and> tag b' = tag b"
proof (induction vs arbitrary: b)
  case (Cons v vs)
  obtain b1 where b1: "append1 b v = Some b1" "wf b1" "rows b1 = rows b @ [(tag b, v, True)]" "tag b1 = tag b"
    using append1 [OF Cons.prems] by blast
  with Cons.IH [of b1] show ?case by auto
qed simp

end

interpretation buffer_sink: candidate_sink pb_wf pb_rows pb_parent pb_push
  by unfold_locales (simp add: pb_push_def pb_append_rows)

lemma pb_push_rows:
  "pb_wf b \<Longrightarrow> \<exists>b'. pb_push b v = Some b' \<and> pb_wf b' \<and> pb_rows b' = pb_rows b @ [(pb_parent b, v, True)]
     \<and> pb_parent b' = pb_parent b"
  by (rule buffer_sink.append1)

lemma pb_extend_rows:
  "pb_wf b \<Longrightarrow> \<exists>b'. pb_extend b vs = Some b' \<and> pb_wf b'
     \<and> pb_rows b' = pb_rows b @ map (\<lambda>v. (pb_parent b, v, True)) vs \<and> pb_parent b' = pb_parent b"
  unfolding pb_extend_def by (rule buffer_sink.append_all)

lemma pb_append_all_rows:
  "pb_wf b \<Longrightarrow> \<exists>b'. for_each (\<lambda>b (p, v). pb_append p v b) b pvs = Some b' \<and> pb_wf b'
     \<and> pb_rows b' = pb_rows b @ map (\<lambda>(p, v). (p, v, True)) pvs \<and> pb_parent b' = pb_parent b"
proof (induction pvs arbitrary: b)
  case (Cons pv pvs)
  obtain p v where pv: "pv = (p, v)" by force
  obtain b1 where b1: "pb_append p v b = Some b1" "pb_wf b1"
    "pb_rows b1 = pb_rows b @ [(p, v, True)]" "pb_parent b1 = pb_parent b"
    using pb_append_rows [OF Cons.prems] by blast
  with Cons.IH [of b1] show ?case by (auto simp: pv)
qed simp

lemma resize_grow: "length xs \<le> n \<Longrightarrow> resize xs n x = xs @ replicate (n - length xs) x"
  by (simp add: resize_def)

lemma words_for_mono: "m \<le> n \<Longrightarrow> words_for m \<le> words_for n"
  by (auto simp: words_for_def intro: div_le_mono)

lemma pb_extend_from_slice_rows:
  assumes "pb_wf b"
  shows "\<exists>b'. pb_extend_from_slice b vs = Some b' \<and> pb_wf b'
    \<and> pb_rows b' = pb_rows b @ map (\<lambda>v. (pb_parent b, v, True)) vs \<and> pb_parent b' = pb_parent b"
proof -
  define n m where "n = pb_len b" and "m = n + length vs"
  define l where "l = pb_live b @ replicate (words_for m - words_for n) 0"
  have l: "resize (pb_live b) (words_for m) 0 = l" "length l = words_for m"
    using assms words_for_mono [of n m] by (auto simp: resize_grow pb_wf_def l_def n_def m_def)
  have ps: "resize (pb_parents b) m (pb_parent b) = pb_parents b @ replicate (length vs) (pb_parent b)"
    using assms by (simp add: resize_grow pb_wf_def n_def m_def)
  have wl: "wbit l k = wbit (pb_live b) k" for k
    by (simp add: l_def)
  have "m \<le> 32 * length l" using l(2) by (simp add: words_for_def)
  then obtain l' where l': "set_bits l n m = Some l'" "length l' = length l"
    "\<And>k. wbit l' k \<longleftrightarrow> wbit l k \<or> n \<le> k \<and> k < m" using set_bits_correct by blast
  define b' where "b' = b\<lparr>pb_entries := pb_entries b @ vs,
      pb_parents := pb_parents b @ replicate (length vs) (pb_parent b), pb_live := l'\<rparr>"
  have "pb_extend_from_slice b vs = Some b'"
    using l l' ps by (simp add: pb_extend_from_slice_def Let_def b'_def n_def m_def pb_len_def)
  moreover have "pb_wf b'"
    using assms l l' wl by (auto simp: pb_wf_def b'_def pb_len_def n_def m_def intro: trans_less_add1)
  moreover have "pb_rows b' = pb_rows b @ map (\<lambda>v. (pb_parent b, v, True)) vs"
  proof (rule nth_equalityI)
    fix i assume "i < length (pb_rows b')"
    then have i: "i < m" by (simp add: b'_def pb_len_def m_def n_def)
    have "wbit (pb_live b) k \<Longrightarrow> k < n" for k using assms by (auto simp: pb_wf_def n_def)
    then show "pb_rows b' ! i = (pb_rows b @ map (\<lambda>v. (pb_parent b, v, True)) vs) ! i"
      using assms i l'(3) wl
      by (auto simp: nth_append pb_wf_def b'_def pb_len_def m_def n_def pb_rows_def)
  qed (simp add: b'_def pb_len_def)
  moreover have "pb_parent b' = pb_parent b" by (simp add: b'_def)
  ultimately show ?thesis by blast
qed

text \<open>The bulk append is the push loop.\<close>

lemma pb_extend_from_slice_eq_extend:
  assumes "pb_wf b"
  shows "pb_extend_from_slice b vs = pb_extend b vs"
  using pb_extend_from_slice_rows [OF assms, of vs] pb_extend_rows [OF assms, of vs]
  by (metis pb_eqI)

section \<open>Reading\<close>

lemma pb_is_live_eq:
  "pb_wf b \<Longrightarrow> i < pb_len b \<Longrightarrow> pb_is_live b i = Some (row_live (pb_rows b ! i))"
  using words_for_div [of i "pb_len b"]
  by (auto simp: pb_is_live_def pb_wf_def word_bit_set_iff wbit_def)

lemma live_only_eq:
  "i + length xs \<le> 32 * length live \<Longrightarrow>
     live_only live i xs = Some (map fst (filter snd (zip xs (map (wbit live) [i..<i + length xs]))))"
proof (induction xs arbitrary: i)
  case (Cons x xs)
  then have "i div 32 < length live" by auto
  moreover have "[i..<i + length (x # xs)] = i # [i + 1..<i + 1 + length xs]"
    using upt_conv_Cons [of i "i + 1 + length xs"] by simp
  ultimately show ?case
    using Cons.IH [of "i + 1"] Cons.prems by (auto simp: word_bit_set_iff wbit_def)
qed simp

lemma pb_drop_rows:
  "pb_wf b \<Longrightarrow> drop base (pb_rows b) =
     map (\<lambda>((p, v), l). (p, v, l)) (zip (zip (drop base (pb_parents b)) (drop base (pb_entries b)))
       (map (wbit (pb_live b)) [base..<pb_len b]))"
  by (auto simp: list_eq_iff_nth_eq pb_wf_def pb_len_def)

lemma pb_wf_live_length: "pb_wf b \<Longrightarrow> pb_len b \<le> 32 * length (pb_live b)"
  by (simp add: pb_wf_def words_for_def)

lemma pb_tagged_eq:
  assumes "pb_wf b" "base \<le> pb_len b"
  shows "pb_tagged b base =
    Some (map (\<lambda>r. (row_tag r, row_value r)) (filter row_live (drop base (pb_rows b))))"
proof -
  have len: "length (zip (drop base (pb_parents b)) (drop base (pb_entries b))) = pb_len b - base"
    using assms by (simp add: pb_wf_def pb_len_def)
  have "filter (row_live \<circ> (\<lambda>((p, v), l). (p, v, l))) = filter snd"
    "(\<lambda>r. (row_tag r, row_value r)) \<circ> (\<lambda>((p, v), l). (p, v, l)) = fst"
    by (auto simp: fun_eq_iff intro!: filter_cong)
  then have "map (\<lambda>r. (row_tag r, row_value r)) (filter row_live (drop base (pb_rows b))) =
      map fst (filter snd (zip (zip (drop base (pb_parents b)) (drop base (pb_entries b)))
        (map (wbit (pb_live b)) [base..<pb_len b])))"
    unfolding pb_drop_rows [OF assms(1)] by (simp add: filter_map)
  moreover have "pb_tagged b base = live_only (pb_live b) base
      (zip (drop base (pb_parents b)) (drop base (pb_entries b)))"
    using assms by (simp add: pb_tagged_def pb_wf_def pb_len_def)
  moreover have "base + (pb_len b - base) = pb_len b" using assms(2) by simp
  ultimately show ?thesis
    using live_only_eq [of base "zip (drop base (pb_parents b)) (drop base (pb_entries b))" "pb_live b"]
      pb_wf_live_length [OF assms(1)] len by simp
qed

lemma next_live_from_spec:
  assumes "w < length live" "\<And>n. bit word n \<longleftrightarrow> n < 32 \<and> from \<le> w * 32 + n \<and> wbit live (w * 32 + n)"
    "from < w * 32 + 32"
  shows "case next_live_from live w word of
      None \<Rightarrow> \<forall>k\<ge>from. w * 32 \<le> k \<longrightarrow> \<not> wbit live k
    | Some i \<Rightarrow> wbit live i \<and> from \<le> i \<and> w * 32 \<le> i \<and> (\<forall>k. from \<le> k \<and> w * 32 \<le> k \<and> k < i \<longrightarrow> \<not> wbit live k)"
  using assms
proof (induction live w word rule: next_live_from.induct)
  case (1 live w word)
  show ?case
  proof (cases "word = 0")
    case False
    let ?t = "trailing_zeros word"
    have t: "bit word ?t" "\<And>k. k < ?t \<Longrightarrow> \<not> bit word k"
      using False word_nonzero_bit [OF False]
      by (auto simp: trailing_zeros_eq_Least dest: not_less_Least intro: LeastI)
    then have "\<not> wbit live k" if "from \<le> k" "w * 32 \<le> k" "k < w * 32 + ?t" for k
      using that "1.prems"(2) [of "k - w * 32"] "1.prems"(2) [of ?t] by auto
    then show ?thesis
      using t(1) "1.prems"(2) False by (subst next_live_from.simps) auto
  next
    case True
    have here: "\<not> wbit live k" if "from \<le> k" "w * 32 \<le> k" "k < w * 32 + 32" for k
      using that "1.prems"(2) [of "k - w * 32"] True by auto
    show ?thesis
    proof (cases "w + 1 < length live")
      case False
      then have "\<not> wbit live k" if "w * 32 + 32 \<le> k" for k using that "1.prems"(1) by (intro wbit_out) simp
      then show ?thesis using True False here by (subst next_live_from.simps) (simp add: not_less, metis not_less)
    next
      case more: True
      have pre: "bit (live ! (w + 1)) n \<longleftrightarrow> n < 32 \<and> from \<le> (w + 1) * 32 + n \<and> wbit live ((w + 1) * 32 + n)" for n
      proof (cases "n < 32")
        case True
        note word_pos_div [OF True, of "w + 1"] word_pos_mod [OF True, of "w + 1"]
        then show ?thesis using True more "1.prems"(3) by (simp add: wbit_def)
      qed (use bit_imp_le_length [of "live ! (w + 1)" n] in auto)
      have ih: "case next_live_from live (w + 1) (live ! (w + 1)) of
          None \<Rightarrow> \<forall>k\<ge>from. (w + 1) * 32 \<le> k \<longrightarrow> \<not> wbit live k
        | Some i \<Rightarrow> wbit live i \<and> from \<le> i \<and> (w + 1) * 32 \<le> i
            \<and> (\<forall>k. from \<le> k \<and> (w + 1) * 32 \<le> k \<and> k < i \<longrightarrow> \<not> wbit live k)"
      proof (rule "1.IH")
        show "bit (live ! (w + 1)) n \<longleftrightarrow> n < 32 \<and> from \<le> (w + 1) * 32 + n \<and> wbit live ((w + 1) * 32 + n)" for n
          by (rule pre)
      qed (use True more "1.prems"(3) in simp_all)
      have "next_live_from live w word = next_live_from live (w + 1) (live ! (w + 1))"
        using True more by (subst next_live_from.simps) simp
      moreover have "\<not> wbit live k" if "from \<le> k" "w * 32 \<le> k" "\<not> 32 + w * 32 \<le> k" for k
        using here that by simp
      ultimately show ?thesis
        using ih by (cases "next_live_from live (w + 1) (live ! (w + 1))") (simp_all, blast+)
    qed
  qed
qed

text \<open>The first word with the bits below \<open>from\<close> masked off.\<close>

lemma bit_head_word:
  fixes live :: "u32 list"
  assumes "from div 32 < length live"
  shows "bit (live ! (from div 32) AND shl (NOT 0) (from mod 32)) n \<longleftrightarrow>
    n < 32 \<and> from \<le> from div 32 * 32 + n \<and> wbit live (from div 32 * 32 + n)"
proof (cases "n < 32")
  case True
  have "from = from div 32 * 32 + from mod 32" by simp
  then have "from mod 32 \<le> n \<longleftrightarrow> from \<le> from div 32 * 32 + n" by linarith
  moreover have "wbit live (from div 32 * 32 + n) \<longleftrightarrow> bit (live ! (from div 32)) n"
    unfolding wbit_def word_pos_div [OF True] word_pos_mod [OF True] using assms by simp
  moreover have "bit (live ! (from div 32) AND shl (NOT 0) (from mod 32)) n \<longleftrightarrow>
      from mod 32 \<le> n \<and> bit (live ! (from div 32)) n"
    using True by (auto simp: bit_simps)
  ultimately show ?thesis using True by blast
qed (auto dest: bit_imp_le_length)

lemma pb_next_live_spec:
  assumes "pb_wf b"
  shows "\<exists>r. pb_next_live b from = Some r \<and> (case r of
      None \<Rightarrow> \<forall>k. from \<le> k \<longrightarrow> \<not> wbit (pb_live b) k
    | Some i \<Rightarrow> from \<le> i \<and> i < pb_len b \<and> wbit (pb_live b) i \<and> (\<forall>k. from \<le> k \<and> k < i \<longrightarrow> \<not> wbit (pb_live b) k))"
proof (cases "from < pb_len b")
  case False
  then show ?thesis using assms by (auto simp: pb_next_live_def pb_len_def pb_wf_def)
next
  case True
  let ?w = "from div 32"
  define r where "r = next_live_from (pb_live b) ?w (pb_live b ! ?w AND shl (NOT 0) (from mod 32))"
  have w: "?w < length (pb_live b)" using assms True words_for_div by (auto simp: pb_wf_def)
  then have "pb_next_live b from = Some r"
    using True by (simp add: pb_next_live_def pb_len_def r_def)
  moreover have "from < ?w * 32 + 32" by simp
  note next_live_from_spec [OF w bit_head_word [OF w] this, folded r_def]
  moreover have "from \<le> k \<Longrightarrow> ?w * 32 \<le> k" for k
    using div_times_less_eq_dividend [of "from" 32] by (rule order_trans)
  moreover have "wbit (pb_live b) i \<Longrightarrow> i < pb_len b" for i using assms by (simp add: pb_wf_def)
  ultimately show ?thesis by (cases r) auto
qed

lemma sum_list_count_ones:
  "sum_list (map count_ones ws) = card {k. wbit ws k}"
proof (induction ws rule: rev_induct)
  case Nil
  then show ?case by (simp add: wbit_def)
next
  case (snoc w ws)
  have fin: "finite {k. wbit us k}" for us
    by (rule finite_subset [of _ "{..<32 * length us}"]) (auto simp: not_le [symmetric] wbit_out)
  have "wbit (ws @ [w]) k \<longleftrightarrow> wbit ws k \<or> k \<in> (\<lambda>n. 32 * length ws + n) ` {n. bit w n}" for k
  proof (cases "k < 32 * length ws")
    case False
    then obtain j where j: "k = 32 * length ws + j" using le_Suc_ex not_less by blast
    have "wbit [w] j \<longleftrightarrow> bit w j"
      using bit_imp_le_length [of w j] by (cases "j < 32") (auto simp: wbit_def)
    then show ?thesis using wbit_out [of ws k] False by (auto simp: wbit_append j)
  qed (auto simp: wbit_append)
  then have "{k. wbit (ws @ [w]) k} = {k. wbit ws k} \<union> (\<lambda>n. 32 * length ws + n) ` {n. bit w n}" by auto
  moreover have "{k. wbit ws k} \<inter> (\<lambda>n. 32 * length ws + n) ` {n. bit w n} = {}"
    using wbit_out by force
  moreover have "card ((\<lambda>n. 32 * length ws + n) ` {n. bit w n}) = count_ones w"
    unfolding count_ones_eq_card by (rule card_image) simp
  moreover have "finite {n. bit w n}" by (rule finite_subset [of _ "{..<32}"]) (auto dest: bit_imp_le_length)
  ultimately show ?case using snoc fin by (simp add: card_Un_disjoint)
qed

lemma pb_count_live_eq:
  assumes "pb_wf b"
  shows "pb_count_live b from = Some (length (filter row_live (drop from (pb_rows b))))"
proof (cases "from < pb_len b")
  case False
  then show ?thesis by (simp add: pb_count_live_def pb_len_def)
next
  case True
  let ?w = "from div 32" and ?word = "pb_live b ! (from div 32) AND shl (NOT 0) (from mod 32)"
  have w: "?w < length (pb_live b)" using assms True words_for_div by (auto simp: pb_wf_def)
  have "pb_count_live b from = Some (sum_list (map count_ones (?word # drop (?w + 1) (pb_live b))))"
    using w True by (simp add: pb_count_live_def pb_len_def Let_def)
  also have "sum_list (map count_ones (?word # drop (?w + 1) (pb_live b))) =
      card {k. wbit (?word # drop (?w + 1) (pb_live b)) k}" by (rule sum_list_count_ones)
  also have "\<dots> = card ((+) (?w * 32) ` {k. wbit (?word # drop (?w + 1) (pb_live b)) k})"
    by (simp add: card_image)
  also have "(+) (?w * 32) ` {k. wbit (?word # drop (?w + 1) (pb_live b)) k} = {k. from \<le> k \<and> wbit (pb_live b) k}"
    (is "?A = ?B")
  proof
    have bits: "wbit (?word # drop (?w + 1) (pb_live b)) k \<longleftrightarrow> from \<le> ?w * 32 + k \<and> wbit (pb_live b) (?w * 32 + k)" for k
    proof (cases "k < 32")
      case False
      then obtain j where "k = 32 + j" using le_Suc_ex not_less by blast
      moreover have "from < ?w * 32 + 32" by simp
      ultimately show ?thesis
        using wbit_append [of "[?word]" "drop (?w + 1) (pb_live b)" k] by (simp add: wbit_drop algebra_simps)
    qed (use bit_head_word [OF w] in \<open>simp add: wbit_def\<close>)
    show "?A \<subseteq> ?B" unfolding bits by blast
    show "?B \<subseteq> ?A"
    proof
      fix k assume k: "k \<in> ?B"
      then have "?w * 32 \<le> k" using div_times_less_eq_dividend [of "from" 32] by (auto intro: order_trans)
      then show "k \<in> ?A" using k bits [of "k - ?w * 32"] by (auto intro: image_eqI [of _ _ "k - ?w * 32"])
    qed
  qed
  also have "\<dots> = (+) from ` {k. k < length (drop from (pb_rows b)) \<and> row_live (drop from (pb_rows b) ! k)}"
    (is "_ = ?C")
  proof
    show "?C \<subseteq> ?B" by auto
    show "?B \<subseteq> ?C"
    proof
      fix k assume "k \<in> ?B"
      then have "k < pb_len b" "from \<le> k" "wbit (pb_live b) k" using assms by (auto simp: pb_wf_def)
      then show "k \<in> ?C" by (auto intro!: image_eqI [of _ _ "k - from"])
    qed
  qed
  also have "card \<dots> = length (filter row_live (drop from (pb_rows b)))"
    by (simp add: card_image length_filter_conv_card)
  finally show ?thesis .
qed

section \<open>Rewriting the freshly proposed region\<close>

text \<open>The lengths agree; the tail bits may be dirty, as they are in the middle of \<open>retain_region\<close>.\<close>

definition pb_shape :: "proposal_buffer \<Rightarrow> bool" where
  "pb_shape b \<longleftrightarrow> length (pb_live b) = words_for (pb_len b) \<and> length (pb_parents b) = pb_len b"

lemma pb_wf_shape: "pb_wf b \<Longrightarrow> pb_shape b"
  by (simp add: pb_wf_def pb_shape_def)

lemma wbit_move_one:
  assumes "k div 32 < length ws"
  shows "wbit (ws[k div 32 := (ws ! (k div 32) AND NOT (shl 1 (k mod 32))) OR shl (shr w (i mod 32) AND 1) (k mod 32)]) j
    \<longleftrightarrow> (if j = k then bit w (i mod 32) else wbit ws j)"
proof (cases "j div 32 = k div 32")
  case True
  have "j mod 32 = k mod 32 \<longleftrightarrow> j = k" using True word_pos_eq by blast
  then show ?thesis
    unfolding wbit_update_word [OF assms] using True assms
    by (auto simp: bit_simps wbit_def bit_1_iff)
qed (auto simp: wbit_update_word [OF assms])

lemma retain_step_rows:
  assumes "pb_shape b" "read < pb_len b" "write \<le> read"
    and k: "keep (pb_parents b ! read) (pb_entries b ! read) = Some k"
  shows "\<exists>b'. retain_step keep (b, write) read = Some (b', if k then write + 1 else write) \<and> pb_shape b'
    \<and> pb_rows b' = (if k then (pb_rows b)[write := pb_rows b ! read] else pb_rows b) \<and> pb_parent b' = pb_parent b"
proof (cases k)
  case False
  then show ?thesis using assms by (auto simp: retain_step_def pb_shape_def pb_len_def)
next
  case True
  let ?r = "read div 32" and ?w = "write div 32"
  have wl: "write < pb_len b" using assms(2,3) by simp
  have r: "?r < length (pb_live b)" "?w < length (pb_live b)"
    using assms(1,2) wl words_for_div by (auto simp: pb_shape_def)
  define live where "live = (pb_live b)[?w := (pb_live b ! ?w AND NOT (shl 1 (write mod 32)))
      OR shl (shr (pb_live b ! ?r) (read mod 32) AND 1) (write mod 32)]"
  have bits: "wbit live j \<longleftrightarrow> (if j = write then wbit (pb_live b) read else wbit (pb_live b) j)" for j
    unfolding live_def wbit_move_one [OF r(2)] using r(1) by (simp add: wbit_def)
  define b' where "b' = b\<lparr>pb_entries := (pb_entries b)[write := pb_entries b ! read],
      pb_parents := (pb_parents b)[write := pb_parents b ! read], pb_live := live\<rparr>"
  have "length (pb_parents b) = pb_len b" "length (pb_entries b) = pb_len b"
    using assms(1) by (simp_all add: pb_shape_def pb_len_def)
  then have step: "retain_step keep (b, write) read = Some (b', write + 1)"
    using assms(2) wl r k True unfolding retain_step_def by (simp add: b'_def live_def)
  have shape: "pb_shape b'" using assms(1) by (simp add: pb_shape_def b'_def pb_len_def live_def)
  have "pb_rows b' ! i = (pb_rows b)[write := pb_rows b ! read] ! i" if "i < pb_len b" for i
    using that assms(1,2) wl bits [of i]
    by (cases "i = write") (auto simp: pb_rows_def b'_def pb_len_def pb_shape_def)
  then have "pb_rows b' = (pb_rows b)[write := pb_rows b ! read]"
    by (intro nth_equalityI) (auto simp: b'_def pb_len_def)
  with step shape show ?thesis using True by (auto simp: b'_def)
qed

lemma take_drop_update:
  assumes "w \<le> r" "r < length xs"
  shows "take (w + 1) (xs[w := x]) = take w xs @ [x]" "drop (r + 1) (xs[w := x]) = drop (r + 1) xs"
  using assms by (auto simp: take_Suc_conv_app_nth)

lemma pb_retain_region_rows:
  assumes "pb_wf b" "base \<le> pb_len b"
    and keep: "\<And>r. r \<in> set (drop base (pb_rows b)) \<Longrightarrow> keep (row_tag r) (row_value r) = Some (K r)"
  shows "\<exists>b'. pb_retain_region b base keep = Some b' \<and> pb_wf b' \<and> pb_parent b' = pb_parent b
    \<and> pb_rows b' = take base (pb_rows b) @ filter K (drop base (pb_rows b))"
proof -
  let ?R = "pb_rows b" and ?n = "pb_len b"
  let ?F = "\<lambda>k. take base ?R @ filter K (take k (drop base ?R))"
  define I where "I k s \<longleftrightarrow> (case s of (b', write) \<Rightarrow> pb_shape b' \<and> pb_len b' = ?n \<and> pb_parent b' = pb_parent b
    \<and> write = length (?F k) \<and> take write (pb_rows b') = ?F k \<and> drop (base + k) (pb_rows b') = drop (base + k) ?R)" for k s
  have "\<exists>s'. for_each (retain_step keep) (b, base) [base..<?n] = Some s' \<and> I (length [base..<?n]) s'"
  proof (rule for_each_invariant)
    show "I 0 (b, base)" using assms(1,2) by (simp add: I_def pb_wf_shape)
  next
    fix k s assume k: "k < length [base..<?n]" and "I k s"
    then obtain b1 w where s: "s = (b1, w)" and I: "pb_shape b1" "pb_len b1 = ?n" "pb_parent b1 = pb_parent b"
      "w = length (?F k)" "take w (pb_rows b1) = ?F k" "drop (base + k) (pb_rows b1) = drop (base + k) ?R"
      by (auto simp: I_def)
    have rd: "base + k < ?n" "[base..<?n] ! k = base + k" using k by auto
    have "length (filter K (take k (drop base ?R))) \<le> k"
      by (rule order_trans [OF length_filter_le]) simp
    then have wle: "w \<le> base + k" using I(4) by simp
    define x where "x = ?R ! (base + k)"
    have x: "pb_rows b1 ! (base + k) = x"
      using I(2,6) rd by (metis hd_drop_conv_nth length_pb_rows x_def)
    have nxt: "take (Suc k) (drop base ?R) = take k (drop base ?R) @ [x]"
      using rd by (simp add: take_Suc_conv_app_nth x_def)
    have "x \<in> set (drop base ?R)" using nxt by (metis in_set_conv_decomp in_set_takeD)
    then have "keep (pb_parents b1 ! (base + k)) (pb_entries b1 ! (base + k)) = Some (K x)"
      using keep [of x] x rd I(2) by auto
    from retain_step_rows [of b1 "base + k" w keep "K x", OF I(1) _ wle this] obtain b2 where b2:
      "retain_step keep (b1, w) (base + k) = Some (b2, if K x then w + 1 else w)" "pb_shape b2"
      "pb_rows b2 = (if K x then (pb_rows b1)[w := x] else pb_rows b1)" "pb_parent b2 = pb_parent b1"
      using rd I(2) x by auto
    have len2: "pb_len b2 = ?n" using b2(3) I(2) by (metis length_pb_rows length_list_update)
    have d: "drop (base + Suc k) (pb_rows b1) = drop (base + Suc k) ?R"
      using arg_cong [OF I(6), of "drop 1"] by simp
    note tdu = take_drop_update [OF wle, of "pb_rows b1" x]
    have "I (Suc k) (b2, if K x then w + 1 else w)"
      using b2 I len2 d tdu rd nxt unfolding I_def by (simp split: if_splits)
    then show "\<exists>s'. retain_step keep s ([base..<?n] ! k) = Some s' \<and> I (Suc k) s'"
      using b2(1) s rd(2) by auto
  qed
  then obtain b1 w where b1: "for_each (retain_step keep) (b, base) [base..<?n] = Some (b1, w)" "I (?n - base) (b1, w)"
    by auto
  then have F: "pb_shape b1" "pb_len b1 = ?n" "pb_parent b1 = pb_parent b" "take w (pb_rows b1) = ?F (?n - base)"
    "w = length (?F (?n - base))" by (auto simp: I_def)
  have full: "?F (?n - base) = take base ?R @ filter K (drop base ?R)" by simp
  have w: "w \<le> ?n" using F(5) assms(2) length_filter_le [of K "drop base ?R"] unfolding full by simp
  have "words_for w \<le> length (pb_live b1)" using F(1,2) w words_for_mono by (simp add: pb_shape_def)
  then obtain live where live: "truncate_live (pb_live b1) w = Some live" "length live = words_for w"
    "\<And>k. wbit live k \<longleftrightarrow> wbit (pb_live b1) k \<and> k < w" using truncate_live_correct by blast
  define b' where "b' = b1\<lparr>pb_entries := take w (pb_entries b1), pb_parents := take w (pb_parents b1), pb_live := live\<rparr>"
  have "pb_retain_region b base keep = Some b'"
    using b1(1) live(1) by (simp add: pb_retain_region_def b'_def pb_len_def)
  moreover have len': "pb_len b' = w" using F(2) w by (simp add: b'_def pb_len_def)
  moreover have "pb_wf b'" using live F(1,2) w unfolding pb_wf_def len' by (simp add: b'_def pb_shape_def)
  moreover have "pb_rows b' = take w (pb_rows b1)"
    using live(3) F(2) w len' by (intro nth_equalityI) (auto simp: b'_def)
  ultimately show ?thesis using F(3,4) unfolding full by (auto simp: b'_def)
qed

lemma pb_rewrite_region_rows:
  assumes "pb_wf b" "base \<le> pb_len b"
  shows "\<exists>b'. pb_rewrite_region b base pvs = Some b' \<and> pb_wf b' \<and> pb_parent b' = pb_parent b
    \<and> pb_rows b' = take base (pb_rows b) @ map (\<lambda>(p, v). (p, v, True)) pvs"
proof -
  have "words_for base \<le> length (pb_live b)"
    using assms words_for_mono by (auto simp: pb_wf_def)
  then obtain live where live: "truncate_live (pb_live b) base = Some live" "length live = words_for base"
    "\<And>k. wbit live k \<longleftrightarrow> wbit (pb_live b) k \<and> k < base" using truncate_live_correct by blast
  define b1 where "b1 = b\<lparr>pb_entries := take base (pb_entries b), pb_parents := take base (pb_parents b), pb_live := live\<rparr>"
  have len: "pb_len b1 = base" using assms by (simp add: b1_def pb_len_def)
  have "pb_wf b1" using live assms unfolding pb_wf_def len by (simp add: b1_def)
  moreover have "pb_rows b1 = take base (pb_rows b)"
    using live(3) assms len by (intro nth_equalityI) (auto simp: b1_def)
  moreover have "pb_parent b1 = pb_parent b" by (simp add: b1_def)
  ultimately show ?thesis
    using pb_append_all_rows [of b1 pvs] live(1) unfolding pb_rewrite_region_def b1_def by auto
qed

lemma pb_remap_region_rows:
  assumes "pb_wf b" "base \<le> pb_len b"
    and "\<And>r. r \<in> set (drop base (pb_rows b)) \<Longrightarrow> unat (row_tag r) < length m"
  shows "\<exists>b'. pb_remap_region b base m = Some b' \<and> pb_wf b' \<and> pb_parent b' = pb_parent b
    \<and> pb_rows b' = take base (pb_rows b) @ map (\<lambda>(p, v, l). (m ! unat p, v, l)) (drop base (pb_rows b))"
proof -
  let ?ps = "drop base (pb_parents b)"
  have wf: "length (pb_parents b) = pb_len b" using assms(1) by (simp add: pb_wf_def)
  have "unat p < length m" if p: "p \<in> set ?ps" for p
  proof -
    obtain i where i: "i < length ?ps" "p = ?ps ! i" using p by (metis in_set_conv_nth)
    then have "drop base (pb_rows b) ! i \<in> set (drop base (pb_rows b))" using wf by (intro nth_mem) simp
    from assms(3) [OF this] show ?thesis using i wf assms(2) by simp
  qed
  then have "map_panic (\<lambda>p. idx m (unat p)) ?ps = Some (map (\<lambda>p. m ! unat p) ?ps)"
    by (intro map_panic_Some) simp
  moreover define b' where "b' = b\<lparr>pb_parents := take base (pb_parents b) @ map (\<lambda>p. m ! unat p) ?ps\<rparr>"
  ultimately have eq: "pb_remap_region b base m = Some b'"
    using wf assms(2) by (simp add: pb_remap_region_def)
  have len: "pb_len b' = pb_len b" by (simp add: b'_def pb_len_def)
  have wf': "pb_wf b'" using assms(1,2) wf unfolding pb_wf_def len by (simp add: b'_def)
  have "pb_rows b' ! i = (take base (pb_rows b) @ map (\<lambda>(p, v, l). (m ! unat p, v, l)) (drop base (pb_rows b))) ! i"
    if "i < pb_len b" for i
    using that wf assms(2) len by (auto simp: nth_append b'_def)
  then have "pb_rows b' = take base (pb_rows b) @ map (\<lambda>(p, v, l). (m ! unat p, v, l)) (drop base (pb_rows b))"
    using len assms(2) by (intro nth_equalityI) auto
  with eq wf' show ?thesis by (auto simp: b'_def)
qed

section \<open>Lending a region\<close>

lemma words_for_add: "words_for (n + 32 * k) = words_for n + k"
proof -
  have "n + 32 * k + 31 = (n + 31) + 32 * k" by simp
  then show ?thesis unfolding words_for_def by (simp only: div_mult_self2 zero_neq_numeral simp_thms)
qed

lemma pb_region_eq:
  assumes "pb_wf b" "base \<le> pb_len b"
  shows "\<exists>c. pb_region b base = Some c \<and> cd_wf c \<and> cd_len c = pb_len b - base
    \<and> cd_values c = drop base (pb_entries b) \<and> cd_parents c = drop base (pb_parents b)
    \<and> (\<forall>i. cd_alive c i \<longleftrightarrow> wbit (pb_live b) (base + i))
    \<and> cd_words c = drop (base div 32) (pb_live b) \<and> cd_bit_offset c = base mod 32
    \<and> base div 32 \<le> length (pb_live b)"
proof -
  have q: "base div 32 \<le> length (pb_live b)"
    using assms words_for_mono [of base "pb_len b"] by (auto simp: pb_wf_def words_for_alt split: if_splits)
  have "pb_len b = base mod 32 + (pb_len b - base) + 32 * (base div 32)"
    using assms(2) by simp
  then have "words_for (pb_len b) = words_for (base mod 32 + (pb_len b - base)) + base div 32"
    by (metis words_for_add)
  then have "words_for (pb_len b) - base div 32 = words_for (base mod 32 + (pb_len b - base))" by simp
  moreover have "32 * (base div 32) + (base mod 32 + i) = base + i" for i by simp
  ultimately show ?thesis
    using assms q by (simp add: pb_region_def pb_wf_def pb_len_def cd_wf_def cd_len_def cd_alive_def wbit_drop)
qed

text \<open>The rows of a buffer after a confirmer filtered its tail.\<close>

definition kill_rows :: "(u32 \<Rightarrow> raw_inline \<Rightarrow> bool) \<Rightarrow> candidate_row list \<Rightarrow> candidate_row list" where
  "kill_rows Q rs = map (\<lambda>(p, v, l). (p, v, l \<and> Q p v)) rs"

lemma pb_with_region_rows:
  assumes "pb_wf b" "base \<le> pb_len b"
    and f: "\<And>c. pb_region b base = Some c \<Longrightarrow> cd_wf c \<Longrightarrow> \<exists>c'. f c = Some c' \<and> cd_filters Q c c'"
  shows "\<exists>b'. pb_with_region b base f = Some b' \<and> pb_wf b' \<and> pb_parent b' = pb_parent b
    \<and> pb_rows b' = take base (pb_rows b) @ kill_rows Q (drop base (pb_rows b))"
proof -
  obtain c where c: "pb_region b base = Some c" "cd_wf c" "cd_len c = pb_len b - base"
    "cd_values c = drop base (pb_entries b)" "cd_parents c = drop base (pb_parents b)"
    "cd_words c = drop (base div 32) (pb_live b)" "cd_bit_offset c = base mod 32" "base div 32 \<le> length (pb_live b)"
    using pb_region_eq [OF assms(1,2)] by blast
  obtain c' where c': "f c = Some c'" "cd_filters Q c c'" using f [OF c(1,2)] by blast
  define b' where "b' = b\<lparr>pb_live := take (base div 32) (pb_live b) @ cd_words c'\<rparr>"
  have eq: "pb_with_region b base f = Some b'" using c(1) c'(1) by (simp add: pb_with_region_def b'_def)
  have len: "pb_len b' = pb_len b" by (simp add: b'_def pb_len_def)
  have lw: "length (pb_live b') = length (pb_live b)"
    using cd_filters_shape [OF c'(2)] c by (simp add: cd_same_shape_def b'_def)
  have bits: "wbit (pb_live b') k \<longleftrightarrow> wbit (pb_live b) k \<and>
      (base \<le> k \<longrightarrow> k < pb_len b \<longrightarrow> Q (pb_parents b ! k) (pb_entries b ! k))" for k
  proof (cases "k < 32 * (base div 32)")
    case True
    then have "k < base" using div_times_less_eq_dividend [of base 32] by linarith
    with True show ?thesis using c(8) by (simp add: b'_def wbit_append wbit_take)
  next
    case False
    then obtain j where j: "k = 32 * (base div 32) + j" using le_Suc_ex not_less by blast
    have pos: "base mod 32 \<le> j \<longleftrightarrow> base \<le> k" "j < base mod 32 + (pb_len b - base) \<longleftrightarrow> k < pb_len b"
      "base \<le> k \<Longrightarrow> base + (j - base mod 32) = k"
      using j assms(2) mult_div_mod_eq [of 32 base] by linarith+
    have "wbit (pb_live b') k \<longleftrightarrow> wbit (cd_words c') j" using j c(8) by (simp add: b'_def wbit_append)
    also have "\<dots> \<longleftrightarrow> wbit (pb_live b) k \<and> (base mod 32 \<le> j \<longrightarrow> j < base mod 32 + (pb_len b - base) \<longrightarrow>
        Q (cd_parents c ! (j - base mod 32)) (cd_values c ! (j - base mod 32)))"
      using c'(2) c j by (simp add: cd_filters_def cd_keeps_def wbit_drop)
    finally show ?thesis unfolding pos using c(4,5) pos(3) assms(1,2)
      by (auto simp: pb_wf_def pb_len_def)
  qed
  have "pb_wf b'" using assms(1) lw bits unfolding pb_wf_def len by (simp add: b'_def)
  moreover have "pb_rows b' ! i = (take base (pb_rows b) @ kill_rows Q (drop base (pb_rows b))) ! i"
    if "i < pb_len b" for i
    using that assms(2) bits [of i] len by (auto simp: nth_append kill_rows_def b'_def)
  then have "pb_rows b' = take base (pb_rows b) @ kill_rows Q (drop base (pb_rows b))"
    using len assms(2) by (intro nth_equalityI) (auto simp: kill_rows_def)
  ultimately show ?thesis using eq by (auto simp: b'_def)
qed

section \<open>Properties\<close>

text \<open>A buffer with three candidates of two parents, the second one dead; the theorems are applied to it.\<close>

definition sample_buffer :: proposal_buffer where
  "sample_buffer = \<lparr>pb_entries = map inline_pad [[1], [2], [3]], pb_live = [5], pb_parents = [0, 0, 1], pb_parent = 1\<rparr>"

lemma sample_buffer_live: "wbit [5] k \<longleftrightarrow> k = 0 \<or> k = 2"
proof (cases "k < 32")
  case True
  have "\<forall>k \<in> set [0..<32]. bit (5 :: u32) k \<longleftrightarrow> k = 0 \<or> k = 2" by code_simp
  then have "bit (5 :: u32) k \<longleftrightarrow> k = 0 \<or> k = 2" using True by (metis atLeastLessThan_iff set_upt zero_le)
  then show ?thesis using True by (simp add: wbit_def)
next
  case False
  then show ?thesis using wbit_out [of "[5]" k] by auto
qed

lemma sample_buffer_wf: "pb_wf sample_buffer" "pb_len sample_buffer = 3"
  by (auto simp: pb_wf_def pb_len_def sample_buffer_def sample_buffer_live words_for_def)

text \<open>
  The bulk append is the loop of single appends: \<open>extend_from_slice\<close>, which fills the liveness words
  and the parent tags in bulk, leaves exactly the buffer that \<open>extend\<close> (one \<open>push\<close> per value) leaves, and
  neither panics.
\<close>

theorem extend_from_slice_is_extend:
  "pb_wf b \<Longrightarrow> pb_extend_from_slice b vs = pb_extend b vs \<and>
     (\<exists>b'. pb_extend b vs = Some b' \<and> pb_wf b' \<and> pb_rows b' = pb_rows b @ map (\<lambda>v. (pb_parent b, v, True)) vs)"
  using pb_extend_from_slice_eq_extend pb_extend_rows by blast

theorem extend_from_slice_is_extend_witness:
  "pb_extend_from_slice sample_buffer [inline_pad [9]] = pb_extend sample_buffer [inline_pad [9]] \<and>
     (\<exists>b'. pb_extend sample_buffer [inline_pad [9]] = Some b' \<and> pb_wf b' \<and>
        pb_rows b' = pb_rows sample_buffer @ map (\<lambda>v. (pb_parent sample_buffer, v, True)) [inline_pad [9]])"
  by (rule extend_from_slice_is_extend) (rule sample_buffer_wf)

text \<open>
  \<open>next_live\<close> finds the first live candidate at or after a position, or answers \<open>None\<close> when no
  candidate there is live; it skips whole dead words and never reports an index past the entries.
\<close>

theorem next_live_first:
  assumes "pb_wf b"
  shows "\<exists>r. pb_next_live b from = Some r \<and> (case r of
      None \<Rightarrow> filter (\<lambda>i. row_live (pb_rows b ! i)) [from..<pb_len b] = []
    | Some i \<Rightarrow> from \<le> i \<and> filter (\<lambda>i. row_live (pb_rows b ! i)) [from..<pb_len b] =
        i # filter (\<lambda>i. row_live (pb_rows b ! i)) [Suc i..<pb_len b])"
proof -
  obtain r where r: "pb_next_live b from = Some r" "case r of
      None \<Rightarrow> \<forall>k. from \<le> k \<longrightarrow> \<not> wbit (pb_live b) k
    | Some i \<Rightarrow> from \<le> i \<and> i < pb_len b \<and> wbit (pb_live b) i \<and> (\<forall>k. from \<le> k \<and> k < i \<longrightarrow> \<not> wbit (pb_live b) k)"
    using pb_next_live_spec [OF assms] by blast
  have "filter (\<lambda>i. row_live (pb_rows b ! i)) [k..<pb_len b] = filter (wbit (pb_live b)) [k..<pb_len b]" for k
    by (rule filter_cong) auto
  moreover have "filter (wbit (pb_live b)) [from..<pb_len b] = i # filter (wbit (pb_live b)) [Suc i..<pb_len b]"
    if "from \<le> i" "i < pb_len b" "wbit (pb_live b) i" "\<forall>k. from \<le> k \<and> k < i \<longrightarrow> \<not> wbit (pb_live b) k" for i
  proof -
    have "[from..<pb_len b] = [from..<i] @ i # [Suc i..<pb_len b]"
      using that(1,2) by (metis le_add_diff_inverse less_imp_le_nat upt_add_eq_append upt_conv_Cons)
    moreover have "filter (wbit (pb_live b)) [from..<i] = []" using that(4) by (simp add: filter_empty_conv)
    ultimately show ?thesis using that(3) by simp
  qed
  ultimately show ?thesis using r by (intro exI [of _ r]) (auto split: option.splits simp: filter_empty_conv)
qed

theorem next_live_first_witness:
  "\<exists>r. pb_next_live sample_buffer 1 = Some r \<and> (case r of
      None \<Rightarrow> filter (\<lambda>i. row_live (pb_rows sample_buffer ! i)) [1..<pb_len sample_buffer] = []
    | Some i \<Rightarrow> 1 \<le> i \<and> filter (\<lambda>i. row_live (pb_rows sample_buffer ! i)) [1..<pb_len sample_buffer] =
        i # filter (\<lambda>i. row_live (pb_rows sample_buffer ! i)) [Suc i..<pb_len sample_buffer])"
  by (rule next_live_first) (rule sample_buffer_wf)

text \<open>\<open>count_live\<close>, a sum of population counts, is the number of live candidates from a position on.\<close>

theorem count_live_counts:
  "pb_wf b \<Longrightarrow> pb_count_live b from = Some (length (filter row_live (drop from (pb_rows b))))"
  by (rule pb_count_live_eq)

theorem count_live_counts_witness:
  "pb_count_live sample_buffer 1 = Some (length (filter row_live (drop 1 (pb_rows sample_buffer))))"
  by (rule count_live_counts) (rule sample_buffer_wf)

text \<open>
  C38. \<open>retain_region\<close> compacts the region in place: the candidates below the base stay, of the region
  exactly those the predicate keeps remain, in order, each with its parent tag and its own liveness
  bit, and no bit of the dropped tail survives.
\<close>

theorem retain_region_compacts:
  assumes "pb_wf b" "base \<le> pb_len b"
  shows "\<exists>b'. pb_retain_region b base (\<lambda>p v. Some (K p v)) = Some b' \<and> pb_wf b' \<and>
    pb_rows b' = take base (pb_rows b) @ filter (\<lambda>r. K (row_tag r) (row_value r)) (drop base (pb_rows b))"
  using pb_retain_region_rows [OF assms, of "\<lambda>p v. Some (K p v)" "\<lambda>r. K (row_tag r) (row_value r)"] by blast

theorem retain_region_compacts_witness:
  "\<exists>b'. pb_retain_region sample_buffer 1 (\<lambda>p v. Some (p = 1)) = Some b' \<and> pb_wf b' \<and>
    pb_rows b' = take 1 (pb_rows sample_buffer) @ filter (\<lambda>r. row_tag r = 1) (drop 1 (pb_rows sample_buffer))"
  by (rule retain_region_compacts) (simp_all add: sample_buffer_wf)

text \<open>
  Reading a region's live candidates and writing them back drops the dead ones and nothing else:
  \<open>rewrite_region\<close> after \<open>tagged\<close> keeps everything below the base and leaves exactly the live rows of
  the region, so the dead stay dead.
\<close>

theorem tagged_rewrite_round_trip:
  assumes "pb_wf b" "base \<le> pb_len b"
  shows "\<exists>fresh b'. pb_tagged b base = Some fresh \<and> pb_rewrite_region b base fresh = Some b' \<and> pb_wf b' \<and>
    pb_rows b' = take base (pb_rows b) @ filter row_live (drop base (pb_rows b)) \<and> pb_tagged b' base = Some fresh"
proof -
  define rs where "rs = filter row_live (drop base (pb_rows b))"
  define fresh where "fresh = map (\<lambda>r. (row_tag r, row_value r)) rs"
  have fresh: "pb_tagged b base = Some fresh" using pb_tagged_eq [OF assms] by (simp add: fresh_def rs_def)
  obtain b' where b': "pb_rewrite_region b base fresh = Some b'" "pb_wf b'"
    "pb_rows b' = take base (pb_rows b) @ map (\<lambda>(p, v). (p, v, True)) fresh"
    using pb_rewrite_region_rows [OF assms] by blast
  have "map (\<lambda>(p, v). (p, v, True)) fresh = rs"
    unfolding fresh_def map_map comp_def by (rule map_idI) (auto simp: rs_def)
  then have rows: "pb_rows b' = take base (pb_rows b) @ rs" using b'(3) by simp
  have len: "base \<le> pb_len b'" using arg_cong [OF rows, of length] assms(2) by simp
  have "drop base (pb_rows b') = rs" using rows assms(2) by simp
  then have "pb_tagged b' base = Some fresh" using pb_tagged_eq [OF b'(2) len] by (simp add: fresh_def rs_def)
  with fresh b' rows show ?thesis by (auto simp: rs_def)
qed

theorem tagged_rewrite_round_trip_witness:
  "\<exists>fresh b'. pb_tagged sample_buffer 1 = Some fresh \<and> pb_rewrite_region sample_buffer 1 fresh = Some b' \<and> pb_wf b' \<and>
    pb_rows b' = take 1 (pb_rows sample_buffer) @ filter row_live (drop 1 (pb_rows sample_buffer)) \<and>
    pb_tagged b' 1 = Some fresh"
  by (rule tagged_rewrite_round_trip) (simp_all add: sample_buffer_wf)

text \<open>
  A filter run through \<open>region\<close> on the tail of a buffer kills, among the candidates from the base
  on, exactly those it rejects; the candidates below the base keep their liveness although they may
  share a word with the region.
\<close>

theorem region_filter_local:
  assumes "pb_wf b" "base \<le> pb_len b"
  shows "\<exists>b'. pb_with_region b base (\<lambda>c. cd_retain c P) = Some b' \<and> pb_wf b' \<and>
    pb_rows b' = take base (pb_rows b) @ map (\<lambda>(p, v, l). (p, v, l \<and> P v)) (drop base (pb_rows b))"
  using pb_with_region_rows [OF assms, of "\<lambda>c. cd_retain c P" "\<lambda>_. P"] cd_retain_filters
  by (auto simp: kill_rows_def)

theorem region_filter_local_witness:
  "\<exists>b'. pb_with_region sample_buffer 1 (\<lambda>c. cd_retain c (\<lambda>x. x \<noteq> inline_pad [3])) = Some b' \<and> pb_wf b' \<and>
    pb_rows b' = take 1 (pb_rows sample_buffer) @
      map (\<lambda>(p, v, l). (p, v, l \<and> v \<noteq> inline_pad [3])) (drop 1 (pb_rows sample_buffer))"
  by (rule region_filter_local) (simp_all add: sample_buffer_wf)

end
