(* ===== verification/Row_Selection.thy ===== *)
theory Row_Selection
  imports Prelude
begin

text \<open>
  \<open>query/ordinal.rs\<close>: a selection of rows of an index block, either a consecutive range of ordinals
  or an explicit list. Ordinals are \<open>u32\<close>; the constructor of a range refuses one whose last ordinal
  does not fit. The theory shows that under that check a selection is faithfully its list of
  ordinals, \<open>rs_list\<close>: \<open>len\<close>, \<open>get\<close> and \<open>slice\<close> are the list's.
\<close>

section \<open>Selections and their operations\<close>

datatype row_selection = Consecutive u32 nat | Explicit "u32 list"

text \<open>\<open>u32::try_from(n)\<close> and \<open>checked_add\<close>.\<close>

definition u32_try_from :: "nat \<Rightarrow> u32 option" where
  "u32_try_from n = (if n < 2 ^ 32 then Some (word_of_nat n) else None)"

definition checked_add :: "u32 \<Rightarrow> u32 \<Rightarrow> u32 option" where
  "checked_add a b = (if unat a + unat b < 2 ^ 32 then Some (a + b) else None)"

definition consecutive_last :: "u32 \<Rightarrow> nat \<Rightarrow> u32 option" where
  "consecutive_last first len =
     (if len = 0 then Some first
      else do { offset \<leftarrow> u32_try_from (len - 1); checked_add first offset })"

definition rs_consecutive :: "u32 \<Rightarrow> nat \<Rightarrow> row_selection option" where
  "rs_consecutive first len = do {
     assert_that (consecutive_last first len \<noteq> None);
     Some (Consecutive first len)
   }"

definition rs_identity :: "nat \<Rightarrow> row_selection option" where
  "rs_identity len = rs_consecutive 0 len"

definition rs_explicit :: "u32 list \<Rightarrow> row_selection" where
  "rs_explicit vs = Explicit vs"

fun rs_len :: "row_selection \<Rightarrow> nat" where
  "rs_len (Consecutive first len) = len"
| "rs_len (Explicit vs) = length vs"

text \<open>The outer option is the panic, the inner one the \<open>Option\<close> of the code.\<close>

fun rs_get :: "row_selection \<Rightarrow> nat \<Rightarrow> u32 option option" where
  "rs_get (Consecutive first len) i =
     (if i < len then do { offset \<leftarrow> u32_try_from i; Some (Some (first + offset)) } else Some None)"
| "rs_get (Explicit vs) i = Some (if i < length vs then Some (vs ! i) else None)"

definition rs_slice :: "row_selection \<Rightarrow> nat \<Rightarrow> nat \<Rightarrow> row_selection option" where
  "rs_slice s start e = do {
     assert_that (start \<le> e \<and> e \<le> rs_len s);
     let len = e - start;
     case s of
       Consecutive first _ \<Rightarrow>
         if len = 0 then rs_consecutive 0 0
         else do {
           offset \<leftarrow> u32_try_from start;
           first' \<leftarrow> checked_add first offset;
           rs_consecutive first' len
         }
     | Explicit vs \<Rightarrow> do { vs' \<leftarrow> slice vs start e; Some (rs_explicit vs') }
   }"

section \<open>A selection is its list of ordinals\<close>

text \<open>What the checked constructor establishes; every explicit selection has it.\<close>

fun rs_wf :: "row_selection \<Rightarrow> bool" where
  "rs_wf (Consecutive first len) \<longleftrightarrow> len = 0 \<or> unat first + len \<le> 2 ^ 32"
| "rs_wf (Explicit vs) \<longleftrightarrow> True"

fun rs_list :: "row_selection \<Rightarrow> u32 list" where
  "rs_list (Consecutive first len) = map (\<lambda>i. first + word_of_nat i) [0..<len]"
| "rs_list (Explicit vs) = vs"

lemma length_rs_list [simp]: "length (rs_list s) = rs_len s"
  by (cases s) simp_all

lemma unat_u32_of_nat: "n < 2 ^ 32 \<Longrightarrow> unat (word_of_nat n :: u32) = n"
  by (simp add: unsigned_of_nat take_bit_nat_eq_self)

lemma consecutive_last_iff: "consecutive_last first len \<noteq> None \<longleftrightarrow> rs_wf (Consecutive first len)"
proof (cases "len = 0")
  case False
  have "unat (word_of_nat (len - 1) :: u32) = len - 1" if "len - 1 < 2 ^ 32"
    using that by (rule unat_u32_of_nat)
  with False show ?thesis
    by (auto simp: consecutive_last_def u32_try_from_def checked_add_def)
qed (simp add: consecutive_last_def)

lemma rs_consecutive_iff:
  "rs_consecutive first len = (if rs_wf (Consecutive first len) then Some (Consecutive first len) else None)"
  unfolding rs_consecutive_def consecutive_last_iff by (simp add: assert_that_def)

lemma rs_identity_eq:
  "len \<le> 2 ^ 32 \<Longrightarrow> rs_identity len = Some (Consecutive 0 len)"
  by (simp add: rs_identity_def rs_consecutive_iff)

lemma rs_identity_list:
  "len \<le> 2 ^ 32 \<Longrightarrow> \<exists>s. rs_identity len = Some s \<and> rs_wf s \<and> rs_list s = map word_of_nat [0..<len]"
  by (simp add: rs_identity_eq)

lemma rs_get_list:
  assumes "rs_wf s"
  shows "rs_get s i = Some (if i < rs_len s then Some (rs_list s ! i) else None)"
proof (cases s)
  case (Consecutive first len)
  with assms have "i < len \<Longrightarrow> i < 2 ^ 32" by auto
  with Consecutive show ?thesis by (simp add: u32_try_from_def)
qed simp

text \<open>The ordinals of a range do not wrap.\<close>

lemma rs_list_unat:
  assumes "rs_wf (Consecutive first len)" "i < len"
  shows "unat (rs_list (Consecutive first len) ! i) = unat first + i"
proof -
  have b: "unat first + i < 2 ^ 32" using assms by auto
  then have "unat (word_of_nat i :: u32) = i" by (intro unat_u32_of_nat) simp
  then show ?thesis using b assms(2) by (simp add: unat_word_ariths)
qed

lemma rs_slice_list:
  assumes "rs_wf s" "start \<le> e" "e \<le> rs_len s"
  shows "\<exists>s'. rs_slice s start e = Some s' \<and> rs_wf s' \<and> rs_list s' = take (e - start) (drop start (rs_list s))"
proof (cases s)
  case (Explicit vs)
  with assms show ?thesis by (simp add: rs_slice_def rs_explicit_def)
next
  case (Consecutive first len)
  show ?thesis
  proof (cases "start = e")
    case True
    with Consecutive assms show ?thesis by (simp add: rs_slice_def rs_consecutive_iff)
  next
    case False
    with assms Consecutive have b: "start < 2 ^ 32" "unat first + start < 2 ^ 32" "unat first + len \<le> 2 ^ 32"
      by auto
    then have u: "unat (word_of_nat start :: u32) = start" by (intro unat_u32_of_nat) simp
    then have f: "unat (first + word_of_nat start) = unat first + start" using b by (simp add: unat_word_ariths)
    have "rs_wf (Consecutive (first + word_of_nat start) (e - start))"
      using b f assms(2,3) Consecutive by simp
    moreover have "rs_list (Consecutive (first + word_of_nat start) (e - start)) = take (e - start) (drop start (rs_list s))"
      using assms(2,3) Consecutive by (intro nth_equalityI) (auto simp: algebra_simps)
    ultimately show ?thesis
      using False assms Consecutive b u
      by (simp add: rs_slice_def u32_try_from_def checked_add_def rs_consecutive_iff)
  qed
qed

text \<open>A slice out of range panics.\<close>

lemma rs_slice_panics: "\<not> (start \<le> e \<and> e \<le> rs_len s) \<Longrightarrow> rs_slice s start e = None"
  by (auto simp: rs_slice_def assert_that_def)

section \<open>Properties\<close>

text \<open>
  A well-formed selection is its list of ordinals: indexing answers the list's element or
  \<open>None\<close> past the end, slicing inside the selection takes the sublist and stays well formed, and the
  identity selection lists the ordinals from zero. No ordinal wraps around.
\<close>

theorem selection_is_list:
  assumes "rs_wf s" "start \<le> e" "e \<le> rs_len s" "len \<le> 2 ^ 32"
  shows "rs_get s i = Some (if i < length (rs_list s) then Some (rs_list s ! i) else None) \<and>
    (\<exists>s'. rs_slice s start e = Some s' \<and> rs_wf s' \<and> rs_list s' = take (e - start) (drop start (rs_list s))) \<and>
    (\<exists>t. rs_identity len = Some t \<and> rs_wf t \<and> map unat (rs_list t) = [0..<len])"
proof (intro conjI)
  obtain t where t: "rs_identity len = Some t" "rs_wf t" "rs_list t = map word_of_nat [0..<len]"
    using rs_identity_list [OF assms(4)] by blast
  have "map unat (rs_list t) = map (\<lambda>k. k) [0..<len]"
    unfolding t(3) map_map comp_def using assms(4) by (intro map_cong) (auto simp: unat_u32_of_nat)
  then show "\<exists>t. rs_identity len = Some t \<and> rs_wf t \<and> map unat (rs_list t) = [0..<len]" using t by auto
qed (use assms rs_get_list rs_slice_list in \<open>auto\<close>)

theorem selection_is_list_witness:
  "rs_get (Consecutive 0xFFFFFFF0 16) 15 = Some (if 15 < length (rs_list (Consecutive 0xFFFFFFF0 16))
      then Some (rs_list (Consecutive 0xFFFFFFF0 16) ! 15) else None) \<and>
    (\<exists>s'. rs_slice (Consecutive 0xFFFFFFF0 16) 4 16 = Some s' \<and> rs_wf s' \<and>
      rs_list s' = take (16 - 4) (drop 4 (rs_list (Consecutive 0xFFFFFFF0 16)))) \<and>
    (\<exists>t. rs_identity 3 = Some t \<and> rs_wf t \<and> map unat (rs_list t) = [0..<3])"
  by (rule selection_is_list) simp_all

text \<open>A slice whose bounds are reversed or past the end panics, for either form of selection.\<close>

theorem selection_slice_panics:
  assumes "rs_wf s"
  shows "rs_slice s start e = None \<longleftrightarrow> \<not> (start \<le> e \<and> e \<le> rs_len s)"
proof (cases "start \<le> e \<and> e \<le> rs_len s")
  case True
  then obtain s' where "rs_slice s start e = Some s'" using rs_slice_list [OF assms] by blast
  with True show ?thesis by simp
next
  case False
  then show ?thesis using rs_slice_panics by blast
qed

theorem selection_slice_panics_witness:
  "rs_slice (Consecutive 5 10) 3 11 = None \<longleftrightarrow> \<not> (3 \<le> (11 :: nat) \<and> 11 \<le> rs_len (Consecutive 5 10))"
  by (rule selection_slice_panics) simp

end
