(* ===== verification/Binding.thy ===== *)
theory Binding
  imports Variable_Set Proposal_Buffer Row_Selection
begin

text \<open>
  \<open>query.rs\<close>, how a partial solution is represented: \<open>RawTerm\<close> and \<open>VariableContext\<close>, the per-variable
  level buffers (\<open>LevelValues\<close>), \<open>Binding\<close> (a row of indexes into the buffers), \<open>Frontier\<close> (a batch of
  rows) and \<open>BindingStore\<close> (the owner of the buffers). A binding denotes the partial map \<open>bd_map\<close> from
  variables to values, a frontier the list of maps \<open>fr_assign f i\<close>; the lemmas say what each operation
  does to them. \<open>Arc\<close> is value semantics: a shared buffer is never written. The flag \<open>parallel\<close> of a
  frontier, which only chooses a thread pool, is not modelled.
\<close>

section \<open>Terms and variables\<close>

datatype raw_term = Var nat | Const raw_inline

record variable_context =
  next_index :: nat

definition vctx_new :: variable_context where
  "vctx_new = \<lparr>next_index = 0\<rparr>"

definition next_variable :: "variable_context \<Rightarrow> (nat \<times> variable_context) option" where
  "next_variable ctx = do {
     assert_that (next_index ctx < 128);
     Some (next_index ctx, ctx\<lparr>next_index := next_index ctx + 1\<rparr>)
   }"

section \<open>Level buffers, bindings, frontiers\<close>

record level_values =
  lv_buffer :: "proposal_buffer option"
  lv_pos :: nat

definition lv_empty :: level_values where
  "lv_empty = \<lparr>lv_buffer = None, lv_pos = 0\<rparr>"

text \<open>\<open>buffer()\<close> panics when the level was never used.\<close>

definition lv_published :: "level_values \<Rightarrow> proposal_buffer option" where
  "lv_published l = lv_buffer l"

record binding =
  bd_bound :: variable_set
  bd_indexes :: "u32 list"
  bd_levels :: "level_values list"

definition bd_get :: "binding \<Rightarrow> nat \<Rightarrow> raw_inline option option" where
  "bd_get b v =
     (if vs_is_set (bd_bound b) v then do {
        l \<leftarrow> idx (bd_levels b) v;
        buffer \<leftarrow> lv_published l;
        i \<leftarrow> idx (bd_indexes b) v;
        x \<leftarrow> idx (pb_entries buffer) (unat i);
        Some (Some x)
      } else Some None)"

definition bd_default :: binding where
  "bd_default = \<lparr>bd_bound = vs_new_empty, bd_indexes = replicate 128 0, bd_levels = replicate 128 lv_empty\<rparr>"

text \<open>\<open>Variable::extract\<close>, the projection of a row: an unbound variable panics.\<close>

definition variable_extract :: "nat \<Rightarrow> binding \<Rightarrow> raw_inline option" where
  "variable_extract index b = do { raw \<leftarrow> bd_get b index; raw }"

definition rt_is_var :: "raw_term \<Rightarrow> nat \<Rightarrow> bool" where
  "rt_is_var t v = (case t of Var w \<Rightarrow> w = v | Const _ \<Rightarrow> False)"

definition rt_position_value :: "raw_term \<Rightarrow> binding \<Rightarrow> raw_inline option option" where
  "rt_position_value t b = (case t of Var v \<Rightarrow> bd_get b v | Const c \<Rightarrow> Some (Some c))"

definition rt_add_to :: "raw_term \<Rightarrow> variable_set \<Rightarrow> variable_set" where
  "rt_add_to t s = (case t of Var v \<Rightarrow> vs_set s v | Const _ \<Rightarrow> s)"

record frontier =
  fr_bound :: variable_set
  fr_block :: "u32 list"
  fr_stride :: nat
  fr_select :: row_selection
  fr_levels :: "level_values list"

definition fr_default :: "frontier option" where
  "fr_default = do {
     select \<leftarrow> rs_identity 1;
     Some \<lparr>fr_bound = vs_new_empty, fr_block = replicate 128 0, fr_stride = 128,
            fr_select = select, fr_levels = replicate 128 lv_empty\<rparr>
   }"

definition fr_len :: "frontier \<Rightarrow> nat" where
  "fr_len f = rs_len (fr_select f)"

definition fr_is_empty :: "frontier \<Rightarrow> bool" where
  "fr_is_empty f \<longleftrightarrow> rs_len (fr_select f) = 0"

text \<open>\<open>rs_get_expect\<close>: \<open>select.get(i).expect(..)\<close>.\<close>

definition rs_get_expect :: "row_selection \<Rightarrow> nat \<Rightarrow> u32 option" where
  "rs_get_expect s i = do { r \<leftarrow> rs_get s i; r }"

definition fr_row_indexes :: "frontier \<Rightarrow> nat \<Rightarrow> u32 list option" where
  "fr_row_indexes f i = do {
     r \<leftarrow> rs_get_expect (fr_select f) i;
     slice (fr_block f) (unat r * fr_stride f) ((unat r + 1) * fr_stride f)
   }"

definition fr_row :: "frontier \<Rightarrow> nat \<Rightarrow> binding option" where
  "fr_row f i = do {
     ix \<leftarrow> fr_row_indexes f i;
     Some \<lparr>bd_bound = fr_bound f, bd_indexes = ix, bd_levels = fr_levels f\<rparr>
   }"

definition fr_rows :: "frontier \<Rightarrow> binding list option" where
  "fr_rows f = map_panic (fr_row f) [0..<fr_len f]"

definition fr_compose :: "frontier \<Rightarrow> u32 list \<Rightarrow> u32 list \<Rightarrow> u32 list option" where
  "fr_compose f positions out = do {
     rs \<leftarrow> map_panic (\<lambda>p. rs_get_expect (fr_select f) (unat p)) positions;
     Some (out @ rs)
   }"

definition fr_with_select :: "frontier \<Rightarrow> u32 list \<Rightarrow> frontier" where
  "fr_with_select f select = f\<lparr>fr_select := rs_explicit select\<rparr>"

section \<open>The store\<close>

record binding_store =
  bs_bound :: variable_set
  bs_indexes :: "u32 list"
  bs_levels :: "level_values list"

definition bs_new :: binding_store where
  "bs_new = \<lparr>bs_bound = vs_new_empty, bs_indexes = replicate 128 0, bs_levels = replicate 128 lv_empty\<rparr>"

definition bs_view :: "binding_store \<Rightarrow> binding" where
  "bs_view s = \<lparr>bd_bound = bs_bound s, bd_indexes = bs_indexes s, bd_levels = bs_levels s\<rparr>"

definition bs_frontier :: "binding_store \<Rightarrow> frontier option" where
  "bs_frontier s = do {
     select \<leftarrow> rs_identity 1;
     Some \<lparr>fr_bound = bs_bound s, fr_block = bs_indexes s, fr_stride = length (bs_indexes s),
            fr_select = select, fr_levels = bs_levels s\<rparr>
   }"

definition bs_bind :: "binding_store \<Rightarrow> nat \<Rightarrow> raw_inline \<Rightarrow> binding_store option" where
  "bs_bind s v x = do {
     level \<leftarrow> idx (bs_levels s) v;
     let buffer = (case lv_buffer level of None \<Rightarrow> pb_new | Some b \<Rightarrow> b);
     let index = pb_len buffer;
     buffer' \<leftarrow> pb_push buffer x;
     indexes \<leftarrow> idx_update (bs_indexes s) v (word_of_nat index);
     levels \<leftarrow> idx_update (bs_levels s) v (level\<lparr>lv_buffer := Some buffer'\<rparr>);
     Some (s\<lparr>bs_bound := vs_set (bs_bound s) v, bs_indexes := indexes, bs_levels := levels\<rparr>)
   }"

definition bs_unset :: "binding_store \<Rightarrow> nat \<Rightarrow> binding_store" where
  "bs_unset s v = s\<lparr>bs_bound := vs_unset (bs_bound s) v\<rparr>"

definition bs_batch :: "binding_store \<Rightarrow> u32 list \<Rightarrow> row_selection \<Rightarrow> nat \<Rightarrow> frontier" where
  "bs_batch s block select stride =
     \<lparr>fr_bound = bs_bound s, fr_block = block, fr_stride = stride, fr_select = select, fr_levels = bs_levels s\<rparr>"

text \<open>The level is taken out of the array while \<open>propose\<close> runs, and comes back cleared and refilled.\<close>

definition bs_refill ::
  "binding_store \<Rightarrow> nat \<Rightarrow> u32 list \<Rightarrow> row_selection \<Rightarrow> nat \<Rightarrow>
   (frontier \<Rightarrow> proposal_buffer \<Rightarrow> proposal_buffer option) \<Rightarrow> (binding_store \<times> nat) option" where
  "bs_refill s v block select stride propose = do {
     level \<leftarrow> idx (bs_levels s) v;
     let s1 = s\<lparr>bs_levels := (bs_levels s)[v := lv_empty]\<rparr>;
     let buffer = (case lv_buffer level of None \<Rightarrow> pb_new | Some b \<Rightarrow> b);
     buffer' \<leftarrow> propose (bs_batch s1 block select stride) (pb_clear buffer);
     Some (s1\<lparr>bs_levels := (bs_levels s1)[v := \<lparr>lv_buffer = Some buffer', lv_pos = 0\<rparr>]\<rparr>, pb_len buffer')
   }"

definition bs_consumed :: "binding_store \<Rightarrow> nat \<Rightarrow> nat option" where
  "bs_consumed s v = do { l \<leftarrow> idx (bs_levels s) v; Some (lv_pos l) }"

text \<open>
  The loop of \<open>take_chunk\<close>, \<open>n\<close> being \<open>width - rows\<close>: the state is the cursor and the two output
  vectors. The row count of the result is the length of the second vector.
\<close>

fun take_chunk_loop ::
  "nat \<Rightarrow> proposal_buffer \<Rightarrow> nat \<Rightarrow> u32 list \<Rightarrow> row_selection \<Rightarrow> nat \<Rightarrow> nat \<times> u32 list \<times> u32 list \<Rightarrow>
   (nat \<times> u32 list \<times> u32 list) option" where
  "take_chunk_loop 0 buffer v parent_block parent_select stride st = Some st"
| "take_chunk_loop (Suc n) buffer v parent_block parent_select stride (pos, out, parents_out) = do {
     r \<leftarrow> pb_next_live buffer pos;
     case r of None \<Rightarrow> Some (pos, out, parents_out)
     | Some i \<Rightarrow> do {
         tag \<leftarrow> pb_parent_of buffer i;
         parent \<leftarrow> rs_get_expect parent_select (unat tag);
         row \<leftarrow> slice parent_block (unat parent * stride) ((unat parent + 1) * stride);
         let out1 = out @ row;
         out2 \<leftarrow> idx_update out1 (length out1 - stride + v) (word_of_nat i);
         take_chunk_loop n buffer v parent_block parent_select stride (i + 1, out2, parents_out @ [parent])
       }
   }"

definition bs_take_chunk ::
  "binding_store \<Rightarrow> nat \<Rightarrow> nat \<Rightarrow> u32 list \<Rightarrow> row_selection \<Rightarrow> nat \<Rightarrow>
   (binding_store \<times> u32 list \<times> u32 list \<times> nat) option" where
  "bs_take_chunk s v width parent_block parent_select stride = do {
     level \<leftarrow> idx (bs_levels s) v;
     buffer \<leftarrow> lv_buffer level;
     (pos, out, parents_out) \<leftarrow>
       take_chunk_loop width buffer v parent_block parent_select stride (lv_pos level, [], []);
     let rows = length parents_out;
     Some (s\<lparr>bs_levels := (bs_levels s)[v := level\<lparr>lv_pos := pos\<rparr>],
             bs_bound := vs_set_value (bs_bound s) v (rows \<noteq> 0)\<rparr>, out, parents_out, rows)
   }"

fun draw_loop ::
  "nat \<Rightarrow> proposal_buffer \<Rightarrow> row_selection \<Rightarrow> nat \<times> u32 list \<times> u32 list \<Rightarrow>
   (nat \<times> u32 list \<times> u32 list) option" where
  "draw_loop 0 buffer parent_select st = Some st"
| "draw_loop (Suc n) buffer parent_select (pos, drawn, parents_out) = do {
     r \<leftarrow> pb_next_live buffer pos;
     case r of None \<Rightarrow> Some (pos, drawn, parents_out)
     | Some i \<Rightarrow> do {
         tag \<leftarrow> pb_parent_of buffer i;
         parent \<leftarrow> rs_get_expect parent_select (unat tag);
         draw_loop n buffer parent_select (i + 1, drawn @ [word_of_nat i], parents_out @ [parent])
       }
   }"

definition bs_draw ::
  "binding_store \<Rightarrow> nat \<Rightarrow> nat \<Rightarrow> row_selection \<Rightarrow> (binding_store \<times> u32 list \<times> u32 list) option" where
  "bs_draw s v width parent_select = do {
     level \<leftarrow> idx (bs_levels s) v;
     buffer \<leftarrow> lv_buffer level;
     (pos, drawn, parents_out) \<leftarrow> draw_loop width buffer parent_select (lv_pos level, [], []);
     Some (s\<lparr>bs_levels := (bs_levels s)[v := level\<lparr>lv_pos := pos\<rparr>],
             bs_bound := vs_set_value (bs_bound s) v (drawn \<noteq> [])\<rparr>, drawn, parents_out)
   }"

definition bs_spent :: "binding_store \<Rightarrow> nat \<Rightarrow> bool option" where
  "bs_spent s v = do {
     level \<leftarrow> idx (bs_levels s) v;
     buffer \<leftarrow> lv_published level;
     r \<leftarrow> pb_next_live buffer (lv_pos level);
     Some (r = None)
   }"

section \<open>What bindings and frontiers denote\<close>

type_synonym assignment = "nat \<rightharpoonup> raw_inline"

text \<open>A binding is well formed when every bound variable resolves.\<close>

definition bd_wf :: "binding \<Rightarrow> bool" where
  "bd_wf b \<longleftrightarrow> (\<forall>v \<in> vs_elems (bd_bound b). \<exists>x. bd_get b v = Some (Some x))"

definition bd_map :: "binding \<Rightarrow> assignment" where
  "bd_map b v = (if v \<in> vs_elems (bd_bound b) then (case bd_get b v of None \<Rightarrow> None | Some r \<Rightarrow> r) else None)"

definition fr_wf :: "frontier \<Rightarrow> bool" where
  "fr_wf f \<longleftrightarrow> rs_wf (fr_select f) \<and> (\<forall>i < fr_len f. \<exists>b. fr_row f i = Some b \<and> bd_wf b)"

definition fr_assign :: "frontier \<Rightarrow> nat \<Rightarrow> assignment" where
  "fr_assign f i = (case fr_row f i of None \<Rightarrow> Map.empty | Some b \<Rightarrow> bd_map b)"

lemma bd_get_map:
  assumes "bd_wf b" "v < 128"
  shows "bd_get b v = Some (bd_map b v)"
proof (cases "v \<in> vs_elems (bd_bound b)")
  case True
  then show ?thesis using assms(1) by (auto simp: bd_wf_def bd_map_def)
next
  case False
  then show ?thesis using assms(2) by (simp add: bd_map_def bd_get_def)
qed

lemma dom_bd_map: "bd_wf b \<Longrightarrow> dom (bd_map b) = vs_elems (bd_bound b)"
  by (auto simp: bd_wf_def bd_map_def split: if_splits)

lemma bd_default_wf [simp]: "bd_wf bd_default" "bd_map bd_default = Map.empty"
  by (auto simp: bd_wf_def bd_map_def bd_default_def)

lemma rt_position_value_eq:
  "bd_wf b \<Longrightarrow> (\<And>v. t = Var v \<Longrightarrow> v < 128) \<Longrightarrow>
     rt_position_value t b = Some (case t of Var v \<Rightarrow> bd_map b v | Const c \<Rightarrow> Some c)"
  by (cases t) (auto simp: rt_position_value_def bd_get_map)

lemma fr_row_sel: "fr_row f i = Some b \<Longrightarrow> bd_bound b = fr_bound f \<and> bd_levels b = fr_levels f"
  by (auto simp: fr_row_def split: Option.bind_splits)

lemma fr_rowE:
  assumes "fr_wf f" "i < fr_len f"
  obtains b where "fr_row f i = Some b" "bd_wf b" "bd_map b = fr_assign f i" "bd_bound b = fr_bound f"
    "dom (fr_assign f i) = vs_elems (fr_bound f)"
proof -
  obtain b where b: "fr_row f i = Some b" "bd_wf b" using assms by (auto simp: fr_wf_def)
  then have "bd_map b = fr_assign f i" "bd_bound b = fr_bound f" using fr_row_sel by (auto simp: fr_assign_def)
  with b dom_bd_map [OF b(2)] show thesis by (intro that) auto
qed

lemma fr_assign_unbound:
  "fr_wf f \<Longrightarrow> i < fr_len f \<Longrightarrow> v \<notin> vs_elems (fr_bound f) \<Longrightarrow> fr_assign f i v = None"
  by (metis fr_rowE domIff)

lemma rs_get_expect_eq:
  "rs_wf s \<Longrightarrow> rs_get_expect s i = (if i < rs_len s then Some (rs_list s ! i) else None)"
  by (simp add: rs_get_expect_def rs_get_list)

text \<open>A row depends on the selection only through the ordinal selected.\<close>

lemma fr_row_select:
  assumes "rs_wf s" "rs_wf (fr_select f)" "i < rs_len s" "j < fr_len f" "rs_list s ! i = rs_list (fr_select f) ! j"
  shows "fr_row (f\<lparr>fr_select := s\<rparr>) i = fr_row f j"
  using assms by (simp add: fr_row_def fr_row_indexes_def rs_get_expect_eq fr_len_def)

lemma fr_compose_eq:
  assumes "fr_wf f" "\<And>p. p \<in> set ps \<Longrightarrow> unat p < fr_len f"
  shows "fr_compose f ps out = Some (out @ map (\<lambda>p. rs_list (fr_select f) ! unat p) ps)"
proof -
  have "map_panic (\<lambda>p. rs_get_expect (fr_select f) (unat p)) ps =
      Some (map (\<lambda>p. rs_list (fr_select f) ! unat p) ps)"
    using assms by (intro map_panic_Some) (simp add: rs_get_expect_eq fr_wf_def fr_len_def)
  then show ?thesis by (simp add: fr_compose_def)
qed

text \<open>The sub-batch of the rows \<open>ps\<close>: its row \<open>i\<close> is the row \<open>ps ! i\<close> of the batch.\<close>

lemma fr_sub_batch:
  assumes "fr_wf f" "\<And>p. p \<in> set ps \<Longrightarrow> unat p < fr_len f"
  defines "sub \<equiv> fr_with_select f (map (\<lambda>p. rs_list (fr_select f) ! unat p) ps)"
  shows "fr_wf sub" "fr_len sub = length ps" "fr_bound sub = fr_bound f"
    "\<And>i. i < length ps \<Longrightarrow> fr_row sub i = fr_row f (unat (ps ! i))"
    "\<And>i. i < length ps \<Longrightarrow> fr_assign sub i = fr_assign f (unat (ps ! i))"
proof -
  show rows: "fr_row sub i = fr_row f (unat (ps ! i))" if "i < length ps" for i
    unfolding sub_def fr_with_select_def using that assms(1,2)
    by (intro fr_row_select) (auto simp: rs_explicit_def fr_wf_def)
  show len: "fr_len sub = length ps" "fr_bound sub = fr_bound f"
    by (simp_all add: sub_def fr_with_select_def rs_explicit_def fr_len_def)
  show "fr_wf sub"
    using assms(1,2) rows len by (auto simp: fr_wf_def) (simp add: sub_def fr_with_select_def rs_explicit_def)
  show "fr_assign sub i = fr_assign f (unat (ps ! i))" if "i < length ps" for i
    using rows [OF that] by (simp add: fr_assign_def)
qed

lemma fr_rows_eq:
  assumes "fr_wf f"
  shows "\<exists>bs. fr_rows f = Some bs \<and> length bs = fr_len f \<and> (\<forall>i < fr_len f. bd_map (bs ! i) = fr_assign f i)"
proof -
  have "fr_rows f = Some (map (\<lambda>i. the (fr_row f i)) [0..<fr_len f])"
    unfolding fr_rows_def using assms by (intro map_panic_Some) (auto simp: fr_wf_def)
  moreover have "bd_map (the (fr_row f i)) = fr_assign f i" if "i < fr_len f" for i
    using fr_rowE [OF assms that] by (metis option.sel)
  ultimately show ?thesis by simp
qed

section \<open>The store as a partial map\<close>

definition lv_wf :: "level_values \<Rightarrow> bool" where
  "lv_wf l \<longleftrightarrow> (case lv_buffer l of None \<Rightarrow> True | Some b \<Rightarrow> pb_wf b)"

definition bs_wf :: "binding_store \<Rightarrow> bool" where
  "bs_wf s \<longleftrightarrow> length (bs_indexes s) = 128 \<and> length (bs_levels s) = 128 \<and> (\<forall>l \<in> set (bs_levels s). lv_wf l)
     \<and> (\<forall>v \<in> vs_elems (bs_bound s). \<exists>b. lv_buffer (bs_levels s ! v) = Some b
          \<and> unat (bs_indexes s ! v) < pb_len b)"

lemma bs_new_wf: "bs_wf bs_new"
  by (simp add: bs_wf_def bs_new_def lv_wf_def lv_empty_def)

lemma bs_view_get:
  assumes "bs_wf s" "v < 128"
  shows "bd_get (bs_view s) v = Some (if v \<in> vs_elems (bs_bound s)
    then Some (pb_entries (the (lv_buffer (bs_levels s ! v))) ! unat (bs_indexes s ! v)) else None)"
  using assms by (auto simp: bd_get_def bs_view_def bs_wf_def lv_published_def pb_len_def)

lemma bs_view_wf: "bs_wf s \<Longrightarrow> bd_wf (bs_view s)"
  unfolding bd_wf_def using vs_elems_bound bs_view_get [of s]
  by (auto simp: bs_view_def)

text \<open>
  Binding, unbinding and lookup have the laws of a finite map. Callers that bind many variables rely
  on nothing else.
\<close>

locale variable_store =
  fixes ok :: "'s \<Rightarrow> bool" and room :: "'s \<Rightarrow> nat \<Rightarrow> bool" and get :: "'s \<Rightarrow> assignment"
    and put :: "'s \<Rightarrow> nat \<Rightarrow> raw_inline \<Rightarrow> 's option" and del :: "'s \<Rightarrow> nat \<Rightarrow> 's"
  assumes put: "ok s \<Longrightarrow> v < 128 \<Longrightarrow> room s v \<Longrightarrow>
      \<exists>s'. put s v x = Some s' \<and> ok s' \<and> get s' = (get s)(v \<mapsto> x) \<and> (\<forall>w. w \<noteq> v \<longrightarrow> room s' w = room s w)"
    and del: "ok s \<Longrightarrow> v < 128 \<Longrightarrow> ok (del s v) \<and> get (del s v) = (get s)(v := None)"
begin

lemma put_all:
  "ok s \<Longrightarrow> distinct (map fst kvs) \<Longrightarrow> (\<forall>(v, x) \<in> set kvs. v < 128 \<and> room s v) \<Longrightarrow>
     \<exists>s'. for_each (\<lambda>s (v, x). put s v x) s kvs = Some s' \<and> ok s' \<and> get s' = get s ++ map_of kvs"
proof (induction kvs arbitrary: s)
  case (Cons kv kvs)
  obtain v x where kv: "kv = (v, x)" by force
  obtain s1 where s1: "put s v x = Some s1" "ok s1" "get s1 = (get s)(v \<mapsto> x)" "\<forall>w. w \<noteq> v \<longrightarrow> room s1 w = room s w"
    using put [of s v x] Cons.prems kv by auto
  have "\<exists>s'. for_each (\<lambda>s (v, x). put s v x) s1 kvs = Some s' \<and> ok s' \<and> get s' = get s1 ++ map_of kvs"
    using Cons.prems s1 kv by (intro Cons.IH) (auto, force)
  then obtain s' where s': "for_each (\<lambda>s (v, x). put s v x) s1 kvs = Some s'" "ok s'"
    "get s' = get s1 ++ map_of kvs" by blast
  have "map_of kvs v = None" using Cons.prems(2) kv by (auto simp: map_of_eq_None_iff)
  then have "get s1 ++ map_of kvs = get s ++ map_of (kv # kvs)"
    by (auto simp: s1(3) kv map_add_def fun_eq_iff split: option.splits)
  moreover have "for_each (\<lambda>s (v, x). put s v x) s (kv # kvs) = Some s'" using s1(1) s'(1) kv by simp
  ultimately show ?case using s'(2,3) by metis
qed simp

end

text \<open>\<open>index as u32\<close> keeps the index when the level holds fewer than \<open>2 ^ 32\<close> values.\<close>

definition bs_room :: "binding_store \<Rightarrow> nat \<Rightarrow> bool" where
  "bs_room s v \<longleftrightarrow> (case lv_buffer (bs_levels s ! v) of None \<Rightarrow> True | Some b \<Rightarrow> pb_len b < 2 ^ 32)"

lemma bs_bind_get:
  assumes "bs_wf s" "v < 128" "bs_room s v"
  shows "\<exists>s'. bs_bind s v x = Some s' \<and> bs_wf s' \<and> bd_map (bs_view s') = (bd_map (bs_view s))(v \<mapsto> x)
    \<and> (\<forall>w. w \<noteq> v \<longrightarrow> bs_room s' w = bs_room s w)"
proof -
  define buf where "buf = (case lv_buffer (bs_levels s ! v) of None \<Rightarrow> pb_new | Some b \<Rightarrow> b)"
  have len: "length (bs_indexes s) = 128" "length (bs_levels s) = 128" using assms(1) by (auto simp: bs_wf_def)
  have "lv_wf (bs_levels s ! v)" using assms(1,2) by (simp add: bs_wf_def)
  then have wf: "pb_wf buf" by (auto simp: buf_def lv_wf_def split: option.splits)
  have small: "pb_len buf < 2 ^ 32"
    using assms(3) by (auto simp: buf_def bs_room_def pb_new_def pb_len_def split: option.splits)
  obtain buf' where buf': "pb_push buf x = Some buf'" "pb_wf buf'" "pb_rows buf' = pb_rows buf @ [(pb_parent buf, x, True)]"
    using pb_push_rows [OF wf] by blast
  define s' where "s' = s\<lparr>bs_bound := vs_set (bs_bound s) v, bs_indexes := (bs_indexes s)[v := word_of_nat (pb_len buf)],
      bs_levels := (bs_levels s)[v := (bs_levels s ! v)\<lparr>lv_buffer := Some buf'\<rparr>]\<rparr>"
  have eq: "bs_bind s v x = Some s'"
    using len assms(2) buf'(1) by (simp add: bs_bind_def Let_def s'_def buf_def)
  have n': "pb_len buf' = Suc (pb_len buf)" using arg_cong [OF buf'(3), of length] by simp
  have at: "pb_entries buf' ! pb_len buf = x"
    using arg_cong [OF buf'(3), of "\<lambda>r. r ! pb_len buf"] n' by (simp add: nth_append)
  have u: "unat (word_of_nat (pb_len buf) :: u32) = pb_len buf" using small by (rule unat_u32_of_nat)
  have "l \<in> set (bs_levels s') \<Longrightarrow> lv_wf l" for l
    using assms(1) buf'(2) set_update_subset_insert [of "bs_levels s" v "(bs_levels s ! v)\<lparr>lv_buffer := Some buf'\<rparr>"]
    by (auto simp: s'_def bs_wf_def lv_wf_def)
  then have wf': "bs_wf s'"
    using assms(1,2) len n' u by (auto simp: bs_wf_def s'_def nth_list_update)
  have "bd_map (bs_view s') w = ((bd_map (bs_view s))(v \<mapsto> x)) w" for w
  proof (cases "w < 128")
    case True
    have "bd_get (bs_view s') w = (if w = v then Some (Some x) else bd_get (bs_view s) w)"
      unfolding bs_view_get [OF wf' True] bs_view_get [OF assms(1) True]
      using assms(2) len at u by (simp add: s'_def)
    then show ?thesis
      using bd_get_map [OF bs_view_wf True] wf' assms(1) by (auto split: if_splits)
  next
    case False
    then show ?thesis using assms(2) by (auto simp: bd_map_def dest: vs_elems_bound)
  qed
  moreover have "\<forall>w. w \<noteq> v \<longrightarrow> bs_room s' w = bs_room s w" by (simp add: bs_room_def s'_def)
  ultimately show ?thesis using eq wf' by auto
qed

lemma bs_unset_get:
  assumes "bs_wf s" "v < 128"
  shows "bs_wf (bs_unset s v) \<and> bd_map (bs_view (bs_unset s v)) = (bd_map (bs_view s))(v := None)"
proof -
  have wf: "bs_wf (bs_unset s v)" using assms by (auto simp: bs_wf_def bs_unset_def)
  have "bd_map (bs_view (bs_unset s v)) w = ((bd_map (bs_view s))(v := None)) w" for w
    using assms by (auto simp: bd_map_def bs_view_def bs_unset_def bd_get_def dest: vs_elems_bound)
  then show ?thesis using wf by blast
qed

interpretation store: variable_store bs_wf bs_room "\<lambda>s. bd_map (bs_view s)" bs_bind bs_unset
  by unfold_locales (use bs_bind_get bs_unset_get in blast)+

section \<open>Properties\<close>

text \<open>
  Binding then reading: after \<open>bind\<close>, the view resolves the variable to the value and every other
  variable as before; after \<open>unset\<close> it no longer resolves it. The value goes into the variable's level
  buffer and the row holds its index, which must fit in 32 bits.
\<close>

theorem bind_then_get:
  assumes "bs_wf s" "v < 128" "bs_room s v"
  shows "\<exists>s'. bs_bind s v x = Some s' \<and> bs_wf s' \<and>
    (\<forall>w < 128. bd_get (bs_view s') w = (if w = v then Some (Some x) else bd_get (bs_view s) w)) \<and>
    (\<forall>w < 128. bd_get (bs_view (bs_unset s' v)) w = (if w = v then Some None else bd_get (bs_view s) w))"
proof -
  obtain s' where s': "bs_bind s v x = Some s'" "bs_wf s'" "bd_map (bs_view s') = (bd_map (bs_view s))(v \<mapsto> x)"
    using bs_bind_get [OF assms] by blast
  have u: "bs_wf (bs_unset s' v)" "bd_map (bs_view (bs_unset s' v)) = (bd_map (bs_view s'))(v := None)"
    using bs_unset_get [OF s'(2) assms(2)] by auto
  show ?thesis
    using s' u assms(1) by (intro exI [of _ s']) (auto simp: bd_get_map [OF bs_view_wf])
qed

theorem bind_then_get_witness:
  "\<exists>s'. bs_bind bs_new 5 (inline_pad [7]) = Some s' \<and> bs_wf s' \<and>
    (\<forall>w < 128. bd_get (bs_view s') w = (if w = 5 then Some (Some (inline_pad [7])) else bd_get (bs_view bs_new) w)) \<and>
    (\<forall>w < 128. bd_get (bs_view (bs_unset s' 5)) w = (if w = 5 then Some None else bd_get (bs_view bs_new) w))"
  by (rule bind_then_get [OF bs_new_wf]) (simp_all add: bs_room_def bs_new_def lv_empty_def)

text \<open>
  Binding a list of distinct variables one after the other yields the update of the bindings by the
  whole list.
\<close>

theorem bind_all:
  assumes "bs_wf s" "distinct (map fst kvs)" "\<forall>(v, x) \<in> set kvs. v < 128 \<and> bs_room s v"
  shows "\<exists>s'. for_each (\<lambda>s (v, x). bs_bind s v x) s kvs = Some s' \<and> bs_wf s' \<and>
    bd_map (bs_view s') = bd_map (bs_view s) ++ map_of kvs"
  using assms by (rule store.put_all)

theorem bind_all_witness:
  "\<exists>s'. for_each (\<lambda>s (v, x). bs_bind s v x) bs_new [(3, inline_pad [1]), (0, inline_pad [2])] = Some s' \<and> bs_wf s' \<and>
    bd_map (bs_view s') = bd_map (bs_view bs_new) ++ map_of [(3, inline_pad [1]), (0, inline_pad [2])]"
  by (rule bind_all [OF bs_new_wf]) (simp_all add: bs_room_def bs_new_def lv_empty_def)

text \<open>
  A sub-batch is a selection of the batch's rows: composing positions with the batch's selection and
  reading the batch through the result gives, at each place, the row at that position.
\<close>

theorem sub_batch_rows:
  assumes "fr_wf f" "\<forall>p \<in> set ps. unat p < fr_len f"
  shows "\<exists>select. fr_compose f ps [] = Some select \<and> fr_wf (fr_with_select f select) \<and>
    fr_len (fr_with_select f select) = length ps \<and>
    (\<forall>i < length ps. fr_row (fr_with_select f select) i = fr_row f (unat (ps ! i)))"
  using fr_compose_eq [of f ps "[]"] fr_sub_batch [of f ps] assms by auto

theorem sub_batch_rows_witness:
  "\<exists>f select. fr_default = Some f \<and> fr_compose f [0, 0] [] = Some select \<and>
    (\<forall>i < 2. fr_row (fr_with_select f select) i = fr_row f (unat ([0, 0 :: u32] ! i)))"
proof -
  define f where "f = \<lparr>fr_bound = vs_new_empty, fr_block = replicate 128 0, fr_stride = 128,
      fr_select = Consecutive 0 1, fr_levels = replicate 128 lv_empty\<rparr>"
  have f: "fr_default = Some f" using rs_identity_eq [of 1] by (simp add: fr_default_def f_def)
  have "fr_len f = 1" by (simp add: fr_len_def f_def)
  moreover from this have "fr_wf f"
    by (simp add: fr_wf_def f_def fr_row_def fr_row_indexes_def rs_get_expect_def u32_try_from_def bd_wf_def)
  ultimately obtain select where "fr_compose f [0, 0] [] = Some select"
    "\<forall>i < length [0, 0 :: u32]. fr_row (fr_with_select f select) i = fr_row f (unat ([0, 0 :: u32] ! i))"
    using sub_batch_rows [of f "[0, 0]"] by auto
  then show ?thesis using f by auto
qed

end
