(* ===== verification/Constraint.thy ===== *)
theory Constraint
  imports Binding
begin

text \<open>
  \<open>query.rs\<close>, the trait \<open>Constraint\<close>: an implementation is a record of its six methods, the table a
  \<open>dyn Constraint\<close> carries; forwarding through \<open>Box\<close> and \<open>Arc\<close> is the identity on it. The two provided
  methods are \<open>default_satisfied\<close> and \<open>default_influence\<close>.

  The contract of the trait is the locale \<open>lawful\<close>. Its ghost parameter \<open>good\<close> says which partial
  assignments the constraint does not reject; a total one that is good is a solution. The laws are
  what the composites and the engine rely on: \<open>estimate\<close> answers by the set of bound variables,
  \<open>propose\<close> appends tagged candidates, offers every value that keeps the assignment good and none
  that spoils it, \<open>confirm\<close> only kills, and kills exactly the values that spoil the assignment.
\<close>

section \<open>The trait\<close>

record constraint =
  c_variables :: variable_set
  c_estimate :: "nat \<Rightarrow> binding \<Rightarrow> nat option option"
  c_propose :: "nat \<Rightarrow> frontier \<Rightarrow> proposal_buffer \<Rightarrow> proposal_buffer option"
  c_confirm :: "nat \<Rightarrow> frontier \<Rightarrow> candidates \<Rightarrow> candidates option"
  c_satisfied :: "binding \<Rightarrow> bool option"
  c_influence :: "nat \<Rightarrow> variable_set"

definition default_satisfied :: "binding \<Rightarrow> bool option" where
  "default_satisfied b = Some True"

definition default_influence :: "variable_set \<Rightarrow> nat \<Rightarrow> variable_set" where
  "default_influence vars v = (if vs_is_set vars v then vs_unset vars v else vs_new_empty)"

text \<open>
  The forwarding implementations for \<open>Box<T>\<close> and \<open>Arc<T>\<close>: every method of the pointer calls the method
  of the constraint it points to.
\<close>

definition boxed_constraint :: "constraint \<Rightarrow> constraint" where
  "boxed_constraint inner =
     \<lparr>c_variables = c_variables inner,
      c_estimate = (\<lambda>v b. c_estimate inner v b),
      c_propose = (\<lambda>v f pb. c_propose inner v f pb),
      c_confirm = (\<lambda>v f cs. c_confirm inner v f cs),
      c_satisfied = (\<lambda>b. c_satisfied inner b),
      c_influence = (\<lambda>v. c_influence inner v)\<rparr>"

definition shared_constraint :: "constraint \<Rightarrow> constraint" where
  "shared_constraint inner =
     \<lparr>c_variables = c_variables inner,
      c_estimate = (\<lambda>v b. c_estimate inner v b),
      c_propose = (\<lambda>v f pb. c_propose inner v f pb),
      c_confirm = (\<lambda>v f cs. c_confirm inner v f cs),
      c_satisfied = (\<lambda>b. c_satisfied inner b),
      c_influence = (\<lambda>v. c_influence inner v)\<rparr>"

lemma forwarding [simp]: "boxed_constraint c = c" "shared_constraint c = c"
  by (simp_all add: boxed_constraint_def shared_constraint_def)

text \<open>The loop \<open>for row in 0..frontier.len() { .. }\<close> of a proposer.\<close>

definition for_rows ::
  "frontier \<Rightarrow> (nat \<Rightarrow> proposal_buffer \<Rightarrow> proposal_buffer option) \<Rightarrow> proposal_buffer \<Rightarrow> proposal_buffer option" where
  "for_rows f step b = for_each (\<lambda>b row. step row b) b [0..<fr_len f]"

lemma default_influence_elems:
  "v < 128 \<Longrightarrow> vs_elems (default_influence vars v) = (if v \<in> vs_elems vars then vs_elems vars - {v} else {})"
  by (simp add: default_influence_def)

section \<open>The contract\<close>

definition confirm_spec :: "(assignment \<Rightarrow> bool) \<Rightarrow> nat \<Rightarrow> frontier \<Rightarrow> (u32 \<Rightarrow> raw_inline \<Rightarrow> bool) \<Rightarrow> bool" where
  "confirm_spec good v f Q \<longleftrightarrow> (\<forall>p x. unat p < fr_len f \<longrightarrow>
     (good ((fr_assign f (unat p))(v \<mapsto> x)) \<longrightarrow> Q p x) \<and>
     (Q p x \<longrightarrow> good (fr_assign f (unat p)) \<longrightarrow> good ((fr_assign f (unat p))(v \<mapsto> x))))"

definition propose_spec ::
  "(assignment \<Rightarrow> bool) \<Rightarrow> nat \<Rightarrow> frontier \<Rightarrow> (nat \<Rightarrow> bool) \<Rightarrow> candidate_row list \<Rightarrow> bool" where
  "propose_spec good v f complete rows \<longleftrightarrow>
     (\<forall>r \<in> set rows. unat (row_tag r) < fr_len f) \<and>
     (\<forall>r \<in> set rows. row_live r \<longrightarrow> good (fr_assign f (unat (row_tag r))) \<longrightarrow>
        good ((fr_assign f (unat (row_tag r)))(v \<mapsto> row_value r))) \<and>
     (\<forall>p < fr_len f. complete p \<longrightarrow> (\<forall>x. good ((fr_assign f p)(v \<mapsto> x)) \<longrightarrow>
        (word_of_nat p, x, True) \<in> set rows)) \<and>
     distinct (map (\<lambda>r. (row_tag r, row_value r)) (filter row_live rows))"

text \<open>A row for which \<open>propose\<close> must be exhaustive: the estimate is a number below \<open>usize::MAX\<close>.\<close>

definition offers :: "constraint \<Rightarrow> nat \<Rightarrow> frontier \<Rightarrow> nat \<Rightarrow> bool" where
  "offers c v f p \<longleftrightarrow> (\<exists>b e. fr_row f p = Some b \<and> c_estimate c v b = Some (Some e) \<and> e < usize_max)"

locale lawful =
  fixes c :: constraint and good :: "assignment \<Rightarrow> bool"
  assumes good_local: "(\<forall>v \<in> vs_elems (c_variables c). \<sigma> v = \<tau> v) \<Longrightarrow> good \<sigma> = good \<tau>"
    and good_antimono: "good \<tau> \<Longrightarrow> \<sigma> \<subseteq>\<^sub>m \<tau> \<Longrightarrow> good \<sigma>"
    and satisfied_total: "bd_wf b \<Longrightarrow> \<exists>s. c_satisfied c b = Some s \<and> (good (bd_map b) \<longrightarrow> s)"
    and satisfied_root: "bd_wf b \<Longrightarrow> bd_map b = Map.empty \<Longrightarrow> c_satisfied c b = Some True \<Longrightarrow> good Map.empty"
    and estimate_total: "bd_wf b \<Longrightarrow> v \<notin> vs_elems (bd_bound b) \<Longrightarrow> \<exists>e. c_estimate c v b = Some e"
    and estimate_uniform: "bd_wf b \<Longrightarrow> bd_wf b' \<Longrightarrow> bd_bound b = bd_bound b' \<Longrightarrow> v \<notin> vs_elems (bd_bound b) \<Longrightarrow>
      c_estimate c v b = Some None \<Longrightarrow> c_estimate c v b' = Some None"
    and estimate_foreign: "bd_wf b \<Longrightarrow> v \<notin> vs_elems (bd_bound b) \<Longrightarrow> v \<notin> vs_elems (c_variables c) \<Longrightarrow> c_estimate c v b = Some None"
    and estimate_none: "bd_wf b \<Longrightarrow> c_estimate c v b = Some None \<Longrightarrow> v \<notin> vs_elems (bd_bound b) \<Longrightarrow>
      good (bd_map b) \<Longrightarrow> good ((bd_map b)(v \<mapsto> x))"
    and propose: "fr_wf f \<Longrightarrow> fr_len f < 2 ^ 32 \<Longrightarrow> v < 128 \<Longrightarrow> v \<notin> vs_elems (fr_bound f) \<Longrightarrow> pb_wf pb \<Longrightarrow>
      \<exists>pb' rows. c_propose c v f pb = Some pb' \<and> pb_wf pb' \<and> pb_rows pb' = pb_rows pb @ rows
        \<and> propose_spec good v f (offers c v f) rows"
    and confirm: "fr_wf f \<Longrightarrow> v < 128 \<Longrightarrow> v \<notin> vs_elems (fr_bound f) \<Longrightarrow> cd_wf cs \<Longrightarrow>
      (\<forall>p \<in> set (cd_parents cs). unat p < fr_len f) \<Longrightarrow> fr_len f < 2 ^ 32 \<Longrightarrow>
      \<exists>cs' Q. c_confirm c v f cs = Some cs' \<and> cd_filters Q cs cs' \<and> confirm_spec good v f Q"
begin

lemma good_foreign: "v \<notin> vs_elems (c_variables c) \<Longrightarrow> good (\<sigma>(v \<mapsto> x)) = good \<sigma>"
  by (rule good_local) auto

lemma good_restrict: "good (\<sigma>(v \<mapsto> x)) \<Longrightarrow> \<sigma> v = None \<Longrightarrow> good \<sigma>"
  by (erule good_antimono) (simp add: map_le_def dom_def)

text \<open>Relevance of the batch can be read off any one row.\<close>

lemma estimate_row_uniform:
  assumes "fr_wf f" "i < fr_len f" "j < fr_len f" "fr_row f i = Some b" "fr_row f j = Some b'" "v \<notin> vs_elems (fr_bound f)"
  shows "c_estimate c v b = Some None \<longleftrightarrow> c_estimate c v b' = Some None"
proof -
  have "bd_wf b" "bd_wf b'" "bd_bound b = bd_bound b'" "bd_bound b = fr_bound f"
    using assms fr_row_sel by (auto simp: fr_wf_def dest: fr_row_sel)
  then show ?thesis using estimate_uniform assms(6) by metis
qed

end

text \<open>The fully-bound exactness law that \<open>Query::new\<close> and \<open>UnionConstraint\<close> rely on, for every binding.\<close>

locale exact = lawful +
  assumes satisfied_exact: "bd_wf b \<Longrightarrow> c_satisfied c b = Some True \<Longrightarrow> good (bd_map b)"

text \<open>A constraint that can propose every one of its unbound variables, with estimates up to \<open>bound\<close>.\<close>

locale proposing = lawful +
  fixes bound :: nat
  assumes estimate_some: "bd_wf b \<Longrightarrow> v \<in> vs_elems (c_variables c) \<Longrightarrow> v \<notin> vs_elems (bd_bound b) \<Longrightarrow>
      \<exists>e. c_estimate c v b = Some (Some e) \<and> e \<le> bound"
    and bound_less: "bound < usize_max"
begin

lemma offers_all:
  assumes "fr_wf f" "p < fr_len f" "v \<in> vs_elems (c_variables c)" "v \<notin> vs_elems (fr_bound f)"
  shows "offers c v f p"
proof -
  obtain b where b: "fr_row f p = Some b" "bd_wf b" "bd_bound b = fr_bound f" using fr_rowE [OF assms(1,2)] by metis
  then show ?thesis using estimate_some [of b v] assms bound_less unfolding offers_def by (metis le_less_trans)
qed

end

section \<open>Constraints on one variable\<close>

text \<open>The proposer loop: what each row appends is appended in row order.\<close>

lemma for_rows_rows:
  assumes "pb_wf b"
    and step: "\<And>row b. row < fr_len f \<Longrightarrow> pb_wf b \<Longrightarrow> \<exists>b'. step row b = Some b' \<and> pb_wf b'
      \<and> pb_rows b' = pb_rows b @ map (\<lambda>x. (word_of_nat row, x, True)) (vals row)"
  shows "\<exists>b'. for_rows f step b = Some b' \<and> pb_wf b' \<and> pb_rows b' = pb_rows b @
    concat (map (\<lambda>row. map (\<lambda>x. (word_of_nat row, x, True)) (vals row)) [0..<fr_len f])"
proof -
  let ?R = "\<lambda>n. concat (map (\<lambda>row. map (\<lambda>x. (word_of_nat row, x, True)) (vals row)) [0..<n])"
  have "\<exists>b'. for_each (\<lambda>b row. step row b) b [0..<fr_len f] = Some b' \<and>
      (pb_wf b' \<and> pb_rows b' = pb_rows b @ ?R (length [0..<fr_len f]))"
  proof (rule for_each_invariant [where I = "\<lambda>n b'. pb_wf b' \<and> pb_rows b' = pb_rows b @ ?R n"], goal_cases)
    case (2 k b1)
    then show ?case using step [of k b1] by auto
  qed (simp add: assms(1))
  then show ?thesis unfolding for_rows_def by simp
qed

lemma tag_of_row: "p < n \<Longrightarrow> n < 2 ^ 32 \<Longrightarrow> unat (word_of_nat p :: u32) = p"
  by (rule unat_u32_of_nat) simp

lemma distinct_tagged_rows:
  assumes "n < 2 ^ 32" "\<And>row. row < n \<Longrightarrow> distinct (vals row)"
  shows "distinct (concat (map (\<lambda>row. map (\<lambda>x. (word_of_nat row :: u32, x)) (vals row)) [0..<n]))"
  using assms
proof (induction n)
  case (Suc n)
  have "(word_of_nat n :: u32) \<noteq> word_of_nat row" if "row < n" for row
    using that Suc.prems(1) tag_of_row [of row "Suc n"] tag_of_row [of n "Suc n"] by (metis lessI less_SucI less_irrefl)
  moreover have "distinct (map (\<lambda>x. (word_of_nat n :: u32, x)) (vals n))"
    using Suc.prems(2) [of n] by (simp add: distinct_map inj_on_def)
  ultimately show ?case using Suc by fastforce
qed simp

text \<open>
  What a proposer that appends \<open>vals row\<close> for each row owes: the values offered for a row are good for
  it, all good values are offered where it must be exhaustive, and none is offered twice.
\<close>

lemma propose_spec_rows:
  assumes "fr_len f < 2 ^ 32"
    and "\<And>row x. row < fr_len f \<Longrightarrow> x \<in> set (vals row) \<Longrightarrow> good (fr_assign f row) \<Longrightarrow> good ((fr_assign f row)(v \<mapsto> x))"
    and "\<And>row x. row < fr_len f \<Longrightarrow> complete row \<Longrightarrow> good ((fr_assign f row)(v \<mapsto> x)) \<Longrightarrow> x \<in> set (vals row)"
    and "\<And>row. row < fr_len f \<Longrightarrow> distinct (vals row)"
  shows "propose_spec good v f complete
    (concat (map (\<lambda>row. map (\<lambda>x. (word_of_nat row, x, True)) (vals row)) [0..<fr_len f]))"
proof -
  let ?R = "concat (map (\<lambda>row. map (\<lambda>x. (word_of_nat row :: u32, x, True)) (vals row)) [0..<fr_len f])"
  have u: "unat (word_of_nat row :: u32) = row" if "row < fr_len f" for row
    using that assms(1) by (rule tag_of_row)
  have live: "filter row_live ?R = ?R" by (rule filter_True) auto
  have "map (\<lambda>r. (row_tag r, row_value r)) ?R =
      concat (map (\<lambda>row. map (\<lambda>x. (word_of_nat row, x)) (vals row)) [0..<fr_len f])"
    by (simp add: map_concat comp_def)
  then have "distinct (map (\<lambda>r. (row_tag r, row_value r)) (filter row_live ?R))"
    unfolding live using distinct_tagged_rows [OF assms(1,4)] by simp
  then show ?thesis unfolding propose_spec_def using assms(2,3) u by fastforce
qed

end
