(* ===== verification/Query_Engine.thy ===== *)
theory Query_Engine
  imports Constraint
begin

text \<open>
  \<open>query.rs\<close>, the search: \<open>Query\<close> keeps a stack of frontiers (\<open>Depth\<close>), each partitioned by the variable
  its rows prefer (\<open>DepthPlan\<close>), and a stack of levels whose proposal buffers are drawn in chunks. The
  methods \<open>plan\<close>, \<open>next_group\<close>, \<open>next_chunk\<close> and the emission branch of \<open>try_next_where\<close> are the steps of
  the state machine \<open>Search\<close>.

  The constraint and the projection are parameters of the steps. The scratch vectors \<open>choice\<close>, \<open>drawn\<close>
  and \<open>parents\<close>, which every step overwrites before it reads them, are local. \<open>q_unique\<close> is what
  \<open>Arc::get_mut\<close> answers for the frontier matrices: \<open>True\<close> for a query that shares them with no rayon
  sibling; the theorems hold for either answer. The counters are 64-bit words that wrap.
\<close>

section \<open>State\<close>

type_synonym u64 = "64 word"

definition default_frontier_width :: nat where
  "default_frontier_width = 16384"

definition initial_frontier_width :: nat where
  "initial_frontier_width = 1"

definition frontier_ramp_base :: nat where
  "frontier_ramp_base = 8"

datatype search = Plan | NextGroup | NextChunk | Emit | Done

record level =
  lvl_variable :: nat
  lvl_width :: nat
  lvl_proposed :: nat

record split_plan =
  order_override :: "u32 list"
  plan_groups :: "(nat \<times> nat) list"

datatype depth_plan = Unplanned | Universal nat | Split split_plan

record depth =
  dp_block :: "u32 list"
  dp_rows :: nat
  dp_estimates :: "nat list"
  dp_plan :: depth_plan
  dp_group :: nat
  dp_group_limit :: nat
  dp_emit :: nat

definition dp_default :: depth where
  "dp_default = \<lparr>dp_block = [], dp_rows = 0, dp_estimates = [], dp_plan = Unplanned, dp_group = 0,
     dp_group_limit = 0, dp_emit = 0\<rparr>"

record frontier_stats =
  st_expansions :: u64
  st_rows :: u64
  st_variable_groups :: u64
  st_proposals :: u64
  st_peak_region :: u64
  st_widest :: u64
  st_inplace_descents :: u64
  st_copied_descents :: u64

definition stats_default :: frontier_stats where
  "stats_default = \<lparr>st_expansions = 0, st_rows = 0, st_variable_groups = 0, st_proposals = 0,
     st_peak_region = 0, st_widest = 0, st_inplace_descents = 0, st_copied_descents = 0\<rparr>"

record query =
  q_mode :: search
  q_bindings :: binding_store
  q_influences :: "variable_set list"
  q_unbound :: variable_set
  q_slots :: nat
  q_width :: nat
  q_stack :: "level list"
  q_depths :: "depth list"
  q_depth :: nat
  q_stats :: frontier_stats
  q_unique :: bool

section \<open>Plans\<close>

definition plan_selection :: "depth_plan \<Rightarrow> nat \<Rightarrow> row_selection option" where
  "plan_selection p rows = (case p of
     Split s \<Rightarrow> if order_override s \<noteq> [] then Some (rs_explicit (order_override s)) else rs_identity rows
   | _ \<Rightarrow> rs_identity rows)"

definition plan_group_count :: "depth_plan \<Rightarrow> nat" where
  "plan_group_count p = (case p of Unplanned \<Rightarrow> 0 | Universal _ \<Rightarrow> 1 | Split s \<Rightarrow> length (plan_groups s))"

definition plan_group :: "depth_plan \<Rightarrow> nat \<Rightarrow> nat \<Rightarrow> (nat \<times> nat \<times> nat) option" where
  "plan_group p g rows = (case p of
     Unplanned \<Rightarrow> None
   | Universal v \<Rightarrow> do { assert_that (g = 0); Some (v, 0, rows) }
   | Split s \<Rightarrow> do {
       start \<leftarrow> (if g = 0 then Some 0 else do { (_, e) \<leftarrow> idx (plan_groups s) (g - 1); Some e });
       (v, e) \<leftarrow> idx (plan_groups s) g;
       Some (v, start, e)
     })"

definition dp_selection :: "depth \<Rightarrow> row_selection option" where
  "dp_selection d = plan_selection (dp_plan d) (dp_rows d)"

definition dp_group_range :: "depth \<Rightarrow> nat \<Rightarrow> (nat \<times> nat \<times> nat) option" where
  "dp_group_range d g = plan_group (dp_plan d) g (dp_rows d)"

section \<open>Construction\<close>

definition query_new :: "constraint \<Rightarrow> query option" where
  "query_new c = do {
     let variables = c_variables c;
     let influences = map (\<lambda>v. if vs_is_set variables v then c_influence c v else vs_new_empty) [0..<128];
     let bindings = bs_new;
     let slots = (case vs_find_last_set variables of Some v \<Rightarrow> v + 1 | None \<Rightarrow> 0);
     estimates \<leftarrow> map_panic (\<lambda>v. if vs_is_set variables v
        then do { e \<leftarrow> c_estimate c v (bs_view bindings); e } else Some usize_max) [0..<slots];
     satisfied \<leftarrow> c_satisfied c (bs_view bindings);
     let root = \<lparr>dp_block = replicate slots 0, dp_rows = 1, dp_estimates = estimates, dp_plan = Unplanned,
                  dp_group = 0, dp_group_limit = 0, dp_emit = 0\<rparr>;
     Some \<lparr>q_mode = (if satisfied then Plan else Done), q_bindings = bindings, q_influences = influences,
            q_unbound = variables, q_slots = slots, q_width = default_frontier_width, q_stack = [],
            q_depths = [root], q_depth = 0, q_stats = stats_default, q_unique = True\<rparr>
   }"

definition with_frontier_width :: "query \<Rightarrow> nat \<Rightarrow> query option" where
  "with_frontier_width q width = do { assert_that (width > 0); Some (q\<lparr>q_width := width\<rparr>) }"

definition query_frontier :: "query \<Rightarrow> frontier option" where
  "query_frontier q = do {
     d \<leftarrow> idx (q_depths q) (q_depth q);
     select \<leftarrow> dp_selection d;
     Some (bs_batch (q_bindings q) (dp_block d) select (q_slots q))
   }"

section \<open>Planning\<close>

text \<open>\<open>checked_ilog2().map(|m| m + 1).unwrap_or(0)\<close>: the number of binary digits.\<close>

fun bit_length :: "nat \<Rightarrow> nat" where
  "bit_length n = (if n = 0 then 0 else Suc (bit_length (n div 2)))"

declare bit_length.simps [simp del]

text \<open>\<open>max_by_key\<close> with the key (\<open>Reverse(magnitude)\<close>, influence count) keeps the last maximum.\<close>

definition key_le :: "nat \<times> nat \<Rightarrow> nat \<times> nat \<Rightarrow> bool" where
  "key_le a b \<longleftrightarrow> fst b < fst a \<or> fst b = fst a \<and> snd a \<le> snd b"

fun max_by_key :: "('a \<times> nat \<times> nat) list \<Rightarrow> 'a option" where
  "max_by_key [] = None"
| "max_by_key (x # xs) = Some (fst (foldl (\<lambda>best y. if key_le (snd best) (snd y) then y else best) x xs))"

definition preferred :: "variable_set list \<Rightarrow> nat list \<Rightarrow> nat \<Rightarrow> variable_set \<Rightarrow> nat \<Rightarrow> nat option" where
  "preferred influences estimates slots unbound row = do {
     row_estimates \<leftarrow> slice estimates (row * slots) ((row + 1) * slots);
     keyed \<leftarrow> map_panic (\<lambda>v. do {
        e \<leftarrow> idx row_estimates v;
        inf \<leftarrow> idx influences v;
        Some (v, bit_length e, vs_count inf)
      }) (vs_into_iter unbound);
     max_by_key keyed
   }"

fun find_disagreement :: "(nat \<Rightarrow> nat option) \<Rightarrow> nat \<Rightarrow> nat list \<Rightarrow> (nat \<times> nat) option option" where
  "find_disagreement pref first [] = Some None"
| "find_disagreement pref first (row # rows) = do {
     v \<leftarrow> pref row;
     if v \<noteq> first then Some (Some (row, v)) else find_disagreement pref first rows
   }"

text \<open>The counting sort of the rows by their choice.\<close>

definition count_choices :: "nat list \<Rightarrow> nat list option" where
  "count_choices choice =
     for_each (\<lambda>counts v. do { n \<leftarrow> idx counts v; idx_update counts v (n + 1) }) (replicate 128 0) choice"

definition group_starts :: "nat list \<Rightarrow> nat \<Rightarrow> (nat list \<times> (nat \<times> nat) list \<times> nat) option" where
  "group_starts counts slots =
     for_each (\<lambda>(starts, groups, offset) v. do {
        starts' \<leftarrow> idx_update starts v offset;
        n \<leftarrow> idx counts v;
        Some (if n \<noteq> 0 then (starts', groups @ [(v, offset + n)], offset + n) else (starts', groups, offset))
      }) (replicate 128 0, [], 0) [0..<slots]"

definition scatter_rows :: "nat list \<Rightarrow> nat list \<Rightarrow> u32 list option" where
  "scatter_rows choice starts = do {
     (order, _) \<leftarrow> for_each (\<lambda>(order, starts) (row, v). do {
        s \<leftarrow> idx starts v;
        r \<leftarrow> u32_try_from row;
        order' \<leftarrow> idx_update order s r;
        starts' \<leftarrow> idx_update starts v (s + 1);
        Some (order', starts')
      }) (replicate (length choice) 0, starts) (enumerate 0 choice);
     Some order
   }"

definition split_by_choice :: "nat list \<Rightarrow> nat \<Rightarrow> split_plan option" where
  "split_by_choice choice slots = do {
     counts \<leftarrow> count_choices choice;
     (starts, groups, _) \<leftarrow> group_starts counts slots;
     order \<leftarrow> (if sorted choice then Some [] else scatter_rows choice starts);
     Some \<lparr>order_override = order, plan_groups = groups\<rparr>
   }"

definition depth_plan_of :: "(nat \<Rightarrow> nat option) \<Rightarrow> nat \<Rightarrow> nat \<Rightarrow> depth_plan option" where
  "depth_plan_of pref rows slots = do {
     first \<leftarrow> pref 0;
     disagreement \<leftarrow> find_disagreement pref first [1..<rows];
     case disagreement of None \<Rightarrow> Some (Universal first)
     | Some (row, v) \<Rightarrow> do {
         rest \<leftarrow> map_panic pref [row + 1..<rows];
         s \<leftarrow> split_by_choice (replicate row first @ [v] @ rest) slots;
         Some (Split s)
       }
   }"

definition query_plan :: "query \<Rightarrow> query option" where
  "query_plan q = do {
     d \<leftarrow> idx (q_depths q) (q_depth q);
     if vs_is_empty (q_unbound q) then
       Some (q\<lparr>q_depths := (q_depths q)[q_depth q := d\<lparr>dp_emit := 0\<rparr>], q_mode := Emit\<rparr>)
     else do {
       let rows = dp_rows d;
       assert_that (rows \<noteq> 0);
       u32_try_from (rows - 1);
       plan \<leftarrow> depth_plan_of (preferred (q_influences q) (dp_estimates d) (q_slots q) (q_unbound q)) rows (q_slots q);
       let limit = plan_group_count plan;
       let st = q_stats q;
       Some (q\<lparr>q_depths := (q_depths q)[q_depth q := d\<lparr>dp_plan := plan, dp_group := 0, dp_group_limit := limit\<rparr>],
               q_stats := st\<lparr>st_expansions := st_expansions st + 1, st_rows := st_rows st + word_of_nat rows,
                            st_widest := max (st_widest st) (word_of_nat rows),
                            st_variable_groups := st_variable_groups st + word_of_nat limit\<rparr>,
               q_mode := NextGroup\<rparr>)
     }
   }"

section \<open>Expanding a group\<close>

definition retire_frontier :: "query \<Rightarrow> query" where
  "retire_frontier q = (if q_depth q = 0 then q\<lparr>q_mode := Done\<rparr>
     else q\<lparr>q_depth := q_depth q - 1, q_mode := NextChunk\<rparr>)"

definition query_next_group :: "constraint \<Rightarrow> query \<Rightarrow> query option" where
  "query_next_group c q = do {
     d \<leftarrow> idx (q_depths q) (q_depth q);
     if dp_group d \<ge> dp_group_limit d then Some (retire_frontier q)
     else do {
       (v, start, e) \<leftarrow> dp_group_range d (dp_group d);
       select \<leftarrow> dp_selection d;
       selection \<leftarrow> rs_slice select start e;
       (bindings, proposed) \<leftarrow> bs_refill (q_bindings q) v (dp_block d) selection (q_slots q) (c_propose c v);
       assert_that (length (q_stack q) < 128);
       let st = q_stats q;
       Some (q\<lparr>q_depths := (q_depths q)[q_depth q := d\<lparr>dp_group := dp_group d + 1\<rparr>],
               q_unbound := vs_unset (q_unbound q) v,
               q_bindings := bindings,
               q_stack := q_stack q @ [\<lparr>lvl_variable = v, lvl_width = min initial_frontier_width (q_width q),
                                         lvl_proposed = proposed\<rparr>],
               q_stats := st\<lparr>st_proposals := st_proposals st + word_of_nat proposed,
                            st_peak_region := max (st_peak_region st) (word_of_nat proposed)\<rparr>,
               q_mode := NextChunk\<rparr>)
     }
   }"

section \<open>Descending\<close>

text \<open>\<open>saturating_mul\<close>.\<close>

definition saturating_mul :: "nat \<Rightarrow> nat \<Rightarrow> nat" where
  "saturating_mul a b = min (a * b) usize_max"

definition next_width :: "nat \<Rightarrow> nat \<Rightarrow> nat \<Rightarrow> nat \<Rightarrow> nat" where
  "next_width width proposed consumed ceiling =
     (let nxt = min (saturating_mul width frontier_ramp_base) ceiling;
          remaining = proposed - consumed
      in if remaining < saturating_mul nxt 2 then min (max remaining nxt) ceiling else nxt)"

text \<open>The rows of a deferred draw, written into a fresh block.\<close>

definition write_rows :: "u32 list \<Rightarrow> nat \<Rightarrow> nat \<Rightarrow> u32 list \<Rightarrow> u32 list \<Rightarrow> u32 list option" where
  "write_rows source slots v drawn parents =
     for_each (\<lambda>block (entry, parent). do {
        row \<leftarrow> slice source (unat parent * slots) ((unat parent + 1) * slots);
        let block1 = block @ row;
        idx_update block1 (length block1 - slots + v) entry
      }) [] (zip drawn parents)"

definition write_inplace :: "u32 list \<Rightarrow> nat \<Rightarrow> nat \<Rightarrow> u32 list \<Rightarrow> u32 list option" where
  "write_inplace block slots v drawn =
     for_each (\<lambda>block (row, entry). idx_update block (row * slots + v) entry) block (enumerate 0 drawn)"

definition inherit_estimates :: "nat list \<Rightarrow> nat \<Rightarrow> u32 list \<Rightarrow> nat list option" where
  "inherit_estimates source slots parents =
     for_each (\<lambda>es parent. do {
        row \<leftarrow> slice source (unat parent * slots) ((unat parent + 1) * slots);
        Some (es @ row)
      }) [] parents"

text \<open>The refresh of the estimates that binding the variable may have changed.\<close>

definition refresh_row ::
  "constraint \<Rightarrow> frontier \<Rightarrow> nat \<Rightarrow> variable_set \<Rightarrow> nat list \<Rightarrow> nat \<Rightarrow> nat list option" where
  "refresh_row c batch slots stale estimates row = do {
     bd \<leftarrow> fr_row batch row;
     for_each (\<lambda>es v. do {
        r \<leftarrow> c_estimate c v bd;
        e \<leftarrow> r;
        idx_update es (row * slots + v) e
      }) estimates (vs_into_iter stale)
   }"

definition refresh_estimates ::
  "constraint \<Rightarrow> binding_store \<Rightarrow> u32 list \<Rightarrow> nat \<Rightarrow> nat \<Rightarrow> variable_set \<Rightarrow> nat list \<Rightarrow> nat list option" where
  "refresh_estimates c bindings block rows slots stale estimates =
     (if vs_is_empty stale then Some estimates
      else do {
        select \<leftarrow> rs_identity rows;
        for_each (refresh_row c (bs_batch bindings block select slots) slots stale) estimates [0..<rows]
      })"

text \<open>
  Drawing the next chunk: the result is the store, the row count, the drawn entries and the parents;
  on the fused path the child's rows are written at once and there is no list of entries.
\<close>

definition draw_chunk ::
  "query \<Rightarrow> depth \<Rightarrow> level \<Rightarrow> row_selection \<Rightarrow> bool \<Rightarrow>
   (binding_store \<times> nat \<times> u32 list \<times> u32 list \<times> u32 list) option" where
  "draw_chunk q source level selection speculate =
     (if speculate then do {
        (bindings, drawn, parents) \<leftarrow> bs_draw (q_bindings q) (lvl_variable level) (lvl_width level) selection;
        Some (bindings, length drawn, drawn, parents, [])
      } else do {
        (bindings, block, parents, rows) \<leftarrow> bs_take_chunk (q_bindings q) (lvl_variable level) (lvl_width level)
          (dp_block source) selection (q_slots q);
        Some (bindings, rows, [], parents, block)
      })"

text \<open>The depth below the current one exists before it is written.\<close>

definition ensure_child :: "depth list \<Rightarrow> nat \<Rightarrow> depth list" where
  "ensure_child depths parent = (if length depths \<le> parent + 1 then depths @ [dp_default] else depths)"

text \<open>
  The descent with a drawn chunk: the child takes the parent's matrices in place, or gets rows and
  estimates of its own.
\<close>

definition descend ::
  "constraint \<Rightarrow> query \<Rightarrow> depth list \<Rightarrow> level list \<Rightarrow> binding_store \<Rightarrow> nat \<Rightarrow> nat \<Rightarrow> bool \<Rightarrow> nat \<Rightarrow>
   u32 list \<Rightarrow> u32 list \<Rightarrow> u32 list \<Rightarrow> query option" where
  "descend c q depths stack bindings variable source_rows speculate rows drawn parents block = do {
     let parent = q_depth q;
     let slots = q_slots q;
     source \<leftarrow> idx depths parent;
     child \<leftarrow> idx depths (parent + 1);
     spent \<leftarrow> (if speculate \<and> rows = source_rows \<and> (\<forall>(row, p) \<in> set (enumerate 0 parents). unat p = row)
                then bs_spent bindings variable else Some False);
     let inplace = spent \<and> q_unique q;
     block' \<leftarrow> (if inplace then write_inplace (dp_block source) slots variable drawn
                 else if speculate then write_rows (dp_block source) slots variable drawn parents
                 else Some block);
     estimates \<leftarrow> (if inplace then Some (dp_estimates source)
                    else inherit_estimates (dp_estimates source) slots parents);
     let source' = (if inplace then source\<lparr>dp_block := dp_block child, dp_estimates := dp_estimates child\<rparr> else source);
     influence \<leftarrow> idx (q_influences q) variable;
     let stale = vs_intersect influence (q_unbound q);
     estimates' \<leftarrow> refresh_estimates c bindings block' rows slots stale estimates;
     let child' = \<lparr>dp_block = block', dp_rows = rows, dp_estimates = estimates', dp_plan = Unplanned,
                    dp_group = 0, dp_group_limit = 0, dp_emit = 0\<rparr>;
     let st = q_stats q;
     Some (q\<lparr>q_depths := depths[parent := source', parent + 1 := child'],
             q_bindings := bindings,
             q_stack := stack,
             q_depth := parent + 1,
             q_stats := (if inplace then st\<lparr>st_inplace_descents := st_inplace_descents st + 1\<rparr>
                         else st\<lparr>st_copied_descents := st_copied_descents st + 1\<rparr>),
             q_mode := Plan\<rparr>)
   }"

definition query_next_chunk :: "constraint \<Rightarrow> query \<Rightarrow> query option" where
  "query_next_chunk c q = do {
     assert_that (q_stack q \<noteq> []);
     let level = last (q_stack q);
     let variable = lvl_variable level;
     let parent = q_depth q;
     source \<leftarrow> idx (q_depths q) parent;
     (_, start, e) \<leftarrow> dp_group_range source (dp_group source - 1);
     let depths = ensure_child (q_depths q) parent;
     let source_rows = e - start;
     let speculate = (lvl_proposed level = source_rows \<and> lvl_width level \<ge> source_rows
                      \<and> dp_group source \<ge> dp_group_limit source);
     select \<leftarrow> dp_selection source;
     selection \<leftarrow> rs_slice select start e;
     (bindings, rows, drawn, parents, block) \<leftarrow> draw_chunk q source level selection speculate;
     consumed \<leftarrow> bs_consumed bindings variable;
     let level' = level\<lparr>lvl_width := next_width (lvl_width level) (lvl_proposed level) consumed (q_width q)\<rparr>;
     let stack = butlast (q_stack q) @ [level'];
     if rows = 0 then do {
       child \<leftarrow> idx depths (parent + 1);
       Some (q\<lparr>q_depths := (if speculate then depths else depths[parent + 1 := child\<lparr>dp_block := block\<rparr>]),
               q_bindings := bs_unset bindings variable,
               q_stack := butlast stack,
               q_unbound := vs_set (q_unbound q) variable,
               q_mode := NextGroup\<rparr>)
     }
     else descend c q depths stack bindings variable source_rows speculate rows drawn parents block
   }"

section \<open>Iteration\<close>

text \<open>
  One turn of the loop of \<open>try_next_where\<close>: it continues, or returns an error, a row or the end. The
  predicate and the projection can panic.
\<close>

datatype ('r, 'e) turn = Continue | Return "'e + 'r option"

definition emit_turn ::
  "(binding \<Rightarrow> ('e + bool) option) \<Rightarrow> (binding \<Rightarrow> 'r option option) \<Rightarrow> query \<Rightarrow> (('r, 'e) turn \<times> query) option" where
  "emit_turn predicate postprocessing q = do {
     d \<leftarrow> idx (q_depths q) (q_depth q);
     f \<leftarrow> query_frontier q;
     if dp_emit d < fr_len f then do {
       bd \<leftarrow> fr_row f (dp_emit d);
       verdict \<leftarrow> predicate bd;
       case verdict of Inl e \<Rightarrow> Some (Return (Inl e), q)
       | Inr keep \<Rightarrow> do {
           result \<leftarrow> (if keep then postprocessing bd else Some None);
           let q' = q\<lparr>q_depths := (q_depths q)[q_depth q := d\<lparr>dp_emit := dp_emit d + 1\<rparr>]\<rparr>;
           Some (if result \<noteq> None then (Return (Inr result), q') else (Continue, q'))
         }
     } else Some (Continue, retire_frontier q)
   }"

definition query_turn ::
  "constraint \<Rightarrow> (binding \<Rightarrow> ('e + bool) option) \<Rightarrow> (binding \<Rightarrow> 'r option option) \<Rightarrow> query \<Rightarrow>
   (('r, 'e) turn \<times> query) option" where
  "query_turn c predicate postprocessing q = (case q_mode q of
     Plan \<Rightarrow> do { q' \<leftarrow> query_plan q; Some (Continue, q') }
   | NextGroup \<Rightarrow> do { q' \<leftarrow> query_next_group c q; Some (Continue, q') }
   | NextChunk \<Rightarrow> do { q' \<leftarrow> query_next_chunk c q; Some (Continue, q') }
   | Emit \<Rightarrow> emit_turn predicate postprocessing q
   | Done \<Rightarrow> Some (Return (Inr None), q))"

text \<open>\<open>fuel\<close> bounds the turns of the loop; \<open>None\<close> inside is fuel that ran out.\<close>

fun try_next_where ::
  "nat \<Rightarrow> constraint \<Rightarrow> (binding \<Rightarrow> ('e + bool) option) \<Rightarrow> (binding \<Rightarrow> 'r option option) \<Rightarrow> query \<Rightarrow>
   (('e + 'r option) option \<times> query) option" where
  "try_next_where 0 c predicate postprocessing q = Some (None, q)"
| "try_next_where (Suc n) c predicate postprocessing q = do {
     (t, q') \<leftarrow> query_turn c predicate postprocessing q;
     case t of Continue \<Rightarrow> try_next_where n c predicate postprocessing q'
     | Return r \<Rightarrow> Some (Some r, q')
   }"

text \<open>\<open>Iterator::next\<close>: the predicate accepts every row and cannot fail.\<close>

definition query_next ::
  "nat \<Rightarrow> constraint \<Rightarrow> (binding \<Rightarrow> 'r option option) \<Rightarrow> query \<Rightarrow> ('r option option \<times> query) option" where
  "query_next n c postprocessing q = do {
     (r, q') \<leftarrow> try_next_where n c (\<lambda>_. Some (Inr True :: unit + bool)) postprocessing q;
     case r of None \<Rightarrow> Some (None, q')
     | Some (Inr row) \<Rightarrow> Some (Some row, q')
     | Some (Inl _) \<Rightarrow> None
   }"

text \<open>
  A caller that collects the iterator: at most \<open>k\<close> calls of \<open>next\<close>, each with at most \<open>n\<close> turns. The
  inner option is \<open>None\<close> when the bounds did not suffice.
\<close>

fun query_collect ::
  "nat \<Rightarrow> nat \<Rightarrow> constraint \<Rightarrow> (binding \<Rightarrow> 'r option option) \<Rightarrow> query \<Rightarrow> 'r list option option" where
  "query_collect 0 n c postprocessing q = Some None"
| "query_collect (Suc k) n c postprocessing q = do {
     (r, q') \<leftarrow> query_next n c postprocessing q;
     case r of None \<Rightarrow> Some None
     | Some None \<Rightarrow> Some (Some [])
     | Some (Some row) \<Rightarrow> do {
         rest \<leftarrow> query_collect k n c postprocessing q';
         Some (map_option (\<lambda>rows. row # rows) rest)
       }
   }"

end
