(* ===== verification/Engine_Plan.thy ===== *)
theory Engine_Plan
  imports Query_Engine "HOL-Library.Multiset"
begin

text \<open>
  \<open>Query::plan\<close>: the counting sort that partitions a frontier by each row's preferred variable is the
  stable sort of the rows by their choice, its groups are the rows of one choice in row order, and
  the order is left implicit exactly when it is the identity.
\<close>

section \<open>Counting\<close>

lemma count_choices_eq:
  assumes "\<And>v. v \<in> set choice \<Longrightarrow> v < 128"
  shows "\<exists>counts. count_choices choice = Some counts \<and> length counts = 128
    \<and> (\<forall>v < 128. counts ! v = length (filter (\<lambda>w. w = v) choice))"
proof -
  define I where "I k counts \<longleftrightarrow> length counts = 128
    \<and> (\<forall>v < 128. counts ! v = length (filter (\<lambda>w. w = v) (take k choice)))" for k counts
  have "\<exists>counts. count_choices choice = Some counts \<and> I (length choice) counts"
    unfolding count_choices_def
  proof (rule for_each_invariant)
    show "I 0 (replicate 128 0)" by (simp add: I_def)
  next
    fix k counts assume k: "k < length choice" and I: "I k counts"
    have "choice ! k < 128" using assms k by simp
    then show "\<exists>s'. do { n \<leftarrow> idx counts (choice ! k); idx_update counts (choice ! k) (n + 1) } = Some s' \<and> I (Suc k) s'"
      using I k by (auto simp: I_def take_Suc_conv_app_nth nth_list_update)
  qed
  then show ?thesis by (simp add: I_def)
qed

text \<open>The offset of variable \<open>v\<close>'s group: the number of rows with a smaller choice.\<close>

definition rows_below :: "nat list \<Rightarrow> nat \<Rightarrow> nat" where
  "rows_below choice v = length (filter (\<lambda>w. w < v) choice)"

lemma rows_below_0 [simp]: "rows_below choice 0 = 0"
  by (simp add: rows_below_def)

lemma rows_below_Suc: "rows_below choice (Suc v) = rows_below choice v + length (filter (\<lambda>w. w = v) choice)"
  unfolding rows_below_def by (induction choice) auto

lemma rows_below_mono: "v \<le> w \<Longrightarrow> rows_below choice v \<le> rows_below choice w"
  by (induction w) (auto simp: rows_below_Suc le_Suc_eq)

lemma rows_below_all: "(\<And>w. w \<in> set choice \<Longrightarrow> w < v) \<Longrightarrow> rows_below choice v = length choice"
  unfolding rows_below_def by (metis filter_True)

lemma rows_below_le: "rows_below choice v \<le> length choice"
  by (simp add: rows_below_def)

definition choice_groups :: "nat list \<Rightarrow> nat \<Rightarrow> (nat \<times> nat) list" where
  "choice_groups choice n = map (\<lambda>v. (v, rows_below choice (Suc v))) (filter (\<lambda>v. v \<in> set choice) [0..<n])"

lemma group_starts_eq:
  assumes "length counts = 128" "\<forall>v < 128. counts ! v = length (filter (\<lambda>w. w = v) choice)" "slots \<le> 128"
  shows "\<exists>starts. group_starts counts slots = Some (starts, choice_groups choice slots, rows_below choice slots)
    \<and> length starts = 128 \<and> (\<forall>v < slots. starts ! v = rows_below choice v)"
proof -
  define I where "I k st \<longleftrightarrow> (case st of (starts, groups, offset) \<Rightarrow> length starts = 128
    \<and> groups = choice_groups choice k \<and> offset = rows_below choice k \<and> (\<forall>v < k. starts ! v = rows_below choice v))" for k st
  have "\<exists>st. group_starts counts slots = Some st \<and> I (length [0..<slots]) st"
    unfolding group_starts_def
  proof (rule for_each_invariant)
    show "I 0 (replicate 128 0, [], 0)" by (simp add: I_def choice_groups_def)
  next
    fix k st assume "k < length [0..<slots]" and Ik: "I k st"
    then have k: "k < 128" "[0..<slots] ! k = k" using assms(3) by auto
    obtain starts where st: "st = (starts, choice_groups choice k, rows_below choice k)" "length starts = 128"
      "\<forall>v < k. starts ! v = rows_below choice v" using Ik by (auto simp: I_def)
    have n: "counts ! k = length (filter (\<lambda>w. w = k) choice)" using assms(2) k by simp
    have "length (filter (\<lambda>w. w = k) choice) = 0 \<longleftrightarrow> k \<notin> set choice" by (auto simp: filter_empty_conv)
    then show "\<exists>st'. (case st of (starts, groups, offset) \<Rightarrow> \<lambda>v. do {
        starts' \<leftarrow> idx_update starts v offset;
        n \<leftarrow> idx counts v;
        Some (if n \<noteq> 0 then (starts', groups @ [(v, offset + n)], offset + n) else (starts', groups, offset))
      }) ([0..<slots] ! k) = Some st' \<and> I (Suc k) st'"
      using st k n assms(1)
      by (auto simp: I_def choice_groups_def rows_below_Suc nth_list_update less_Suc_eq)
  qed
  then show ?thesis by (auto simp: I_def)
qed

section \<open>Scattering\<close>

definition rows_choosing :: "nat list \<Rightarrow> nat \<Rightarrow> nat \<Rightarrow> nat list" where
  "rows_choosing choice k v = filter (\<lambda>row. choice ! row = v) [0..<k]"

lemma rows_choosing_Suc:
  "rows_choosing choice (Suc k) v = rows_choosing choice k v @ (if choice ! k = v then [k] else [])"
  by (simp add: rows_choosing_def)

lemma length_rows_choosing:
  "k \<le> length choice \<Longrightarrow> length (rows_choosing choice k v) = length (filter (\<lambda>w. w = v) (take k choice))"
  by (induction k) (auto simp: rows_choosing_def take_Suc_conv_app_nth)

lemma rows_choosing_less:
  assumes "k < length choice"
  shows "rows_below choice (choice ! k) + length (rows_choosing choice k (choice ! k)) < rows_below choice (Suc (choice ! k))"
proof -
  have "filter (\<lambda>w. w = choice ! k) choice =
      filter (\<lambda>w. w = choice ! k) (take k choice @ choice ! k # drop (Suc k) choice)"
    using assms by (simp add: id_take_nth_drop [symmetric])
  then have "length (filter (\<lambda>w. w = choice ! k) choice) =
      length (filter (\<lambda>w. w = choice ! k) (take k choice)) + Suc (length (filter (\<lambda>w. w = choice ! k) (drop (Suc k) choice)))"
    by simp
  then show ?thesis using assms by (simp add: rows_below_Suc length_rows_choosing)
qed

lemma rows_choosing_le:
  "k \<le> length choice \<Longrightarrow> rows_below choice v + length (rows_choosing choice k v) \<le> rows_below choice (Suc v)"
proof (induction k)
  case (Suc k)
  then show ?case using rows_choosing_less [of k choice] by (auto simp: rows_choosing_Suc)
qed (simp add: rows_choosing_def rows_below_mono)

lemma take_drop_update_in:
  "s + n < length xs \<Longrightarrow> take (Suc n) (drop s (xs[s + n := x])) = take n (drop s xs) @ [x]"
  by (simp add: take_Suc_conv_app_nth drop_update_swap)

lemma take_drop_update_out:
  "p < s \<or> s + n \<le> p \<Longrightarrow> take n (drop s (xs[p := x])) = take n (drop s xs)"
  by (auto simp: drop_update_swap drop_update_cancel take_update_cancel)

lemma scatter_rows_segments:
  assumes "length starts = 128" "\<forall>v < slots. starts ! v = rows_below choice v" "slots \<le> 128"
    "\<And>v. v \<in> set choice \<Longrightarrow> v < slots" "length choice \<le> 2 ^ 32"
  shows "\<exists>order. scatter_rows choice starts = Some order \<and> length order = length choice
    \<and> (\<forall>v < slots. take (length (rows_choosing choice (length choice) v)) (drop (rows_below choice v) order)
        = map word_of_nat (rows_choosing choice (length choice) v))"
proof -
  let ?S = "rows_below choice" and ?R = "rows_choosing choice"
  define I where "I k st \<longleftrightarrow> (case st of (order, starts') \<Rightarrow> length order = length choice \<and> length starts' = 128
    \<and> (\<forall>v < slots. starts' ! v = ?S v + length (?R k v))
    \<and> (\<forall>v < slots. take (length (?R k v)) (drop (?S v) order) = map word_of_nat (?R k v)))"
    for k and st :: "u32 list \<times> nat list"
  have "\<exists>st. for_each (\<lambda>(order, starts) (row, v). do {
        s \<leftarrow> idx starts v;
        r \<leftarrow> u32_try_from row;
        order' \<leftarrow> idx_update order s r;
        starts' \<leftarrow> idx_update starts v (s + 1);
        Some (order', starts')
      }) (replicate (length choice) 0, starts) (enumerate 0 choice) = Some st \<and> I (length (enumerate 0 choice)) st"
  proof (rule for_each_invariant)
    show "I 0 (replicate (length choice) 0, starts)" using assms by (simp add: I_def rows_choosing_def)
  next
    fix k st assume "k < length (enumerate 0 choice)" and Ik: "I k st"
    then have k: "k < length choice" "enumerate 0 choice ! k = (k, choice ! k)" by (simp_all add: nth_enumerate_eq)
    obtain order starts' where st: "st = (order, starts')" by force
    note I = Ik [unfolded I_def st prod.case]
    define v where "v = choice ! k"
    have v: "v < slots" using assms(4) k by (simp add: v_def)
    define p where "p = ?S v + length (?R k v)"
    have p: "p < ?S (Suc v)" using rows_choosing_less [OF k(1)] by (simp add: p_def v_def)
    then have pl: "p < length order" using rows_below_le [of choice "Suc v"] I by linarith
    have "?S u + length (?R k u) \<le> p \<or> p < ?S u" if "u \<noteq> v" for u
    proof (cases "u < v")
      case True
      then have "?S (Suc u) \<le> ?S v" by (intro rows_below_mono) simp
      then show ?thesis using rows_choosing_le [of k choice u] k(1) by (simp add: p_def)
    next
      case False
      then have "?S (Suc v) \<le> ?S u" using that by (intro rows_below_mono) simp
      then show ?thesis using p by simp
    qed
    then have other: "take (length (?R k u)) (drop (?S u) (order[p := word_of_nat k])) = take (length (?R k u)) (drop (?S u) order)"
      if "u \<noteq> v" for u using that by (intro take_drop_update_out) blast
    have same: "take (Suc (length (?R k v))) (drop (?S v) (order[p := word_of_nat k])) =
        take (length (?R k v)) (drop (?S v) order) @ [word_of_nat k]"
      unfolding p_def using pl by (intro take_drop_update_in) (simp add: p_def)
    have "I (Suc k) (order[p := word_of_nat k], starts'[v := p + 1])"
      unfolding I_def prod.case rows_choosing_Suc v_def [symmetric]
      using I v other same assms(3) by (auto simp: nth_list_update p_def)
    moreover have "idx starts' v = Some p" "u32_try_from k = Some (word_of_nat k)"
      using I v assms(3,5) k(1) by (auto simp: p_def u32_try_from_def)
    ultimately show "\<exists>st'. (case st of (order, starts) \<Rightarrow> \<lambda>(row, v). do {
        s \<leftarrow> idx starts v;
        r \<leftarrow> u32_try_from row;
        order' \<leftarrow> idx_update order s r;
        starts' \<leftarrow> idx_update starts v (s + 1);
        Some (order', starts')
      }) (enumerate 0 choice ! k) = Some st' \<and> I (Suc k) st'"
      using pl v I assms(3) unfolding k(2) st by (auto simp: v_def [symmetric])
  qed
  then show ?thesis unfolding scatter_rows_def by (auto simp: I_def)
qed


section \<open>The plan's groups\<close>

lemma rows_below_sorted:
  "sorted choice \<Longrightarrow> r < length choice \<Longrightarrow> r < rows_below choice v \<longleftrightarrow> choice ! r < v"
proof (induction choice arbitrary: r)
  case (Cons w choice)
  show ?case
  proof (cases "w < v")
    case True
    then show ?thesis using Cons by (cases r) (auto simp: rows_below_def)
  next
    case False
    then have "\<forall>u \<in> set (w # choice). \<not> u < v" using Cons.prems(1) by force
    moreover from this have "rows_below (w # choice) v = 0" unfolding rows_below_def by (metis filter_False list.size(3))
    ultimately show ?thesis using nth_mem [OF Cons.prems(2)] by auto
  qed
qed simp

lemma rows_choosing_sorted:
  assumes "sorted choice"
  shows "rows_choosing choice (length choice) v = [rows_below choice v..<rows_below choice (Suc v)]"
proof -
  have iff: "r < length choice \<and> choice ! r = v \<longleftrightarrow> rows_below choice v \<le> r \<and> r < rows_below choice (Suc v)" for r
  proof (cases "r < length choice")
    case True
    then show ?thesis
      using rows_below_sorted [OF assms True, of v] rows_below_sorted [OF assms True, of "Suc v"] by linarith
  next
    case False
    then show ?thesis using rows_below_le [of choice "Suc v"] by linarith
  qed
  have "set (rows_choosing choice (length choice) v) = {r. r < length choice \<and> choice ! r = v}"
    by (auto simp: rows_choosing_def)
  also have "\<dots> = set [rows_below choice v..<rows_below choice (Suc v)]"
    unfolding iff by auto
  finally have eq: "set (rows_choosing choice (length choice) v) = set [rows_below choice v..<rows_below choice (Suc v)]" .
  have "sorted (rows_choosing choice (length choice) v)" "distinct (rows_choosing choice (length choice) v)"
    unfolding rows_choosing_def by (intro sorted_wrt_filter sorted_upt) simp
  then show ?thesis by (intro sorted_distinct_set_unique [OF _ _ _ _ eq] sorted_upt distinct_upt)
qed

lemma rows_below_cong:
  "(\<And>w. w \<in> set choice \<Longrightarrow> w < a \<longleftrightarrow> w < b) \<Longrightarrow> rows_below choice a = rows_below choice b"
  unfolding rows_below_def by (metis (mono_tags, lifting) filter_cong)

definition choice_variables :: "nat list \<Rightarrow> nat \<Rightarrow> nat list" where
  "choice_variables choice slots = filter (\<lambda>v. v \<in> set choice) [0..<slots]"

lemma choice_groups_variables:
  "choice_groups choice slots = map (\<lambda>v. (v, rows_below choice (Suc v))) (choice_variables choice slots)"
  by (simp add: choice_groups_def choice_variables_def)

lemma choice_variables_start:
  assumes "set choice \<subseteq> {..<slots}" "Suc g < length (choice_variables choice slots)"
  shows "rows_below choice (Suc (choice_variables choice slots ! g)) = rows_below choice (choice_variables choice slots ! Suc g)"
proof (rule rows_below_cong)
  let ?vs = "choice_variables choice slots"
  have s: "sorted_wrt (<) ?vs" unfolding choice_variables_def by (intro sorted_wrt_filter sorted_wrt_upt)
  fix w assume "w \<in> set choice"
  then have "w \<in> set ?vs" using assms(1) by (auto simp: choice_variables_def)
  then obtain k where k: "k < length ?vs" "w = ?vs ! k" by (auto simp: in_set_conv_nth)
  have "?vs ! i < ?vs ! j" if "i < j" "j < length ?vs" for i j using s that by (auto simp: sorted_wrt_iff_nth_less)
  then have lt: "?vs ! i < ?vs ! j \<longleftrightarrow> i < j" if "i < length ?vs" "j < length ?vs" for i j
    using that by (metis linorder_neqE_nat order_less_asym order_less_irrefl)
  have "w < Suc (?vs ! g) \<longleftrightarrow> \<not> ?vs ! g < ?vs ! k" using k by auto
  also have "\<dots> \<longleftrightarrow> k < Suc g" using lt [of g k] k assms(2) by auto
  finally show "w < Suc (?vs ! g) \<longleftrightarrow> w < ?vs ! Suc g" using lt [of k "Suc g"] k assms(2) by simp
qed

lemma choice_variables_first:
  assumes "set choice \<subseteq> {..<slots}" "choice \<noteq> []"
  shows "rows_below choice (choice_variables choice slots ! 0) = 0"
proof -
  let ?vs = "choice_variables choice slots"
  have s: "sorted ?vs" unfolding choice_variables_def by (intro sorted_wrt_filter sorted_upt)
  have "\<not> w < ?vs ! 0" if "w \<in> set choice" for w
  proof -
    have "w \<in> set ?vs" using that assms(1) by (auto simp: choice_variables_def)
    then obtain k where "k < length ?vs" "w = ?vs ! k" by (auto simp: in_set_conv_nth)
    then show ?thesis using sorted_nth_mono [OF s, of 0 k] by simp
  qed
  then show ?thesis unfolding rows_below_def by (metis filter_False list.size(3))
qed

text \<open>
  The group \<open>g\<close> of a plan, read the way \<open>next_group\<close> and \<open>next_chunk\<close> read it: its variable and the
  ordinals of its rows.
\<close>

definition plan_group_rows :: "depth_plan \<Rightarrow> nat \<Rightarrow> nat \<Rightarrow> (nat \<times> u32 list) option" where
  "plan_group_rows p g rows = do {
     (v, start, e) \<leftarrow> plan_group p g rows;
     select \<leftarrow> plan_selection p rows;
     selection \<leftarrow> rs_slice select start e;
     Some (v, rs_list selection)
   }"

text \<open>The plan is the partition of the rows by \<open>choice\<close>: ascending variables, each group's rows in row order.\<close>

definition partitions :: "nat list \<Rightarrow> nat \<Rightarrow> depth_plan \<Rightarrow> bool" where
  "partitions choice slots p \<longleftrightarrow>
     (let vs = choice_variables choice slots in
      plan_group_count p = length vs \<and>
      (\<forall>g < length vs. plan_group_rows p g (length choice) =
         Some (vs ! g, map word_of_nat (rows_choosing choice (length choice) (vs ! g)))))"

lemma length_rows_choosing_all:
  "length (rows_choosing choice (length choice) v) = rows_below choice (Suc v) - rows_below choice v"
  using length_rows_choosing [of "length choice" choice v] rows_below_Suc [of choice v] by simp

lemma split_selection:
  assumes "choice \<noteq> []" "slots \<le> 128" "set choice \<subseteq> {..<slots}" "length choice \<le> 2 ^ 32"
  shows "\<exists>s select. split_by_choice choice slots = Some s \<and> plan_groups s = choice_groups choice slots
    \<and> plan_selection (Split s) (length choice) = Some select \<and> rs_wf select \<and> rs_len select = length choice
    \<and> (\<forall>v < slots. take (length (rows_choosing choice (length choice) v)) (drop (rows_below choice v) (rs_list select))
        = map word_of_nat (rows_choosing choice (length choice) v))"
proof -
  obtain counts where counts: "count_choices choice = Some counts" "length counts = 128"
    "\<forall>v < 128. counts ! v = length (filter (\<lambda>w. w = v) choice)"
    using count_choices_eq [of choice] assms(2,3) by (metis lessThan_iff order_less_le_trans subsetD)
  obtain starts where starts: "group_starts counts slots = Some (starts, choice_groups choice slots, rows_below choice slots)"
    "length starts = 128" "\<forall>v < slots. starts ! v = rows_below choice v"
    using group_starts_eq [OF counts(2,3) assms(2)] by blast
  show ?thesis
  proof (cases "sorted choice")
    case True
    define s where "s = \<lparr>order_override = [], plan_groups = choice_groups choice slots\<rparr>"
    have "take (length (rows_choosing choice (length choice) v)) (drop (rows_below choice v) (rs_list (Consecutive 0 (length choice)))) =
        map word_of_nat (rows_choosing choice (length choice) v)" for v
      unfolding length_rows_choosing_all rows_choosing_sorted [OF True]
      using rows_below_le [of choice "Suc v"] rows_below_mono [of v "Suc v" choice]
      by (simp add: take_map drop_map drop_upt take_upt)
    moreover have "split_by_choice choice slots = Some s" using counts(1) starts(1) True by (simp add: split_by_choice_def s_def)
    ultimately show ?thesis using rs_identity_eq [OF assms(4)] assms(4)
      by (intro exI [of _ s] exI [of _ "Consecutive 0 (length choice)"]) (simp add: s_def plan_selection_def del: rs_list.simps)
  next
    case False
    obtain order where order: "scatter_rows choice starts = Some order" "length order = length choice"
      "\<forall>v < slots. take (length (rows_choosing choice (length choice) v)) (drop (rows_below choice v) order)
        = map word_of_nat (rows_choosing choice (length choice) v)"
      using scatter_rows_segments [OF starts(2,3) assms(2) _ assms(4)] assms(3) by blast
    define s where "s = \<lparr>order_override = order, plan_groups = choice_groups choice slots\<rparr>"
    have "order \<noteq> []" using order(2) assms(1) by auto
    moreover have "split_by_choice choice slots = Some s"
      using counts(1) starts(1) order(1) False by (simp add: split_by_choice_def s_def)
    ultimately show ?thesis using order(2,3)
      by (intro exI [of _ s] exI [of _ "Explicit order"]) (simp add: s_def plan_selection_def rs_explicit_def)
  qed
qed

lemma split_partitions:
  assumes "choice \<noteq> []" "slots \<le> 128" "set choice \<subseteq> {..<slots}" "length choice \<le> 2 ^ 32"
  shows "\<exists>s. split_by_choice choice slots = Some s \<and> partitions choice slots (Split s)"
proof -
  let ?vs = "choice_variables choice slots" and ?n = "length choice"
  obtain s select where s: "split_by_choice choice slots = Some s" "plan_groups s = choice_groups choice slots"
    "plan_selection (Split s) ?n = Some select" "rs_wf select" "rs_len select = ?n"
    "\<forall>v < slots. take (length (rows_choosing choice ?n v)) (drop (rows_below choice v) (rs_list select))
        = map word_of_nat (rows_choosing choice ?n v)"
    using split_selection [OF assms] by blast
  have "plan_group_rows (Split s) g ?n = Some (?vs ! g, map word_of_nat (rows_choosing choice ?n (?vs ! g)))"
    if g: "g < length ?vs" for g
  proof -
    have v: "?vs ! g < slots" using nth_mem [OF g] by (auto simp: choice_variables_def)
    have "plan_group (Split s) g ?n = Some (?vs ! g, rows_below choice (?vs ! g), rows_below choice (Suc (?vs ! g)))"
      using g choice_variables_start [OF assms(3)] choice_variables_first [OF assms(3,1)]
      by (cases g) (auto simp: plan_group_def s(2) choice_groups_variables)
    moreover obtain sl where "rs_slice select (rows_below choice (?vs ! g)) (rows_below choice (Suc (?vs ! g))) = Some sl"
      "rs_list sl = map word_of_nat (rows_choosing choice ?n (?vs ! g))"
      using rs_slice_list [OF s(4), of "rows_below choice (?vs ! g)" "rows_below choice (Suc (?vs ! g))"] s(5,6) v
        rows_below_le [of choice "Suc (?vs ! g)"] rows_below_mono [of "?vs ! g" "Suc (?vs ! g)" choice]
      by (auto simp: length_rows_choosing_all)
    ultimately show ?thesis by (simp add: plan_group_rows_def s(3))
  qed
  then have "partitions choice slots (Split s)"
    by (simp add: partitions_def Let_def plan_group_count_def s(2) choice_groups_variables)
  then show ?thesis using s(1) by blast
qed

lemma universal_partitions:
  assumes "v < slots" "0 < n" "n \<le> 2 ^ 32"
  shows "partitions (replicate n v) slots (Universal v)"
proof -
  have vs: "choice_variables (replicate n v) slots = [v]"
  proof -
    have "filter (\<lambda>w. w = v) [0..<slots] = [v]" if "v < slots" for slots using that
      by (induction slots) (auto simp: less_Suc_eq filter_empty_conv)
    moreover have "(\<lambda>w. w \<in> set (replicate n v)) = (\<lambda>w. w = v)" using assms(2) by auto
    ultimately show ?thesis using assms(1) by (simp add: choice_variables_def)
  qed
  have "rows_choosing (replicate n v) n v = [0..<n]"
    unfolding rows_choosing_def by (rule filter_True) simp
  moreover obtain sl where "rs_slice (Consecutive 0 n) 0 n = Some sl" "rs_list sl = map word_of_nat [0..<n]"
    using rs_slice_list [of "Consecutive 0 n" 0 n] assms(3) by auto
  ultimately show ?thesis
    using assms rs_identity_eq [OF assms(3)]
    by (simp add: partitions_def vs plan_group_count_def plan_group_rows_def plan_group_def plan_selection_def)
qed

text \<open>The groups are a rearrangement of the rows.\<close>

lemma partition_rows_mset:
  assumes "set choice \<subseteq> {..<slots}"
  shows "mset (concat (map (rows_choosing choice (length choice)) (choice_variables choice slots))) = mset [0..<length choice]"
proof -
  let ?L = "concat (map (rows_choosing choice (length choice)) (choice_variables choice slots))"
  have "distinct (map (rows_choosing choice (length choice)) (choice_variables choice slots))"
    unfolding distinct_map
  proof
    show "inj_on (rows_choosing choice (length choice)) (set (choice_variables choice slots))"
    proof (rule inj_onI)
      fix v w assume "v \<in> set (choice_variables choice slots)" and eq: "rows_choosing choice (length choice) v = rows_choosing choice (length choice) w"
      then obtain r where "r < length choice" "choice ! r = v" by (auto simp: choice_variables_def in_set_conv_nth)
      then have "r \<in> set (rows_choosing choice (length choice) v)" by (simp add: rows_choosing_def)
      then have "r \<in> set (rows_choosing choice (length choice) w)" by (simp only: eq)
      with \<open>choice ! r = v\<close> show "v = w" by (simp add: rows_choosing_def)
    qed
  qed (simp add: choice_variables_def)
  then have "distinct ?L"
    by (rule distinct_concat) (auto simp: rows_choosing_def)
  moreover have "set ?L = set [0..<length choice]"
    using assms by (force simp: rows_choosing_def choice_variables_def in_set_conv_nth)
  ultimately show ?thesis by (metis distinct_upt set_eq_iff_mset_eq_distinct)
qed

section \<open>Planning a frontier\<close>

lemma find_disagreement_eq:
  assumes "\<And>r. r \<in> set rows \<Longrightarrow> pref r = Some (c r)"
  shows "find_disagreement pref first rows = Some (map_option (\<lambda>r. (r, c r)) (List.find (\<lambda>r. c r \<noteq> first) rows))"
  using assms by (induction rows) auto

lemma find_upt_Some:
  assumes "List.find P [1..<n] = Some r"
  shows "r < n" "P r" "\<And>k. 0 < k \<Longrightarrow> k < r \<Longrightarrow> \<not> P k"
proof -
  obtain i where i: "i < length [1..<n]" "P ([1..<n] ! i)" "r = [1..<n] ! i" "\<And>j. j < i \<Longrightarrow> \<not> P ([1..<n] ! j)"
    using assms by (auto simp: find_Some_iff)
  then show "r < n" "P r" by auto
  have ri: "r = 1 + i" using i(1,3) by simp
  show "\<not> P k" if "0 < k" "k < r" for k
    using i(4) [of "k - 1"] that ri i(1) by simp
qed

lemma find_upt_None: "List.find P [1..<n] = None \<Longrightarrow> 0 < k \<Longrightarrow> k < n \<Longrightarrow> \<not> P k"
  by (simp add: find_None_iff)

lemma choice_prefix:
  assumes "row < length choice" "\<And>r. r < row \<Longrightarrow> choice ! r = choice ! 0"
  shows "replicate row (choice ! 0) @ [choice ! row] @ map (\<lambda>r. choice ! r) [row + 1..<length choice] = choice"
proof -
  have "take row choice = replicate row (choice ! 0)"
  proof (rule nth_equalityI)
    fix i assume "i < length (take row choice)"
    then show "take row choice ! i = replicate row (choice ! 0) ! i" using assms(2) [of i] by simp
  qed (use assms(1) in simp)
  moreover have "map (\<lambda>r. choice ! r) [row + 1..<length choice] = drop (Suc row) choice"
    by (intro nth_equalityI) auto
  ultimately show ?thesis using id_take_nth_drop [OF assms(1)] by simp
qed

lemma depth_plan_of_partitions:
  assumes "length choice = rows" "0 < rows" "rows \<le> 2 ^ 32" "slots \<le> 128" "set choice \<subseteq> {..<slots}"
    and pref: "\<And>r. r < rows \<Longrightarrow> pref r = Some (choice ! r)"
  shows "\<exists>p. depth_plan_of pref rows slots = Some p \<and> partitions choice slots p"
proof -
  let ?P = "\<lambda>r. choice ! r \<noteq> choice ! 0"
  have found: "find_disagreement pref (choice ! 0) [1..<rows] = Some (map_option (\<lambda>r. (r, choice ! r)) (List.find ?P [1..<rows]))"
    using pref by (intro find_disagreement_eq) simp
  have c0: "pref 0 = Some (choice ! 0)" using pref [OF assms(2)] .
  have "choice ! 0 \<in> set choice" using assms(1,2) by simp
  then have c0_less: "choice ! 0 < slots" using assms(5) by blast
  show ?thesis
  proof (cases "List.find ?P [1..<rows]")
    case None
    have same: "replicate rows (choice ! 0) = choice"
    proof (rule nth_equalityI)
      fix r assume "r < length (replicate rows (choice ! 0))"
      then show "replicate rows (choice ! 0) ! r = choice ! r"
        using find_upt_None [OF None, of r] by (cases "r = 0") auto
    qed (use assms(1) in simp)
    have "partitions choice slots (Universal (choice ! 0))"
      using universal_partitions [OF c0_less assms(2,3)] unfolding same .
    moreover have "depth_plan_of pref rows slots = Some (Universal (choice ! 0))"
      using found None c0 by (simp add: depth_plan_of_def)
    ultimately show ?thesis by blast
  next
    case (Some row)
    note row = find_upt_Some [OF Some]
    have before: "choice ! r = choice ! 0" if "r < row" for r
      using row(3) [of r] that by (cases "r = 0") auto
    have rest: "map_panic pref [row + 1..<rows] = Some (map (\<lambda>r. choice ! r) [row + 1..<rows])"
      using pref by (intro map_panic_Some) simp
    have whole: "replicate row (choice ! 0) @ [choice ! row] @ map (\<lambda>r. choice ! r) [row + 1..<rows] = choice"
      using choice_prefix [OF row(1) [folded assms(1)] before] unfolding assms(1) .
    obtain s where s: "split_by_choice choice slots = Some s" "partitions choice slots (Split s)"
      using split_partitions [OF _ assms(4,5)] assms(1-3) by (metis length_0_conv less_numeral_extra(3))
    have "depth_plan_of pref rows slots = do {
        s \<leftarrow> split_by_choice (replicate row (choice ! 0) @ [choice ! row] @ map (\<lambda>r. choice ! r) [row + 1..<rows]) slots;
        Some (Split s) }"
      using rest found Some c0 by (simp add: depth_plan_of_def)
    then have "depth_plan_of pref rows slots = Some (Split s)" unfolding whole s(1) by simp
    with s(2) show ?thesis by blast
  qed
qed

section \<open>Properties\<close>

text \<open>
  C4. Planning partitions the frontier: given each row's preferred variable, the plan has one group per
  preferred variable, in ascending order, and the group of a variable holds exactly the rows that prefer
  it, in row order. The groups together are a rearrangement of the rows, so the counting sort neither
  loses nor repeats a row, whether the order is left implicit or stored.
\<close>

theorem plan_partitions_rows:
  assumes "length choice = rows" "0 < rows" "rows \<le> 2 ^ 32" "slots \<le> 128" "set choice \<subseteq> {..<slots}"
    and "\<And>r. r < rows \<Longrightarrow> pref r = Some (choice ! r)"
  shows "\<exists>p. depth_plan_of pref rows slots = Some p \<and> partitions choice slots p \<and>
    mset (concat (map (rows_choosing choice rows) (choice_variables choice slots))) = mset [0..<rows]"
  using depth_plan_of_partitions [OF assms] partition_rows_mset [OF assms(5)] assms(1) by auto

theorem plan_partitions_rows_witness:
  "\<exists>p. depth_plan_of (\<lambda>r. Some ([2, 0, 2, 1] ! r)) 4 3 = Some p \<and> partitions [2, 0, 2, 1] 3 p \<and>
    mset (concat (map (rows_choosing [2, 0, 2, 1] 4) (choice_variables [2, 0, 2, 1] 3))) = mset [0..<4]"
  by (rule plan_partitions_rows) auto

lemma max_by_key_fold:
  "(\<forall>y \<in> set (x # xs). key_le (snd y) (snd (foldl (\<lambda>best y. if key_le (snd best) (snd y) then y else best) x xs))) \<and>
   foldl (\<lambda>best y. if key_le (snd best) (snd y) then y else best) x xs \<in> set (x # xs)"
proof (induction xs arbitrary: x)
  case (Cons y xs)
  have trans: "key_le a b \<Longrightarrow> key_le b d \<Longrightarrow> key_le a d" for a b d by (auto simp: key_le_def)
  have total: "key_le a b \<or> key_le b a" for a b by (auto simp: key_le_def)
  define z where "z = (if key_le (snd x) (snd y) then y else x)"
  have z: "key_le (snd x) (snd z)" "key_le (snd y) (snd z)" "z = x \<or> z = y"
    using total [of "snd x" "snd y"] total [of "snd x" "snd x"] total [of "snd y" "snd y"] by (auto simp: z_def)
  show ?case using Cons [of z] z trans by (auto simp flip: z_def)
qed (auto simp: key_le_def)

lemma max_by_key_max:
  "xs \<noteq> [] \<Longrightarrow> \<exists>x \<in> set xs. max_by_key xs = Some (fst x) \<and> (\<forall>y \<in> set xs. key_le (snd y) (snd x))"
proof (cases xs)
  case (Cons x ys)
  show ?thesis unfolding Cons max_by_key.simps using max_by_key_fold [of x ys]
    by (intro bexI [of _ "foldl (\<lambda>best y. if key_le (snd best) (snd y) then y else best) x ys"]) blast+
qed simp

lemma preferred_eq:
  assumes "vs_elems unbound \<noteq> {}" "vs_elems unbound \<subseteq> {..<slots}" "length influences = 128"
    "(row + 1) * slots \<le> length estimates"
  shows "\<exists>v \<in> vs_elems unbound. preferred influences estimates slots unbound row = Some v \<and>
    (\<forall>w \<in> vs_elems unbound. key_le (bit_length (estimates ! (row * slots + w)), card (vs_elems (influences ! w)))
      (bit_length (estimates ! (row * slots + v)), card (vs_elems (influences ! v))))"
proof -
  define key where "key w = (bit_length (estimates ! (row * slots + w)), card (vs_elems (influences ! w)))" for w
  define es where "es = take slots (drop (row * slots) estimates)"
  have sl: "slice estimates (row * slots) ((row + 1) * slots) = Some es" using assms(4) by (simp add: es_def)
  have "map_panic (\<lambda>v. do { e \<leftarrow> idx es v; inf \<leftarrow> idx influences v; Some (v, bit_length e, vs_count inf) }) (vs_into_iter unbound)
      = Some (map (\<lambda>v. (v, key v)) (vs_into_iter unbound))"
  proof (rule map_panic_Some)
    fix v assume "v \<in> set (vs_into_iter unbound)"
    then have v: "v \<in> vs_elems unbound" by (simp add: vs_into_iter_set)
    then have "v < slots" "v < 128" using assms(2) vs_elems_bound by auto
    moreover from this have "es ! v = estimates ! (row * slots + v)" "v < length es"
      using assms(4) by (simp_all add: es_def add.commute)
    ultimately show "do { e \<leftarrow> idx es v; inf \<leftarrow> idx influences v; Some (v, bit_length e, vs_count inf) } = Some (v, key v)"
      using assms(3) by (simp add: key_def)
  qed
  then have "preferred influences estimates slots unbound row = max_by_key (map (\<lambda>v. (v, key v)) (vs_into_iter unbound))"
    using sl by (simp add: preferred_def)
  moreover have "map (\<lambda>v. (v, key v)) (vs_into_iter unbound) \<noteq> []"
    using assms(1) vs_into_iter_set [of unbound] by (metis Nil_is_map_conv empty_set)
  ultimately show ?thesis
    using max_by_key_max [of "map (\<lambda>v. (v, key v)) (vs_into_iter unbound)"] by (auto simp: vs_into_iter_set key_def)
qed

text \<open>
  C11. The row's preferred variable is an unbound one whose estimate has the fewest binary digits and,
  among those, the largest influence; with an unbound variable left and the estimates in place the
  choice does not panic.
\<close>

theorem preferred_is_cheapest:
  assumes "vs_elems unbound \<noteq> {}" "vs_elems unbound \<subseteq> {..<slots}" "length influences = 128"
    "(row + 1) * slots \<le> length estimates"
  shows "\<exists>v \<in> vs_elems unbound. preferred influences estimates slots unbound row = Some v \<and>
    (\<forall>w \<in> vs_elems unbound. bit_length (estimates ! (row * slots + v)) \<le> bit_length (estimates ! (row * slots + w)) \<and>
      (bit_length (estimates ! (row * slots + v)) = bit_length (estimates ! (row * slots + w)) \<longrightarrow>
        card (vs_elems (influences ! w)) \<le> card (vs_elems (influences ! v))))"
  using preferred_eq [OF assms] by (fastforce simp: key_le_def)

theorem preferred_is_cheapest_witness:
  "\<exists>v \<in> vs_elems (vs_new_singleton 1). preferred (replicate 128 vs_new_empty) [5, 7] 2 (vs_new_singleton 1) 0 = Some v"
  using preferred_is_cheapest [of "vs_new_singleton 1" 2 "replicate 128 vs_new_empty" 0 "[5, 7]"] by auto

end
