(* ===== verification/Engine_Draw.thy ===== *)
theory Engine_Draw
  imports Query_Engine
begin

text \<open>
  How the search turns candidates into rows. A row of an index block denotes the assignment
  \<open>row_assign\<close>; a batch over such rows is a well-formed frontier that denotes them. Drawing from a
  level takes its live candidates in order; the fused draw (\<open>take_chunk\<close>), the deferred draw with its
  rows written afterwards and the in-place descent all produce the same child rows: the parent's row
  with the drawn candidate in the variable's slot.
\<close>

section \<open>Rows of an index block\<close>

definition row_assign :: "level_values list \<Rightarrow> u32 list \<Rightarrow> nat \<Rightarrow> nat set \<Rightarrow> nat \<Rightarrow> assignment" where
  "row_assign levels block slots V r =
     (\<lambda>v. if v \<in> V then Some (pb_entries (the (lv_buffer (levels ! v))) ! unat (block ! (r * slots + v))) else None)"

definition row_ok :: "level_values list \<Rightarrow> u32 list \<Rightarrow> nat \<Rightarrow> nat set \<Rightarrow> nat \<Rightarrow> bool" where
  "row_ok levels block slots V r \<longleftrightarrow>
     (\<forall>v \<in> V. \<exists>b. lv_buffer (levels ! v) = Some b \<and> unat (block ! (r * slots + v)) < pb_len b)"

lemma row_index: "w < slots \<Longrightarrow> (r + 1) * slots \<le> n \<Longrightarrow> r * slots + w < (n :: nat)"
  by simp

lemma row_bound: "k < n \<Longrightarrow> n * slots \<le> (l :: nat) \<Longrightarrow> (k + 1) * slots \<le> l"
  by (metis Suc_eq_plus1 Suc_leI le_trans mult_le_mono1)

lemma dom_row_assign [simp]: "dom (row_assign levels block slots V r) = V"
  by (auto simp: row_assign_def dom_def)

lemma row_assign_cong:
  assumes "\<And>v. v \<in> V \<Longrightarrow> lv_buffer (levels ! v) = lv_buffer (levels' ! v)"
    and "\<And>v. v \<in> V \<Longrightarrow> block ! (r * slots + v) = block' ! (r' * slots + v)"
  shows "row_assign levels block slots V r = row_assign levels' block' slots V r'"
  using assms by (auto simp: row_assign_def)

lemma row_ok_cong:
  assumes "\<And>v. v \<in> V \<Longrightarrow> lv_buffer (levels ! v) = lv_buffer (levels' ! v)"
    and "\<And>v. v \<in> V \<Longrightarrow> block ! (r * slots + v) = block' ! (r' * slots + v)"
  shows "row_ok levels block slots V r = row_ok levels' block' slots V r'"
  using assms by (auto simp: row_ok_def)

lemma batch_row:
  assumes "rs_wf sel" "i < rs_len sel" "length (bs_levels s) = 128" "vs_elems (bs_bound s) \<subseteq> {..<slots}"
    and "(unat (rs_list sel ! i) + 1) * slots \<le> length block"
    and ok: "row_ok (bs_levels s) block slots (vs_elems (bs_bound s)) (unat (rs_list sel ! i))"
  shows "\<exists>b. fr_row (bs_batch s block sel slots) i = Some b \<and> bd_wf b \<and> bd_bound b = bs_bound s
    \<and> bd_map b = row_assign (bs_levels s) block slots (vs_elems (bs_bound s)) (unat (rs_list sel ! i))"
proof -
  define r where "r = unat (rs_list sel ! i)"
  define b where "b = \<lparr>bd_bound = bs_bound s, bd_indexes = take slots (drop (r * slots) block), bd_levels = bs_levels s\<rparr>"
  have len: "(r + 1) * slots \<le> length block" using assms(5) by (simp add: r_def)
  have row: "fr_row (bs_batch s block sel slots) i = Some b"
    using assms(1,2) len by (simp add: fr_row_def fr_row_indexes_def bs_batch_def rs_get_expect_eq b_def r_def)
  have get: "bd_get b v = Some (row_assign (bs_levels s) block slots (vs_elems (bs_bound s)) r v)"
    if v: "v \<in> vs_elems (bs_bound s)" for v
  proof -
    have vs: "v < slots" "v < 128" using v assms(4) vs_elems_bound by auto
    obtain buf where buf: "lv_buffer (bs_levels s ! v) = Some buf" "unat (block ! (r * slots + v)) < pb_len buf"
      using ok v by (auto simp: row_ok_def r_def)
    have "bd_indexes b ! v = block ! (r * slots + v)" "v < length (bd_indexes b)"
      using vs len row_index [of v slots r "length block"] by (simp_all add: b_def)
    then show ?thesis
      using vs v buf assms(3) by (simp add: bd_get_def b_def lv_published_def row_assign_def pb_len_def)
  qed
  have "bd_wf b" using get by (auto simp: bd_wf_def row_assign_def b_def)
  moreover have "bd_map b = row_assign (bs_levels s) block slots (vs_elems (bs_bound s)) r"
    using get by (auto simp: bd_map_def fun_eq_iff row_assign_def b_def)
  ultimately show ?thesis using row by (auto simp: r_def b_def)
qed

lemma batch_frontier:
  assumes "rs_wf sel" "length (bs_levels s) = 128" "vs_elems (bs_bound s) \<subseteq> {..<slots}"
    and "\<And>i. i < rs_len sel \<Longrightarrow> (unat (rs_list sel ! i) + 1) * slots \<le> length block"
    and "\<And>i. i < rs_len sel \<Longrightarrow> row_ok (bs_levels s) block slots (vs_elems (bs_bound s)) (unat (rs_list sel ! i))"
  defines "f \<equiv> bs_batch s block sel slots"
  shows "fr_wf f" "fr_len f = rs_len sel" "fr_bound f = bs_bound s"
    "\<And>i. i < rs_len sel \<Longrightarrow> fr_assign f i = row_assign (bs_levels s) block slots (vs_elems (bs_bound s)) (unat (rs_list sel ! i))"
proof -
  show len: "fr_len f = rs_len sel" "fr_bound f = bs_bound s" by (simp_all add: f_def bs_batch_def fr_len_def)
  have row: "\<exists>b. fr_row f i = Some b \<and> bd_wf b
    \<and> bd_map b = row_assign (bs_levels s) block slots (vs_elems (bs_bound s)) (unat (rs_list sel ! i))"
    if "i < rs_len sel" for i
    using batch_row [OF assms(1) that assms(2,3) assms(4,5) [OF that]] unfolding f_def by blast
  show "fr_wf f" using row len assms(1) by (auto simp: fr_wf_def) (simp add: f_def bs_batch_def)
  show "fr_assign f i = row_assign (bs_levels s) block slots (vs_elems (bs_bound s)) (unat (rs_list sel ! i))"
    if "i < rs_len sel" for i
    using row [OF that] by (auto simp: fr_assign_def)
qed

section \<open>Drawing live candidates\<close>

definition live_from :: "proposal_buffer \<Rightarrow> nat \<Rightarrow> nat list" where
  "live_from b pos = filter (wbit (pb_live b)) [pos..<pb_len b]"

lemma live_from_bound: "k \<in> set (live_from b pos) \<Longrightarrow> k < pb_len b \<and> wbit (pb_live b) k"
  by (auto simp: live_from_def)

lemma distinct_live_from [simp]: "distinct (live_from b pos)"
  by (simp add: live_from_def)

lemma next_live_live_from:
  assumes "pb_wf b"
  shows "pb_next_live b pos = Some (case live_from b pos of [] \<Rightarrow> None | i # _ \<Rightarrow> Some i)"
    and "live_from b pos = i # rest \<Longrightarrow> live_from b (Suc i) = rest"
proof -
  have cut: "filter P [a..<n] = i # filter P [Suc i..<n]"
    if "a \<le> i" "i < n" "P i" "\<forall>k. a \<le> k \<and> k < i \<longrightarrow> \<not> P k" for P and a n i :: nat
  proof -
    have "[a..<n] = [a..<i] @ i # [Suc i..<n]"
      using that(1,2) by (metis le_add_diff_inverse less_imp_le_nat upt_add_eq_append upt_conv_Cons)
    moreover have "filter P [a..<i] = []" using that(4) by (simp add: filter_empty_conv)
    ultimately show ?thesis using that(3) by simp
  qed
  obtain r where r: "pb_next_live b pos = Some r" "case r of
      None \<Rightarrow> \<forall>k. pos \<le> k \<longrightarrow> \<not> wbit (pb_live b) k
    | Some i \<Rightarrow> pos \<le> i \<and> i < pb_len b \<and> wbit (pb_live b) i \<and> (\<forall>k. pos \<le> k \<and> k < i \<longrightarrow> \<not> wbit (pb_live b) k)"
    using pb_next_live_spec [OF assms] by blast
  show "pb_next_live b pos = Some (case live_from b pos of [] \<Rightarrow> None | i # _ \<Rightarrow> Some i)"
  proof (cases r)
    case None
    then have "live_from b pos = []" using r(2) by (simp add: live_from_def filter_empty_conv)
    then show ?thesis using r(1) None by simp
  next
    case (Some i)
    then have "live_from b pos = i # live_from b (Suc i)" unfolding live_from_def using r(2) by (intro cut) auto
    then show ?thesis using r(1) Some by simp
  qed
  show "live_from b (Suc i) = rest" if eq: "live_from b pos = i # rest"
  proof -
    have "i \<in> set (live_from b pos)" using eq by simp
    then have i: "pos \<le> i" "i < pb_len b" "wbit (pb_live b) i" by (auto simp: live_from_def)
    have "\<not> wbit (pb_live b) k" if k: "pos \<le> k" "k < i" for k
    proof
      assume "wbit (pb_live b) k"
      then have "k \<in> set (live_from b pos)" using k i by (simp add: live_from_def)
      then have "k \<in> set rest" using eq k(2) by auto
      moreover have "sorted (live_from b pos)" by (simp add: live_from_def sorted_wrt_filter)
      ultimately show False using eq k by auto
    qed
    then have "live_from b pos = i # live_from b (Suc i)" unfolding live_from_def using i by (intro cut) auto
    with eq show ?thesis by simp
  qed
qed

definition parent_row :: "proposal_buffer \<Rightarrow> row_selection \<Rightarrow> nat \<Rightarrow> u32" where
  "parent_row b sel k = rs_list sel ! unat (pb_parents b ! k)"

lemma draw_loop_eq:
  assumes "pb_wf b" "rs_wf sel" "\<And>k. k < pb_len b \<Longrightarrow> unat (pb_parents b ! k) < rs_len sel"
  shows "\<exists>pos'. draw_loop n b sel (pos, drawn, parents) =
      Some (pos', drawn @ map word_of_nat (take n (live_from b pos)), parents @ map (parent_row b sel) (take n (live_from b pos)))
    \<and> live_from b pos' = drop n (live_from b pos)"
proof (induction n arbitrary: pos drawn parents)
  case (Suc n)
  show ?case
  proof (cases "live_from b pos")
    case Nil
    then show ?thesis using next_live_live_from(1) [OF assms(1), of pos] by simp
  next
    case (Cons i rest)
    have i: "i < pb_len b" "live_from b (Suc i) = rest"
      using live_from_bound [of i b pos] next_live_live_from(2) [OF assms(1) Cons] Cons by auto
    have tag: "pb_parent_of b i = Some (pb_parents b ! i)"
      using i assms(1) by (simp add: pb_parent_of_def pb_wf_def)
    show ?thesis
      using Suc.IH [of "Suc i" "drawn @ [word_of_nat i]" "parents @ [parent_row b sel i]"] i tag assms(3) [OF i(1)]
        next_live_live_from(1) [OF assms(1), of pos] Cons
      by (simp add: rs_get_expect_eq [OF assms(2)] parent_row_def)
  qed
qed simp

section \<open>Writing the child's rows\<close>

definition child_row :: "u32 list \<Rightarrow> nat \<Rightarrow> nat \<Rightarrow> u32 \<Rightarrow> u32 \<Rightarrow> u32 list" where
  "child_row block slots v entry parent = (take slots (drop (unat parent * slots) block))[v := entry]"

lemma take_chunk_loop_eq:
  assumes "pb_wf b" "rs_wf sel" "\<And>k. k < pb_len b \<Longrightarrow> unat (pb_parents b ! k) < rs_len sel"
    and "\<And>k. k \<in> set (live_from b pos) \<Longrightarrow> (unat (parent_row b sel k) + 1) * slots \<le> length block" and "v < slots"
  shows "\<exists>pos'. take_chunk_loop n b v block sel slots (pos, out, parents) =
      Some (pos', out @ concat (map (\<lambda>k. child_row block slots v (word_of_nat k) (parent_row b sel k)) (take n (live_from b pos))),
        parents @ map (parent_row b sel) (take n (live_from b pos)))
    \<and> live_from b pos' = drop n (live_from b pos)"
  using assms(4)
proof (induction n arbitrary: pos out parents)
  case (Suc n)
  show ?case
  proof (cases "live_from b pos")
    case Nil
    then show ?thesis using next_live_live_from(1) [OF assms(1), of pos] by simp
  next
    case (Cons i rest)
    have i: "i < pb_len b" "live_from b (Suc i) = rest"
      using live_from_bound [of i b pos] next_live_live_from(2) [OF assms(1) Cons] Cons by auto
    have tag: "pb_parent_of b i = Some (pb_parents b ! i)"
      using i assms(1) by (simp add: pb_parent_of_def pb_wf_def)
    define p where "p = parent_row b sel i"
    have p: "(unat p + 1) * slots \<le> length block" using Suc.prems [of i] Cons by (simp add: p_def)
    have get: "rs_get_expect sel (unat (pb_parents b ! i)) = Some p"
      using assms(3) [OF i(1)] by (simp add: rs_get_expect_eq [OF assms(2)] p_def parent_row_def)
    define row where "row = take slots (drop (unat p * slots) block)"
    have row: "slice block (unat p * slots) ((unat p + 1) * slots) = Some row" "length row = slots"
      using p by (simp_all add: row_def)
    have upd: "idx_update (out @ row) (length (out @ row) - slots + v) (word_of_nat i) =
        Some (out @ child_row block slots v (word_of_nat i) p)"
      using row(2) assms(5) by (simp add: child_row_def row_def list_update_append)
    obtain pos' where pos': "take_chunk_loop n b v block sel slots (Suc i, out @ child_row block slots v (word_of_nat i) p, parents @ [p]) =
      Some (pos', (out @ child_row block slots v (word_of_nat i) p) @
          concat (map (\<lambda>k. child_row block slots v (word_of_nat k) (parent_row b sel k)) (take n (live_from b (Suc i)))),
        (parents @ [p]) @ map (parent_row b sel) (take n (live_from b (Suc i))))" "live_from b pos' = drop n (live_from b (Suc i))"
      using Suc.IH [of "Suc i" "out @ child_row block slots v (word_of_nat i) p" "parents @ [p]"] Suc.prems Cons i by auto
    have "take_chunk_loop (Suc n) b v block sel slots (pos, out, parents) =
        take_chunk_loop n b v block sel slots (Suc i, out @ child_row block slots v (word_of_nat i) p, parents @ [p])"
      using next_live_live_from(1) [OF assms(1), of pos] Cons tag get row(1) upd by (simp add: Let_def)
    then show ?thesis using pos' Cons i by (auto simp: p_def)
  qed
qed simp

lemma write_rows_eq:
  assumes "\<And>p. p \<in> set parents \<Longrightarrow> (unat p + 1) * slots \<le> length source" "v < slots" "length drawn = length parents"
  shows "write_rows source slots v drawn parents =
    Some (concat (map (\<lambda>(e, p). child_row source slots v e p) (zip drawn parents)))"
proof -
  have "for_each (\<lambda>block (entry, parent). do {
        row \<leftarrow> slice source (unat parent * slots) ((unat parent + 1) * slots);
        let block1 = block @ row;
        idx_update block1 (length block1 - slots + v) entry
      }) out eps = Some (out @ concat (map (\<lambda>(e, p). child_row source slots v e p) eps))"
    if "\<forall>(e, p) \<in> set eps. (unat p + 1) * slots \<le> length source" for out eps
    using that
  proof (induction eps arbitrary: out)
    case (Cons ep eps)
    obtain e p where ep: "ep = (e, p)" by force
    have "slice source (unat p * slots) ((unat p + 1) * slots) = Some (take slots (drop (unat p * slots) source))"
      "length (take slots (drop (unat p * slots) source)) = slots" using Cons.prems ep by auto
    then show ?case using Cons ep assms(2) by (simp add: child_row_def list_update_append Let_def)
  qed simp
  from this [of "zip drawn parents" "[]"] show ?thesis
    unfolding write_rows_def using assms(1) by (auto dest: set_zip_rightD)
qed

lemma concat_rows_nth:
  assumes "\<And>x. x \<in> set xs \<Longrightarrow> length (f x) = slots" "j < length xs" "w < slots"
  shows "concat (map f xs) ! (j * slots + w) = f (xs ! j) ! w"
  using assms
proof (induction xs arbitrary: j)
  case (Cons x xs)
  then show ?case by (cases j) (simp_all add: nth_append add.assoc)
qed simp

lemma length_concat_rows: "(\<And>x. x \<in> set xs \<Longrightarrow> length (f x) = slots) \<Longrightarrow> length (concat (map f xs)) = length xs * slots"
  by (induction xs) auto

text \<open>What every way of descending establishes of the child's block.\<close>

definition child_block :: "u32 list \<Rightarrow> nat \<Rightarrow> nat \<Rightarrow> u32 list \<Rightarrow> u32 list \<Rightarrow> u32 list \<Rightarrow> bool" where
  "child_block source slots v drawn parents block \<longleftrightarrow> length parents = length drawn \<and>
     length drawn * slots \<le> length block \<and>
     (\<forall>j < length drawn. \<forall>w < slots. block ! (j * slots + w) =
        (if w = v then drawn ! j else source ! (unat (parents ! j) * slots + w)))"

lemma child_block_copy:
  assumes "\<And>p. p \<in> set parents \<Longrightarrow> (unat p + 1) * slots \<le> length source" "length drawn = length parents"
  shows "child_block source slots v drawn parents (concat (map (\<lambda>(e, p). child_row source slots v e p) (zip drawn parents)))"
proof -
  let ?f = "\<lambda>(e, p). child_row source slots v e p"
  have len: "length (?f ep) = slots" if "ep \<in> set (zip drawn parents)" for ep
  proof -
    obtain e p where ep: "ep = (e, p)" by force
    then have "(unat p + 1) * slots \<le> length source" using that assms(1) by (auto dest: set_zip_rightD)
    then show ?thesis by (simp add: ep child_row_def)
  qed
  have "concat (map ?f (zip drawn parents)) ! (j * slots + w) =
      (if w = v then drawn ! j else source ! (unat (parents ! j) * slots + w))"
    if "j < length drawn" "w < slots" for j w
  proof -
    have "concat (map ?f (zip drawn parents)) ! (j * slots + w) = ?f (zip drawn parents ! j) ! w"
      using that assms(2) by (intro concat_rows_nth len) auto
    moreover have "(unat (parents ! j) + 1) * slots \<le> length source" using that assms by simp
    ultimately show ?thesis using that assms(2) by (auto simp: child_row_def nth_list_update)
  qed
  moreover have "length (concat (map ?f (zip drawn parents))) = length drawn * slots"
    using length_concat_rows [of "zip drawn parents" ?f slots] len assms(2) by simp
  ultimately show ?thesis using assms(2) unfolding child_block_def by simp
qed

lemma row_slot_inj:
  assumes "r * slots + w = r' * slots + w'" "w < slots" "w' < (slots :: nat)"
  shows "r = r' \<and> w = w'"
proof -
  have "(r * slots + w) div slots = r" "(r' * slots + w') div slots = r'" using assms(2,3) by auto
  then show ?thesis using assms(1) by auto
qed

lemma write_inplace_eq:
  assumes "length drawn * slots \<le> length block" "v < slots" "length drawn \<le> 2 ^ 32"
  shows "\<exists>block'. write_inplace block slots v drawn = Some block'
    \<and> child_block block slots v drawn (map word_of_nat [0..<length drawn]) block'"
proof -
  define I where "I k block' \<longleftrightarrow> length block' = length block \<and> (\<forall>j < length drawn. \<forall>w < slots. block' ! (j * slots + w) =
      (if j < k \<and> w = v then drawn ! j else block ! (j * slots + w)))" for k and block' :: "u32 list"
  have "\<exists>block'. write_inplace block slots v drawn = Some block' \<and> I (length (enumerate 0 drawn)) block'"
    unfolding write_inplace_def
  proof (rule for_each_invariant)
    show "I 0 block" by (simp add: I_def)
  next
    fix k block' assume "k < length (enumerate 0 drawn)" and I: "I k block'"
    then have k: "k < length drawn" "enumerate 0 drawn ! k = (k, drawn ! k)" by (simp_all add: nth_enumerate_eq)
    have "(k + 1) * slots \<le> length block" using k(1) assms(1) by (rule row_bound)
    then have "k * slots + v < length block'" using I assms(2) row_index by (simp add: I_def)
    moreover have "block'[k * slots + v := drawn ! k] ! (j * slots + w) =
        (if j < Suc k \<and> w = v then drawn ! j else block ! (j * slots + w))" if jw: "j < length drawn" "w < slots" for j w
    proof (cases "j = k \<and> w = v")
      case True
      then show ?thesis using calculation by simp
    next
      case False
      then have "j * slots + w \<noteq> k * slots + v" using row_slot_inj jw(2) assms(2) by blast
      then have "block'[k * slots + v := drawn ! k] ! (j * slots + w) = block' ! (j * slots + w)" by simp
      also have "\<dots> = (if j < k \<and> w = v then drawn ! j else block ! (j * slots + w))" using I jw by (simp add: I_def)
      finally show ?thesis using False by (auto simp: less_Suc_eq)
    qed
    then have "I (Suc k) (block'[k * slots + v := drawn ! k])" using I by (simp add: I_def)
    ultimately show "\<exists>s'. (case enumerate 0 drawn ! k of (row, entry) \<Rightarrow> idx_update block' (row * slots + v) entry) = Some s' \<and> I (Suc k) s'"
      using k(2) by simp
  qed
  moreover have "unat (map word_of_nat [0..<length drawn] ! j :: u32) = j" if "j < length drawn" for j
    using that assms(3) by (simp add: unat_u32_of_nat)
  ultimately show ?thesis using assms(1) by (auto simp: I_def child_block_def)
qed

text \<open>The assignments of the child's rows: the parent's with the variable bound to the drawn candidate.\<close>

lemma child_row_assign:
  assumes "child_block source slots v drawn parents block" "j < length drawn" "v \<notin> V" "V \<subseteq> {..<slots}" "v < slots"
    and "\<And>w. w \<in> V \<Longrightarrow> lv_buffer (levels' ! w) = lv_buffer (levels ! w)" "lv_buffer (levels' ! v) = Some b"
  shows "row_assign levels' block slots (insert v V) j =
    (row_assign levels source slots V (unat (parents ! j)))(v \<mapsto> pb_entries b ! unat (drawn ! j))"
    and "row_ok levels source slots V (unat (parents ! j)) \<Longrightarrow> unat (drawn ! j) < pb_len b \<Longrightarrow>
      row_ok levels' block slots (insert v V) j"
proof -
  have at: "block ! (j * slots + w) = (if w = v then drawn ! j else source ! (unat (parents ! j) * slots + w))"
    if "w < slots" for w using assms(1,2) that by (simp add: child_block_def)
  show "row_assign levels' block slots (insert v V) j =
    (row_assign levels source slots V (unat (parents ! j)))(v \<mapsto> pb_entries b ! unat (drawn ! j))"
  proof
    fix w
    show "row_assign levels' block slots (insert v V) j w =
      ((row_assign levels source slots V (unat (parents ! j)))(v \<mapsto> pb_entries b ! unat (drawn ! j))) w"
      using at [of w] assms(3-7) by (auto simp: row_assign_def)
  qed
  assume ok: "row_ok levels source slots V (unat (parents ! j))" and dr: "unat (drawn ! j) < pb_len b"
  have "\<exists>buf. lv_buffer (levels' ! w) = Some buf \<and> unat (block ! (j * slots + w)) < pb_len buf" if "w \<in> insert v V" for w
  proof (cases "w = v")
    case True
    then show ?thesis using dr assms(5,7) at [of v] by simp
  next
    case False
    then have "w \<in> V" "w < slots" using that assms(4) by auto
    then show ?thesis using ok False at [of w] assms(6) by (auto simp: row_ok_def)
  qed
  then show "row_ok levels' block slots (insert v V) j" by (simp add: row_ok_def)
qed

section \<open>The estimates of the child's rows\<close>

lemma inherit_estimates_eq:
  assumes "\<And>p. p \<in> set parents \<Longrightarrow> (unat p + 1) * slots \<le> length source"
  shows "\<exists>es. inherit_estimates source slots parents = Some es \<and> length es = length parents * slots"
proof -
  have "for_each (\<lambda>es parent. do {
        row \<leftarrow> slice source (unat parent * slots) ((unat parent + 1) * slots);
        Some (es @ row)
      }) es0 ps = Some (es0 @ concat (map (\<lambda>p. take slots (drop (unat p * slots) source)) ps))"
    if "\<And>p. p \<in> set ps \<Longrightarrow> (unat p + 1) * slots \<le> length source" for es0 ps
    using that
  proof (induction ps arbitrary: es0)
    case (Cons p ps)
    then show ?case by auto
  qed simp
  from this [of parents "[]"] have "inherit_estimates source slots parents =
      Some (concat (map (\<lambda>p. take slots (drop (unat p * slots) source)) parents))"
    unfolding inherit_estimates_def using assms by simp
  moreover have "length (concat (map (\<lambda>p. take slots (drop (unat p * slots) source)) parents)) = length parents * slots"
  proof (rule length_concat_rows)
    fix p assume "p \<in> set parents"
    then show "length (take slots (drop (unat p * slots) source)) = slots" using assms [of p] by simp
  qed
  ultimately show ?thesis by blast
qed

lemma for_each_keeps:
  assumes "P s" "\<And>s x. x \<in> set xs \<Longrightarrow> P s \<Longrightarrow> \<exists>s'. f s x = Some s' \<and> P s'"
  shows "\<exists>s'. for_each f s xs = Some s' \<and> P s'"
  using for_each_invariant [of "\<lambda>_. P" s xs f] assms by auto

lemma refresh_row_eq:
  fixes es :: "nat list"
  assumes "fr_row f row = Some bd" "(row + 1) * slots \<le> length es" "vs_elems stale \<subseteq> {..<slots}"
    and "\<And>v. v \<in> vs_elems stale \<Longrightarrow> \<exists>e. c_estimate c v bd = Some (Some e)"
  shows "\<exists>es'. refresh_row c f slots stale es row = Some es' \<and> length es' = length es"
proof -
  have "\<exists>es'. for_each (\<lambda>es v. do {
        r \<leftarrow> c_estimate c v bd;
        e \<leftarrow> r;
        idx_update es (row * slots + v) e
      }) es (vs_into_iter stale) = Some es' \<and> length es' = length es"
  proof (rule for_each_keeps)
    fix es0 :: "nat list" and v assume "v \<in> set (vs_into_iter stale)" and l: "length es0 = length es"
    then have v: "v \<in> vs_elems stale" by (simp add: vs_into_iter_set)
    then obtain e where "c_estimate c v bd = Some (Some e)" using assms(4) by blast
    moreover have "row * slots + v < length es0" using v assms(2,3) l row_index by auto
    ultimately show "\<exists>es'. do { r \<leftarrow> c_estimate c v bd; e \<leftarrow> r; idx_update es0 (row * slots + v) e } = Some es' \<and> length es' = length es"
      using l by simp
  qed simp
  then show ?thesis using assms(1) by (simp add: refresh_row_def)
qed

lemma refresh_estimates_eq:
  fixes es :: "nat list"
  assumes "rows \<le> 2 ^ 32" "rows * slots \<le> length es" "vs_elems stale \<subseteq> {..<slots}"
    and "\<And>row v sel. rs_identity rows = Some sel \<Longrightarrow> row < rows \<Longrightarrow> v \<in> vs_elems stale \<Longrightarrow>
      \<exists>bd e. fr_row (bs_batch s block sel slots) row = Some bd \<and> c_estimate c v bd = Some (Some e)"
  shows "\<exists>es'. refresh_estimates c s block rows slots stale es = Some es' \<and> length es' = length es"
proof (cases "vs_is_empty stale")
  case False
  obtain sel where sel: "rs_identity rows = Some sel" using rs_identity_eq [OF assms(1)] by blast
  have "\<exists>es'. for_each (refresh_row c (bs_batch s block sel slots) slots stale) es [0..<rows] = Some es' \<and> length es' = length es"
  proof (rule for_each_keeps)
    fix es0 :: "nat list" and row assume "row \<in> set [0..<rows]" and l: "length es0 = length es"
    then have row: "row < rows" by simp
    obtain v0 where v0: "v0 \<in> vs_elems stale" using False by auto
    obtain bd where bd: "fr_row (bs_batch s block sel slots) row = Some bd" using assms(4) [OF sel row v0] by blast
    have "(row + 1) * slots \<le> length es0"
      using row_bound [OF row assms(2)] l by simp
    then show "\<exists>s'. refresh_row c (bs_batch s block sel slots) slots stale es0 row = Some s' \<and> length s' = length es"
      using refresh_row_eq [OF bd _ assms(3), of es0 c] assms(4) [OF sel row] bd l by fastforce
  qed simp
  then show ?thesis using False sel by (simp add: refresh_estimates_def)
qed (simp add: refresh_estimates_def)

section \<open>Chunk widths\<close>

lemma next_width_range:
  assumes "0 < width" "0 < ceiling" "ceiling \<le> usize_max"
  shows "0 < next_width width proposed consumed ceiling \<and> next_width width proposed consumed ceiling \<le> ceiling"
  using assms by (auto simp: next_width_def saturating_mul_def frontier_ramp_base_def Let_def)

end
