(* ===== verification/Engine_Invariant.thy ===== *)
theory Engine_Invariant
  imports Engine_Plan Engine_Draw "HOL-Library.Multiset_Order"
begin

text \<open>
  The invariant of the search. The stack of levels and the depths below the current one pair up into
  frames: a planned frontier with one of its groups expanded into a level. What the search still has
  to do is the list \<open>pending\<close> of partial assignments: the rows of the groups not yet expanded and the
  live candidates not yet drawn. The measure, a multiset of natural numbers, bounds the steps: every
  step replaces an element by smaller ones.
\<close>

section \<open>Planned frontiers\<close>

definition plan_of :: "depth \<Rightarrow> (nat \<times> nat list) list" where
  "plan_of d = map (\<lambda>g. map_prod id (map unat) (the (plan_group_rows (dp_plan d) g (dp_rows d))))
     [0..<plan_group_count (dp_plan d)]"

definition planned :: "nat set \<Rightarrow> depth \<Rightarrow> bool" where
  "planned U d \<longleftrightarrow> dp_group_limit d = plan_group_count (dp_plan d) \<and> dp_rows d \<le> 2 ^ 32
     \<and> (\<forall>g < plan_group_count (dp_plan d). plan_group_rows (dp_plan d) g (dp_rows d) \<noteq> None)
     \<and> mset (concat (map snd (plan_of d))) = mset [0..<dp_rows d] \<and> fst ` set (plan_of d) \<subseteq> U"

lemma length_plan_of [simp]: "length (plan_of d) = plan_group_count (dp_plan d)"
  by (simp add: plan_of_def)

lemma dp_selection_wf: "dp_selection d = Some s \<Longrightarrow> rs_wf s"
  by (auto simp: dp_selection_def plan_selection_def rs_identity_def rs_consecutive_iff rs_explicit_def
    split: depth_plan.splits if_splits)

lemma planned_group:
  assumes "planned U d" "g < dp_group_limit d"
  obtains v start e select sel where "dp_group_range d g = Some (v, start, e)" "dp_selection d = Some select"
    "rs_slice select start e = Some sel" "rs_wf sel" "rs_len sel = e - start"
    "plan_of d ! g = (v, map unat (rs_list sel))" "v \<in> U"
proof -
  have g: "g < plan_group_count (dp_plan d)" "plan_group_rows (dp_plan d) g (dp_rows d) \<noteq> None"
    using assms by (auto simp: planned_def)
  then obtain v start e select sel where s: "dp_group_range d g = Some (v, start, e)" "dp_selection d = Some select"
    "rs_slice select start e = Some sel" "plan_group_rows (dp_plan d) g (dp_rows d) = Some (v, rs_list sel)"
    by (auto simp: plan_group_rows_def dp_group_range_def dp_selection_def split: Option.bind_splits)
  have wf: "rs_wf select" using dp_selection_wf [OF s(2)] .
  have "start \<le> e \<and> e \<le> rs_len select" using s(3) rs_slice_panics by (metis option.distinct(1))
  then obtain sel' where "rs_slice select start e = Some sel'" "rs_wf sel'" "rs_list sel' = take (e - start) (drop start (rs_list select))"
    "start \<le> e" "e \<le> rs_len select" using rs_slice_list [OF wf] by blast
  then have sel: "rs_wf sel" "rs_list sel = take (e - start) (drop start (rs_list select))" "e \<le> rs_len select" using s(3) by auto
  then have len: "rs_len sel = e - start" by (metis length_rs_list length_take length_drop min_absorb2 diff_le_mono)
  have at: "plan_of d ! g = (v, map unat (rs_list sel))" using g(1) s(4) by (simp add: plan_of_def)
  have "v \<in> U" using assms(1) at g(1) nth_mem [of g "plan_of d"] by (force simp: planned_def)
  with s sel(1) len at show thesis by (intro that) auto
qed

lemma planned_row:
  assumes "planned U d" "p \<in> set (snd (plan_of d ! g))" "g < dp_group_limit d"
  shows "p < dp_rows d"
proof -
  have "plan_of d ! g \<in> set (plan_of d)" using assms(1,3) by (simp add: planned_def)
  then have "p \<in> set (concat (map snd (plan_of d)))" using assms(2) by force
  moreover have "set (concat (map snd (plan_of d))) = {0..<dp_rows d}"
    using assms(1) by (metis planned_def mset_eq_setD set_upt)
  ultimately show ?thesis by (metis atLeastLessThan_iff)
qed

lemma planned_group_size:
  assumes "planned U d" "g < dp_group_limit d"
  shows "length (snd (plan_of d ! g)) \<le> dp_rows d"
proof -
  have g: "g < length (plan_of d)" using assms by (simp add: planned_def)
  have "length (concat (map snd (plan_of d))) = dp_rows d"
    using assms(1) by (metis planned_def length_upt mset_eq_length diff_zero)
  moreover have "length (snd (xs ! g)) \<le> length (concat (map snd xs))" if "g < length xs" for g and xs :: "(nat \<times> nat list) list"
    using that by (induction xs arbitrary: g) (auto simp: nth_Cons' less_Suc_eq_0_disj trans_le_add2)
  ultimately show ?thesis using g by metis
qed

lemma partitions_planned:
  assumes "partitions choice slots p" "length choice \<le> 2 ^ 32" "set choice \<subseteq> U" "set choice \<subseteq> {..<slots}"
    "dp_plan d = p" "dp_rows d = length choice" "dp_group_limit d = plan_group_count p"
  shows "planned U d"
proof -
  let ?vs = "choice_variables choice slots" and ?R = "rows_choosing choice (length choice)"
  have count: "plan_group_count p = length ?vs"
    and rows: "\<And>g. g < length ?vs \<Longrightarrow> plan_group_rows p g (length choice) = Some (?vs ! g, map word_of_nat (?R (?vs ! g)))"
    using assms(1) by (auto simp: partitions_def Let_def)
  have unat_rows: "map unat (map word_of_nat (?R v) :: u32 list) = ?R v" for v
    using assms(2) by (auto simp: rows_choosing_def unat_u32_of_nat intro!: map_idI)
  have plan: "plan_of d = map (\<lambda>v. (v, ?R v)) ?vs"
    using assms(5,6) count rows unat_rows by (intro nth_equalityI) (auto simp: plan_of_def)
  then have "map snd (plan_of d) = map ?R ?vs" "fst ` set (plan_of d) = set ?vs" by (auto simp: image_image)
  moreover have "set ?vs \<subseteq> U" using assms(3) by (auto simp: choice_variables_def)
  ultimately show ?thesis
    using assms count rows partition_rows_mset [OF assms(4)] by (simp add: planned_def)
qed

section \<open>Frames\<close>

definition depth_ok :: "level_values list \<Rightarrow> nat \<Rightarrow> nat set \<Rightarrow> depth \<Rightarrow> bool" where
  "depth_ok levels slots V d \<longleftrightarrow> dp_rows d * slots \<le> length (dp_block d) \<and> dp_rows d * slots \<le> length (dp_estimates d)
     \<and> (\<forall>r < dp_rows d. row_ok levels (dp_block d) slots V r)"

definition rows_pending :: "level_values list \<Rightarrow> nat \<Rightarrow> nat set \<Rightarrow> depth \<Rightarrow> assignment list" where
  "rows_pending levels slots V d =
     map (row_assign levels (dp_block d) slots V) (concat (map snd (drop (dp_group d) (plan_of d))))"

definition level_rows :: "depth \<Rightarrow> nat list" where
  "level_rows d = snd (plan_of d ! (dp_group d - 1))"

definition level_buffer :: "level_values list \<Rightarrow> level \<Rightarrow> proposal_buffer" where
  "level_buffer levels l = the (lv_buffer (levels ! lvl_variable l))"

definition level_live :: "level_values list \<Rightarrow> level \<Rightarrow> nat list" where
  "level_live levels l = live_from (level_buffer levels l) (lv_pos (levels ! lvl_variable l))"

definition cand_assign :: "level_values list \<Rightarrow> nat \<Rightarrow> nat set \<Rightarrow> depth \<Rightarrow> level \<Rightarrow> nat \<Rightarrow> assignment" where
  "cand_assign levels slots V d l k =
     (row_assign levels (dp_block d) slots V (level_rows d ! unat (pb_parents (level_buffer levels l) ! k)))
       (lvl_variable l \<mapsto> pb_entries (level_buffer levels l) ! k)"

definition frame_ok :: "nat \<Rightarrow> nat set \<Rightarrow> level_values list \<Rightarrow> nat \<Rightarrow> nat set \<Rightarrow> depth \<times> level \<Rightarrow> bool" where
  "frame_ok W vars levels slots V = (\<lambda>(d, l).
     planned (vars - V) d \<and> dp_rows d \<le> W \<and> 0 < dp_group d \<and> dp_group d \<le> dp_group_limit d
     \<and> fst (plan_of d ! (dp_group d - 1)) = lvl_variable l
     \<and> lv_buffer (levels ! lvl_variable l) = Some (level_buffer levels l)
     \<and> pb_wf (level_buffer levels l) \<and> pb_len (level_buffer levels l) \<le> 2 ^ 32
     \<and> (\<forall>k < pb_len (level_buffer levels l). unat (pb_parents (level_buffer levels l) ! k) < length (level_rows d))
     \<and> 0 < lvl_width l \<and> lvl_width l \<le> W
     \<and> (depth_ok levels slots V d \<or> dp_group_limit d \<le> dp_group d \<and> level_live levels l = []))"

definition frame_pending :: "level_values list \<Rightarrow> nat \<Rightarrow> nat set \<Rightarrow> depth \<times> level \<Rightarrow> assignment list" where
  "frame_pending levels slots V = (\<lambda>(d, l).
     rows_pending levels slots V d @ map (cand_assign levels slots V d l) (level_live levels l))"

definition frontier_measure :: "nat \<Rightarrow> depth \<Rightarrow> nat multiset" where
  "frontier_measure u d = replicate_mset (dp_group_limit d - dp_group d) (4 * u + 2) + {#4 * u + 1#}"

definition frame_measure :: "level_values list \<Rightarrow> nat \<Rightarrow> depth \<times> level \<Rightarrow> nat multiset" where
  "frame_measure levels u = (\<lambda>(d, l).
     frontier_measure u d + replicate_mset (length (level_live levels l)) (4 * u) + {#4 * u#})"

definition frame_vars :: "(depth \<times> level) list \<Rightarrow> nat set" where
  "frame_vars fs = set (map (lvl_variable \<circ> snd) fs)"

text \<open>Frames are listed from the top of the stack.\<close>

fun frames_ok :: "nat \<Rightarrow> nat set \<Rightarrow> level_values list \<Rightarrow> nat \<Rightarrow> (depth \<times> level) list \<Rightarrow> bool" where
  "frames_ok W vars levels slots [] \<longleftrightarrow> True"
| "frames_ok W vars levels slots (f # fs) \<longleftrightarrow>
     frame_ok W vars levels slots (frame_vars fs) f \<and> frames_ok W vars levels slots fs"

fun frames_pending :: "level_values list \<Rightarrow> nat \<Rightarrow> (depth \<times> level) list \<Rightarrow> assignment list" where
  "frames_pending levels slots [] = []"
| "frames_pending levels slots (f # fs) = frame_pending levels slots (frame_vars fs) f @ frames_pending levels slots fs"

fun frames_measure :: "level_values list \<Rightarrow> nat \<Rightarrow> (depth \<times> level) list \<Rightarrow> nat multiset" where
  "frames_measure levels n [] = {#}"
| "frames_measure levels n (f # fs) = frame_measure levels (n - length fs) f + frames_measure levels n fs"

lemma frame_vars_simps [simp]:
  "frame_vars [] = {}" "frame_vars ((d, l) # fs) = insert (lvl_variable l) (frame_vars fs)"
  by (auto simp: frame_vars_def)

lemma frames_ok_vars:
  "frames_ok W vars levels slots fs \<Longrightarrow> frame_vars fs \<subseteq> vars \<and> card (frame_vars fs) = length fs"
proof (induction fs)
  case (Cons f fs)
  obtain d l where f: "f = (d, l)" by force
  have ok: "frame_ok W vars levels slots (frame_vars fs) (d, l)" using Cons.prems f by simp
  then have g: "dp_group d - 1 < dp_group_limit d" "planned (vars - frame_vars fs) d" by (auto simp: frame_ok_def)
  then have "fst (plan_of d ! (dp_group d - 1)) \<in> vars - frame_vars fs"
    using planned_group [OF g(2,1)] by (metis fst_conv)
  then have "lvl_variable l \<in> vars - frame_vars fs" using ok by (simp add: frame_ok_def)
  moreover have "finite (frame_vars fs)" by (simp add: frame_vars_def)
  ultimately show ?case using Cons f by simp
qed simp

text \<open>A frame reads the levels of its own variable and of those below it only.\<close>

lemma depth_ok_cong:
  "(\<And>v. v \<in> V \<Longrightarrow> lv_buffer (levels ! v) = lv_buffer (levels' ! v)) \<Longrightarrow> depth_ok levels slots V d = depth_ok levels' slots V d"
  unfolding depth_ok_def using row_ok_cong [of V levels levels' "dp_block d" _ slots "dp_block d"] by auto

lemma rows_pending_cong:
  "(\<And>v. v \<in> V \<Longrightarrow> lv_buffer (levels ! v) = lv_buffer (levels' ! v)) \<Longrightarrow> rows_pending levels slots V d = rows_pending levels' slots V d"
  unfolding rows_pending_def by (intro map_cong refl row_assign_cong) auto

lemma frame_cong:
  assumes "\<And>v. v \<in> V \<Longrightarrow> levels ! v = levels' ! v" "levels ! lvl_variable l = levels' ! lvl_variable l"
  shows "frame_ok W vars levels slots V (d, l) = frame_ok W vars levels' slots V (d, l)"
    "frame_pending levels slots V (d, l) = frame_pending levels' slots V (d, l)"
    "frame_measure levels u (d, l) = frame_measure levels' u (d, l)"
proof -
  have b: "level_buffer levels l = level_buffer levels' l" "level_live levels l = level_live levels' l"
    using assms(2) by (simp_all add: level_buffer_def level_live_def)
  have d: "depth_ok levels slots V d = depth_ok levels' slots V d" using assms(1) by (intro depth_ok_cong) simp
  have r: "row_assign levels (dp_block d) slots V r = row_assign levels' (dp_block d) slots V r" for r
    using assms(1) by (intro row_assign_cong) auto
  show "frame_ok W vars levels slots V (d, l) = frame_ok W vars levels' slots V (d, l)"
    using assms(2) b d by (simp add: frame_ok_def)
  show "frame_pending levels slots V (d, l) = frame_pending levels' slots V (d, l)"
    using b r by (auto simp: frame_pending_def rows_pending_def cand_assign_def)
  show "frame_measure levels u (d, l) = frame_measure levels' u (d, l)" using b by (simp add: frame_measure_def)
qed

lemma frames_cong:
  assumes "\<And>v. v \<in> frame_vars fs \<Longrightarrow> levels ! v = levels' ! v"
  shows "frames_ok W vars levels slots fs = frames_ok W vars levels' slots fs"
    "frames_pending levels slots fs = frames_pending levels' slots fs"
    "frames_measure levels n fs = frames_measure levels' n fs"
  using assms
proof (induction fs)
  case (Cons f fs)
  obtain d l where f: "f = (d, l)" by force
  {
    case 1
    then show ?case using Cons.IH(1) frame_cong(1) [of "frame_vars fs" levels levels' l W vars slots d] f by simp
  next
    case 2
    then show ?case using Cons.IH(2) frame_cong(2) [of "frame_vars fs" levels levels' l slots d] f by simp
  next
    case 3
    then show ?case using Cons.IH(3) frame_cong(3) [of "frame_vars fs" levels levels' l "n - length fs" d] f by simp
  }
qed simp_all

section \<open>The state of the search\<close>

definition query_frames :: "query \<Rightarrow> (depth \<times> level) list" where
  "query_frames q = rev (zip (q_depths q) (q_stack q))"

definition query_levels :: "query \<Rightarrow> level_values list" where
  "query_levels q = bs_levels (q_bindings q)"

definition query_top :: "query \<Rightarrow> depth" where
  "query_top q = q_depths q ! q_depth q"

definition mode_ok :: "nat \<Rightarrow> nat set \<Rightarrow> query \<Rightarrow> bool" where
  "mode_ok W vars q \<longleftrightarrow> (let V = frame_vars (query_frames q); d = query_top q; B = vs_elems (bs_bound (q_bindings q)) in
     (q_mode q \<noteq> Done \<longrightarrow> q_depth q < length (q_depths q)) \<and>
     (case q_mode q of
        Plan \<Rightarrow> length (q_stack q) = q_depth q \<and> B = V \<and> dp_plan d = Unplanned \<and> 0 < dp_rows d \<and> dp_rows d \<le> W
          \<and> depth_ok (query_levels q) (q_slots q) V d
      | NextGroup \<Rightarrow> length (q_stack q) = q_depth q \<and> B = V \<and> planned (vars - V) d \<and> dp_rows d \<le> W
          \<and> (depth_ok (query_levels q) (q_slots q) V d \<or> dp_group_limit d \<le> dp_group d)
      | NextChunk \<Rightarrow> length (q_stack q) = q_depth q + 1 \<and> frame_vars (tl (query_frames q)) \<subseteq> B \<and> B \<subseteq> V
      | Emit \<Rightarrow> length (q_stack q) = q_depth q \<and> B = V \<and> V = vars \<and> dp_plan d = Unplanned \<and> dp_rows d \<le> W
          \<and> depth_ok (query_levels q) (q_slots q) V d
      | Done \<Rightarrow> q_stack q = []))"

definition mode_pending :: "query \<Rightarrow> assignment list" where
  "mode_pending q = (let V = frame_vars (query_frames q); d = query_top q in
     case q_mode q of
       Plan \<Rightarrow> map (row_assign (query_levels q) (dp_block d) (q_slots q) V) [0..<dp_rows d]
     | NextGroup \<Rightarrow> rows_pending (query_levels q) (q_slots q) V d
     | Emit \<Rightarrow> map (row_assign (query_levels q) (dp_block d) (q_slots q) V) [dp_emit d..<dp_rows d]
     | _ \<Rightarrow> [])"

definition pending :: "query \<Rightarrow> assignment list" where
  "pending q = mode_pending q @ frames_pending (query_levels q) (q_slots q) (query_frames q)"

definition mode_measure :: "nat \<Rightarrow> query \<Rightarrow> nat multiset" where
  "mode_measure n q = (let u = n - length (q_stack q); d = query_top q in
     case q_mode q of
       Plan \<Rightarrow> {#4 * u + 3#}
     | NextGroup \<Rightarrow> frontier_measure u d
     | Emit \<Rightarrow> replicate_mset (dp_rows d - dp_emit d) 1 + {#0#}
     | _ \<Rightarrow> {#})"

definition search_measure :: "nat \<Rightarrow> query \<Rightarrow> nat multiset" where
  "search_measure n q = mode_measure n q + frames_measure (query_levels q) n (query_frames q)"

definition search_inv :: "nat \<Rightarrow> nat set \<Rightarrow> (assignment \<Rightarrow> bool) \<Rightarrow> query \<Rightarrow> bool" where
  "search_inv W vars good q \<longleftrightarrow> length (query_levels q) = 128 \<and> length (q_influences q) = 128 \<and> q_width q = W
     \<and> vars \<subseteq> {..<q_slots q} \<and> q_slots q \<le> 128
     \<and> frames_ok W vars (query_levels q) (q_slots q) (query_frames q)
     \<and> vs_elems (q_unbound q) = vars - frame_vars (query_frames q)
     \<and> mode_ok W vars q \<and> (\<forall>\<sigma> \<in> set (pending q). good \<sigma>)"

text \<open>The number of pending assignments a total assignment extends.\<close>

definition extended :: "assignment \<Rightarrow> assignment list \<Rightarrow> nat" where
  "extended \<tau> \<sigma>s = length (filter (\<lambda>\<sigma>. \<sigma> \<subseteq>\<^sub>m \<tau>) \<sigma>s)"

lemma extended_simps [simp]:
  "extended \<tau> [] = 0" "extended \<tau> (xs @ ys) = extended \<tau> xs + extended \<tau> ys"
  "extended \<tau> (\<sigma> # xs) = (if \<sigma> \<subseteq>\<^sub>m \<tau> then 1 else 0) + extended \<tau> xs"
  by (simp_all add: extended_def)

lemma extended_mset: "mset xs = mset ys \<Longrightarrow> extended \<tau> xs = extended \<tau> ys"
  unfolding extended_def by (metis mset_filter size_mset)

end
