(* ===== verification/Engine_Steps.thy ===== *)
theory Engine_Steps
  imports Engine_Invariant
begin

text \<open>
  Every step of the search keeps the invariant, decreases the measure, and conserves what is left to
  do: a total assignment that is a solution extends exactly one of the pending assignments before the
  step if and only if it extends exactly one of them, or is the row emitted, after it.
\<close>

section \<open>The setting\<close>

text \<open>
  A constraint that can propose all its variables, a frontier width, and a projection that does not
  panic. \<open>region\<close> is the bound under which \<open>index as u32\<close> is the index: a region of candidates for at
  most \<open>W\<close> rows has at most \<open>2 ^ 32\<close> entries.
\<close>

locale search_run = proposing +
  fixes W :: nat and post :: "binding \<Rightarrow> 'r option option" and proj :: "assignment \<Rightarrow> 'r option"
  assumes width: "0 < W" "W < 2 ^ 32"
    and region: "fr_wf f \<Longrightarrow> fr_len f \<le> W \<Longrightarrow> v < 128 \<Longrightarrow> v \<notin> vs_elems (fr_bound f) \<Longrightarrow>
      c_propose c v f pb_new = Some pb \<Longrightarrow> pb_len pb \<le> 2 ^ 32"
    and project: "bd_wf bd \<Longrightarrow> vs_elems (bd_bound bd) = vs_elems (c_variables c) \<Longrightarrow> post bd = Some (proj (bd_map bd))"

definition solution :: "constraint \<Rightarrow> (assignment \<Rightarrow> bool) \<Rightarrow> assignment \<Rightarrow> bool" where
  "solution c good \<tau> \<longleftrightarrow> dom \<tau> = vs_elems (c_variables c) \<and> good \<tau>"

text \<open>What a step owes.\<close>

definition step_ok :: "constraint \<Rightarrow> (assignment \<Rightarrow> bool) \<Rightarrow> nat \<Rightarrow> query \<Rightarrow> assignment list \<Rightarrow> query \<Rightarrow> bool" where
  "step_ok c good W q out q' \<longleftrightarrow> search_inv W (vs_elems (c_variables c)) good q' \<and>
     search_measure (card (vs_elems (c_variables c))) q' < search_measure (card (vs_elems (c_variables c))) q \<and>
     (\<forall>\<sigma> \<in> set out. solution c good \<sigma>) \<and>
     (\<forall>\<tau>. solution c good \<tau> \<longrightarrow> extended \<tau> out + extended \<tau> (pending q') = extended \<tau> (pending q))"

section \<open>Auxiliary facts\<close>

lemma zip_update_beyond: "length ys \<le> i \<Longrightarrow> zip (xs[i := x]) ys = zip xs ys"
  by (simp add: list_eq_iff_nth_eq)

lemma zip_snoc_at: "length ys < length xs \<Longrightarrow> zip xs (ys @ [y]) = zip xs ys @ [(xs ! length ys, y)]"
  by (simp add: list_eq_iff_nth_eq nth_append less_Suc_eq)

lemma measure_replace:
  "(\<And>x. x \<in># K \<Longrightarrow> x < y) \<Longrightarrow> K + R < add_mset y R" for K R :: "nat multiset"
proof -
  assume "\<And>x. x \<in># K \<Longrightarrow> x < y"
  then have "K < {#y#}" by (intro ex_gt_imp_less_multiset) auto
  then have "K + R < {#y#} + R" by (rule add_strict_right_mono)
  then show ?thesis by simp
qed

lemma measure_drop: "R < K + R" if "K \<noteq> {#}" for K R :: "nat multiset"
  using that add_strict_right_mono [of "{#}" K R] by simp

lemma length_query_frames:
  "length (q_stack q) \<le> length (q_depths q) \<Longrightarrow> length (query_frames q) = length (q_stack q)"
  by (simp add: query_frames_def)

section \<open>Planning\<close>

context search_run
begin

abbreviation (input) vars :: "nat set" where "vars \<equiv> vs_elems (c_variables c)"

lemma finite_vars [simp]: "finite vars" by simp

lemma vars_bound: "v \<in> vars \<Longrightarrow> v < 128" by (rule vs_elems_bound)

lemma frames_card:
  assumes "frames_ok W vars levels slots fs"
  shows "frame_vars fs \<subseteq> vars" "length fs = card (frame_vars fs)" "length fs \<le> card vars"
  using frames_ok_vars [OF assms] card_mono [of vars "frame_vars fs"] by auto

lemma emit_mode:
  assumes inv: "search_inv W vars good q" and m: "q_mode q = Plan" and e: "vs_is_empty (q_unbound q)"
  shows "\<exists>q'. query_plan q = Some q' \<and> step_ok c good W q [] q'"
proof -
  define d where "d = query_top q"
  define q' where "q' = q\<lparr>q_depths := (q_depths q)[q_depth q := d\<lparr>dp_emit := 0\<rparr>], q_mode := Emit\<rparr>"
  note I = inv [unfolded search_inv_def mode_ok_def Let_def m, simplified]
  have D: "q_depth q < length (q_depths q)" "length (q_stack q) = q_depth q" using I by auto
  have plan: "query_plan q = Some q'" using D e by (simp add: query_plan_def q'_def d_def query_top_def)
  have fr: "query_frames q' = query_frames q" using D by (simp add: query_frames_def q'_def zip_update_beyond)
  have lv: "query_levels q' = query_levels q" by (simp add: query_levels_def q'_def)
  have top: "query_top q' = d\<lparr>dp_emit := 0\<rparr>" using D by (simp add: query_top_def q'_def)
  have sel: "q_mode q' = Emit" "q_slots q' = q_slots q" "q_stack q' = q_stack q" by (simp_all add: q'_def)
  have "frame_vars (query_frames q) \<subseteq> vars" using frames_card(1) I by blast
  then have V: "frame_vars (query_frames q) = vars" using I e by auto
  have pend: "pending q' = pending q"
    using m by (simp add: pending_def mode_pending_def Let_def fr lv top sel d_def)
  have ok: "depth_ok (query_levels q) (q_slots q) vars (d\<lparr>dp_emit := 0\<rparr>)"
    using I V by (simp add: depth_ok_def d_def)
  have inv': "search_inv W vars good q'"
    unfolding search_inv_def mode_ok_def Let_def fr lv top pend using I V ok D by (simp add: q'_def d_def)
  have "search_measure (card vars) q' < search_measure (card vars) q"
    unfolding search_measure_def fr lv mode_measure_def Let_def top m
    by (simp add: sel)
  then show ?thesis using plan inv' pend by (auto simp: step_ok_def)
qed

lemma group_mode:
  assumes inv: "search_inv W vars good q" and m: "q_mode q = Plan" and e: "\<not> vs_is_empty (q_unbound q)"
  shows "\<exists>q'. query_plan q = Some q' \<and> step_ok c good W q [] q'"
proof -
  define d where "d = query_top q"
  let ?V = "frame_vars (query_frames q)" and ?slots = "q_slots q"
  note I = inv [unfolded search_inv_def mode_ok_def Let_def m, simplified]
  have D: "q_depth q < length (q_depths q)" "length (q_stack q) = q_depth q" using I by auto
  have at: "idx (q_depths q) (q_depth q) = Some d" using D by (simp add: d_def query_top_def)
  have rows: "0 < dp_rows d" "dp_rows d \<le> W" "dp_rows d * ?slots \<le> length (dp_estimates d)"
    using I by (auto simp: d_def depth_ok_def)
  have unb: "vs_elems (q_unbound q) = vars - ?V" using I by simp
  define pref where "pref = preferred (q_influences q) (dp_estimates d) ?slots (q_unbound q)"
  have "\<exists>v. v \<in> vars - ?V \<and> pref r = Some v" if "r < dp_rows d" for r
    using preferred_eq [of "q_unbound q" ?slots "q_influences q" r "dp_estimates d"] e I unb row_bound [OF that rows(3)]
    by (auto simp: pref_def)
  then obtain ch where ch: "\<And>r. r < dp_rows d \<Longrightarrow> ch r \<in> vars - ?V \<and> pref r = Some (ch r)" by metis
  define choice where "choice = map ch [0..<dp_rows d]"
  have choice: "length choice = dp_rows d" "set choice \<subseteq> vars - ?V" "set choice \<subseteq> {..<?slots}"
    "\<And>r. r < dp_rows d \<Longrightarrow> pref r = Some (choice ! r)"
    using ch I by (auto simp: choice_def)
  obtain p where p: "depth_plan_of pref (dp_rows d) ?slots = Some p" "partitions choice ?slots p"
    using depth_plan_of_partitions [OF choice(1) rows(1) _ _ choice(3,4)] rows(2) width I by (meson le_trans less_imp_le)
  define d' where "d' = d\<lparr>dp_plan := p, dp_group := 0, dp_group_limit := plan_group_count p\<rparr>"
  define st where "st = q_stats q"
  define q' where "q' = q\<lparr>q_depths := (q_depths q)[q_depth q := d'],
      q_stats := st\<lparr>st_expansions := st_expansions st + 1, st_rows := st_rows st + word_of_nat (dp_rows d),
                   st_widest := max (st_widest st) (word_of_nat (dp_rows d)),
                   st_variable_groups := st_variable_groups st + word_of_nat (plan_group_count p)\<rparr>,
      q_mode := NextGroup\<rparr>"
  have "u32_try_from (dp_rows d - 1) = Some (word_of_nat (dp_rows d - 1))"
    using rows width by (simp add: u32_try_from_def)
  then have plan: "query_plan q = Some q'"
    using at e rows(1) p(1) by (simp add: query_plan_def q'_def d'_def st_def pref_def Let_def)
  have planned: "planned (vars - ?V) d'"
    using p(2) choice rows(2) width by (intro partitions_planned [where choice = choice and slots = ?slots]) (auto simp: d'_def)
  have fr: "query_frames q' = query_frames q" using D by (simp add: query_frames_def q'_def zip_update_beyond)
  have lv: "query_levels q' = query_levels q" by (simp add: query_levels_def q'_def)
  have top: "query_top q' = d'" using D by (simp add: query_top_def q'_def)
  have sel: "q_mode q' = NextGroup" "q_slots q' = ?slots" "q_stack q' = q_stack q" by (simp_all add: q'_def)
  have perm: "mset (concat (map snd (plan_of d'))) = mset [0..<dp_rows d]" using planned by (simp add: planned_def d'_def)
  have "mset (rows_pending (query_levels q) ?slots ?V d') =
      mset (map (row_assign (query_levels q) (dp_block d) ?slots ?V) [0..<dp_rows d])"
    unfolding rows_pending_def mset_map using perm by (simp add: d'_def)
  then have pend: "mset (pending q') = mset (pending q)"
    using m by (simp add: pending_def mode_pending_def Let_def fr lv top sel d_def)
  have ok: "depth_ok (query_levels q) ?slots ?V d'" using I by (simp add: depth_ok_def d_def d'_def)
  have "\<forall>\<sigma> \<in> set (pending q'). good \<sigma>" using I mset_eq_setD [OF pend] by simp
  then have inv': "search_inv W vars good q'"
    unfolding search_inv_def mode_ok_def Let_def fr lv top
    using I planned ok D rows(2) by (simp add: q'_def) (simp add: d'_def)
  have "search_measure (card vars) q' < search_measure (card vars) q"
    unfolding search_measure_def fr lv mode_measure_def Let_def top m
    by (simp add: sel) (auto simp: frontier_measure_def split: if_splits)
  then show ?thesis using plan inv' extended_mset [OF pend] by (auto simp: step_ok_def)
qed

lemma plan_step:
  assumes "search_inv W vars good q" "q_mode q = Plan"
  shows "\<exists>q'. query_plan q = Some q' \<and> step_ok c good W q [] q'"
  using emit_mode [OF assms] group_mode [OF assms] by blast

end

end
