(* ===== verification/Engine_Group.thy ===== *)
theory Engine_Group
  imports Engine_Steps
begin

text \<open>
  The steps \<open>NextGroup\<close>, which expands a group of rows into a level of candidates or retires the
  frontier, and \<open>Emit\<close>.
\<close>

section \<open>Counting the expansions of a group\<close>

lemma length_distinct_image:
  assumes "distinct (map f xs)" "f ` set xs = A"
  shows "length xs = card A"
  using assms by (metis distinct_card length_map set_map)

lemma extended_map: "extended \<tau> (map f xs) = length (filter (\<lambda>x. f x \<subseteq>\<^sub>m \<tau>) xs)"
  by (simp add: extended_def filter_map comp_def)

lemma map_le_upd: "\<sigma> v = None \<Longrightarrow> \<sigma>(v \<mapsto> x) \<subseteq>\<^sub>m \<tau> \<longleftrightarrow> \<sigma> \<subseteq>\<^sub>m \<tau> \<and> \<tau> v = Some x"
  by (auto simp: map_le_def dom_def split: if_splits)

context lawful
begin

text \<open>
  A solution that extends the row's assignment extends exactly one of the row's candidates: the one
  that binds the variable to the solution's value.
\<close>

lemma candidates_extended:
  assumes spec: "propose_spec good v f complete rows" and len: "fr_len f < 2 ^ 32"
    and complete: "\<And>p. p < fr_len f \<Longrightarrow> complete p"
    and free: "\<And>p. p < fr_len f \<Longrightarrow> fr_assign f p v = None" and \<tau>: "good \<tau>" "\<tau> v = Some x"
  shows "extended \<tau> (map (\<lambda>r. (fr_assign f (unat (row_tag r)))(v \<mapsto> row_value r)) (filter row_live rows)) =
    extended \<tau> (map (fr_assign f) [0..<fr_len f])"
proof -
  let ?n = "fr_len f"
  define A where "A = {p. p < ?n \<and> fr_assign f p \<subseteq>\<^sub>m \<tau>}"
  define ext where "ext r \<longleftrightarrow> (fr_assign f (unat (row_tag r)))(v \<mapsto> row_value r) \<subseteq>\<^sub>m \<tau>" for r :: candidate_row
  define xs where "xs = filter (\<lambda>r. row_live r \<and> ext r) rows"
  have tag: "unat (row_tag r) < ?n" if "r \<in> set rows" for r using spec that by (simp add: propose_spec_def)
  have ext: "ext r \<longleftrightarrow> fr_assign f (unat (row_tag r)) \<subseteq>\<^sub>m \<tau> \<and> row_value r = x" if "r \<in> set rows" for r
    using map_le_upd [of "fr_assign f (unat (row_tag r))" v "row_value r" \<tau>] free [OF tag [OF that]] \<tau>(2) by (auto simp: ext_def)
  have "inj_on (\<lambda>r. (row_tag r, row_value r)) (set (filter row_live rows))"
    and dist: "distinct (filter row_live rows)"
    using spec by (auto simp: propose_spec_def distinct_map)
  then have "inj_on (\<lambda>r. unat (row_tag r)) (set xs)"
    using ext by (auto simp: inj_on_def xs_def word_unat_eq_iff)
  moreover have "distinct xs"
    using distinct_filter [OF dist, of ext] unfolding xs_def filter_filter by (simp add: conj_commute)
  ultimately have "distinct (map (\<lambda>r. unat (row_tag r)) xs)" by (simp add: distinct_map)
  moreover have "(\<lambda>r. unat (row_tag r)) ` set xs = A"
  proof (intro equalityI subsetI)
    fix p assume "p \<in> A"
    then have p: "p < ?n" "fr_assign f p \<subseteq>\<^sub>m \<tau>" by (auto simp: A_def)
    then have "(fr_assign f p)(v \<mapsto> x) \<subseteq>\<^sub>m \<tau>" using map_le_upd [of "fr_assign f p" v x \<tau>] free [OF p(1)] \<tau>(2) by auto
    then have "good ((fr_assign f p)(v \<mapsto> x))" using good_antimono \<tau>(1) by blast
    then have r: "(word_of_nat p, x, True) \<in> set rows" using spec complete p(1) by (auto simp: propose_spec_def)
    have u: "unat (word_of_nat p :: u32) = p" using p(1) len by (rule tag_of_row)
    then have "(word_of_nat p, x, True) \<in> set xs" using r p ext [OF r] by (simp add: xs_def)
    then show "p \<in> (\<lambda>r. unat (row_tag r)) ` set xs" using u by force
  next
    fix p assume "p \<in> (\<lambda>r. unat (row_tag r)) ` set xs"
    then show "p \<in> A" using tag ext by (auto simp: A_def xs_def)
  qed
  ultimately have "length xs = card A" by (rule length_distinct_image)
  moreover have "length (filter (\<lambda>p. fr_assign f p \<subseteq>\<^sub>m \<tau>) [0..<?n]) = card A"
    by (rule length_distinct_image [of "\<lambda>p. p"]) (auto simp: A_def)
  moreover have "extended \<tau> (map (\<lambda>r. (fr_assign f (unat (row_tag r)))(v \<mapsto> row_value r)) (filter row_live rows)) = length xs"
    by (simp add: extended_map xs_def ext_def conj_commute)
  ultimately show ?thesis by (simp add: extended_map)
qed

end

section \<open>Retiring a frontier\<close>

context search_run
begin

lemma retire_step:
  assumes inv: "search_inv W vars good q" and m: "q_mode q = NextGroup \<or> q_mode q = Emit"
    and none: "mode_pending q = []"
  shows "step_ok c good W q [] (retire_frontier q)"
proof -
  define q' where "q' = retire_frontier q"
  note I = inv [unfolded search_inv_def mode_ok_def Let_def]
  have D: "q_depth q < length (q_depths q)" "length (q_stack q) = q_depth q"
    "vs_elems (bs_bound (q_bindings q)) = frame_vars (query_frames q)" using I m by auto
  have fr: "query_frames q' = query_frames q" "query_levels q' = query_levels q" "q_slots q' = q_slots q"
    by (simp_all add: query_frames_def query_levels_def q'_def retire_frontier_def)
  have mode: "q_mode q' = Done \<and> q_stack q = [] \<or> q_mode q' = NextChunk \<and> q_depth q = Suc (q_depth q')"
    using D by (cases "q_depth q") (auto simp: q'_def retire_frontier_def)
  have pend: "pending q' = pending q"
    using mode none by (auto simp: pending_def mode_pending_def fr Let_def)
  have sub: "frame_vars (tl fs) \<subseteq> frame_vars fs" for fs by (cases fs) (auto simp: frame_vars_def)
  have same: "q_influences q' = q_influences q" "q_width q' = q_width q" "q_unbound q' = q_unbound q"
    "q_stack q' = q_stack q" "q_depths q' = q_depths q" "q_bindings q' = q_bindings q"
    by (simp_all add: q'_def retire_frontier_def)
  have "mode_ok W vars q'"
    using mode D sub by (auto simp: mode_ok_def Let_def fr same)
  then have inv': "search_inv W vars good q'"
    using I by (simp add: search_inv_def fr same pend)
  have "mode_measure (card vars) q' = {#}" using mode by (auto simp: mode_measure_def)
  moreover have "mode_measure (card vars) q \<noteq> {#}" using m by (auto simp: mode_measure_def frontier_measure_def Let_def)
  ultimately have "search_measure (card vars) q' < search_measure (card vars) q"
    unfolding search_measure_def fr using measure_drop by simp
  then show ?thesis using inv' pend by (simp add: step_ok_def flip: q'_def)
qed

section \<open>Expanding a group\<close>

lemma pb_rows_live: "pb_wf b \<Longrightarrow> filter row_live (pb_rows b) = map ((!) (pb_rows b)) (live_from b 0)"
proof -
  have "filter row_live (map ((!) (pb_rows b)) [0..<pb_len b]) = map ((!) (pb_rows b)) (filter (row_live \<circ> (!) (pb_rows b)) [0..<pb_len b])"
    by (simp add: filter_map)
  moreover have "map ((!) (pb_rows b)) [0..<pb_len b] = pb_rows b" by (metis length_pb_rows map_nth)
  moreover have "filter (row_live \<circ> (!) (pb_rows b)) [0..<pb_len b] = live_from b 0"
    unfolding live_from_def by (rule filter_cong) auto
  ultimately show ?thesis by simp
qed

text \<open>The proposal for the rows of a group: \<open>refill\<close> on a planned frontier.\<close>

lemma refill_group:
  assumes d: "planned (vars - V) d" "dp_group d < dp_group_limit d" "dp_rows d \<le> W" "depth_ok (bs_levels s) slots V d"
    and s: "length (bs_levels s) = 128" "vs_elems (bs_bound s) = V" "V \<subseteq> {..<slots}"
  obtains v start e select sel b where
    "dp_group_range d (dp_group d) = Some (v, start, e)" "dp_selection d = Some select"
    "rs_slice select start e = Some sel" "plan_of d ! dp_group d = (v, map unat (rs_list sel))" "v \<in> vars - V"
    "bs_refill s v (dp_block d) sel slots (c_propose c v) =
       Some (s\<lparr>bs_levels := (bs_levels s)[v := \<lparr>lv_buffer = Some b, lv_pos = 0\<rparr>]\<rparr>, pb_len b)"
    "pb_wf b" "pb_len b \<le> 2 ^ 32" "\<And>k. k < pb_len b \<Longrightarrow> unat (pb_parents b ! k) < rs_len sel"
    "\<And>k. k \<in> set (live_from b 0) \<Longrightarrow> good (row_assign (bs_levels s) (dp_block d) slots V (unat (rs_list sel ! unat (pb_parents b ! k)))) \<Longrightarrow>
       good ((row_assign (bs_levels s) (dp_block d) slots V (unat (rs_list sel ! unat (pb_parents b ! k))))(v \<mapsto> pb_entries b ! k))"
    "\<And>\<tau>. solution c good \<tau> \<Longrightarrow>
       extended \<tau> (map (\<lambda>k. (row_assign (bs_levels s) (dp_block d) slots V (unat (rs_list sel ! unat (pb_parents b ! k))))(v \<mapsto> pb_entries b ! k)) (live_from b 0)) =
       extended \<tau> (map (row_assign (bs_levels s) (dp_block d) slots V) (map unat (rs_list sel)))"
proof -
  obtain v start e select sel where g: "dp_group_range d (dp_group d) = Some (v, start, e)" "dp_selection d = Some select"
    "rs_slice select start e = Some sel" "rs_wf sel" "plan_of d ! dp_group d = (v, map unat (rs_list sel))" "v \<in> vars - V"
    using planned_group [OF d(1,2)] by metis
  have v: "v < 128" "v \<in> vars" "v \<notin> V" using g(6) vars_bound by auto
  define s1 where "s1 = s\<lparr>bs_levels := (bs_levels s)[v := lv_empty]\<rparr>"
  define f where "f = bs_batch s1 (dp_block d) sel slots"
  have in_rows: "unat (rs_list sel ! i) < dp_rows d" if "i < rs_len sel" for i
    using planned_row [OF d(1) _ d(2), of "unat (rs_list sel ! i)"] g(5) that by simp
  have assign: "row_assign (bs_levels s1) (dp_block d) slots V r = row_assign (bs_levels s) (dp_block d) slots V r"
    and ok: "row_ok (bs_levels s1) (dp_block d) slots V r = row_ok (bs_levels s) (dp_block d) slots V r" for r
    using v(3) by (auto simp: s1_def intro!: row_assign_cong row_ok_cong) (metis nth_list_update_neq)+
  have b1: "vs_elems (bs_bound s1) = V" "length (bs_levels s1) = 128" using s by (simp_all add: s1_def)
  have F: "fr_wf f" "fr_len f = rs_len sel" "fr_bound f = bs_bound s1"
    "\<And>i. i < rs_len sel \<Longrightarrow> fr_assign f i = row_assign (bs_levels s) (dp_block d) slots V (unat (rs_list sel ! i))"
  proof -
    have len: "(unat (rs_list sel ! i) + 1) * slots \<le> length (dp_block d)" if "i < rs_len sel" for i
      using row_bound [OF in_rows [OF that]] d(4) by (simp add: depth_ok_def)
    have rok: "row_ok (bs_levels s1) (dp_block d) slots (vs_elems (bs_bound s1)) (unat (rs_list sel ! i))" if "i < rs_len sel" for i
      using in_rows [OF that] d(4) unfolding b1 ok by (simp add: depth_ok_def)
    have sub: "vs_elems (bs_bound s1) \<subseteq> {..<slots}" using b1 s(3) by simp
    show "fr_wf f" unfolding f_def by (rule batch_frontier(1) [OF g(4) b1(2) sub]) (rule len rok, assumption)+
    show "fr_len f = rs_len sel" "fr_bound f = bs_bound s1" by (simp_all add: f_def bs_batch_def fr_len_def)
    show "fr_assign f i = row_assign (bs_levels s) (dp_block d) slots V (unat (rs_list sel ! i))" if "i < rs_len sel" for i
    proof -
      have "fr_assign f i = row_assign (bs_levels s1) (dp_block d) slots (vs_elems (bs_bound s1)) (unat (rs_list sel ! i))"
        unfolding f_def by (rule batch_frontier(4) [OF g(4) b1(2) sub]) ((rule len rok, assumption)+, rule that)
      then show ?thesis unfolding b1 assign .
    qed
  qed
  have "length (snd (plan_of d ! dp_group d)) \<le> dp_rows d" using planned_group_size [OF d(1,2)] .
  then have fl: "fr_len f \<le> W" "fr_len f < 2 ^ 32" using F(2) g(5) d(3) width by auto
  have unb: "v \<notin> vs_elems (fr_bound f)" using F(3) b1 v(3) by simp
  obtain b rows where b: "c_propose c v f pb_new = Some b" "pb_wf b" "pb_rows b = pb_rows pb_new @ rows"
    "propose_spec good v f (offers c v f) rows"
    using propose [OF F(1) fl(2) v(1) unb, of pb_new] by auto
  have rows: "rows = pb_rows b" using b(3) by simp
  have small: "pb_len b \<le> 2 ^ 32" using region [OF F(1) fl(1) v(1) unb b(1)] .
  have refill: "bs_refill s v (dp_block d) sel slots (c_propose c v) =
       Some (s\<lparr>bs_levels := (bs_levels s)[v := \<lparr>lv_buffer = Some b, lv_pos = 0\<rparr>]\<rparr>, pb_len b)"
    using s(1) v(1) b(1) by (simp add: bs_refill_def Let_def f_def s1_def)
  have tags: "unat (pb_parents b ! k) < rs_len sel" if "k < pb_len b" for k
  proof -
    have "pb_rows b ! k \<in> set (pb_rows b)" using that by (metis length_pb_rows nth_mem)
    then have "unat (row_tag (pb_rows b ! k)) < fr_len f" using b(4) unfolding rows propose_spec_def by blast
    then show ?thesis using that F(2) by simp
  qed
  let ?cand = "\<lambda>k. (row_assign (bs_levels s) (dp_block d) slots V (unat (rs_list sel ! unat (pb_parents b ! k))))(v \<mapsto> pb_entries b ! k)"
  have cand: "(fr_assign f (unat (row_tag (pb_rows b ! k))))(v \<mapsto> row_value (pb_rows b ! k)) = ?cand k" if "k < pb_len b" for k
    using that F(4) [OF tags [OF that]] by simp
  have sound: "good (?cand k)" if "k \<in> set (live_from b 0)"
    "good (row_assign (bs_levels s) (dp_block d) slots V (unat (rs_list sel ! unat (pb_parents b ! k))))" for k
  proof -
    have k: "k < pb_len b" "wbit (pb_live b) k" using live_from_bound [OF that(1)] by auto
    then have "pb_rows b ! k \<in> set (pb_rows b)" "row_live (pb_rows b ! k)" by (metis length_pb_rows nth_mem, simp)
    then have "good (fr_assign f (unat (row_tag (pb_rows b ! k)))) \<longrightarrow>
        good ((fr_assign f (unat (row_tag (pb_rows b ! k))))(v \<mapsto> row_value (pb_rows b ! k)))"
      using b(4) unfolding rows propose_spec_def by blast
    then show ?thesis using cand [OF k(1)] that(2) F(4) [OF tags [OF k(1)]] k(1) by simp
  qed
  have count: "extended \<tau> (map ?cand (live_from b 0)) = extended \<tau> (map (row_assign (bs_levels s) (dp_block d) slots V) (map unat (rs_list sel)))"
    if \<tau>: "solution c good \<tau>" for \<tau>
  proof -
    obtain x where x: "\<tau> v = Some x" using \<tau> v(2) by (auto simp: solution_def)
    have "extended \<tau> (map (\<lambda>r. (fr_assign f (unat (row_tag r)))(v \<mapsto> row_value r)) (filter row_live (pb_rows b))) =
        extended \<tau> (map (fr_assign f) [0..<fr_len f])"
      using b(4) offers_all [OF F(1) _ v(2) unb] fr_assign_unbound [OF F(1) _ unb] \<tau> x fl(2)
      unfolding rows by (intro candidates_extended [where complete = "offers c v f"]) (auto simp: solution_def)
    moreover have "map (\<lambda>r. (fr_assign f (unat (row_tag r)))(v \<mapsto> row_value r)) (filter row_live (pb_rows b)) = map ?cand (live_from b 0)"
      unfolding pb_rows_live [OF b(2)] map_map using cand live_from_bound by (intro map_cong) auto
    moreover have "map (fr_assign f) [0..<fr_len f] = map (row_assign (bs_levels s) (dp_block d) slots V) (map unat (rs_list sel))"
      using F(2,4) by (intro nth_equalityI) auto
    ultimately show ?thesis by simp
  qed
  show thesis using that [OF g(1,2,3,5,6) refill b(2) small tags sound count] .
qed

lemma group_step:
  assumes inv: "search_inv W vars good q" and m: "q_mode q = NextGroup"
  shows "\<exists>q'. query_next_group c q = Some q' \<and> step_ok c good W q [] q'"
proof -
  define d where "d = query_top q"
  define V where "V = frame_vars (query_frames q)"
  let ?fs = "query_frames q" and ?slots = "q_slots q" and ?levels = "bs_levels (q_bindings q)"
  have ql: "query_levels q = ?levels" by (simp add: query_levels_def)
  note I = inv [unfolded search_inv_def mode_ok_def Let_def m ql, simplified]
  have D: "q_depth q < length (q_depths q)" "length (q_stack q) = q_depth q" "vs_elems (bs_bound (q_bindings q)) = V"
    "planned (vars - V) d" "dp_rows d \<le> W" "depth_ok ?levels ?slots V d \<or> dp_group_limit d \<le> dp_group d"
    using I by (auto simp: d_def V_def)
  have at: "idx (q_depths q) (q_depth q) = Some d" using D by (simp add: d_def query_top_def)
  show ?thesis
  proof (cases "dp_group_limit d \<le> dp_group d")
    case True
    then have "mode_pending q = []" using D(4) m by (simp add: mode_pending_def rows_pending_def Let_def planned_def flip: d_def)
    then show ?thesis using retire_step [OF inv] m at True by (simp add: query_next_group_def)
  next
    case False
    then have gl: "dp_group d < dp_group_limit d" and dok: "depth_ok ?levels ?slots V d" using D(6) by auto
    have V: "V \<subseteq> {..<?slots}" "card V = length ?fs" "V \<subseteq> vars"
      using frames_card [of ?levels ?slots ?fs] I by (auto simp: V_def)
    have len: "length ?levels = 128" using I by simp
    obtain v start e select sel b where r: "dp_group_range d (dp_group d) = Some (v, start, e)" "dp_selection d = Some select"
      "rs_slice select start e = Some sel" "plan_of d ! dp_group d = (v, map unat (rs_list sel))" "v \<in> vars - V"
      "bs_refill (q_bindings q) v (dp_block d) sel ?slots (c_propose c v) =
         Some ((q_bindings q)\<lparr>bs_levels := ?levels[v := \<lparr>lv_buffer = Some b, lv_pos = 0\<rparr>]\<rparr>, pb_len b)"
      "pb_wf b" "pb_len b \<le> 2 ^ 32" "\<And>k. k < pb_len b \<Longrightarrow> unat (pb_parents b ! k) < rs_len sel"
      "\<And>k. k \<in> set (live_from b 0) \<Longrightarrow> good (row_assign ?levels (dp_block d) ?slots V (unat (rs_list sel ! unat (pb_parents b ! k)))) \<Longrightarrow>
         good ((row_assign ?levels (dp_block d) ?slots V (unat (rs_list sel ! unat (pb_parents b ! k))))(v \<mapsto> pb_entries b ! k))"
      "\<And>\<tau>. solution c good \<tau> \<Longrightarrow>
         extended \<tau> (map (\<lambda>k. (row_assign ?levels (dp_block d) ?slots V (unat (rs_list sel ! unat (pb_parents b ! k))))(v \<mapsto> pb_entries b ! k)) (live_from b 0)) =
         extended \<tau> (map (row_assign ?levels (dp_block d) ?slots V) (map unat (rs_list sel)))"
    proof -
      show thesis by (rule refill_group [OF D(4) gl D(5) dok len D(3) V(1)]) (fact that)
    qed
    have v: "v < 128" "v \<in> vars" "v \<notin> V" using r(5) vars_bound by auto
    define l where "l = \<lparr>lvl_variable = v, lvl_width = min initial_frontier_width (q_width q), lvl_proposed = pb_len b\<rparr>"
    define d' where "d' = d\<lparr>dp_group := dp_group d + 1\<rparr>"
    define levels' where "levels' = ?levels[v := \<lparr>lv_buffer = Some b, lv_pos = 0\<rparr>]"
    define st where "st = q_stats q"
    define q' where "q' = q\<lparr>q_depths := (q_depths q)[q_depth q := d'], q_unbound := vs_unset (q_unbound q) v,
        q_bindings := (q_bindings q)\<lparr>bs_levels := levels'\<rparr>, q_stack := q_stack q @ [l],
        q_stats := st\<lparr>st_proposals := st_proposals st + word_of_nat (pb_len b),
                     st_peak_region := max (st_peak_region st) (word_of_nat (pb_len b))\<rparr>,
        q_mode := NextChunk\<rparr>"
    have "card (insert v V) \<le> card {..<128 :: nat}" using v V(3) vars_bound by (intro card_mono) auto
    then have "length (q_stack q) < 128"
      using v(3) V D length_query_frames [of q] finite_subset [OF V(3)] by simp
    then have next_q: "query_next_group c q = Some q'"
      using at gl r(1-3,6) by (simp add: query_next_group_def q'_def d'_def l_def levels'_def st_def Let_def)
    have fr: "query_frames q' = (d', l) # ?fs"
      using D by (simp add: query_frames_def q'_def zip_snoc_at zip_update_beyond)
    have sel: "query_levels q' = levels'" "q_mode q' = NextChunk" "q_slots q' = ?slots" "q_depth q' = q_depth q"
      by (simp_all add: query_levels_def q'_def)
    have lv: "levels' ! w = ?levels ! w" if "w \<noteq> v" for w using that by (simp add: levels'_def)
    have lvv: "levels' ! v = \<lparr>lv_buffer = Some b, lv_pos = 0\<rparr>" using v len by (simp add: levels'_def)
    have low: "\<And>w. w \<in> frame_vars ?fs \<Longrightarrow> levels' ! w = ?levels ! w" using lv v(3) unfolding V_def by metis
    have lower: "frames_ok W vars levels' ?slots ?fs = frames_ok W vars ?levels ?slots ?fs"
      "frames_pending levels' ?slots ?fs = frames_pending ?levels ?slots ?fs"
      "frames_measure levels' n ?fs = frames_measure ?levels n ?fs" for n
      using frames_cong [of ?fs levels' ?levels] low by blast+
    have buf: "level_buffer levels' l = b" "level_live levels' l = live_from b 0"
      by (simp_all add: level_buffer_def level_live_def l_def lvv)
    have plan: "plan_of d' = plan_of d" "level_rows d' = map unat (rs_list sel)"
      using r(4) by (simp_all add: plan_of_def d'_def level_rows_def)
    have assign: "row_assign levels' (dp_block d) ?slots V r = row_assign ?levels (dp_block d) ?slots V r" for r
      using low by (intro row_assign_cong) (auto simp: V_def)
    have planned': "planned (vars - V) d'" using D(4) by (simp add: planned_def plan) (simp add: d'_def)
    have dok': "depth_ok levels' ?slots V d'"
    proof -
      have "depth_ok levels' ?slots V d" using dok depth_ok_cong [of V levels' ?levels ?slots d] low by (simp add: V_def)
      then show ?thesis by (simp add: depth_ok_def d'_def)
    qed
    have fok: "frame_ok W vars levels' ?slots V (d', l)"
      using planned' dok' D(5) gl r(4,7-9) buf plan width lvv I
      by (simp add: frame_ok_def) (simp add: d'_def l_def initial_frontier_width_def)
    define cand where "cand k = (row_assign ?levels (dp_block d) ?slots V (unat (rs_list sel ! unat (pb_parents b ! k))))(v \<mapsto> pb_entries b ! k)" for k
    have cands: "map (cand_assign levels' ?slots V d' l) (level_live levels' l) = map cand (live_from b 0)"
    proof -
      have "cand_assign levels' ?slots V d' l k = cand k" if "k \<in> set (live_from b 0)" for k
        using r(9) [of k] live_from_bound [OF that] assign by (simp add: cand_assign_def buf plan cand_def) (simp add: d'_def l_def)
      then show ?thesis unfolding buf by (intro map_cong) auto
    qed
    define rest where "rest = map (row_assign ?levels (dp_block d) ?slots V) (concat (map snd (drop (Suc (dp_group d)) (plan_of d))))"
    have "drop (dp_group d) (plan_of d) = (v, map unat (rs_list sel)) # drop (Suc (dp_group d)) (plan_of d)"
      using gl D(4) r(4) Cons_nth_drop_Suc [of "dp_group d" "plan_of d"] by (simp add: planned_def)
    then have old: "pending q = (map (row_assign ?levels (dp_block d) ?slots V) (map unat (rs_list sel)) @ rest) @ frames_pending ?levels ?slots ?fs"
      using m by (simp add: pending_def mode_pending_def rows_pending_def rest_def Let_def ql flip: d_def V_def)
    have new: "pending q' = (rest @ map cand (live_from b 0)) @ frames_pending ?levels ?slots ?fs"
    proof -
      have "rows_pending levels' ?slots V d' = rest"
        using assign by (simp add: rows_pending_def plan rest_def) (simp add: d'_def)
      then show ?thesis
        using cands lower(2)
        by (simp add: pending_def mode_pending_def sel fr frame_pending_def Let_def flip: V_def)
    qed
    have "good (cand k)" if "k \<in> set (live_from b 0)" for k
    proof -
      have k: "unat (pb_parents b ! k) < rs_len sel" using r(9) live_from_bound [OF that] by blast
      then have "rs_list sel ! unat (pb_parents b ! k) \<in> set (rs_list sel)" by simp
      then have "row_assign ?levels (dp_block d) ?slots V (unat (rs_list sel ! unat (pb_parents b ! k))) \<in> set (pending q)"
        unfolding old by simp
      then show ?thesis using r(10) [OF that] I unfolding cand_def by blast
    qed
    then have good': "\<forall>\<sigma> \<in> set (pending q'). good \<sigma>" using I unfolding old new by auto
    have unb: "vs_elems (vs_unset (q_unbound q) v) = vars - insert v V" using I v(1) by (auto simp: V_def)
    have same: "q_influences q' = q_influences q" "q_width q' = q_width q" "q_unbound q' = vs_unset (q_unbound q) v"
      "length (q_stack q') = Suc (length (q_stack q))" "length (q_depths q') = length (q_depths q)"
      "bs_bound (q_bindings q') = bs_bound (q_bindings q)" "length levels' = 128"
      using len by (simp_all add: q'_def levels'_def)
    have "mode_ok W vars q'"
      using D by (auto simp: mode_ok_def Let_def fr sel same V_def)
    then have inv': "search_inv W vars good q'"
      using I fok good' unb lower(1)
      by (simp add: search_inv_def fr sel same flip: V_def) (simp add: l_def)
    have "search_measure (card vars) q' < search_measure (card vars) q"
    proof -
      define u where "u = card vars - length (q_stack q)"
      obtain j where j: "dp_group_limit d - dp_group d = Suc j" "dp_group_limit d - Suc (dp_group d) = j"
        using gl by (metis Suc_diff_Suc)
      have "frontier_measure u d = add_mset (4 * u + 2) (replicate_mset j (4 * u + 2) + {#4 * u + 1#})"
        "frontier_measure u d' = replicate_mset j (4 * u + 2) + {#4 * u + 1#}"
        using j by (simp_all add: frontier_measure_def d'_def)
      moreover have "length ?fs = length (q_stack q)" using D length_query_frames [of q] by simp
      ultimately show ?thesis
        using m lower(3)
        by (simp add: search_measure_def mode_measure_def sel fr frame_measure_def buf Let_def ql flip: d_def u_def)
    qed
    then have "step_ok c good W q [] q'" unfolding step_ok_def old new cand_def using inv' r(11) by auto
    then show ?thesis using next_q by blast
  qed
qed

section \<open>Emitting\<close>

lemma emit_row:
  assumes inv: "search_inv W vars good q" and m: "q_mode q = Emit"
  defines "d \<equiv> query_top q"
  shows "\<exists>f. query_frontier q = Some f \<and> fr_len f = dp_rows d \<and>
    (\<forall>r < dp_rows d. \<exists>bd. fr_row f r = Some bd \<and> bd_wf bd \<and> vs_elems (bd_bound bd) = vars
      \<and> bd_map bd = row_assign (query_levels q) (dp_block d) (q_slots q) vars r)"
proof -
  note I = inv [unfolded search_inv_def mode_ok_def Let_def m, simplified]
  have rows: "dp_rows d \<le> 2 ^ 32" using I width by (simp add: d_def)
  have V: "vs_elems (bs_bound (q_bindings q)) = vars" and dok: "depth_ok (query_levels q) (q_slots q) vars d"
    using I by (auto simp: d_def)
  define sel where "sel = Consecutive 0 (dp_rows d)"
  have sel: "rs_identity (dp_rows d) = Some sel" "rs_wf sel" "rs_len sel = dp_rows d"
    using rs_identity_eq [OF rows] rows by (simp_all add: sel_def)
  have dsel: "dp_selection d = Some sel" using I sel(1) by (simp add: dp_selection_def plan_selection_def d_def)
  define f where "f = bs_batch (q_bindings q) (dp_block d) sel (q_slots q)"
  have f: "query_frontier q = Some f"
    using I dsel by (simp add: query_frontier_def f_def d_def query_top_def)
  have u: "unat (rs_list sel ! r) = r" if "r < dp_rows d" for r
    using that rows rs_list_unat [of 0 "dp_rows d" r] by (simp add: sel_def)
  have "\<exists>bd. fr_row f r = Some bd \<and> bd_wf bd \<and> bd_bound bd = bs_bound (q_bindings q)
      \<and> bd_map bd = row_assign (bs_levels (q_bindings q)) (dp_block d) (q_slots q) (vs_elems (bs_bound (q_bindings q))) (unat (rs_list sel ! r))"
    if r: "r < dp_rows d" for r
    unfolding f_def
  proof (rule batch_row)
    show "(unat (rs_list sel ! r) + 1) * q_slots q \<le> length (dp_block d)"
      using row_bound [OF r] I u [OF r] by (simp add: depth_ok_def d_def)
    show "row_ok (bs_levels (q_bindings q)) (dp_block d) (q_slots q) (vs_elems (bs_bound (q_bindings q))) (unat (rs_list sel ! r))"
      using dok V u [OF r] r by (simp add: depth_ok_def query_levels_def)
  qed (use sel r I in \<open>simp_all add: query_levels_def\<close>)
  then show ?thesis using f sel(3) u I by (fastforce simp: f_def bs_batch_def fr_len_def query_levels_def)
qed

lemma emit_step:
  assumes inv: "search_inv W vars good q" and m: "q_mode q = Emit"
  shows "\<exists>out q'. emit_turn (\<lambda>_. Some (Inr True)) post q =
      Some (case List.map_filter proj out of [] \<Rightarrow> Continue | r # _ \<Rightarrow> Return (Inr (Some r)), q')
    \<and> length out \<le> 1 \<and> step_ok c good W q out q'"
proof -
  define d where "d = query_top q"
  note I = inv [unfolded search_inv_def mode_ok_def Let_def m, simplified]
  have D: "q_depth q < length (q_depths q)" "length (q_stack q) = q_depth q" "frame_vars (query_frames q) = vars" using I by auto
  have at: "idx (q_depths q) (q_depth q) = Some d" using D by (simp add: d_def query_top_def)
  obtain f where f: "query_frontier q = Some f" "fr_len f = dp_rows d"
    "\<And>r. r < dp_rows d \<Longrightarrow> \<exists>bd. fr_row f r = Some bd \<and> bd_wf bd \<and> vs_elems (bd_bound bd) = vars
      \<and> bd_map bd = row_assign (query_levels q) (dp_block d) (q_slots q) vars r"
    using emit_row [OF inv m] by (auto simp: d_def)
  have pend: "mode_pending q = map (row_assign (query_levels q) (dp_block d) (q_slots q) vars) [dp_emit d..<dp_rows d]"
    using m D(3) by (simp add: mode_pending_def Let_def d_def)
  show ?thesis
  proof (cases "dp_emit d < dp_rows d")
    case False
    then have "mode_pending q = []" using pend by simp
    then have "step_ok c good W q [] (retire_frontier q)" using retire_step [OF inv] m by blast
    moreover have "emit_turn (\<lambda>_. Some (Inr True)) post q = Some (Continue, retire_frontier q)"
      using at f False by (simp add: emit_turn_def)
    ultimately show ?thesis by (intro exI [of _ "[]"] exI [of _ "retire_frontier q"]) (simp add: List.map_filter_simps)
  next
    case True
    define \<sigma> where "\<sigma> = row_assign (query_levels q) (dp_block d) (q_slots q) vars (dp_emit d)"
    obtain bd where bd: "fr_row f (dp_emit d) = Some bd" "bd_wf bd" "vs_elems (bd_bound bd) = vars" "bd_map bd = \<sigma>"
      using f(3) [OF True] by (auto simp: \<sigma>_def)
    define d' where "d' = d\<lparr>dp_emit := dp_emit d + 1\<rparr>"
    define q' where "q' = q\<lparr>q_depths := (q_depths q)[q_depth q := d']\<rparr>"
    have turn: "emit_turn (\<lambda>_. Some (Inr True)) post q =
        Some (case List.map_filter proj [\<sigma>] of [] \<Rightarrow> Continue | r # _ \<Rightarrow> Return (Inr (Some r)), q')"
      using at f True bd project [OF bd(2,3)]
      by (auto simp: emit_turn_def Let_def q'_def d'_def List.map_filter_simps split: option.splits)
    have fr: "query_frames q' = query_frames q" "query_levels q' = query_levels q" "q_slots q' = q_slots q" "q_mode q' = Emit"
      "query_top q' = d'" "q_stack q' = q_stack q"
      using D m by (simp_all add: query_frames_def query_levels_def q'_def zip_update_beyond query_top_def)
    have pend': "mode_pending q = \<sigma> # mode_pending q'"
      using pend True D(3) by (simp add: mode_pending_def Let_def fr \<sigma>_def d'_def upt_conv_Cons)
    then have all: "pending q = \<sigma> # pending q'" by (simp add: pending_def fr)
    have "depth_ok (query_levels q) (q_slots q) vars d" using I by (auto simp: d_def)
    then have "depth_ok (query_levels q) (q_slots q) vars d'" by (simp add: depth_ok_def d'_def)
    then have "mode_ok W vars q'"
      using I by (simp add: mode_ok_def Let_def fr) (simp add: q'_def d'_def d_def)
    then have inv': "search_inv W vars good q'"
      using I all by (simp add: search_inv_def fr) (simp add: q'_def)
    have "search_measure (card vars) q' < search_measure (card vars) q"
    proof -
      obtain j where "dp_rows d - dp_emit d = Suc j" "dp_rows d - Suc (dp_emit d) = j" using True by (metis Suc_diff_Suc)
      then show ?thesis using m by (simp add: search_measure_def mode_measure_def Let_def fr d'_def flip: d_def)
    qed
    moreover have "solution c good \<sigma>" using I all by (simp add: solution_def \<sigma>_def)
    ultimately have "step_ok c good W q [\<sigma>] q'" using inv' all by (simp add: step_ok_def)
    then show ?thesis using turn by (intro exI [of _ "[\<sigma>]"]) auto
  qed
qed

end

end
