(* ===== verification/Engine_Chunk.thy ===== *)
theory Engine_Chunk
  imports Engine_Group
begin

text \<open>
  The step \<open>NextChunk\<close>: it draws the next candidates of the top level into a child frontier, in place
  when every row of the parent has exactly one child and nothing else of the parent is pending, or
  pops the level when no live candidate is left.
\<close>

section \<open>Drawing a chunk\<close>

text \<open>The store after a draw: the level's cursor moved, the variable bound when something was drawn.\<close>

definition drawn_store :: "binding_store \<Rightarrow> nat \<Rightarrow> nat \<Rightarrow> bool \<Rightarrow> binding_store" where
  "drawn_store s v pos any = s\<lparr>bs_levels := (bs_levels s)[v := (bs_levels s ! v)\<lparr>lv_pos := pos\<rparr>],
     bs_bound := vs_set_value (bs_bound s) v any\<rparr>"

lemma drawn_store_sel [simp]:
  "bs_levels (drawn_store s v pos any) = (bs_levels s)[v := (bs_levels s ! v)\<lparr>lv_pos := pos\<rparr>]"
  "bs_bound (drawn_store s v pos any) = vs_set_value (bs_bound s) v any"
  by (simp_all add: drawn_store_def)

lemma draw_chunk_eq:
  assumes v: "v < length (bs_levels s)" "lv_buffer (bs_levels s ! v) = Some b" "v < slots" and l: "lvl_variable l = v"
    and q: "q_bindings q = s" "q_slots q = slots"
    and b: "pb_wf b" "rs_wf sel" "\<And>k. k < pb_len b \<Longrightarrow> unat (pb_parents b ! k) < rs_len sel"
    and rows: "\<And>k. k \<in> set (live_from b (lv_pos (bs_levels s ! v))) \<Longrightarrow>
      (unat (parent_row b sel k) + 1) * slots \<le> length (dp_block d)"
  defines "ks \<equiv> take (lvl_width l) (live_from b (lv_pos (bs_levels s ! v)))"
  obtains pos where
    "draw_chunk q d l sel speculate = Some (drawn_store s v pos (ks \<noteq> []), length ks,
       if speculate then map word_of_nat ks else [], map (parent_row b sel) ks,
       if speculate then [] else concat (map (\<lambda>k. child_row (dp_block d) slots v (word_of_nat k) (parent_row b sel k)) ks))"
    "live_from b pos = drop (lvl_width l) (live_from b (lv_pos (bs_levels s ! v)))"
proof (cases speculate)
  case True
  obtain pos where "draw_loop (lvl_width l) b sel (lv_pos (bs_levels s ! v), [], []) =
      Some (pos, [] @ map word_of_nat ks, [] @ map (parent_row b sel) ks)"
    "live_from b pos = drop (lvl_width l) (live_from b (lv_pos (bs_levels s ! v)))"
    using draw_loop_eq [OF b, of "lvl_width l" "lv_pos (bs_levels s ! v)" "[]" "[]"] unfolding ks_def by blast
  then show thesis using True v l q
    by (intro that [of pos]) (simp_all add: draw_chunk_def bs_draw_def drawn_store_def)
next
  case False
  obtain pos where "take_chunk_loop (lvl_width l) b v (dp_block d) sel slots (lv_pos (bs_levels s ! v), [], []) =
      Some (pos, [] @ concat (map (\<lambda>k. child_row (dp_block d) slots v (word_of_nat k) (parent_row b sel k)) ks),
        [] @ map (parent_row b sel) ks)"
    "live_from b pos = drop (lvl_width l) (live_from b (lv_pos (bs_levels s ! v)))"
    using take_chunk_loop_eq [OF b rows v(3), where n = "lvl_width l" and out = "[]" and parents = "[]"] unfolding ks_def by blast
  then show thesis using False v l q
    by (intro that [of pos]) (simp_all add: draw_chunk_def bs_take_chunk_def drawn_store_def Let_def)
qed

lemma zip_prefix:
  "length ys \<le> length xs \<Longrightarrow> length ys \<le> length xs' \<Longrightarrow> (\<And>i. i < length ys \<Longrightarrow> xs' ! i = xs ! i) \<Longrightarrow> zip xs' ys = zip xs ys"
  by (simp add: list_eq_iff_nth_eq)

text \<open>The depth a descent enters.\<close>

definition child_depth :: "u32 list \<Rightarrow> nat \<Rightarrow> nat list \<Rightarrow> depth" where
  "child_depth block rows estimates = \<lparr>dp_block = block, dp_rows = rows, dp_estimates = estimates, dp_plan = Unplanned,
     dp_group = 0, dp_group_limit = 0, dp_emit = 0\<rparr>"

lemma child_depth_sel [simp]:
  "dp_block (child_depth block rows es) = block" "dp_rows (child_depth block rows es) = rows"
  "dp_estimates (child_depth block rows es) = es" "dp_plan (child_depth block rows es) = Unplanned"
  by (simp_all add: child_depth_def)

section \<open>The top frame\<close>

context search_run
begin

text \<open>What the invariant says of a state in mode \<open>NextChunk\<close>, with the top frame taken apart.\<close>

lemma chunk_state:
  assumes inv: "search_inv W vars good q" and m: "q_mode q = NextChunk"
  obtains d l fs stack v start e select sel b where
    "query_frames q = (d, l) # fs" "q_stack q = stack @ [l]" "length stack = q_depth q" "q_depth q < length (q_depths q)"
    "q_depths q ! q_depth q = d" "fs = rev (zip (q_depths q) stack)" "lvl_variable l = v" "v \<in> vars - frame_vars fs"
    "dp_group_range d (dp_group d - 1) = Some (v, start, e)" "dp_selection d = Some select" "rs_slice select start e = Some sel"
    "rs_wf sel" "rs_len sel = e - start" "level_rows d = map unat (rs_list sel)" "level_buffer (query_levels q) l = b"
    "frame_ok W vars (query_levels q) (q_slots q) (frame_vars fs) (d, l)" "frames_ok W vars (query_levels q) (q_slots q) fs"
proof -
  note I = inv [unfolded search_inv_def mode_ok_def Let_def m, simplified]
  have D: "q_depth q < length (q_depths q)" "length (q_stack q) = Suc (q_depth q)" using I by auto
  then obtain stack l where st: "q_stack q = stack @ [l]" by (metis length_0_conv nat.distinct(1) rev_exhaust)
  have len: "length stack = q_depth q" using D st by simp
  define d where "d = q_depths q ! q_depth q"
  define fs where "fs = rev (zip (q_depths q) stack)"
  have fr: "query_frames q = (d, l) # fs" using st len D by (simp add: query_frames_def zip_snoc_at fs_def d_def)
  have fok: "frame_ok W vars (query_levels q) (q_slots q) (frame_vars fs) (d, l)" "frames_ok W vars (query_levels q) (q_slots q) fs"
    using I fr by simp_all
  have p: "planned (vars - frame_vars fs) d" "dp_group d - 1 < dp_group_limit d" "fst (plan_of d ! (dp_group d - 1)) = lvl_variable l"
    using fok(1) by (auto simp: frame_ok_def)
  obtain v start e select sel where g: "dp_group_range d (dp_group d - 1) = Some (v, start, e)" "dp_selection d = Some select"
    "rs_slice select start e = Some sel" "rs_wf sel" "rs_len sel = e - start"
    "plan_of d ! (dp_group d - 1) = (v, map unat (rs_list sel))" "v \<in> vars - frame_vars fs"
    using planned_group [OF p(1,2)] by metis
  have "lvl_variable l = v" "level_rows d = map unat (rs_list sel)" using p(3) g(6) by (simp_all add: level_rows_def)
  with g fr st len D(1) d_def fs_def fok show thesis by (intro that) auto
qed

text \<open>Levels after a draw: only the cursor of the variable's level differs.\<close>

lemma drawn_levels:
  fixes pos :: nat
  assumes "v < length levels"
  defines "levels' \<equiv> levels[v := (levels ! v)\<lparr>lv_pos := pos\<rparr>]"
  shows "w \<noteq> v \<Longrightarrow> levels' ! w = levels ! w" "lv_buffer (levels' ! w) = lv_buffer (levels ! w)" "lv_pos (levels' ! v) = pos"
    "level_buffer levels' l = level_buffer levels l"
    "row_assign levels' block slots V r = row_assign levels block slots V r"
    "depth_ok levels' slots V d = depth_ok levels slots V d"
proof -
  show lb: "lv_buffer (levels' ! w) = lv_buffer (levels ! w)" for w
    using assms(1) by (cases "w = v") (auto simp: levels'_def)
  show "w \<noteq> v \<Longrightarrow> levels' ! w = levels ! w" "lv_pos (levels' ! v) = pos" using assms(1) by (simp_all add: levels'_def)
  show "level_buffer levels' l = level_buffer levels l" by (simp add: level_buffer_def lb)
  show "row_assign levels' block slots V r = row_assign levels block slots V r" by (rule row_assign_cong) (simp_all add: lb)
  show "depth_ok levels' slots V d = depth_ok levels slots V d" by (rule depth_ok_cong) (rule lb)
qed

lemma chunk_empty:
  assumes inv: "search_inv W vars good q" and m: "q_mode q = NextChunk"
    and none: "level_live (query_levels q) (last (q_stack q)) = []"
  shows "\<exists>q'. query_next_chunk c q = Some q' \<and> step_ok c good W q [] q'"
proof -
  obtain d l fs stack v start e select sel b where
    s: "query_frames q = (d, l) # fs" "q_stack q = stack @ [l]" "length stack = q_depth q" "q_depth q < length (q_depths q)"
    "q_depths q ! q_depth q = d" "fs = rev (zip (q_depths q) stack)" "lvl_variable l = v" "v \<in> vars - frame_vars fs" and
    g: "dp_group_range d (dp_group d - 1) = Some (v, start, e)" "dp_selection d = Some select" "rs_slice select start e = Some sel"
    "rs_wf sel" "rs_len sel = e - start" "level_rows d = map unat (rs_list sel)" and b: "level_buffer (query_levels q) l = b" and
    f: "frame_ok W vars (query_levels q) (q_slots q) (frame_vars fs) (d, l)" "frames_ok W vars (query_levels q) (q_slots q) fs"
    by (rule chunk_state [OF inv m])
  let ?levels = "bs_levels (q_bindings q)" and ?slots = "q_slots q" and ?V = "frame_vars fs" and ?p = "q_depth q"
  have ql: "query_levels q = ?levels" by (simp add: query_levels_def)
  note I = inv [unfolded search_inv_def mode_ok_def Let_def m ql s(1), simplified]
  have v: "v < 128" "v < ?slots" "v \<in> vars" "v \<notin> ?V" and len: "length ?levels = 128" using s(8) vars_bound I by auto
  have lb: "lv_buffer (?levels ! v) = Some b" "pb_wf b" "\<And>k. k < pb_len b \<Longrightarrow> unat (pb_parents b ! k) < rs_len sel"
    using f(1) s(7) g(6) b by (auto simp: frame_ok_def ql)
  have live: "live_from b (lv_pos (?levels ! v)) = []" using none s(2,7) b by (simp add: level_live_def ql)
  define spec where "spec \<longleftrightarrow> lvl_proposed l = e - start \<and> lvl_width l \<ge> e - start \<and> dp_group d \<ge> dp_group_limit d"
  have vl: "v < length ?levels" using len v(1) by simp
  obtain pos where draw: "draw_chunk q d l sel spec = Some (drawn_store (q_bindings q) v pos False, 0, [], [], [])"
    "live_from b pos = []"
    by (rule draw_chunk_eq [OF vl lb(1) v(2) s(7) refl refl lb(2) g(4) lb(3), where d = d and speculate = spec]) (simp_all add: live)
  define depths where "depths = ensure_child (q_depths q) ?p"
  have dl: "?p + 1 < length depths" "\<And>i. i \<le> ?p \<Longrightarrow> depths ! i = q_depths q ! i" using s(4) by (auto simp: depths_def ensure_child_def nth_append)
  define ds where "ds = (if spec then depths else depths[?p + 1 := (depths ! (?p + 1))\<lparr>dp_block := []\<rparr>])"
  have ds: "?p < length ds" "\<And>i. i \<le> ?p \<Longrightarrow> ds ! i = q_depths q ! i" using dl by (auto simp: ds_def)
  define q' where "q' = q\<lparr>q_depths := ds, q_bindings := bs_unset (drawn_store (q_bindings q) v pos False) v, q_stack := stack,
      q_unbound := vs_set (q_unbound q) v, q_mode := NextGroup\<rparr>"
  have "bs_consumed (drawn_store (q_bindings q) v pos False) v = Some pos" using len v(1) by (simp add: bs_consumed_def)
  then have next_q: "query_next_chunk c q = Some q'"
    using s g dl [unfolded depths_def] draw(1)
    by (simp add: query_next_chunk_def q'_def Let_def spec_def [symmetric] depths_def ds_def cong: if_cong split del: if_split)
  define levels' where "levels' = ?levels[v := (?levels ! v)\<lparr>lv_pos := pos\<rparr>]"
  note dr = drawn_levels [OF vl, where pos = pos, folded levels'_def]
  have fr: "query_frames q' = fs" using ds s(3,4,6) zip_prefix [of stack "q_depths q" ds] by (simp add: query_frames_def q'_def)
  have sel': "query_levels q' = levels'" "q_mode q' = NextGroup" "q_slots q' = ?slots" "q_depth q' = ?p" "q_stack q' = stack"
    "query_top q' = d" using ds s(5) by (simp_all add: query_levels_def q'_def levels'_def bs_unset_def query_top_def)
  have low: "levels' ! w = ?levels ! w" if "w \<in> ?V" for w using dr(1) v(4) that by metis
  have lower: "frames_ok W vars levels' ?slots fs = frames_ok W vars ?levels ?slots fs"
    "frames_pending levels' ?slots fs = frames_pending ?levels ?slots fs"
    "frames_measure levels' n fs = frames_measure ?levels n fs" for n
    using frames_cong [of fs levels' ?levels] low by blast+
  have "rows_pending levels' ?slots ?V d = rows_pending ?levels ?slots ?V d" by (simp add: rows_pending_def dr(5))
  then have pend: "pending q' = pending q"
    using m live s(1,7) b by (simp add: pending_def mode_pending_def Let_def fr sel' lower(2) frame_pending_def level_live_def ql)
  have B: "vs_elems (bs_bound (q_bindings q')) = ?V"
    using I s(7) v by (auto simp: q'_def bs_unset_def)
  have unb: "vs_elems (q_unbound q') = vars - ?V" using I s(7) v by (auto simp: q'_def)
  have "mode_ok W vars q'"
    using f(1) B s(3) ds(1) by (auto simp: mode_ok_def Let_def fr sel' frame_ok_def dr(6) ql) (simp_all add: q'_def)
  then have inv': "search_inv W vars good q'"
    using I f(2) len lower(1) unb pend by (simp add: search_inv_def fr sel' ql) (simp add: q'_def levels'_def)
  have "length fs = length stack" using s(3,4,6) by simp
  then have "search_measure (card vars) q' < search_measure (card vars) q"
    using m live s(1,7) b lower(3) by (simp add: search_measure_def mode_measure_def Let_def fr sel' frame_measure_def level_live_def ql)
  then have "step_ok c good W q [] q'" using inv' pend by (simp add: step_ok_def)
  then show ?thesis using next_q by blast
qed

section \<open>Descending\<close>

lemma child_matrices:
  assumes ks: "length ks \<le> 2 ^ 32" "v < slots"
    and d: "dp_rows d * slots \<le> length (dp_block d)" "dp_rows d * slots \<le> length (dp_estimates d)"
    and parents: "\<And>p. p \<in> set parents \<Longrightarrow> unat p < dp_rows d" "length parents = length ks"
    and inplace: "inplace \<Longrightarrow> length ks \<le> dp_rows d \<and> speculate \<and> (\<forall>(row, p) \<in> set (enumerate 0 parents). unat p = row)"
  shows "\<exists>block'. (if inplace then write_inplace (dp_block d) slots v (map word_of_nat ks)
      else if speculate then write_rows (dp_block d) slots v (map word_of_nat ks) parents
      else Some (concat (map (\<lambda>(k, p). child_row (dp_block d) slots v (word_of_nat k) p) (zip ks parents)))) = Some block'
    \<and> child_block (dp_block d) slots v (map word_of_nat ks) parents block'"
    and "\<exists>es. (if inplace then Some (dp_estimates d) else inherit_estimates (dp_estimates d) slots parents) = Some es
    \<and> length ks * slots \<le> length es"
proof -
  have pb: "(unat p + 1) * slots \<le> length (dp_block d)" "(unat p + 1) * slots \<le> length (dp_estimates d)" if "p \<in> set parents" for p
    using row_bound [OF parents(1) [OF that]] d by auto
  have ids: "parents = map word_of_nat [0..<length ks]" and lk: "length ks * slots \<le> dp_rows d * slots" if inplace
  proof -
    have "unat (parents ! j) = j" if "j < length parents" for j
    proof -
      have "(j, parents ! j) \<in> set (enumerate 0 parents)" using that by (auto simp: in_set_enumerate_eq)
      then show ?thesis using inplace \<open>inplace\<close> by auto
    qed
    then have "parents ! j = word_of_nat j" if "j < length parents" for j
      using that parents(2) ks(1) by (simp add: word_unat_eq_iff unat_u32_of_nat)
    then show "parents = map word_of_nat [0..<length ks]" using parents(2) by (intro nth_equalityI) auto
    show "length ks * slots \<le> dp_rows d * slots" using inplace that by simp
  qed
  have copy: "child_block (dp_block d) slots v (map word_of_nat ks) parents
      (concat (map (\<lambda>(e, p). child_row (dp_block d) slots v e p) (zip (map word_of_nat ks) parents)))"
    using pb(1) parents(2) by (intro child_block_copy) auto
  have zips: "map (\<lambda>(k, p). child_row (dp_block d) slots v (word_of_nat k) p) (zip ks parents) =
      map (\<lambda>(e, p). child_row (dp_block d) slots v e p) (zip (map word_of_nat ks) parents)"
    by (simp add: zip_map1 comp_def case_prod_beta)
  show "\<exists>block'. (if inplace then write_inplace (dp_block d) slots v (map word_of_nat ks)
      else if speculate then write_rows (dp_block d) slots v (map word_of_nat ks) parents
      else Some (concat (map (\<lambda>(k, p). child_row (dp_block d) slots v (word_of_nat k) p) (zip ks parents)))) = Some block'
    \<and> child_block (dp_block d) slots v (map word_of_nat ks) parents block'"
  proof (cases inplace)
    case True
    then have "length (map word_of_nat ks :: u32 list) * slots \<le> length (dp_block d)" using le_trans [OF lk d(1)] by simp
    then show ?thesis using True write_inplace_eq [of "map word_of_nat ks" slots "dp_block d" v] ks ids by simp
  next
    case False
    then show ?thesis using copy write_rows_eq [of parents slots "dp_block d" v "map word_of_nat ks"] pb(1) ks(2) parents(2) zips
      by auto
  qed
  show "\<exists>es. (if inplace then Some (dp_estimates d) else inherit_estimates (dp_estimates d) slots parents) = Some es
    \<and> length ks * slots \<le> length es"
    using inherit_estimates_eq [of parents slots "dp_estimates d"] pb(2) parents(2) le_trans [OF lk d(2)]
    by (cases inplace) auto
qed

text \<open>The descent succeeds, whichever way the child's matrices are built.\<close>

lemma descend_eq:
  assumes q: "length (q_influences q) = 128" "vs_elems (q_unbound q) = vars - insert v V" "vars \<subseteq> {..<q_slots q}"
    and at: "depths ! q_depth q = d" "q_depth q + 1 < length depths"
    and s: "length (bs_levels s) = 128" "vs_elems (bs_bound s) = insert v V" "V \<subseteq> vars" "v \<in> vars - V"
    and d: "depth_ok (bs_levels s) (q_slots q) V d"
    and b: "lv_buffer (bs_levels s ! v) = Some b" "pb_wf b" "pb_len b \<le> 2 ^ 32"
    and ks: "\<And>k. k \<in> set ks \<Longrightarrow> k < pb_len b" "length ks \<le> 2 ^ 32" "source_rows \<le> dp_rows d"
    and parents: "\<And>p. p \<in> set parents \<Longrightarrow> unat p < dp_rows d" "length parents = length ks"
    and block: "\<not> speculate \<Longrightarrow>
      block = concat (map (\<lambda>(k, p). child_row (dp_block d) (q_slots q) v (word_of_nat k) p) (zip ks parents))"
    and limit: "speculate \<Longrightarrow> dp_group_limit d \<le> dp_group d"
  shows "\<exists>block' es st d'. descend c q depths stack s v source_rows speculate (length ks)
        (if speculate then map word_of_nat ks else []) parents block =
      Some (q\<lparr>q_depths := depths[q_depth q := d', q_depth q + 1 := child_depth block' (length ks) es],
             q_bindings := s, q_stack := stack, q_depth := q_depth q + 1, q_stats := st, q_mode := Plan\<rparr>)
    \<and> child_block (dp_block d) (q_slots q) v (map word_of_nat ks) parents block' \<and> length ks * q_slots q \<le> length es
    \<and> (d' = d \<or> dp_group_limit d \<le> dp_group d \<and> live_from b (lv_pos (bs_levels s ! v)) = []
        \<and> (\<exists>bl es. d' = d\<lparr>dp_block := bl, dp_estimates := es\<rparr>))"
proof -
  let ?slots = "q_slots q"
  have v: "v < 128" "v < ?slots" "v \<notin> V" using s(4) q(3) vars_bound by auto
  define cond where "cond \<longleftrightarrow> speculate \<and> length ks = source_rows \<and> (\<forall>(row, p) \<in> set (enumerate 0 parents). unat p = row)"
  define spent where "spent \<longleftrightarrow> cond \<and> live_from b (lv_pos (bs_levels s ! v)) = []"
  have sp: "(if cond then bs_spent s v else Some False) = Some spent"
    using next_live_live_from(1) [OF b(2), of "lv_pos (bs_levels s ! v)"] v(1) s(1) b(1)
    by (auto simp: spent_def bs_spent_def lv_published_def split: list.splits)
  define inplace where "inplace \<longleftrightarrow> spent \<and> q_unique q"
  have db: "dp_rows d * ?slots \<le> length (dp_block d)" "dp_rows d * ?slots \<le> length (dp_estimates d)"
    "\<And>r. r < dp_rows d \<Longrightarrow> row_ok (bs_levels s) (dp_block d) ?slots V r" using d by (auto simp: depth_ok_def)
  have ip: "inplace \<Longrightarrow> length ks \<le> dp_rows d \<and> speculate \<and> (\<forall>(row, p) \<in> set (enumerate 0 parents). unat p = row)"
    using ks(3) by (simp add: inplace_def spent_def cond_def)
  obtain block' where bl: "(if inplace then write_inplace (dp_block d) ?slots v (if speculate then map word_of_nat ks else [])
      else if speculate then write_rows (dp_block d) ?slots v (if speculate then map word_of_nat ks else []) parents
      else Some block) = Some block'"
    and cb: "child_block (dp_block d) ?slots v (map word_of_nat ks) parents block'"
    using child_matrices(1) [where inplace = inplace and speculate = speculate, OF ks(2) v(2) db(1,2) parents ip] block ip
    by (cases speculate; cases inplace) auto
  obtain es where es: "(if inplace then Some (dp_estimates d) else inherit_estimates (dp_estimates d) ?slots parents) = Some es"
    "length ks * ?slots \<le> length es"
    using child_matrices(2) [where inplace = inplace and speculate = speculate, OF ks(2) v(2) db(1,2) parents ip] by blast
  define stale where "stale = vs_intersect (q_influences q ! v) (q_unbound q)"
  have row: "\<exists>bd. fr_row (bs_batch s block' sel ?slots) j = Some bd \<and> bd_wf bd \<and> bd_bound bd = bs_bound s"
    if sel: "rs_identity (length ks) = Some sel" and j: "j < length ks" for sel j
  proof -
    have sel': "sel = Consecutive 0 (length ks)" "rs_wf sel" using sel rs_identity_eq [OF ks(2)] ks(2) by auto
    have u: "unat (rs_list sel ! j) = j" using rs_list_unat [of 0 "length ks" j] ks(2) j by (simp add: sel'(1))
    have "row_ok (bs_levels s) block' ?slots (insert v V) j"
    proof (rule child_row_assign(2) [OF cb _ v(3) _ v(2)])
      show "unat (map word_of_nat ks ! j :: u32) < pb_len b"
      proof -
        have "ks ! j < pb_len b" using ks(1) j by simp
        then show ?thesis using b(3) j by (simp add: unat_u32_of_nat)
      qed
      show "row_ok (bs_levels s) (dp_block d) ?slots V (unat (parents ! j))" using db(3) parents j by simp
    qed (use j s(3) q(3) b(1) in auto)
    then have rok: "row_ok (bs_levels s) block' ?slots (vs_elems (bs_bound s)) (unat (rs_list sel ! j))" using u s(2) by simp
    have "(unat (rs_list sel ! j) + 1) * ?slots \<le> length block'" using row_bound [OF j] cb u by (simp add: child_block_def)
    then show ?thesis using batch_row [OF sel'(2) _ s(1) _ _ rok] j s(2-4) q(3) sel'(1) by fastforce
  qed
  have "\<exists>bd e. fr_row (bs_batch s block' sel ?slots) j = Some bd \<and> c_estimate c w bd = Some (Some e)"
    if at: "rs_identity (length ks) = Some sel" "j < length ks" "w \<in> vs_elems stale" for sel j w
  proof -
    obtain bd where bd: "fr_row (bs_batch s block' sel ?slots) j = Some bd" "bd_wf bd" "bd_bound bd = bs_bound s"
      using row [OF at(1,2)] by blast
    have "w \<in> vars" "w \<notin> vs_elems (bd_bound bd)" using at(3) q(2) s(2) bd(3) by (auto simp: stale_def)
    then show ?thesis using estimate_some [OF bd(2)] bd(1) by blast
  qed
  then obtain es' where es': "refresh_estimates c s block' (length ks) ?slots stale es = Some es'" "length es' = length es"
    using refresh_estimates_eq [OF ks(2) es(2), of stale s block' c] q(2,3) by (fastforce simp: stale_def)
  define d' where "d' = (if inplace then d\<lparr>dp_block := dp_block (depths ! (q_depth q + 1)),
      dp_estimates := dp_estimates (depths ! (q_depth q + 1))\<rparr> else d)"
  define st where "st = (if inplace then (q_stats q)\<lparr>st_inplace_descents := st_inplace_descents (q_stats q) + 1\<rparr>
      else (q_stats q)\<lparr>st_copied_descents := st_copied_descents (q_stats q) + 1\<rparr>)"
  have "descend c q depths stack s v source_rows speculate (length ks) (if speculate then map word_of_nat ks else []) parents block =
      Some (q\<lparr>q_depths := depths[q_depth q := d', q_depth q + 1 := child_depth block' (length ks) es'],
             q_bindings := s, q_stack := stack, q_depth := q_depth q + 1, q_stats := st, q_mode := Plan\<rparr>)"
    unfolding descend_def cond_def [symmetric] sp Let_def
    using at bl es(1) es'(1) q(1) v(1) sp
    by (simp add: inplace_def [symmetric] stale_def [symmetric] d'_def st_def child_depth_def cong: if_cong split del: if_split)
  moreover have "d' = d \<or> dp_group_limit d \<le> dp_group d \<and> live_from b (lv_pos (bs_levels s ! v)) = []
      \<and> (\<exists>bl es. d' = d\<lparr>dp_block := bl, dp_estimates := es\<rparr>)"
    using ip limit by (auto simp: d'_def inplace_def spent_def)
  ultimately show ?thesis using cb es(2) es'(2) by metis
qed

text \<open>The frame after the draw keeps what was not drawn.\<close>

lemma drawn_frame:
  fixes pos w n :: nat
  assumes v: "v < length levels" "lvl_variable l = v" "level_buffer levels l = b"
    and ok: "frame_ok W vars levels slots V (d, l)" and w: "0 < w" "w \<le> W"
    and left: "live_from b pos = drop n (level_live levels l)"
    and d': "d' = d \<or> dp_group_limit d \<le> dp_group d \<and> live_from b pos = [] \<and> (\<exists>bl es. d' = d\<lparr>dp_block := bl, dp_estimates := es\<rparr>)"
  defines "levels' \<equiv> levels[v := (levels ! v)\<lparr>lv_pos := pos\<rparr>]" and "l' \<equiv> l\<lparr>lvl_width := w\<rparr>"
  shows "frame_ok W vars levels' slots V (d', l')"
    "mset (frame_pending levels slots V (d, l)) =
      mset (map (cand_assign levels slots V d l) (take n (level_live levels l))) + mset (frame_pending levels' slots V (d', l'))"
    "frame_measure levels u (d, l) = replicate_mset (length (take n (level_live levels l))) (4 * u) + frame_measure levels' u (d', l')"
proof -
  note dr = drawn_levels [OF v(1), where pos = pos, folded levels'_def]
  have lb: "level_buffer levels' l' = b" using dr(2) v(2,3) by (simp add: level_buffer_def l'_def)
  then have live: "level_live levels' l' = live_from b pos" using dr(3) v(2) by (simp add: level_live_def l'_def)
  have fields: "dp_plan d' = dp_plan d" "dp_rows d' = dp_rows d" "dp_group d' = dp_group d" "dp_group_limit d' = dp_group_limit d"
    using d' by auto
  then have po: "plan_of d' = plan_of d" by (simp add: plan_of_def)
  then have plan: "plan_of d' = plan_of d" "planned U d' = planned U d" "level_rows d' = level_rows d" for U
    using fields by (simp_all add: planned_def level_rows_def)
  note plan = plan fields
  have cut: "depth_ok levels slots V d \<or> dp_group_limit d \<le> dp_group d \<and> live_from b pos = []"
    using ok left by (auto simp: frame_ok_def)
  have "depth_ok levels' slots V d' \<or> dp_group_limit d \<le> dp_group d \<and> live_from b pos = []"
    using d' cut by (auto simp: dr(6))
  then show "frame_ok W vars levels' slots V (d', l')"
    using ok w plan v(2,3) dr(2) lb live by (simp add: frame_ok_def l'_def)
  have spent: "rows_pending lv slots V dd = []" if "dp_group_limit d \<le> dp_group d" "plan_of dd = plan_of d" "dp_group dd = dp_group d" for lv dd
    using that ok by (simp add: rows_pending_def frame_ok_def planned_def)
  have rp: "rows_pending levels' slots V d' = rows_pending levels slots V d"
    using d'
  proof
    assume "d' = d"
    then show ?thesis by (simp add: rows_pending_def dr(5))
  next
    assume "dp_group_limit d \<le> dp_group d \<and> live_from b pos = [] \<and> (\<exists>bl es. d' = d\<lparr>dp_block := bl, dp_estimates := es\<rparr>)"
    then show ?thesis using spent plan by simp
  qed
  have "map (cand_assign levels' slots V d' l') (live_from b pos) = map (cand_assign levels slots V d l) (live_from b pos)"
    using d' lb v(3) by (auto simp: cand_assign_def dr(5) l'_def)
  then have "mset (frame_pending levels' slots V (d', l')) =
      mset (rows_pending levels slots V d) + mset (map (cand_assign levels slots V d l) (drop n (level_live levels l)))"
    using rp live left by (simp add: frame_pending_def del: mset_map map_eq_conv)
  moreover have "mset (map (cand_assign levels slots V d l) (level_live levels l)) =
      mset (map (cand_assign levels slots V d l) (take n (level_live levels l)))
      + mset (map (cand_assign levels slots V d l) (drop n (level_live levels l)))"
    by (metis append_take_drop_id map_append mset_append)
  ultimately show "mset (frame_pending levels slots V (d, l)) =
      mset (map (cand_assign levels slots V d l) (take n (level_live levels l))) + mset (frame_pending levels' slots V (d', l'))"
    by (simp add: frame_pending_def)
  have "length (level_live levels l) = length (take n (level_live levels l)) + length (live_from b pos)"
    using left by (metis append_take_drop_id length_append)
  then show "frame_measure levels u (d, l) = replicate_mset (length (take n (level_live levels l))) (4 * u) + frame_measure levels' u (d', l')"
    using plan live by (simp add: frame_measure_def frontier_measure_def multiset_eq_iff)
qed

text \<open>The rows of the child denote the assignments of the candidates drawn.\<close>

lemma child_rows:
  fixes pos :: nat
  assumes v: "v < length levels" "lvl_variable l = v" "level_buffer levels l = b" "lv_buffer (levels ! v) = Some b"
    and V: "v \<notin> V" "V \<subseteq> {..<slots}" "v < slots"
    and b: "pb_len b \<le> 2 ^ 32" "\<And>k. k < pb_len b \<Longrightarrow> unat (pb_parents b ! k) < rs_len sel" "level_rows d = map unat (rs_list sel)"
    and ks: "\<And>k. k \<in> set ks \<Longrightarrow> k < pb_len b"
    and d: "\<And>k. k \<in> set ks \<Longrightarrow> row_ok levels (dp_block d) slots V (unat (parent_row b sel k))"
    and block: "child_block (dp_block d) slots v (map word_of_nat ks) (map (parent_row b sel) ks) block'"
  defines "levels' \<equiv> levels[v := (levels ! v)\<lparr>lv_pos := pos\<rparr>]"
  shows "map (row_assign levels' block' slots (insert v V)) [0..<length ks] = map (cand_assign levels slots V d l) ks"
    "j < length ks \<Longrightarrow> row_ok levels' block' slots (insert v V) j"
proof -
  note dr = drawn_levels [OF v(1), where pos = pos, folded levels'_def]
  have lb: "lv_buffer (levels' ! v) = Some b" using dr(2) v(4) by simp
  have at: "unat (map word_of_nat ks ! j :: u32) = ks ! j" "ks ! j < pb_len b" if "j < length ks" for j
    using that b(1) ks [OF nth_mem [OF that]] by (simp_all add: unat_u32_of_nat)
  have row: "unat (parent_row b sel k) = level_rows d ! unat (pb_parents b ! k)" if "k < pb_len b" for k
    using b(2) [OF that] b(3) by (simp add: parent_row_def)
  have "row_assign levels' block' slots (insert v V) j = cand_assign levels slots V d l (ks ! j)" if j: "j < length ks" for j
    using child_row_assign(1) [OF block _ V dr(2) lb] j at [OF j] row [OF at(2) [OF j]] v(2,3)
    by (simp add: cand_assign_def)
  then show "map (row_assign levels' block' slots (insert v V)) [0..<length ks] = map (cand_assign levels slots V d l) ks"
    by (intro nth_equalityI) auto
  show "row_ok levels' block' slots (insert v V) j" if j: "j < length ks"
    using child_row_assign(2) [OF block _ V dr(2) lb] j at [OF j] d [OF nth_mem [OF j]] by simp
qed

text \<open>The state after a descent owes what a step owes.\<close>

lemma descended:
  fixes q :: query
  defines "levels \<equiv> query_levels q" and "slots \<equiv> q_slots q" and "p \<equiv> q_depth q"
  assumes inv: "search_inv W vars good q" and m: "q_mode q = NextChunk"
    and fr: "query_frames q = (d, l) # fs" and stack: "length stack = p" and fs: "fs = rev (zip (q_depths q) stack)"
    and depths: "p + 1 < length depths" "\<And>i. i < p \<Longrightarrow> depths ! i = q_depths q ! i" "p < length (q_depths q)"
    and st: "bs_levels st = levels'" "vs_elems (bs_bound st) = insert (lvl_variable l) (frame_vars fs)" "length levels' = 128"
    and same: "\<And>w. w \<noteq> lvl_variable l \<Longrightarrow> levels' ! w = levels ! w"
    and l': "lvl_variable l' = lvl_variable l"
    and fok: "frame_ok W vars levels' slots (frame_vars fs) (d', l')"
    and child: "depth_ok levels' slots (insert (lvl_variable l) (frame_vars fs)) child" "0 < dp_rows child" "dp_rows child \<le> W"
      "dp_plan child = Unplanned"
    and pend: "mset (frame_pending levels slots (frame_vars fs) (d, l)) =
      mset (map (row_assign levels' (dp_block child) slots (insert (lvl_variable l) (frame_vars fs))) [0..<dp_rows child])
      + mset (frame_pending levels' slots (frame_vars fs) (d', l'))"
    and less: "\<And>u. frame_measure levels u (d, l) = replicate_mset (dp_rows child) (4 * u) + frame_measure levels' u (d', l')"
    and q': "q' = q\<lparr>q_depths := depths[p := d', p + 1 := child], q_bindings := st, q_stack := stack @ [l'],
             q_depth := p + 1, q_stats := stats, q_mode := Plan\<rparr>"
  shows "step_ok c good W q [] q'"
proof -
  let ?v = "lvl_variable l" and ?V = "frame_vars fs"
  note I = inv [unfolded search_inv_def mode_ok_def Let_def m fr, simplified, folded levels_def slots_def]
  have "zip (depths[p := d', p + 1 := child]) stack = zip (q_depths q) stack"
    using stack depths by (intro zip_prefix) auto
  then have fr': "query_frames q' = (d', l') # fs"
    using stack depths fs by (simp add: query_frames_def q' zip_snoc_at)
  have sel: "query_levels q' = levels'" "q_slots q' = slots" "q_mode q' = Plan" "length (q_stack q') = p + 1" "query_top q' = child"
    "length fs = p"
    using st(1) depths(1,3) stack fs by (simp_all add: query_levels_def q' query_top_def slots_def)
  have "frames_ok W vars levels slots ((d, l) # fs)" using I by simp
  then have V: "?v \<in> vars - ?V" "card ?V = p" "?V \<subseteq> vars"
    using frames_ok_vars [of W vars levels slots "(d, l) # fs"] frames_card [of levels slots fs] sel(6)
    by (auto simp: card_insert_if frame_vars_def split: if_splits)
  have "levels' ! w = levels ! w" if "w \<in> ?V" for w using same V(1) that by (cases "w = ?v") auto
  then have low: "frames_ok W vars levels' slots fs = frames_ok W vars levels slots fs"
    "frames_pending levels' slots fs = frames_pending levels slots fs"
    "frames_measure levels' n fs = frames_measure levels n fs" for n
    using frames_cong [of fs levels' levels] by blast+
  have pend': "mset (pending q') = mset (pending q)"
    using m pend by (simp add: pending_def mode_pending_def Let_def fr fr' sel low(2) l' levels_def [symmetric] slots_def [symmetric])
  have "p < card vars" using V psubset_card_mono [of vars ?V] finite_vars by auto
  then have "{#4 * (card vars - (p + 1)) + 3#} + frame_measure levels' (card vars - p) (d', l')
      < add_mset (4 * (card vars - p)) (frame_measure levels' (card vars - p) (d', l'))"
    by (intro measure_replace) auto
  also have "\<dots> \<le> frame_measure levels (card vars - p) (d, l)"
    using child(2) less [of "card vars - p"] by (cases "dp_rows child") auto
  finally have ms: "search_measure (card vars) q' < search_measure (card vars) q"
    using m by (simp add: search_measure_def mode_measure_def Let_def fr fr' sel low(3) levels_def [symmetric])
  have "mode_ok W vars q'"
    using child st(2) l' depths(1) by (simp add: mode_ok_def Let_def fr' sel) (simp add: q')
  moreover have "\<forall>\<sigma> \<in> set (pending q'). good \<sigma>" using I mset_eq_setD [OF pend'] by simp
  ultimately have "search_inv W vars good q'"
    using I fok low(1) st(3) l' unfolding search_inv_def fr' sel by (simp add: q')
  then show ?thesis using ms extended_mset [OF pend'] by (simp add: step_ok_def)
qed

lemma chunk_descend:
  assumes inv: "search_inv W vars good q" and m: "q_mode q = NextChunk"
    and some: "level_live (query_levels q) (last (q_stack q)) \<noteq> []"
  shows "\<exists>q'. query_next_chunk c q = Some q' \<and> step_ok c good W q [] q'"
proof -
  obtain d l fs stack v start e select sel b where
    s: "query_frames q = (d, l) # fs" "q_stack q = stack @ [l]" "length stack = q_depth q" "q_depth q < length (q_depths q)"
    "q_depths q ! q_depth q = d" "fs = rev (zip (q_depths q) stack)" "lvl_variable l = v" "v \<in> vars - frame_vars fs" and
    g: "dp_group_range d (dp_group d - 1) = Some (v, start, e)" "dp_selection d = Some select" "rs_slice select start e = Some sel"
    "rs_wf sel" "rs_len sel = e - start" "level_rows d = map unat (rs_list sel)" and b: "level_buffer (query_levels q) l = b" and
    f: "frame_ok W vars (query_levels q) (q_slots q) (frame_vars fs) (d, l)" "frames_ok W vars (query_levels q) (q_slots q) fs"
    by (rule chunk_state [OF inv m])
  let ?levels = "bs_levels (q_bindings q)" and ?slots = "q_slots q" and ?V = "frame_vars fs" and ?p = "q_depth q"
  have ql: "query_levels q = ?levels" by (simp add: query_levels_def)
  note I = inv [unfolded search_inv_def mode_ok_def Let_def m ql s(1), simplified]
  have v: "v < 128" "v < ?slots" "v \<in> vars" "v \<notin> ?V" and len: "length ?levels = 128" using s(8) vars_bound I by auto
  have Vv: "?V \<subseteq> vars" "?V \<subseteq> {..<?slots}" using frames_card(1) [OF f(2)] I by auto
  have lb: "lv_buffer (?levels ! v) = Some b" "pb_wf b" "\<And>k. k < pb_len b \<Longrightarrow> unat (pb_parents b ! k) < rs_len sel" "pb_len b \<le> 2 ^ 32"
    using f(1) s(7) g(6) b by (auto simp: frame_ok_def ql)
  define live where "live = level_live ?levels l"
  define n where "n = lvl_width l"
  define ks where "ks = take n live"
  have lv: "live_from b (lv_pos (?levels ! v)) = live" using s(7) b by (simp add: level_live_def live_def ql)
  have n: "0 < n" "n \<le> W" using f(1) by (simp_all add: frame_ok_def n_def)
  have ks: "ks \<noteq> []" "length ks \<le> W" "\<And>k. k \<in> set live \<Longrightarrow> k < pb_len b" "set ks \<subseteq> set live"
    using some s(2) n live_from_bound [of _ b "lv_pos (?levels ! v)", unfolded lv]
    by (auto simp: ks_def live_def ql dest: in_set_takeD)
  have pl: "planned (vars - ?V) d" "dp_rows d \<le> W" "dp_group d - 1 < dp_group_limit d" using f(1) by (auto simp: frame_ok_def)
  have dok: "depth_ok ?levels ?slots ?V d" using f(1) some s(2) by (auto simp: frame_ok_def ql)
  have row: "unat (parent_row b sel k) < dp_rows d" if "k \<in> set live" for k
  proof -
    have "parent_row b sel k \<in> set (rs_list sel)" using lb(3) ks(3) that by (simp add: parent_row_def)
    then have "unat (parent_row b sel k) \<in> set (level_rows d)" using g(6) by simp
    then show ?thesis using planned_row [OF pl(1) _ pl(3)] by (simp add: level_rows_def)
  qed
  define spec where "spec \<longleftrightarrow> lvl_proposed l = e - start \<and> lvl_width l \<ge> e - start \<and> dp_group d \<ge> dp_group_limit d"
  have vl: "v < length ?levels" using len v(1) by simp
  obtain pos where draw: "draw_chunk q d l sel spec = Some (drawn_store (q_bindings q) v pos True, length ks,
       if spec then map word_of_nat ks else [], map (parent_row b sel) ks,
       if spec then [] else concat (map (\<lambda>k. child_row (dp_block d) ?slots v (word_of_nat k) (parent_row b sel k)) ks))"
    "live_from b pos = drop n live"
  proof (rule draw_chunk_eq [OF vl lb(1) v(2) s(7) refl refl lb(2) g(4) lb(3), where d = d and speculate = spec])
    show "(unat (parent_row b sel k) + 1) * ?slots \<le> length (dp_block d)" if "k \<in> set (live_from b (lv_pos (?levels ! v)))" for k
      using row_bound [OF row] that dok by (simp add: lv depth_ok_def)
  qed (use that ks(1) in \<open>auto simp: lv n_def ks_def\<close>)
  define st where "st = drawn_store (q_bindings q) v pos True"
  define levels' where "levels' = ?levels[v := (?levels ! v)\<lparr>lv_pos := pos\<rparr>]"
  note dr = drawn_levels [OF vl, where pos = pos, folded levels'_def]
  have stl: "bs_levels st = levels'" "vs_elems (bs_bound st) = insert v ?V" using I s(7) v by (auto simp: st_def levels'_def)
  have cursor: "lv_pos (bs_levels st ! v) = pos" using stl(1) dr(3) by simp
  define depths where "depths = ensure_child (q_depths q) ?p"
  have dl: "?p + 1 < length depths" "\<And>i. i \<le> ?p \<Longrightarrow> depths ! i = q_depths q ! i" using s(4) by (auto simp: depths_def ensure_child_def nth_append)
  have consumed: "bs_consumed st v = Some pos" using len v(1) by (simp add: bs_consumed_def st_def)
  define w where "w = next_width (lvl_width l) (lvl_proposed l) pos (q_width q)"
  have w: "0 < w" "w \<le> W" using next_width_range [of "lvl_width l" W "lvl_proposed l" pos] n width I by (auto simp: w_def n_def usize_max_def)
  define block where "block = (if spec then [] else concat (map (\<lambda>k. child_row (dp_block d) ?slots v (word_of_nat k) (parent_row b sel k)) ks))"
  define stack' where "stack' = stack @ [l\<lparr>lvl_width := w\<rparr>]"
  have "query_next_chunk c q = descend c q depths stack' st v (e - start) spec (length ks)
      (if spec then map word_of_nat ks else []) (map (parent_row b sel) ks) block"
    using s g draw(1) consumed ks(1)
    by (simp add: query_next_chunk_def Let_def spec_def [symmetric] depths_def [symmetric] st_def [symmetric] w_def [symmetric]
      block_def [symmetric] stack'_def cong: if_cong split del: if_split)
  moreover have "\<exists>block' es st' d'. descend c q depths stack' st v (e - start) spec (length ks)
        (if spec then map word_of_nat ks else []) (map (parent_row b sel) ks) block =
      Some (q\<lparr>q_depths := depths[?p := d', ?p + 1 := child_depth block' (length ks) es],
             q_bindings := st, q_stack := stack', q_depth := ?p + 1, q_stats := st', q_mode := Plan\<rparr>)
    \<and> child_block (dp_block d) ?slots v (map word_of_nat ks) (map (parent_row b sel) ks) block' \<and> length ks * ?slots \<le> length es
    \<and> (d' = d \<or> dp_group_limit d \<le> dp_group d \<and> live_from b pos = []
        \<and> (\<exists>bl es. d' = d\<lparr>dp_block := bl, dp_estimates := es\<rparr>))"
    unfolding cursor [symmetric]
  proof (rule descend_eq)
    show "vs_elems (bs_bound st) = insert v ?V" "depth_ok (bs_levels st) ?slots ?V d" "lv_buffer (bs_levels st ! v) = Some b"
      "length (bs_levels st) = 128"
      using stl dok dr(2,6) lb(1) len by (simp_all add: levels'_def)
    show "e - start \<le> dp_rows d" using planned_group_size [OF pl(1,3)] g(5,6) by (simp add: level_rows_def)
    show "unat p < dp_rows d" if "p \<in> set (map (parent_row b sel) ks)" for p using that row ks(4) by auto
    show "block = concat (map (\<lambda>(k, p). child_row (dp_block d) ?slots v (word_of_nat k) p) (zip ks (map (parent_row b sel) ks)))"
      if "\<not> spec" using that by (simp add: block_def zip_map2 zip_same_conv_map comp_def)
  qed (use I s v Vv lb ks dl width in \<open>auto simp: spec_def\<close>)
  ultimately obtain block' es stats d' where q': "query_next_chunk c q = Some (q\<lparr>q_depths := depths[?p := d', ?p + 1 :=
        child_depth block' (length ks) es],
        q_bindings := st, q_stack := stack', q_depth := ?p + 1, q_stats := stats, q_mode := Plan\<rparr>)"
    and cb: "child_block (dp_block d) ?slots v (map word_of_nat ks) (map (parent_row b sel) ks) block'" "length ks * ?slots \<le> length es"
    and d': "d' = d \<or> dp_group_limit d \<le> dp_group d \<and> live_from b pos = [] \<and> (\<exists>bl es. d' = d\<lparr>dp_block := bl, dp_estimates := es\<rparr>)"
    by (elim exE conjE) (simp only:)
  have ok: "row_ok ?levels (dp_block d) ?slots ?V (unat (parent_row b sel k))" if "k \<in> set ks" for k
    using dok row that ks(4) by (auto simp: depth_ok_def)
  have kb: "\<And>k. k \<in> set ks \<Longrightarrow> k < pb_len b" using ks(3,4) by blast
  note cr = child_rows [where pos = pos, OF vl s(7) b [unfolded ql] lb(1) v(4) Vv(2) v(2) lb(4,3) g(6) kb ok cb(1), folded levels'_def]
  note df = drawn_frame [OF vl s(7) b [unfolded ql] f(1) [unfolded ql] w draw(2) [unfolded live_def] d', folded levels'_def live_def, folded ks_def]
  let ?child = "child_depth block' (length ks) es"
  have "step_ok c good W q [] (q\<lparr>q_depths := depths[?p := d', ?p + 1 := ?child], q_bindings := st, q_stack := stack', q_depth := ?p + 1, q_stats := stats, q_mode := Plan\<rparr>)"
  proof (rule descended [OF inv m s(1) s(3) s(6) dl(1)])
    show "depth_ok levels' ?slots (insert (lvl_variable l) ?V) ?child"
      using cr(2) cb s(7) by (simp add: depth_ok_def child_block_def)
    show "frame_ok W vars levels' ?slots ?V (d', l\<lparr>lvl_width := w\<rparr>)" by (rule df(1))
    show "mset (frame_pending (query_levels q) ?slots ?V (d, l)) = mset (map (row_assign levels' (dp_block ?child) ?slots
        (insert (lvl_variable l) ?V)) [0..<dp_rows ?child]) + mset (frame_pending levels' ?slots ?V (d', l\<lparr>lvl_width := w\<rparr>))"
      using df(2) cr(1) by (simp add: ql s(7) del: mset_map)
    show "frame_measure (query_levels q) u (d, l) = replicate_mset (dp_rows ?child) (4 * u)
        + frame_measure levels' u (d', l\<lparr>lvl_width := w\<rparr>)" for u
      using df(3) by (simp add: ql)
    show "levels' ! x = query_levels q ! x" if "x \<noteq> lvl_variable l" for x using dr(1) that s(7) by (simp add: ql)
  qed (use dl s stl ks len in \<open>auto simp: stack'_def levels'_def\<close>)
  then show ?thesis using q' by blast
qed

lemma chunk_step:
  assumes "search_inv W vars good q" "q_mode q = NextChunk"
  shows "\<exists>q'. query_next_chunk c q = Some q' \<and> step_ok c good W q [] q'"
  using chunk_empty [OF assms] chunk_descend [OF assms] by blast

end

end
