(* ===== verification/Leaf_Constraints.thy ===== *)
theory Leaf_Constraints
  imports Constraint "HOL-Library.AList"
begin

text \<open>
  The leaf constraints of \<open>query/\<close>: \<open>ConstantConstraint\<close>, \<open>InlineRange\<close>, \<open>SetConstraint\<close> over a hash set,
  \<open>KeysConstraint\<close> over a hash map, \<open>SortedSliceConstraint\<close> with its binary search, and
  \<open>EqualityConstraint\<close>. Each is the record of its methods, and each is shown lawful. The first five
  share the shape of the locale \<open>unary\<close>: one variable, a predicate on its value, and a fixed list of
  proposals.

  A hash set or map is the list of its elements in iteration order, without duplicates; the codec of
  the element type is a parameter with the laws of \<open>inline_codec\<close>.
\<close>

section \<open>Definitions\<close>

definition constant_constraint :: "nat \<Rightarrow> raw_inline \<Rightarrow> constraint" where
  "constant_constraint var k =
     \<lparr>c_variables = vs_new_singleton var,
      c_estimate = (\<lambda>v b. Some (if var = v then Some 1 else None)),
      c_propose = (\<lambda>v f b.
        if var = v then for_rows f (\<lambda>row b. pb_push (pb_open (word_of_nat row) b) k) b else Some b),
      c_confirm = (\<lambda>v f cs. if var = v then cd_retain_by cs (\<lambda>i x. x = k) else Some cs),
      c_satisfied = (\<lambda>b. do { r \<leftarrow> bd_get b var; Some (case r of Some x \<Rightarrow> x = k | None \<Rightarrow> True) }),
      c_influence = default_influence (vs_new_singleton var)\<rparr>"

definition inline_range :: "nat \<Rightarrow> raw_inline \<Rightarrow> raw_inline \<Rightarrow> constraint" where
  "inline_range var lo hi =
     \<lparr>c_variables = vs_new_singleton var,
      c_estimate = (\<lambda>v b. Some (if var = v then Some usize_max else None)),
      c_propose = (\<lambda>v f b. Some b),
      c_confirm = (\<lambda>v f cs. if var = v then cd_retain_by cs (\<lambda>i x. x \<ge> lo \<and> x \<le> hi) else Some cs),
      c_satisfied = (\<lambda>b. do { r \<leftarrow> bd_get b var; Some (case r of Some x \<Rightarrow> x \<ge> lo \<and> x \<le> hi | None \<Rightarrow> True) }),
      c_influence = default_influence (vs_new_singleton var)\<rparr>"

text \<open>The body the three collection constraints share: propose the encodings, keep what decodes to a member.\<close>

definition collection_constraint ::
  "('t \<Rightarrow> raw_inline) \<Rightarrow> (raw_inline \<Rightarrow> 't option) \<Rightarrow> nat \<Rightarrow> 't list \<Rightarrow> ('t \<Rightarrow> bool) \<Rightarrow> constraint" where
  "collection_constraint to_inline try_from_inline var elems contains =
     \<lparr>c_variables = vs_new_singleton var,
      c_estimate = (\<lambda>v b. Some (if var = v then Some (length elems) else None)),
      c_propose = (\<lambda>v f b.
        if var = v then for_rows f (\<lambda>row b. pb_extend (pb_open (word_of_nat row) b) (map to_inline elems)) b
        else Some b),
      c_confirm = (\<lambda>v f cs.
        if var = v then cd_retain_by cs (\<lambda>i x. case try_from_inline x of Some t \<Rightarrow> contains t | None \<Rightarrow> False)
        else Some cs),
      c_satisfied = default_satisfied,
      c_influence = default_influence (vs_new_singleton var)\<rparr>"

definition set_constraint ::
  "('t \<Rightarrow> raw_inline) \<Rightarrow> (raw_inline \<Rightarrow> 't option) \<Rightarrow> nat \<Rightarrow> 't list \<Rightarrow> constraint" where
  "set_constraint to_inline try_from_inline var elems =
     collection_constraint to_inline try_from_inline var elems (\<lambda>t. t \<in> set elems)"

definition keys_constraint ::
  "('k \<Rightarrow> raw_inline) \<Rightarrow> (raw_inline \<Rightarrow> 'k option) \<Rightarrow> nat \<Rightarrow> ('k \<times> 'v) list \<Rightarrow> constraint" where
  "keys_constraint to_inline try_from_inline var entries =
     collection_constraint to_inline try_from_inline var (map fst entries) (\<lambda>k. map_of entries k \<noteq> None)"

subsection \<open>Sorted slices\<close>

text \<open>\<open>data.windows(2).all(|w| w[0] <= w[1])\<close>; the error of \<open>new\<close> is \<open>None\<close>.\<close>

fun windows_sorted :: "'t::linorder list \<Rightarrow> bool" where
  "windows_sorted (x # y # zs) \<longleftrightarrow> x \<le> y \<and> windows_sorted (y # zs)"
| "windows_sorted _ \<longleftrightarrow> True"

definition sorted_slice_new :: "'t::linorder list \<Rightarrow> 't list option" where
  "sorted_slice_new data = (if windows_sorted data then Some data else None)"

definition sorted_slice_from_mut :: "'t::linorder list \<Rightarrow> 't list" where
  "sorted_slice_from_mut data = sort data"

text \<open>The binary search of the standard library's slices: halve \<open>size\<close>, keeping \<open>base\<close>.\<close>

function binary_search_loop :: "'t::linorder list \<Rightarrow> 't \<Rightarrow> nat \<Rightarrow> nat \<Rightarrow> nat" where
  "binary_search_loop xs t base sz =
     (if sz > 1 then
        let half = sz div 2; mid = base + half in
        binary_search_loop xs t (if xs ! mid > t then base else mid) (sz - half)
      else base)"
  by pat_completeness auto
termination
  by (relation "measure (\<lambda>(xs, t, base, sz). sz)") auto

declare binary_search_loop.simps [simp del]

definition binary_search :: "'t::linorder list \<Rightarrow> 't \<Rightarrow> nat option" where
  "binary_search xs t =
     (if xs = [] then None
      else let base = binary_search_loop xs t 0 (length xs) in
        if xs ! base = t then Some base else None)"

definition sorted_slice_constraint ::
  "('t::linorder \<Rightarrow> raw_inline) \<Rightarrow> (raw_inline \<Rightarrow> 't option) \<Rightarrow> nat \<Rightarrow> 't list \<Rightarrow> constraint" where
  "sorted_slice_constraint to_inline try_from_inline var data =
     collection_constraint to_inline try_from_inline var data (\<lambda>t. binary_search data t \<noteq> None)"

subsection \<open>Equality of two variables\<close>

definition equality_peer :: "nat \<Rightarrow> nat \<Rightarrow> nat \<Rightarrow> nat option" where
  "equality_peer a b v = (if v = a then Some b else if v = b then Some a else None)"

definition equality_constraint :: "nat \<Rightarrow> nat \<Rightarrow> constraint" where
  "equality_constraint a b =
     \<lparr>c_variables = vs_set (vs_set vs_new_empty a) b,
      c_estimate = (\<lambda>v bd.
        if v = a then do { r \<leftarrow> bd_get bd b; Some (if r \<noteq> None then Some 1 else None) }
        else if v = b then do { r \<leftarrow> bd_get bd a; Some (if r \<noteq> None then Some 1 else None) }
        else Some None),
      c_propose = (\<lambda>v f pb. case equality_peer a b v of None \<Rightarrow> Some pb | Some peer \<Rightarrow>
        for_rows f (\<lambda>row pb. do {
          bd \<leftarrow> fr_row f row;
          r \<leftarrow> bd_get bd peer;
          case r of Some x \<Rightarrow> pb_push (pb_open (word_of_nat row) pb) x | None \<Rightarrow> Some pb
        }) pb),
      c_confirm = (\<lambda>v f cs. case equality_peer a b v of None \<Rightarrow> Some cs | Some peer \<Rightarrow>
        cd_for_each_parent cs (\<lambda>row run. do {
          bd \<leftarrow> fr_row f (unat row);
          r \<leftarrow> bd_get bd peer;
          case r of None \<Rightarrow> Some run | Some x \<Rightarrow> cd_retain run (\<lambda>y. y = x)
        })),
      c_satisfied = (\<lambda>bd. do {
        x \<leftarrow> bd_get bd a;
        y \<leftarrow> bd_get bd b;
        Some (case (x, y) of (Some x, Some y) \<Rightarrow> x = y | _ \<Rightarrow> True)
      }),
      c_influence = default_influence (vs_set (vs_set vs_new_empty a) b)\<rparr>"

section \<open>One variable, one predicate\<close>

definition unary_good :: "nat \<Rightarrow> (raw_inline \<Rightarrow> bool) \<Rightarrow> assignment \<Rightarrow> bool" where
  "unary_good var P \<sigma> \<longleftrightarrow> (case \<sigma> var of None \<Rightarrow> True | Some x \<Rightarrow> P x)"

locale unary =
  fixes c :: constraint and var :: nat and P :: "raw_inline \<Rightarrow> bool" and vals :: "raw_inline list" and n :: nat
  assumes var: "var < 128"
    and variables: "c_variables c = vs_new_singleton var"
    and estimate: "c_estimate c v b = Some (if var = v then Some n else None)"
    and propose_rows: "pb_wf pb \<Longrightarrow> \<exists>pb'. c_propose c var f pb = Some pb' \<and> pb_wf pb' \<and> pb_rows pb' = pb_rows pb @
      concat (map (\<lambda>row. map (\<lambda>x. (word_of_nat row, x, True)) vals) [0..<fr_len f])"
    and propose_foreign: "v \<noteq> var \<Longrightarrow> c_propose c v f pb = Some pb"
    and confirm_values: "cd_wf cs \<Longrightarrow> \<exists>cs'. c_confirm c var f cs = Some cs' \<and> cd_filters (\<lambda>_. P) cs cs'"
    and confirm_foreign: "v \<noteq> var \<Longrightarrow> c_confirm c v f cs = Some cs"
    and satisfied: "bd_wf b \<Longrightarrow> \<exists>s. c_satisfied c b = Some s \<and> (unary_good var P (bd_map b) \<longrightarrow> s)"
    and vals_sound: "x \<in> set vals \<Longrightarrow> P x"
    and vals_complete: "n < usize_max \<Longrightarrow> P x \<Longrightarrow> x \<in> set vals"
    and vals_distinct: "distinct vals"

sublocale unary \<subseteq> lawful c "unary_good var P"
proof
  show "unary_good var P \<sigma> = unary_good var P \<tau>" if "\<forall>v \<in> vs_elems (c_variables c). \<sigma> v = \<tau> v" for \<sigma> \<tau>
    using that var by (simp add: unary_good_def variables)
  show "unary_good var P \<tau> \<Longrightarrow> \<sigma> \<subseteq>\<^sub>m \<tau> \<Longrightarrow> unary_good var P \<sigma>" for \<sigma> \<tau>
    by (fastforce simp: unary_good_def map_le_def dom_def split: option.splits)
  show "\<exists>s. c_satisfied c b = Some s \<and> (unary_good var P (bd_map b) \<longrightarrow> s)" if "bd_wf b" for b
    using that by (rule satisfied)
  show "unary_good var P Map.empty" by (simp add: unary_good_def)
  show "\<exists>e. c_estimate c v b = Some e" for v b by (simp add: estimate)
  show "c_estimate c v b = Some None \<Longrightarrow> c_estimate c v b' = Some None" for v b b' by (simp add: estimate)
  show "v \<notin> vs_elems (c_variables c) \<Longrightarrow> c_estimate c v b = Some None" for v b
    using var by (auto simp: estimate variables)
  show "c_estimate c v b = Some None \<Longrightarrow> unary_good var P (bd_map b) \<Longrightarrow> unary_good var P ((bd_map b)(v \<mapsto> x))" for v b x
    by (auto simp: estimate unary_good_def split: if_splits)
  show "\<exists>pb' rows. c_propose c v f pb = Some pb' \<and> pb_wf pb' \<and> pb_rows pb' = pb_rows pb @ rows
      \<and> propose_spec (unary_good var P) v f (offers c v f) rows"
    if "fr_wf f" "fr_len f < 2 ^ 32" "pb_wf pb" for f v pb
  proof (cases "v = var")
    case True
    have "propose_spec (unary_good var P) v f (offers c v f)
        (concat (map (\<lambda>row. map (\<lambda>x. (word_of_nat row, x, True)) vals) [0..<fr_len f]))"
    proof (rule propose_spec_rows [OF that(2), where vals = "\<lambda>_. vals"], goal_cases)
      case (2 row x)
      then show ?case using True by (auto simp: offers_def estimate unary_good_def intro: vals_complete)
    qed (use True vals_sound vals_distinct in \<open>auto simp: unary_good_def\<close>)
    then show ?thesis using propose_rows [OF that(3)] True by blast
  next
    case False
    have "propose_spec (unary_good var P) v f (offers c v f) []"
      using False by (auto simp: propose_spec_def offers_def estimate)
    with False that(3) show ?thesis by (auto simp: propose_foreign)
  qed
  show "\<exists>cs' Q. c_confirm c v f cs = Some cs' \<and> cd_filters Q cs cs' \<and> confirm_spec (unary_good var P) v f Q"
    if "cd_wf cs" for v f cs
  proof (cases "v = var")
    case True
    have "confirm_spec (unary_good var P) v f (\<lambda>_. P)"
      using True by (simp add: confirm_spec_def unary_good_def)
    then show ?thesis using confirm_values [OF that] True by blast
  next
    case False
    have "confirm_spec (unary_good var P) v f (\<lambda>_ _. True)"
      using False by (simp add: confirm_spec_def unary_good_def)
    then show ?thesis using False confirm_foreign cd_filters_refl by metis
  qed
qed

section \<open>The leaf constraints are lawful\<close>

lemma cd_retain_values: "cd_wf cs \<Longrightarrow> \<exists>cs'. cd_retain_by cs (\<lambda>i. P) = Some cs' \<and> cd_filters (\<lambda>_. P) cs cs'"
  using cd_retain_filters [of cs P] by (simp add: cd_retain_def)

lemma pb_push_open_rows:
  "pb_wf b \<Longrightarrow> \<exists>b'. pb_push (pb_open p b) x = Some b' \<and> pb_wf b' \<and> pb_rows b' = pb_rows b @ [(p, x, True)]"
  using pb_push_rows [of "pb_open p b" x] by auto

lemma pb_extend_open_rows:
  "pb_wf b \<Longrightarrow> \<exists>b'. pb_extend (pb_open p b) xs = Some b' \<and> pb_wf b' \<and> pb_rows b' = pb_rows b @ map (\<lambda>x. (p, x, True)) xs"
  using pb_extend_rows [of "pb_open p b" xs] by auto

lemma constant_unary:
  assumes "var < 128"
  shows "unary (constant_constraint var k) var (\<lambda>x. x = k) [k] 1"
proof
  show "\<exists>pb'. c_propose (constant_constraint var k) var f pb = Some pb' \<and> pb_wf pb' \<and> pb_rows pb' = pb_rows pb @
      concat (map (\<lambda>row. map (\<lambda>x. (word_of_nat row, x, True)) [k]) [0..<fr_len f])" if "pb_wf pb" for f pb
    using for_rows_rows [OF that, of f "\<lambda>row b. pb_push (pb_open (word_of_nat row) b) k" "\<lambda>_. [k]"] pb_push_open_rows
    by (simp add: constant_constraint_def)
  show "\<exists>cs'. c_confirm (constant_constraint var k) var f cs = Some cs' \<and> cd_filters (\<lambda>_ x. x = k) cs cs'"
    if "cd_wf cs" for f cs
    using cd_retain_values [OF that] by (simp add: constant_constraint_def)
  show "\<exists>s. c_satisfied (constant_constraint var k) b = Some s \<and> (unary_good var (\<lambda>x. x = k) (bd_map b) \<longrightarrow> s)"
    if "bd_wf b" for b
    using bd_get_map [OF that assms] by (simp add: constant_constraint_def unary_good_def)
qed (use assms in \<open>auto simp: constant_constraint_def\<close>)

lemma range_unary:
  assumes "var < 128"
  shows "unary (inline_range var lo hi) var (\<lambda>x. x \<ge> lo \<and> x \<le> hi) [] usize_max"
proof
  show "\<exists>cs'. c_confirm (inline_range var lo hi) var f cs = Some cs' \<and> cd_filters (\<lambda>_ x. x \<ge> lo \<and> x \<le> hi) cs cs'"
    if "cd_wf cs" for f cs
    using cd_retain_values [OF that, of "\<lambda>x. x \<ge> lo \<and> x \<le> hi"] by (simp add: inline_range_def)
  show "\<exists>s. c_satisfied (inline_range var lo hi) b = Some s
      \<and> (unary_good var (\<lambda>x. x \<ge> lo \<and> x \<le> hi) (bd_map b) \<longrightarrow> s)" if "bd_wf b" for b
    using bd_get_map [OF that assms] by (simp add: inline_range_def unary_good_def)
qed (use assms in \<open>auto simp: inline_range_def\<close>)

text \<open>The collection constraints, for any membership test that agrees with the elements.\<close>

lemma collection_methods:
  fixes elems :: "'t list" and var :: nat and to_inline :: "'t \<Rightarrow> raw_inline" and try_from_inline :: "raw_inline \<Rightarrow> 't option" and contains :: "'t \<Rightarrow> bool"
  assumes "inline_codec to_inline try_from_inline" and contains: "\<And>t. contains t \<longleftrightarrow> t \<in> set elems"
  defines "c \<equiv> collection_constraint to_inline try_from_inline var elems contains"
  shows "pb_wf pb \<Longrightarrow> \<exists>pb'. c_propose c var f pb = Some pb' \<and> pb_wf pb' \<and> pb_rows pb' = pb_rows pb @
      concat (map (\<lambda>row. map (\<lambda>x. (word_of_nat row, x, True)) (map to_inline elems)) [0..<fr_len f])"
    "cd_wf cs \<Longrightarrow> \<exists>cs'. c_confirm c var f cs = Some cs' \<and> cd_filters (\<lambda>_ x. x \<in> to_inline ` set elems) cs cs'"
proof -
  show "\<exists>pb'. c_propose c var f pb = Some pb' \<and> pb_wf pb' \<and> pb_rows pb' = pb_rows pb @
      concat (map (\<lambda>row. map (\<lambda>x. (word_of_nat row, x, True)) (map to_inline elems)) [0..<fr_len f])"
    if "pb_wf pb"
  proof -
    have "\<exists>pb'. for_rows f (\<lambda>row b. pb_extend (pb_open (word_of_nat row) b) (map to_inline elems)) pb = Some pb'
        \<and> pb_wf pb' \<and> pb_rows pb' = pb_rows pb @
        concat (map (\<lambda>row. map (\<lambda>x. (word_of_nat row, x, True)) (map to_inline elems)) [0..<fr_len f])"
      by (rule for_rows_rows [OF that]) (rule pb_extend_open_rows)
    then show ?thesis by (simp only: c_def collection_constraint_def constraint.simps simp_thms if_True)
  qed
  have keep: "(case try_from_inline x of None \<Rightarrow> False | Some t \<Rightarrow> contains t) \<longleftrightarrow> x \<in> to_inline ` set elems" for x
    unfolding contains by (rule inline_codec.decoded_member [OF assms(1)])
  show "\<exists>cs'. c_confirm c var f cs = Some cs' \<and> cd_filters (\<lambda>_ x. x \<in> to_inline ` set elems) cs cs'" if "cd_wf cs"
    using cd_retain_values [OF that] unfolding c_def collection_constraint_def by (simp add: keep)
qed

lemma collection_unary:
  assumes "var < 128" "inline_codec to_inline try_from_inline" "distinct elems"
    and contains: "\<And>t. contains t \<longleftrightarrow> t \<in> set elems"
  shows "unary (collection_constraint to_inline try_from_inline var elems contains) var
    (\<lambda>x. x \<in> to_inline ` set elems) (map to_inline elems) (length elems)"
proof
  let ?c = "collection_constraint to_inline try_from_inline var elems contains"
  note methods = collection_methods [OF assms(2) contains]
  show "\<exists>pb'. c_propose ?c var f pb = Some pb' \<and> pb_wf pb' \<and> pb_rows pb' = pb_rows pb @
      concat (map (\<lambda>row. map (\<lambda>x. (word_of_nat row, x, True)) (map to_inline elems)) [0..<fr_len f])"
    if "pb_wf pb" for f pb using that by (rule methods(1))
  show "\<exists>cs'. c_confirm ?c var f cs = Some cs' \<and> cd_filters (\<lambda>_ x. x \<in> to_inline ` set elems) cs cs'"
    if "cd_wf cs" for f cs using that by (rule methods(2))
  show "\<exists>s. c_satisfied ?c b = Some s \<and> (unary_good var (\<lambda>x. x \<in> to_inline ` set elems) (bd_map b) \<longrightarrow> s)" for b
    by (auto simp: collection_constraint_def default_satisfied_def)
  show "distinct (map to_inline elems)" using assms(2,3) by (rule inline_codec.distinct_encodings)
qed (use assms in \<open>auto simp: collection_constraint_def\<close>)

lemma empty_row:
  obtains f b where "fr_default = Some f" "fr_wf f" "fr_len f = 1" "fr_bound f = vs_new_empty" "fr_row f 0 = Some b" "bd_wf b" "bd_map b = Map.empty"
proof
  let ?f = "\<lparr>fr_bound = vs_new_empty, fr_block = replicate 128 0, fr_stride = 128, fr_select = Consecutive 0 1, fr_levels = replicate 128 lv_empty\<rparr>"
  let ?b = "the (fr_row ?f 0)"
  show "fr_default = Some ?f" using rs_identity_eq [of 1] by (simp add: fr_default_def)
  show "fr_len ?f = 1" "fr_bound ?f = vs_new_empty" by (simp_all add: fr_len_def)
  show "fr_wf ?f" "fr_row ?f 0 = Some ?b" "bd_wf ?b" "bd_map ?b = Map.empty"
    by (simp_all add: fr_wf_def fr_len_def fr_row_def fr_row_indexes_def rs_get_expect_def u32_try_from_def bd_wf_def bd_map_def fun_eq_iff)
qed

lemma set_unary:
  "var < 128 \<Longrightarrow> inline_codec to_inline try_from_inline \<Longrightarrow> distinct elems \<Longrightarrow>
     unary (set_constraint to_inline try_from_inline var elems) var
       (\<lambda>x. x \<in> to_inline ` set elems) (map to_inline elems) (length elems)"
  unfolding set_constraint_def by (rule collection_unary) auto

lemma keys_unary:
  "var < 128 \<Longrightarrow> inline_codec to_inline try_from_inline \<Longrightarrow> distinct (map fst entries) \<Longrightarrow>
     unary (keys_constraint to_inline try_from_inline var entries) var
       (\<lambda>x. x \<in> to_inline ` set (map fst entries)) (map to_inline (map fst entries)) (length (map fst entries))"
  unfolding keys_constraint_def by (rule collection_unary) (auto simp: map_of_eq_None_iff)

subsection \<open>Binary search\<close>

lemma windows_sorted_iff: "windows_sorted xs \<longleftrightarrow> sorted xs"
  by (induction xs rule: windows_sorted.induct) (auto intro: order_trans)

lemma binary_search_loop_bound:
  "0 < sz \<Longrightarrow> base + sz \<le> n \<Longrightarrow> binary_search_loop xs t base sz < n"
proof (induction xs t base sz rule: binary_search_loop.induct)
  case (1 xs t base sz)
  show ?case
  proof (cases "sz > 1")
    case True
    have "binary_search_loop xs t (if xs ! (base + sz div 2) > t then base else base + sz div 2) (sz - sz div 2) < n"
      using True "1.prems" by (intro "1.IH") auto
    then show ?thesis using True by (subst binary_search_loop.simps) (simp add: Let_def)
  qed (use "1.prems" in \<open>subst binary_search_loop.simps, simp\<close>)
qed

text \<open>The loop keeps an occurrence of \<open>t\<close> in its window, if there is one.\<close>

lemma binary_search_loop_finds:
  assumes "sorted xs" "0 < sz" "base + sz \<le> length xs" "base \<le> k" "k < base + sz" "xs ! k = t"
  shows "xs ! binary_search_loop xs t base sz = t"
  using assms
proof (induction xs t base sz arbitrary: k rule: binary_search_loop.induct)
  case (1 xs t base sz)
  show ?case
  proof (cases "sz > 1")
    case False
    with "1.prems" have "k = base" by simp
    with False "1.prems" show ?thesis by (subst binary_search_loop.simps) simp
  next
    case True
    let ?half = "sz div 2"
    let ?mid = "base + ?half"
    let ?base = "if xs ! ?mid > t then base else ?mid"
    have "\<exists>k'. ?base \<le> k' \<and> k' < ?base + (sz - ?half) \<and> xs ! k' = t"
    proof (cases "xs ! ?mid > t")
      case gt: True
      then have "k < ?mid"
        using "1.prems" sorted_nth_mono [of xs ?mid k] by (metis leD leI le_trans less_le_trans)
      moreover have "?half \<le> sz - ?half" by simp
      ultimately show ?thesis using gt "1.prems" by (intro exI [of _ k]) auto
    next
      case False
      show ?thesis
      proof (cases "k < ?mid")
        case kl: True
        then have "xs ! k \<le> xs ! ?mid" using "1.prems" True by (intro sorted_nth_mono) auto
        then have "xs ! ?mid = t" using False "1.prems" by simp
        then show ?thesis using False True by (intro exI [of _ ?mid]) auto
      next
        case False2: False
        then show ?thesis using False "1.prems" by (intro exI [of _ k]) auto
      qed
    qed
    then obtain k' where "?base \<le> k'" "k' < ?base + (sz - ?half)" "xs ! k' = t" by blast
    then have "xs ! binary_search_loop xs t ?base (sz - ?half) = t"
      using True "1.prems" by (intro "1.IH" [of _ _ k']) auto
    then show ?thesis using True by (subst binary_search_loop.simps) (simp add: Let_def)
  qed
qed

lemma binary_search_correct:
  assumes "sorted xs"
  shows "binary_search xs t \<noteq> None \<longleftrightarrow> t \<in> set xs"
    and "binary_search xs t = Some i \<Longrightarrow> i < length xs \<and> xs ! i = t"
proof -
  have b: "binary_search_loop xs t 0 (length xs) < length xs" if "xs \<noteq> []"
    using that by (intro binary_search_loop_bound) auto
  show "binary_search xs t \<noteq> None \<longleftrightarrow> t \<in> set xs"
  proof
    assume "binary_search xs t \<noteq> None"
    then show "t \<in> set xs" using b nth_mem by (fastforce simp: binary_search_def Let_def split: if_splits)
  next
    assume "t \<in> set xs"
    then obtain k where "k < length xs" "xs ! k = t" by (auto simp: in_set_conv_nth)
    then show "binary_search xs t \<noteq> None"
      using binary_search_loop_finds [OF assms, of "length xs" 0 k t] by (auto simp: binary_search_def Let_def)
  qed
  show "binary_search xs t = Some i \<Longrightarrow> i < length xs \<and> xs ! i = t"
    using b by (auto simp: binary_search_def Let_def split: if_splits)
qed

lemma sorted_slice_unary:
  "var < 128 \<Longrightarrow> inline_codec to_inline try_from_inline \<Longrightarrow> sorted data \<Longrightarrow> distinct data \<Longrightarrow>
     unary (sorted_slice_constraint to_inline try_from_inline var data) var
       (\<lambda>x. x \<in> to_inline ` set data) (map to_inline data) (length data)"
  unfolding sorted_slice_constraint_def by (rule collection_unary) (assumption+, rule binary_search_correct(1))

section \<open>Equality\<close>

definition equality_good :: "nat \<Rightarrow> nat \<Rightarrow> assignment \<Rightarrow> bool" where
  "equality_good a b \<sigma> \<longleftrightarrow> (\<forall>x y. \<sigma> a = Some x \<longrightarrow> \<sigma> b = Some y \<longrightarrow> x = y)"

lemma equality_peer_good:
  assumes "equality_peer a b v = Some peer" "\<sigma> v = None" "peer \<noteq> v"
  shows "equality_good a b (\<sigma>(v \<mapsto> x)) \<longleftrightarrow> (\<forall>y. \<sigma> peer = Some y \<longrightarrow> x = y)"
  using assms by (auto simp: equality_peer_def equality_good_def split: if_splits)

lemma equality_good_free:
  "\<sigma> v = None \<Longrightarrow> equality_peer a b v = None \<or> equality_peer a b v = Some v \<Longrightarrow>
     equality_good a b (\<sigma>(v \<mapsto> x)) = equality_good a b \<sigma>"
  by (auto simp: equality_peer_def equality_good_def split: if_splits)

text \<open>The value of the peer in row \<open>i\<close>, and that reading it never panics.\<close>

lemma peer_value:
  assumes "fr_wf f" "i < fr_len f" "peer < 128"
  obtains bd where "fr_row f i = Some bd" "bd_get bd peer = Some (fr_assign f i peer)"
  using fr_rowE [OF assms(1,2)] bd_get_map assms(3) by metis

lemma equality_propose:
  assumes ab: "a < 128" "b < 128" and "fr_wf f" "fr_len f < 2 ^ 32" "v \<notin> vs_elems (fr_bound f)" "pb_wf pb"
  shows "\<exists>pb' rows. c_propose (equality_constraint a b) v f pb = Some pb' \<and> pb_wf pb' \<and> pb_rows pb' = pb_rows pb @ rows
      \<and> propose_spec (equality_good a b) v f (offers (equality_constraint a b) v f) rows"
proof (cases "equality_peer a b v")
  case None
  then have "c_estimate (equality_constraint a b) v bd = Some None" for bd
    by (auto simp: equality_constraint_def equality_peer_def split: if_splits)
  then have "propose_spec (equality_good a b) v f (offers (equality_constraint a b) v f) []"
    by (auto simp: propose_spec_def offers_def)
  then show ?thesis using None assms(6) by (auto simp: equality_constraint_def)
next
  case (Some peer)
  have peer: "peer < 128" using Some ab by (auto simp: equality_peer_def split: if_splits)
  let ?vals = "\<lambda>row. case fr_assign f row peer of None \<Rightarrow> [] | Some x \<Rightarrow> [x]"
  have "\<exists>pb'. for_rows f (\<lambda>row pb. do {
          bd \<leftarrow> fr_row f row;
          r \<leftarrow> bd_get bd peer;
          case r of Some x \<Rightarrow> pb_push (pb_open (word_of_nat row) pb) x | None \<Rightarrow> Some pb
        }) pb = Some pb' \<and> pb_wf pb' \<and> pb_rows pb' = pb_rows pb @
      concat (map (\<lambda>row. map (\<lambda>x. (word_of_nat row, x, True)) (?vals row)) [0..<fr_len f])"
  proof (rule for_rows_rows [OF assms(6)])
    fix row pb assume "row < fr_len f" and wf: "pb_wf pb"
    then obtain bd where "fr_row f row = Some bd" "bd_get bd peer = Some (fr_assign f row peer)"
      using peer_value [OF assms(3) _ peer] by blast
    then show "\<exists>b'. do {
          bd \<leftarrow> fr_row f row;
          r \<leftarrow> bd_get bd peer;
          case r of Some x \<Rightarrow> pb_push (pb_open (word_of_nat row) pb) x | None \<Rightarrow> Some pb
        } = Some b' \<and> pb_wf b' \<and> pb_rows b' = pb_rows pb @ map (\<lambda>x. (word_of_nat row, x, True)) (?vals row)"
      using wf pb_push_open_rows [OF wf] by (cases "fr_assign f row peer") auto
  qed
  moreover have "propose_spec (equality_good a b) v f (offers (equality_constraint a b) v f)
      (concat (map (\<lambda>row. map (\<lambda>x. (word_of_nat row, x, True)) (?vals row)) [0..<fr_len f]))"
  proof (rule propose_spec_rows [OF assms(4)])
    fix row x assume row: "row < fr_len f"
    then have none: "fr_assign f row v = None" using fr_assign_unbound assms(3,5) by blast
    show "x \<in> set (?vals row) \<Longrightarrow> equality_good a b ((fr_assign f row)(v \<mapsto> x))"
      using equality_peer_good [of a b v peer "fr_assign f row" x, OF Some none] none by (cases "peer = v") (auto split: option.splits)
    obtain bd where bd: "fr_row f row = Some bd" "bd_get bd peer = Some (fr_assign f row peer)"
      using peer_value [OF assms(3) row peer] by blast
    have "offers (equality_constraint a b) v f row \<Longrightarrow> fr_assign f row peer \<noteq> None"
      using Some bd by (auto simp: offers_def equality_constraint_def equality_peer_def split: if_splits)
    then show "offers (equality_constraint a b) v f row \<Longrightarrow> equality_good a b ((fr_assign f row)(v \<mapsto> x)) \<Longrightarrow> x \<in> set (?vals row)"
      using equality_peer_good [of a b v peer "fr_assign f row" x, OF Some none] none by (cases "peer = v") auto
  qed (auto split: option.splits)
  ultimately show ?thesis using Some by (auto simp: equality_constraint_def)
qed

lemma equality_confirm:
  assumes ab: "a < 128" "b < 128" and "fr_wf f" "v \<notin> vs_elems (fr_bound f)" "cd_wf cs"
    "\<forall>p \<in> set (cd_parents cs). unat p < fr_len f"
  shows "\<exists>cs' Q. c_confirm (equality_constraint a b) v f cs = Some cs' \<and> cd_filters Q cs cs' \<and> confirm_spec (equality_good a b) v f Q"
proof (cases "equality_peer a b v")
  case None
  have "confirm_spec (equality_good a b) v f (\<lambda>_ _. True)"
    using equality_good_free fr_assign_unbound assms(3,4) None by (simp add: confirm_spec_def)
  then show ?thesis using None by (auto simp: equality_constraint_def intro: cd_filters_refl)
next
  case (Some peer)
  have peer: "peer < 128" using Some ab by (auto simp: equality_peer_def split: if_splits)
  let ?Q = "\<lambda>p x. case fr_assign f (unat p) peer of None \<Rightarrow> True | Some y \<Rightarrow> x = y"
  have "\<exists>cs'. cd_for_each_parent cs (\<lambda>row run. do {
          bd \<leftarrow> fr_row f (unat row);
          r \<leftarrow> bd_get bd peer;
          case r of None \<Rightarrow> Some run | Some x \<Rightarrow> cd_retain run (\<lambda>y. y = x)
        }) = Some cs' \<and> cd_filters ?Q cs cs'"
  proof (rule cd_for_each_parent_filters [OF assms(5)])
    fix p r assume r: "cd_wf r" "set (cd_parents r) = {p}" "p \<in> set (cd_parents cs)"
    then obtain bd where bd: "fr_row f (unat p) = Some bd" "bd_get bd peer = Some (fr_assign f (unat p) peer)"
      using peer_value [OF assms(3) _ peer] assms(6) by metis
    have tag: "cd_parents r ! i = p" if "i < cd_len r" for i
      using that r by (metis cd_wf_def cd_len_def nth_mem singletonD)
    have "cd_filters ?Q r r' = cd_filters (\<lambda>_. ?Q p) r r'" for r'
      unfolding cd_filters_def by (rule cd_keeps_cong) (simp add: tag)
    then show "\<exists>r'. do {
          bd \<leftarrow> fr_row f (unat p);
          x \<leftarrow> bd_get bd peer;
          case x of None \<Rightarrow> Some r | Some x \<Rightarrow> cd_retain r (\<lambda>y. y = x)
        } = Some r' \<and> cd_filters ?Q r r'"
      using cd_retain_filters [OF r(1)] bd by (cases "fr_assign f (unat p) peer") auto
  qed
  moreover have "confirm_spec (equality_good a b) v f ?Q"
    unfolding confirm_spec_def
  proof (intro allI impI)
    fix p :: u32 and x assume p: "unat p < fr_len f"
    then have none: "fr_assign f (unat p) v = None" using fr_assign_unbound assms(3,4) by blast
    show "(equality_good a b ((fr_assign f (unat p))(v \<mapsto> x)) \<longrightarrow> ?Q p x) \<and> (?Q p x \<longrightarrow>
        equality_good a b (fr_assign f (unat p)) \<longrightarrow> equality_good a b ((fr_assign f (unat p))(v \<mapsto> x)))"
      using equality_peer_good [of a b v peer "fr_assign f (unat p)" x, OF Some none] equality_good_free [of "fr_assign f (unat p)" v a b x] none Some
      by (cases "peer = v") (auto split: option.splits)
  qed
  ultimately show ?thesis using Some by (auto simp: equality_constraint_def)
qed

lemma equality_exact:
  assumes "a < 128" "b < 128"
  shows "exact (equality_constraint a b) (equality_good a b)"
proof
  let ?c = "equality_constraint a b"
  have sat: "c_satisfied ?c bd = Some (equality_good a b (bd_map bd))" if "bd_wf bd" for bd
    using that assms by (auto simp: equality_constraint_def bd_get_map equality_good_def split: option.splits)
  have est: "c_estimate ?c v bd = Some (if \<exists>peer. equality_peer a b v = Some peer \<and> bd_map bd peer \<noteq> None then Some 1 else None)"
    if "bd_wf bd" for v bd
    using that assms by (auto simp: equality_constraint_def bd_get_map equality_peer_def)
  show "equality_good a b \<sigma> = equality_good a b \<tau>" if "\<forall>v \<in> vs_elems (c_variables ?c). \<sigma> v = \<tau> v" for \<sigma> \<tau>
    using that assms by (simp add: equality_constraint_def equality_good_def)
  show "equality_good a b \<tau> \<Longrightarrow> \<sigma> \<subseteq>\<^sub>m \<tau> \<Longrightarrow> equality_good a b \<sigma>" for \<sigma> \<tau>
    unfolding equality_good_def map_le_def by (metis domI)
  show "\<exists>s. c_satisfied ?c bd = Some s \<and> (equality_good a b (bd_map bd) \<longrightarrow> s)" if "bd_wf bd" for bd
    using sat [OF that] by simp
  show "bd_wf bd \<Longrightarrow> c_satisfied ?c bd = Some True \<Longrightarrow> equality_good a b (bd_map bd)" for bd using sat by simp
  show "equality_good a b Map.empty" by (simp add: equality_good_def)
  show "bd_wf bd \<Longrightarrow> \<exists>e. c_estimate ?c v bd = Some e" for v bd using est by simp
  show "c_estimate ?c v bd' = Some None" if "bd_wf bd" "bd_wf bd'" "bd_bound bd = bd_bound bd'" "c_estimate ?c v bd = Some None"
    for v bd bd'
  proof -
    have "dom (bd_map bd) = dom (bd_map bd')" using that dom_bd_map by simp
    then have "bd_map bd peer = None \<longleftrightarrow> bd_map bd' peer = None" for peer by (metis domIff)
    then show ?thesis using that(4) unfolding est [OF that(1)] est [OF that(2)] by (auto split: if_splits)
  qed
  show "bd_wf bd \<Longrightarrow> v \<notin> vs_elems (c_variables ?c) \<Longrightarrow> c_estimate ?c v bd = Some None" for v bd
    using assms by (auto simp: est equality_peer_def equality_constraint_def split: if_splits)
  show "equality_good a b ((bd_map bd)(v \<mapsto> x))"
    if "bd_wf bd" "c_estimate ?c v bd = Some None" "v \<notin> vs_elems (bd_bound bd)" "equality_good a b (bd_map bd)" for v bd x
  proof -
    have none: "bd_map bd v = None" using that(3) by (simp add: bd_map_def)
    show ?thesis
    proof (cases "\<exists>peer. equality_peer a b v = Some peer \<and> peer \<noteq> v")
      case True
      then obtain peer where "equality_peer a b v = Some peer" "peer \<noteq> v" by blast
      then show ?thesis
        using that(2) none equality_peer_good [of a b v peer "bd_map bd"] by (auto simp: est [OF that(1)] split: if_splits)
    next
      case False
      then show ?thesis using equality_good_free [of "bd_map bd" v a b x, OF none] that(4) by (metis not_None_eq)
    qed
  qed
  show "\<exists>pb' rows. c_propose ?c v f pb = Some pb' \<and> pb_wf pb' \<and> pb_rows pb' = pb_rows pb @ rows
      \<and> propose_spec (equality_good a b) v f (offers ?c v f) rows"
    if "fr_wf f" "fr_len f < 2 ^ 32" "v < 128" "v \<notin> vs_elems (fr_bound f)" "pb_wf pb" for f v pb
    using that assms by (intro equality_propose)
  show "\<exists>cs' Q. c_confirm ?c v f cs = Some cs' \<and> cd_filters Q cs cs' \<and> confirm_spec (equality_good a b) v f Q"
    if "fr_wf f" "v < 128" "v \<notin> vs_elems (fr_bound f)" "cd_wf cs" "\<forall>p \<in> set (cd_parents cs). unat p < fr_len f" "fr_len f < 2 ^ 32" for f v cs
    using that assms by (intro equality_confirm)
qed

section \<open>Exactness, proposing, and the interpretations\<close>

context unary
begin

lemma is_lawful: "lawful c (unary_good var P)"
  by unfold_locales

end

lemma constant_exact: "var < 128 \<Longrightarrow> exact (constant_constraint var k) (unary_good var (\<lambda>x. x = k))"
  using constant_unary [of var k]
  by (intro exact.intro unary.is_lawful exact_axioms.intro)
    (auto simp: constant_constraint_def bd_get_map unary_good_def split: option.splits)

lemma range_exact:
  "var < 128 \<Longrightarrow> exact (inline_range var lo hi) (unary_good var (\<lambda>x. x \<ge> lo \<and> x \<le> hi))"
  using range_unary [of var lo hi]
  by (intro exact.intro unary.is_lawful exact_axioms.intro)
    (auto simp: inline_range_def bd_get_map unary_good_def split: option.splits)

lemma unary_lawful: "unary c var P vals n \<Longrightarrow> lawful c (unary_good var P)"
  by (rule unary.is_lawful)

lemma unary_proposing: "unary c var P vals n \<Longrightarrow> n < usize_max \<Longrightarrow> proposing c (unary_good var P) n"
  by (intro proposing.intro unary.is_lawful proposing_axioms.intro)
    (auto simp: unary.estimate unary.variables unary.var)

text \<open>The variables a \<open>VariableContext\<close> can issue.\<close>

typedef query_variable = "{i :: nat. i < 128}"
  morphisms var_index Query_Variable
  by (rule exI [of _ 0]) simp

lemma var_index_less [simp]: "var_index q < 128"
  using var_index [of q] by simp

interpretation constant_leaf: exact "constant_constraint (var_index q) k" "unary_good (var_index q) (\<lambda>x. x = k)" for q k
  by (rule constant_exact) simp

interpretation range_leaf: exact "inline_range (var_index q) lo hi" "unary_good (var_index q) (\<lambda>x. x \<ge> lo \<and> x \<le> hi)" for q lo hi
  by (rule range_exact) simp

interpretation equality_leaf: exact "equality_constraint (var_index q) (var_index r)" "equality_good (var_index q) (var_index r)" for q r
  by (rule equality_exact) simp_all

interpretation id_set: unary "set_constraint id_into_value id_from_value (var_index q) (remdups ids)" "var_index q"
    "\<lambda>x. x \<in> id_into_value ` set (remdups ids)" "map id_into_value (remdups ids)" "length (remdups ids)" for q ids
  by (rule set_unary) (simp_all add: raw_id_codec.inline_codec_axioms)

interpretation value_keys: unary "keys_constraint inline_encode inline_try_from_inline (var_index q) (AList.clearjunk entries)" "var_index q"
    "\<lambda>x. x \<in> inline_encode ` set (map fst (AList.clearjunk entries))" "map inline_encode (map fst (AList.clearjunk entries))"
    "length (map fst (AList.clearjunk entries))" for q entries
  by (rule keys_unary) (simp_all add: inline_codec_self.inline_codec_axioms distinct_clearjunk)

section \<open>Properties\<close>

text \<open>
  C32. The constraints that test a value against a constant, against a closed range of values, and
  against another variable keep the contract of the trait, the fully-bound exactness law included:
  \<open>propose\<close> offers every admissible value once where the estimate says it can, \<open>confirm\<close> kills exactly
  the inadmissible ones, and \<open>satisfied\<close> decides a fully bound row.
\<close>

theorem leaf_constraints_exact:
  assumes "a < 128" "b < 128"
  shows "exact (constant_constraint a k) (unary_good a (\<lambda>x. x = k)) \<and>
    exact (inline_range a lo hi) (unary_good a (\<lambda>x. x \<ge> lo \<and> x \<le> hi)) \<and>
    exact (equality_constraint a b) (equality_good a b)"
  using assms by (simp add: constant_exact range_exact equality_exact)

theorem leaf_constraints_exact_witness:
  "exact (constant_constraint 1 (inline_pad [4])) (unary_good 1 (\<lambda>x. x = inline_pad [4])) \<and>
    exact (inline_range 1 (inline_pad [4]) (inline_pad [6])) (unary_good 1 (\<lambda>x. x \<ge> inline_pad [4] \<and> x \<le> inline_pad [6])) \<and>
    exact (equality_constraint 1 127) (equality_good 1 127)"
  by (rule leaf_constraints_exact) simp_all



text \<open>
  C40. \<open>SortedSlice::new\<close> accepts exactly the data in ascending order, repeated entries included. Over accepted data,
  under an encoding whose decoding inverts it, the constraint estimates the number of entries, proposes for each
  row every entry in order as often as it occurs, and confirms exactly the candidates that encode an entry. When an
  entry is repeated it therefore offers the same value twice for one row, and does not keep the contract, which has
  each candidate of a row once, under any meaning.
\<close>

theorem sorted_slice_entries:
  assumes "v < 128" "inline_codec to_inline try_from_inline"
  shows "(sorted_slice_new data \<noteq> None \<longleftrightarrow> sorted data) \<and>
    (sorted_slice_new data = Some xs \<longrightarrow> xs = data
      \<and> c_estimate (sorted_slice_constraint to_inline try_from_inline v xs) v b = Some (Some (length data))
      \<and> (pb_wf pb \<longrightarrow> (\<exists>pb'. c_propose (sorted_slice_constraint to_inline try_from_inline v xs) v f pb = Some pb'
          \<and> pb_rows pb' = pb_rows pb @ concat (map (\<lambda>row. map (\<lambda>x. (word_of_nat row, to_inline x, True)) data) [0..<fr_len f])))
      \<and> (cd_wf cs \<longrightarrow> (\<exists>cs'. c_confirm (sorted_slice_constraint to_inline try_from_inline v xs) v f cs = Some cs'
          \<and> cd_filters (\<lambda>_ x. x \<in> to_inline ` set data) cs cs'))
      \<and> (\<not> distinct data \<longrightarrow> (\<forall>good. \<not> lawful (sorted_slice_constraint to_inline try_from_inline v xs) good)))"
proof (intro conjI impI allI notI)
  show new: "sorted_slice_new data \<noteq> None \<longleftrightarrow> sorted data" by (simp add: sorted_slice_new_def windows_sorted_iff)
  assume accepted: "sorted_slice_new data = Some xs"
  then show eq: "xs = data" by (simp add: sorted_slice_new_def split: if_splits)
  have "sorted data" using new accepted by simp
  then have found: "binary_search data t \<noteq> None \<longleftrightarrow> t \<in> set data" for t by (rule binary_search_correct(1))
  note methods = collection_methods [OF assms(2) found, folded sorted_slice_constraint_def]
  let ?c = "sorted_slice_constraint to_inline try_from_inline v xs"
  show "c_estimate ?c v b = Some (Some (length data))" by (simp add: eq sorted_slice_constraint_def collection_constraint_def)
  show "\<exists>pb'. c_propose ?c v f pb = Some pb'
      \<and> pb_rows pb' = pb_rows pb @ concat (map (\<lambda>row. map (\<lambda>x. (word_of_nat row, to_inline x, True)) data) [0..<fr_len f])" if "pb_wf pb"
    using methods(1) [OF that, of v f] by (auto simp: eq comp_def)
  show "\<exists>cs'. c_confirm ?c v f cs = Some cs' \<and> cd_filters (\<lambda>_ x. x \<in> to_inline ` set data) cs cs'" if "cd_wf cs"
    using methods(2) [OF that, of v f] by (simp add: eq)
  fix good assume "\<not> distinct data" and law: "lawful ?c good"
  obtain f b where f: "fr_wf f" "fr_len f = 1" "fr_bound f = vs_new_empty" by (rule empty_row)
  have "v \<notin> vs_elems (fr_bound f)" "fr_len f < 2 ^ 32" using f by simp_all
  from lawful.propose [OF law f(1) this(2) assms(1) this(1) pb_wf_new(1)]
  obtain pb' rows where rows: "c_propose ?c v f pb_new = Some pb'" "pb_rows pb' = rows" "propose_spec good v f (offers ?c v f) rows" by auto
  have "rows = map (\<lambda>x. (0, to_inline x, True)) data" using methods(1) [OF pb_wf_new(1), of v f] rows(1,2) f(2) by (auto simp: eq comp_def)
  then have "distinct (map to_inline data)" using rows(3) by (simp add: propose_spec_def comp_def distinct_map inj_on_def)
  with \<open>\<not> distinct data\<close> show False by (simp add: distinct_map)
qed

theorem sorted_slice_entries_witness:
  "sorted_slice_new [inline_pad [1], inline_pad [1]] = Some [inline_pad [1], inline_pad [1]]
    \<and> (\<forall>good. \<not> lawful (sorted_slice_constraint inline_encode inline_try_from_inline 2 [inline_pad [1], inline_pad [1]]) good)"
proof -
  have "sorted_slice_new [inline_pad [1], inline_pad [1]] = Some [inline_pad [1], inline_pad [1]]" by (simp add: sorted_slice_new_def)
  moreover have "\<not> distinct [inline_pad [1], inline_pad [1]]" by simp
  ultimately show ?thesis
    using sorted_slice_entries [OF _ inline_codec_self.inline_codec_axioms, of 2 "[inline_pad [1], inline_pad [1]]" "[inline_pad [1], inline_pad [1]]"] by auto
qed

end
