(* ===== verification/Intersection_Constraint.thy ===== *)
theory Intersection_Constraint
  imports Leaf_Constraints
begin

text \<open>
  \<open>query/intersectionconstraint.rs\<close>: the conjunction of constraints. Each row of the batch is proposed
  by its tightest child; the other children that constrain the variable confirm. When the rows
  disagree on the tightest child, each child proposes for the sub-batch of its rows and the tags are
  lifted back. The intersection of lawful children is lawful, for the conjunction of their predicates.

  \<open>usize::MAX\<close> as \<open>best_child\<close>, the mark for no child, is \<open>None\<close> (a vector has fewer children).
  \<open>sort_unstable_by_key\<close> is a stable sort here: the order of equal estimates is unspecified, and the
  theorems do not depend on it.
\<close>

section \<open>Definitions\<close>

definition ic_variables :: "constraint list \<Rightarrow> variable_set" where
  "ic_variables cs = foldl (\<lambda>vs c. vs_union vs (c_variables c)) vs_new_empty cs"

text \<open>\<open>filter_map(..).min()\<close>.\<close>

definition min_some :: "nat option list \<Rightarrow> nat option" where
  "min_some es = (case List.map_filter id es of [] \<Rightarrow> None | e # es' \<Rightarrow> Some (foldl min e es'))"

definition ic_estimate :: "constraint list \<Rightarrow> nat \<Rightarrow> binding \<Rightarrow> nat option option" where
  "ic_estimate cs v b = do { es \<leftarrow> map_panic (\<lambda>c. c_estimate c v b) cs; Some (min_some es) }"

text \<open>One child of the scan of one row: the state is \<open>best\<close>, \<open>best_child\<close>, \<open>relevant_rows\<close> and \<open>confirmers\<close>.\<close>

type_synonym scan_state = "nat \<times> nat option \<times> nat list \<times> (nat \<times> nat) list"

definition scan_child :: "nat \<Rightarrow> nat \<Rightarrow> binding \<Rightarrow> scan_state \<Rightarrow> nat \<times> constraint \<Rightarrow> scan_state option" where
  "scan_child v row bd = (\<lambda>(best, best_child, relevant, confirmers) (i, c). do {
     r \<leftarrow> c_estimate c v bd;
     case r of None \<Rightarrow> Some (best, best_child, relevant, confirmers)
     | Some e \<Rightarrow> do {
         n \<leftarrow> idx relevant i;
         relevant' \<leftarrow> idx_update relevant i (n + 1);
         let confirmers' = (if row = 0 then confirmers @ [(e, i)] else confirmers);
         if best_child = None \<or> e < best then Some (e, Some i, relevant', confirmers')
         else Some (best, best_child, relevant', confirmers')
       }
   })"

definition scan_row ::
  "constraint list \<Rightarrow> nat \<Rightarrow> frontier \<Rightarrow> nat option list \<times> nat list \<times> (nat \<times> nat) list \<Rightarrow> nat \<Rightarrow>
   (nat option list \<times> nat list \<times> (nat \<times> nat) list) option" where
  "scan_row cs v f = (\<lambda>(choice, relevant, confirmers) row. do {
     bd \<leftarrow> fr_row f row;
     (best, best_child, relevant', confirmers') \<leftarrow>
       for_each (scan_child v row bd) (usize_max, None, relevant, confirmers) (enumerate 0 cs);
     Some (choice @ [best_child], relevant', confirmers')
   })"

text \<open>\<open>if !confirmers.is_sorted_by_key(..) { confirmers.sort_unstable_by_key(..) }\<close>.\<close>

definition sort_confirmers :: "(nat \<times> 'a) list \<Rightarrow> (nat \<times> 'a) list" where
  "sort_confirmers xs = (if sorted (map fst xs) then xs else sort_key fst xs)"

definition confirm_others ::
  "constraint list \<Rightarrow> nat \<Rightarrow> frontier \<Rightarrow> nat \<Rightarrow> (nat \<times> nat) list \<Rightarrow> candidates \<Rightarrow> candidates option" where
  "confirm_others cs v f proposer confirmers region =
     for_each (\<lambda>region (e, i). do { c \<leftarrow> idx cs i; c_confirm c v f region }) region
       (filter (\<lambda>(e, i). i \<noteq> proposer) (sort_confirmers confirmers))"

text \<open>Proposing by one child for the rows of \<open>f\<close> and confirming by the others.\<close>

definition propose_by ::
  "constraint list \<Rightarrow> nat \<Rightarrow> frontier \<Rightarrow> nat \<Rightarrow> (nat \<times> nat) list \<Rightarrow> proposal_buffer \<Rightarrow> proposal_buffer option" where
  "propose_by cs v f proposer confirmers b = do {
     let base = pb_len b;
     c \<leftarrow> idx cs proposer;
     b1 \<leftarrow> c_propose c v f b;
     pb_with_region b1 base (confirm_others cs v f proposer confirmers)
   }"

definition propose_group ::
  "constraint list \<Rightarrow> nat \<Rightarrow> frontier \<Rightarrow> nat option list \<Rightarrow> (nat \<times> nat) list \<Rightarrow> proposal_buffer \<Rightarrow> nat \<Rightarrow>
   proposal_buffer option" where
  "propose_group cs v f choice confirmers b proposer =
     (let positions = map word_of_nat (filter (\<lambda>row. choice ! row = Some proposer) [0..<length choice]) in
      if positions = [] then Some b
      else do {
        select \<leftarrow> fr_compose f positions [];
        let base = pb_len b;
        b1 \<leftarrow> propose_by cs v (fr_with_select f select) proposer confirmers b;
        pb_remap_region b1 base positions
      })"

definition ic_propose :: "constraint list \<Rightarrow> nat \<Rightarrow> frontier \<Rightarrow> proposal_buffer \<Rightarrow> proposal_buffer option" where
  "ic_propose cs v f b =
     (let rows = fr_len f in
      if rows = 0 then Some b
      else do {
        (choice, relevant, confirmers) \<leftarrow>
          for_each (scan_row cs v f) ([], replicate (length cs) 0, []) [0..<rows];
        assert_that (\<forall>n \<in> set relevant. n = 0 \<or> n = rows);
        if \<forall>ch \<in> set choice. ch = None then Some b
        else if \<forall>ch \<in> set choice. ch = hd choice then
          (case hd choice of None \<Rightarrow> None | Some proposer \<Rightarrow> propose_by cs v f proposer confirmers b)
        else for_each (propose_group cs v f choice confirmers) b [0..<length cs]
      })"

definition ic_confirm :: "constraint list \<Rightarrow> nat \<Rightarrow> frontier \<Rightarrow> candidates \<Rightarrow> candidates option" where
  "ic_confirm cs v f cands =
     (if fr_is_empty f then Some cands
      else do {
        bd \<leftarrow> fr_row f 0;
        es \<leftarrow> map_panic (\<lambda>c. c_estimate c v bd) cs;
        let relevant = List.map_filter (\<lambda>(e, c). case e of None \<Rightarrow> None | Some e \<Rightarrow> Some (e, c)) (zip es cs);
        for_each (\<lambda>cands (e, c). c_confirm c v f cands) cands (sort_confirmers relevant)
      })"

definition ic_satisfied :: "constraint list \<Rightarrow> binding \<Rightarrow> bool option" where
  "ic_satisfied cs b = all_panic (\<lambda>c. c_satisfied c b) cs"

definition ic_influence :: "constraint list \<Rightarrow> nat \<Rightarrow> variable_set" where
  "ic_influence cs v = foldl (\<lambda>acc c. vs_union acc (c_influence c v)) vs_new_empty cs"

definition intersection_constraint :: "constraint list \<Rightarrow> constraint" where
  "intersection_constraint cs =
     \<lparr>c_variables = ic_variables cs, c_estimate = ic_estimate cs, c_propose = ic_propose cs,
      c_confirm = ic_confirm cs, c_satisfied = ic_satisfied cs, c_influence = ic_influence cs\<rparr>"

section \<open>The scan\<close>

text \<open>The estimate of child \<open>i\<close> for a row, and what it means to be a tightest child.\<close>

definition row_estimate :: "constraint list \<Rightarrow> nat \<Rightarrow> frontier \<Rightarrow> nat \<Rightarrow> nat \<Rightarrow> nat option" where
  "row_estimate cs v f row i =
     (case fr_row f row of None \<Rightarrow> None | Some bd \<Rightarrow>
       (case c_estimate (cs ! i) v bd of None \<Rightarrow> None | Some e \<Rightarrow> e))"

definition tightest :: "(nat \<Rightarrow> nat option) \<Rightarrow> nat \<Rightarrow> nat option \<Rightarrow> bool" where
  "tightest es n ch \<longleftrightarrow> (case ch of None \<Rightarrow> \<forall>i < n. es i = None
     | Some j \<Rightarrow> j < n \<and> (\<exists>e. es j = Some e \<and> (\<forall>i < n. \<forall>e'. es i = Some e' \<longrightarrow> e \<le> e')))"

definition with_estimate :: "(nat \<Rightarrow> nat option) \<Rightarrow> nat \<Rightarrow> (nat \<times> nat) list" where
  "with_estimate es n = map (\<lambda>i. (the (es i), i)) (filter (\<lambda>i. es i \<noteq> None) [0..<n])"

lemma scan_children:
  assumes est: "\<And>i. i < length cs \<Longrightarrow> c_estimate (cs ! i) v bd = Some (es i)" and "length relevant = length cs"
  shows "\<exists>best ch relevant'. for_each (scan_child v row bd) (usize_max, None, relevant, confirmers) (enumerate 0 cs)
      = Some (best, ch, relevant', confirmers @ (if row = 0 then with_estimate es (length cs) else []))
    \<and> length relevant' = length cs
    \<and> (\<forall>i < length cs. relevant' ! i = relevant ! i + (if es i = None then 0 else 1)) \<and> tightest es (length cs) ch"
proof -
  define I where "I k st \<longleftrightarrow> (case st of (best, ch, rel, conf) \<Rightarrow>
      conf = confirmers @ (if row = 0 then with_estimate es k else []) \<and> length rel = length cs \<and>
      (\<forall>i < length cs. rel ! i = relevant ! i + (if i < k \<and> es i \<noteq> None then 1 else 0)) \<and>
      tightest es k ch \<and> (ch \<noteq> None \<longrightarrow> es (the ch) = Some best))" for k st
  have "\<exists>st. for_each (scan_child v row bd) (usize_max, None, relevant, confirmers) (enumerate 0 cs) = Some st
      \<and> I (length (enumerate 0 cs)) st"
  proof (rule for_each_invariant)
    show "I 0 (usize_max, None, relevant, confirmers)"
      using assms(2) by (simp add: I_def tightest_def with_estimate_def)
  next
    fix k st assume "k < length (enumerate 0 cs)" and Ik: "I k st"
    then have k: "k < length cs" "enumerate 0 cs ! k = (k, cs ! k)" by (simp_all add: nth_enumerate_eq)
    obtain best ch rel conf where st: "st = (best, ch, rel, conf)" by (cases st) auto
    note I = Ik [unfolded I_def st prod.case]
    have we: "with_estimate es (Suc k) = with_estimate es k @ (case es k of None \<Rightarrow> [] | Some e \<Rightarrow> [(e, k)])"
      by (auto simp: with_estimate_def)
    show "\<exists>st'. scan_child v row bd st (enumerate 0 cs ! k) = Some st' \<and> I (Suc k) st'"
    proof (cases "es k")
      case None
      then have "scan_child v row bd st (k, cs ! k) = Some st" using est [OF k(1)] by (simp add: scan_child_def st)
      moreover have "I (Suc k) st"
        using I None we by (auto simp: I_def st tightest_def less_Suc_eq split: option.splits)
      ultimately show ?thesis using k(2) by simp
    next
      case (Some e)
      define st' where "st' = (if ch = None \<or> e < best then e else best, if ch = None \<or> e < best then Some k else ch,
        rel[k := rel ! k + 1], if row = 0 then conf @ [(e, k)] else conf)"
      have "scan_child v row bd st (k, cs ! k) = Some st'"
        using est [OF k(1)] Some I k(1) by (simp add: scan_child_def st st'_def Let_def)
      moreover have "tightest es (Suc k) (if ch = None \<or> e < best then Some k else ch)"
        using I Some by (auto simp: tightest_def less_Suc_eq split: option.splits if_splits)
      then have "I (Suc k) st'"
        using I Some we k(1) by (auto simp: I_def st'_def nth_list_update less_Suc_eq)
      ultimately show ?thesis using k(2) by simp
    qed
  qed
  then show ?thesis by (auto simp: I_def)
qed

lemma scan_rows:
  assumes "fr_wf f" "n \<le> fr_len f"
    and est: "\<And>row bd i. row < fr_len f \<Longrightarrow> fr_row f row = Some bd \<Longrightarrow> i < length cs \<Longrightarrow> \<exists>e. c_estimate (cs ! i) v bd = Some e"
  shows "\<exists>choice relevant. for_each (scan_row cs v f) ([], replicate (length cs) 0, []) [0..<n] =
      Some (choice, relevant, if n = 0 then [] else with_estimate (row_estimate cs v f 0) (length cs))
    \<and> length choice = n \<and> (\<forall>row < n. tightest (row_estimate cs v f row) (length cs) (choice ! row))
    \<and> length relevant = length cs
    \<and> (\<forall>i < length cs. relevant ! i = length (filter (\<lambda>row. row_estimate cs v f row i \<noteq> None) [0..<n]))"
  using assms(2)
proof (induction n)
  case 0
  then show ?case by simp
next
  case (Suc n)
  then obtain choice relevant where ih: "for_each (scan_row cs v f) ([], replicate (length cs) 0, []) [0..<n] =
      Some (choice, relevant, if n = 0 then [] else with_estimate (row_estimate cs v f 0) (length cs))"
    "length choice = n" "\<forall>row < n. tightest (row_estimate cs v f row) (length cs) (choice ! row)"
    "length relevant = length cs"
    "\<forall>i < length cs. relevant ! i = length (filter (\<lambda>row. row_estimate cs v f row i \<noteq> None) [0..<n])"
    by auto
  have "n < fr_len f" using Suc.prems by simp
  then obtain bd where bd: "fr_row f n = Some bd" using assms(1) by (auto simp: fr_wf_def)
  have "c_estimate (cs ! i) v bd = Some (row_estimate cs v f n i)" if "i < length cs" for i
    using est [OF _ bd that] Suc.prems bd by (auto simp: row_estimate_def)
  moreover have "(if n = 0 then [] else with_estimate (row_estimate cs v f 0) (length cs))
      @ (if n = 0 then with_estimate (row_estimate cs v f n) (length cs) else []) =
      with_estimate (row_estimate cs v f 0) (length cs)" by simp
  ultimately
  obtain best ch relevant' where sc: "for_each (scan_child v n bd)
      (usize_max, None, relevant, if n = 0 then [] else with_estimate (row_estimate cs v f 0) (length cs)) (enumerate 0 cs)
      = Some (best, ch, relevant', with_estimate (row_estimate cs v f 0) (length cs))" "length relevant' = length cs"
    "\<forall>i < length cs. relevant' ! i = relevant ! i + (if row_estimate cs v f n i = None then 0 else 1)"
    "tightest (row_estimate cs v f n) (length cs) ch"
    using scan_children [OF _ ih(4), of v bd "row_estimate cs v f n" n
        "if n = 0 then [] else with_estimate (row_estimate cs v f 0) (length cs)"] by metis
  have "for_each (scan_row cs v f) ([], replicate (length cs) 0, []) [0..<Suc n] =
      Some (choice @ [ch], relevant', with_estimate (row_estimate cs v f 0) (length cs))"
    using ih(1) sc(1) bd by (simp add: for_each_append scan_row_def)
  with ih sc show ?case by (auto simp: nth_append less_Suc_eq)
qed

section \<open>Lawful children\<close>

definition all_good :: "(constraint \<times> (assignment \<Rightarrow> bool)) list \<Rightarrow> assignment \<Rightarrow> bool" where
  "all_good cgs \<sigma> \<longleftrightarrow> (\<forall>cg \<in> set cgs. snd cg \<sigma>)"

text \<open>What a sequence of confirmers with predicates \<open>G\<close> does.\<close>

definition confirm_spec_all :: "(assignment \<Rightarrow> bool) set \<Rightarrow> nat \<Rightarrow> frontier \<Rightarrow> (u32 \<Rightarrow> raw_inline \<Rightarrow> bool) \<Rightarrow> bool" where
  "confirm_spec_all G v f Q \<longleftrightarrow> (\<forall>p x. unat p < fr_len f \<longrightarrow>
     ((\<forall>g \<in> G. g ((fr_assign f (unat p))(v \<mapsto> x))) \<longrightarrow> Q p x) \<and>
     (Q p x \<longrightarrow> (\<forall>g \<in> G. g (fr_assign f (unat p)) \<longrightarrow> g ((fr_assign f (unat p))(v \<mapsto> x)))))"

lemma confirm_spec_all_insert:
  "confirm_spec g v f P \<Longrightarrow> confirm_spec_all G v f Q \<Longrightarrow> confirm_spec_all (insert g G) v f (\<lambda>p x. P p x \<and> Q p x)"
  unfolding confirm_spec_def confirm_spec_all_def by (metis insert_iff)

lemma confirm_sequence:
  assumes "\<And>c g. (c, g) \<in> set cgs \<Longrightarrow> lawful c g"
    and f: "fr_wf f" "v < 128" "v \<notin> vs_elems (fr_bound f)"
    and "cd_wf cands" "\<forall>p \<in> set (cd_parents cands). unat p < fr_len f" and small: "fr_len f < 2 ^ 32"
  shows "\<exists>cands' Q. for_each (\<lambda>cands c. c_confirm c v f cands) cands (map fst cgs) = Some cands'
    \<and> cd_filters Q cands cands' \<and> confirm_spec_all (snd ` set cgs) v f Q"
  using assms(1,5,6)
proof (induction cgs arbitrary: cands)
  case Nil
  have "confirm_spec_all {} v f (\<lambda>_ _. True)" by (simp add: confirm_spec_all_def)
  then show ?case using cd_filters_refl by fastforce
next
  case (Cons cg cgs)
  obtain c g where cg: "cg = (c, g)" by force
  then have "lawful c g" using Cons.prems(1) by simp
  then obtain c1 P where c1: "c_confirm c v f cands = Some c1" "cd_filters P cands c1" "confirm_spec g v f P"
    using lawful.confirm [of c g f v cands] f small Cons.prems(2,3) by blast
  have "cd_wf c1" using c1(2) Cons.prems(2) by (rule cd_filters_wf)
  moreover have "\<forall>p \<in> set (cd_parents c1). unat p < fr_len f"
    using Cons.prems(3) cd_filters_shape [OF c1(2)] by (simp add: cd_same_shape_def)
  ultimately obtain c2 Q where c2: "for_each (\<lambda>cands c. c_confirm c v f cands) c1 (map fst cgs) = Some c2"
    "cd_filters Q c1 c2" "confirm_spec_all (snd ` set cgs) v f Q"
    using Cons.IH [of c1] Cons.prems(1) by (meson list.set_intros(2))
  have "cd_filters (\<lambda>p x. P p x \<and> Q p x) cands c2" using c1(2) c2(2) by (rule cd_filters_trans)
  then show ?case using c1 c2 confirm_spec_all_insert [OF c1(3) c2(3)] cg by auto
qed

lemma set_sort_confirmers [simp]: "set (sort_confirmers xs) = set xs"
  by (simp add: sort_confirmers_def)

text \<open>Killing the proposals of one constraint that others reject proposes the conjunction.\<close>

lemma propose_spec_kill:
  assumes spec: "propose_spec g v f off rows" and Q: "confirm_spec_all G v f Q" and len: "fr_len f < 2 ^ 32"
    and goodD: "\<And>\<sigma>. good \<sigma> \<Longrightarrow> g \<sigma> \<and> (\<forall>h \<in> G. h \<sigma>)"
    and goodI: "\<And>p x. p < fr_len f \<Longrightarrow> good (fr_assign f p) \<Longrightarrow> g ((fr_assign f p)(v \<mapsto> x)) \<Longrightarrow>
      \<forall>h \<in> G. h ((fr_assign f p)(v \<mapsto> x)) \<Longrightarrow> good ((fr_assign f p)(v \<mapsto> x))"
  shows "propose_spec good v f off (kill_rows Q rows)"
proof -
  have kr: "(p, x, l) \<in> set (kill_rows Q rows) \<longleftrightarrow> (\<exists>l'. (p, x, l') \<in> set rows \<and> l = (l' \<and> Q p x))" for p x l
  proof
    assume "(p, x, l) \<in> set (kill_rows Q rows)"
    then obtain r where "r \<in> set rows" "(p, x, l) = (\<lambda>(p, v, l). (p, v, l \<and> Q p v)) r"
      unfolding kill_rows_def by auto
    then show "\<exists>l'. (p, x, l') \<in> set rows \<and> l = (l' \<and> Q p x)" by (auto split: prod.splits)
  next
    assume "\<exists>l'. (p, x, l') \<in> set rows \<and> l = (l' \<and> Q p x)"
    then obtain l' where l': "(p, x, l') \<in> set rows" "l = (l' \<and> Q p x)" by blast
    have "(\<lambda>(p, v, l). (p, v, l \<and> Q p v)) (p, x, l') \<in> (\<lambda>(p, v, l). (p, v, l \<and> Q p v)) ` set rows"
      using l'(1) by (rule imageI)
    then show "(p, x, l) \<in> set (kill_rows Q rows)" using l'(2) by (simp add: kill_rows_def)
  qed
  have tag: "unat p < fr_len f" if "(p, x, l) \<in> set rows" for p x l
    using spec that by (auto simp: propose_spec_def)
  have sound: "good ((fr_assign f (unat p))(v \<mapsto> x))"
    if r: "(p, x, True) \<in> set (kill_rows Q rows)" and good: "good (fr_assign f (unat p))" for p x
  proof -
    have r': "(p, x, True) \<in> set rows" "Q p x" using r unfolding kr by auto
    have "g ((fr_assign f (unat p))(v \<mapsto> x))"
      using spec r'(1) goodD [OF good] by (fastforce simp: propose_spec_def)
    moreover have "\<forall>h \<in> G. h ((fr_assign f (unat p))(v \<mapsto> x))"
      using Q r' tag [OF r'(1)] goodD [OF good] unfolding confirm_spec_all_def by blast
    ultimately show ?thesis using goodI tag [OF r'(1)] good by blast
  qed
  have complete: "(word_of_nat p, x, True) \<in> set (kill_rows Q rows)"
    if p: "p < fr_len f" "off p" and good: "good ((fr_assign f p)(v \<mapsto> x))" for p x
  proof -
    have r: "(word_of_nat p, x, True) \<in> set rows"
      using spec p goodD [OF good] by (auto simp: propose_spec_def)
    have "unat (word_of_nat p :: u32) = p" using p(1) len by (rule tag_of_row)
    then have "Q (word_of_nat p) x" using Q p(1) goodD [OF good] unfolding confirm_spec_all_def by metis
    then show ?thesis using r unfolding kr by auto
  qed
  have "map (\<lambda>r. (row_tag r, row_value r)) (filter row_live (kill_rows Q rows)) =
      filter (\<lambda>(p, x). Q p x) (map (\<lambda>r. (row_tag r, row_value r)) (filter row_live rows))"
    by (induction rows) (auto simp: kill_rows_def)
  then have "distinct (map (\<lambda>r. (row_tag r, row_value r)) (filter row_live (kill_rows Q rows)))"
    using spec by (simp add: propose_spec_def)
  moreover have "unat (row_tag r) < fr_len f" if "r \<in> set (kill_rows Q rows)" for r
    using that tag kr by (metis prod_cases3 row_sel(1))
  ultimately show ?thesis using sound complete unfolding propose_spec_def by auto
qed

text \<open>Proposals for disjoint sets of rows can be appended; proposals for a sub-batch can be lifted.\<close>

lemma propose_spec_append:
  assumes "propose_spec good v f A xs" "propose_spec good v f B ys"
    and "\<And>r s. r \<in> set xs \<Longrightarrow> s \<in> set ys \<Longrightarrow> row_tag r \<noteq> row_tag s"
  shows "propose_spec good v f (\<lambda>p. A p \<or> B p) (xs @ ys)"
proof -
  have "(\<lambda>r. (row_tag r, row_value r)) ` set (filter row_live xs) \<inter> (\<lambda>r. (row_tag r, row_value r)) ` set (filter row_live ys) = {}"
    using assms(3) by auto
  then show ?thesis using assms(1,2) unfolding propose_spec_def by auto
qed

lemma propose_spec_remap:
  assumes spec: "propose_spec good v sub off rows" and ps: "distinct ps" "length ps = fr_len sub" "length ps < 2 ^ 32"
    and "\<And>i. i < length ps \<Longrightarrow> unat (ps ! i) < fr_len f \<and> fr_assign sub i = fr_assign f (unat (ps ! i))"
  shows "propose_spec good v f (\<lambda>p. \<exists>i < length ps. unat (ps ! i) = p \<and> off i) (map (\<lambda>(p, x, l). (ps ! unat p, x, l)) rows)"
proof -
  let ?m = "\<lambda>(p, x, l). (ps ! unat p, x, l)"
  have tag: "unat (row_tag r) < length ps" if "r \<in> set rows" for r
    using spec that ps(2) by (simp add: propose_spec_def)
  have m: "row_tag (?m r) = ps ! unat (row_tag r)" "row_value (?m r) = row_value r" "row_live (?m r) = row_live r" for r
    by (auto split: prod.splits)
  have "inj_on (\<lambda>(p, x). (ps ! unat p, x)) ((\<lambda>r. (row_tag r, row_value r)) ` set (filter row_live rows))"
    using tag ps(1) by (auto simp: inj_on_def nth_eq_iff_index_eq intro: word_unat_eq_iff [THEN iffD2])
  moreover have "map (\<lambda>r. (row_tag r, row_value r)) (filter row_live (map ?m rows)) =
      map (\<lambda>(p, x). (ps ! unat p, x)) (map (\<lambda>r. (row_tag r, row_value r)) (filter row_live rows))"
    by (induction rows) auto
  moreover have "distinct (map (\<lambda>r. (row_tag r, row_value r)) (filter row_live rows))"
    using spec by (simp only: propose_spec_def)
  ultimately have "distinct (map (\<lambda>r. (row_tag r, row_value r)) (filter row_live (map ?m rows)))"
    by (simp only: distinct_map [of _ "map (\<lambda>r. (row_tag r, row_value r)) (filter row_live rows)"] set_map simp_thms)
  moreover have "(word_of_nat p, x, True) \<in> set (map ?m rows)"
    if i: "i < length ps" "unat (ps ! i) = p" "off i" and good: "good ((fr_assign f p)(v \<mapsto> x))" for p i x
  proof -
    have "(word_of_nat i, x, True) \<in> set rows"
      using spec i good ps(2) assms(5) [OF i(1)] by (auto simp: propose_spec_def)
    then have "(ps ! unat (word_of_nat i :: u32), x, True) \<in> set (map ?m rows)"
      unfolding set_map by (rule image_eqI [rotated]) simp
    moreover have "unat (word_of_nat i :: u32) = i" using i(1) ps(3) by (rule tag_of_row)
    moreover have "ps ! i = word_of_nat p" unfolding i(2) [symmetric] by simp
    ultimately show ?thesis by simp
  qed
  moreover have "good (fr_assign f (unat (row_tag (?m r)))) \<longrightarrow> good ((fr_assign f (unat (row_tag (?m r))))(v \<mapsto> row_value (?m r)))"
    if "r \<in> set rows" "row_live (?m r)" for r
  proof -
    have "row_live r" using that(2) unfolding m .
    then have "good (fr_assign sub (unat (row_tag r))) \<longrightarrow> good ((fr_assign sub (unat (row_tag r)))(v \<mapsto> row_value r))"
      using spec that by (simp add: propose_spec_def)
    then show ?thesis unfolding m using assms(5) [OF tag [OF that(1)]] by simp
  qed
  moreover have "unat (row_tag (?m r)) < fr_len f" if "r \<in> set rows" for r
    unfolding m using assms(5) tag [OF that] by blast
  ultimately show ?thesis unfolding propose_spec_def set_map ball_simps by blast
qed

lemma map_filter_id_Nil: "List.map_filter id es = [] \<longleftrightarrow> (\<forall>e \<in> set es. e = None)"
  by (induction es) (auto simp: map_filter_simps split: option.splits)

lemma set_map_filter_id: "e \<in> set (List.map_filter id es) \<longleftrightarrow> Some e \<in> set es"
  by (induction es) (auto simp: map_filter_simps split: option.splits)

lemma foldl_min: "foldl min (e :: nat) es \<in> insert e (set es) \<and> (\<forall>e' \<in> insert e (set es). foldl min e es \<le> e')"
proof (induction es arbitrary: e)
  case (Cons a es)
  have "foldl min (min e a) es \<in> insert (min e a) (set es)" "foldl min (min e a) es \<le> min e a"
    "\<forall>e' \<in> set es. foldl min (min e a) es \<le> e'" using Cons.IH [of "min e a"] by auto
  then show ?case by (cases "e \<le> a") (auto simp: min_absorb1 min_absorb2)
qed simp

lemma min_some_None: "min_some es = None \<longleftrightarrow> (\<forall>e \<in> set es. e = None)"
  by (auto simp: min_some_def map_filter_id_Nil [symmetric] split: list.splits)

lemma min_some_Some:
  assumes "min_some es = Some m"
  shows "Some m \<in> set es" "Some e \<in> set es \<Longrightarrow> m \<le> e"
proof -
  obtain a as where as: "List.map_filter id es = a # as" "m = foldl min a as"
    using assms by (auto simp: min_some_def split: list.splits)
  then have "m \<in> set (List.map_filter id es)" "\<forall>e \<in> set (List.map_filter id es). m \<le> e"
    using foldl_min [of a as] by auto
  then show "Some m \<in> set es" "Some e \<in> set es \<Longrightarrow> m \<le> e" by (auto simp: set_map_filter_id)
qed

lemma ic_variables_elems: "vs_elems (ic_variables cs) = (\<Union>c \<in> set cs. vs_elems (c_variables c))"
proof -
  have "vs_elems (foldl (\<lambda>vs c. vs_union vs (c_variables c)) acc cs) = vs_elems acc \<union> (\<Union>c \<in> set cs. vs_elems (c_variables c))" for acc
    by (induction cs arbitrary: acc) auto
  then show ?thesis by (simp add: ic_variables_def)
qed

lemma ic_influence_elems: "vs_elems (ic_influence cs v) = (\<Union>c \<in> set cs. vs_elems (c_influence c v))"
proof -
  have "vs_elems (foldl (\<lambda>vs c. vs_union vs (c_influence c v)) acc cs) = vs_elems acc \<union> (\<Union>c \<in> set cs. vs_elems (c_influence c v))" for acc
    by (induction cs arbitrary: acc) auto
  then show ?thesis by (simp add: ic_influence_def)
qed

lemma set_with_estimate: "(e, i) \<in> set (with_estimate es n) \<longleftrightarrow> i < n \<and> es i = Some e"
  by (force simp: with_estimate_def image_iff)

lemma filter_all_or_none:
  "(\<And>i j. i < n \<Longrightarrow> j < n \<Longrightarrow> P i = P j) \<Longrightarrow> length (filter P [0..<n]) = 0 \<or> length (filter P [0..<n]) = n"
proof (cases "\<exists>i < n. P i")
  case True
  assume "\<And>i j. i < n \<Longrightarrow> j < n \<Longrightarrow> P i = P j"
  with True have "\<forall>x \<in> set [0..<n]. P x" by (metis atLeastLessThan_iff set_upt)
  then have "filter P [0..<n] = [0..<n]" by (simp only: filter_True)
  then show ?thesis by simp
next
  case False
  then have "\<forall>x \<in> set [0..<n]. \<not> P x" by simp
  then have "filter P [0..<n] = []" by (simp only: filter_False)
  then show ?thesis by simp
qed

lemma insort_key_map: "insort_key f (g x) (map g xs) = map g (insort_key (\<lambda>x. f (g x)) x xs)"
  by (induction xs) auto

lemma sort_key_map: "sort_key f (map g xs) = map g (sort_key (\<lambda>x. f (g x)) xs)"
  by (induction xs) (simp_all add: insort_key_map)

lemma sort_confirmers_map: "sort_confirmers (map (\<lambda>(e, i). (e, h i)) xs) = map (\<lambda>(e, i). (e, h i)) (sort_confirmers xs)"
  by (simp add: sort_confirmers_def sort_key_map comp_def case_prod_beta)

lemma relevant_eq_with_estimate:
  assumes "length es = length cs"
  shows "List.map_filter (\<lambda>(e, c). case e of None \<Rightarrow> None | Some e \<Rightarrow> Some (e, c)) (zip es cs) =
    map (\<lambda>(e, i). (e, cs ! i)) (with_estimate ((!) es) (length cs))"
proof -
  have "zip es cs = map (\<lambda>i. (es ! i, cs ! i)) [0..<length cs]"
    using assms by (intro nth_equalityI) auto
  moreover have "((\<lambda>x. x \<noteq> None) \<circ> (\<lambda>(e, c). case e of None \<Rightarrow> None | Some e \<Rightarrow> Some (e, c))) \<circ> (\<lambda>i. (es ! i, cs ! i)) =
      (\<lambda>i. es ! i \<noteq> None)" by (auto simp: fun_eq_iff split: option.splits)
  ultimately show ?thesis
    by (auto simp: List.map_filter_def with_estimate_def filter_map comp_def split: option.splits)
qed

locale children =
  fixes cgs :: "(constraint \<times> (assignment \<Rightarrow> bool)) list"
  assumes child_lawful: "i < length cgs \<Longrightarrow> lawful (fst (cgs ! i)) (snd (cgs ! i))"
begin

lemma member_lawful: "(c, g) \<in> set cgs \<Longrightarrow> lawful c g"
  using child_lawful by (metis fst_conv in_set_conv_nth snd_conv)

lemma confirm_others_spec:
  assumes "\<forall>(e, i) \<in> set confirmers. i < length cgs"
    and "fr_wf f" "v < 128" "v \<notin> vs_elems (fr_bound f)" "cd_wf region" "\<forall>p \<in> set (cd_parents region). unat p < fr_len f" "fr_len f < 2 ^ 32"
  shows "\<exists>region' Q. confirm_others (map fst cgs) v f proposer confirmers region = Some region'
    \<and> cd_filters Q region region'
    \<and> confirm_spec_all {snd (cgs ! i) | e i. (e, i) \<in> set confirmers \<and> i \<noteq> proposer} v f Q"
proof -
  let ?L = "filter (\<lambda>(e, i). i \<noteq> proposer) (sort_confirmers confirmers)"
  let ?cgs = "map (\<lambda>(e, i). cgs ! i) ?L"
  have "confirm_others (map fst cgs) v f proposer confirmers region =
      for_each (\<lambda>cands c. c_confirm c v f cands) region (map fst ?cgs)"
    unfolding confirm_others_def for_each_map
    by (rule for_each_cong) (use assms(1) in \<open>auto simp: case_prod_beta\<close>)
  moreover have "lawful c g" if "(c, g) \<in> set ?cgs" for c g
    using that assms(1) by (auto intro!: member_lawful dest!: nth_mem simp: case_prod_beta)
  then have "\<exists>cands' Q. for_each (\<lambda>cands c. c_confirm c v f cands) region (map fst ?cgs) = Some cands'
      \<and> cd_filters Q region cands' \<and> confirm_spec_all (snd ` set ?cgs) v f Q"
    using assms by (intro confirm_sequence)
  moreover have "snd ` set ?cgs = {snd (cgs ! i) | e i. (e, i) \<in> set confirmers \<and> i \<noteq> proposer}"
    by (force simp: image_iff)
  ultimately show ?thesis by simp
qed

text \<open>One child proposes and the other relevant ones confirm: the conjunction is proposed.\<close>

lemma propose_by_spec:
  assumes j: "proposer < length cgs" and conf: "\<forall>(e, i) \<in> set confirmers. i < length cgs"
    and f: "fr_wf f" "fr_len f < 2 ^ 32" "v < 128" "v \<notin> vs_elems (fr_bound f)" and "pb_wf b"
    and irrelevant: "\<And>i row bd. i < length cgs \<Longrightarrow> i \<notin> snd ` set confirmers \<Longrightarrow> row < fr_len f \<Longrightarrow>
      fr_row f row = Some bd \<Longrightarrow> c_estimate (fst (cgs ! i)) v bd = Some None"
  shows "\<exists>b' rows. propose_by (map fst cgs) v f proposer confirmers b = Some b' \<and> pb_wf b'
    \<and> pb_rows b' = pb_rows b @ rows \<and> propose_spec (all_good cgs) v f (offers (fst (cgs ! proposer)) v f) rows"
proof -
  let ?g = "snd (cgs ! proposer)" and ?c = "fst (cgs ! proposer)"
  obtain b1 rows where b1: "c_propose ?c v f b = Some b1" "pb_wf b1" "pb_rows b1 = pb_rows b @ rows"
    "propose_spec ?g v f (offers ?c v f) rows"
    using lawful.propose [OF child_lawful [OF j] f assms(7)] by blast
  have len: "pb_len b \<le> pb_len b1" using b1(3) by (metis length_append length_pb_rows le_add1)
  have drop: "drop (pb_len b) (pb_rows b1) = rows" "take (pb_len b) (pb_rows b1) = pb_rows b" using b1(3) by simp_all
  have tags: "unat p < fr_len f" if "pb_region b1 (pb_len b) = Some region" "p \<in> set (cd_parents region)" for region p
  proof -
    have "cd_parents region = drop (pb_len b) (pb_parents b1)" using pb_region_eq [OF b1(2) len] that(1) by auto
    also have "\<dots> = map row_tag rows"
      unfolding drop(1) [symmetric] using b1(2) by (auto simp: list_eq_iff_nth_eq pb_wf_def)
    finally show ?thesis using b1(4) that(2) by (auto simp: propose_spec_def)
  qed
  obtain region where region: "pb_region b1 (pb_len b) = Some region" "cd_wf region" using pb_region_eq [OF b1(2) len] by blast
  then obtain region' Q where Q: "confirm_others (map fst cgs) v f proposer confirmers region = Some region'"
    "cd_filters Q region region'"
    "confirm_spec_all {snd (cgs ! i) | e i. (e, i) \<in> set confirmers \<and> i \<noteq> proposer} v f Q"
    using confirm_others_spec [OF conf f(1,3,4)] tags f(2) by blast
  then obtain b2 where b2: "pb_with_region b1 (pb_len b) (confirm_others (map fst cgs) v f proposer confirmers) = Some b2"
    "pb_wf b2" "pb_rows b2 = pb_rows b @ kill_rows Q rows"
    using pb_with_region_rows [OF b1(2) len, of "confirm_others (map fst cgs) v f proposer confirmers" Q] region(1)
    unfolding drop by auto
  have "propose_by (map fst cgs) v f proposer confirmers b = Some b2"
    using j b1(1) b2(1) by (simp add: propose_by_def)
  moreover have "propose_spec (all_good cgs) v f (offers ?c v f) (kill_rows Q rows)"
  proof (rule propose_spec_kill [OF b1(4) Q(3) f(2)])
    fix \<sigma> assume "all_good cgs \<sigma>"
    then show "?g \<sigma> \<and> (\<forall>h \<in> {snd (cgs ! i) | e i. (e, i) \<in> set confirmers \<and> i \<noteq> proposer}. h \<sigma>)"
      using j conf by (auto simp: all_good_def)
  next
    fix p x assume p: "p < fr_len f" and good: "all_good cgs (fr_assign f p)"
      and g: "?g ((fr_assign f p)(v \<mapsto> x))"
      and others: "\<forall>h \<in> {snd (cgs ! i) | e i. (e, i) \<in> set confirmers \<and> i \<noteq> proposer}. h ((fr_assign f p)(v \<mapsto> x))"
    obtain bd where bd: "fr_row f p = Some bd" "bd_wf bd" "bd_map bd = fr_assign f p" "bd_bound bd = fr_bound f"
      using fr_rowE [OF f(1) p] by metis
    have "snd (cgs ! i) ((fr_assign f p)(v \<mapsto> x))" if i: "i < length cgs" for i
    proof (cases "i \<in> snd ` set confirmers")
      case True
      then show ?thesis using g others by (cases "i = proposer") (auto, blast)
    next
      case False
      have "snd (cgs ! i) (bd_map bd)" using good i bd(3) by (simp add: all_good_def)
      then show ?thesis
        using lawful.estimate_none [OF child_lawful [OF i] bd(2) irrelevant [OF i False p bd(1)]] bd f(4) by simp
    qed
    then show "all_good cgs ((fr_assign f p)(v \<mapsto> x))" unfolding all_good_def by (metis in_set_conv_nth)
  qed
  ultimately show ?thesis using b2 by blast
qed

lemma propose_group_spec:
  assumes k: "k < length cgs" and conf: "\<forall>(e, i) \<in> set confirmers. i < length cgs"
    and f: "fr_wf f" "fr_len f < 2 ^ 32" "v < 128" "v \<notin> vs_elems (fr_bound f)" and "pb_wf b" and "length choice = fr_len f"
    and irrelevant: "\<And>i row bd. i < length cgs \<Longrightarrow> i \<notin> snd ` set confirmers \<Longrightarrow> row < fr_len f \<Longrightarrow>
      fr_row f row = Some bd \<Longrightarrow> c_estimate (fst (cgs ! i)) v bd = Some None"
  shows "\<exists>b' rows. propose_group (map fst cgs) v f choice confirmers b k = Some b' \<and> pb_wf b'
    \<and> pb_rows b' = pb_rows b @ rows \<and> (\<forall>r \<in> set rows. choice ! unat (row_tag r) = Some k)
    \<and> propose_spec (all_good cgs) v f (\<lambda>p. choice ! p = Some k \<and> offers (fst (cgs ! k)) v f p) rows"
proof -
  define js where "js = filter (\<lambda>row. choice ! row = Some k) [0..<fr_len f]"
  define ps where "ps = map (word_of_nat :: nat \<Rightarrow> u32) js"
  have js: "j < fr_len f" "choice ! j = Some k" "unat (word_of_nat j :: u32) = j" if "j \<in> set js" for j
    using that tag_of_row [OF _ f(2), of j] by (auto simp: js_def)
  have pos: "map word_of_nat (filter (\<lambda>row. choice ! row = Some k) [0..<length choice]) = ps"
    using assms(8) by (simp add: ps_def js_def)
  have psn: "unat (ps ! i) = js ! i" "js ! i < fr_len f" "choice ! (js ! i) = Some k" if "i < length ps" for i
    using that js [of "js ! i"] by (auto simp: ps_def)
  show ?thesis
  proof (cases "ps = []")
    case True
    then have "\<not> (p < fr_len f \<and> choice ! p = Some k)" for p by (auto simp: ps_def js_def filter_empty_conv)
    then have "propose_spec (all_good cgs) v f (\<lambda>p. choice ! p = Some k \<and> offers (fst (cgs ! k)) v f p) []"
      by (auto simp: propose_spec_def)
    then show ?thesis using True assms(7) by (auto simp: propose_group_def pos)
  next
    case False
    define sub where "sub = fr_with_select f (map (\<lambda>p. rs_list (fr_select f) ! unat p) ps)"
    have psl: "unat p < fr_len f" if "p \<in> set ps" for p using that psn by (metis in_set_conv_nth)
    note sub = fr_sub_batch [OF f(1), of ps, OF psl, folded sub_def]
    have "length js \<le> fr_len f" unfolding js_def by (rule order_trans [OF length_filter_le]) simp
    then have small: "length ps < 2 ^ 32" using f(2) by (simp add: ps_def)
    have irr: "c_estimate (fst (cgs ! i)) v bd = Some None"
      if "i < length cgs" "i \<notin> snd ` set confirmers" "row < fr_len sub" "fr_row sub row = Some bd" for i row bd
      using that sub psn [of row] by (intro irrelevant [of i "js ! row"]) auto
    have "\<exists>b1 rows. propose_by (map fst cgs) v sub k confirmers b = Some b1 \<and> pb_wf b1 \<and> pb_rows b1 = pb_rows b @ rows
        \<and> propose_spec (all_good cgs) v sub (offers (fst (cgs ! k)) v sub) rows"
      by (rule propose_by_spec [OF k conf sub(1) _ f(3) _ assms(7) irr]) (use sub small f in auto)
    then obtain b1 rows where b1: "propose_by (map fst cgs) v sub k confirmers b = Some b1" "pb_wf b1"
      "pb_rows b1 = pb_rows b @ rows" "propose_spec (all_good cgs) v sub (offers (fst (cgs ! k)) v sub) rows" by blast
    have len: "pb_len b \<le> pb_len b1" using b1(3) by (metis length_append length_pb_rows le_add1)
    have tags: "unat (row_tag r) < length ps" if "r \<in> set rows" for r
      using b1(4) sub(2) that by (simp add: propose_spec_def)
    let ?rows = "map (\<lambda>(p, x, l). (ps ! unat p, x, l)) rows"
    obtain b2 where b2: "pb_remap_region b1 (pb_len b) ps = Some b2" "pb_wf b2" "pb_rows b2 = pb_rows b @ ?rows"
      using pb_remap_region_rows [OF b1(2) len, of ps] b1(3) tags by auto
    have "distinct ps"
      unfolding ps_def distinct_map using js(3) by (auto simp: js_def inj_on_def) metis
    then have "propose_spec (all_good cgs) v f (\<lambda>p. \<exists>i < length ps. unat (ps ! i) = p \<and> offers (fst (cgs ! k)) v sub i) ?rows"
      using b1(4) sub small psn by (intro propose_spec_remap) auto
    moreover have "\<exists>i < length ps. unat (ps ! i) = p \<and> offers (fst (cgs ! k)) v sub i"
      if p: "p < fr_len f" "choice ! p = Some k" "offers (fst (cgs ! k)) v f p" for p
    proof -
      have "p \<in> set js" using p by (simp add: js_def)
      then obtain i where "i < length ps" "js ! i = p" by (auto simp: in_set_conv_nth ps_def)
      then show ?thesis using p(3) psn sub(4) by (auto simp: offers_def)
    qed
    ultimately have "propose_spec (all_good cgs) v f (\<lambda>p. choice ! p = Some k \<and> offers (fst (cgs ! k)) v f p) ?rows"
      by (simp add: propose_spec_def)
    moreover have "\<forall>r \<in> set ?rows. choice ! unat (row_tag r) = Some k" using tags psn by fastforce
    moreover have "propose_group (map fst cgs) v f choice confirmers b k = Some b2"
      unfolding propose_group_def pos Let_def using False fr_compose_eq [OF f(1) psl] b1(1) b2(1)
      by (simp add: sub_def)
    ultimately show ?thesis using b2 by blast
  qed
qed

lemma child_estimate:
  assumes "fr_wf f" "row < fr_len f" "fr_row f row = Some bd" "i < length cgs" "v \<notin> vs_elems (fr_bound f)"
  shows "c_estimate (fst (cgs ! i)) v bd = Some (row_estimate (map fst cgs) v f row i)"
proof -
  have "bd_wf bd" "bd_bound bd = fr_bound f" using fr_rowE [OF assms(1,2)] assms(3) by (metis option.inject)+
  then obtain e where "c_estimate (fst (cgs ! i)) v bd = Some e" using lawful.estimate_total [OF child_lawful [OF assms(4)]] assms(5) by metis
  then show ?thesis using assms by (simp add: row_estimate_def)
qed

lemma row_estimate_uniform:
  assumes "fr_wf f" "row < fr_len f" "row' < fr_len f" "i < length cgs" "v \<notin> vs_elems (fr_bound f)"
  shows "row_estimate (map fst cgs) v f row i = None \<longleftrightarrow> row_estimate (map fst cgs) v f row' i = None"
proof -
  obtain bd where b1: "fr_row f row = Some bd" using assms(1,2) by (auto simp: fr_wf_def)
  obtain bd' where b2: "fr_row f row' = Some bd'" using assms(1,3) by (auto simp: fr_wf_def)
  note bd = b1 b2
  show ?thesis
    using lawful.estimate_row_uniform [OF child_lawful [OF assms(4)] assms(1-3) bd assms(5)]
      child_estimate [OF assms(1,2) bd(1) assms(4,5)] child_estimate [OF assms(1,3) bd(2) assms(4,5)] by simp
qed

lemma ic_estimate_eq:
  assumes "bd_wf bd" "v \<notin> vs_elems (bd_bound bd)"
  shows "\<exists>es. ic_estimate (map fst cgs) v bd = Some (min_some es) \<and> length es = length cgs
    \<and> (\<forall>i < length cgs. c_estimate (fst (cgs ! i)) v bd = Some (es ! i))"
proof -
  let ?es = "map (\<lambda>cg. the (c_estimate (fst cg) v bd)) cgs"
  have est: "c_estimate (fst (cgs ! i)) v bd = Some (?es ! i)" if "i < length cgs" for i
    using lawful.estimate_total [OF child_lawful [OF that] assms] that by auto
  have "map_panic (\<lambda>c. c_estimate c v bd) (map fst cgs) = Some (map (\<lambda>c. the (c_estimate c v bd)) (map fst cgs))"
    by (rule map_panic_Some) (use est in \<open>fastforce simp: in_set_conv_nth\<close>)
  then have "ic_estimate (map fst cgs) v bd = Some (min_some ?es)" by (simp add: ic_estimate_def comp_def)
  with est show ?thesis by (intro exI [of _ ?es]) simp
qed

text \<open>Where the intersection must be exhaustive, the tightest child must be.\<close>

lemma offers_tightest:
  assumes "fr_wf f" "row < fr_len f" "offers (intersection_constraint (map fst cgs)) v f row"
    and "tightest (row_estimate (map fst cgs) v f row) (length cgs) ch" and v: "v \<notin> vs_elems (fr_bound f)"
  shows "\<exists>j. ch = Some j \<and> j < length cgs \<and> offers (fst (cgs ! j)) v f row"
proof -
  obtain bd m where bd: "fr_row f row = Some bd" "ic_estimate (map fst cgs) v bd = Some (Some m)" "m < usize_max"
    using assms(3) by (auto simp: offers_def intersection_constraint_def)
  then have "bd_wf bd" "v \<notin> vs_elems (bd_bound bd)" using fr_rowE [OF assms(1,2)] v by (metis option.inject)+
  then obtain es where es: "min_some es = Some m" "length es = length cgs"
    "\<And>i. i < length cgs \<Longrightarrow> c_estimate (fst (cgs ! i)) v bd = Some (es ! i)"
    using ic_estimate_eq [of bd v] bd(2) v by auto
  have re: "row_estimate (map fst cgs) v f row i = es ! i" if "i < length cgs" for i
    using child_estimate [OF assms(1,2) bd(1) that v] es(3) [OF that] by simp
  obtain i where i: "i < length cgs" "es ! i = Some m" using min_some_Some(1) [OF es(1)] es(2) by (metis in_set_conv_nth)
  then obtain j e where j: "ch = Some j" "j < length cgs" "es ! j = Some e" "e \<le> m"
    using assms(4) re by (fastforce simp: tightest_def split: option.splits)
  then have "offers (fst (cgs ! j)) v f row" using bd es(3) unfolding offers_def by (metis le_less_trans)
  with j show ?thesis by blast
qed

text \<open>What the scan of a batch leaves: a tightest child per row, and the relevant children as confirmers.\<close>

lemma ic_scan:
  assumes "fr_wf f" "fr_len f \<noteq> 0" "v \<notin> vs_elems (fr_bound f)"
  defines "re \<equiv> row_estimate (map fst cgs) v f"
  obtains choice relevant where
    "for_each (scan_row (map fst cgs) v f) ([], replicate (length (map fst cgs)) 0, []) [0..<fr_len f] =
      Some (choice, relevant, with_estimate (re 0) (length cgs))" "length choice = fr_len f"
    "\<And>row. row < fr_len f \<Longrightarrow> tightest (re row) (length cgs) (choice ! row)"
    "\<forall>n \<in> set relevant. n = 0 \<or> n = fr_len f"
proof -
  obtain choice relevant where scan: "for_each (scan_row (map fst cgs) v f) ([], replicate (length (map fst cgs)) 0, []) [0..<fr_len f] =
      Some (choice, relevant, with_estimate (re 0) (length cgs))" and choice: "length choice = fr_len f"
    "\<And>row. row < fr_len f \<Longrightarrow> tightest (re row) (length cgs) (choice ! row)"
    and rel: "length relevant = length cgs"
    "\<And>i. i < length cgs \<Longrightarrow> relevant ! i = length (filter (\<lambda>row. re row i \<noteq> None) [0..<fr_len f])"
    using scan_rows [OF assms(1) order_refl, of "map fst cgs" v] child_estimate [OF assms(1) _ _ _ assms(3)] assms(2)
    unfolding re_def by auto
  have "relevant ! i = 0 \<or> relevant ! i = fr_len f" if "i < length cgs" for i
    unfolding rel(2) [OF that]
  proof (rule filter_all_or_none)
    fix r r' assume "r < fr_len f" "r' < fr_len f"
    from row_estimate_uniform [OF assms(1) this that assms(3)] show "(re r i \<noteq> None) = (re r' i \<noteq> None)" by (simp add: re_def)
  qed
  then have "\<forall>n \<in> set relevant. n = 0 \<or> n = fr_len f" using rel(1) by (metis in_set_conv_nth)
  then show thesis using that scan choice by blast
qed

lemma confirmers_range: "\<forall>(e, i) \<in> set (with_estimate es (length cgs)). i < length cgs"
  by (auto simp: set_with_estimate)

lemma not_confirmer:
  assumes "fr_wf f" "fr_len f \<noteq> 0" "v \<notin> vs_elems (fr_bound f)" "i < length cgs"
    and "i \<notin> snd ` set (with_estimate (row_estimate (map fst cgs) v f 0) (length cgs))" "row < fr_len f" "fr_row f row = Some bd"
  shows "c_estimate (fst (cgs ! i)) v bd = Some None"
proof -
  have "row_estimate (map fst cgs) v f 0 i = None" using assms(4,5) set_with_estimate by (metis image_eqI not_None_eq snd_conv)
  then have "row_estimate (map fst cgs) v f row i = None" using row_estimate_uniform [OF assms(1,6) _ assms(4,3), of 0] assms(2) by simp
  then show ?thesis using child_estimate [OF assms(1,6,7,4,3)] by simp
qed

lemma ic_propose_spec:
  assumes f: "fr_wf f" "fr_len f < 2 ^ 32" "v < 128" "v \<notin> vs_elems (fr_bound f)" and "pb_wf b"
  shows "\<exists>b' rows. ic_propose (map fst cgs) v f b = Some b' \<and> pb_wf b' \<and> pb_rows b' = pb_rows b @ rows
    \<and> propose_spec (all_good cgs) v f (offers (intersection_constraint (map fst cgs)) v f) rows"
proof (cases "fr_len f = 0")
  case True
  then have "propose_spec (all_good cgs) v f (offers (intersection_constraint (map fst cgs)) v f) []"
    by (simp add: propose_spec_def)
  with True assms(5) show ?thesis by (auto simp: ic_propose_def)
next
  case nonempty: False
  let ?off = "offers (intersection_constraint (map fst cgs)) v f" and ?re = "row_estimate (map fst cgs) v f"
  let ?conf = "with_estimate (?re 0) (length cgs)"
  obtain choice relevant where scan: "for_each (scan_row (map fst cgs) v f) ([], replicate (length (map fst cgs)) 0, []) [0..<fr_len f] =
      Some (choice, relevant, ?conf)" and choice: "length choice = fr_len f"
    "\<And>row. row < fr_len f \<Longrightarrow> tightest (?re row) (length cgs) (choice ! row)"
    and assertion: "\<forall>n \<in> set relevant. n = 0 \<or> n = fr_len f"
    using ic_scan [OF f(1) nonempty f(4)] by blast
  note conf = confirmers_range [of "?re 0"]
  note irr = not_confirmer [OF f(1) nonempty f(4)]
  have offers: "\<exists>j. choice ! p = Some j \<and> j < length cgs \<and> offers (fst (cgs ! j)) v f p" if "p < fr_len f" "?off p" for p
    using offers_tightest [OF f(1) that choice(2) [OF that(1)] f(4)] .
  have in_range: "j < length cgs" if "p < fr_len f" "choice ! p = Some j" for p j
    using choice(2) [OF that(1)] that(2) by (simp add: tightest_def)
  have ne: "choice \<noteq> []" using choice(1) nonempty by auto
  note hd = hd_conv_nth [OF ne] ne
  consider (none) "\<forall>ch \<in> set choice. ch = None"
    | (single) j where "hd choice = Some j" "\<forall>ch \<in> set choice. ch = hd choice"
    | (multi) "\<not> (\<forall>ch \<in> set choice. ch = None)" "\<not> (\<forall>ch \<in> set choice. ch = hd choice)"
    by (metis option.exhaust)
  then show ?thesis
  proof cases
    case none
    then have "\<not> ?off p" if "p < fr_len f" for p using offers [OF that] choice(1) that by (metis nth_mem option.distinct(1))
    then have "propose_spec (all_good cgs) v f ?off []" by (simp add: propose_spec_def)
    then show ?thesis using none scan assertion nonempty assms(5) by (auto simp: ic_propose_def)
  next
    case single
    have j: "j < length cgs" using in_range [of 0] single(1) hd nonempty by simp
    have "\<exists>b' rows. propose_by (map fst cgs) v f j ?conf b = Some b' \<and> pb_wf b' \<and> pb_rows b' = pb_rows b @ rows
        \<and> propose_spec (all_good cgs) v f (offers (fst (cgs ! j)) v f) rows"
      by (rule propose_by_spec [OF j conf f assms(5)]) (rule irr)
    then obtain b' rows where b': "propose_by (map fst cgs) v f j ?conf b = Some b'" "pb_wf b'" "pb_rows b' = pb_rows b @ rows"
      "propose_spec (all_good cgs) v f (offers (fst (cgs ! j)) v f) rows" by blast
    have "offers (fst (cgs ! j)) v f p" if "p < fr_len f" "?off p" for p
      using offers [OF that] single choice(1) that(1) by (metis nth_mem option.inject)
    then have "propose_spec (all_good cgs) v f ?off rows" using b'(4) by (simp add: propose_spec_def)
    moreover have "\<not> (\<forall>ch \<in> set choice. ch = None)" using single(1) hd by (metis hd_in_set option.distinct(1))
    then have "ic_propose (map fst cgs) v f b = Some b'"
      using single scan assertion nonempty b'(1) by (simp add: ic_propose_def) blast
    ultimately show ?thesis using b' by blast
  next
    case multi
    define I where "I k b' \<longleftrightarrow> pb_wf b' \<and> (\<exists>rows. pb_rows b' = pb_rows b @ rows
        \<and> (\<forall>r \<in> set rows. \<exists>j < k. choice ! unat (row_tag r) = Some j)
        \<and> propose_spec (all_good cgs) v f (\<lambda>p. \<exists>j < k. choice ! p = Some j \<and> offers (fst (cgs ! j)) v f p) rows)" for k b'
    have "\<exists>b'. for_each (propose_group (map fst cgs) v f choice ?conf) b [0..<length cgs] = Some b' \<and> I (length [0..<length cgs]) b'"
    proof (rule for_each_invariant)
      show "I 0 b" using assms(5) by (simp add: I_def propose_spec_def)
    next
      fix k b1 assume "k < length [0..<length cgs]" and I: "I k b1"
      then have k: "k < length cgs" "[0..<length cgs] ! k = k" by simp_all
      obtain rows where rows: "pb_rows b1 = pb_rows b @ rows" "\<forall>r \<in> set rows. \<exists>j < k. choice ! unat (row_tag r) = Some j"
        "propose_spec (all_good cgs) v f (\<lambda>p. \<exists>j < k. choice ! p = Some j \<and> offers (fst (cgs ! j)) v f p) rows"
        using I by (auto simp: I_def)
      have wf: "pb_wf b1" using I by (simp add: I_def)
      have "\<exists>b' rows. propose_group (map fst cgs) v f choice ?conf b1 k = Some b' \<and> pb_wf b' \<and> pb_rows b' = pb_rows b1 @ rows
          \<and> (\<forall>r \<in> set rows. choice ! unat (row_tag r) = Some k)
          \<and> propose_spec (all_good cgs) v f (\<lambda>p. choice ! p = Some k \<and> offers (fst (cgs ! k)) v f p) rows"
        by (rule propose_group_spec [OF k(1) conf f wf choice(1)]) (rule irr)
      then obtain b2 rows' where b2: "propose_group (map fst cgs) v f choice ?conf b1 k = Some b2" "pb_wf b2"
        "pb_rows b2 = pb_rows b1 @ rows'" "\<forall>r \<in> set rows'. choice ! unat (row_tag r) = Some k"
        "propose_spec (all_good cgs) v f (\<lambda>p. choice ! p = Some k \<and> offers (fst (cgs ! k)) v f p) rows'"
        by blast
      have "row_tag r \<noteq> row_tag s" if "r \<in> set rows" "s \<in> set rows'" for r s
        using rows(2) b2(4) that by (metis less_irrefl option.inject)
      from propose_spec_append [OF rows(3) b2(5) this]
      have "propose_spec (all_good cgs) v f (\<lambda>p. \<exists>j < Suc k. choice ! p = Some j \<and> offers (fst (cgs ! j)) v f p) (rows @ rows')"
        by (rule back_subst [where P = "\<lambda>A. propose_spec (all_good cgs) v f A (rows @ rows')"]) (auto simp: less_Suc_eq)
      then have "I (Suc k) b2"
        using b2 rows(1,2) by (auto simp: I_def less_Suc_eq intro!: exI [of _ "rows @ rows'"])
      then show "\<exists>b'. propose_group (map fst cgs) v f choice ?conf b1 ([0..<length cgs] ! k) = Some b' \<and> I (Suc k) b'"
        using b2(1) k(2) by auto
    qed
    then obtain b' rows where b': "for_each (propose_group (map fst cgs) v f choice ?conf) b [0..<length cgs] = Some b'"
      "pb_wf b'" "pb_rows b' = pb_rows b @ rows"
      "propose_spec (all_good cgs) v f (\<lambda>p. \<exists>j < length cgs. choice ! p = Some j \<and> offers (fst (cgs ! j)) v f p) rows"
      by (auto simp: I_def)
    have "propose_spec (all_good cgs) v f ?off rows" using b'(4) offers unfolding propose_spec_def by blast
    moreover have "ic_propose (map fst cgs) v f b = Some b'"
      using multi scan assertion nonempty b'(1) by (simp add: ic_propose_def) blast
    ultimately show ?thesis using b'(2,3) by blast
  qed
qed

lemma ic_confirm_spec:
  assumes f: "fr_wf f" "v < 128" "v \<notin> vs_elems (fr_bound f)"
    and "cd_wf cands" "\<forall>p \<in> set (cd_parents cands). unat p < fr_len f" and small: "fr_len f < 2 ^ 32"
  shows "\<exists>cands' Q. ic_confirm (map fst cgs) v f cands = Some cands' \<and> cd_filters Q cands cands'
    \<and> confirm_spec (all_good cgs) v f Q"
proof (cases "fr_len f = 0")
  case True
  then have "confirm_spec (all_good cgs) v f (\<lambda>_ _. True)" by (simp add: confirm_spec_def)
  then show ?thesis using True cd_filters_refl by (fastforce simp: ic_confirm_def fr_is_empty_def fr_len_def)
next
  case False
  then have ne: "\<not> fr_is_empty f" "0 < fr_len f" by (simp_all add: fr_is_empty_def fr_len_def)
  obtain bd where bd: "fr_row f 0 = Some bd" "bd_wf bd" "v \<notin> vs_elems (bd_bound bd)" using fr_rowE [OF f(1) ne(2)] f(3) by metis
  let ?es = "map (\<lambda>cg. the (c_estimate (fst cg) v bd)) cgs"
  have est: "c_estimate (fst (cgs ! i)) v bd = Some (?es ! i)" if "i < length cgs" for i
    using lawful.estimate_total [OF child_lawful [OF that] bd(2,3)] that by auto
  have mp: "map_panic (\<lambda>c. c_estimate c v bd) (map fst cgs) = Some ?es"
    using map_panic_Some [of "map fst cgs" "\<lambda>c. c_estimate c v bd" "\<lambda>c. the (c_estimate c v bd)"] est
    by (fastforce simp: in_set_conv_nth comp_def)
  let ?L = "sort_confirmers (with_estimate ((!) ?es) (length cgs))"
  let ?cgs = "map (\<lambda>(e, i). cgs ! i) ?L"
  have L: "(e, i) \<in> set ?L \<longleftrightarrow> i < length cgs \<and> ?es ! i = Some e" for e i by (simp add: set_with_estimate)
  have "ic_confirm (map fst cgs) v f cands =
      for_each (\<lambda>cands (e, c). c_confirm c v f cands) cands (map (\<lambda>(e, i). (e, map fst cgs ! i)) ?L)"
    using ne(1) bd(1) mp relevant_eq_with_estimate [of ?es "map fst cgs"] by (simp add: ic_confirm_def sort_confirmers_map)
  also have "\<dots> = for_each (\<lambda>cands c. c_confirm c v f cands) cands (map fst ?cgs)"
    unfolding for_each_map by (rule for_each_cong) (use L in \<open>auto simp: case_prod_beta\<close>)
  finally have eq: "ic_confirm (map fst cgs) v f cands = for_each (\<lambda>cands c. c_confirm c v f cands) cands (map fst ?cgs)" .
  have "lawful c g" if cg: "(c, g) \<in> set ?cgs" for c g
  proof -
    obtain r where r: "r \<in> set ?L" "(c, g) = cgs ! snd r" using cg unfolding set_map by (auto simp: case_prod_beta simp del: set_sort_confirmers)
    then have "snd r < length cgs" using L by (metis prod.collapse)
    then show ?thesis using r(2) child_lawful by (metis fst_conv snd_conv)
  qed
  then have "\<exists>cands' Q. for_each (\<lambda>cands c. c_confirm c v f cands) cands (map fst ?cgs) = Some cands'
      \<and> cd_filters Q cands cands' \<and> confirm_spec_all (snd ` set ?cgs) v f Q"
    using assms by (intro confirm_sequence)
  then obtain cands' Q where Q: "ic_confirm (map fst cgs) v f cands = Some cands'" "cd_filters Q cands cands'"
    "confirm_spec_all (snd ` set ?cgs) v f Q" unfolding eq by blast
  have relevant: "snd (cgs ! i) \<in> snd ` set ?cgs" if "i < length cgs" "?es ! i \<noteq> None" for i
    using that L by (force simp: image_iff)
  have "confirm_spec (all_good cgs) v f Q"
    unfolding confirm_spec_def
  proof (intro allI impI conjI)
    fix p :: u32 and x assume p: "unat p < fr_len f"
    let ?\<sigma> = "fr_assign f (unat p)"
    show "Q p x" if "all_good cgs (?\<sigma>(v \<mapsto> x))"
    proof -
      have "\<forall>g \<in> snd ` set ?cgs. g (?\<sigma>(v \<mapsto> x))" using that L by (auto simp: all_good_def)
      then show ?thesis using Q(3) p unfolding confirm_spec_all_def by blast
    qed
    show "all_good cgs (?\<sigma>(v \<mapsto> x))" if q: "Q p x" "all_good cgs ?\<sigma>"
    proof -
      obtain bp where bp: "fr_row f (unat p) = Some bp" "bd_wf bp" "bd_map bp = ?\<sigma>" "bd_bound bp = fr_bound f"
        using fr_rowE [OF f(1) p] by metis
      have "snd (cgs ! i) (?\<sigma>(v \<mapsto> x))" if i: "i < length cgs" for i
      proof (cases "?es ! i")
        case None
        then have "c_estimate (fst (cgs ! i)) v bp = Some None"
          using est [OF i] lawful.estimate_row_uniform [OF child_lawful [OF i] f(1) ne(2) p bd(1) bp(1) f(3)] by simp
        then show ?thesis
          using lawful.estimate_none [OF child_lawful [OF i] bp(2)] bp f(3) q(2) i by (simp add: all_good_def)
      next
        case (Some e)
        have "snd (cgs ! i) ?\<sigma>" using q(2) i by (simp add: all_good_def)
        then show ?thesis using Q(3) p q(1) relevant [OF i] Some unfolding confirm_spec_all_def by blast
      qed
      then show ?thesis unfolding all_good_def by (metis in_set_conv_nth)
    qed
  qed
  then show ?thesis using Q by blast
qed

lemma ic_satisfied_eq:
  assumes "bd_wf bd"
  shows "\<exists>s. ic_satisfied (map fst cgs) bd = Some (\<forall>i < length cgs. s i)
    \<and> (\<forall>i < length cgs. c_satisfied (fst (cgs ! i)) bd = Some (s i) \<and> (snd (cgs ! i) (bd_map bd) \<longrightarrow> s i))"
proof -
  let ?s = "\<lambda>i. the (c_satisfied (fst (cgs ! i)) bd)"
  have sat: "c_satisfied (fst (cgs ! i)) bd = Some (?s i) \<and> (snd (cgs ! i) (bd_map bd) \<longrightarrow> ?s i)" if "i < length cgs" for i
    using lawful.satisfied_total [OF child_lawful [OF that] assms] by auto
  have "all_panic (\<lambda>c. c_satisfied c bd) (map fst cgs) = Some (\<forall>c \<in> set (map fst cgs). the (c_satisfied c bd))"
    by (rule all_panic_Some) (use sat in \<open>fastforce simp: in_set_conv_nth\<close>)
  moreover have "(\<forall>c \<in> set (map fst cgs). the (c_satisfied c bd)) \<longleftrightarrow> (\<forall>i < length cgs. ?s i)"
    by (auto simp: all_set_conv_all_nth)
  ultimately show ?thesis using sat by (auto simp: ic_satisfied_def intro!: exI [of _ ?s])
qed

lemma intersection_lawful: "lawful (intersection_constraint (map fst cgs)) (all_good cgs)"
proof
  let ?c = "intersection_constraint (map fst cgs)"
  have sel: "c_variables ?c = ic_variables (map fst cgs)" "c_estimate ?c = ic_estimate (map fst cgs)"
    "c_propose ?c = ic_propose (map fst cgs)" "c_confirm ?c = ic_confirm (map fst cgs)"
    "c_satisfied ?c = ic_satisfied (map fst cgs)" by (simp_all add: intersection_constraint_def)
  show "all_good cgs \<sigma> = all_good cgs \<tau>" if "\<forall>v \<in> vs_elems (c_variables ?c). \<sigma> v = \<tau> v" for \<sigma> \<tau>
  proof -
    have "snd cg \<sigma> = snd cg \<tau>" if cg: "cg \<in> set cgs" for cg
      using lawful.good_local [OF member_lawful, of "fst cg" "snd cg" \<sigma> \<tau>] cg
        \<open>\<forall>v \<in> vs_elems (c_variables ?c). \<sigma> v = \<tau> v\<close> by (simp add: sel ic_variables_elems)
    then show ?thesis by (simp add: all_good_def)
  qed
  show "all_good cgs \<sigma>" if "all_good cgs \<tau>" "\<sigma> \<subseteq>\<^sub>m \<tau>" for \<sigma> \<tau>
    unfolding all_good_def using that lawful.good_antimono [OF member_lawful] by (metis all_good_def prod.collapse)
  show "\<exists>s. c_satisfied ?c b = Some s \<and> (all_good cgs (bd_map b) \<longrightarrow> s)" if "bd_wf b" for b
    using ic_satisfied_eq [OF that] by (auto simp: sel all_good_def)
  show "all_good cgs Map.empty" if "bd_wf b" "bd_map b = Map.empty" "c_satisfied ?c b = Some True" for b
  proof -
    have "snd (cgs ! i) Map.empty" if "i < length cgs" for i
      using ic_satisfied_eq [OF \<open>bd_wf b\<close>] \<open>c_satisfied ?c b = Some True\<close>
        lawful.satisfied_root [OF child_lawful [OF that] \<open>bd_wf b\<close> \<open>bd_map b = Map.empty\<close>] that by (auto simp: sel)
    then show ?thesis unfolding all_good_def by (metis in_set_conv_nth)
  qed
  show "\<exists>e. c_estimate ?c v b = Some e" if "bd_wf b" "v \<notin> vs_elems (bd_bound b)" for v b using ic_estimate_eq [OF that] by (auto simp: sel)
  show "c_estimate ?c v b' = Some None"
    if b: "bd_wf b" "bd_wf b'" "bd_bound b = bd_bound b'" "v \<notin> vs_elems (bd_bound b)" "c_estimate ?c v b = Some None" for v b b'
  proof -
    obtain es where es: "c_estimate ?c v b = Some (min_some es)" "length es = length cgs"
      "\<And>i. i < length cgs \<Longrightarrow> c_estimate (fst (cgs ! i)) v b = Some (es ! i)"
      using ic_estimate_eq [OF b(1), of v] b by (auto simp: sel)
    then have none: "min_some es = None" using b(5) by simp
    obtain es' where es': "c_estimate ?c v b' = Some (min_some es')" "length es' = length cgs"
      "\<And>i. i < length cgs \<Longrightarrow> c_estimate (fst (cgs ! i)) v b' = Some (es' ! i)"
      using ic_estimate_eq [OF b(2), of v] b(3,4) by (auto simp: sel)
    have "es' ! i = None" if "i < length cgs" for i
      using lawful.estimate_uniform [OF child_lawful [OF that] b(1,2,3,4)] none es(2) es(3) [OF that] es'(3) [OF that] that
      by (simp add: min_some_None)
    then show ?thesis using es' by (auto simp: min_some_None in_set_conv_nth)
  qed
  show "c_estimate ?c v b = Some None" if b: "bd_wf b" "v \<notin> vs_elems (bd_bound b)" "v \<notin> vs_elems (c_variables ?c)" for v b
  proof -
    obtain es where es: "c_estimate ?c v b = Some (min_some es)" "length es = length cgs"
      "\<And>i. i < length cgs \<Longrightarrow> c_estimate (fst (cgs ! i)) v b = Some (es ! i)"
      using ic_estimate_eq [OF b(1), of v] b by (auto simp: sel)
    have "es ! i = None" if "i < length cgs" for i
      using lawful.estimate_foreign [OF child_lawful [OF that] b(1,2)] es(3) [OF that] that
        \<open>v \<notin> vs_elems (c_variables ?c)\<close> by (auto simp: sel ic_variables_elems)
    then show ?thesis using es by (auto simp: min_some_None in_set_conv_nth)
  qed
  show "all_good cgs ((bd_map b)(v \<mapsto> x))"
    if b: "bd_wf b" "c_estimate ?c v b = Some None" "v \<notin> vs_elems (bd_bound b)" "all_good cgs (bd_map b)" for v b x
  proof -
    obtain es where es: "c_estimate ?c v b = Some (min_some es)" "length es = length cgs"
      "\<And>i. i < length cgs \<Longrightarrow> c_estimate (fst (cgs ! i)) v b = Some (es ! i)"
      using ic_estimate_eq [OF b(1), of v] b by (auto simp: sel)
    then have none: "min_some es = None" using b(2) by simp
    have "snd (cgs ! i) ((bd_map b)(v \<mapsto> x))" if "i < length cgs" for i
      using lawful.estimate_none [OF child_lawful [OF that] b(1) _ b(3)] none es(2) es(3) [OF that] that b(4)
      by (simp add: min_some_None all_good_def)
    then show ?thesis unfolding all_good_def by (metis in_set_conv_nth)
  qed
  show "\<exists>pb' rows. c_propose ?c v f pb = Some pb' \<and> pb_wf pb' \<and> pb_rows pb' = pb_rows pb @ rows
      \<and> propose_spec (all_good cgs) v f (offers ?c v f) rows"
    if "fr_wf f" "fr_len f < 2 ^ 32" "v < 128" "v \<notin> vs_elems (fr_bound f)" "pb_wf pb" for f v pb
    unfolding sel using that by (rule ic_propose_spec)
  show "\<exists>cs' Q. c_confirm ?c v f cs = Some cs' \<and> cd_filters Q cs cs' \<and> confirm_spec (all_good cgs) v f Q"
    if "fr_wf f" "v < 128" "v \<notin> vs_elems (fr_bound f)" "cd_wf cs" "\<forall>p \<in> set (cd_parents cs). unat p < fr_len f" "fr_len f < 2 ^ 32" for f v cs
    unfolding sel using that by (rule ic_confirm_spec)
qed

lemma intersection_exact:
  assumes "\<And>i. i < length cgs \<Longrightarrow> exact (fst (cgs ! i)) (snd (cgs ! i))"
  shows "exact (intersection_constraint (map fst cgs)) (all_good cgs)"
proof (intro exact.intro intersection_lawful exact_axioms.intro)
  fix b assume b: "bd_wf b" "c_satisfied (intersection_constraint (map fst cgs)) b = Some True"
  have "snd (cgs ! i) (bd_map b)" if "i < length cgs" for i
    using ic_satisfied_eq [OF b(1)] b(2) exact.satisfied_exact [OF assms [OF that] b(1)] that
    by (auto simp: intersection_constraint_def)
  then show "all_good cgs (bd_map b)" unfolding all_good_def by (metis in_set_conv_nth)
qed

text \<open>The intersection proposes every variable that some child proposes.\<close>

lemma intersection_proposing:
  assumes "\<And>b v. bd_wf b \<Longrightarrow> v \<in> vs_elems (ic_variables (map fst cgs)) \<Longrightarrow> v \<notin> vs_elems (bd_bound b) \<Longrightarrow>
      \<exists>i < length cgs. \<exists>e \<le> m. c_estimate (fst (cgs ! i)) v b = Some (Some e)"
    and "m < usize_max"
  shows "proposing (intersection_constraint (map fst cgs)) (all_good cgs) m"
proof (intro proposing.intro intersection_lawful proposing_axioms.intro)
  fix b v assume b: "bd_wf b" "v \<in> vs_elems (c_variables (intersection_constraint (map fst cgs)))" "v \<notin> vs_elems (bd_bound b)"
  obtain es where es: "ic_estimate (map fst cgs) v b = Some (min_some es)" "length es = length cgs"
    "\<And>i. i < length cgs \<Longrightarrow> c_estimate (fst (cgs ! i)) v b = Some (es ! i)"
    using ic_estimate_eq [OF b(1,3)] by auto
  obtain i e where i: "i < length cgs" "e \<le> m" "es ! i = Some e"
    using assms(1) [OF b(1) _ b(3)] b(2) es(3) by (auto simp: intersection_constraint_def)
  then have mem: "Some e \<in> set es" using es(2) by (metis nth_mem)
  then obtain k where "min_some es = Some k" using min_some_None [of es] by (metis not_None_eq option.distinct(1))
  moreover have "k \<le> e" using calculation mem by (rule min_some_Some(2))
  ultimately show "\<exists>e. c_estimate (intersection_constraint (map fst cgs)) v b = Some (Some e) \<and> e \<le> m"
    using es(1) i(2) by (auto simp: intersection_constraint_def)
qed (rule assms(2))

end

text \<open>
  The conjunction \<open>and!(a.is(k), value_range(a, lo, hi), a == b)\<close> of leaf constraints, the shape the
  macro layer builds.
\<close>

interpretation leaf_children: children
  "[(constant_constraint (var_index q) k, unary_good (var_index q) (\<lambda>x. x = k)),
    (inline_range (var_index q) lo hi, unary_good (var_index q) (\<lambda>x. x \<ge> lo \<and> x \<le> hi)),
    (equality_constraint (var_index q) (var_index r), equality_good (var_index q) (var_index r))]" for q r k lo hi
  by (rule children.intro)
    (auto simp: less_Suc_eq numeral_3_eq_3 constant_leaf.lawful_axioms range_leaf.lawful_axioms equality_leaf.lawful_axioms)

section \<open>Properties\<close>

lemma children_of:
  "(\<And>i. i < length cgs \<Longrightarrow> lawful (fst (cgs ! i)) (snd (cgs ! i))) \<Longrightarrow> children cgs"
  by (rule children.intro)

text \<open>
  C8. The intersection of lawful constraints is lawful, for the conjunction of their meanings: it
  proposes through the child with the smallest estimate of each row, confirms with every other relevant
  child, and the rows that disagree on the proposer are split into sub-batches whose tags are mapped
  back. No admissible value is lost, none is offered twice and every surviving one is admissible for
  all children; \<open>confirm\<close> kills exactly what some child rejects.
\<close>

theorem intersection_keeps_contract:
  assumes "\<And>i. i < length cgs \<Longrightarrow> lawful (fst (cgs ! i)) (snd (cgs ! i))"
  shows "lawful (intersection_constraint (map fst cgs)) (all_good cgs)"
  using children.intersection_lawful [OF children_of [OF assms]] .

theorem intersection_keeps_contract_witness:
  "lawful (intersection_constraint (map fst
      [(constant_constraint 0 (inline_pad [1]), unary_good 0 (\<lambda>x. x = inline_pad [1])),
       (equality_constraint 0 1, equality_good 0 1)]))
    (all_good [(constant_constraint 0 (inline_pad [1]), unary_good 0 (\<lambda>x. x = inline_pad [1])),
       (equality_constraint 0 1, equality_good 0 1)])"
proof (rule intersection_keeps_contract)
  have "lawful (constant_constraint 0 (inline_pad [1])) (unary_good 0 (\<lambda>x. x = inline_pad [1]))"
    "lawful (equality_constraint 0 1) (equality_good 0 1)"
    by (rule exact.axioms(1), simp add: constant_exact equality_exact)+
  then show "lawful (fst ([(constant_constraint 0 (inline_pad [1]), unary_good 0 (\<lambda>x. x = inline_pad [1])),
       (equality_constraint 0 1, equality_good 0 1)] ! i))
     (snd ([(constant_constraint 0 (inline_pad [1]), unary_good 0 (\<lambda>x. x = inline_pad [1])),
       (equality_constraint 0 1, equality_good 0 1)] ! i))"
    if "i < length [(constant_constraint 0 (inline_pad [1]), unary_good 0 (\<lambda>x. x = inline_pad [1])),
       (equality_constraint 0 1, equality_good 0 1)]" for i
    using that by (cases i) auto
qed

text \<open>
  C9. The intersection keeps the fully-bound exactness law when its children have it, and can propose a
  variable when one child can: its estimate is then a number no larger than the bound.
\<close>

theorem intersection_exact_proposing:
  assumes "\<And>i. i < length cgs \<Longrightarrow> exact (fst (cgs ! i)) (snd (cgs ! i))"
    and "\<And>b v. bd_wf b \<Longrightarrow> v \<in> vs_elems (ic_variables (map fst cgs)) \<Longrightarrow> v \<notin> vs_elems (bd_bound b) \<Longrightarrow>
      \<exists>i < length cgs. \<exists>e \<le> m. c_estimate (fst (cgs ! i)) v b = Some (Some e)"
    and "m < usize_max"
  shows "exact (intersection_constraint (map fst cgs)) (all_good cgs) \<and>
    proposing (intersection_constraint (map fst cgs)) (all_good cgs) m"
proof -
  have ch: "children cgs" using assms(1) by (intro children_of exact.axioms(1))
  show ?thesis using children.intersection_exact [OF ch assms(1)] children.intersection_proposing [OF ch assms(2,3)] by blast
qed

theorem intersection_exact_proposing_witness:
  "exact (intersection_constraint (map fst
      [(constant_constraint 0 (inline_pad [1]), unary_good 0 (\<lambda>x. x = inline_pad [1])),
       (inline_range 0 (inline_pad [0]) (inline_pad [9]), unary_good 0 (\<lambda>x. x \<ge> inline_pad [0] \<and> x \<le> inline_pad [9]))]))
    (all_good [(constant_constraint 0 (inline_pad [1]), unary_good 0 (\<lambda>x. x = inline_pad [1])),
       (inline_range 0 (inline_pad [0]) (inline_pad [9]), unary_good 0 (\<lambda>x. x \<ge> inline_pad [0] \<and> x \<le> inline_pad [9]))])"
proof -
  have "exact (intersection_constraint (map fst cgs)) (all_good cgs) \<and> proposing (intersection_constraint (map fst cgs)) (all_good cgs) 1"
    if cgs: "cgs = [(constant_constraint 0 (inline_pad [1]), unary_good 0 (\<lambda>x. x = inline_pad [1])),
       (inline_range 0 (inline_pad [0]) (inline_pad [9]), unary_good 0 (\<lambda>x. x \<ge> inline_pad [0] \<and> x \<le> inline_pad [9]))]" for cgs
  proof (rule intersection_exact_proposing)
    show "exact (fst (cgs ! i)) (snd (cgs ! i))" if "i < length cgs" for i
      using that by (auto simp: cgs nth_Cons' intro: constant_exact range_exact)
  next
    fix b v assume "v \<in> vs_elems (ic_variables (map fst cgs))"
    then have "v = 0" by (simp add: cgs ic_variables_def constant_constraint_def inline_range_def)
    then show "\<exists>i < length cgs. \<exists>e \<le> 1. c_estimate (fst (cgs ! i)) v b = Some (Some e)"
      by (intro exI [of _ 0]) (simp add: cgs constant_constraint_def)
  qed (simp add: usize_max_def)
  then show ?thesis by blast
qed

end
