(* ===== verification/Union_Constraint.thy ===== *)
theory Union_Constraint
  imports Intersection_Constraint
begin

text \<open>
  \<open>query/unionconstraint.rs\<close>: the disjunction of constraints over the same variables. Before a variant
  proposes or votes, the union asks it row by row whether it is satisfied, and drops its contribution
  for the rows where it is not. The union of variants that are exact (\<open>satisfied\<close> decides whether the
  partial assignment is rejected) and that propose all their variables is lawful, for the disjunction
  of their predicates. Exactness is needed: with a variant whose \<open>satisfied\<close> is the default \<open>true\<close> the
  union lets through assignments no variant accepts.
\<close>

section \<open>Definitions\<close>

text \<open>\<open>new\<close> refuses an empty list and variants that disagree on the variables.\<close>

fun same_variables :: "constraint list \<Rightarrow> bool" where
  "same_variables (a # b # cs) \<longleftrightarrow> c_variables a = c_variables b \<and> same_variables (b # cs)"
| "same_variables _ \<longleftrightarrow> True"

definition uc_variables :: "constraint list \<Rightarrow> variable_set" where
  "uc_variables cs = c_variables (hd cs)"

text \<open>\<open>filter_map(..).reduce(|acc, e| acc + e)\<close>; the sum of a release build wraps.\<close>

definition sum_some :: "nat option list \<Rightarrow> nat option" where
  "sum_some es = (case List.map_filter id es of [] \<Rightarrow> None
     | e # es' \<Rightarrow> Some (foldl (\<lambda>acc e. (acc + e) mod (usize_max + 1)) e es'))"

definition uc_estimate :: "constraint list \<Rightarrow> nat \<Rightarrow> binding \<Rightarrow> nat option option" where
  "uc_estimate cs v b = do { es \<leftarrow> map_panic (\<lambda>c. c_estimate c v b) cs; Some (sum_some es) }"

text \<open>The satisfaction of one variant for every row.\<close>

definition satisfied_rows :: "constraint \<Rightarrow> frontier \<Rightarrow> bool list option" where
  "satisfied_rows c f = map_panic (\<lambda>row. do { bd \<leftarrow> fr_row f row; c_satisfied c bd }) [0..<fr_len f]"

definition uc_propose_variant :: "nat \<Rightarrow> frontier \<Rightarrow> proposal_buffer \<Rightarrow> constraint \<Rightarrow> proposal_buffer option" where
  "uc_propose_variant v f b c = do {
     satisfied \<leftarrow> satisfied_rows c f;
     if True \<notin> set satisfied then Some b
     else do {
       let variant_base = pb_len b;
       b1 \<leftarrow> c_propose c v f b;
       if False \<in> set satisfied then pb_retain_region b1 variant_base (\<lambda>row _. idx satisfied (unat row))
       else Some b1
     }
   }"

definition uc_propose :: "constraint list \<Rightarrow> nat \<Rightarrow> frontier \<Rightarrow> proposal_buffer \<Rightarrow> proposal_buffer option" where
  "uc_propose cs v f b = do {
     let base = pb_len b;
     b1 \<leftarrow> for_each (uc_propose_variant v f) b cs;
     fresh \<leftarrow> pb_tagged b1 base;
     pb_rewrite_region b1 base (remdups_adj (sort fresh))
   }"

text \<open>Killing, on a scratch copy, the candidates of the rows for which a variant is dead.\<close>

definition kill_unsatisfied :: "bool list \<Rightarrow> candidates \<Rightarrow> candidates option" where
  "kill_unsatisfied satisfied votes =
     for_each (\<lambda>votes i. do {
       p \<leftarrow> cd_parent votes i;
       s \<leftarrow> idx satisfied (unat p);
       if \<not> s then cd_kill votes i else Some votes
     }) votes [0..<cd_len votes]"

definition uc_confirm_variant :: "nat \<Rightarrow> frontier \<Rightarrow> candidates \<Rightarrow> u32 list \<Rightarrow> constraint \<Rightarrow> u32 list option" where
  "uc_confirm_variant v f cands any_live c = do {
     satisfied \<leftarrow> satisfied_rows c f;
     if True \<notin> set satisfied then Some any_live
     else do {
       let votes = cd_scratch cands (cd_live_words cands);
       votes1 \<leftarrow> (if False \<in> set satisfied then kill_unsatisfied satisfied votes else Some votes);
       votes2 \<leftarrow> c_confirm c v f votes1;
       Some (or_words any_live (cd_words votes2))
     }
   }"

definition uc_confirm :: "constraint list \<Rightarrow> nat \<Rightarrow> frontier \<Rightarrow> candidates \<Rightarrow> candidates option" where
  "uc_confirm cs v f cands = do {
     any_live \<leftarrow> for_each (uc_confirm_variant v f cands) (replicate (cd_live_word_len cands) 0) cs;
     Some (cd_set_live_words cands any_live)
   }"

definition uc_satisfied :: "constraint list \<Rightarrow> binding \<Rightarrow> bool option" where
  "uc_satisfied cs b = any_panic (\<lambda>c. c_satisfied c b) cs"

definition uc_influence :: "constraint list \<Rightarrow> nat \<Rightarrow> variable_set" where
  "uc_influence cs v = foldl (\<lambda>acc c. vs_union acc (c_influence c v)) vs_new_empty cs"

definition union_methods :: "constraint list \<Rightarrow> constraint" where
  "union_methods cs =
     \<lparr>c_variables = uc_variables cs, c_estimate = uc_estimate cs, c_propose = uc_propose cs,
      c_confirm = uc_confirm cs, c_satisfied = uc_satisfied cs, c_influence = uc_influence cs\<rparr>"

definition union_constraint :: "constraint list \<Rightarrow> constraint option" where
  "union_constraint cs = do {
     assert_that (cs \<noteq> []);
     assert_that (same_variables cs);
     Some (union_methods cs)
   }"

section \<open>Exact variants\<close>

definition any_good :: "(constraint \<times> (assignment \<Rightarrow> bool)) list \<Rightarrow> assignment \<Rightarrow> bool" where
  "any_good cgs \<sigma> \<longleftrightarrow> (\<exists>cg \<in> set cgs. snd cg \<sigma>)"

lemma sum_some_None: "sum_some es = None \<longleftrightarrow> (\<forall>e \<in> set es. e = None)"
  by (auto simp: sum_some_def map_filter_id_Nil [symmetric] split: list.splits)

lemma foldl_wrapping_add: "e + sum_list es \<le> usize_max \<Longrightarrow> foldl (\<lambda>acc e. (acc + e) mod (usize_max + 1)) e es = e + sum_list es"
  by (induction es arbitrary: e) auto

text \<open>Without overflow the estimate is the sum of the variants' estimates.\<close>

lemma sum_some_bounded:
  assumes "length bs = length es" "\<And>i. i < length es \<Longrightarrow> \<exists>e. es ! i = Some e \<and> e \<le> bs ! i" "es \<noteq> []" "sum_list bs \<le> usize_max"
  shows "\<exists>e. sum_some es = Some e \<and> e \<le> sum_list bs"
proof -
  have "sum_list (List.map_filter id es) \<le> sum_list bs"
    if "length bs = length es" "\<And>i. i < length es \<Longrightarrow> \<exists>e. es ! i = Some e \<and> e \<le> bs ! i"
    for es and bs :: "nat list"
    using that
  proof (induction es bs rule: list_induct2')
    case (4 e es b bs)
    have "\<exists>e'. e = Some e' \<and> e' \<le> b" using 4(3) [of 0] by simp
    moreover have "\<exists>e. es ! i = Some e \<and> e \<le> bs ! i" if "i < length es" for i using 4(3) [of "Suc i"] that by simp
    then have "sum_list (List.map_filter id es) \<le> sum_list bs" using 4(1) 4(2) by fastforce
    ultimately show ?case by (auto simp: map_filter_simps id_def)
  qed (auto simp: map_filter_simps)
  then have le: "sum_list (List.map_filter id es) \<le> sum_list bs" using assms by blast
  have "\<exists>e \<in> set es. e \<noteq> None" using assms(2) [of 0] assms(3) by (metis length_greater_0_conv nth_mem option.distinct(1))
  then obtain a as where as: "List.map_filter id es = a # as" by (metis list.exhaust map_filter_id_Nil)
  then have "sum_some es = Some (a + sum_list as)"
    using le assms(4) foldl_wrapping_add [of a as] by (simp add: sum_some_def)
  then show ?thesis using le as by simp
qed

lemma sorted_remdups_adj_distinct: "sorted xs \<Longrightarrow> distinct (remdups_adj xs)"
  by (induction xs rule: remdups_adj.induct) (auto simp: less_le_not_le)

lemma kill_unsatisfied_filters:
  assumes "cd_wf c" "\<forall>p \<in> set (cd_parents c). unat p < length sat"
  shows "\<exists>c'. kill_unsatisfied sat c = Some c' \<and> cd_filters (\<lambda>p _. sat ! unat p) c c'"
proof -
  let ?K = "\<lambda>i. sat ! unat (cd_parents c ! i)"
  let ?I = "\<lambda>n c'. cd_keeps (\<lambda>i. i < n \<longrightarrow> ?K i) c c'"
  have len: "length (cd_parents c) = cd_len c" using assms(1) by (simp add: cd_wf_def cd_len_def)
  have "\<exists>c'. kill_unsatisfied sat c = Some c' \<and> ?I (length [0..<cd_len c]) c'"
    unfolding kill_unsatisfied_def
  proof (rule for_each_invariant, goal_cases)
    case (2 n c1)
    then have sh: "cd_parents c1 = cd_parents c" "cd_len c1 = cd_len c"
      by (auto simp: cd_keeps_def cd_same_shape_def cd_len_def)
    have n: "n < cd_len c1" "[0..<cd_len c] ! n = n" using 2 sh by simp_all
    have p: "cd_parent c1 n = Some (cd_parents c ! n)" "idx sat (unat (cd_parents c ! n)) = Some (?K n)"
      using n sh len assms(2) by (simp_all add: cd_parent_def)
    have "cd_wf c1" using 2(2) assms(1) by (rule cd_keeps_wf)
    from cd_kill_keeps [OF this n(1)] obtain c2 where c2: "cd_kill c1 n = Some c2" "cd_keeps (\<lambda>j. j \<noteq> n) c1 c2" by blast
    have "cd_keeps (\<lambda>i. (i < n \<longrightarrow> ?K i) \<and> i \<noteq> n) c c2" using 2(2) c2(2) by (rule cd_keeps_trans)
    then have "\<not> ?K n \<Longrightarrow> ?I (Suc n) c2" by (rule cd_keeps_cong [THEN iffD1, rotated]) (auto simp: less_Suc_eq)
    moreover have "?K n \<Longrightarrow> ?I (Suc n) c1"
      using 2(2) by (rule cd_keeps_cong [THEN iffD1, rotated]) (auto simp: less_Suc_eq)
    ultimately show ?case unfolding n(2) using p c2(1) by auto
  qed simp
  moreover have "?I (length [0..<cd_len c]) c' = cd_keeps ?K c c'" for c' by (rule cd_keeps_cong) simp
  ultimately show ?thesis by (simp add: cd_filters_def)
qed

locale variants = children +
  fixes bounds :: "nat list"
  assumes variant_exact: "i < length cgs \<Longrightarrow> exact (fst (cgs ! i)) (snd (cgs ! i))"
    and variant_proposing: "i < length cgs \<Longrightarrow> proposing (fst (cgs ! i)) (snd (cgs ! i)) (bounds ! i)"
    and nonempty: "cgs \<noteq> []"
    and same: "same_variables (map fst cgs)"
    and bounds: "length bounds = length cgs"
begin

lemma satisfied_rows_eq:
  assumes "fr_wf f" "i < length cgs"
  shows "\<exists>sat. satisfied_rows (fst (cgs ! i)) f = Some sat \<and> length sat = fr_len f
    \<and> (\<forall>p < fr_len f. sat ! p \<longleftrightarrow> snd (cgs ! i) (fr_assign f p))"
proof -
  let ?c = "fst (cgs ! i)" and ?g = "snd (cgs ! i)"
  have sat: "do { bd \<leftarrow> fr_row f p; c_satisfied ?c bd } = Some (?g (fr_assign f p))" if p: "p < fr_len f" for p
  proof -
    obtain bd where bd: "fr_row f p = Some bd" "bd_wf bd" "bd_map bd = fr_assign f p" using fr_rowE [OF assms(1) p] by metis
    obtain s where s: "c_satisfied ?c bd = Some s" "?g (bd_map bd) \<longrightarrow> s"
      using lawful.satisfied_total [OF child_lawful [OF assms(2)] bd(2)] by blast
    then have "s = ?g (bd_map bd)" using exact.satisfied_exact [OF variant_exact [OF assms(2)] bd(2)] by auto
    then show ?thesis using s bd by simp
  qed
  then have "satisfied_rows ?c f = Some (map (\<lambda>p. ?g (fr_assign f p)) [0..<fr_len f])"
    unfolding satisfied_rows_def by (intro map_panic_Some) simp
  then show ?thesis by simp
qed

text \<open>One variant contributes exactly the values that keep its own predicate.\<close>

definition variant_rows :: "nat \<Rightarrow> nat \<Rightarrow> frontier \<Rightarrow> candidate_row list \<Rightarrow> bool" where
  "variant_rows i v f rows \<longleftrightarrow> (\<forall>r \<in> set rows. unat (row_tag r) < fr_len f) \<and>
     (\<forall>r \<in> set rows. row_live r \<longrightarrow> snd (cgs ! i) ((fr_assign f (unat (row_tag r)))(v \<mapsto> row_value r))) \<and>
     (v \<in> vs_elems (c_variables (fst (cgs ! i))) \<longrightarrow>
       (\<forall>p < fr_len f. \<forall>x. snd (cgs ! i) ((fr_assign f p)(v \<mapsto> x)) \<longrightarrow> (word_of_nat p, x, True) \<in> set rows))"

lemma propose_variant_spec:
  assumes i: "i < length cgs" and f: "fr_wf f" "fr_len f < 2 ^ 32" "v < 128" "v \<notin> vs_elems (fr_bound f)" and "pb_wf b"
  shows "\<exists>b' rows. uc_propose_variant v f b (fst (cgs ! i)) = Some b' \<and> pb_wf b' \<and> pb_rows b' = pb_rows b @ rows
    \<and> variant_rows i v f rows"
proof -
  let ?c = "fst (cgs ! i)" and ?g = "snd (cgs ! i)"
  obtain sat where sat: "satisfied_rows ?c f = Some sat" "length sat = fr_len f"
    "\<And>p. p < fr_len f \<Longrightarrow> sat ! p \<longleftrightarrow> ?g (fr_assign f p)" using satisfied_rows_eq [OF f(1) i] by blast
  have restrict: "sat ! p" if "p < fr_len f" "?g ((fr_assign f p)(v \<mapsto> x))" for p x
    using lawful.good_restrict [OF child_lawful [OF i] that(2)] fr_assign_unbound [OF f(1) that(1) f(4)] sat(3) that(1) by simp
  show ?thesis
  proof (cases "True \<in> set sat")
    case False
    then have "\<not> sat ! p" if "p < fr_len f" for p using that sat(2) by (metis nth_mem)
    then have "variant_rows i v f []" using restrict by (auto simp: variant_rows_def)
    then show ?thesis using False sat(1) assms(6) by (auto simp: uc_propose_variant_def)
  next
    case True
    obtain b1 rows where b1: "c_propose ?c v f b = Some b1" "pb_wf b1" "pb_rows b1 = pb_rows b @ rows"
      "propose_spec ?g v f (offers ?c v f) rows"
      using lawful.propose [OF child_lawful [OF i] f assms(6)] by blast
    have len: "pb_len b \<le> pb_len b1" using b1(3) by (metis length_append length_pb_rows le_add1)
    have tags: "unat (row_tag r) < fr_len f" if "r \<in> set rows" for r using b1(4) that by (simp add: propose_spec_def)
    let ?K = "\<lambda>r. sat ! unat (row_tag r)"
    have "variant_rows i v f (filter ?K rows)"
    proof -
      have "?g ((fr_assign f (unat (row_tag r)))(v \<mapsto> row_value r))" if "r \<in> set rows" "?K r" "row_live r" for r
        using b1(4) that sat(3) [OF tags [OF that(1)]] by (simp add: propose_spec_def)
      moreover have "(word_of_nat p, x, True) \<in> set (filter ?K rows)"
        if v: "v \<in> vs_elems (c_variables ?c)" and p: "p < fr_len f" "?g ((fr_assign f p)(v \<mapsto> x))" for p x
      proof -
        have "offers ?c v f p" by (rule proposing.offers_all [OF variant_proposing [OF i] f(1) p(1) v f(4)])
        then have "(word_of_nat p, x, True) \<in> set rows" using b1(4) p by (simp add: propose_spec_def)
        then show ?thesis using restrict [OF p] tag_of_row [OF p(1) f(2)] by simp
      qed
      ultimately show ?thesis using tags by (simp add: variant_rows_def)
    qed
    moreover have "\<exists>b2. (if False \<in> set sat then pb_retain_region b1 (pb_len b) (\<lambda>row _. idx sat (unat row)) else Some b1) = Some b2
        \<and> pb_wf b2 \<and> pb_rows b2 = pb_rows b @ filter ?K rows"
    proof (cases "False \<in> set sat")
      case True
      then show ?thesis
        using pb_retain_region_rows [OF b1(2) len, of "\<lambda>row _. idx sat (unat row)" ?K] b1(3) tags sat(2) by auto
    next
      case False
      then have "filter ?K rows = rows" using tags sat(2) by (intro filter_True) (metis nth_mem)
      with False b1 show ?thesis by simp
    qed
    ultimately show ?thesis using True sat(1) b1(1) by (auto simp: uc_propose_variant_def)
  qed
qed

lemma variables_same:
  assumes "i < length cgs"
  shows "c_variables (fst (cgs ! i)) = uc_variables (map fst cgs)"
proof -
  have "same_variables cs \<Longrightarrow> i < length cs \<Longrightarrow> c_variables (cs ! i) = c_variables (hd cs)" for cs i
  proof (induction cs arbitrary: i rule: same_variables.induct)
    case (1 a b cs)
    then show ?case by (cases i) auto
  qed auto
  from this [OF same] assms show ?thesis by (simp add: uc_variables_def)
qed

lemma variants_propose:
  assumes f: "fr_wf f" "fr_len f < 2 ^ 32" "v < 128" "v \<notin> vs_elems (fr_bound f)" and "pb_wf b"
  shows "\<exists>b' rows. for_each (uc_propose_variant v f) b (map fst cgs) = Some b' \<and> pb_wf b' \<and> pb_rows b' = pb_rows b @ rows
    \<and> (\<forall>r \<in> set rows. unat (row_tag r) < fr_len f)
    \<and> (\<forall>r \<in> set rows. row_live r \<longrightarrow> any_good cgs ((fr_assign f (unat (row_tag r)))(v \<mapsto> row_value r)))
    \<and> (v \<in> vs_elems (uc_variables (map fst cgs)) \<longrightarrow>
        (\<forall>p < fr_len f. \<forall>x. any_good cgs ((fr_assign f p)(v \<mapsto> x)) \<longrightarrow> (word_of_nat p, x, True) \<in> set rows))"
proof -
  define I where "I k b' \<longleftrightarrow> pb_wf b' \<and> (\<exists>rows. pb_rows b' = pb_rows b @ rows
    \<and> (\<forall>r \<in> set rows. unat (row_tag r) < fr_len f)
    \<and> (\<forall>r \<in> set rows. row_live r \<longrightarrow> any_good cgs ((fr_assign f (unat (row_tag r)))(v \<mapsto> row_value r)))
    \<and> (v \<in> vs_elems (uc_variables (map fst cgs)) \<longrightarrow> (\<forall>i < k. \<forall>p < fr_len f. \<forall>x.
        snd (cgs ! i) ((fr_assign f p)(v \<mapsto> x)) \<longrightarrow> (word_of_nat p, x, True) \<in> set rows)))" for k b'
  have "\<exists>b'. for_each (uc_propose_variant v f) b (map fst cgs) = Some b' \<and> I (length (map fst cgs)) b'"
  proof (rule for_each_invariant)
    show "I 0 b" using assms(5) by (simp add: I_def)
  next
    fix k b1 assume "k < length (map fst cgs)" and I: "I k b1"
    then have k: "k < length cgs" by simp
    obtain rows where rows: "pb_rows b1 = pb_rows b @ rows" "\<forall>r \<in> set rows. unat (row_tag r) < fr_len f"
      "\<forall>r \<in> set rows. row_live r \<longrightarrow> any_good cgs ((fr_assign f (unat (row_tag r)))(v \<mapsto> row_value r))"
      "v \<in> vs_elems (uc_variables (map fst cgs)) \<longrightarrow> (\<forall>i < k. \<forall>p < fr_len f. \<forall>x.
        snd (cgs ! i) ((fr_assign f p)(v \<mapsto> x)) \<longrightarrow> (word_of_nat p, x, True) \<in> set rows)"
      using I by (auto simp: I_def)
    have "pb_wf b1" using I by (simp add: I_def)
    from propose_variant_spec [OF k f this] obtain b2 rows' where b2: "uc_propose_variant v f b1 (fst (cgs ! k)) = Some b2"
      "pb_wf b2" "pb_rows b2 = pb_rows b1 @ rows'" "variant_rows k v f rows'" by blast
    have "any_good cgs ((fr_assign f (unat (row_tag r)))(v \<mapsto> row_value r))" if "r \<in> set rows'" "row_live r" for r
      using b2(4) that k by (auto simp: variant_rows_def any_good_def)
    then have "I (Suc k) b2"
      unfolding I_def using b2 rows variables_same [OF k]
      by (intro conjI exI [of _ "rows @ rows'"]) (auto simp: variant_rows_def less_Suc_eq)
    then show "\<exists>b'. uc_propose_variant v f b1 (map fst cgs ! k) = Some b' \<and> I (Suc k) b'" using b2(1) k by auto
  qed
  then obtain b' rows where b': "for_each (uc_propose_variant v f) b (map fst cgs) = Some b'" "pb_wf b'"
    "pb_rows b' = pb_rows b @ rows" "\<forall>r \<in> set rows. unat (row_tag r) < fr_len f"
    "\<forall>r \<in> set rows. row_live r \<longrightarrow> any_good cgs ((fr_assign f (unat (row_tag r)))(v \<mapsto> row_value r))"
    "v \<in> vs_elems (uc_variables (map fst cgs)) \<longrightarrow> (\<forall>i < length cgs. \<forall>p < fr_len f. \<forall>x.
        snd (cgs ! i) ((fr_assign f p)(v \<mapsto> x)) \<longrightarrow> (word_of_nat p, x, True) \<in> set rows)"
    unfolding I_def by auto
  moreover have "(word_of_nat p, x, True) \<in> set rows"
    if "v \<in> vs_elems (uc_variables (map fst cgs))" "p < fr_len f" "any_good cgs ((fr_assign f p)(v \<mapsto> x))" for p x
    using b'(6) that unfolding any_good_def by (metis in_set_conv_nth)
  ultimately show ?thesis by blast
qed

text \<open>Sorting and deduplicating the live candidates keeps the set and makes it duplicate free.\<close>

lemma uc_propose_spec:
  assumes f: "fr_wf f" "fr_len f < 2 ^ 32" "v < 128" "v \<notin> vs_elems (fr_bound f)" and "pb_wf b"
    and complete: "\<And>p. p < fr_len f \<Longrightarrow> complete p \<Longrightarrow> v \<in> vs_elems (uc_variables (map fst cgs))"
  shows "\<exists>b' rows. uc_propose (map fst cgs) v f b = Some b' \<and> pb_wf b' \<and> pb_rows b' = pb_rows b @ rows
    \<and> propose_spec (any_good cgs) v f complete rows"
proof -
  obtain b1 rows where b1: "for_each (uc_propose_variant v f) b (map fst cgs) = Some b1" "pb_wf b1"
    "pb_rows b1 = pb_rows b @ rows" and rows: "\<forall>r \<in> set rows. unat (row_tag r) < fr_len f"
    "\<forall>r \<in> set rows. row_live r \<longrightarrow> any_good cgs ((fr_assign f (unat (row_tag r)))(v \<mapsto> row_value r))"
    "v \<in> vs_elems (uc_variables (map fst cgs)) \<longrightarrow>
        (\<forall>p < fr_len f. \<forall>x. any_good cgs ((fr_assign f p)(v \<mapsto> x)) \<longrightarrow> (word_of_nat p, x, True) \<in> set rows)"
    using variants_propose [OF f assms(5)] by blast
  have len: "pb_len b \<le> pb_len b1" using b1(3) by (metis length_append length_pb_rows le_add1)
  define fresh where "fresh = map (\<lambda>r. (row_tag r, row_value r)) (filter row_live rows)"
  have tagged: "pb_tagged b1 (pb_len b) = Some fresh"
    using pb_tagged_eq [OF b1(2) len] b1(3) by (simp add: fresh_def)
  let ?rows = "map (\<lambda>(p, x). (p, x, True)) (remdups_adj (sort fresh))"
  obtain b2 where b2: "pb_rewrite_region b1 (pb_len b) (remdups_adj (sort fresh)) = Some b2" "pb_wf b2"
    "pb_rows b2 = pb_rows b @ ?rows"
    using pb_rewrite_region_rows [OF b1(2) len] b1(3) by auto
  have mem: "(p, x, l) \<in> set ?rows \<longleftrightarrow> l \<and> (p, x, True) \<in> set rows" for p x l
    by (force simp: fresh_def image_iff)
  have "filter row_live ?rows = ?rows" by (rule filter_True) auto
  moreover have "map (\<lambda>r. (row_tag r, row_value r)) ?rows = remdups_adj (sort fresh)"
    by (simp add: comp_def case_prod_beta)
  moreover have "distinct (remdups_adj (sort fresh))" by (rule sorted_remdups_adj_distinct) simp
  ultimately have "distinct (map (\<lambda>r. (row_tag r, row_value r)) (filter row_live ?rows))" by simp
  moreover have "unat (row_tag r) < fr_len f \<and> any_good cgs ((fr_assign f (unat (row_tag r)))(v \<mapsto> row_value r))"
    if "r \<in> set ?rows" for r
  proof -
    obtain p x l where r: "r = (p, x, l)" by (cases r)
    then have "(p, x, True) \<in> set rows" using that mem by simp
    then show ?thesis using rows(1,2) r by fastforce
  qed
  moreover have "(word_of_nat p, x, True) \<in> set ?rows"
    if "p < fr_len f" "complete p" "any_good cgs ((fr_assign f p)(v \<mapsto> x))" for p x
    using rows(3) complete [OF that(1,2)] that unfolding mem by blast
  ultimately have "propose_spec (any_good cgs) v f complete ?rows" unfolding propose_spec_def by blast
  moreover have "uc_propose (map fst cgs) v f b = Some b2" using b1(1) tagged b2(1) by (simp add: uc_propose_def)
  ultimately show ?thesis using b2 by blast
qed

text \<open>The vote of one variant on a scratch copy of the region's liveness.\<close>

definition votes_for :: "nat \<Rightarrow> nat \<Rightarrow> frontier \<Rightarrow> (u32 \<Rightarrow> raw_inline \<Rightarrow> bool) \<Rightarrow> bool" where
  "votes_for i v f Q \<longleftrightarrow>
     (\<forall>p x. unat p < fr_len f \<longrightarrow> Q p x \<longleftrightarrow> snd (cgs ! i) ((fr_assign f (unat p))(v \<mapsto> x)))"

lemma confirm_variant_spec:
  assumes i: "i < length cgs" and f: "fr_wf f" "v < 128" "v \<notin> vs_elems (fr_bound f)"
    and c: "cd_wf c" "\<forall>p \<in> set (cd_parents c). unat p < fr_len f" and "length ws = length (cd_words c)" and small: "fr_len f < 2 ^ 32"
  shows "\<exists>ws' Q. uc_confirm_variant v f c ws (fst (cgs ! i)) = Some ws' \<and> length ws' = length (cd_words c)
    \<and> votes_for i v f Q \<and> (\<forall>k. wbit ws' k \<longleftrightarrow> wbit ws k \<or>
        wbit (cd_live_words c) k \<and> Q (cd_parents c ! (k - cd_bit_offset c)) (cd_values c ! (k - cd_bit_offset c)))"
proof -
  let ?c = "fst (cgs ! i)" and ?g = "snd (cgs ! i)"
  obtain sat where sat: "satisfied_rows ?c f = Some sat" "length sat = fr_len f"
    "\<And>p. p < fr_len f \<Longrightarrow> sat ! p \<longleftrightarrow> ?g (fr_assign f p)" using satisfied_rows_eq [OF f(1) i] by blast
  have restrict: "sat ! p" if "p < fr_len f" "?g ((fr_assign f p)(v \<mapsto> x))" for p x
    using lawful.good_restrict [OF child_lawful [OF i] that(2)] fr_assign_unbound [OF f(1) that(1) f(3)] sat(3) that(1) by simp
  show ?thesis
  proof (cases "True \<in> set sat")
    case False
    then have "\<not> sat ! p" if "p < fr_len f" for p using that sat(2) by (metis nth_mem)
    then have "votes_for i v f (\<lambda>_ _. False)" using restrict by (auto simp: votes_for_def)
    then show ?thesis using False sat(1) assms(7) by (auto simp: uc_confirm_variant_def intro!: exI [of _ "\<lambda>_ _. False"])
  next
    case True
    let ?s = "cd_scratch c (cd_live_words c)"
    have s: "cd_wf ?s" "cd_parents ?s = cd_parents c" "cd_values ?s = cd_values c" "cd_bit_offset ?s = cd_bit_offset c"
      "cd_words ?s = cd_live_words c" "cd_len ?s = cd_len c"
      using c(1) by (simp_all add: cd_scratch_def cd_wf_def cd_len_def)
    have "\<exists>s1. (if False \<in> set sat then kill_unsatisfied sat ?s else Some ?s) = Some s1 \<and> cd_filters (\<lambda>p _. sat ! unat p) ?s s1"
    proof (cases "False \<in> set sat")
      case True
      then show ?thesis using kill_unsatisfied_filters [OF s(1), of sat] s(2) c(2) sat(2) by simp
    next
      case False
      have "length (cd_parents c) = cd_len c" using c(1) by (simp add: cd_wf_def cd_len_def)
      then have "sat ! unat (cd_parents c ! i)" if "i < cd_len c" for i
        using that False c(2) sat(2) by (metis nth_mem)
      then have "cd_filters (\<lambda>p _. sat ! unat p) ?s ?s"
        unfolding cd_filters_def by (intro cd_keeps_cong [THEN iffD1, OF _ cd_keeps_all]) (simp add: s)
      with False show ?thesis by simp
    qed
    then obtain s1 where s1: "(if False \<in> set sat then kill_unsatisfied sat ?s else Some ?s) = Some s1"
      "cd_filters (\<lambda>p _. sat ! unat p) ?s s1" by blast
    have wf1: "cd_wf s1" using s1(2) s(1) by (rule cd_filters_wf)
    have "cd_parents s1 = cd_parents c" using cd_filters_shape [OF s1(2)] s(2) by (simp add: cd_same_shape_def)
    then obtain s2 P where s2: "c_confirm ?c v f s1 = Some s2" "cd_filters P s1 s2" "confirm_spec ?g v f P"
      using lawful.confirm [OF child_lawful [OF i] f wf1] c(2) small by auto
    let ?Q = "\<lambda>p x. sat ! unat p \<and> P p x"
    have F: "cd_filters ?Q ?s s2" using s1(2) s2(2) by (rule cd_filters_trans)
    have "votes_for i v f ?Q"
      unfolding votes_for_def using s2(3) sat(3) restrict by (auto simp: confirm_spec_def)
    moreover have len2: "length (cd_words s2) = length (cd_words c)"
      using cd_filters_shape [OF F] s(5) by (simp add: cd_same_shape_def)
    moreover have "uc_confirm_variant v f c ws ?c = Some (or_words ws (cd_words s2))"
      using True sat(1) s1(1) s2(1) by (simp add: uc_confirm_variant_def Let_def)
    moreover have "wbit (or_words ws (cd_words s2)) k \<longleftrightarrow> wbit ws k \<or>
        wbit (cd_live_words c) k \<and> ?Q (cd_parents c ! (k - cd_bit_offset c)) (cd_values c ! (k - cd_bit_offset c))" for k
    proof -
      have "wbit (cd_words s2) k \<longleftrightarrow> wbit (cd_live_words c) k \<and> (cd_bit_offset c \<le> k \<longrightarrow> k < cd_bit_offset c + cd_len c \<longrightarrow>
          ?Q (cd_parents c ! (k - cd_bit_offset c)) (cd_values c ! (k - cd_bit_offset c)))"
        using F unfolding cd_filters_def cd_keeps_def s by blast
      moreover have "wbit (or_words ws (cd_words s2)) k \<longleftrightarrow> wbit ws k \<or> wbit (cd_words s2) k"
        using len2 assms(7) by (intro wbit_or_words) simp
      ultimately show ?thesis by (auto simp: wbit_cd_live_words)
    qed
    ultimately show ?thesis using assms(7) by (intro exI [of _ "or_words ws (cd_words s2)"] exI [of _ ?Q]) auto
  qed
qed

lemma uc_confirm_spec:
  assumes f: "fr_wf f" "v < 128" "v \<notin> vs_elems (fr_bound f)"
    and c: "cd_wf c" "\<forall>p \<in> set (cd_parents c). unat p < fr_len f" and small: "fr_len f < 2 ^ 32"
  shows "\<exists>c' Q. uc_confirm (map fst cgs) v f c = Some c' \<and> cd_filters Q c c' \<and> confirm_spec (any_good cgs) v f Q"
proof -
  let ?Q = "\<lambda>n p x. \<exists>i < n. snd (cgs ! i) ((fr_assign f (unat p))(v \<mapsto> x))"
  let ?tag = "\<lambda>k. cd_parents c ! (k - cd_bit_offset c)" and ?val = "\<lambda>k. cd_values c ! (k - cd_bit_offset c)"
  define I where "I n ws \<longleftrightarrow> length ws = length (cd_words c)
    \<and> (\<forall>k. wbit ws k \<longleftrightarrow> wbit (cd_live_words c) k \<and> ?Q n (?tag k) (?val k))" for n ws
  have lens: "length (cd_parents c) = cd_len c" using c(1) by (simp add: cd_wf_def cd_len_def)
  have tag: "unat (?tag k) < fr_len f" if "wbit (cd_live_words c) k" for k
  proof -
    have "k - cd_bit_offset c < cd_len c" using that unfolding wbit_cd_live_words by linarith
    then show ?thesis using c(2) lens by simp
  qed
  have "\<exists>ws. for_each (uc_confirm_variant v f c) (replicate (cd_live_word_len c) 0) (map fst cgs) = Some ws \<and> I (length (map fst cgs)) ws"
  proof (rule for_each_invariant)
    show "I 0 (replicate (cd_live_word_len c) 0)" by (simp add: I_def cd_live_word_len_def)
  next
    fix n ws assume "n < length (map fst cgs)" and I: "I n ws"
    then have n: "n < length cgs" by simp
    have len: "length ws = length (cd_words c)" using I by (simp add: I_def)
    obtain ws' Q where ws': "uc_confirm_variant v f c ws (fst (cgs ! n)) = Some ws'" "length ws' = length (cd_words c)"
      "votes_for n v f Q" "\<And>k. wbit ws' k \<longleftrightarrow> wbit ws k \<or> wbit (cd_live_words c) k \<and> Q (?tag k) (?val k)"
      using confirm_variant_spec [OF n f c len small] by blast
    have "wbit ws' k \<longleftrightarrow> wbit (cd_live_words c) k \<and> ?Q (Suc n) (?tag k) (?val k)" for k
    proof -
      have "wbit ws k \<longleftrightarrow> wbit (cd_live_words c) k \<and> ?Q n (?tag k) (?val k)" using I unfolding I_def by blast
      moreover have "wbit (cd_live_words c) k \<Longrightarrow> Q (?tag k) (?val k) \<longleftrightarrow> snd (cgs ! n) ((fr_assign f (unat (?tag k)))(v \<mapsto> ?val k))"
        using ws'(3) tag [of k] unfolding votes_for_def by blast
      ultimately show ?thesis unfolding ws'(4) less_Suc_eq by blast
    qed
    then have "I (Suc n) ws'" unfolding I_def using ws'(2) by blast
    then show "\<exists>ws'. uc_confirm_variant v f c ws (map fst cgs ! n) = Some ws' \<and> I (Suc n) ws'" using ws'(1) n by auto
  qed
  then obtain ws where ws: "for_each (uc_confirm_variant v f c) (replicate (cd_live_word_len c) 0) (map fst cgs) = Some ws"
    "length ws = length (cd_words c)" "\<And>k. wbit ws k \<longleftrightarrow> wbit (cd_live_words c) k \<and> ?Q (length cgs) (?tag k) (?val k)"
    unfolding I_def by auto
  have "wbit (cd_words (cd_set_live_words c ws)) k \<longleftrightarrow> wbit (cd_words c) k \<and>
      (cd_bit_offset c \<le> k \<longrightarrow> k < cd_bit_offset c + cd_len c \<longrightarrow> ?Q (length cgs) (?tag k) (?val k))" for k
    unfolding wbit_cd_set_live_words [OF ws(2)] ws(3) wbit_cd_live_words by auto
  then have "cd_filters (?Q (length cgs)) c (cd_set_live_words c ws)"
    using cd_set_live_words_shape [OF ws(2)] by (simp only: cd_filters_def cd_keeps_def simp_thms)
  moreover have "?Q (length cgs) p x \<longleftrightarrow> any_good cgs ((fr_assign f (unat p))(v \<mapsto> x))" for p x
    unfolding any_good_def by (metis in_set_conv_nth)
  then have "confirm_spec (any_good cgs) v f (?Q (length cgs))" unfolding confirm_spec_def by blast
  moreover have "uc_confirm (map fst cgs) v f c = Some (cd_set_live_words c ws)" using ws(1) by (simp add: uc_confirm_def)
  ultimately show ?thesis by blast
qed

lemma uc_estimate_eq:
  assumes "bd_wf bd" "v \<notin> vs_elems (bd_bound bd)"
  shows "\<exists>es. uc_estimate (map fst cgs) v bd = Some (sum_some es) \<and> length es = length cgs
    \<and> (\<forall>i < length cgs. c_estimate (fst (cgs ! i)) v bd = Some (es ! i))"
proof -
  let ?es = "map (\<lambda>cg. the (c_estimate (fst cg) v bd)) cgs"
  have est: "c_estimate (fst (cgs ! i)) v bd = Some (?es ! i)" if "i < length cgs" for i
    using lawful.estimate_total [OF child_lawful [OF that] assms] that by auto
  have "map_panic (\<lambda>c. c_estimate c v bd) (map fst cgs) = Some (map (\<lambda>c. the (c_estimate c v bd)) (map fst cgs))"
    by (rule map_panic_Some) (use est in \<open>fastforce simp: in_set_conv_nth\<close>)
  then have "uc_estimate (map fst cgs) v bd = Some (sum_some ?es)" by (simp add: uc_estimate_def comp_def)
  with est show ?thesis by (intro exI [of _ ?es]) simp
qed

lemma uc_satisfied_eq: "bd_wf bd \<Longrightarrow> uc_satisfied (map fst cgs) bd = Some (any_good cgs (bd_map bd))"
proof -
  assume bd: "bd_wf bd"
  have sat: "c_satisfied (fst (cgs ! i)) bd = Some (snd (cgs ! i) (bd_map bd))" if "i < length cgs" for i
    using lawful.satisfied_total [OF child_lawful [OF that] bd] exact.satisfied_exact [OF variant_exact [OF that] bd] by auto
  have "any_panic (\<lambda>c. c_satisfied c bd) (map fst cgs) = Some (\<exists>c \<in> set (map fst cgs). the (c_satisfied c bd))"
    by (rule any_panic_Some) (use sat in \<open>fastforce simp: in_set_conv_nth\<close>)
  moreover have "(\<exists>c \<in> set (map fst cgs). the (c_satisfied c bd)) \<longleftrightarrow> any_good cgs (bd_map bd)"
  proof -
    have "(\<exists>c \<in> set (map fst cgs). the (c_satisfied c bd)) \<longleftrightarrow> (\<exists>i < length cgs. the (c_satisfied (fst (cgs ! i)) bd))"
      unfolding set_map by (metis (no_types, lifting) image_iff in_set_conv_nth)
    also have "\<dots> \<longleftrightarrow> (\<exists>i < length cgs. snd (cgs ! i) (bd_map bd))" using sat by auto
    also have "\<dots> \<longleftrightarrow> any_good cgs (bd_map bd)" unfolding any_good_def by (metis in_set_conv_nth)
    finally show ?thesis .
  qed
  ultimately show ?thesis by (simp add: uc_satisfied_def)
qed

lemma union_exact: "exact (union_methods (map fst cgs)) (any_good cgs)"
proof
  let ?c = "union_methods (map fst cgs)"
  have sel: "c_variables ?c = uc_variables (map fst cgs)" "c_estimate ?c = uc_estimate (map fst cgs)"
    "c_propose ?c = uc_propose (map fst cgs)" "c_confirm ?c = uc_confirm (map fst cgs)"
    "c_satisfied ?c = uc_satisfied (map fst cgs)" by (simp_all add: union_methods_def)
  have any: "any_good cgs \<sigma> \<longleftrightarrow> (\<exists>i < length cgs. snd (cgs ! i) \<sigma>)" for \<sigma>
    unfolding any_good_def by (metis in_set_conv_nth)
  have foreign: "c_estimate ?c v b = Some None" if b: "bd_wf b" "v \<notin> vs_elems (bd_bound b)" "v \<notin> vs_elems (c_variables ?c)" for v b
  proof -
    obtain es where es: "c_estimate ?c v b = Some (sum_some es)" "length es = length cgs"
      "\<And>i. i < length cgs \<Longrightarrow> c_estimate (fst (cgs ! i)) v b = Some (es ! i)"
      using uc_estimate_eq [OF b(1), of v] b by (auto simp: sel)
    have "es ! i = None" if "i < length cgs" for i
      using lawful.estimate_foreign [OF child_lawful [OF that] b(1,2)] es(3) [OF that] b(3) variables_same [OF that]
      by (simp add: sel)
    then show ?thesis using es by (auto simp: sum_some_None in_set_conv_nth)
  qed
  show "any_good cgs \<sigma> = any_good cgs \<tau>" if "\<forall>v \<in> vs_elems (c_variables ?c). \<sigma> v = \<tau> v" for \<sigma> \<tau>
  proof -
    have "snd (cgs ! i) \<sigma> = snd (cgs ! i) \<tau>" if "i < length cgs" for i
      using lawful.good_local [OF child_lawful [OF that], of \<sigma> \<tau>] variables_same [OF that]
        \<open>\<forall>v \<in> vs_elems (c_variables ?c). \<sigma> v = \<tau> v\<close> by (simp add: sel)
    then show ?thesis unfolding any by blast
  qed
  show "any_good cgs \<sigma>" if "any_good cgs \<tau>" "\<sigma> \<subseteq>\<^sub>m \<tau>" for \<sigma> \<tau>
    using that lawful.good_antimono [OF child_lawful] unfolding any by blast
  show "\<exists>s. c_satisfied ?c b = Some s \<and> (any_good cgs (bd_map b) \<longrightarrow> s)" if "bd_wf b" for b
    using uc_satisfied_eq [OF that] by (simp add: sel)
  show "any_good cgs Map.empty" if "bd_wf b" "bd_map b = Map.empty" "c_satisfied ?c b = Some True" for b
    using uc_satisfied_eq [OF that(1)] that by (simp add: sel)
  show "any_good cgs (bd_map b)" if "bd_wf b" "c_satisfied ?c b = Some True" for b
    using uc_satisfied_eq [OF that(1)] that by (simp add: sel)
  show "\<exists>e. c_estimate ?c v b = Some e" if "bd_wf b" "v \<notin> vs_elems (bd_bound b)" for v b using uc_estimate_eq [OF that] by (auto simp: sel)
  show "c_estimate ?c v b' = Some None"
    if b: "bd_wf b" "bd_wf b'" "bd_bound b = bd_bound b'" "v \<notin> vs_elems (bd_bound b)" "c_estimate ?c v b = Some None" for v b b'
  proof -
    obtain es where es: "c_estimate ?c v b = Some (sum_some es)" "length es = length cgs"
      "\<And>i. i < length cgs \<Longrightarrow> c_estimate (fst (cgs ! i)) v b = Some (es ! i)"
      using uc_estimate_eq [OF b(1), of v] b by (auto simp: sel)
    then have none: "sum_some es = None" using b(5) by simp
    obtain es' where es': "c_estimate ?c v b' = Some (sum_some es')" "length es' = length cgs"
      "\<And>i. i < length cgs \<Longrightarrow> c_estimate (fst (cgs ! i)) v b' = Some (es' ! i)"
      using uc_estimate_eq [OF b(2), of v] b(3,4) by (auto simp: sel)
    have "es' ! i = None" if "i < length cgs" for i
      using lawful.estimate_uniform [OF child_lawful [OF that] b(1,2,3,4)] none es(2) es(3) [OF that] es'(3) [OF that] that
      by (simp add: sum_some_None)
    then show ?thesis using es' by (auto simp: sum_some_None in_set_conv_nth)
  qed
  show "c_estimate ?c v b = Some None" if "bd_wf b" "v \<notin> vs_elems (bd_bound b)" "v \<notin> vs_elems (c_variables ?c)" for v b using foreign that .
  show "any_good cgs ((bd_map b)(v \<mapsto> x))"
    if b: "bd_wf b" "c_estimate ?c v b = Some None" "v \<notin> vs_elems (bd_bound b)" "any_good cgs (bd_map b)" for v b x
  proof -
    obtain es where es: "c_estimate ?c v b = Some (sum_some es)" "length es = length cgs"
      "\<And>i. i < length cgs \<Longrightarrow> c_estimate (fst (cgs ! i)) v b = Some (es ! i)"
      using uc_estimate_eq [OF b(1), of v] b by (auto simp: sel)
    then have none: "sum_some es = None" using b(2) by simp
    obtain i where i: "i < length cgs" "snd (cgs ! i) (bd_map b)" using b(4) unfolding any by blast
    then have "snd (cgs ! i) ((bd_map b)(v \<mapsto> x))"
      using lawful.estimate_none [OF child_lawful [OF i(1)] b(1) _ b(3)] none es(2) es(3) [OF i(1)] by (simp add: sum_some_None)
    then show ?thesis unfolding any using i(1) by blast
  qed
  show "\<exists>pb' rows. c_propose ?c v f pb = Some pb' \<and> pb_wf pb' \<and> pb_rows pb' = pb_rows pb @ rows
      \<and> propose_spec (any_good cgs) v f (offers ?c v f) rows"
    if f: "fr_wf f" "fr_len f < 2 ^ 32" "v < 128" "v \<notin> vs_elems (fr_bound f)" "pb_wf pb" for f v pb
  proof -
    have "v \<in> vs_elems (uc_variables (map fst cgs))" if p: "p < fr_len f" "offers ?c v f p" for p
    proof -
      obtain bd where "fr_row f p = Some bd" "bd_wf bd" "v \<notin> vs_elems (bd_bound bd)" using fr_rowE [OF f(1) p(1)] f(4) by metis
      then show ?thesis using foreign [of bd v] p(2) by (intro ccontr [of "v \<in> _"]) (auto simp: offers_def sel)
    qed
    then show ?thesis unfolding sel by (rule uc_propose_spec [OF f])
  qed
  show "\<exists>cs' Q. c_confirm ?c v f cs = Some cs' \<and> cd_filters Q cs cs' \<and> confirm_spec (any_good cgs) v f Q"
    if "fr_wf f" "v < 128" "v \<notin> vs_elems (fr_bound f)" "cd_wf cs" "\<forall>p \<in> set (cd_parents cs). unat p < fr_len f" "fr_len f < 2 ^ 32" for f v cs
    unfolding sel using that by (rule uc_confirm_spec)
qed

lemma union_proposing:
  assumes "sum_list bounds < usize_max"
  shows "proposing (union_methods (map fst cgs)) (any_good cgs) (sum_list bounds)"
proof (intro proposing.intro proposing_axioms.intro)
  show "lawful (union_methods (map fst cgs)) (any_good cgs)" by (rule exact.axioms(1) [OF union_exact])
  fix b v assume b: "bd_wf b" "v \<in> vs_elems (c_variables (union_methods (map fst cgs)))" "v \<notin> vs_elems (bd_bound b)"
  obtain es where es: "uc_estimate (map fst cgs) v b = Some (sum_some es)" "length es = length cgs"
    "\<And>i. i < length cgs \<Longrightarrow> c_estimate (fst (cgs ! i)) v b = Some (es ! i)"
    using uc_estimate_eq [OF b(1,3)] by auto
  have "\<exists>e. es ! i = Some e \<and> e \<le> bounds ! i" if "i < length es" for i
    using proposing.estimate_some [OF variant_proposing b(1) _ b(3), of i] that es b(2) variables_same [of i]
    by (auto simp: union_methods_def)
  moreover have "es \<noteq> []" using es(2) nonempty by auto
  ultimately have "\<exists>e. sum_some es = Some e \<and> e \<le> sum_list bounds"
    using es(2) bounds assms by (intro sum_some_bounded) auto
  then show "\<exists>e. c_estimate (union_methods (map fst cgs)) v b = Some (Some e) \<and> e \<le> sum_list bounds"
    using es(1) by (simp add: union_methods_def)
qed (rule assms)

end

text \<open>The disjunction \<open>or!(a.is(j), a.is(k))\<close>.\<close>

interpretation constant_variants: variants
  "[(constant_constraint (var_index q) j, unary_good (var_index q) (\<lambda>x. x = j)),
    (constant_constraint (var_index q) k, unary_good (var_index q) (\<lambda>x. x = k))]" "[1, 1]"
  for q j k
proof (intro variants.intro children.intro variants_axioms.intro)
  have pr: "proposing (constant_constraint (var_index q) k) (unary_good (var_index q) (\<lambda>x. x = k)) 1" for k
    by (rule unary_proposing [OF constant_unary]) (simp_all add: usize_max_def)
  let ?l = "[(constant_constraint (var_index q) j, unary_good (var_index q) (\<lambda>x. x = j)),
    (constant_constraint (var_index q) k, unary_good (var_index q) (\<lambda>x. x = k))]"
  show "lawful (fst (?l ! i)) (snd (?l ! i))" if "i < length ?l" for i
    using that constant_leaf.lawful_axioms by (auto simp: less_Suc_eq)
  show "exact (fst (?l ! i)) (snd (?l ! i))" if "i < length ?l" for i
    using that constant_leaf.exact_axioms by (auto simp: less_Suc_eq)
  show "proposing (fst (?l ! i)) (snd (?l ! i)) ([1, 1] ! i)" if "i < length ?l" for i
    using that pr by (auto simp: less_Suc_eq)
qed (simp_all add: constant_constraint_def)

section \<open>Properties\<close>

text \<open>
  C7. The union of constraints over the same variables, each lawful, exact when fully bound and able to
  propose, is lawful, exact and able to propose, for the disjunction of their meanings: a value is
  offered exactly once when some variant that still accepts the row offers it, and \<open>confirm\<close> keeps a
  value exactly when some such variant keeps it. The bound is the sum of the variants' bounds, which
  must not overflow.
\<close>

theorem union_keeps_contract:
  assumes "\<And>i. i < length cgs \<Longrightarrow> exact (fst (cgs ! i)) (snd (cgs ! i))"
    and "\<And>i. i < length cgs \<Longrightarrow> proposing (fst (cgs ! i)) (snd (cgs ! i)) (bounds ! i)"
    and "cgs \<noteq> []" "same_variables (map fst cgs)" "length bounds = length cgs" "sum_list bounds < usize_max"
  shows "\<exists>u. union_constraint (map fst cgs) = Some u \<and> exact u (any_good cgs) \<and> proposing u (any_good cgs) (sum_list bounds)"
proof -
  have "variants cgs bounds"
  proof (rule variants.intro)
    show "children cgs" using assms(1) by (intro children_of exact.axioms(1))
    show "variants_axioms cgs bounds" using assms(1-5) by (rule variants_axioms.intro)
  qed
  then show ?thesis using variants.union_exact variants.union_proposing assms(3,4,6)
    by (auto simp: union_constraint_def)
qed

theorem union_keeps_contract_witness:
  "\<exists>u. union_constraint (map fst
      [(constant_constraint 3 (inline_pad [1]), unary_good 3 (\<lambda>x. x = inline_pad [1])),
       (constant_constraint 3 (inline_pad [2]), unary_good 3 (\<lambda>x. x = inline_pad [2]))]) = Some u \<and>
    exact u (any_good [(constant_constraint 3 (inline_pad [1]), unary_good 3 (\<lambda>x. x = inline_pad [1])),
       (constant_constraint 3 (inline_pad [2]), unary_good 3 (\<lambda>x. x = inline_pad [2]))]) \<and>
    proposing u (any_good [(constant_constraint 3 (inline_pad [1]), unary_good 3 (\<lambda>x. x = inline_pad [1])),
       (constant_constraint 3 (inline_pad [2]), unary_good 3 (\<lambda>x. x = inline_pad [2]))]) (sum_list [1, 1])"
proof (rule union_keeps_contract)
  have p: "proposing (constant_constraint 3 k) (unary_good 3 (\<lambda>x. x = k)) 1" for k
    using unary_proposing [OF constant_unary [of 3 k]] by (simp add: usize_max_def)
  fix i :: nat
  assume "i < length [(constant_constraint 3 (inline_pad [1]), unary_good 3 (\<lambda>x. x = inline_pad [1])),
       (constant_constraint 3 (inline_pad [2]), unary_good 3 (\<lambda>x. x = inline_pad [2]))]"
  then have i: "i = 0 \<or> i = 1" by auto
  show "exact (fst ([(constant_constraint 3 (inline_pad [1]), unary_good 3 (\<lambda>x. x = inline_pad [1])),
       (constant_constraint 3 (inline_pad [2]), unary_good 3 (\<lambda>x. x = inline_pad [2]))] ! i))
     (snd ([(constant_constraint 3 (inline_pad [1]), unary_good 3 (\<lambda>x. x = inline_pad [1])),
       (constant_constraint 3 (inline_pad [2]), unary_good 3 (\<lambda>x. x = inline_pad [2]))] ! i))"
    using i constant_exact [of 3] by auto
  show "proposing (fst ([(constant_constraint 3 (inline_pad [1]), unary_good 3 (\<lambda>x. x = inline_pad [1])),
       (constant_constraint 3 (inline_pad [2]), unary_good 3 (\<lambda>x. x = inline_pad [2]))] ! i))
     (snd ([(constant_constraint 3 (inline_pad [1]), unary_good 3 (\<lambda>x. x = inline_pad [1])),
       (constant_constraint 3 (inline_pad [2]), unary_good 3 (\<lambda>x. x = inline_pad [2]))] ! i)) ([1, 1] ! i)"
    using i p by auto
qed (simp_all add: constant_constraint_def usize_max_def)

text \<open>
  Construction fails for an empty union and for variants over different variables, and for nothing
  else.
\<close>

theorem union_construction:
  "union_constraint cs = (if \<exists>vs. c_variables ` set cs = {vs} then Some (union_methods cs) else None)"
proof -
  have "cs \<noteq> [] \<and> same_variables cs \<longleftrightarrow> (\<exists>vs. c_variables ` set cs = {vs})"
  proof (induction cs rule: same_variables.induct)
    case (1 a b cs)
    then show ?case by auto
  qed auto
  then show ?thesis by (auto simp: union_constraint_def assert_that_def)
qed

definition member_of :: "nat \<Rightarrow> u8 \<Rightarrow> constraint" where
  "member_of v n = set_constraint inline_encode inline_try_from_inline v [inline_pad [n]]"

definition member_good :: "nat \<Rightarrow> u8 \<Rightarrow> assignment \<Rightarrow> bool" where
  "member_good v n = unary_good v (\<lambda>x. x \<in> inline_encode ` set [inline_pad [n]])"

definition mixed_frontier :: frontier where
  "mixed_frontier = \<lparr>fr_bound = vs_new_singleton 0, fr_block = [0, 0], fr_stride = 2, fr_select = Explicit [0],
     fr_levels = [\<lparr>lv_buffer = Some \<lparr>pb_entries = [inline_pad [1]], pb_live = [1], pb_parents = [0], pb_parent = 0\<rparr>, lv_pos = 1\<rparr>]\<rparr>"

definition mixed_candidates :: candidates where
  "mixed_candidates = \<lparr>cd_values = [inline_pad [20]], cd_parents = [0], cd_words = [1], cd_bit_offset = 0\<rparr>"

definition mixed_union :: constraint where
  "mixed_union = union_methods [intersection_constraint [member_of 0 1, member_of 1 10],
     intersection_constraint [member_of 0 2, member_of 1 20]]"

text \<open>
  C10. The law that the membership constraints break. \<open>SetConstraint\<close> does not override \<open>satisfied\<close>, so a
  conjunction of memberships reports every fully bound row as satisfied, and the union of two such
  conjunctions mixes them: in \<open>or!(and!(A.has(x), B.has(y)), and!(C.has(x), D.has(y)))\<close> with
  A = {1}, B = {10}, C = {2}, D = {20}, the row x = 1 keeps the candidate y = 20, although no variant
  accepts the pair, and \<open>satisfied\<close> accepts it too.
\<close>

theorem union_of_memberships_leaks:
  "map_option cd_words (c_confirm mixed_union 1 mixed_frontier mixed_candidates) = Some [1] \<and>
   fr_row mixed_frontier 0 \<bind> (\<lambda>b. bd_get b 0) = Some (Some (inline_pad [1])) \<and>
   \<not> (member_good 0 1 [0 \<mapsto> inline_pad [1], 1 \<mapsto> inline_pad [20]] \<and> member_good 1 10 [0 \<mapsto> inline_pad [1], 1 \<mapsto> inline_pad [20]]) \<and>
   \<not> (member_good 0 2 [0 \<mapsto> inline_pad [1], 1 \<mapsto> inline_pad [20]] \<and> member_good 1 20 [0 \<mapsto> inline_pad [1], 1 \<mapsto> inline_pad [20]]) \<and>
   c_satisfied mixed_union b = Some True"
proof (intro conjI)
  show "map_option cd_words (c_confirm mixed_union 1 mixed_frontier mixed_candidates) = Some [1]" by code_simp
  show "fr_row mixed_frontier 0 \<bind> (\<lambda>b. bd_get b 0) = Some (Some (inline_pad [1]))" by code_simp
  have "\<not> (inline_pad [20] = inline_pad [10])" "\<not> (inline_pad [1] = inline_pad [2])" by code_simp+
  then show "\<not> (member_good 0 1 [0 \<mapsto> inline_pad [1], 1 \<mapsto> inline_pad [20]] \<and> member_good 1 10 [0 \<mapsto> inline_pad [1], 1 \<mapsto> inline_pad [20]])"
    "\<not> (member_good 0 2 [0 \<mapsto> inline_pad [1], 1 \<mapsto> inline_pad [20]] \<and> member_good 1 20 [0 \<mapsto> inline_pad [1], 1 \<mapsto> inline_pad [20]])"
    by (simp_all add: member_good_def unary_good_def inline_encode_def)
  show "c_satisfied mixed_union b = Some True"
    by (simp add: mixed_union_def union_methods_def uc_satisfied_def intersection_constraint_def ic_satisfied_def
      member_of_def set_constraint_def collection_constraint_def default_satisfied_def)
qed

end
