(* ===== verification/Engine_Run.thy ===== *)
theory Engine_Run
  imports Engine_Chunk Union_Constraint
begin

text \<open>
  The search as a whole: the turns of \<open>try_next_where\<close> keep the invariant and decrease the measure, so
  that iterating a fresh query ends, and what it has emitted by then is every solution of the
  constraint exactly once, projected.
\<close>

section \<open>Turns\<close>

text \<open>The predicate of \<open>Iterator::next\<close>.\<close>

abbreviation accept_all :: "binding \<Rightarrow> (unit + bool) option" where
  "accept_all \<equiv> \<lambda>_. Some (Inr True)"

context search_run
begin

lemma turn_step:
  assumes inv: "search_inv W vars good q" and m: "q_mode q \<noteq> Done"
  shows "\<exists>out q'. query_turn c accept_all post q =
      Some (case List.map_filter proj out of [] \<Rightarrow> Continue | r # _ \<Rightarrow> Return (Inr (Some r)), q')
    \<and> length out \<le> 1 \<and> step_ok c good W q out q'"
proof (cases "q_mode q")
  case Plan
  then show ?thesis using plan_step [OF inv] by (intro exI [of _ "[]"]) (auto simp: query_turn_def map_filter_simps)
next
  case NextGroup
  then show ?thesis using group_step [OF inv] by (intro exI [of _ "[]"]) (auto simp: query_turn_def map_filter_simps)
next
  case NextChunk
  then show ?thesis using chunk_step [OF inv] by (intro exI [of _ "[]"]) (auto simp: query_turn_def map_filter_simps)
next
  case Emit
  then show ?thesis using emit_step [OF inv] by (simp add: query_turn_def)
qed (use m in simp)

end

section \<open>Fuel\<close>

lemma try_next_where_mono:
  "try_next_where n c pred post q = Some (Some r, q') \<Longrightarrow> try_next_where (Suc n) c pred post q = Some (Some r, q')"
proof (induction n arbitrary: q)
  case (Suc n)
  obtain t q1 where t: "query_turn c pred post q = Some (t, q1)" using Suc.prems by (auto split: Option.bind_splits)
  then show ?case using Suc by (cases t) simp_all
qed simp

lemma query_next_mono:
  "query_next n c post q = Some (Some r, q') \<Longrightarrow> query_next (Suc n) c post q = Some (Some r, q')"
  using try_next_where_mono [of n c accept_all post q]
  by (fastforce simp: query_next_def simp del: try_next_where.simps split: Option.bind_splits option.splits sum.splits)

lemma query_next_continue:
  "query_turn c accept_all post q = Some (Continue, q') \<Longrightarrow> query_next (Suc n) c post q = query_next n c post q'"
  by (simp add: query_next_def)

lemma query_next_row:
  "query_turn c accept_all post q = Some (Return (Inr (Some r)), q') \<Longrightarrow>
    query_next (Suc n) c post q = Some (Some (Some r), q')"
  by (simp add: query_next_def)

lemma query_next_done: "q_mode q = Done \<Longrightarrow> query_next (Suc n) c post q = Some (Some None, q)"
  by (simp add: query_next_def query_turn_def)

lemma query_collect_continue:
  assumes "query_turn c accept_all post q = Some (Continue, q')"
    and "query_collect k n c post q' = Some (Some rs)" "query_collect k (Suc n) c post q' = Some (Some rs)"
  shows "query_collect k (Suc n) c post q = Some (Some rs)"
proof (cases k)
  case (Suc j)
  obtain r q1 where r: "query_next n c post q' = Some (Some r, q1)"
    using assms(2) Suc by (auto split: Option.bind_splits option.splits)
  then have "query_next (Suc n) c post q = query_next (Suc n) c post q'"
    using query_next_continue [OF assms(1)] query_next_mono [OF r] by simp
  then show ?thesis using assms(3) Suc by simp
qed (use assms in simp)

section \<open>The whole run\<close>

context search_run
begin

lemma collects:
  assumes "search_inv W vars good q"
  shows "\<exists>sols. (\<forall>\<sigma> \<in> set sols. solution c good \<sigma>)
    \<and> (\<forall>\<tau>. solution c good \<tau> \<longrightarrow> extended \<tau> sols = extended \<tau> (pending q))
    \<and> (\<exists>N. \<forall>n \<ge> N. \<forall>k > length (List.map_filter proj sols).
        query_collect k n c post q = Some (Some (List.map_filter proj sols)))"
  using assms
proof (induction "search_measure (card vars) q" arbitrary: q rule: less_induct)
  case less
  show ?case
  proof (cases "q_mode q = Done")
    case True
    then have "pending q = []"
      using less.prems by (simp add: search_inv_def mode_ok_def pending_def mode_pending_def query_frames_def Let_def)
    moreover have "query_collect k n c post q = Some (Some [])" if "n \<ge> 1" "k > 0" for n k
      using that query_next_done [OF True, of "n - 1" c post] by (cases k) auto
    ultimately show ?thesis by (intro exI [of _ "[]"]) (auto simp: map_filter_simps intro!: exI [of _ 1])
  next
    case False
    obtain out q' where turn: "query_turn c accept_all post q =
        Some (case List.map_filter proj out of [] \<Rightarrow> Continue | r # _ \<Rightarrow> Return (Inr (Some r)), q')"
      "length out \<le> 1" "step_ok c good W q out q'"
      using turn_step [OF less.prems False] by auto
    have st: "search_inv W vars good q'" "search_measure (card vars) q' < search_measure (card vars) q"
      "\<And>\<sigma>. \<sigma> \<in> set out \<Longrightarrow> solution c good \<sigma>"
      "\<And>\<tau>. solution c good \<tau> \<Longrightarrow> extended \<tau> out + extended \<tau> (pending q') = extended \<tau> (pending q)"
      using turn(3) by (auto simp: step_ok_def)
    obtain sols N where sols: "\<forall>\<sigma> \<in> set sols. solution c good \<sigma>"
      "\<forall>\<tau>. solution c good \<tau> \<longrightarrow> extended \<tau> sols = extended \<tau> (pending q')"
      "\<And>n k. n \<ge> N \<Longrightarrow> k > length (List.map_filter proj sols) \<Longrightarrow>
        query_collect k n c post q' = Some (Some (List.map_filter proj sols))"
      using less.hyps [OF st(2,1)] by metis
    have mf: "List.map_filter proj (out @ sols) = List.map_filter proj out @ List.map_filter proj sols"
      by (simp add: List.map_filter_def)
    have len: "length (List.map_filter proj out) \<le> 1"
      using turn(2) by (auto simp: List.map_filter_def intro: order_trans [OF length_filter_le])
    have "query_collect k n c post q = Some (Some (List.map_filter proj (out @ sols)))"
      if nk: "n \<ge> Suc N" "k > length (List.map_filter proj (out @ sols))" for n k
    proof -
      obtain n' where n': "n = Suc n'" "n' \<ge> N" using nk(1) by (metis Suc_le_D Suc_le_mono)
      show ?thesis
      proof (cases "List.map_filter proj out")
        case Nil
        have t: "query_turn c accept_all post q = Some (Continue, q')" using turn(1) Nil by simp
        show ?thesis unfolding n'(1) mf
          by (rule query_collect_continue [OF t]) (use sols(3) n' nk(2) Nil in \<open>simp_all add: mf\<close>)
      next
        case (Cons r rs)
        then have rs: "List.map_filter proj out = [r]" using len by simp
        then have "query_next n c post q = Some (Some (Some r), q')" using turn(1) query_next_row n'(1) by fastforce
        moreover obtain j where "k = Suc j" "j > length (List.map_filter proj sols)" using nk(2) rs mf by (cases k) auto
        ultimately show ?thesis using sols(3) [of n j] n' rs mf by simp
      qed
    qed
    then show ?thesis using st(3,4) sols(1,2) by (intro exI [of _ "out @ sols"] conjI exI [of _ "Suc N"]) auto
  qed
qed

end

section \<open>A fresh query\<close>

lemma query_new_eq:
  assumes "proposing c good m" "0 < W"
  obtains q b q' where "query_new c = Some q" "with_frontier_width q W = Some q'" "q_mode q' = (if b then Plan else Done)"
    "c_satisfied c (bs_view bs_new) = Some b" "q_stack q' = []" "q_depth q' = 0" "q_bindings q' = bs_new" "q_unbound q' = c_variables c"
    "q_width q' = W" "length (q_influences q') = 128" "vs_elems (c_variables c) \<subseteq> {..<q_slots q'}" "q_slots q' \<le> 128"
    "\<exists>d. q_depths q' = [d] \<and> dp_rows d = 1 \<and> dp_plan d = Unplanned \<and> length (dp_block d) = q_slots q'
      \<and> length (dp_estimates d) = q_slots q'"
proof -
  let ?vars = "vs_elems (c_variables c)"
  define slots where "slots = (case vs_find_last_set (c_variables c) of Some v \<Rightarrow> v + 1 | None \<Rightarrow> 0)"
  have slots: "?vars \<subseteq> {..<slots}" "slots \<le> 128"
    using vs_elems_bound [of _ "c_variables c"] Max_ge [of ?vars] Max_in [of ?vars]
    by (auto simp: slots_def vs_find_last_set_eq less_Suc_eq_le Suc_le_eq split: if_splits)
  have view: "bd_wf (bs_view bs_new)" "vs_elems (bd_bound (bs_view bs_new)) = {}"
    by (simp_all add: bs_view_wf bs_new_wf) (simp add: bs_view_def bs_new_def)
  define est where "est v = (if vs_is_set (c_variables c) v then the (the (c_estimate c v (bs_view bs_new))) else usize_max)" for v
  have es: "map_panic (\<lambda>v. if vs_is_set (c_variables c) v
        then do { e \<leftarrow> c_estimate c v (bs_view bs_new); e } else Some usize_max) [0..<slots] = Some (map est [0..<slots])"
  proof (rule map_panic_Some)
    fix v assume "v \<in> set [0..<slots]"
    then have "v < 128" using slots(2) by simp
    then show "(if vs_is_set (c_variables c) v then do { e \<leftarrow> c_estimate c v (bs_view bs_new); e } else Some usize_max) = Some (est v)"
      using proposing.estimate_some [OF assms(1) view(1), of v] view(2) by (auto simp: est_def)
  qed
  obtain b where b: "c_satisfied c (bs_view bs_new) = Some b"
    using lawful.satisfied_total [OF proposing.axioms(1) [OF assms(1)] view(1)] by blast
  then show thesis using es assms(2) slots
    by (intro that [of "the (query_new c)" "the (query_new c)\<lparr>q_width := W\<rparr>" b])
      (simp_all add: query_new_def with_frontier_width_def slots_def [symmetric] Let_def)
qed

context search_run
begin

lemma fresh_query:
  obtains q0 q where "query_new c = Some q0" "with_frontier_width q0 W = Some q" "search_inv W vars good q"
    "\<And>\<tau>. solution c good \<tau> \<Longrightarrow> extended \<tau> (pending q) = 1"
proof -
  obtain q0 b q where q: "query_new c = Some q0" "with_frontier_width q0 W = Some q" "q_mode q = (if b then Plan else Done)"
    "c_satisfied c (bs_view bs_new) = Some b" "q_stack q = []" "q_depth q = 0" "q_bindings q = bs_new" "q_unbound q = c_variables c"
    "q_width q = W" "length (q_influences q) = 128" "vars \<subseteq> {..<q_slots q}" "q_slots q \<le> 128"
    "\<exists>d. q_depths q = [d] \<and> dp_rows d = 1 \<and> dp_plan d = Unplanned \<and> length (dp_block d) = q_slots q
      \<and> length (dp_estimates d) = q_slots q"
    by (rule query_new_eq [OF proposing_axioms width(1)])
  have view: "bd_wf (bs_view bs_new)" by (simp add: bs_view_wf bs_new_wf)
  have empty: "bd_map (bs_view bs_new) = Map.empty" by (auto simp: bd_map_def bs_view_def bs_new_def bd_get_def)
  have root: "row_assign levels block slots {} r = Map.empty" for levels block slots r by (auto simp: row_assign_def)
  obtain d where d: "q_depths q = [d]" "dp_rows d = 1" "dp_plan d = Unplanned" "length (dp_block d) = q_slots q"
    "length (dp_estimates d) = q_slots q" using q(13) by blast
  have fr: "query_frames q = []" "query_top q = d" "length (query_levels q) = 128" "vs_elems (bs_bound (q_bindings q)) = {}"
    using q(5,6,7) d(1) by (simp_all add: query_frames_def query_top_def query_levels_def bs_new_def)
  have pend: "pending q = (if b then [Map.empty] else [])"
    using q(3) d(2) by (simp add: pending_def mode_pending_def fr root)
  have good: "good Map.empty" if b using satisfied_root [OF view empty] q(4) that by simp
  have "mode_ok W vars q" using q(3,5,6) d width by (simp add: mode_ok_def fr depth_ok_def row_ok_def)
  then have inv: "search_inv W vars good q" using q fr good by (simp add: search_inv_def pend)
  have "b" if "solution c good \<tau>" for \<tau>
  proof -
    have "good Map.empty" using that good_antimono [of \<tau> Map.empty] by (simp add: solution_def)
    then show ?thesis using satisfied_total [OF view] q(4) empty by auto
  qed
  with q inv pend show thesis by (intro that) auto
qed

lemma solutions_once:
  assumes "\<And>\<sigma>. \<sigma> \<in> set sols \<Longrightarrow> solution c good \<sigma>" "\<And>\<tau>. solution c good \<tau> \<Longrightarrow> extended \<tau> sols = 1"
  shows "distinct sols" "set sols = {\<tau>. solution c good \<tau>}"
proof -
  have le: "\<sigma> \<subseteq>\<^sub>m \<tau> \<longleftrightarrow> \<sigma> = \<tau>" if "solution c good \<sigma>" "solution c good \<tau>" for \<sigma> \<tau>
    using that by (metis map_le_antisym map_le_def solution_def)
  have one: "count (mset sols) \<tau> = 1" if "solution c good \<tau>" for \<tau>
  proof -
    have "filter (\<lambda>\<sigma>. \<sigma> \<subseteq>\<^sub>m \<tau>) sols = filter (\<lambda>\<sigma>. \<sigma> = \<tau>) sols" using le assms(1) that by (intro filter_cong) auto
    moreover have "count (mset sols) \<tau> = length (filter (\<lambda>\<sigma>. \<sigma> = \<tau>) sols)" by (induction sols) auto
    ultimately show ?thesis using assms(2) [OF that] by (simp add: extended_def)
  qed
  have "count (mset sols) \<tau> = (if \<tau> \<in> set sols then 1 else 0)" for \<tau> using one assms(1) by (cases "\<tau> \<in> set sols") (auto simp: count_list_0_iff)
  then show "distinct sols" using distinct_count_atmost_1 by blast
  show "set sols = {\<tau>. solution c good \<tau>}"
    using assms(1) one by (metis (mono_tags, lifting) Collect_cong count_greater_zero_iff mem_Collect_eq set_mset_mset subsetI subset_antisym zero_less_one)
qed

lemma run_solutions:
  obtains q0 q sols N where "query_new c = Some q0" "with_frontier_width q0 W = Some q"
    "distinct sols" "set sols = {\<tau>. solution c good \<tau>}"
    "\<And>n k. n \<ge> N \<Longrightarrow> k > length (List.map_filter proj sols) \<Longrightarrow>
      query_collect k n c post q = Some (Some (List.map_filter proj sols))"
proof -
  obtain q0 q where q: "query_new c = Some q0" "with_frontier_width q0 W = Some q" "search_inv W vars good q"
    "\<And>\<tau>. solution c good \<tau> \<Longrightarrow> extended \<tau> (pending q) = 1" using fresh_query by metis
  obtain sols N where sols: "\<And>\<sigma>. \<sigma> \<in> set sols \<Longrightarrow> solution c good \<sigma>"
    "\<And>\<tau>. solution c good \<tau> \<Longrightarrow> extended \<tau> sols = extended \<tau> (pending q)"
    "\<And>n k. n \<ge> N \<Longrightarrow> k > length (List.map_filter proj sols) \<Longrightarrow>
      query_collect k n c post q = Some (Some (List.map_filter proj sols))"
    using collects [OF q(3)] by metis
  then show thesis using q solutions_once [of sols] by (intro that) auto
qed

end

section \<open>Interpretation\<close>

text \<open>A projection of one variable: \<open>Variable::extract\<close>, which panics when the variable is not bound.\<close>

lemma variable_extract_eq:
  "bd_wf bd \<Longrightarrow> vs_elems (bd_bound bd) = V \<Longrightarrow> v \<in> V \<Longrightarrow> map_option Some (variable_extract v bd) = Some (bd_map bd v)"
proof -
  assume bd: "bd_wf bd" "vs_elems (bd_bound bd) = V" "v \<in> V"
  then obtain x where "bd_map bd v = Some x" using dom_bd_map [OF bd(1)] by blast
  then show ?thesis using bd bd_get_map [OF bd(1)] vs_elems_bound [of v] by (auto simp: variable_extract_def)
qed

lemma unary_search_run:
  assumes "unary c var P vals n" "n < usize_max" "0 < W" "W < 2 ^ 32" "W * length vals \<le> 2 ^ 32"
  shows "search_run c (unary_good var P) n W (\<lambda>bd. map_option Some (variable_extract var bd)) (\<lambda>\<sigma>. \<sigma> var)"
proof (intro search_run.intro search_run_axioms.intro unary_proposing [OF assms(1,2)] assms(3,4))
  fix f v pb assume f: "fr_wf f" "fr_len f \<le> W" "c_propose c v f pb_new = Some pb"
  have len: "fr_len f * length vals \<le> 2 ^ 32" using f(2) assms(5) by (meson le_trans mult_le_mono1)
  show "pb_len pb \<le> 2 ^ 32"
  proof (cases "v = var")
    case True
    then have "pb_rows pb = concat (map (\<lambda>row. map (\<lambda>x. (word_of_nat row, x, True)) vals) [0..<fr_len f])"
      using unary.propose_rows [OF assms(1) pb_wf_new(1), of f] f(3) by simp
    then have "pb_len pb = fr_len f * length vals" unfolding length_pb_rows [symmetric] by (simp add: length_concat comp_def sum_list_triv)
    then show ?thesis using len by simp
  next
    case False
    then show ?thesis using unary.propose_foreign [OF assms(1)] f(3) by (auto simp: pb_new_def pb_len_def)
  qed
next
  fix bd assume "bd_wf bd" "vs_elems (bd_bound bd) = vs_elems (c_variables c)"
  then show "map_option Some (variable_extract var bd) = Some (bd_map bd var)"
    using unary.variables [OF assms(1)] unary.var [OF assms(1)] by (intro variable_extract_eq) auto
qed

text \<open>The query \<open>find!((id), ids.has(id))\<close> over a hash set of identifiers, at the default width.\<close>

interpretation id_search: search_run "set_constraint id_into_value id_from_value (var_index q) (take 262144 (remdups ids))"
  "unary_good (var_index q) (\<lambda>x. x \<in> id_into_value ` set (take 262144 (remdups ids)))" "length (take 262144 (remdups ids))"
  default_frontier_width "\<lambda>bd. map_option Some (variable_extract (var_index q) bd)" "\<lambda>\<sigma>. \<sigma> (var_index q)" for q ids
proof (rule unary_search_run [OF set_unary])
  show "inline_codec id_into_value id_from_value" by (rule raw_id_codec.inline_codec_axioms)
qed (simp_all add: usize_max_def default_frontier_width_def)

section \<open>Properties\<close>

lemma query_turn_error:
  assumes "query_turn c pred post q = Some (Return (Inl e), q')"
  shows "q' = q \<and> q_mode q = Emit \<and> (\<exists>d f bd. idx (q_depths q) (q_depth q) = Some d \<and> query_frontier q = Some f
    \<and> dp_emit d < fr_len f \<and> fr_row f (dp_emit d) = Some bd \<and> pred bd = Some (Inl e))"
  using assms by (auto simp: query_turn_def emit_turn_def Let_def split: search.splits Option.bind_splits sum.splits if_splits)

text \<open>
  C2. A query returns every solution exactly once. For a constraint that keeps the contract of the trait
  and can propose each of its variables, any frontier width below \<open>2 ^ 32\<close>, regions that \<open>u32\<close> can
  index and a projection that does not panic on full rows: constructing the query succeeds, iterating
  it panics nowhere and ends, and the rows it returns are the projections of a list that holds every
  total assignment the constraint admits, once. Any larger numbers of calls and of turns per call give
  the same rows.
\<close>

theorem query_returns_solutions:
  assumes "proposing c good m" "0 < W" "W < 2 ^ 32"
    and "\<And>f v pb. fr_wf f \<Longrightarrow> fr_len f \<le> W \<Longrightarrow> v < 128 \<Longrightarrow> v \<notin> vs_elems (fr_bound f) \<Longrightarrow>
      c_propose c v f pb_new = Some pb \<Longrightarrow> pb_len pb \<le> 2 ^ 32"
    and "\<And>bd. bd_wf bd \<Longrightarrow> vs_elems (bd_bound bd) = vs_elems (c_variables c) \<Longrightarrow> post bd = Some (proj (bd_map bd))"
  shows "\<exists>q0 q sols N. query_new c = Some q0 \<and> with_frontier_width q0 W = Some q
    \<and> distinct sols \<and> set sols = {\<tau>. dom \<tau> = vs_elems (c_variables c) \<and> good \<tau>}
    \<and> (\<forall>n \<ge> N. \<forall>k > length (List.map_filter proj sols).
        query_collect k n c post q = Some (Some (List.map_filter proj sols)))"
proof -
  have run: "search_run c good m W post proj" using assms by (intro search_run.intro search_run_axioms.intro)
  obtain q0 q sols N where "query_new c = Some q0" "with_frontier_width q0 W = Some q"
    "distinct sols" "set sols = {\<tau>. solution c good \<tau>}"
    "\<And>n k. n \<ge> N \<Longrightarrow> k > length (List.map_filter proj sols) \<Longrightarrow>
      query_collect k n c post q = Some (Some (List.map_filter proj sols))"
    using search_run.run_solutions [OF run] by metis
  then show ?thesis unfolding solution_def by (intro exI [of _ q0] exI [of _ q] exI [of _ sols] exI [of _ N]) auto
qed

theorem query_returns_solutions_witness:
  "\<exists>q0 q sols N. query_new (constant_constraint 3 (inline_pad [7])) = Some q0 \<and> with_frontier_width q0 5 = Some q
    \<and> distinct sols
    \<and> set sols = {\<tau>. dom \<tau> = vs_elems (c_variables (constant_constraint 3 (inline_pad [7]))) \<and> unary_good 3 (\<lambda>x. x = inline_pad [7]) \<tau>}
    \<and> (\<forall>n \<ge> N. \<forall>k > length (List.map_filter (\<lambda>\<sigma>. \<sigma> 3) sols).
        query_collect k n (constant_constraint 3 (inline_pad [7])) (\<lambda>bd. map_option Some (variable_extract 3 bd)) q =
          Some (Some (List.map_filter (\<lambda>\<sigma>. \<sigma> 3) sols)))"
proof -
  have run: "search_run (constant_constraint 3 (inline_pad [7])) (unary_good 3 (\<lambda>x. x = inline_pad [7])) 1 5
      (\<lambda>bd. map_option Some (variable_extract 3 bd)) (\<lambda>\<sigma>. \<sigma> 3)"
    by (rule unary_search_run [OF constant_unary]) (simp_all add: usize_max_def)
  show ?thesis
    by (rule query_returns_solutions [where m = 1])
      (use search_run.region [OF run] search_run.project [OF run] search_run.axioms(1) [OF run] in \<open>simp_all\<close>)
qed

text \<open>
  C3. Every turn of the search keeps the invariant of the state (frames, plans, regions, cursors and the
  bound set agree), panics nowhere, and strictly decreases a well-founded measure; and the work is
  conserved: a solution that extends one of the pending partial assignments before the turn extends
  one of them after it, or is the row emitted, and is counted as often.
\<close>

theorem search_turn_progress:
  assumes "search_run c good m W post proj" "search_inv W (vs_elems (c_variables c)) good q" "q_mode q \<noteq> Done"
  shows "\<exists>out q'. query_turn c accept_all post q =
      Some (case List.map_filter proj out of [] \<Rightarrow> Continue | r # _ \<Rightarrow> Return (Inr (Some r)), q')
    \<and> search_inv W (vs_elems (c_variables c)) good q'
    \<and> search_measure (card (vs_elems (c_variables c))) q' < search_measure (card (vs_elems (c_variables c))) q
    \<and> (\<forall>\<tau>. solution c good \<tau> \<longrightarrow> extended \<tau> out + extended \<tau> (pending q') = extended \<tau> (pending q))"
  using search_run.turn_step [OF assms] by (auto simp: step_ok_def)

theorem search_turn_progress_witness:
  "\<exists>q q'. Option.bind (query_new (constant_constraint 3 (inline_pad [7]))) (\<lambda>q0. with_frontier_width q0 5) = Some q
    \<and> (\<exists>out. query_turn (constant_constraint 3 (inline_pad [7])) accept_all (\<lambda>bd. map_option Some (variable_extract 3 bd)) q =
        Some (case List.map_filter (\<lambda>\<sigma> :: assignment. \<sigma> 3) out of [] \<Rightarrow> Continue | r # _ \<Rightarrow> Return (Inr (Some r)), q'))
    \<and> search_measure 1 q' < search_measure 1 q"
proof -
  let ?c = "constant_constraint 3 (inline_pad [7])" and ?good = "unary_good 3 (\<lambda>x. x = inline_pad [7])"
  have run: "search_run ?c ?good 1 5 (\<lambda>bd. map_option Some (variable_extract 3 bd)) (\<lambda>\<sigma>. \<sigma> 3)"
    by (rule unary_search_run [OF constant_unary]) (simp_all add: usize_max_def)
  obtain q0 q where q: "query_new ?c = Some q0" "with_frontier_width q0 5 = Some q"
    "search_inv 5 (vs_elems (c_variables ?c)) ?good q"
    using search_run.fresh_query [OF run] by metis
  have sat: "c_satisfied ?c (bs_view bs_new) = Some True" by (simp add: constant_constraint_def bd_get_def bs_view_def bs_new_def)
  have "q_mode q \<noteq> Done"
  proof (rule query_new_eq [OF search_run.axioms(1) [OF run], of 5])
    fix q1 b q' assume "query_new ?c = Some q1" "with_frontier_width q1 5 = Some q'" "q_mode q' = (if b then Plan else Done)"
      "c_satisfied ?c (bs_view bs_new) = Some b"
    then show ?thesis using q(1,2) sat by simp
  qed simp
  moreover have "card (vs_elems (c_variables ?c)) = 1" by (simp add: constant_constraint_def)
  ultimately show ?thesis using search_turn_progress [OF run q(3)] q(1,2) by fastforce
qed

text \<open>
  C39. A failing predicate loses nothing: when the predicate of \<open>try_next_where\<close> reports an error the query
  is in the state it was in before the row was tried, so that calling again with a predicate that
  succeeds tries the same row.
\<close>

theorem predicate_error_keeps_row:
  assumes "try_next_where n c pred post q = Some (Some (Inl e), q')"
  shows "q_mode q' = Emit \<and> (\<exists>bd f d. idx (q_depths q') (q_depth q') = Some d \<and> query_frontier q' = Some f
    \<and> dp_emit d < fr_len f \<and> fr_row f (dp_emit d) = Some bd \<and> pred bd = Some (Inl e)
    \<and> (\<forall>row. post bd = Some (Some row) \<longrightarrow>
        (\<exists>q''. try_next_where 1 c (\<lambda>_. Some (Inr True)) post q' = Some (Some (Inr (Some row)), q''))))"
  using assms
proof (induction n arbitrary: q)
  case (Suc n)
  obtain t q1 where t: "query_turn c pred post q = Some (t, q1)" using Suc.prems by (auto split: Option.bind_splits)
  show ?case
  proof (cases t)
    case Continue
    then show ?thesis using Suc t by simp
  next
    case (Return r)
    then have err: "query_turn c pred post q = Some (Return (Inl e), q')" using Suc.prems t by simp
    obtain d f bd where e: "q_mode q' = Emit" "idx (q_depths q') (q_depth q') = Some d" "query_frontier q' = Some f"
      "dp_emit d < fr_len f" "fr_row f (dp_emit d) = Some bd" "pred bd = Some (Inl e)"
      using query_turn_error [OF err] by metis
    then have "try_next_where 1 c (\<lambda>_. Some (Inr True)) post q' =
        Some (Some (Inr (Some row)), q'\<lparr>q_depths := (q_depths q')[q_depth q' := d\<lparr>dp_emit := dp_emit d + 1\<rparr>]\<rparr>)"
      if "post bd = Some (Some row)" for row
      using that by (simp add: query_turn_def emit_turn_def One_nat_def)
    then show ?thesis using e by (intro conjI exI [of _ bd] exI [of _ f] exI [of _ d]) auto
  qed
qed simp

theorem predicate_error_keeps_row_witness:
  "\<exists>q' bd f d. idx (q_depths q') (q_depth q') = Some d \<and> query_frontier q' = Some f
    \<and> dp_emit d < fr_len f \<and> fr_row f (dp_emit d) = Some bd \<and> (\<lambda>_. Some (Inl ())) bd = Some (Inl ())"
proof -
  let ?c = "intersection_constraint []" and ?pred = "\<lambda>_ :: binding. Some (Inl () :: unit + bool)"
  define q where "q = the (query_new ?c)"
  define q' where "q' = q\<lparr>q_mode := Emit\<rparr>"
  have unset: "\<not> vs_is_set vs_new_empty v" for v by (simp add: vs_is_set_def vs_new_empty_def)
  have q: "q = \<lparr>q_mode = Plan, q_bindings = bs_new, q_influences = map (\<lambda>_. vs_new_empty) [0..<128], q_unbound = vs_new_empty, q_slots = 0,
      q_width = default_frontier_width, q_stack = [], q_depths = [dp_default\<lparr>dp_rows := 1\<rparr>], q_depth = 0, q_stats = stats_default,
      q_unique = True\<rparr>"
    by (simp add: q_def query_new_def intersection_constraint_def ic_variables_def vs_find_last_set_eq Let_def ic_satisfied_def
      dp_default_def unset)
  have "try_next_where 2 ?c ?pred (\<lambda>_. Some (Some ())) q = Some (Some (Inl ()), q')"
    by (simp add: numeral_2_eq_2 query_turn_def emit_turn_def query_plan_def q q'_def query_frontier_def dp_selection_def plan_selection_def
      rs_identity_eq bs_batch_def fr_row_def fr_row_indexes_def rs_get_expect_def dp_default_def fr_len_def u32_try_from_def)
  from predicate_error_keeps_row [OF this] show ?thesis by blast
qed

end
