(* ===== verification/Byte_Table.thy ===== *)
theory Byte_Table
  imports Prelude "HOL-Library.Multiset"
begin

text \<open>
  \<open>patch/bytetable.rs\<close>: the cuckoo hash table over single-byte keys that holds the children of a PATCH
  branch, and the 256-bit \<open>ByteSet\<close> its search marks keys in. A table is a list of slots, two per
  bucket; the length is a power of two from 2 to 256. The table of random bytes that \<open>init\<close> fills is
  the parameter \<open>rh\<close>, a permutation chosen by the library \<open>rand\<close>; nothing below depends on which one.
  \<open>key\<close> is the method of the trait \<open>ByteEntry\<close>.

  The theory shows that a table is a finite map from bytes: lookup finds what is stored, the
  displacements of an insertion move entries only between their two buckets and lose none, doubling
  the table moves every entry to a bucket its lookup will find, and a table of 256 slots never
  refuses an insertion.
\<close>

section \<open>Byte sets\<close>

text \<open>Two \<open>u128\<close> words.\<close>

type_synonym byte_set = "u128 list"

definition bset_new_empty :: byte_set where
  "bset_new_empty = [0, 0]"

definition bset_insert :: "byte_set \<Rightarrow> u8 \<Rightarrow> byte_set" where
  "bset_insert s i = (let bit = unat (i AND 0x7F); w = unat (shr i 7) in s[w := (s ! w) OR shl 1 bit])"

definition bset_remove :: "byte_set \<Rightarrow> u8 \<Rightarrow> byte_set" where
  "bset_remove s i = (let bit = unat (i AND 0x7F); w = unat (shr i 7) in s[w := (s ! w) AND NOT (shl 1 bit)])"

definition bset_contains :: "byte_set \<Rightarrow> u8 \<Rightarrow> bool" where
  "bset_contains s i = (let bit = unat (i AND 0x7F) in (s ! unat (shr i 7)) AND shl 1 bit \<noteq> 0)"

definition bset_intersect :: "byte_set \<Rightarrow> byte_set \<Rightarrow> byte_set" where
  "bset_intersect s t = [(s ! 0) AND (t ! 0), (s ! 1) AND (t ! 1)]"

definition bset_symmetric_difference :: "byte_set \<Rightarrow> byte_set \<Rightarrow> byte_set" where
  "bset_symmetric_difference s t = [(s ! 0) XOR (t ! 0), (s ! 1) XOR (t ! 1)]"

definition bset_popcount :: "byte_set \<Rightarrow> nat" where
  "bset_popcount s = count_ones (s ! 0) + count_ones (s ! 1)"

definition bset_drain_next_ascending :: "byte_set \<Rightarrow> u8 option \<times> byte_set" where
  "bset_drain_next_ascending s =
     (if s ! 0 \<noteq> 0 then
        let bit = trailing_zeros (s ! 0) in (Some (word_of_nat bit), s[0 := (s ! 0) AND NOT (shl 1 bit)])
      else if s ! 1 \<noteq> 0 then
        let bit = trailing_zeros (s ! 1) in (Some (128 + word_of_nat bit), s[1 := (s ! 1) AND NOT (shl 1 bit)])
      else (None, s))"

section \<open>Hashes\<close>

definition bucket_entry_count :: nat where
  "bucket_entry_count = 2"

definition max_slot_count :: nat where
  "max_slot_count = 256"

definition max_retries :: nat where
  "max_retries = 2"

definition cheap_hash :: "u8 \<Rightarrow> u8" where
  "cheap_hash k = k"

definition rand_hash :: "(u8 \<Rightarrow> u8) \<Rightarrow> u8 \<Rightarrow> u8" where
  "rand_hash rh k = rh k"

definition compress_hash :: "nat \<Rightarrow> u8 \<Rightarrow> u8" where
  "compress_hash slot_count hash =
     (let bucket_count = word_of_nat (slot_count div bucket_entry_count); mask = bucket_count - 1 in hash AND mask)"

section \<open>The table\<close>

type_synonym 'e byte_table = "'e option list"

text \<open>The loop that looks for an entry in one bucket, and the one that looks for a hole.\<close>

definition bucket_find :: "('e \<Rightarrow> u8) \<Rightarrow> 'e byte_table \<Rightarrow> nat \<Rightarrow> u8 \<Rightarrow> nat option option" where
  "bucket_find key table start k =
     foldr (\<lambda>slot rest. do {
        entry \<leftarrow> idx table (start + slot);
        case entry of Some e \<Rightarrow> if key e = k then Some (Some (start + slot)) else rest | None \<Rightarrow> rest
      }) [0..<bucket_entry_count] (Some None)"

definition bucket_hole :: "'e byte_table \<Rightarrow> nat \<Rightarrow> nat option option" where
  "bucket_hole table start =
     foldr (\<lambda>slot rest. do {
        entry \<leftarrow> idx table (start + slot);
        if entry = None then Some (Some (start + slot)) else rest
      }) [0..<bucket_entry_count] (Some None)"

text \<open>\<open>table_get_slot\<close> returns the index of the slot, through which the caller reads and writes.\<close>

definition table_get_slot :: "(u8 \<Rightarrow> u8) \<Rightarrow> ('e \<Rightarrow> u8) \<Rightarrow> 'e byte_table \<Rightarrow> u8 \<Rightarrow> nat option option" where
  "table_get_slot rh key table k = do {
     let cheap_start = unat (compress_hash (length table) (cheap_hash k)) * bucket_entry_count;
     found \<leftarrow> bucket_find key table cheap_start k;
     case found of Some i \<Rightarrow> Some (Some i)
     | None \<Rightarrow> bucket_find key table (unat (compress_hash (length table) (rand_hash rh k)) * bucket_entry_count) k
   }"

definition table_get :: "(u8 \<Rightarrow> u8) \<Rightarrow> ('e \<Rightarrow> u8) \<Rightarrow> 'e byte_table \<Rightarrow> u8 \<Rightarrow> 'e option option" where
  "table_get rh key table k = do {
     slot \<leftarrow> table_get_slot rh key table k;
     case slot of None \<Rightarrow> Some None | Some i \<Rightarrow> idx table i
   }"

text \<open>
  The search for a hole by displacement. \<open>displace\<close> is the loop over the occupied slots of a bucket;
  \<open>search\<close> is the recursive call with one displacement less to spend.
\<close>

fun displace ::
  "(u8 \<Rightarrow> u8) \<Rightarrow> ('e \<Rightarrow> u8) \<Rightarrow> ('e byte_table \<Rightarrow> nat \<Rightarrow> byte_set \<Rightarrow> (nat option \<times> 'e byte_table \<times> byte_set) option) \<Rightarrow>
   nat \<Rightarrow> nat list \<Rightarrow> 'e byte_table \<Rightarrow> byte_set \<Rightarrow> (nat option \<times> 'e byte_table \<times> byte_set) option" where
  "displace rh key search bucket [] table visited = Some (None, table, visited)"
| "displace rh key search bucket (slot # slots) table visited = do {
     let at = bucket * bucket_entry_count + slot;
     entry \<leftarrow> idx table at;
     e \<leftarrow> entry;
     let k = key e;
     if bset_contains visited k then displace rh key search bucket slots table visited
     else do {
       let visited1 = bset_insert visited k;
       let cheap = unat (compress_hash (length table) (cheap_hash k));
       let rand = unat (compress_hash (length table) (rand_hash rh k));
       let alt = (if bucket = cheap then rand else cheap);
       (hole, table1, visited2) \<leftarrow> (if alt \<noteq> bucket then search table alt visited1 else Some (None, table, visited1));
       case hole of
         Some h \<Rightarrow> do {
           moved \<leftarrow> idx table1 at;
           table2 \<leftarrow> idx_update (table1[at := None]) h moved;
           Some (Some at, table2, bset_remove visited2 k)
         }
       | None \<Rightarrow> displace rh key search bucket slots table1 (bset_remove visited2 k)
     }
   }"

primrec plan_insert ::
  "nat \<Rightarrow> (u8 \<Rightarrow> u8) \<Rightarrow> ('e \<Rightarrow> u8) \<Rightarrow> 'e byte_table \<Rightarrow> nat \<Rightarrow> byte_set \<Rightarrow> (nat option \<times> 'e byte_table \<times> byte_set) option" where
  "plan_insert 0 rh key table bucket visited = do {
     hole \<leftarrow> bucket_hole table (bucket * bucket_entry_count);
     Some (hole, table, visited)
   }"
| "plan_insert (Suc depth) rh key table bucket visited = do {
     hole \<leftarrow> bucket_hole table (bucket * bucket_entry_count);
     case hole of Some h \<Rightarrow> Some (Some h, table, visited)
     | None \<Rightarrow> displace rh key (plan_insert depth rh key) bucket [0..<bucket_entry_count] table visited
   }"

text \<open>\<open>table_insert\<close>: the entry comes back when no hole was found.\<close>

definition table_insert ::
  "(u8 \<Rightarrow> u8) \<Rightarrow> ('e \<Rightarrow> u8) \<Rightarrow> 'e byte_table \<Rightarrow> 'e \<Rightarrow> ('e option \<times> 'e byte_table) option" where
  "table_insert rh key table e = do {
     let k = key e;
     let visited = bset_insert bset_new_empty k;
     let limit = (if length table = max_slot_count then max_slot_count else max_retries);
     (slot, table1, visited1) \<leftarrow> plan_insert limit rh key table (unat (compress_hash (length table) (cheap_hash k))) visited;
     case slot of
       Some i \<Rightarrow> do { table2 \<leftarrow> idx_update table1 i (Some e); Some (None, table2) }
     | None \<Rightarrow> do {
         (slot2, table3, _) \<leftarrow> plan_insert limit rh key table1 (unat (compress_hash (length table) (rand_hash rh k))) visited1;
         case slot2 of
           Some i \<Rightarrow> do { table4 \<leftarrow> idx_update table3 i (Some e); Some (None, table4) }
         | None \<Rightarrow> Some (Some e, table3)
       }
   }"

text \<open>
  \<open>table_grow\<close>: the slots of bucket \<open>i\<close> go to bucket \<open>i\<close> of the lower half, when a hash still points
  there, or of the upper half. An entry for which the destination has no hole would be dropped.
\<close>

definition put_first_hole :: "'e byte_table \<Rightarrow> nat \<Rightarrow> 'e \<Rightarrow> 'e byte_table option" where
  "put_first_hole table start e = do {
     hole \<leftarrow> bucket_hole table start;
     case hole of Some h \<Rightarrow> Some (table[h := Some e]) | None \<Rightarrow> Some table
   }"

definition grow_slot ::
  "(u8 \<Rightarrow> u8) \<Rightarrow> ('e \<Rightarrow> u8) \<Rightarrow> nat \<Rightarrow> 'e byte_table \<Rightarrow> 'e byte_table \<Rightarrow> nat \<times> nat \<Rightarrow> 'e byte_table option" where
  "grow_slot rh key grown_len table grown = (\<lambda>(bucket, slot). do {
     let start = bucket * bucket_entry_count;
     entry \<leftarrow> idx table (start + slot);
     case entry of None \<Rightarrow> Some grown
     | Some e \<Rightarrow> do {
         let cheap_index = compress_hash grown_len (cheap_hash (key e));
         let rand_index = compress_hash grown_len (rand_hash rh (key e));
         if word_of_nat bucket = cheap_index \<or> word_of_nat bucket = rand_index
         then put_first_hole grown start e
         else put_first_hole grown (length table + start) e
       }
   })"

definition table_grow :: "(u8 \<Rightarrow> u8) \<Rightarrow> ('e \<Rightarrow> u8) \<Rightarrow> 'e byte_table \<Rightarrow> 'e byte_table \<Rightarrow> 'e byte_table option" where
  "table_grow rh key table grown =
     for_each (grow_slot rh key (length grown) table) grown
       (List.product [0..<length table div bucket_entry_count] [0..<bucket_entry_count])"

section \<open>Byte sets as sets\<close>

lemma unat_and_mask7 [simp]: "unat ((i :: u8) AND 0x7F) = unat i mod 128"
proof -
  have "i AND 0x7F = take_bit 7 i" by (simp add: take_bit_eq_mask mask_eq_exp_minus_1)
  then show ?thesis by (simp add: take_bit_eq_mod unat_mod_distrib)
qed

lemma unat_drop7 [simp]: "unat (drop_bit 7 (i :: u8)) = unat i div 128"
  by (simp add: drop_bit_eq_div unat_div_distrib)

lemma byte_split: "unat (i :: u8) div 128 < 2" "unat i mod 128 < 128" "unat i = unat i div 128 * 128 + unat i mod 128"
proof -
  have "unat i < 2 ^ LENGTH(8)" by (rule unsigned_less)
  then show "unat i div 128 < 2" by simp
qed simp_all

lemma byte_eq: "(i :: u8) = j \<longleftrightarrow> unat i div 128 = unat j div 128 \<and> unat i mod 128 = unat j mod 128"
  by (metis byte_split(3) word_unat_eq_iff)

lemma and_bit_iff: "n < 128 \<Longrightarrow> w AND push_bit n 1 = 0 \<longleftrightarrow> \<not> bit w n" for w :: u128
  unfolding word_eq_all by (auto simp: bit_simps simp del: push_bit_of_1)

lemma bset_contains_bit: "bset_contains s i \<longleftrightarrow> bit (s ! (unat i div 128)) (unat i mod 128)"
  by (simp add: bset_contains_def Let_def and_bit_iff del: push_bit_of_1)

lemma bit_set_at: "n < 128 \<Longrightarrow> m < 128 \<Longrightarrow> bit (w OR push_bit n 1) m \<longleftrightarrow> m = n \<or> bit w m" for w :: u128
  by (auto simp: bit_simps simp del: push_bit_of_1)

lemma bit_clear_at: "n < 128 \<Longrightarrow> m < 128 \<Longrightarrow> bit (w AND NOT (push_bit n 1)) m \<longleftrightarrow> m \<noteq> n \<and> bit w m" for w :: u128
  by (auto simp: bit_simps simp del: push_bit_of_1)

lemma bset_insert_contains [simp]:
  "length s = 2 \<Longrightarrow> bset_contains (bset_insert s i) j \<longleftrightarrow> j = i \<or> bset_contains s j"
  using byte_split(1) [of i]
  by (cases "unat j div 128 = unat i div 128")
    (simp_all add: bset_contains_bit bset_insert_def Let_def byte_eq bit_set_at del: push_bit_of_1)

lemma bset_remove_contains [simp]:
  "length s = 2 \<Longrightarrow> bset_contains (bset_remove s i) j \<longleftrightarrow> j \<noteq> i \<and> bset_contains s j"
  using byte_split(1) [of i]
  by (cases "unat j div 128 = unat i div 128")
    (simp_all add: bset_contains_bit bset_remove_def Let_def byte_eq bit_clear_at del: push_bit_of_1)

lemma bset_length [simp]:
  "length (bset_insert s i) = length s" "length (bset_remove s i) = length s" "length bset_new_empty = 2"
  by (simp_all add: bset_insert_def bset_remove_def bset_new_empty_def Let_def)

lemma bset_new_empty_contains [simp]: "\<not> bset_contains bset_new_empty i"
  using byte_split(1) [of i] by (auto simp: bset_contains_bit bset_new_empty_def less_2_cases_iff)

lemma bset_remove_insert: "length s = 2 \<Longrightarrow> \<not> bset_contains s i \<Longrightarrow> bset_remove (bset_insert s i) i = s"
proof -
  assume s: "length s = 2" "\<not> bset_contains s i"
  let ?w = "unat i div 128" and ?b = "unat i mod 128"
  have w: "?w < length s" "?b < 128" using byte_split [of i] s(1) by auto
  have "(s ! ?w OR push_bit ?b 1) AND NOT (push_bit ?b 1) = s ! ?w"
  proof (rule bit_word_eqI)
    fix n assume "n < LENGTH(128)"
    then show "bit ((s ! ?w OR push_bit ?b 1) AND NOT (push_bit ?b 1)) n \<longleftrightarrow> bit (s ! ?w) n"
      using s(2) w(2) by (auto simp: bit_clear_at bit_set_at bset_contains_bit simp del: push_bit_of_1)
  qed
  then show ?thesis using w by (simp add: bset_insert_def bset_remove_def Let_def del: push_bit_of_1)
qed

definition bset_elems :: "byte_set \<Rightarrow> u8 set" where
  "bset_elems s = {i. bset_contains s i}"

section \<open>Buckets\<close>

abbreviation cheap_bucket :: "nat \<Rightarrow> u8 \<Rightarrow> nat" where
  "cheap_bucket n k \<equiv> unat (compress_hash n (cheap_hash k))"

abbreviation rand_bucket :: "(u8 \<Rightarrow> u8) \<Rightarrow> nat \<Rightarrow> u8 \<Rightarrow> nat" where
  "rand_bucket rh n k \<equiv> unat (compress_hash n (rand_hash rh k))"

definition homes :: "(u8 \<Rightarrow> u8) \<Rightarrow> nat \<Rightarrow> u8 \<Rightarrow> nat set" where
  "homes rh n k = {cheap_bucket n k, rand_bucket rh n k}"

lemma unat_exp_small: "m < 8 \<Longrightarrow> unat (2 ^ m :: u8) = 2 ^ m"
proof -
  assume "m < 8"
  then have "m \<in> {0, 1, 2, 3, 4, 5, 6, 7}" by auto
  then show ?thesis by auto
qed

lemma unat_compress:
  assumes "n = 2 ^ Suc m" "m < 8"
  shows "unat (compress_hash n h) = unat h mod 2 ^ m"
proof -
  have "word_of_nat (n div 2) - 1 = (mask m :: u8)" using assms by (simp add: mask_eq_exp_minus_1)
  then have "compress_hash n h = take_bit m h" by (simp add: compress_hash_def bucket_entry_count_def Let_def take_bit_eq_mask)
  then show ?thesis using assms(2) by (simp add: take_bit_eq_mod unat_mod_distrib unat_exp_small)
qed

text \<open>Table sizes.\<close>

definition table_size :: "nat \<Rightarrow> bool" where
  "table_size n \<longleftrightarrow> (\<exists>m < 8. n = 2 ^ Suc m)"

lemma table_sizeE:
  assumes "table_size n"
  obtains m where "m < 8" "n = 2 ^ Suc m" "\<And>h. unat (compress_hash n h) = unat h mod 2 ^ m" "n div 2 = 2 ^ m"
proof -
  obtain m where m: "m < 8" "n = 2 ^ Suc m" using assms by (auto simp: table_size_def)
  with unat_compress [OF m(2,1)] show thesis by (intro that [of m]) auto
qed

lemma table_size_le: "table_size n \<Longrightarrow> 2 \<le> n \<and> n \<le> 256"
proof -
  assume "table_size n"
  then obtain m where m: "m < 8" "n = 2 ^ Suc m" by (auto simp: table_size_def)
  then show ?thesis using power_increasing [of "Suc m" 8 "2 :: nat"] by simp
qed

lemma compress_less: "table_size n \<Longrightarrow> unat (compress_hash n h) * 2 + slot < n" if "slot < 2" for slot
proof -
  assume "table_size n"
  then obtain m where m: "n = 2 ^ Suc m" "unat (compress_hash n h) = unat h mod 2 ^ m" by (metis table_sizeE)
  then have "unat (compress_hash n h) < 2 ^ m" by simp
  then show ?thesis using m(1) that by simp
qed

section \<open>The invariant\<close>

definition table_ok :: "(u8 \<Rightarrow> u8) \<Rightarrow> ('e \<Rightarrow> u8) \<Rightarrow> 'e byte_table \<Rightarrow> bool" where
  "table_ok rh key t \<longleftrightarrow> table_size (length t)
     \<and> (\<forall>i < length t. \<forall>e. t ! i = Some e \<longrightarrow> i div 2 \<in> homes rh (length t) (key e))
     \<and> (\<forall>i < length t. \<forall>j < length t. \<forall>e f. t ! i = Some e \<longrightarrow> t ! j = Some f \<longrightarrow> key e = key f \<longrightarrow> i = j)"

definition table_entries :: "'e byte_table \<Rightarrow> 'e list" where
  "table_entries t = List.map_filter id t"

definition table_map :: "('e \<Rightarrow> u8) \<Rightarrow> 'e byte_table \<Rightarrow> u8 \<rightharpoonup> 'e" where
  "table_map key t = map_of (map (\<lambda>e. (key e, e)) (table_entries t))"

lemma set_table_entries: "e \<in> set (table_entries t) \<longleftrightarrow> (\<exists>i < length t. t ! i = Some e)"
  by (force simp: table_entries_def List.map_filter_def in_set_conv_nth)

lemma table_map_None: "table_map key t k = None \<longleftrightarrow> (\<forall>i < length t. \<forall>e. t ! i = Some e \<longrightarrow> key e \<noteq> k)"
  unfolding table_map_def map_of_eq_None_iff by (simp add: image_iff) (metis set_table_entries)

lemma table_map_Some:
  assumes "table_ok rh key t"
  shows "table_map key t k = Some e \<longleftrightarrow> (\<exists>i < length t. t ! i = Some e \<and> key e = k)"
proof
  assume "table_map key t k = Some e"
  then have "(k, e) \<in> set (map (\<lambda>e. (key e, e)) (table_entries t))" unfolding table_map_def by (rule map_of_SomeD)
  then show "\<exists>i < length t. t ! i = Some e \<and> key e = k" by (auto simp: set_table_entries)
next
  assume e: "\<exists>i < length t. t ! i = Some e \<and> key e = k"
  then obtain f where f: "table_map key t k = Some f" using table_map_None by (metis not_None_eq)
  then have "(k, f) \<in> set (map (\<lambda>e. (key e, e)) (table_entries t))" unfolding table_map_def by (rule map_of_SomeD)
  then obtain j where "j < length t" "t ! j = Some f" "key f = k" by (auto simp: set_table_entries)
  then show "table_map key t k = Some e" using e f assms by (metis option.inject table_ok_def)
qed

definition slot_has :: "('e \<Rightarrow> u8) \<Rightarrow> 'e byte_table \<Rightarrow> u8 \<Rightarrow> nat \<Rightarrow> bool" where
  "slot_has key t k i \<longleftrightarrow> (\<exists>e. t ! i = Some e \<and> key e = k)"

lemma bucket_loops:
  assumes "start + 1 < length t"
  shows "bucket_find key t start k = Some (if slot_has key t k start then Some start
      else if slot_has key t k (start + 1) then Some (start + 1) else None)"
    "bucket_hole t start = Some (if t ! start = None then Some start else if t ! (start + 1) = None then Some (start + 1) else None)"
  using assms by (auto simp: bucket_find_def bucket_hole_def bucket_entry_count_def slot_has_def upt_rec split: option.splits)

text \<open>Every slot is one of the two of its bucket.\<close>

lemma bucket_slots: "i div 2 = b \<longleftrightarrow> i = b * 2 \<or> i = b * 2 + 1" for i :: nat
  by presburger

lemma table_get_slot_eq:
  assumes ok: "table_ok rh key t"
  shows "\<exists>r. table_get_slot rh key t k = Some r \<and> (case r of None \<Rightarrow> table_map key t k = None
    | Some i \<Rightarrow> i < length t \<and> (\<exists>e. t ! i = Some e \<and> key e = k \<and> table_map key t k = Some e))"
proof -
  let ?c = "cheap_bucket (length t) k * 2" and ?r = "rand_bucket rh (length t) k * 2"
  let ?at = "slot_has key t k"
  have size: "table_size (length t)" using ok by (simp add: table_ok_def)
  have len: "?c + 1 < length t" "?r + 1 < length t" using compress_less [OF _ size, of 1] by auto
  have hit: "i < length t \<and> (\<exists>e. t ! i = Some e \<and> key e = k \<and> table_map key t k = Some e)" if "i < length t" "?at i" for i
    using that table_map_Some [OF ok] by (auto simp: slot_has_def)
  have miss: "table_map key t k = None" if none: "\<not> ?at ?c" "\<not> ?at (?c + 1)" "\<not> ?at ?r" "\<not> ?at (?r + 1)"
  proof (unfold table_map_None, intro allI impI notI)
    fix i e assume i: "i < length t" "t ! i = Some e" "key e = k"
    then have "i div 2 = cheap_bucket (length t) k \<or> i div 2 = rand_bucket rh (length t) k"
      using ok by (auto simp: table_ok_def homes_def)
    then have "i = ?c \<or> i = ?c + 1 \<or> i = ?r \<or> i = ?r + 1" by (auto simp: bucket_slots)
    then show False using none i by (auto simp: slot_has_def)
  qed
  define r where "r = (if ?at ?c then Some ?c else if ?at (?c + 1) then Some (?c + 1)
    else if ?at ?r then Some ?r else if ?at (?r + 1) then Some (?r + 1) else None)"
  have "table_get_slot rh key t k = Some r"
    using bucket_loops(1) [OF len(1), of key k] bucket_loops(1) [OF len(2), of key k]
    by (simp add: table_get_slot_def bucket_entry_count_def r_def Let_def)
  moreover have "case r of None \<Rightarrow> table_map key t k = None
      | Some i \<Rightarrow> i < length t \<and> (\<exists>e. t ! i = Some e \<and> key e = k \<and> table_map key t k = Some e)"
    unfolding r_def using hit len miss by (simp split: if_splits)
  ultimately show ?thesis by blast
qed

lemma table_get_eq: "table_ok rh key t \<Longrightarrow> table_get rh key t k = Some (table_map key t k)"
  using table_get_slot_eq [of rh key t k] by (auto simp: table_get_def split: option.splits)

text \<open>Replacing the entry of a slot by another under the same key, and clearing a slot.\<close>

lemma table_slot_write:
  assumes ok: "table_ok rh key t" and i: "i < length t" "t ! i = Some e" and new: "\<And>e'. w = Some e' \<Longrightarrow> key e' = key e"
  shows "table_ok rh key (t[i := w])" "table_map key (t[i := w]) = (table_map key t)(key e := w)"
proof -
  let ?t = "t[i := w]"
  have at: "?t ! j = Some f \<longleftrightarrow> (if j = i then w = Some f else t ! j = Some f)" if "j < length t" for j f
    using that i(1) by (simp add: nth_list_update)
  have other: "key f \<noteq> key e" if "j < length t" "j \<noteq> i" "t ! j = Some f" for j f
    using that ok i unfolding table_ok_def by metis
  show ok': "table_ok rh key ?t"
    unfolding table_ok_def length_list_update
  proof (intro conjI allI impI)
    show "table_size (length t)" using ok by (simp add: table_ok_def)
    fix j f assume j: "j < length t" "?t ! j = Some f"
    then show "j div 2 \<in> homes rh (length t) (key f)"
      using ok i new unfolding table_ok_def at [OF j(1)] by (metis (full_types))
    fix j' g assume j': "j' < length t" "?t ! j' = Some g" "key f = key g"
    then show "j = j'" using j ok other new at [OF j(1)] at [OF j'(1)] unfolding table_ok_def by (metis (full_types))
  qed
  show "table_map key ?t = (table_map key t)(key e := w)"
  proof
    fix k
    have "table_map key ?t k = Some f \<longleftrightarrow> ((table_map key t)(key e := w)) k = Some f" for f
      using table_map_Some [OF ok'] table_map_Some [OF ok] at other new i by (auto simp: fun_upd_def) (metis+)
    then show "table_map key ?t k = ((table_map key t)(key e := w)) k" by (metis not_None_eq)
  qed
qed

section \<open>Displacement\<close>

text \<open>
  What a search for a hole leaves: nothing changed when it fails; when it succeeds, a hole in the
  bucket, the same entries each in one of its buckets, and the entries marked \<open>visited\<close> where they were.
\<close>

definition relocated :: "(u8 \<Rightarrow> u8) \<Rightarrow> ('e \<Rightarrow> u8) \<Rightarrow> byte_set \<Rightarrow> 'e byte_table \<Rightarrow> nat \<Rightarrow> nat option \<Rightarrow> 'e byte_table \<Rightarrow> bool" where
  "relocated rh key visited t b r t' \<longleftrightarrow> (case r of None \<Rightarrow> t' = t
     | Some h \<Rightarrow> h < length t \<and> h div 2 = b \<and> t' ! h = None \<and> length t' = length t \<and> table_ok rh key t'
         \<and> table_map key t' = table_map key t
         \<and> (\<forall>i < length t. \<forall>e. t ! i = Some e \<longrightarrow> bset_contains visited (key e) \<longrightarrow> t' ! i = Some e))"

text \<open>Moving an entry to a hole of its other bucket.\<close>

lemma table_move:
  assumes ok: "table_ok rh key t" and i: "i < length t" "t ! i = Some e" and h: "h < length t" "t ! h = None"
    "h div 2 \<in> homes rh (length t) (key e)"
  defines "t' \<equiv> t[i := None, h := Some e]"
  shows "table_ok rh key t'" "table_map key t' = table_map key t"
proof -
  have ne: "i \<noteq> h" using i h by auto
  have at: "t' ! j = (if j = h then Some e else if j = i then None else t ! j)" if "j < length t" for j
    using that ne by (auto simp: t'_def nth_list_update)
  have len: "length t' = length t" by (simp add: t'_def)
  have src: "\<exists>j' < length t. t ! j' = Some f \<and> (j' = j \<or> j = h \<and> j' = i)" if "j < length t" "t' ! j = Some f" for j f
    using that i h ne at by (auto split: if_splits)
  show ok': "table_ok rh key t'"
    unfolding table_ok_def len
  proof (intro conjI allI impI)
    show "table_size (length t)" using ok by (simp add: table_ok_def)
    show "j div 2 \<in> homes rh (length t) (key f)" if "j < length t" "t' ! j = Some f" for j f
      using that at [OF that(1)] h(3) ok by (auto simp: table_ok_def split: if_splits)
    show "j = k" if jk: "j < length t" "k < length t" "t' ! j = Some f" "t' ! k = Some g" "key f = key g" for j k f g
    proof -
      obtain j' where j': "j' < length t" "t ! j' = Some f" "j' = j \<or> j = h \<and> j' = i" using src jk by blast
      obtain k' where k': "k' < length t" "t ! k' = Some g" "k' = k \<or> k = h \<and> k' = i" using src jk by blast
      have "j' = k'" using ok j' k' jk(5) by (auto simp: table_ok_def)
      then show ?thesis using j'(3) k'(3) at jk ne by (auto split: if_splits)
    qed
  qed
  have "table_map key t' k = Some f \<longleftrightarrow> table_map key t k = Some f" for k f
  proof -
    have "(\<exists>j < length t. t' ! j = Some f \<and> key f = k) \<longleftrightarrow> (\<exists>j < length t. t ! j = Some f \<and> key f = k)"
      using at i h ne src by (metis option.distinct(1))
    then show ?thesis unfolding table_map_Some [OF ok] table_map_Some [OF ok'] len .
  qed
  then show "table_map key t' = table_map key t" by (intro ext) (metis not_None_eq)
qed

text \<open>The contract of a search with a bounded number of displacements.\<close>

definition searches ::
  "(u8 \<Rightarrow> u8) \<Rightarrow> ('e \<Rightarrow> u8) \<Rightarrow> ('e byte_table \<Rightarrow> nat \<Rightarrow> byte_set \<Rightarrow> (nat option \<times> 'e byte_table \<times> byte_set) option) \<Rightarrow> bool" where
  "searches rh key search \<longleftrightarrow> (\<forall>t b visited. table_ok rh key t \<longrightarrow> b * 2 + 1 < length t \<longrightarrow> length visited = 2 \<longrightarrow>
     (\<exists>r t'. search t b visited = Some (r, t', visited) \<and> relocated rh key visited t b r t'))"

lemma displace_step:
  assumes search: "searches rh key search" and ok: "table_ok rh key t" and vis: "length visited = 2"
    and at: "b * 2 + slot < length t" "slot < 2" "t ! (b * 2 + slot) = Some e"
  obtains "displace rh key search b (slot # slots) t visited = displace rh key search b slots t visited"
    "bset_contains visited (key e) \<or>
      (let c = cheap_bucket (length t) (key e); r = rand_bucket rh (length t) (key e); alt = (if b = c then r else c) in
        alt = b \<or> (\<exists>t'. search t alt (bset_insert visited (key e)) = Some (None, t', bset_insert visited (key e))))"
  | t' where "displace rh key search b (slot # slots) t visited = Some (Some (b * 2 + slot), t', visited)"
    "relocated rh key visited t b (Some (b * 2 + slot)) t'"
proof (cases "bset_contains visited (key e)")
  case True
  then show thesis using at(1,3) by (intro that(1)) (simp_all add: bucket_entry_count_def)
next
  case False
  let ?at = "b * 2 + slot" and ?k = "key e" and ?vis = "bset_insert visited (key e)"
  define alt where "alt = (if b = cheap_bucket (length t) ?k then rand_bucket rh (length t) ?k else cheap_bucket (length t) ?k)"
  have size: "table_size (length t)" using ok by (simp add: table_ok_def)
  have rem: "bset_remove ?vis ?k = visited" using vis False by (rule bset_remove_insert)
  have altlen: "alt * 2 + 1 < length t" using compress_less [OF _ size, of 1] by (simp add: alt_def)
  have unfold: "displace rh key search b (slot # slots) t visited = do {
       (hole, table1, visited2) \<leftarrow> (if alt \<noteq> b then search t alt ?vis else Some (None, t, ?vis));
       case hole of
         Some h \<Rightarrow> do {
           moved \<leftarrow> idx table1 ?at;
           table2 \<leftarrow> idx_update (table1[?at := None]) h moved;
           Some (Some ?at, table2, bset_remove visited2 ?k)
         }
       | None \<Rightarrow> displace rh key search b slots table1 (bset_remove visited2 ?k)
     }"
    using at False by (simp add: bucket_entry_count_def alt_def Let_def)
  show thesis
  proof (cases "alt = b")
    case True
    then show thesis using unfold rem alt_def by (intro that(1)) (simp_all add: Let_def)
  next
    case ne: False
    obtain r t1 where r: "search t alt ?vis = Some (r, t1, ?vis)" "relocated rh key ?vis t alt r t1"
      using search ok altlen vis unfolding searches_def by (metis bset_length(1))
    show thesis
    proof (cases r)
      case None
      then show thesis using unfold rem alt_def ne r by (intro that(1)) (auto simp: Let_def relocated_def)
    next
      case (Some h)
      then have h: "h < length t" "h div 2 = alt" "t1 ! h = None" "length t1 = length t" "table_ok rh key t1"
        "table_map key t1 = table_map key t"
        "\<And>i f. i < length t \<Longrightarrow> t ! i = Some f \<Longrightarrow> bset_contains ?vis (key f) \<Longrightarrow> t1 ! i = Some f"
        using r(2) by (auto simp: relocated_def)
      have e: "t1 ! ?at = Some e" using h(7) [OF at(1,3)] vis by simp
      have home: "h div 2 \<in> homes rh (length t1) ?k" using h(2,4) by (auto simp: homes_def alt_def)
      let ?t' = "t1[?at := None, h := Some e]"
      have mv: "table_ok rh key ?t'" "table_map key ?t' = table_map key t1"
        using table_move [OF h(5) _ e _ h(3) home] at(1) h(1,4) by simp_all
      have "?t' ! ?at = None" using e h(3) at(1) h(1,4) by (auto simp: nth_list_update)
      moreover have "?t' ! i = Some f" if "i < length t" "t ! i = Some f" "bset_contains visited (key f)" for i f
      proof -
        have "t1 ! i = Some f" using h(7) that vis by simp
        moreover have "i \<noteq> ?at" using that(2,3) at(3) False by auto
        moreover have "i \<noteq> h" using calculation(1) h(3) by auto
        ultimately show ?thesis by simp
      qed
      ultimately have "relocated rh key visited t b (Some ?at) ?t'"
        using mv h(4,6) at by (simp add: relocated_def)
      then show thesis using unfold ne r(1) Some e rem at(1) h(1,4) by (intro that(2)) simp_all
    qed
  qed
qed

lemma displace_searches:
  assumes search: "searches rh key search" and ok: "table_ok rh key t" and vis: "length visited = 2"
    and at: "\<And>slot. slot \<in> set slots \<Longrightarrow> slot < 2 \<and> b * 2 + slot < length t \<and> t ! (b * 2 + slot) \<noteq> None"
  shows "\<exists>r t'. displace rh key search b slots t visited = Some (r, t', visited) \<and> relocated rh key visited t b r t'"
  using at
proof (induction slots)
  case Nil
  then show ?case by (simp add: relocated_def)
next
  case (Cons slot slots)
  then obtain e where e: "b * 2 + slot < length t" "slot < 2" "t ! (b * 2 + slot) = Some e" by auto
  show ?case using displace_step [OF search ok vis e, of slots] Cons by (metis list.set_intros(2))
qed

lemma plan_insert_searches: "searches rh key (plan_insert depth rh key)"
proof (induction depth)
  case 0
  show ?case unfolding searches_def
    by (auto simp: bucket_loops(2) bucket_entry_count_def relocated_def bucket_slots split: if_splits)
next
  case (Suc depth)
  show ?case unfolding searches_def
  proof (intro allI impI)
    fix t :: "'a byte_table" and b and visited :: byte_set
    assume t: "table_ok rh key t" "b * 2 + 1 < length t" "length visited = 2"
    show "\<exists>r t'. plan_insert (Suc depth) rh key t b visited = Some (r, t', visited) \<and> relocated rh key visited t b r t'"
    proof (cases "t ! (b * 2) = None \<or> t ! (b * 2 + 1) = None")
      case True
      then show ?thesis using t
        by (auto simp: bucket_loops(2) bucket_entry_count_def relocated_def bucket_slots split: if_splits)
    next
      case False
      have "plan_insert (Suc depth) rh key t b visited = displace rh key (plan_insert depth rh key) b [0..<2] t visited"
        using False t(2) by (auto simp: bucket_loops(2) bucket_entry_count_def)
      moreover have "slot < 2 \<and> b * 2 + slot < length t \<and> t ! (b * 2 + slot) \<noteq> None" if "slot \<in> set [0..<2]" for slot
        using that False t(2) by (auto simp: less_2_cases_iff)
      ultimately show ?thesis using displace_searches [OF Suc t(1,3)] by metis
    qed
  qed
qed

section \<open>Insertion\<close>

lemma table_put:
  assumes ok: "table_ok rh key t" and h: "h < length t" "t ! h = None" "h div 2 \<in> homes rh (length t) (key e)"
    and new: "table_map key t (key e) = None"
  shows "table_ok rh key (t[h := Some e])" "table_map key (t[h := Some e]) = (table_map key t)(key e \<mapsto> e)"
proof -
  have at: "t[h := Some e] ! j = (if j = h then Some e else t ! j)" if "j < length t" for j using that by simp
  have no: "key f \<noteq> key e" if "j < length t" "t ! j = Some f" for j f using new that by (simp add: table_map_None)
  show ok': "table_ok rh key (t[h := Some e])"
    unfolding table_ok_def length_list_update
  proof (intro conjI allI impI)
    show "table_size (length t)" using ok by (simp add: table_ok_def)
    show "j div 2 \<in> homes rh (length t) (key f)" if "j < length t" "t[h := Some e] ! j = Some f" for j f
      using that at [OF that(1)] h(3) ok by (auto simp: table_ok_def split: if_splits)
    show "j = k" if jk: "j < length t" "k < length t" "t[h := Some e] ! j = Some f" "t[h := Some e] ! k = Some g" "key f = key g" for j k f g
      using jk at no ok unfolding table_ok_def by (metis option.inject)
  qed
  have "table_map key (t[h := Some e]) k = Some f \<longleftrightarrow> ((table_map key t)(key e \<mapsto> e)) k = Some f" for k f
  proof -
    have "(\<exists>j < length t. t[h := Some e] ! j = Some f \<and> key f = k) \<longleftrightarrow> (if k = key e then f = e else \<exists>j < length t. t ! j = Some f \<and> key f = k)"
      using at h no by (metis option.distinct(1) option.inject)
    then show ?thesis using table_map_Some [OF ok, of k f] unfolding table_map_Some [OF ok'] length_list_update
      by (cases "k = key e") auto
  qed
  then show "table_map key (t[h := Some e]) = (table_map key t)(key e \<mapsto> e)" by (intro ext) (metis not_None_eq)
qed

lemma table_insert_eq:
  assumes ok: "table_ok rh key t" and new: "table_map key t (key e) = None"
  shows "\<exists>r t'. table_insert rh key t e = Some (r, t') \<and> length t' = length t \<and> table_ok rh key t'
    \<and> (case r of None \<Rightarrow> table_map key t' = (table_map key t)(key e \<mapsto> e) | Some e' \<Rightarrow> e' = e \<and> t' = t)"
proof -
  let ?n = "length t" and ?k = "key e" and ?vis = "bset_insert bset_new_empty (key e)"
  define limit where "limit = (if ?n = max_slot_count then max_slot_count else max_retries)"
  have size: "table_size ?n" using ok by (simp add: table_ok_def)
  have place: "\<exists>t2. idx_update t1 h (Some e) = Some t2 \<and> length t2 = ?n \<and> table_ok rh key t2
      \<and> table_map key t2 = (table_map key t)(?k \<mapsto> e)"
    if "relocated rh key ?vis t b (Some h) t1" "b \<in> homes rh ?n ?k" for h b t1
    using that table_put [of rh key t1 h e] new by (auto simp: relocated_def)
  have run: "\<exists>r t1. plan_insert limit rh key t b ?vis = Some (r, t1, ?vis) \<and> relocated rh key ?vis t b r t1"
    if "b \<in> homes rh ?n ?k" for b
    using plan_insert_searches [of rh key limit] ok compress_less [OF _ size, of 1] that unfolding searches_def homes_def by auto
  obtain r t1 where r: "plan_insert limit rh key t (cheap_bucket ?n ?k) ?vis = Some (r, t1, ?vis)"
    "relocated rh key ?vis t (cheap_bucket ?n ?k) r t1" using run [of "cheap_bucket ?n ?k"] by (auto simp: homes_def)
  obtain r2 t2 where r2: "plan_insert limit rh key t (rand_bucket rh ?n ?k) ?vis = Some (r2, t2, ?vis)"
    "relocated rh key ?vis t (rand_bucket rh ?n ?k) r2 t2" using run [of "rand_bucket rh ?n ?k"] by (auto simp: homes_def)
  show ?thesis
  proof (cases r)
    case (Some h)
    then obtain t3 where "idx_update t1 h (Some e) = Some t3" "length t3 = ?n" "table_ok rh key t3" "table_map key t3 = (table_map key t)(?k \<mapsto> e)"
      using place [of "cheap_bucket ?n ?k" h t1] r(2) by (auto simp: homes_def)
    then show ?thesis using r(1) Some by (simp add: table_insert_def limit_def [symmetric] Let_def)
  next
    case None
    then have t1: "t1 = t" using r(2) by (simp add: relocated_def)
    show ?thesis
    proof (cases r2)
      case (Some h)
      then obtain t3 where "idx_update t2 h (Some e) = Some t3" "length t3 = ?n" "table_ok rh key t3" "table_map key t3 = (table_map key t)(?k \<mapsto> e)"
        using place [of "rand_bucket rh ?n ?k" h t2] r2(2) by (auto simp: homes_def)
      then show ?thesis using r(1) r2(1) Some None t1 by (simp add: table_insert_def limit_def [symmetric] Let_def)
    next
      case n2: None
      then have "t2 = t" using r2(2) by (simp add: relocated_def)
      then show ?thesis using r(1) r2(1) n2 None t1 ok by (simp add: table_insert_def limit_def [symmetric] Let_def)
    qed
  qed
qed

section \<open>The largest table takes every key\<close>

text \<open>
  With 128 buckets two keys share a cheap bucket. A search that has displaced only keys that do not sit
  in their cheap bucket, each towards it, always finds another such key to displace.
\<close>

definition sits :: "('e \<Rightarrow> u8) \<Rightarrow> 'e byte_table \<Rightarrow> u8 \<Rightarrow> nat \<Rightarrow> bool" where
  "sits key t k b \<longleftrightarrow> (\<exists>i < length t. \<exists>e. t ! i = Some e \<and> key e = k \<and> i div 2 = b)"

definition chasing :: "('e \<Rightarrow> u8) \<Rightarrow> 'e byte_table \<Rightarrow> u8 set \<Rightarrow> u8 \<Rightarrow> bool" where
  "chasing key t V x \<longleftrightarrow> x \<in> V \<and> (\<forall>z \<in> V. \<not> sits key t z (unat z mod 128))
     \<and> (\<forall>b. card {y \<in> V. sits key t y b} \<le> card {z \<in> V - {x}. unat z mod 128 = b})"

lemma word_unat_eq_of_nat: "unat (w :: 'a::len word) = n \<Longrightarrow> w = word_of_nat n"
  by auto

lemma cheap_keys: "b < 128 \<Longrightarrow> card {k :: u8. unat k mod 128 = b} = 2"
proof -
  assume b: "b < 128"
  have "{k :: u8. unat k mod 128 = b} = {word_of_nat b, word_of_nat (b + 128)}"
  proof (intro set_eqI iffI)
    fix k :: u8 assume "k \<in> {k :: u8. unat k mod 128 = b}"
    then have "unat k = b \<or> unat k = b + 128" using byte_split(1) [of k] byte_split(3) [of k] by (auto simp: less_2_cases_iff)
    then show "k \<in> {word_of_nat b, word_of_nat (b + 128)}" by (metis insertI1 insert_commute word_unat_eq_of_nat)
  qed (use b in \<open>auto simp: unat_of_nat simp del: of_nat_add\<close>)
  moreover have "(word_of_nat b :: u8) \<noteq> word_of_nat (b + 128)"
    using b by (simp add: word_unat_eq_iff unat_of_nat del: of_nat_add)
  ultimately show ?thesis by simp
qed

lemma sits_unique: "table_ok rh key t \<Longrightarrow> sits key t k b \<Longrightarrow> sits key t k b' \<Longrightarrow> b = b'"
  unfolding sits_def table_ok_def by metis

lemma chase_next:
  assumes ok: "table_ok rh key t" and ch: "chasing key t V x" and b: "b = unat x mod 128" "b * 2 + 1 < length t"
    and full: "t ! (b * 2) = Some e0" "t ! (b * 2 + 1) = Some e1"
  obtains slot e where "slot < 2" "t ! (b * 2 + slot) = Some e" "key e \<notin> V" "unat (key e) mod 128 \<noteq> b"
    "chasing key t (insert (key e) V) (key e)"
proof -
  let ?C = "{k :: u8. unat k mod 128 = b}" and ?O = "{key e0, key e1}"
  have s0: "sits key t (key e0) b" "sits key t (key e1) b"
    unfolding sits_def using b(2) full by (auto intro: exI [of _ "b * 2"] exI [of _ "b * 2 + 1"])
  have "key e0 \<noteq> key e1" using ok full b(2) unfolding table_ok_def
    by (metis Suc_eq_plus1 Suc_lessD n_not_Suc_n)
  then have O2: "card ?O = 2" by simp
  have V: "x \<in> V" "\<And>z. z \<in> V \<Longrightarrow> \<not> sits key t z (unat z mod 128)"
    "\<And>b. card {y \<in> V. sits key t y b} \<le> card {z \<in> V - {x}. unat z mod 128 = b}" using ch by (auto simp: chasing_def)
  have fin: "finite A" for A :: "u8 set" by simp
  have "?O \<inter> V \<subseteq> {y \<in> V. sits key t y b}" using s0 by auto
  then have "card (?O \<inter> V) \<le> card {y \<in> V. sits key t y b}" by (rule card_mono [OF fin])
  also have "\<dots> \<le> card {z \<in> V - {x}. unat z mod 128 = b}" by (rule V(3))
  finally have OV: "card (?O \<inter> V) \<le> card {z \<in> V - {x}. unat z mod 128 = b}" .
  have disj: "(?O \<inter> ?C) \<inter> {z \<in> V - {x}. unat z mod 128 = b} = {}" using V(2) s0 by auto
  have "(?O \<inter> ?C) \<union> {z \<in> V - {x}. unat z mod 128 = b} \<subseteq> ?C - {x}" using V(1,2) s0 b(1) by auto
  then have "card ((?O \<inter> ?C) \<union> {z \<in> V - {x}. unat z mod 128 = b}) \<le> card (?C - {x})" by (rule card_mono [OF fin])
  also have "\<dots> = 1" using cheap_keys [of b] b(1) by simp
  finally have "card (?O \<inter> ?C) + card {z \<in> V - {x}. unat z mod 128 = b} \<le> 1" using card_Un_disjoint [OF fin fin disj] by simp
  then have "card (?O \<inter> ?C) + card (?O \<inter> V) \<le> 1" using OV by simp
  then have "card ((?O \<inter> ?C) \<union> (?O \<inter> V)) \<le> 1" using card_Un_le [of "?O \<inter> ?C" "?O \<inter> V"] by simp
  moreover have "?O \<subseteq> (?O \<inter> ?C) \<union> (?O \<inter> V) \<Longrightarrow> card ?O \<le> card ((?O \<inter> ?C) \<union> (?O \<inter> V))" by (rule card_mono [OF fin])
  ultimately obtain y where y: "y \<in> ?O" "y \<notin> ?C" "y \<notin> V" using O2 by fastforce
  have "\<exists>slot e. slot < 2 \<and> t ! (b * 2 + slot) = Some e \<and> y = key e"
  proof (cases "y = key e0")
    case True
    then show ?thesis using full by (intro exI [of _ 0] exI [of _ e0]) simp
  next
    case False
    then show ?thesis using full y(1) by (intro exI [of _ 1] exI [of _ e1]) simp
  qed
  then obtain slot e where e: "slot < 2" "t ! (b * 2 + slot) = Some e" "y = key e" by blast
  have sy: "sits key t y b" using y(1) s0 by auto
  have only: "sits key t y b' \<longleftrightarrow> b' = b" for b' using sits_unique [OF ok sy] sy by blast
  have "card {w \<in> insert y V. sits key t w b'} \<le> card {z \<in> insert y V - {y}. unat z mod 128 = b'}" for b'
  proof (cases "b' = b")
    case True
    have "{w \<in> insert y V. sits key t w b} = insert y {w \<in> V. sits key t w b}" using sy by auto
    then have "card {w \<in> insert y V. sits key t w b} = Suc (card {w \<in> V. sits key t w b})" using y(3) by simp
    moreover have "{z \<in> insert y V - {y}. unat z mod 128 = b} = insert x {z \<in> V - {x}. unat z mod 128 = b}" using y(3) V(1) b(1) by auto
    ultimately show ?thesis using V(3) [of b] True by simp
  next
    case False
    have "{w \<in> insert y V. sits key t w b'} = {w \<in> V. sits key t w b'}" using only False by auto
    moreover have "{z \<in> insert y V - {y}. unat z mod 128 = b'} = {z \<in> V - {x}. unat z mod 128 = b'}" using y(3) False b(1) by auto
    ultimately show ?thesis using V(3) [of b'] by simp
  qed
  then have "chasing key t (insert y V) y" using V(2) only y(2) by (auto simp: chasing_def)
  then show thesis using e y by (intro that [of slot e]) auto
qed

lemma plan_insert_largest:
  assumes "table_ok rh key t" "length t = 256" "length visited = 2" "chasing key t (bset_elems visited) x"
    "card (- bset_elems visited) \<le> depth"
  shows "\<exists>h t'. plan_insert depth rh key t (unat x mod 128) visited = Some (Some h, t', visited)"
  using assms
proof (induction depth arbitrary: visited x)
  case 0
  let ?b = "unat x mod 128"
  have b: "?b * 2 + 1 < length t" using 0 byte_split(2) [of x] by simp
  have "bset_elems visited = UNIV" using 0(5) by (auto simp: card_eq_0_iff)
  then have "t ! (?b * 2) = None \<or> t ! (?b * 2 + 1) = None"
    using chase_next [OF 0(1,4) refl b] by (metis UNIV_I not_None_eq)
  then show ?case using b by (auto simp: bucket_loops(2) bucket_entry_count_def)
next
  case (Suc depth)
  let ?b = "unat x mod 128"
  have b: "?b * 2 + 1 < length t" using Suc.prems byte_split(2) [of x] by simp
  show ?case
  proof (cases "t ! (?b * 2) = None \<or> t ! (?b * 2 + 1) = None")
    case True
    then show ?thesis using b by (auto simp: bucket_loops(2) bucket_entry_count_def)
  next
    case False
    then obtain e0 e1 where full: "t ! (?b * 2) = Some e0" "t ! (?b * 2 + 1) = Some e1" by auto
    obtain slot e where e: "slot < 2" "t ! (?b * 2 + slot) = Some e" "key e \<notin> bset_elems visited" "unat (key e) mod 128 \<noteq> ?b"
      "chasing key t (insert (key e) (bset_elems visited)) (key e)"
      by (rule chase_next [OF Suc.prems(1,4) refl b full])
    let ?vis = "bset_insert visited (key e)"
    have vis: "bset_elems ?vis = insert (key e) (bset_elems visited)" using Suc.prems(3) by (auto simp: bset_elems_def)
    have "- bset_elems visited = insert (key e) (- bset_elems ?vis)" using e(3) vis by auto
    then have "card (- bset_elems visited) = Suc (card (- bset_elems ?vis))" using vis by simp
    then have "card (- bset_elems ?vis) \<le> depth" using Suc.prems(5) by simp
    then obtain h t' where found: "plan_insert depth rh key t (unat (key e) mod 128) ?vis = Some (Some h, t', ?vis)"
      using Suc.IH [of ?vis "key e"] Suc.prems e(5) vis by auto
    have cheap: "cheap_bucket (length t) (key e) = unat (key e) mod 128"
      using unat_compress [of "length t" 7 "key e"] Suc.prems(2) by (simp add: cheap_hash_def)
    have stop: "\<exists>t'. displace rh key (plan_insert depth rh key) ?b (slot # slots) t visited = Some (Some (?b * 2 + slot), t', visited)" for slots
    proof (rule displace_step [OF plan_insert_searches Suc.prems(1,3) _ e(1,2), of depth slots], goal_cases)
      case 1
      then show ?case using b e(1) by simp
    next
      case 2
      then show ?case using e(3,4) found cheap by (auto simp: bset_elems_def Let_def split: if_splits)
    next
      case 3
      then show ?case by blast
    qed
    have "\<exists>h t'. displace rh key (plan_insert depth rh key) ?b [0, 1] t visited = Some (Some h, t', visited)"
    proof (cases "slot = 0")
      case True
      then show ?thesis using stop by blast
    next
      case ne: False
      then have one: "slot = 1" using e(1) by simp
      show ?thesis
        by (rule displace_step [OF plan_insert_searches Suc.prems(1,3), of ?b 0 e0 depth "[1]"])
          (use b full(1) stop [of "[]"] one in auto)
    qed
    moreover have "plan_insert (Suc depth) rh key t ?b visited = displace rh key (plan_insert depth rh key) ?b [0, 1] t visited"
      using full b by (simp add: bucket_loops(2) bucket_entry_count_def upt_rec)
    ultimately show ?thesis by simp
  qed
qed

lemma table_insert_largest:
  assumes ok: "table_ok rh key t" "length t = 256" and new: "table_map key t (key e) = None"
  shows "\<exists>t'. table_insert rh key t e = Some (None, t')"
proof -
  let ?vis = "bset_insert bset_new_empty (key e)"
  have vis: "bset_elems ?vis = {key e}" by (auto simp: bset_elems_def)
  have no: "\<not> sits key t (key e) b" for b using new by (auto simp: sits_def table_map_None)
  have "chasing key t (bset_elems ?vis) (key e)" by (simp add: vis chasing_def no)
  moreover have "card (- bset_elems ?vis) \<le> card (UNIV :: u8 set)" by (rule card_mono) auto
  then have "card (- bset_elems ?vis) \<le> 256" by (simp add: card_word)
  ultimately obtain h t' where "plan_insert 256 rh key t (unat (key e) mod 128) ?vis = Some (Some h, t', ?vis)"
    using plan_insert_largest [OF ok(1,2)] by (metis bset_length(1,3))
  moreover have "cheap_bucket (length t) (key e) = unat (key e) mod 128"
    using unat_compress [of "length t" 7 "key e"] ok(2) by (simp add: cheap_hash_def)
  ultimately have "table_insert rh key t e = Option.bind (idx_update t' h (Some e)) (\<lambda>t2. Some (None, t2))"
    using ok(2) by (simp add: table_insert_def max_slot_count_def Let_def)
  moreover obtain r t2 where "table_insert rh key t e = Some (r, t2)" using table_insert_eq [OF ok(1) new] by blast
  ultimately show ?thesis by (cases "idx_update t' h (Some e)") auto
qed

section \<open>Doubling\<close>

text \<open>A hash of the doubled table points to the old bucket or to its twin in the upper half.\<close>

lemma compress_double:
  assumes "table_size n" "table_size (2 * n)"
  shows "unat (compress_hash (2 * n) h) = unat (compress_hash n h) \<or>
    unat (compress_hash (2 * n) h) = unat (compress_hash n h) + n div 2"
proof -
  obtain m where m: "m < 8" "n = 2 ^ Suc m" "\<And>h. unat (compress_hash n h) = unat h mod 2 ^ m" "n div 2 = 2 ^ m"
    using table_sizeE [OF assms(1)] by metis
  obtain m' where m': "2 * n = 2 ^ Suc m'" "\<And>h. unat (compress_hash (2 * n) h) = unat h mod 2 ^ m'"
    using table_sizeE [OF assms(2)] by metis
  have "(2 :: nat) ^ Suc (Suc m) = 2 ^ Suc m'" using m(2) m'(1) by simp
  then have "m' = Suc m" by (metis Suc_inject nat.inject power_inject_exp rel_simps(49) semiring_norm(76))
  then have "unat h mod 2 ^ m' = unat h mod 2 ^ m + 2 ^ m * (unat h div 2 ^ m mod 2)"
    using mod_mult2_eq [of "unat h" "2 ^ m" 2] by (simp add: mult.commute)
  then show ?thesis using m m' by (cases "unat h div 2 ^ m mod 2 = 0") (auto simp: mod_2_eq_odd split: if_splits)
qed

definition grow_inv :: "(u8 \<Rightarrow> u8) \<Rightarrow> ('e \<Rightarrow> u8) \<Rightarrow> 'e byte_table \<Rightarrow> nat \<Rightarrow> 'e byte_table \<Rightarrow> bool" where
  "grow_inv rh key t n g \<longleftrightarrow> length g = 2 * length t \<and> table_ok rh key g
     \<and> table_map key g = table_map key (take n t)
     \<and> (\<forall>j < length g. \<forall>e. g ! j = Some e \<longrightarrow>
          (\<exists>i < n. t ! i = Some e \<and> (j div 2 = i div 2 \<or> j div 2 = length t div 2 + i div 2)))"

lemma product_pairs: "i < 2 * m \<Longrightarrow> List.product [0..<m] [0..<2] ! i = (i div 2, i mod 2)"
  using product_nth [of i "[0..<m]" "[0..<2]"] by simp

lemma table_map_take_Suc:
  assumes "table_ok rh key t" "n < length t"
  shows "table_map key (take (Suc n) t) = (case t ! n of None \<Rightarrow> table_map key (take n t) | Some e \<Rightarrow> (table_map key (take n t))(key e \<mapsto> e))"
    "t ! n = Some e \<Longrightarrow> table_map key (take n t) (key e) = None"
proof -
  have new: "key f \<noteq> key e" if "i < n" "t ! i = Some f" "t ! n = Some e" for i f e
    using assms that unfolding table_ok_def by (metis less_irrefl less_trans)
  have "table_map key (take n t) (key e) = None" if "t ! n = Some e" for e
    unfolding table_map_None using new that assms(2) by auto
  then show "t ! n = Some e \<Longrightarrow> table_map key (take n t) (key e) = None" .
  show "table_map key (take (Suc n) t) = (case t ! n of None \<Rightarrow> table_map key (take n t) | Some e \<Rightarrow> (table_map key (take n t))(key e \<mapsto> e))"
  proof (cases "t ! n")
    case (Some e)
    have "key e \<notin> dom (table_map key (take n t))" using \<open>\<And>e. t ! n = Some e \<Longrightarrow> table_map key (take n t) (key e) = None\<close> [OF Some] by auto
    then show ?thesis using Some assms(2)
      by (intro ext) (auto simp: table_map_def table_entries_def take_Suc_conv_app_nth List.map_filter_def map_add_def split: option.splits)
  qed (use assms(2) in \<open>simp add: table_map_def table_entries_def take_Suc_conv_app_nth List.map_filter_def\<close>)
qed

lemma grow_slot_step:
  assumes t: "table_ok rh key t" "length t < 256" and n: "n < length t" and I: "grow_inv rh key t n g"
  shows "\<exists>g'. grow_slot rh key (length g) t g (n div 2, n mod 2) = Some g' \<and> grow_inv rh key t (Suc n) g'"
proof (cases "t ! n")
  case None
  then have "grow_inv rh key t (Suc n) g"
    using I table_map_take_Suc(1) [OF t(1) n] unfolding grow_inv_def by (auto intro: less_SucI) (meson less_SucI)
  then show ?thesis using None n by (simp add: grow_slot_def bucket_entry_count_def Let_def)
next
  case (Some e)
  let ?b = "n div 2" and ?N = "length t"
  have len: "length g = 2 * ?N" "table_ok rh key g" "table_map key g = table_map key (take n t)"
    and src: "\<And>j e. j < length g \<Longrightarrow> g ! j = Some e \<Longrightarrow> \<exists>i < n. t ! i = Some e \<and> (j div 2 = i div 2 \<or> j div 2 = ?N div 2 + i div 2)"
    using I by (auto simp: grow_inv_def)
  have size: "table_size ?N" "table_size (2 * ?N)" using t(1) len(1,2) by (auto simp: table_ok_def)
  obtain m where m: "m < 8" "?N = 2 ^ Suc m" using size(1) by (auto simp: table_size_def)
  have half: "?N div 2 * 2 = ?N" "?b < ?N div 2" using m n by auto
  have home: "?b \<in> homes rh ?N (key e)" using t(1) n Some by (auto simp: table_ok_def)
  define up where "up \<longleftrightarrow> \<not> (?b = cheap_bucket (2 * ?N) (key e) \<or> ?b = rand_bucket rh (2 * ?N) (key e))"
  define d where "d = (if up then ?N div 2 + ?b else ?b)"
  have dhome: "d \<in> homes rh (2 * ?N) (key e)"
    using home compress_double [OF size, of "cheap_hash (key e)"] compress_double [OF size, of "rand_hash rh (key e)"]
    by (auto simp: d_def up_def homes_def)
  have dlen: "d * 2 + 1 < length g" using half len(1) by (auto simp: d_def)
  have small: "?b < 256" using half(2) t(2) by simp
  have test: "word_of_nat ?b = compress_hash (2 * ?N) h \<longleftrightarrow> ?b = unat (compress_hash (2 * ?N) h)" for h
    using small by (auto simp: word_unat_eq_iff unat_of_nat)
  have d2: "d * 2 = (if up then ?N + ?b * 2 else ?b * 2)" using half by (auto simp: d_def algebra_simps)
  have eq: "grow_slot rh key (length g) t g (?b, n mod 2) = put_first_hole g (d * 2) e"
    using n Some len(1) unfolding d2 up_def
    by (simp add: grow_slot_def bucket_entry_count_def Let_def test)
  have new: "table_map key g (key e) = None" using table_map_take_Suc(2) [OF t(1) n Some] len(3) by simp
  have origin: "i = n - 1 \<and> n mod 2 = 1" if "i < n" "j div 2 = d" "j div 2 = i div 2 \<or> j div 2 = ?N div 2 + i div 2" for i j
  proof -
    have "i < ?N" using that(1) n by simp
    then have "i div 2 = ?b" using that(2,3) half d_def by (auto split: if_splits)
    then show ?thesis using that(1) by presburger
  qed
  have hole: "g ! (d * 2) = None \<or> g ! (d * 2 + 1) = None"
  proof (rule ccontr)
    assume "\<not> ?thesis"
    then obtain e0 e1 where e: "g ! (d * 2) = Some e0" "g ! (d * 2 + 1) = Some e1" by auto
    have prev: "t ! (n - 1) = Some f" if "j < length g" "g ! j = Some f" "j div 2 = d" for j f
      using src [OF that(1,2)] origin [OF _ that(3)] by blast
    have "t ! (n - 1) = Some e0" "t ! (n - 1) = Some e1"
      using prev [OF _ e(1)] prev [OF _ e(2)] dlen by simp_all
    then have "key e0 = key e1" by simp
    then show False using len(2) e dlen unfolding table_ok_def by (metis Suc_eq_plus1 Suc_lessD n_not_Suc_n)
  qed
  define h where "h = (if g ! (d * 2) = None then d * 2 else d * 2 + 1)"
  have h: "put_first_hole g (d * 2) e = Some (g[h := Some e])" "h < length g" "g ! h = None" "h div 2 = d"
    using dlen hole by (auto simp: put_first_hole_def bucket_loops(2) h_def)
  have put: "table_ok rh key (g[h := Some e])" "table_map key (g[h := Some e]) = (table_map key g)(key e \<mapsto> e)"
    using table_put [OF len(2) h(2,3) _ new] h(4) dhome len(1) by simp_all
  have "\<exists>i < Suc n. t ! i = Some f \<and> (j div 2 = i div 2 \<or> j div 2 = ?N div 2 + i div 2)" if "j < length g" "g[h := Some e] ! j = Some f" for j f
  proof (cases "j = h")
    case True
    then have "f = e" using that by simp
    then show ?thesis using True h(4) Some by (intro exI [of _ n]) (auto simp: d_def)
  next
    case False
    then show ?thesis using src [OF that(1)] that(2) less_Suc_eq by auto
  qed
  then have "grow_inv rh key t (Suc n) (g[h := Some e])"
    using len put table_map_take_Suc(1) [OF t(1) n] Some by (simp add: grow_inv_def)
  then show ?thesis using eq h(1) by simp
qed

lemma empty_table: "table_size n \<Longrightarrow> table_ok rh key (replicate n None)" "table_map key (replicate n None) = Map.empty"
  by (simp_all add: table_ok_def table_map_def table_entries_def List.map_filter_def)

text \<open>The two slots of a fresh branch form one bucket, which every hash points to.\<close>

lemma two_slots:
  assumes "key a \<noteq> key b"
  shows "table_ok rh key [Some a, Some b]" "table_map key [Some a, Some b] = [key a \<mapsto> a, key b \<mapsto> b]"
proof -
  have z: "unat (compress_hash 2 h) = 0" for h using unat_compress [of 2 0] by simp
  have two: "i = 0 \<or> i = 1" if "i < 2" for i :: nat using that by auto
  have len: "length [Some a, Some b] = 2" by simp
  have "i div 2 = 0" if "i < 2" for i :: nat using that by simp
  moreover have "i = j" if "i < 2" "j < 2" "[Some a, Some b] ! i = Some e" "[Some a, Some b] ! j = Some f" "key e = key f" for i j e f
    using that assms by (auto dest!: two)
  moreover have "table_size 2" by (auto simp: table_size_def intro: exI [of _ 0])
  ultimately show "table_ok rh key [Some a, Some b]" unfolding table_ok_def len homes_def z by blast
  show "table_map key [Some a, Some b] = [key a \<mapsto> a, key b \<mapsto> b]"
    using assms by (auto simp: table_map_def table_entries_def map_filter_simps fun_eq_iff)
qed

lemma table_grow_eq:
  assumes "table_ok rh key t" "length t < 256"
  shows "\<exists>g. table_grow rh key t (replicate (2 * length t) None) = Some g \<and> length g = 2 * length t
    \<and> table_ok rh key g \<and> table_map key g = table_map key t"
proof -
  let ?N = "length t" and ?e = "replicate (2 * length t) (None :: 'a option)"
  obtain m where m: "m < 8" "?N = 2 ^ Suc m" using assms(1) by (auto simp: table_ok_def table_size_def)
  have "m \<noteq> 7" using m(2) assms(2) by auto
  then have size: "table_size (2 * ?N)" using m by (auto simp: table_size_def intro: exI [of _ "Suc m"])
  let ?ps = "List.product [0..<?N div 2] [0..<2]"
  have len: "length ?ps = ?N" using m by simp
  have "\<exists>g. for_each (grow_slot rh key (2 * ?N) t) ?e ?ps = Some g \<and> grow_inv rh key t (length ?ps) g"
  proof (rule for_each_invariant)
    show "grow_inv rh key t 0 ?e" using empty_table(1) [OF size, of rh key] by (simp add: grow_inv_def table_map_def table_entries_def List.map_filter_def)
  next
    fix k g assume k: "k < length ?ps" and I: "grow_inv rh key t k g"
    have "?ps ! k = (k div 2, k mod 2)" using k len m by (intro product_pairs) simp
    then show "\<exists>g'. grow_slot rh key (2 * ?N) t g (?ps ! k) = Some g' \<and> grow_inv rh key t (Suc k) g'"
      using grow_slot_step [OF assms _ I] k len I by (simp add: grow_inv_def)
  qed
  then show ?thesis unfolding table_grow_def bucket_entry_count_def using len by (auto simp: grow_inv_def)
qed

section \<open>Insertion with growth\<close>

text \<open>
  The loop of \<open>Branch::install_child_growing\<close>: the table is doubled until the entry fits; a table that
  would exceed 256 slots panics. \<open>fuel\<close> bounds the doublings; \<open>None\<close> inside is fuel that ran out.
\<close>

fun table_insert_growing ::
  "nat \<Rightarrow> (u8 \<Rightarrow> u8) \<Rightarrow> ('e \<Rightarrow> u8) \<Rightarrow> 'e byte_table \<Rightarrow> 'e \<Rightarrow> 'e byte_table option option" where
  "table_insert_growing 0 rh key table e = Some None"
| "table_insert_growing (Suc fuel) rh key table e = do {
     (displaced, table1) \<leftarrow> table_insert rh key table e;
     case displaced of None \<Rightarrow> Some (Some table1)
     | Some e' \<Rightarrow> do {
         let new_size = length table1 * 2;
         assert_that (new_size \<le> 256);
         grown \<leftarrow> table_grow rh key table1 (replicate new_size None);
         table_insert_growing fuel rh key grown e'
       }
   }"

lemma table_insert_growing_eq:
  assumes "table_ok rh key t" "table_map key t (key e) = None" "256 \<le> length t * 2 ^ fuel"
  shows "\<exists>t'. table_insert_growing (Suc fuel) rh key t e = Some (Some t') \<and> table_ok rh key t'
    \<and> table_map key t' = (table_map key t)(key e \<mapsto> e) \<and> length t \<le> length t'"
  using assms
proof (induction fuel arbitrary: t)
  case 0
  have "length t \<le> 256" using table_size_le 0(1) by (simp add: table_ok_def)
  then have "length t = 256" using 0(3) by simp
  then show ?case using table_insert_largest [OF 0(1) _ 0(2)] table_insert_eq [OF 0(1,2)] by fastforce
next
  case (Suc fuel)
  obtain r t1 where r: "table_insert rh key t e = Some (r, t1)" "length t1 = length t" "table_ok rh key t1"
    "case r of None \<Rightarrow> table_map key t1 = (table_map key t)(key e \<mapsto> e) | Some e' \<Rightarrow> e' = e \<and> t1 = t"
    using table_insert_eq [OF Suc.prems(1,2)] by blast
  show ?case
  proof (cases r)
    case None
    then show ?thesis using r by (auto simp: fun_upd_def)
  next
    case (Some e')
    then have e': "e' = e" "t1 = t" using r(4) by auto
    have ne: "length t \<noteq> 256" using table_insert_largest [OF Suc.prems(1) _ Suc.prems(2)] r(1) Some by auto
    obtain m where m: "m < 8" "length t = 2 ^ Suc m" using Suc.prems(1) by (auto simp: table_ok_def table_size_def)
    have "m < 7" using m ne by (cases "m = 7") auto
    then have small: "length t * 2 \<le> 256" using m power_increasing [of "Suc (Suc m)" 8 "2 :: nat"] by simp
    obtain g where g: "table_grow rh key t (replicate (2 * length t) None) = Some g" "length g = 2 * length t"
      "table_ok rh key g" "table_map key g = table_map key t"
      using table_grow_eq [OF Suc.prems(1)] small m by auto
    have "256 \<le> length g * 2 ^ fuel" using Suc.prems(3) g(2) by simp
    with g(3,4) obtain t' where t': "table_insert_growing (Suc fuel) rh key g e = Some (Some t')" "table_ok rh key t'"
      "table_map key t' = (table_map key g)(key e \<mapsto> e)" "length g \<le> length t'"
      using Suc.IH [OF g(3)] g(4) Suc.prems(2) by metis
    have "table_insert_growing (Suc (Suc fuel)) rh key t e = table_insert_growing (Suc fuel) rh key g e"
      using r(1) Some e' g(1) small by (simp add: Let_def mult.commute del: table_insert_growing.simps(2)) (simp add: mult.commute)
    then show ?thesis using t' g(2,4) by (intro exI [of _ t']) (simp del: table_insert_growing.simps(2))
  qed
qed

section \<open>The interface\<close>

text \<open>
  A map from bytes as the branches of the trie use it: lookups that do not panic, and an insertion of a
  new key that always succeeds.
\<close>

locale byte_map =
  fixes ok :: "'t \<Rightarrow> bool" and lookup :: "'t \<Rightarrow> u8 \<Rightarrow> 'e option option" and install :: "'t \<Rightarrow> 'e \<Rightarrow> 't option option"
    and key :: "'e \<Rightarrow> u8" and abs :: "'t \<Rightarrow> u8 \<rightharpoonup> 'e"
  assumes lookup_abs: "ok t \<Longrightarrow> lookup t k = Some (abs t k)"
    and install_abs: "ok t \<Longrightarrow> abs t (key e) = None \<Longrightarrow>
      \<exists>t'. install t e = Some (Some t') \<and> ok t' \<and> abs t' = (abs t)(key e \<mapsto> e)"
begin

lemma install_lookup:
  assumes "ok t" "abs t (key e) = None"
  shows "\<exists>t'. install t e = Some (Some t') \<and> ok t' \<and> lookup t' (key e) = Some (Some e)
    \<and> (\<forall>k. k \<noteq> key e \<longrightarrow> lookup t' k = lookup t k)"
  using install_abs [OF assms] lookup_abs assms(1) by force

lemma install_all:
  assumes "ok t" "distinct (map key es)" "\<And>e. e \<in> set es \<Longrightarrow> abs t (key e) = None"
  shows "\<exists>t'. for_each (\<lambda>t e. do { r \<leftarrow> install t e; r }) t es = Some t' \<and> ok t' \<and> abs t' = abs t ++ map_of (map (\<lambda>e. (key e, e)) es)"
  using assms
proof (induction es arbitrary: t)
  case (Cons e es)
  obtain t1 where t1: "install t e = Some (Some t1)" "ok t1" "abs t1 = (abs t)(key e \<mapsto> e)"
    using install_abs Cons.prems by (metis list.set_intros(1))
  have "\<And>f. f \<in> set es \<Longrightarrow> abs t1 (key f) = None" using Cons.prems t1(3) by (force simp: image_iff)
  then obtain t' where t': "for_each (\<lambda>t e. do { r \<leftarrow> install t e; r }) t1 es = Some t'" "ok t'"
    "abs t' = abs t1 ++ map_of (map (\<lambda>e. (key e, e)) es)" using Cons.IH [OF t1(2)] Cons.prems(2) by auto
  have "key e \<notin> dom (map_of (map (\<lambda>e. (key e, e)) es))" using Cons.prems(2) by (simp add: dom_map_of_conv_image_fst image_image)
  then have "(abs t)(key e \<mapsto> e) ++ map_of (map (\<lambda>e. (key e, e)) es) = abs t ++ map_of (map (\<lambda>e. (key e, e)) (e # es))"
    by (auto simp: map_add_def fun_eq_iff split: option.splits)
  moreover have "for_each (\<lambda>t e. do { r \<leftarrow> install t e; r }) t (e # es) = Some t'" using t1(1) t'(1) by simp
  ultimately show ?case using t1(3) t'(2,3) by metis
qed simp

end

interpretation cuckoo: byte_map "table_ok rh key" "table_get rh key" "table_insert_growing 8 rh key" key "table_map key" for rh key
proof
  show "table_ok rh key t \<Longrightarrow> table_get rh key t k = Some (table_map key t k)" for t k by (rule table_get_eq)
  show "\<exists>t'. table_insert_growing 8 rh key t e = Some (Some t') \<and> table_ok rh key t' \<and> table_map key t' = (table_map key t)(key e \<mapsto> e)"
    if t: "table_ok rh key t" "table_map key t (key e) = None" for t e
  proof -
    have "2 \<le> length t" using t(1) table_size_le by (simp add: table_ok_def)
    then show ?thesis using table_insert_growing_eq [OF t, of 7] by auto
  qed
qed

section \<open>Properties\<close>

text \<open>
  C29. The cuckoo table implements a map from bytes, whatever the random permutation: on a table whose
  entries sit in one of their two buckets, lookup does not panic and returns the entry stored under the
  byte; inserting a new key either stores it, after displacing entries between their buckets without
  losing one, or hands the entry back with the table as it was.
\<close>

theorem byte_table_insert:
  assumes "table_ok rh key t" "table_map key t (key e) = None"
  shows "table_get rh key t k = Some (table_map key t k) \<and>
    (\<exists>r t'. table_insert rh key t e = Some (r, t') \<and> table_ok rh key t' \<and>
      (case r of None \<Rightarrow> (\<forall>k. table_get rh key t' k = Some (if k = key e then Some e else table_map key t k))
       | Some e' \<Rightarrow> e' = e \<and> t' = t))"
  using cuckoo.lookup_abs [OF assms(1)] table_insert_eq [OF assms] table_get_eq by (fastforce split: option.splits)

theorem byte_table_insert_witness:
  "table_get (\<lambda>k. k) (\<lambda>e. e) (replicate 4 None) 7 = Some (table_map (\<lambda>e. e) (replicate 4 None) 7) \<and>
    (\<exists>r t'. table_insert (\<lambda>k. k) (\<lambda>e. e) (replicate 4 None) (9 :: u8) = Some (r, t') \<and> table_ok (\<lambda>k. k) (\<lambda>e. e) t' \<and>
      (case r of None \<Rightarrow> (\<forall>k. table_get (\<lambda>k. k) (\<lambda>e. e) t' k = Some (if k = 9 then Some 9 else table_map (\<lambda>e. e) (replicate 4 None) k))
       | Some e' \<Rightarrow> e' = 9 \<and> t' = replicate 4 None))"
proof -
  have "table_size 4" by (auto simp: table_size_def intro: exI [of _ 1])
  then show ?thesis using byte_table_insert [of "\<lambda>k. k" "\<lambda>e. e" "replicate 4 None" 9 7] by (simp add: empty_table)
qed

text \<open>
  C30. Doubling a table that is not yet of the largest size loses no entry: every entry lands in a bucket
  that its lookup in the doubled table visits.
\<close>

theorem byte_table_grow:
  assumes "table_ok rh key t" "length t < 256"
  shows "\<exists>g. table_grow rh key t (replicate (2 * length t) None) = Some g \<and> length g = 2 * length t \<and>
    table_ok rh key g \<and> (\<forall>k. table_get rh key g k = table_get rh key t k)"
  using table_grow_eq [OF assms] table_get_eq assms(1) by metis

theorem byte_table_grow_witness:
  "\<exists>g. table_grow (\<lambda>k. k + 1) (\<lambda>e :: u8. e) [Some 3, Some 6] (replicate 4 None) = Some g \<and> length g = 4 \<and>
    table_ok (\<lambda>k. k + 1) (\<lambda>e. e) g \<and> (\<forall>k. table_get (\<lambda>k. k + 1) (\<lambda>e. e) g k = table_get (\<lambda>k. k + 1) (\<lambda>e. e) [Some 3, Some 6] k)"
proof -
  have "table_ok (\<lambda>k. k + 1) (\<lambda>e :: u8. e) [Some 3, Some 6]" by (rule two_slots) simp
  from byte_table_grow [OF this] show ?thesis by simp
qed

text \<open>
  C28. Inserting a new key into a child table always succeeds: a table of 256 slots never hands an entry
  back, so doubling stops at that size at the latest, the assertion on the new size holds, and the
  entry is stored. The search by displacement is bounded by the number of keys.
\<close>

theorem byte_table_install:
  assumes "table_ok rh key t" "table_map key t (key e) = None"
  shows "\<exists>t'. table_insert_growing 8 rh key t e = Some (Some t') \<and> table_ok rh key t' \<and>
    (\<forall>k. table_get rh key t' k = Some (if k = key e then Some e else table_map key t k))"
  using cuckoo.install_abs [OF assms] table_get_eq by fastforce

theorem byte_table_install_witness:
  "\<exists>t'. table_insert_growing 8 (\<lambda>k. k) (\<lambda>e :: u8. e) [Some 3, Some 6] 9 = Some (Some t') \<and> table_ok (\<lambda>k. k) (\<lambda>e. e) t' \<and>
    (\<forall>k. table_get (\<lambda>k. k) (\<lambda>e. e) t' k = Some (if k = 9 then Some 9 else table_map (\<lambda>e. e) [Some 3, Some 6] k))"
proof -
  have "table_ok (\<lambda>k. k) (\<lambda>e :: u8. e) [Some 3, Some 6]" by (rule two_slots) simp
  moreover have "table_map (\<lambda>e :: u8. e) [Some 3, Some 6] 9 = None" by (simp add: table_map_def table_entries_def map_filter_simps)
  ultimately show ?thesis by (rule byte_table_install)
qed

end
