(* ===== verification/Key_Schema.thy ===== *)
theory Key_Schema
  imports Prelude "HOL-Library.Multiset"
begin

text \<open>
  \<open>patch.rs\<close>, the key schemas: how a PATCH reads the bytes of a key in another order. A schema is built
  by \<open>const\<close> functions from the lengths of the key's segments and the order in which the tree visits
  them; \<open>trible.rs\<close> has six, one for each order of entity, attribute and value. The loops of the
  \<open>const\<close> functions index arrays, and an index out of range stops the compilation: \<open>None\<close>.

  The theory shows that the tables are permutations that invert each other, so that reordering a key
  and ordering it back is the identity.
\<close>

section \<open>The tables\<close>

definition build_segmentation :: "nat \<Rightarrow> nat list \<Rightarrow> nat list option" where
  "build_segmentation n lens = do {
     (res, _) \<leftarrow> for_each (\<lambda>(res, off) seg. do {
        len \<leftarrow> idx lens seg;
        res' \<leftarrow> for_each (\<lambda>res i. idx_update res (off + i) seg) res [0..<len];
        Some (res', off + len)
      }) (replicate n 0, 0) [0..<length lens];
     Some res
   }"

definition identity_map :: "nat \<Rightarrow> nat list option" where
  "identity_map n = for_each (\<lambda>res i. idx_update res i i) (replicate n 0) [0..<n]"

definition key_starts :: "nat list \<Rightarrow> nat list option" where
  "key_starts lens = do {
     (starts, _) \<leftarrow> for_each (\<lambda>(starts, off) i. do {
        starts' \<leftarrow> idx_update starts i off;
        len \<leftarrow> idx lens i;
        Some (starts', off + len)
      }) (replicate (length lens) 0, 0) [0..<length lens];
     Some starts
   }"

definition tree_starts :: "nat list \<Rightarrow> nat list \<Rightarrow> nat list option" where
  "tree_starts lens perm = do {
     (starts, _) \<leftarrow> for_each (\<lambda>(starts, off) i. do {
        seg \<leftarrow> idx perm i;
        starts' \<leftarrow> idx_update starts seg off;
        len \<leftarrow> idx lens seg;
        Some (starts', off + len)
      }) (replicate (length lens) 0, 0) [0..<length lens];
     Some starts
   }"

definition build_key_to_tree :: "nat \<Rightarrow> nat list \<Rightarrow> nat list \<Rightarrow> nat list option" where
  "build_key_to_tree n lens perm = do {
     ks \<leftarrow> key_starts lens;
     ts \<leftarrow> tree_starts lens perm;
     for_each (\<lambda>res seg. do {
        len \<leftarrow> idx lens seg;
        k \<leftarrow> idx ks seg;
        t \<leftarrow> idx ts seg;
        for_each (\<lambda>res j. idx_update res (k + j) (t + j)) res [0..<len]
      }) (replicate n 0) [0..<length lens]
   }"

definition invert :: "nat list \<Rightarrow> nat list option" where
  "invert arr = for_each (\<lambda>res i. do { a \<leftarrow> idx arr i; idx_update res a i }) (replicate (length arr) 0) [0..<length arr]"

text \<open>The end of the segment that contains each depth: the next depth of another segment, or the end.\<close>

definition build_segment_ends :: "nat list \<Rightarrow> nat list \<Rightarrow> nat list option" where
  "build_segment_ends segments tree_to_key = (let n = length segments in
     for_each (\<lambda>ends d. do {
        k \<leftarrow> idx tree_to_key d;
        seg \<leftarrow> idx segments k;
        ahead \<leftarrow> map_panic (\<lambda>e. do { k' \<leftarrow> idx tree_to_key e; idx segments k' }) [d + 1..<n];
        idx_update ends d (d + 1 + length (takeWhile (\<lambda>s. s = seg) ahead))
      }) (replicate n 0) [0..<n])"

section \<open>Schemas\<close>

record key_schema =
  ks_key_len :: nat
  ks_segments :: "nat list"
  ks_key_to_tree :: "nat list"
  ks_tree_to_key :: "nat list"

definition key_schema_of :: "nat \<Rightarrow> nat list \<Rightarrow> nat list \<Rightarrow> key_schema option" where
  "key_schema_of n lens perm = do {
     segments \<leftarrow> build_segmentation n lens;
     key_to_tree \<leftarrow> build_key_to_tree n lens perm;
     tree_to_key \<leftarrow> invert key_to_tree;
     Some \<lparr>ks_key_len = n, ks_segments = segments, ks_key_to_tree = key_to_tree, ks_tree_to_key = tree_to_key\<rparr>
   }"

definition identity_schema :: "nat \<Rightarrow> key_schema option" where
  "identity_schema n = do {
     m \<leftarrow> identity_map n;
     Some \<lparr>ks_key_len = n, ks_segments = replicate n 0, ks_key_to_tree = m, ks_tree_to_key = m\<rparr>
   }"

definition segment_ends :: "key_schema \<Rightarrow> nat list option" where
  "segment_ends S = build_segment_ends (ks_segments S) (ks_tree_to_key S)"

definition next_boundary :: "key_schema \<Rightarrow> nat \<Rightarrow> nat option" where
  "next_boundary S d = do { ends \<leftarrow> segment_ends S; idx ends d }"

definition tree_ordered :: "key_schema \<Rightarrow> u8 list \<Rightarrow> u8 list option" where
  "tree_ordered S key = for_each (\<lambda>new_key i. do {
      t \<leftarrow> idx (ks_key_to_tree S) i;
      b \<leftarrow> idx key i;
      idx_update new_key t b
    }) (replicate (ks_key_len S) 0) [0..<ks_key_len S]"

definition key_ordered :: "key_schema \<Rightarrow> u8 list \<Rightarrow> u8 list option" where
  "key_ordered S tree_key = for_each (\<lambda>new_key i. do {
      k \<leftarrow> idx (ks_tree_to_key S) i;
      b \<leftarrow> idx tree_key i;
      idx_update new_key k b
    }) (replicate (ks_key_len S) 0) [0..<ks_key_len S]"

definition segment_of_tree_depth :: "key_schema \<Rightarrow> nat \<Rightarrow> nat option" where
  "segment_of_tree_depth S d = do { k \<leftarrow> idx (ks_tree_to_key S) d; idx (ks_segments S) k }"

definition same_segment_tree :: "key_schema \<Rightarrow> nat \<Rightarrow> nat \<Rightarrow> bool option" where
  "same_segment_tree S a b = do {
     s \<leftarrow> segment_of_tree_depth S a;
     t \<leftarrow> segment_of_tree_depth S b;
     Some (s = t)
   }"

section \<open>The schemas of tribles\<close>

definition trible_len :: nat where
  "trible_len = 64"

definition trible_segmentation :: "nat list" where
  "trible_segmentation = [16, 16, 32]"

definition eav_order :: "key_schema option" where
  "eav_order = key_schema_of trible_len trible_segmentation [0, 1, 2]"

definition eva_order :: "key_schema option" where
  "eva_order = key_schema_of trible_len trible_segmentation [0, 2, 1]"

definition aev_order :: "key_schema option" where
  "aev_order = key_schema_of trible_len trible_segmentation [1, 0, 2]"

definition ave_order :: "key_schema option" where
  "ave_order = key_schema_of trible_len trible_segmentation [1, 2, 0]"

definition vea_order :: "key_schema option" where
  "vea_order = key_schema_of trible_len trible_segmentation [2, 0, 1]"

definition vae_order :: "key_schema option" where
  "vae_order = key_schema_of trible_len trible_segmentation [2, 1, 0]"

section \<open>Permutations\<close>

definition schema_ok :: "key_schema \<Rightarrow> bool" where
  "schema_ok S \<longleftrightarrow> (let n = ks_key_len S in
     length (ks_segments S) = n \<and> length (ks_key_to_tree S) = n \<and> length (ks_tree_to_key S) = n
     \<and> (\<forall>i < n. ks_key_to_tree S ! i < n \<and> ks_tree_to_key S ! (ks_key_to_tree S ! i) = i)
     \<and> (\<forall>d < n. ks_tree_to_key S ! d < n \<and> ks_key_to_tree S ! (ks_tree_to_key S ! d) = d))"

text \<open>Writing each index to the place a permutation sends it.\<close>

lemma scatter_permutation:
  assumes "length p = n" "distinct p" "set p \<subseteq> {..<n}" "length x = n"
  shows "\<exists>res. for_each (\<lambda>res i. do { a \<leftarrow> idx p i; b \<leftarrow> idx x i; idx_update res a b }) (replicate n z) [0..<n] = Some res
    \<and> length res = n \<and> (\<forall>i < n. res ! (p ! i) = x ! i)"
proof -
  let ?I = "\<lambda>k res. length res = n \<and> (\<forall>i < k. res ! (p ! i) = x ! i)"
  have "\<exists>res. for_each (\<lambda>res i. do { a \<leftarrow> idx p i; b \<leftarrow> idx x i; idx_update res a b }) (replicate n z) [0..<n] = Some res
      \<and> ?I (length [0..<n]) res"
  proof (rule for_each_invariant)
    show "?I 0 (replicate n z)" by simp
    fix k res assume k: "k < length [0..<n]" and I: "?I k res"
    then have "p ! k < n" using assms(1,3) by (metis diff_zero length_upt lessThan_iff nth_mem subsetD)
    moreover have "p ! k \<noteq> p ! i" if "i < k" for i using that k assms(1,2) by (simp add: nth_eq_iff_index_eq)
    ultimately show "\<exists>s'. do { a \<leftarrow> idx p ([0..<n] ! k); b \<leftarrow> idx x ([0..<n] ! k); idx_update res a b } = Some s' \<and> ?I (Suc k) s'"
      using k I assms(1,4) by (auto simp: less_Suc_eq)
  qed
  then show ?thesis by simp
qed

lemma invert_permutation:
  assumes "distinct p" "set p = {..<length p}"
  shows "\<exists>q. invert p = Some q \<and> length q = length p \<and> (\<forall>i < length p. q ! (p ! i) = i) \<and> (\<forall>d < length p. q ! d < length p \<and> p ! (q ! d) = d)"
proof -
  let ?n = "length p"
  have "for_each (\<lambda>res i. do { a \<leftarrow> idx p i; b \<leftarrow> idx [0..<?n] i; idx_update res a b }) (replicate ?n 0) [0..<?n] = invert p"
    unfolding invert_def by (intro for_each_cong) simp
  then obtain q where q: "invert p = Some q" "length q = ?n" "\<And>i. i < ?n \<Longrightarrow> q ! (p ! i) = i"
    using scatter_permutation [of p ?n "[0..<?n]" 0] assms by auto
  have "q ! d < ?n \<and> p ! (q ! d) = d" if "d < ?n" for d
  proof -
    have "d \<in> set p" using that assms(2) by simp
    then obtain i where "i < ?n" "p ! i = d" by (auto simp: in_set_conv_nth)
    then show ?thesis using q(3) by auto
  qed
  then show ?thesis using q by blast
qed

lemma schema_perms:
  assumes "schema_ok S"
  defines "n \<equiv> ks_key_len S"
  shows "length (ks_key_to_tree S) = n" "distinct (ks_key_to_tree S)" "set (ks_key_to_tree S) \<subseteq> {..<n}"
    "length (ks_tree_to_key S) = n" "distinct (ks_tree_to_key S)" "set (ks_tree_to_key S) \<subseteq> {..<n}"
    "i < n \<Longrightarrow> ks_key_to_tree S ! i < n \<and> ks_tree_to_key S ! (ks_key_to_tree S ! i) = i"
    "d < n \<Longrightarrow> ks_tree_to_key S ! d < n \<and> ks_key_to_tree S ! (ks_tree_to_key S ! d) = d"
    "length (ks_segments S) = n"
proof -
  have ok: "length (ks_segments S) = n" "length (ks_key_to_tree S) = n" "length (ks_tree_to_key S) = n"
    "\<And>i. i < n \<Longrightarrow> ks_key_to_tree S ! i < n \<and> ks_tree_to_key S ! (ks_key_to_tree S ! i) = i"
    "\<And>d. d < n \<Longrightarrow> ks_tree_to_key S ! d < n \<and> ks_key_to_tree S ! (ks_tree_to_key S ! d) = d"
    using assms by (simp_all add: schema_ok_def Let_def)
  show "distinct (ks_key_to_tree S)" unfolding distinct_conv_nth ok(2) using ok(4) by metis
  show "distinct (ks_tree_to_key S)" unfolding distinct_conv_nth ok(3) using ok(5) by metis
  show "set (ks_key_to_tree S) \<subseteq> {..<n}" "set (ks_tree_to_key S) \<subseteq> {..<n}" using ok(2-5) by (auto simp: in_set_conv_nth)
  show "i < n \<Longrightarrow> ks_key_to_tree S ! i < n \<and> ks_tree_to_key S ! (ks_key_to_tree S ! i) = i" by (rule ok(4))
  show "d < n \<Longrightarrow> ks_tree_to_key S ! d < n \<and> ks_key_to_tree S ! (ks_tree_to_key S ! d) = d" by (rule ok(5))
qed (use assms in \<open>simp_all add: schema_ok_def Let_def\<close>)

lemma reorder_round_trip:
  assumes ok: "schema_ok S" and len: "length key = ks_key_len S"
  shows "\<exists>t. tree_ordered S key = Some t \<and> length t = ks_key_len S \<and> (\<forall>d < ks_key_len S. t ! d = key ! (ks_tree_to_key S ! d))
    \<and> key_ordered S t = Some key"
proof -
  let ?n = "ks_key_len S"
  have k2t: "length (ks_key_to_tree S) = ?n" "distinct (ks_key_to_tree S)" "set (ks_key_to_tree S) \<subseteq> {..<?n}"
    and t2k: "length (ks_tree_to_key S) = ?n" "distinct (ks_tree_to_key S)" "set (ks_tree_to_key S) \<subseteq> {..<?n}"
    and inv: "\<And>i. i < ?n \<Longrightarrow> ks_key_to_tree S ! i < ?n \<and> ks_tree_to_key S ! (ks_key_to_tree S ! i) = i"
      "\<And>d. d < ?n \<Longrightarrow> ks_tree_to_key S ! d < ?n \<and> ks_key_to_tree S ! (ks_tree_to_key S ! d) = d"
    using schema_perms [OF ok] by blast+
  obtain t where t: "tree_ordered S key = Some t" "length t = ?n" "\<And>i. i < ?n \<Longrightarrow> t ! (ks_key_to_tree S ! i) = key ! i"
    using scatter_permutation [OF k2t len] by (auto simp: tree_ordered_def)
  have td: "t ! d = key ! (ks_tree_to_key S ! d)" if "d < ?n" for d
    using t(3) [of "ks_tree_to_key S ! d"] inv(2) [OF that] by simp
  obtain k where k: "key_ordered S t = Some k" "length k = ?n" "\<And>d. d < ?n \<Longrightarrow> k ! (ks_tree_to_key S ! d) = t ! d"
    using scatter_permutation [OF t2k t(2)] by (auto simp: key_ordered_def)
  have "k ! i = key ! i" if "i < ?n" for i
    using k(3) [of "ks_key_to_tree S ! i"] inv(1) [OF that] t(3) [OF that] by simp
  then have "k = key" using k(2) len by (simp add: nth_equalityI)
  then show ?thesis using t td k by auto
qed

text \<open>A schema whose byte table is a permutation.\<close>

lemma key_schema_of_ok:
  assumes "build_segmentation n lens = Some segs" "length segs = n" "build_key_to_tree n lens perm = Some p" "sort p = [0..<n]"
  shows "\<exists>S. key_schema_of n lens perm = Some S \<and> schema_ok S \<and> ks_key_len S = n"
proof -
  have p: "distinct p" "set p = {..<length p}" "length p = n"
    using assms(4) by (metis distinct_sort distinct_upt, metis atLeast_upt length_sort length_upt diff_zero set_sort, metis length_sort length_upt diff_zero)
  obtain q where "invert p = Some q" "length q = n" "\<forall>i < n. q ! (p ! i) = i" "\<forall>d < n. q ! d < n \<and> p ! (q ! d) = d"
    using invert_permutation [OF p(1,2)] p(3) by auto
  moreover have "\<forall>i < n. p ! i < n" using p by (metis lessThan_iff nth_mem)
  ultimately show ?thesis using assms(1-3) p(3) by (auto simp: key_schema_of_def schema_ok_def Let_def)
qed

lemma identity_schema_ok: "\<exists>S. identity_schema n = Some S \<and> schema_ok S \<and> ks_key_len S = n"
proof -
  have "\<exists>m. identity_map n = Some m \<and> length m = n \<and> (\<forall>i < length [0..<n]. m ! i = i)"
    unfolding identity_map_def
  proof (rule for_each_invariant [where I = "\<lambda>k m. length m = n \<and> (\<forall>i < k. m ! i = i)", simplified])
  qed (auto simp: less_Suc_eq)
  then show ?thesis by (auto simp: identity_schema_def schema_ok_def Let_def)
qed

text \<open>The ends of the segments, read off the segments in tree order.\<close>

lemma segment_ends_eq:
  assumes ok: "schema_ok S"
  shows "segment_ends S = Some (let segs = map ((!) (ks_segments S)) (ks_tree_to_key S) in
    map (\<lambda>d. d + 1 + length (takeWhile (\<lambda>s. s = segs ! d) (drop (d + 1) segs))) [0..<ks_key_len S])"
proof -
  let ?n = "ks_key_len S" and ?segs = "map ((!) (ks_segments S)) (ks_tree_to_key S)"
  let ?e = "\<lambda>d. d + 1 + length (takeWhile (\<lambda>s. s = ?segs ! d) (drop (d + 1) ?segs))"
  let ?I = "\<lambda>k ends. length ends = ?n \<and> (\<forall>i < k. ends ! i = ?e i)"
  note p = schema_perms(4,8,9) [OF ok]
  have ahead: "map_panic (\<lambda>e. do { k' \<leftarrow> idx (ks_tree_to_key S) e; idx (ks_segments S) k' }) [d + 1..<?n] = Some (drop (d + 1) ?segs)" for d
  proof -
    have "map_panic (\<lambda>e. do { k' \<leftarrow> idx (ks_tree_to_key S) e; idx (ks_segments S) k' }) [d + 1..<?n] = Some (map ((!) ?segs) [d + 1..<?n])"
      using p by (intro map_panic_Some) auto
    also have "map ((!) ?segs) [d + 1..<?n] = drop (d + 1) ?segs" using p(1) by (intro nth_equalityI) auto
    finally show ?thesis .
  qed
  have "\<exists>ends. segment_ends S = Some ends \<and> ?I (length [0..<?n]) ends"
    unfolding segment_ends_def build_segment_ends_def p(3) Let_def
  proof (rule for_each_invariant)
    show "?I 0 (replicate ?n 0)" by simp
    fix k ends assume "k < length [0..<?n]" "?I k ends"
    then show "\<exists>s'. do { ka \<leftarrow> idx (ks_tree_to_key S) ([0..<?n] ! k); seg \<leftarrow> idx (ks_segments S) ka;
        ahead \<leftarrow> map_panic (\<lambda>e. do { k' \<leftarrow> idx (ks_tree_to_key S) e; idx (ks_segments S) k' }) [[0..<?n] ! k + 1..<?n];
        idx_update ends ([0..<?n] ! k) ([0..<?n] ! k + 1 + length (takeWhile (\<lambda>s. s = seg) ahead)) } = Some s' \<and> ?I (Suc k) s'"
      using p ahead [of k] by (simp add: less_Suc_eq)
  qed
  then show ?thesis by (auto simp: Let_def simp del: add_Suc_right Suc_eq_plus1 intro!: nth_equalityI)
qed

text \<open>The end of the run of equal elements that starts at an index.\<close>

lemma run_end:
  fixes xs :: "'a list" and d :: nat
  defines "e \<equiv> d + 1 + length (takeWhile (\<lambda>s. s = xs ! d) (drop (d + 1) xs))"
  assumes d: "d < length xs"
  shows "d < e" "e \<le> length xs" "d \<le> k \<Longrightarrow> k < e \<Longrightarrow> xs ! k = xs ! d" "e < length xs \<Longrightarrow> xs ! e \<noteq> xs ! d"
proof -
  let ?w = "takeWhile (\<lambda>s. s = xs ! d) (drop (d + 1) xs)"
  show "d < e" by (simp add: e_def)
  show le: "e \<le> length xs" using length_takeWhile_le [of "\<lambda>s. s = xs ! d" "drop (d + 1) xs"] d by (simp add: e_def)
  show "xs ! k = xs ! d" if k: "d \<le> k" "k < e"
  proof (cases "k = d")
    case False
    then have i: "k - (d + 1) < length ?w" using k by (simp add: e_def)
    then have "?w ! (k - (d + 1)) = xs ! k" using k False le by (simp add: takeWhile_nth)
    then show ?thesis using nth_mem [OF i] by (metis set_takeWhileD)
  qed simp
  show "xs ! e \<noteq> xs ! d" if "e < length xs"
    using nth_length_takeWhile [of "\<lambda>s. s = xs ! d" "drop (d + 1) xs"] that by (simp add: e_def add.assoc)
qed

section \<open>The layout of the six orders\<close>

text \<open>The segments of a trible, each in its place.\<close>

definition trible_bytes :: "u8 list \<Rightarrow> u8 list \<Rightarrow> u8 list \<Rightarrow> bool" where
  "trible_bytes e a v \<longleftrightarrow> length e = 16 \<and> length a = 16 \<and> length v = 32"

lemma trible_slices:
  assumes "trible_bytes e a v"
  shows "map ((!) (e @ a @ v)) [0..<16] = e" "map ((!) (e @ a @ v)) [16..<32] = a" "map ((!) (e @ a @ v)) [32..<64] = v"
  using assms by (auto simp: trible_bytes_def nth_append simp del: upt_rec_numeral intro!: nth_equalityI)

lemma ordered_by_table:
  assumes "ord = Some S" "schema_ok S" "ks_tree_to_key S = t2k" "length key = ks_key_len S"
  shows "ord \<bind> (\<lambda>S. tree_ordered S key) = Some (map ((!) key) t2k)"
    and "ord \<bind> (\<lambda>S. key_ordered S (map ((!) key) t2k)) = Some key"
proof -
  obtain t where t: "tree_ordered S key = Some t" "length t = ks_key_len S" "\<forall>d < ks_key_len S. t ! d = key ! (ks_tree_to_key S ! d)"
    "key_ordered S t = Some key"
    using reorder_round_trip [OF assms(2,4)] by blast
  have "t = map ((!) key) t2k" using t(2,3) assms(3) schema_perms(4) [OF assms(2)] by (auto intro: nth_equalityI)
  then show "ord \<bind> (\<lambda>S. tree_ordered S key) = Some (map ((!) key) t2k)" "ord \<bind> (\<lambda>S. key_ordered S (map ((!) key) t2k)) = Some key"
    using t assms(1) by simp_all
qed

lemma trible_schema_tables:
  "build_segmentation 64 [16, 16, 32] = Some (replicate 16 0 @ replicate 16 1 @ replicate 32 2)"
  "map_option sort (build_key_to_tree 64 [16, 16, 32] [0, 1, 2]) = Some [0..<64]"
  "map_option sort (build_key_to_tree 64 [16, 16, 32] [0, 2, 1]) = Some [0..<64]"
  "map_option sort (build_key_to_tree 64 [16, 16, 32] [1, 0, 2]) = Some [0..<64]"
  "map_option sort (build_key_to_tree 64 [16, 16, 32] [1, 2, 0]) = Some [0..<64]"
  "map_option sort (build_key_to_tree 64 [16, 16, 32] [2, 0, 1]) = Some [0..<64]"
  "map_option sort (build_key_to_tree 64 [16, 16, 32] [2, 1, 0]) = Some [0..<64]"
  by code_simp+

lemma trible_tree_to_key:
  "map_option ks_tree_to_key eav_order = Some ([0..<16] @ [16..<32] @ [32..<64])"
  "map_option ks_tree_to_key eva_order = Some ([0..<16] @ [32..<64] @ [16..<32])"
  "map_option ks_tree_to_key aev_order = Some ([16..<32] @ [0..<16] @ [32..<64])"
  "map_option ks_tree_to_key ave_order = Some ([16..<32] @ [32..<64] @ [0..<16])"
  "map_option ks_tree_to_key vea_order = Some ([32..<64] @ [0..<16] @ [16..<32])"
  "map_option ks_tree_to_key vae_order = Some ([32..<64] @ [16..<32] @ [0..<16])"
  by code_simp+

lemma trible_order_ok:
  assumes "ord \<in> {eav_order, eva_order, aev_order, ave_order, vea_order, vae_order}"
  shows "\<exists>S. ord = Some S \<and> schema_ok S \<and> ks_key_len S = 64"
proof -
  have "\<exists>S. key_schema_of 64 [16, 16, 32] perm = Some S \<and> schema_ok S \<and> ks_key_len S = 64"
    if "map_option sort (build_key_to_tree 64 [16, 16, 32] perm) = Some [0..<64]" for perm
    using that key_schema_of_ok [OF trible_schema_tables(1)] by auto
  then show ?thesis
    using assms trible_schema_tables(2-) by (auto simp: eav_order_def eva_order_def aev_order_def ave_order_def vea_order_def vae_order_def trible_len_def trible_segmentation_def)
qed

lemma trible_order_layout:
  assumes "ord \<in> {eav_order, eva_order, aev_order, ave_order, vea_order, vae_order}" "map_option ks_tree_to_key ord = Some t2k" "trible_bytes e a v"
  shows "ord \<bind> (\<lambda>S. tree_ordered S (e @ a @ v)) = Some (map ((!) (e @ a @ v)) t2k)
    \<and> ord \<bind> (\<lambda>S. key_ordered S (map ((!) (e @ a @ v)) t2k)) = Some (e @ a @ v)"
proof -
  obtain S where S: "ord = Some S" "schema_ok S" "ks_key_len S = 64" using trible_order_ok [OF assms(1)] by blast
  moreover have "ks_tree_to_key S = t2k" "length (e @ a @ v) = ks_key_len S" using assms(2,3) S(1,3) by (simp_all add: trible_bytes_def)
  ultimately show ?thesis using ordered_by_table by blast
qed

section \<open>Properties\<close>

text \<open>
  C31. The six key orders of tribles. For a trible made of the 16 bytes of its entity, the 16 bytes of
  its attribute and the 32 bytes of its value, each schema's \<open>tree_ordered\<close> yields the three segments in
  the order the schema is named after, without a panic, and \<open>key_ordered\<close> turns that back into the trible.
\<close>

theorem trible_orders_layout:
  assumes "trible_bytes e a v"
  shows "eav_order \<bind> (\<lambda>S. tree_ordered S (e @ a @ v)) = Some (e @ a @ v) \<and> eav_order \<bind> (\<lambda>S. key_ordered S (e @ a @ v)) = Some (e @ a @ v)
    \<and> eva_order \<bind> (\<lambda>S. tree_ordered S (e @ a @ v)) = Some (e @ v @ a) \<and> eva_order \<bind> (\<lambda>S. key_ordered S (e @ v @ a)) = Some (e @ a @ v)
    \<and> aev_order \<bind> (\<lambda>S. tree_ordered S (e @ a @ v)) = Some (a @ e @ v) \<and> aev_order \<bind> (\<lambda>S. key_ordered S (a @ e @ v)) = Some (e @ a @ v)
    \<and> ave_order \<bind> (\<lambda>S. tree_ordered S (e @ a @ v)) = Some (a @ v @ e) \<and> ave_order \<bind> (\<lambda>S. key_ordered S (a @ v @ e)) = Some (e @ a @ v)
    \<and> vea_order \<bind> (\<lambda>S. tree_ordered S (e @ a @ v)) = Some (v @ e @ a) \<and> vea_order \<bind> (\<lambda>S. key_ordered S (v @ e @ a)) = Some (e @ a @ v)
    \<and> vae_order \<bind> (\<lambda>S. tree_ordered S (e @ a @ v)) = Some (v @ a @ e) \<and> vae_order \<bind> (\<lambda>S. key_ordered S (v @ a @ e)) = Some (e @ a @ v)"
  using trible_order_layout [OF _ trible_tree_to_key(1) assms] trible_order_layout [OF _ trible_tree_to_key(2) assms]
    trible_order_layout [OF _ trible_tree_to_key(3) assms] trible_order_layout [OF _ trible_tree_to_key(4) assms]
    trible_order_layout [OF _ trible_tree_to_key(5) assms] trible_order_layout [OF _ trible_tree_to_key(6) assms]
  by (simp add: trible_slices [OF assms] del: upt_rec_numeral)

theorem trible_orders_layout_witness:
  "vae_order \<bind> (\<lambda>S. tree_ordered S (replicate 16 1 @ replicate 16 2 @ replicate 32 3)) = Some (replicate 32 3 @ replicate 16 2 @ replicate 16 1)"
  using trible_orders_layout [of "replicate 16 1" "replicate 16 2" "replicate 32 3"] by (simp add: trible_bytes_def del: replicate.simps)

text \<open>
  The segment boundaries of a schema: at every tree depth \<open>next_boundary\<close> returns the end of the run
  of depths that lie in the same segment, so a walk that stops there never crosses into another segment.
\<close>

theorem next_boundary_correct:
  assumes ok: "schema_ok S" and d: "d < ks_key_len S"
  shows "\<exists>e. next_boundary S d = Some e \<and> d < e \<and> e \<le> ks_key_len S
    \<and> (\<forall>k. d \<le> k \<longrightarrow> k < e \<longrightarrow> same_segment_tree S d k = Some True)
    \<and> (e < ks_key_len S \<longrightarrow> same_segment_tree S d e = Some False)"
proof -
  define segs where "segs = map ((!) (ks_segments S)) (ks_tree_to_key S)"
  have len: "length segs = ks_key_len S" using schema_perms(4) [OF ok] by (simp add: segs_def)
  have same: "same_segment_tree S d k = Some (segs ! d = segs ! k)" if "k < ks_key_len S" for k
    using that d schema_perms(4,8,9) [OF ok] by (simp add: same_segment_tree_def segment_of_tree_depth_def segs_def)
  define e where "e = d + 1 + length (takeWhile (\<lambda>s. s = segs ! d) (drop (d + 1) segs))"
  have "next_boundary S d = Some e"
    using segment_ends_eq [OF ok] d by (simp add: next_boundary_def Let_def segs_def e_def)
  moreover note run = run_end [of d segs, folded e_def, unfolded len, OF d]
  moreover have "same_segment_tree S d k = Some True" if "d \<le> k" "k < e" for k
    using same [of k] run(2) run(3) [OF that] that by simp
  moreover have "same_segment_tree S d e = Some False" if "e < ks_key_len S"
    using same [OF that] run(4) [OF that] by simp
  ultimately show ?thesis by blast
qed

theorem next_boundary_correct_witness:
  "\<exists>S. vea_order = Some S \<and> (\<exists>e. next_boundary S 40 = Some e \<and> 40 < e \<and> e \<le> 64)"
proof -
  obtain S where "vea_order = Some S" "schema_ok S" "ks_key_len S = 64" using trible_order_ok [of vea_order] by auto
  then show ?thesis using next_boundary_correct [of S 40] by auto
qed

end
