(* ===== verification/Patch_Head.thy ===== *)
theory Patch_Head
  imports Byte_Table Key_Schema
begin

text \<open>
  The nodes of a PATCH (\<open>patch.rs\<close>, \<open>patch/branch.rs\<close>, \<open>patch/leaf.rs\<close>) and the operations that change
  them: a path-compressed trie over the bytes of a key in tree order. A \<open>Head\<close> is a tagged pointer with a
  key byte; here it is the node with that byte. Nodes are shared by reference count and copied on write,
  so they are values. The pointer \<open>childleaf\<close> to the key of some leaf below a branch is that key: no two
  leaves of a tree have the same key, so comparing pointers is comparing keys.

  The summary policy is the default \<open>XorSip128\<close>: the digest of a branch is the exclusive or of the
  digests of its leaves. The keyed SipHash of a leaf and the random permutation of the child tables come
  from libraries; together with the key schema they are the environment of a PATCH.
\<close>

section \<open>Nodes\<close>

record patch_env =
  pe_schema :: key_schema
  pe_rand :: "u8 \<Rightarrow> u8"
  pe_leaf_hash :: "u8 list \<Rightarrow> u128"

abbreviation key_len :: "patch_env \<Rightarrow> nat" where
  "key_len P \<equiv> ks_key_len (pe_schema P)"

text \<open>
  A \<open>LocalLeaf\<close> points at a key inside an archive; it exists only where the value type is \<open>()\<close>, and its
  last field is the static unit that the accessors return.
\<close>

datatype 'v head =
  Leaf (hd_byte: u8) (lf_key: "u8 list") (lf_hash: u128) (lf_value: 'v)
| LocalLeaf (hd_byte: u8) (ll_bytes: "u8 list") (ll_value: 'v)
| Branch (hd_byte: u8) (br_end_depth: nat) (br_childleaf: "u8 list") (br_leaf_count: nat) (br_segment_count: nat)
    (br_hash: u128) (br_table: "'v head option list")

fun with_key :: "'v head \<Rightarrow> u8 \<Rightarrow> 'v head" where
  "with_key (Leaf _ k h v) b = Leaf b k h v"
| "with_key (LocalLeaf _ k v) b = LocalLeaf b k v"
| "with_key (Branch _ e cl lc sc h t) b = Branch b e cl lc sc h t"

fun head_count :: "'v head \<Rightarrow> nat" where
  "head_count (Leaf _ _ _ _) = 1"
| "head_count (LocalLeaf _ _ _) = 1"
| "head_count (Branch _ _ _ lc _ _ _) = lc"

fun count_segment :: "patch_env \<Rightarrow> 'v head \<Rightarrow> nat \<Rightarrow> nat option" where
  "count_segment P (Leaf _ _ _ _) d = Some 1"
| "count_segment P (LocalLeaf _ _ _) d = Some 1"
| "count_segment P (Branch _ e _ _ sc _ _) d = do {
     same \<leftarrow> same_segment_tree (pe_schema P) d e;
     Some (if \<not> same then 1 else sc)
   }"

fun head_hash :: "patch_env \<Rightarrow> 'v head \<Rightarrow> u128" where
  "head_hash P (Leaf _ _ h _) = h"
| "head_hash P (LocalLeaf _ bytes _) = pe_leaf_hash P bytes"
| "head_hash P (Branch _ _ _ _ _ h _) = h"

fun head_end_depth :: "patch_env \<Rightarrow> 'v head \<Rightarrow> nat" where
  "head_end_depth P (Leaf _ _ _ _) = key_len P"
| "head_end_depth P (LocalLeaf _ _ _) = key_len P"
| "head_end_depth P (Branch _ e _ _ _ _ _) = e"

fun childleaf_key :: "'v head \<Rightarrow> u8 list" where
  "childleaf_key (Leaf _ k _ _) = k"
| "childleaf_key (LocalLeaf _ k _) = k"
| "childleaf_key (Branch _ _ cl _ _ _ _) = cl"

fun head_table :: "'v head \<Rightarrow> 'v head option list" where
  "head_table (Branch _ _ _ _ _ _ t) = t"
| "head_table _ = []"

definition leaf_new :: "patch_env \<Rightarrow> u8 list \<Rightarrow> 'v \<Rightarrow> 'v head" where
  "leaf_new P key v = Leaf 0 key (pe_leaf_hash P key) v"

definition local_leaf_new :: "u8 list \<Rightarrow> 'v \<Rightarrow> 'v head" where
  "local_leaf_new bytes v = LocalLeaf 0 bytes v"

section \<open>The summary policy\<close>

definition xor_begin_branch :: u128 where
  "xor_begin_branch = 0"

definition xor_push_child :: "u128 \<Rightarrow> u128 \<Rightarrow> u128" where
  "xor_push_child state digest = state XOR digest"

definition xor_finish_branch :: "u128 \<Rightarrow> u128" where
  "xor_finish_branch state = state"

definition xor_edit_branch :: "u128 \<Rightarrow> u128 option \<Rightarrow> u128 option \<Rightarrow> u128" where
  "xor_edit_branch current old new =
     (let c1 = (case old of None \<Rightarrow> current | Some o1 \<Rightarrow> current XOR o1)
      in case new of None \<Rightarrow> c1 | Some n1 \<Rightarrow> c1 XOR n1)"

section \<open>Key bytes in tree order\<close>

definition tree_byte :: "key_schema \<Rightarrow> u8 list \<Rightarrow> nat \<Rightarrow> u8 option" where
  "tree_byte S key d = do { i \<leftarrow> idx (ks_tree_to_key S) d; idx key i }"

definition with_start :: "patch_env \<Rightarrow> 'v head \<Rightarrow> nat \<Rightarrow> 'v head option" where
  "with_start P h d = do { b \<leftarrow> tree_byte (pe_schema P) (childleaf_key h) d; Some (with_key h b) }"

text \<open>\<open>find_map\<close> with a body that can panic.\<close>

fun find_map_panic :: "('a \<Rightarrow> 'b option option) \<Rightarrow> 'a list \<Rightarrow> 'b option option" where
  "find_map_panic f [] = Some None"
| "find_map_panic f (x # xs) = Option.bind (f x) (\<lambda>r. case r of Some y \<Rightarrow> Some (Some y) | None \<Rightarrow> find_map_panic f xs)"

definition first_divergence :: "patch_env \<Rightarrow> 'v head \<Rightarrow> 'w head \<Rightarrow> nat \<Rightarrow> (nat \<times> u8 \<times> u8) option option" where
  "first_divergence P this other start_depth = (let limit = min (min (head_end_depth P this) (head_end_depth P other)) (key_len P) in
     find_map_panic (\<lambda>d. do {
       a \<leftarrow> tree_byte (pe_schema P) (childleaf_key this) d;
       b \<leftarrow> tree_byte (pe_schema P) (childleaf_key other) d;
       Some (if a \<noteq> b then Some (d, a, b) else None)
     }) [start_depth..<limit])"

text \<open>\<open>key_ops\<close>: the comparison of the bytes of one key with a prefix.\<close>

definition key_has_prefix :: "key_schema \<Rightarrow> u8 list \<Rightarrow> nat \<Rightarrow> u8 list \<Rightarrow> bool option" where
  "key_has_prefix S key at_depth prefix =
     all_panic (\<lambda>d. do { b \<leftarrow> tree_byte S key d; Some (b = prefix ! d) }) [at_depth..<min (length prefix) (ks_key_len S)]"

definition key_matches :: "key_schema \<Rightarrow> u8 list \<Rightarrow> nat \<Rightarrow> u8 list \<Rightarrow> bool option" where
  "key_matches S key at_depth query =
     all_panic (\<lambda>d. do { b \<leftarrow> tree_byte S key d; Some (b = query ! d) }) [at_depth..<min (length query) (ks_key_len S)]"

section \<open>Branches\<close>

text \<open>\<open>Head::new(byte, Branch::new(end_depth, lchild, rchild))\<close>.\<close>

definition hash_two_children :: "u128 \<Rightarrow> u128 \<Rightarrow> u128" where
  "hash_two_children lhash rhash = xor_finish_branch (xor_push_child (xor_push_child xor_begin_branch lhash) rhash)"

definition branch_new_with_rchild_hash :: "patch_env \<Rightarrow> u8 \<Rightarrow> nat \<Rightarrow> 'v head \<Rightarrow> 'v head \<Rightarrow> u128 \<Rightarrow> 'v head option" where
  "branch_new_with_rchild_hash P byte end_depth lchild rchild rchild_hash = do {
     lseg \<leftarrow> count_segment P lchild end_depth;
     rseg \<leftarrow> count_segment P rchild end_depth;
     Some (Branch byte end_depth (childleaf_key lchild) (head_count lchild + head_count rchild) (lseg + rseg)
       (hash_two_children (head_hash P lchild) rchild_hash) [Some lchild, Some rchild])
   }"

definition branch_new :: "patch_env \<Rightarrow> u8 \<Rightarrow> nat \<Rightarrow> 'v head \<Rightarrow> 'v head \<Rightarrow> 'v head option" where
  "branch_new P byte end_depth lchild rchild =
     branch_new_with_rchild_hash P byte end_depth lchild rchild (head_hash P rchild)"

text \<open>
  \<open>Branch::modify_child\<close> and its variant with a known digest: the closure maps the child under the byte
  to its replacement and may return something else beside it, the variable it captures. The digest is
  always current under this policy.
\<close>

definition modify_child_with ::
  "patch_env \<Rightarrow> ('v head \<Rightarrow> u128) \<Rightarrow> 'v head \<Rightarrow> u8 \<Rightarrow> ('v head option \<Rightarrow> ('r \<times> 'v head option) option) \<Rightarrow> ('r \<times> 'v head) option" where
  "modify_child_with P inserted_hash this key f = (case this of
     Branch byte e cl lc sc h t \<Rightarrow> do {
       slot \<leftarrow> table_get_slot (pe_rand P) hd_byte t key;
       case slot of
         Some i \<Rightarrow> do {
           entry \<leftarrow> idx t i;
           child \<leftarrow> entry;
           old_seg \<leftarrow> count_segment P child e;
           let replaced_childleaf = (childleaf_key child = cl);
           (r, res) \<leftarrow> f (Some child);
           case res of
             Some new_child \<Rightarrow> do {
               new_seg \<leftarrow> count_segment P new_child e;
               Some (r, Branch byte e (if replaced_childleaf then childleaf_key new_child else cl)
                 ((lc - head_count child) + head_count new_child) ((sc - old_seg) + new_seg)
                 (xor_edit_branch h (Some (head_hash P child)) (Some (head_hash P new_child)))
                 (t[i := Some (with_key new_child key)]))
             }
           | None \<Rightarrow> do {
               let t' = t[i := None];
               let cl' = (case table_entries t' of other # _ \<Rightarrow> childleaf_key other | [] \<Rightarrow> cl);
               Some (r, Branch byte e (if replaced_childleaf then cl' else cl) (lc - head_count child) (sc - old_seg)
                 (xor_edit_branch h (Some (head_hash P child)) None) t')
             }
         }
       | None \<Rightarrow> do {
           (r, res) \<leftarrow> f None;
           case res of
             Some inserted \<Rightarrow> do {
               seg \<leftarrow> count_segment P inserted e;
               grown \<leftarrow> table_insert_growing 8 (pe_rand P) hd_byte t inserted;
               t' \<leftarrow> grown;
               Some (r, Branch byte e cl (lc + head_count inserted) (sc + seg)
                 (xor_edit_branch h None (Some (inserted_hash inserted))) t')
             }
           | None \<Rightarrow> Some (r, this)
         }
     }
   | _ \<Rightarrow> None)"

definition modify_child ::
  "patch_env \<Rightarrow> 'v head \<Rightarrow> u8 \<Rightarrow> ('v head option \<Rightarrow> ('r \<times> 'v head option) option) \<Rightarrow> ('r \<times> 'v head) option" where
  "modify_child P this key f = modify_child_with P (head_hash P) this key f"

definition modify_child_with_inserted_hint ::
  "patch_env \<Rightarrow> 'v head \<Rightarrow> u8 \<Rightarrow> u128 \<Rightarrow> ('v head option \<Rightarrow> ('r \<times> 'v head option) option) \<Rightarrow> ('r \<times> 'v head) option" where
  "modify_child_with_inserted_hint P this key hint f = modify_child_with P (\<lambda>_. hint) this key f"

text \<open>The recursion of the operations goes to a child in the table.\<close>

lemma modify_child_with_cong:
  assumes "\<And>c. Some c \<in> set (head_table this) \<Longrightarrow> f (Some c) = g (Some c)" "f None = g None"
  shows "modify_child_with P ih this key f = modify_child_with P ih this key g"
proof (cases this)
  case (Branch byte e cl lc sc h t)
  have "f (Some c) = g (Some c)" if "idx t i = Some (Some c)" for i c
    using that assms(1) [of c] Branch by (auto simp: idx_def split: if_splits) (metis nth_mem)
  then show ?thesis using assms(2) Branch
    by (auto simp: modify_child_with_def Let_def split: option.splits intro!: Option.bind_cong)
qed (simp_all add: modify_child_with_def)

lemma modify_child_cong [fundef_cong]:
  assumes "P = P'" "this = this'" "key = key'"
    "\<And>c. Some c \<in> set (head_table this') \<Longrightarrow> f (Some c) = g (Some c)" "f None = g None"
  shows "modify_child P this key f = modify_child P' this' key' g"
  unfolding modify_child_def assms(1-3) using assms(4,5) by (rule modify_child_with_cong)

lemma modify_child_with_inserted_hint_cong [fundef_cong]:
  assumes "P = P'" "this = this'" "key = key'" "hint = hint'"
    "\<And>c. Some c \<in> set (head_table this') \<Longrightarrow> f (Some c) = g (Some c)" "f None = g None"
  shows "modify_child_with_inserted_hint P this key hint f = modify_child_with_inserted_hint P' this' key' hint' g"
  unfolding modify_child_with_inserted_hint_def assms(1-4) using assms(5,6) by (rule modify_child_with_cong)

lemma child_size: "Some c \<in> set (head_table h) \<Longrightarrow> size c < size h"
proof (cases h)
  case (Branch b e cl lc sc hs t)
  assume "Some c \<in> set (head_table h)"
  then have "Some c \<in> set t" using Branch by simp
  then have "size_option size (Some c) \<le> size_list (size_option size) t" by (rule size_list_estimation') simp
  then show ?thesis using Branch by simp
qed simp_all

section \<open>Insertion and replacement\<close>

function insert_leaf :: "patch_env \<Rightarrow> 'v head \<Rightarrow> 'v head \<Rightarrow> nat \<Rightarrow> 'v head option" where
  "insert_leaf P this leaf start_depth = do {
     divergence \<leftarrow> first_divergence P this leaf start_depth;
     case divergence of
       Some (depth, this_byte_key, leaf_byte_key) \<Rightarrow>
         branch_new P (hd_byte this) depth (with_key this this_byte_key) (with_key leaf leaf_byte_key)
     | None \<Rightarrow>
         (let end_depth = head_end_depth P this in
          if end_depth \<noteq> key_len P then do {
            inserted \<leftarrow> with_start P leaf end_depth;
            (_, this') \<leftarrow> modify_child P this (hd_byte inserted) (\<lambda>opt. case opt of
                Some old \<Rightarrow> do { h \<leftarrow> insert_leaf P old inserted end_depth; Some ((), Some h) }
              | None \<Rightarrow> Some ((), Some inserted));
            Some this'
          } else Some this)
   }"
  by pat_completeness auto
termination
  by (relation "measure (\<lambda>(P, this, leaf, d). size this)") (auto dest: child_size)

declare insert_leaf.simps [simp del]

function insert_archive_leaf :: "patch_env \<Rightarrow> 'v head \<Rightarrow> 'v head \<Rightarrow> u128 \<Rightarrow> nat \<Rightarrow> 'v head option" where
  "insert_archive_leaf P this leaf leaf_hash start_depth = do {
     divergence \<leftarrow> first_divergence P this leaf start_depth;
     case divergence of
       Some (depth, this_byte_key, leaf_byte_key) \<Rightarrow>
         branch_new_with_rchild_hash P (hd_byte this) depth (with_key this this_byte_key) (with_key leaf leaf_byte_key) leaf_hash
     | None \<Rightarrow>
         (let end_depth = head_end_depth P this in
          if end_depth \<noteq> key_len P then do {
            inserted \<leftarrow> with_start P leaf end_depth;
            (_, this') \<leftarrow> modify_child_with_inserted_hint P this (hd_byte inserted) leaf_hash (\<lambda>opt. case opt of
                None \<Rightarrow> Some ((), Some inserted)
              | Some old \<Rightarrow> do { h \<leftarrow> insert_archive_leaf P old inserted leaf_hash end_depth; Some ((), Some h) });
            Some this'
          } else Some this)
   }"
  by pat_completeness auto
termination
  by (relation "measure (\<lambda>(P, this, leaf, h, d). size this)") (auto dest: child_size)

declare insert_archive_leaf.simps [simp del]

text \<open>The second result of \<open>replace_leaf\<close> is the leaf that was replaced.\<close>

function replace_leaf :: "patch_env \<Rightarrow> 'v head \<Rightarrow> 'v head \<Rightarrow> nat \<Rightarrow> ('v head \<times> 'v head option) option" where
  "replace_leaf P this leaf start_depth = do {
     divergence \<leftarrow> first_divergence P this leaf start_depth;
     case divergence of
       Some (depth, this_byte_key, leaf_byte_key) \<Rightarrow> do {
         h \<leftarrow> branch_new P (hd_byte this) depth (with_key this this_byte_key) (with_key leaf leaf_byte_key);
         Some (h, None)
       }
     | None \<Rightarrow>
         (let end_depth = head_end_depth P this in
          if end_depth = key_len P then Some (with_key leaf (hd_byte this), Some this)
          else do {
            inserted \<leftarrow> with_start P leaf end_depth;
            (retired, this') \<leftarrow> modify_child P this (hd_byte inserted) (\<lambda>opt. case opt of
                Some old \<Rightarrow> do { (h, retired) \<leftarrow> replace_leaf P old inserted end_depth; Some (retired, Some h) }
              | None \<Rightarrow> Some (None, Some inserted));
            Some (this', retired)
          })
   }"
  by pat_completeness auto
termination
  by (relation "measure (\<lambda>(P, this, leaf, d). size this)") (auto dest: child_size)

declare replace_leaf.simps [simp del]

section \<open>Descent along a key\<close>

text \<open>
  The lookups share one walk: compare the compressed path with the prefix, then look up the child under
  the next byte. The recursion goes through \<open>child_table.table_get\<close>.
\<close>

definition child_get :: "patch_env \<Rightarrow> 'v head \<Rightarrow> u8 \<Rightarrow> 'v head option option" where
  "child_get P h b = table_get (pe_rand P) hd_byte (head_table h) b"

lemma child_get_size: "child_get P h b = Some (Some c) \<Longrightarrow> size c < size h"
proof (rule child_size)
  assume "child_get P h b = Some (Some c)"
  then obtain i where "idx (head_table h) i = Some (Some c)"
    by (auto simp: child_get_def table_get_def Option.bind_eq_Some_conv split: option.splits)
  then show "Some c \<in> set (head_table h)" by (metis idx_SomeD nth_mem)
qed

function head_has_prefix :: "patch_env \<Rightarrow> 'v head \<Rightarrow> nat \<Rightarrow> u8 list \<Rightarrow> bool option" where
  "head_has_prefix P h at_depth prefix = (case h of
     Leaf _ k _ _ \<Rightarrow> key_has_prefix (pe_schema P) k at_depth prefix
   | LocalLeaf _ k _ \<Rightarrow> key_has_prefix (pe_schema P) k at_depth prefix
   | Branch _ e cl _ _ _ t \<Rightarrow> do {
       ok \<leftarrow> key_has_prefix (pe_schema P) cl at_depth (take (min (length prefix) e) prefix);
       if \<not> ok then Some False
       else if length prefix \<le> e then Some True
       else do {
         child \<leftarrow> child_get P h (prefix ! e);
         case child of Some c \<Rightarrow> head_has_prefix P c e prefix | None \<Rightarrow> Some False
       }
     })"
  by pat_completeness auto
termination
  by (relation "measure (\<lambda>(P, h, d, p). size h)") (auto dest: child_get_size)

declare head_has_prefix.simps [simp del]

section \<open>Removal\<close>

text \<open>The slot after the removal, and the heap leaf that was detached.\<close>

function remove_leaf :: "patch_env \<Rightarrow> 'v head option \<Rightarrow> u8 list \<Rightarrow> nat \<Rightarrow> ('v head option \<times> 'v head option) option" where
  "remove_leaf P slot leaf_key start_depth = (case slot of
     None \<Rightarrow> Some (None, None)
   | Some this \<Rightarrow> do {
       let end_depth = min (head_end_depth P this) (key_len P);
       ok \<leftarrow> head_has_prefix P this start_depth leaf_key;
       if \<not> ok then Some (None, Some this)
       else case this of
         Leaf _ _ _ _ \<Rightarrow> Some (Some this, None)
       | LocalLeaf _ _ _ \<Rightarrow> Some (None, None)
       | Branch _ _ _ _ _ _ _ \<Rightarrow> do {
           key \<leftarrow> idx leaf_key end_depth;
           (retired_leaf, this') \<leftarrow> modify_child P this key (\<lambda>opt. remove_leaf P opt leaf_key end_depth);
           case table_entries (head_table this') of
             [] \<Rightarrow> Some (retired_leaf, None)
           | [child] \<Rightarrow> do { remaining \<leftarrow> with_start P child start_depth; Some (retired_leaf, Some remaining) }
           | _ \<Rightarrow> Some (retired_leaf, Some this')
         }
     })"
  by pat_completeness auto
termination
  by (relation "measure (\<lambda>(P, slot, k, d). case slot of None \<Rightarrow> 0 | Some h \<Rightarrow> Suc (size h))") (auto dest: child_size [of _ "Branch _ _ _ _ _ _ _", simplified])

declare remove_leaf.simps [simp del]

end
