(* ===== verification/Patch_Invariant.thy ===== *)
theory Patch_Invariant
  imports Patch_Head
begin

text \<open>
  The invariant of PATCH nodes and the map they stand for. The map is read off the leaves; the invariant
  says that the keys below a branch agree on the bytes in tree order up to its depth, that its children
  are told apart by the byte at that depth, and that the cached count, segment count, digest and
  representative key are those of the children. The lemmas say what inserting into a branch, replacing
  one of its children and taking one away do to the map.
\<close>

section \<open>Bytes in tree order\<close>

definition env_ok :: "patch_env \<Rightarrow> bool" where
  "env_ok P \<longleftrightarrow> schema_ok (pe_schema P)"

definition tbyte :: "patch_env \<Rightarrow> u8 list \<Rightarrow> nat \<Rightarrow> u8" where
  "tbyte P k d = k ! (ks_tree_to_key (pe_schema P) ! d)"

definition agree :: "patch_env \<Rightarrow> nat \<Rightarrow> u8 list \<Rightarrow> u8 list \<Rightarrow> bool" where
  "agree P m k k' \<longleftrightarrow> (\<forall>j < m. tbyte P k j = tbyte P k' j)"

lemma agree_refl [simp]: "agree P m k k"
  and agree_sym: "agree P m k k' \<Longrightarrow> agree P m k' k"
  and agree_trans: "agree P m k k' \<Longrightarrow> agree P m k' k'' \<Longrightarrow> agree P m k k''"
  and agree_mono: "agree P m k k' \<Longrightarrow> m' \<le> m \<Longrightarrow> agree P m' k k'"
  and agree_Suc: "agree P (Suc m) k k' \<longleftrightarrow> agree P m k k' \<and> tbyte P k m = tbyte P k' m"
  by (auto simp: agree_def less_Suc_eq)

lemma tree_byte_in:
  assumes "env_ok P" "length k = key_len P" "d < key_len P"
  shows "tree_byte (pe_schema P) k d = Some (tbyte P k d)"
  using schema_perms(4,8) [of "pe_schema P"] assms by (simp add: tree_byte_def tbyte_def env_ok_def)

text \<open>Two keys that agree everywhere are the same key.\<close>

lemma agree_full:
  assumes "env_ok P" "length k = key_len P" "length k' = key_len P" "agree P (key_len P) k k'"
  shows "k = k'"
proof (rule nth_equalityI)
  fix i assume "i < length k"
  then show "k ! i = k' ! i"
    using schema_perms(7) [of "pe_schema P" i] assms by (auto simp: env_ok_def agree_def tbyte_def)
qed (use assms in simp)

section \<open>Sums over the children\<close>

interpretation xor128: comm_monoid_set "(XOR)" "0 :: u128"
  by standard (simp_all add: ac_simps)

definition msum :: "('a \<Rightarrow> nat) \<Rightarrow> (u8 \<rightharpoonup> 'a) \<Rightarrow> nat" where
  "msum f M = (\<Sum>b \<in> UNIV. case M b of None \<Rightarrow> 0 | Some c \<Rightarrow> f c)"

definition mxor :: "('a \<Rightarrow> u128) \<Rightarrow> (u8 \<rightharpoonup> 'a) \<Rightarrow> u128" where
  "mxor f M = xor128.F (\<lambda>b. case M b of None \<Rightarrow> 0 | Some c \<Rightarrow> f c) UNIV"

lemma msum_at: "msum f M = (case M k of None \<Rightarrow> 0 | Some c \<Rightarrow> f c) + msum f (M(k := None))"
proof -
  have "msum f M = (case M k of None \<Rightarrow> 0 | Some c \<Rightarrow> f c) + (\<Sum>b \<in> UNIV - {k}. case M b of None \<Rightarrow> 0 | Some c \<Rightarrow> f c)"
    unfolding msum_def by (rule sum.remove) auto
  also have "(\<Sum>b \<in> UNIV - {k}. case M b of None \<Rightarrow> 0 | Some c \<Rightarrow> f c) = msum f (M(k := None))"
    unfolding msum_def by (subst sum.remove [of UNIV k]) (auto intro: sum.cong)
  finally show ?thesis .
qed

lemma mxor_at: "mxor f M = (case M k of None \<Rightarrow> 0 | Some c \<Rightarrow> f c) XOR mxor f (M(k := None))"
proof -
  have "mxor f M = (case M k of None \<Rightarrow> 0 | Some c \<Rightarrow> f c) XOR xor128.F (\<lambda>b. case M b of None \<Rightarrow> 0 | Some c \<Rightarrow> f c) (UNIV - {k})"
    unfolding mxor_def by (rule xor128.remove) auto
  also have "xor128.F (\<lambda>b. case M b of None \<Rightarrow> 0 | Some c \<Rightarrow> f c) (UNIV - {k}) = mxor f (M(k := None))"
    unfolding mxor_def by (subst xor128.remove [of UNIV k]) (auto intro: xor128.cong)
  finally show ?thesis .
qed

section \<open>The map of a node\<close>

lemma entry_size: "(c :: 'v head) \<in> set (table_entries t) \<Longrightarrow> size c < Suc (size_list (size_option size) t)"
  using child_size [of c "Branch b e cl lc sc h t" for b e cl lc sc h] by (auto simp: set_table_entries dest: nth_mem)

function head_leaves :: "'v head \<Rightarrow> (u8 list \<times> 'v) list" where
  "head_leaves (Leaf _ k _ v) = [(k, v)]"
| "head_leaves (LocalLeaf _ k v) = [(k, v)]"
| "head_leaves (Branch _ _ _ _ _ _ t) = concat (map head_leaves (table_entries t))"
  by pat_completeness auto
termination
  by (relation "measure size") (auto dest: entry_size)

definition head_map :: "'v head \<Rightarrow> u8 list \<rightharpoonup> 'v" where
  "head_map h = map_of (head_leaves h)"

definition head_keys :: "'v head \<Rightarrow> u8 list set" where
  "head_keys h = dom (head_map h)"

lemma head_keys_iff: "k \<in> head_keys h \<longleftrightarrow> (\<exists>v. (k, v) \<in> set (head_leaves h))"
  by (force simp: head_keys_def head_map_def dom_map_of_conv_image_fst image_iff)

lemma leaf_maps [simp]:
  "head_map (Leaf b k h v) = [k \<mapsto> v]" "head_map (LocalLeaf b k v) = [k \<mapsto> v]"
  "head_keys (Leaf b k h v) = {k}" "head_keys (LocalLeaf b k v) = {k}"
  by (simp_all add: head_map_def head_keys_def fun_eq_iff)

lemma with_key_simps [simp]:
  "hd_byte (with_key h b) = b" "head_leaves (with_key h b) = head_leaves h" "childleaf_key (with_key h b) = childleaf_key h"
  "head_count (with_key h b) = head_count h" "head_hash P (with_key h b) = head_hash P h"
  "head_end_depth P (with_key h b) = head_end_depth P h" "count_segment P (with_key h b) d = count_segment P h d"
  "head_table (with_key h b) = head_table h"
  by (cases h; simp)+

lemma with_key_map [simp]: "head_map (with_key h b) = head_map h" "head_keys (with_key h b) = head_keys h"
  by (simp_all add: head_map_def head_keys_def)

lemma table_entries_ran: "table_ok rh key t \<Longrightarrow> set (table_entries t) = ran (table_map key t)"
  unfolding ran_def by (auto simp: set_table_entries table_map_Some)

lemma branch_keys: "table_ok rh hd_byte t \<Longrightarrow> head_keys (Branch b e cl lc sc h t) = (\<Union>c \<in> ran (table_map hd_byte t). head_keys c)"
  by (fastforce simp: head_keys_iff table_entries_ran [symmetric])

section \<open>The invariant\<close>

inductive head_ok :: "patch_env \<Rightarrow> nat \<Rightarrow> 'v head \<Rightarrow> bool" for P where
  leaf: "length k = key_len P \<Longrightarrow> d \<le> key_len P \<Longrightarrow> h = pe_leaf_hash P k \<Longrightarrow> head_ok P d (Leaf b k h v)"
| local: "length k = key_len P \<Longrightarrow> d \<le> key_len P \<Longrightarrow> head_ok P d (LocalLeaf b k v)"
| branch: "d \<le> e \<Longrightarrow> e < key_len P \<Longrightarrow> table_ok (pe_rand P) hd_byte t \<Longrightarrow> 2 \<le> card (dom (table_map hd_byte t)) \<Longrightarrow>
    (\<And>x c. table_map hd_byte t x = Some c \<Longrightarrow> head_ok P (Suc e) c \<and> tbyte P (childleaf_key c) e = x \<and> agree P e (childleaf_key c) cl) \<Longrightarrow>
    cl \<in> childleaf_key ` ran (table_map hd_byte t) \<Longrightarrow>
    lc = msum head_count (table_map hd_byte t) \<Longrightarrow>
    sc = msum (\<lambda>c. the (count_segment P c e)) (table_map hd_byte t) \<Longrightarrow>
    h = mxor (head_hash P) (table_map hd_byte t) \<Longrightarrow>
    head_ok P d (Branch b e cl lc sc h t)"

inductive_simps head_ok_Leaf [simp]: "head_ok P d (Leaf b k h v)"
inductive_simps head_ok_LocalLeaf [simp]: "head_ok P d (LocalLeaf b k v)"
inductive_simps head_ok_Branch: "head_ok P d (Branch b e cl lc sc h t)"

lemma head_ok_with_key [simp]: "head_ok P d (with_key h b) = head_ok P d h"
  by (cases h) (simp_all add: head_ok_Branch)

lemma head_ok_mono: "head_ok P d h \<Longrightarrow> d' \<le> d \<Longrightarrow> head_ok P d' h"
  by (cases h) (auto simp: head_ok_Branch)

lemma head_ok_end: "head_ok P d h \<Longrightarrow> d \<le> head_end_depth P h \<and> head_end_depth P h \<le> key_len P"
  by (cases h) (auto simp: head_ok_Branch)

text \<open>The keys below a node agree with its representative up to its depth.\<close>

lemma head_keys_ok:
  assumes "head_ok P d h"
  shows "childleaf_key h \<in> head_keys h"
    and "k \<in> head_keys h \<Longrightarrow> length k = key_len P \<and> agree P (head_end_depth P h) k (childleaf_key h)"
proof -
  from assms have "childleaf_key h \<in> head_keys h \<and> (\<forall>k \<in> head_keys h. length k = key_len P \<and> agree P (head_end_depth P h) k (childleaf_key h))"
  proof induction
    case (branch d e t cl lc sc h b)
    let ?M = "table_map hd_byte t"
    note keys = branch_keys [OF branch.hyps(3), of b e cl lc sc h]
    have "cl \<in> head_keys (Branch b e cl lc sc h t)" unfolding keys using branch.IH branch.hyps(5) by (auto simp: ran_def)
    moreover have "length k = key_len P \<and> agree P e k cl" if x: "x \<in> ran ?M" "k \<in> head_keys x" for k x
    proof -
      obtain y where y: "?M y = Some x" using x(1) by (auto simp: ran_def)
      have "Suc e \<le> head_end_depth P x" using branch.IH [OF y] head_ok_end by blast
      then show ?thesis using branch.IH [OF y] x(2) by (meson agree_mono agree_trans le_SucI le_refl order_trans)
    qed
    ultimately show ?case unfolding keys by auto
  qed simp_all
  then show "childleaf_key h \<in> head_keys h" "k \<in> head_keys h \<Longrightarrow> length k = key_len P \<and> agree P (head_end_depth P h) k (childleaf_key h)"
    by blast+
qed

lemma childleaf_length: "head_ok P d h \<Longrightarrow> length (childleaf_key h) = key_len P"
  using head_keys_ok by blast

text \<open>The keys below a child have its byte.\<close>

lemma child_byte:
  assumes ok: "head_ok P d (Branch b e cl lc sc h t)" and c: "table_map hd_byte t x = Some c" "k \<in> head_keys c"
  shows "tbyte P k e = x" "agree P e k cl"
proof -
  have c': "head_ok P (Suc e) c" "tbyte P (childleaf_key c) e = x" "agree P e (childleaf_key c) cl" using ok c(1) by (auto simp: head_ok_Branch)
  have "agree P (Suc e) k (childleaf_key c)" using head_keys_ok(2) [OF c'(1) c(2)] head_ok_end [OF c'(1)] agree_mono by blast
  then show "tbyte P k e = x" "agree P e k cl" using c' by (auto simp: agree_Suc intro: agree_trans)
qed

lemma map_of_concat_None: "(\<And>c. c \<in> set cs \<Longrightarrow> map_of (f c) k = None) \<Longrightarrow> map_of (concat (map f cs)) k = None"
  by (induction cs) (auto simp: map_add_def)

lemma map_of_concat_unique:
  assumes "c \<in> set cs" "\<And>c'. c' \<in> set cs \<Longrightarrow> c' \<noteq> c \<Longrightarrow> map_of (f c') k = None"
  shows "map_of (concat (map f cs)) k = map_of (f c) k"
  using assms
proof (induction cs)
  case (Cons x xs)
  show ?case
  proof (cases "x = c")
    case True
    have "map_of (concat (map f xs)) k = None \<or> map_of (concat (map f xs)) k = map_of (f c) k"
      using Cons by (cases "c \<in> set xs") (auto intro!: map_of_concat_None)
    then show ?thesis using True by (auto simp: map_add_def split: option.splits)
  next
    case False
    then show ?thesis using Cons by (auto simp: map_add_def split: option.splits)
  qed
qed simp

text \<open>Looking up a key in a branch is looking it up in the child under its byte.\<close>

lemma branch_map:
  assumes ok: "head_ok P d (Branch b e cl lc sc h t)"
  shows "head_map (Branch b e cl lc sc h t) k = (case table_map hd_byte t (tbyte P k e) of None \<Rightarrow> None | Some c \<Rightarrow> head_map c k)"
proof -
  have t: "table_ok (pe_rand P) hd_byte t" using ok by (simp add: head_ok_Branch)
  have other: "map_of (head_leaves c) k = None" if c: "c \<in> set (table_entries t)" "table_map hd_byte t (tbyte P k e) \<noteq> Some c" for c
  proof -
    obtain x where x: "table_map hd_byte t x = Some c" using c(1) table_entries_ran [OF t] by (auto simp: ran_def)
    then show ?thesis using child_byte(1) [OF ok x, of k] c(2) by (auto simp: head_keys_def head_map_def)
  qed
  show ?thesis
  proof (cases "table_map hd_byte t (tbyte P k e)")
    case None
    then show ?thesis using other by (simp add: head_map_def map_of_concat_None)
  next
    case (Some c)
    then have "c \<in> set (table_entries t)" using table_entries_ran [OF t] by (auto simp: ran_def)
    then have "map_of (concat (map head_leaves (table_entries t))) k = map_of (head_leaves c) k"
      by (rule map_of_concat_unique) (use other Some in auto)
    then show ?thesis using Some by (simp add: head_map_def)
  qed
qed

end
