(* ===== verification/Patch_Update.thy ===== *)
theory Patch_Update
  imports Patch_Invariant
begin

text \<open>
  What the operations that change a PATCH node do to its map: inserting a leaf adds its key unless it is
  there, replacing a leaf overwrites it, and removing a key takes it away. Each keeps the invariant.
\<close>

section \<open>Changing one child\<close>

lemma count_segment_in:
  assumes "env_ok P" "head_ok P d h" "e < key_len P"
  shows "\<exists>s. count_segment P h e = Some s"
  using assms schema_perms(4,8,9) [of "pe_schema P"]
  by (cases h) (auto simp: env_ok_def head_ok_Branch same_segment_tree_def segment_of_tree_depth_def)

lemma xor_cancel: "a XOR (a XOR b) = b" for a b :: "'a::len word"
  by (simp flip: xor.assoc)

text \<open>A branch whose child under one byte is put in or replaced.\<close>

lemma branch_put:
  fixes t :: "'v head option list" and k :: u8
  defines "M \<equiv> table_map hd_byte t"
  assumes ok: "head_ok P d (Branch b e cl lc sc h t)"
    and t': "table_ok (pe_rand P) hd_byte t'" "table_map hd_byte t' = M(k \<mapsto> c)"
    and c: "head_ok P (Suc e) c" "tbyte P (childleaf_key c) e = k" "agree P e (childleaf_key c) cl"
    and cl': "cl' = (if \<exists>o'. M k = Some o' \<and> childleaf_key o' = cl then childleaf_key c else cl)"
    and lc': "lc' = lc - (case M k of None \<Rightarrow> 0 | Some o' \<Rightarrow> head_count o') + head_count c"
    and sc': "sc' = sc - (case M k of None \<Rightarrow> 0 | Some o' \<Rightarrow> the (count_segment P o' e)) + the (count_segment P c e)"
    and h': "h' = h XOR (case M k of None \<Rightarrow> 0 | Some o' \<Rightarrow> head_hash P o') XOR head_hash P c"
  shows "head_ok P d (Branch b e cl' lc' sc' h' t')"
    and "head_map (Branch b e cl' lc' sc' h' t') x = (if tbyte P x e = k then head_map c x else head_map (Branch b e cl lc sc h t) x)"
proof -
  note old = ok [unfolded head_ok_Branch, folded M_def]
  have cl_cases: "cl' = childleaf_key c \<or> (cl' = cl \<and> (\<exists>y c0. y \<noteq> k \<and> M y = Some c0 \<and> childleaf_key c0 = cl))"
  proof -
    obtain y c0 where "M y = Some c0" "childleaf_key c0 = cl" using old by (auto simp: ran_def)
    then show ?thesis using cl' by (cases "y = k") (auto split: if_splits)
  qed
  have agr: "agree P e cl cl'" using cl_cases c(3) agree_sym by auto
  show new: "head_ok P d (Branch b e cl' lc' sc' h' t')"
    unfolding head_ok_Branch t'(2)
  proof (intro conjI allI impI)
    show "d \<le> e" "e < key_len P" "table_ok (pe_rand P) hd_byte t'" using old t'(1) by auto
    have "card (dom M) \<le> card (dom (M(k \<mapsto> c)))" by (rule card_mono) auto
    then show "2 \<le> card (dom (M(k \<mapsto> c)))" using old by linarith
    fix y c0 assume y: "(M(k \<mapsto> c)) y = Some c0"
    show "head_ok P (Suc e) c0" "tbyte P (childleaf_key c0) e = y" using y old c(1,2) by (auto split: if_splits)
    show "agree P e (childleaf_key c0) cl'" using y old c(3) agr by (auto split: if_splits intro: agree_trans)
  next
    show "cl' \<in> childleaf_key ` ran (M(k \<mapsto> c))" using cl_cases by (auto simp: ran_def image_iff) 
    show "lc' = msum head_count (M(k \<mapsto> c))"
      using old lc' msum_at [of head_count M k] msum_at [of head_count "M(k \<mapsto> c)" k] by (auto split: option.splits)
    show "sc' = msum (\<lambda>c. the (count_segment P c e)) (M(k \<mapsto> c))"
      using old sc' msum_at [of "\<lambda>c. the (count_segment P c e)" M k] msum_at [of "\<lambda>c. the (count_segment P c e)" "M(k \<mapsto> c)" k]
      by (auto split: option.splits)
    show "h' = mxor (head_hash P) (M(k \<mapsto> c))"
      using old h' mxor_at [of "head_hash P" M k] mxor_at [of "head_hash P" "M(k \<mapsto> c)" k]
      by (auto simp: ac_simps xor_cancel split: option.splits)
  qed
  show "head_map (Branch b e cl' lc' sc' h' t') x = (if tbyte P x e = k then head_map c x else head_map (Branch b e cl lc sc h t) x)"
    unfolding branch_map [OF new] branch_map [OF ok] t'(2) M_def by simp
qed

text \<open>\<open>modify_child\<close> with a closure that puts a child in.\<close>

lemma modify_child_put:
  fixes t :: "'v head option list" and cl :: "u8 list" and e lc sc :: nat and h :: u128 and b :: u8
  defines "M \<equiv> table_map hd_byte t" and "this \<equiv> Branch b e cl lc sc h t"
  assumes env: "env_ok P" and ok: "head_ok P d this" and f: "f (M k) = Some (r, Some c)"
    and c: "head_ok P (Suc e) c" "tbyte P (childleaf_key c) e = k" "agree P e (childleaf_key c) cl"
    and new: "M k = None \<Longrightarrow> hd_byte c = k \<and> ih c = head_hash P c"
  shows "\<exists>br. modify_child_with P ih this k f = Some (r, br) \<and> head_ok P d br \<and> head_end_depth P br = e \<and> hd_byte br = b
    \<and> (\<forall>x. head_map br x = (if tbyte P x e = k then head_map c x else head_map this x))"
proof -
  note old = ok [unfolded this_def head_ok_Branch, folded M_def]
  have e: "e < key_len P" and t: "table_ok (pe_rand P) hd_byte t" using old by auto
  obtain s where s: "count_segment P c e = Some s" using count_segment_in [OF env c(1) e] by blast
  obtain slot where slot: "table_get_slot (pe_rand P) hd_byte t k = Some slot"
    "case slot of None \<Rightarrow> M k = None | Some i \<Rightarrow> i < length t \<and> (\<exists>e. t ! i = Some e \<and> hd_byte e = k \<and> M k = Some e)"
    using table_get_slot_eq [OF t, of k] unfolding M_def by blast
  show ?thesis
  proof (cases slot)
    case None
    then have Mk: "M k = None" using slot(2) by simp
    obtain t' where t': "table_insert_growing 8 (pe_rand P) hd_byte t c = Some (Some t')" "table_ok (pe_rand P) hd_byte t'"
      "table_map hd_byte t' = M(k \<mapsto> c)"
      using cuckoo.install_abs [OF t, of c] new [OF Mk] Mk unfolding M_def by auto
    let ?br = "Branch b e cl (lc + head_count c) (sc + s) (xor_edit_branch h None (Some (ih c))) t'"
    have "modify_child_with P ih this k f = Some (r, ?br)"
      using None slot(1) f Mk s t'(1) by (simp add: modify_child_with_def this_def)
    moreover have "head_ok P d ?br" "\<forall>x. head_map ?br x = (if tbyte P x e = k then head_map c x else head_map this x)"
      using branch_put [OF ok [unfolded this_def] t'(2) t'(3) [unfolded M_def] c, of cl "lc + head_count c" "sc + s" "h XOR head_hash P c"] Mk s new [OF Mk]
      by (simp_all add: M_def this_def xor_edit_branch_def)
    ultimately show ?thesis by auto
  next
    case (Some i)
    then obtain o' where o': "i < length t" "t ! i = Some o'" "hd_byte o' = k" "M k = Some o'" using slot(2) by auto
    obtain s' where s': "count_segment P o' e = Some s'" using count_segment_in [OF env _ e, of "Suc e" o'] old o'(4) by blast
    let ?t = "t[i := Some (with_key c k)]"
    define cl' where "cl' = (if childleaf_key o' = cl then childleaf_key c else cl)"
    let ?br = "Branch b e cl' (lc - head_count o' + head_count c) (sc - s' + s) (xor_edit_branch h (Some (head_hash P o')) (Some (head_hash P c))) ?t"
    have t': "table_ok (pe_rand P) hd_byte ?t" "table_map hd_byte ?t = M(k \<mapsto> with_key c k)"
      using table_slot_write [OF t o'(1,2), of "Some (with_key c k)"] o'(3) by (simp_all add: M_def)
    have "modify_child_with P ih this k f = Some (r, ?br)"
      using Some slot(1) f o' s s' by (simp add: modify_child_with_def this_def Let_def cl'_def)
    moreover have "head_ok P d ?br" "\<forall>x. head_map ?br x = (if tbyte P x e = k then head_map c x else head_map this x)"
      using branch_put [OF ok [unfolded this_def] t'(1) t'(2) [unfolded M_def], of cl' "lc - head_count o' + head_count c" "sc - s' + s" "h XOR head_hash P o' XOR head_hash P c"]
        o'(4) s s' c by (simp_all add: M_def this_def xor_edit_branch_def xor.assoc cl'_def cong: if_cong)
    ultimately show ?thesis by auto
  qed
qed

section \<open>Where two keys part\<close>

lemma find_map_miss: "(\<And>x. x \<in> set xs \<Longrightarrow> f x = Some None) \<Longrightarrow> find_map_panic f (xs @ ys) = find_map_panic f ys"
  by (induction xs) auto

lemma find_map_upt:
  assumes f: "\<forall>d. s \<le> d \<longrightarrow> d < n \<longrightarrow> f d = Some (if p d then Some (g d) else None)"
  shows "(find_map_panic f [s..<n] = Some None \<and> (\<forall>d. s \<le> d \<longrightarrow> d < n \<longrightarrow> \<not> p d))
    \<or> (\<exists>d. s \<le> d \<and> d < n \<and> p d \<and> (\<forall>j. s \<le> j \<longrightarrow> j < d \<longrightarrow> \<not> p j) \<and> find_map_panic f [s..<n] = Some (Some (g d)))"
proof (cases "\<exists>d. s \<le> d \<and> d < n \<and> p d")
  case False
  then show ?thesis using find_map_miss [of "[s..<n]" f "[]"] f by simp
next
  case True
  let ?d = "LEAST d. s \<le> d \<and> d < n \<and> p d"
  have d: "s \<le> ?d" "?d < n" "p ?d" using LeastI_ex [OF True] by blast+
  have before: "\<not> p j" if "s \<le> j" "j < ?d" for j using not_less_Least [OF that(2)] that d(2) by simp
  have "[s..<n] = [s..<?d] @ ?d # [Suc ?d..<n]" using upt_add_eq_append [of s ?d "n - ?d"] d by (simp add: upt_conv_Cons)
  then have "find_map_panic f [s..<n] = Some (Some (g ?d))"
    using find_map_miss [of "[s..<?d]" f "?d # [Suc ?d..<n]"] f before d by auto
  then show ?thesis using d before by blast
qed

lemma first_divergence_cases:
  assumes env: "env_ok P" and ok: "head_ok P d this" "head_ok P d' other" and s: "agree P s (childleaf_key this) (childleaf_key other)"
  defines "limit \<equiv> min (head_end_depth P this) (head_end_depth P other)"
  obtains (same) "first_divergence P this other s = Some None" "agree P limit (childleaf_key this) (childleaf_key other)"
    | (part) dep where "s \<le> dep" "dep < limit" "agree P dep (childleaf_key this) (childleaf_key other)"
        "tbyte P (childleaf_key this) dep \<noteq> tbyte P (childleaf_key other) dep"
        "first_divergence P this other s = Some (Some (dep, tbyte P (childleaf_key this) dep, tbyte P (childleaf_key other) dep))"
proof -
  let ?a = "tbyte P (childleaf_key this)" and ?b = "tbyte P (childleaf_key other)"
  let ?f = "\<lambda>d. do { a \<leftarrow> tree_byte (pe_schema P) (childleaf_key this) d; b \<leftarrow> tree_byte (pe_schema P) (childleaf_key other) d;
       Some (if a \<noteq> b then Some (d, a, b) else None) }"
  have lim: "min (min (head_end_depth P this) (head_end_depth P other)) (key_len P) = limit"
    using head_ok_end [OF ok(1)] by (simp add: limit_def min_def)
  have "?f j = Some (if ?a j \<noteq> ?b j then Some (j, ?a j, ?b j) else None)" if "s \<le> j" "j < limit" for j
    using that lim tree_byte_in [OF env] childleaf_length [OF ok(1)] childleaf_length [OF ok(2)] by (auto simp: min_def split: if_splits)
  then have f: "\<forall>j. s \<le> j \<longrightarrow> j < limit \<longrightarrow> ?f j = Some (if ?a j \<noteq> ?b j then Some (j, ?a j, ?b j) else None)" by blast
  note cases = find_map_upt [where p = "\<lambda>j. ?a j \<noteq> ?b j" and g = "\<lambda>j. (j, ?a j, ?b j)" and f = ?f and s = s and n = limit, OF f]
  have fd: "first_divergence P this other s = find_map_panic ?f [s..<limit]"
    by (simp add: first_divergence_def lim)
  have pre: "agree P j (childleaf_key this) (childleaf_key other)" if "\<forall>i. s \<le> i \<longrightarrow> i < j \<longrightarrow> ?a i = ?b i" for j
    using that s unfolding agree_def by (meson not_le)
  from cases show thesis
  proof (elim disjE exE conjE)
    assume "find_map_panic ?f [s..<limit] = Some None" "\<forall>d. s \<le> d \<longrightarrow> d < limit \<longrightarrow> \<not> ?a d \<noteq> ?b d"
    then show thesis using same pre [of limit] fd by simp
  next
    fix dep assume "s \<le> dep" "dep < limit" "?a dep \<noteq> ?b dep" "\<forall>j. s \<le> j \<longrightarrow> j < dep \<longrightarrow> \<not> ?a j \<noteq> ?b j"
      "find_map_panic ?f [s..<limit] = Some (Some (dep, ?a dep, ?b dep))"
    then show thesis using part pre [of dep] fd by simp
  qed
qed

section \<open>Insertion\<close>

lemma head_ok_raise: "head_ok P d h \<Longrightarrow> d' \<le> head_end_depth P h \<Longrightarrow> head_ok P d' h"
  by (cases h) (auto simp: head_ok_Branch)

text \<open>A new branch of two nodes that part at a depth.\<close>

lemma branch_of_two:
  fixes l r :: "'v head" and b :: u8
  assumes env: "env_ok P" and ok: "head_ok P (Suc e) l" "head_ok P (Suc e) r" and d: "d \<le> e" "e < key_len P"
    and agr: "agree P e (childleaf_key l) (childleaf_key r)" and bytes: "hd_byte l = tbyte P (childleaf_key l) e" "hd_byte r = tbyte P (childleaf_key r) e"
    and ne: "hd_byte l \<noteq> hd_byte r" and rhash: "rhash = head_hash P r"
  shows "\<exists>br. branch_new_with_rchild_hash P b e l r rhash = Some br \<and> head_ok P d br \<and> hd_byte br = b
    \<and> (\<forall>x. head_map br x = (if tbyte P x e = hd_byte r then head_map r x else if tbyte P x e = hd_byte l then head_map l x else None))"
proof -
  obtain sl sr where s: "count_segment P l e = Some sl" "count_segment P r e = Some sr"
    using count_segment_in [OF env ok(1) d(2)] count_segment_in [OF env ok(2) d(2)] by blast
  let ?M = "[hd_byte l \<mapsto> l, hd_byte r \<mapsto> r]"
  let ?br = "Branch b e (childleaf_key l) (head_count l + head_count r) (sl + sr) (hash_two_children (head_hash P l) rhash) [Some l, Some r]"
  have M: "table_map hd_byte [Some l, Some r] = ?M" and t: "table_ok (pe_rand P) hd_byte [Some l, Some r]" using two_slots [of hd_byte l r] ne by auto
  have sum: "msum f ?M = f l + f r" for f
    using msum_at [of f ?M "hd_byte r"] msum_at [of f "[hd_byte l \<mapsto> l]" "hd_byte l"] ne by (simp add: msum_def)
  have xor: "mxor f ?M = f l XOR f r" for f
    using mxor_at [of f ?M "hd_byte r"] mxor_at [of f "[hd_byte l \<mapsto> l]" "hd_byte l"] ne by (simp add: mxor_def ac_simps)
  have br: "head_ok P d ?br"
    unfolding head_ok_Branch M sum xor
  proof (intro conjI allI impI)
    show "2 \<le> card (dom ?M)" using ne by simp
    show "hash_two_children (head_hash P l) rhash = head_hash P l XOR head_hash P r"
      by (simp add: hash_two_children_def xor_begin_branch_def xor_push_child_def xor_finish_branch_def rhash)
  qed (use d t s ok bytes agr agree_sym ne in \<open>auto simp: ran_def split: if_splits\<close>)
  moreover have "head_map ?br x = (if tbyte P x e = hd_byte r then head_map r x else if tbyte P x e = hd_byte l then head_map l x else None)" for x
    unfolding branch_map [OF br] M by simp
  ultimately show ?thesis using s by (auto simp: branch_new_with_rchild_hash_def)
qed

text \<open>A leaf for a key.\<close>

definition leaf_for :: "patch_env \<Rightarrow> u8 list \<Rightarrow> 'v \<Rightarrow> 'v head \<Rightarrow> bool" where
  "leaf_for P k v leaf \<longleftrightarrow> head_ok P 0 leaf \<and> head_leaves leaf = [(k, v)] \<and> head_end_depth P leaf = key_len P"

lemma leaf_for_simps:
  assumes "leaf_for P k v leaf"
  shows "head_map leaf = [k \<mapsto> v]" "head_keys leaf = {k}" "childleaf_key leaf = k" "length k = key_len P"
    "d \<le> key_len P \<Longrightarrow> head_ok P d leaf" "leaf_for P k v (with_key leaf b)" "head_end_depth P leaf = key_len P"
proof -
  show m: "head_map leaf = [k \<mapsto> v]" using assms by (simp add: leaf_for_def head_map_def)
  show keys: "head_keys leaf = {k}" unfolding head_keys_def m by simp
  show "childleaf_key leaf = k" "length k = key_len P" using head_keys_ok [of P 0 leaf] keys assms by (auto simp: leaf_for_def)
  show "d \<le> key_len P \<Longrightarrow> head_ok P d leaf" using assms head_ok_raise [of P 0 leaf d] by (simp add: leaf_for_def)
  show "leaf_for P k v (with_key leaf b)" "head_end_depth P leaf = key_len P" using assms by (auto simp: leaf_for_def)
qed

lemma new_leaf_for: "length k = key_len P \<Longrightarrow> leaf_for P k v (leaf_new P k v)" "length k = key_len P \<Longrightarrow> leaf_for P k v (local_leaf_new k v)"
  by (simp_all add: leaf_for_def leaf_new_def local_leaf_new_def)

text \<open>A key that parts from a node above the depth of the node is not below it.\<close>

lemma parted_not_below:
  assumes "head_ok P d h" "e < head_end_depth P h" "tbyte P k e \<noteq> tbyte P (childleaf_key h) e"
  shows "head_map h k = None"
  using head_keys_ok(2) [OF assms(1), of k] assms(2,3) by (cases "head_map h k") (auto simp: head_keys_def agree_def domIff)

lemma insert_parted:
  assumes env: "env_ok P" and ok: "head_ok P d this" and leaf: "leaf_for P k v leaf"
    and e: "d \<le> e" "e < head_end_depth P this" "agree P e (childleaf_key this) k" "tbyte P (childleaf_key this) e \<noteq> tbyte P k e"
    and h: "h = head_hash P leaf"
  shows "\<exists>br. branch_new_with_rchild_hash P (hd_byte this) e (with_key this (tbyte P (childleaf_key this) e)) (with_key leaf (tbyte P k e)) h = Some br
    \<and> head_ok P d br \<and> hd_byte br = hd_byte this \<and> head_map br = (head_map this)(k \<mapsto> v) \<and> head_map this k = None"
proof -
  note lf = leaf_for_simps [OF leaf]
  let ?l = "with_key this (tbyte P (childleaf_key this) e)" and ?r = "with_key leaf (tbyte P k e)"
  have e': "e < key_len P" using e(2) head_ok_end [OF ok] by simp
  have oks: "head_ok P (Suc e) ?l" "head_ok P (Suc e) ?r" using head_ok_raise [OF ok, of "Suc e"] lf(5) [of "Suc e"] e(2) e' by simp_all
  obtain br where br: "branch_new_with_rchild_hash P (hd_byte this) e ?l ?r h = Some br" "head_ok P d br" "hd_byte br = hd_byte this"
    "\<And>x. head_map br x = (if tbyte P x e = hd_byte ?r then head_map ?r x else if tbyte P x e = hd_byte ?l then head_map ?l x else None)"
    using branch_of_two [OF env oks e(1) e', of h "hd_byte this"] e(3,4) lf(3) h by auto
  have none: "head_map this x = None" if "tbyte P x e \<noteq> tbyte P (childleaf_key this) e" for x
    using parted_not_below [OF ok e(2) that] .
  have "head_map br x = ((head_map this)(k \<mapsto> v)) x" for x
    using br(4) [of x] none [of x] e(4) lf(1) by (cases "x = k") auto
  then show ?thesis using br none [of k] e(4) by (intro exI [of _ br]) auto
qed

text \<open>The step into a branch shared by insertion and replacement.\<close>

lemma branch_upsert:
  fixes t :: "'v head option list" and cl :: "u8 list" and e lc sc :: nat and h :: u128 and b :: u8
  defines "this \<equiv> Branch b e cl lc sc h t"
  assumes env: "env_ok P" and ok: "head_ok P d this" and k: "agree P e k cl"
    and f: "f (table_map hd_byte t (tbyte P k e)) = Some (r, Some c)" and c: "head_ok P (Suc e) c"
    and m: "head_map c = (case table_map hd_byte t (tbyte P k e) of None \<Rightarrow> Map.empty | Some o' \<Rightarrow> head_map o')(k \<mapsto> w)"
    and new: "table_map hd_byte t (tbyte P k e) = None \<Longrightarrow> hd_byte c = tbyte P k e \<and> ih c = head_hash P c"
  shows "\<exists>br. modify_child_with P ih this (tbyte P k e) f = Some (r, br) \<and> head_ok P d br \<and> hd_byte br = b
    \<and> head_map br = (head_map this)(k \<mapsto> w)"
proof -
  let ?k = "tbyte P k e"
  have below: "tbyte P x e = ?k \<and> agree P e x cl" if "x \<in> head_keys c" for x
    using that k child_byte [OF ok [unfolded this_def], of ?k _ x] unfolding head_keys_def m
    by (auto split: if_splits option.splits simp: domIff)
  have cc: "tbyte P (childleaf_key c) e = ?k" "agree P e (childleaf_key c) cl" using below head_keys_ok(1) [OF c] by blast+
  obtain br where br: "modify_child_with P ih this ?k f = Some (r, br)" "head_ok P d br" "hd_byte br = b"
    "\<And>x. head_map br x = (if tbyte P x e = ?k then head_map c x else head_map this x)"
    using modify_child_put [where f = f and ih = ih, OF env ok [unfolded this_def] f c cc new] unfolding this_def by blast
  have "head_map br x = ((head_map this)(k \<mapsto> w)) x" for x
    unfolding br(4) m using branch_map [OF ok [unfolded this_def], of x] by (auto simp: this_def split: option.splits)
  then show ?thesis using br by blast
qed

text \<open>The child under the byte of a key agrees with the key one byte further.\<close>

lemma child_agree:
  assumes "head_ok P d (Branch b e cl lc sc h t)" "agree P e k cl" "table_map hd_byte t (tbyte P k e) = Some c"
  shows "head_ok P (Suc e) c" "agree P (Suc e) k (childleaf_key c)"
proof -
  have c: "head_ok P (Suc e) c" "tbyte P (childleaf_key c) e = tbyte P k e" "agree P e (childleaf_key c) cl"
    using assms(1,3) by (auto simp: head_ok_Branch)
  then show "head_ok P (Suc e) c" "agree P (Suc e) k (childleaf_key c)"
    using assms(2) by (auto simp: agree_Suc intro: agree_trans agree_sym)
qed

lemma branch_map_at:
  "head_ok P d (Branch b e cl lc sc h t) \<Longrightarrow> table_map hd_byte t (tbyte P k e) = None \<Longrightarrow> head_map (Branch b e cl lc sc h t) k = None"
  "head_ok P d (Branch b e cl lc sc h t) \<Longrightarrow> table_map hd_byte t (tbyte P k e) = Some c \<Longrightarrow> head_map (Branch b e cl lc sc h t) k = head_map c k"
  by (simp_all add: branch_map)

lemma with_start_leaf:
  assumes "env_ok P" "leaf_for P k v leaf" "e < key_len P"
  shows "with_start P leaf e = Some (with_key leaf (tbyte P k e))"
  using tree_byte_in [OF assms(1) leaf_for_simps(4) [OF assms(2)] assms(3)] leaf_for_simps(3) [OF assms(2)] by (simp add: with_start_def)

lemma child_size_map: "table_ok rh hd_byte t \<Longrightarrow> table_map hd_byte t x = Some c \<Longrightarrow> size c < size (Branch b e cl lc sc h t)"
  using entry_size [of c t] table_entries_ran [of rh hd_byte t] by (auto simp: ran_def)

text \<open>The step into a branch with the leaf installed, or the child changed, under the byte of the key.\<close>

lemma upsert_branch:
  fixes t :: "'v head option list" and cl :: "u8 list" and e lc sc :: nat and h :: u128 and b :: u8
  defines "this \<equiv> Branch b e cl lc sc h t"
  assumes env: "env_ok P" and ok: "head_ok P d this" and leaf: "leaf_for P k v leaf" and k: "agree P e k cl"
    and none: "table_map hd_byte t (tbyte P k e) = None \<Longrightarrow> w = v \<and> f None = Some (r0, Some (with_key leaf (tbyte P k e))) \<and> Q r0"
    and some: "\<And>o'. table_map hd_byte t (tbyte P k e) = Some o' \<Longrightarrow> \<exists>c r. f (Some o') = Some (r, Some c) \<and> head_ok P (Suc e) c \<and> head_map c = (head_map o')(k \<mapsto> w) \<and> Q r"
  shows "\<exists>r br. modify_child P this (tbyte P k e) f = Some (r, br) \<and> head_ok P d br \<and> hd_byte br = b
    \<and> head_map br = (head_map this)(k \<mapsto> w) \<and> Q r"
proof -
  let ?kb = "tbyte P k e"
  have e: "Suc e \<le> key_len P" using ok by (simp add: this_def head_ok_Branch)
  obtain c r where c: "f (table_map hd_byte t ?kb) = Some (r, Some c)" "head_ok P (Suc e) c" "Q r"
    "head_map c = (case table_map hd_byte t ?kb of None \<Rightarrow> Map.empty | Some o' \<Rightarrow> head_map o')(k \<mapsto> w)"
    "table_map hd_byte t ?kb = None \<Longrightarrow> hd_byte c = ?kb \<and> head_hash P c = head_hash P c"
  proof (cases "table_map hd_byte t ?kb")
    case None
    then show thesis using none leaf_for_simps(1,5) [OF leaf] e by (intro that [of r0 "with_key leaf ?kb"]) simp_all
  next
    case (Some o')
    then show thesis using some [OF Some] by (auto intro: that)
  qed
  show ?thesis
    using branch_upsert [where f = f and ih = "head_hash P", OF env ok [unfolded this_def] k c(1,2,4,5)] c(3)
    unfolding this_def modify_child_def by metis
qed

lemma insert_leaf_spec:
  assumes "env_ok P" "head_ok P d this" "leaf_for P k v leaf" "agree P d k (childleaf_key this)" "s \<le> d"
  shows "\<exists>h. insert_leaf P this leaf s = Some h \<and> head_ok P d h \<and> hd_byte h = hd_byte this
    \<and> head_map h = (head_map this)(k \<mapsto> (case head_map this k of None \<Rightarrow> v | Some v' \<Rightarrow> v'))"
  using assms
proof (induction "size this" arbitrary: this leaf d s rule: less_induct)
  case less
  note env = less.prems(1) and ok = less.prems(2) and leaf = less.prems(3)
  note lf = leaf_for_simps [OF leaf]
  have agr: "agree P s (childleaf_key this) (childleaf_key leaf)" using less.prems(4,5) lf(3) agree_mono agree_sym by metis
  from env ok lf(5) [of 0, simplified] agr show ?case
  proof (cases rule: first_divergence_cases)
    case (part dep)
    have "d \<le> dep" using part(4) less.prems(4) lf(3) unfolding agree_def by (metis not_le)
    then have "\<exists>br. branch_new_with_rchild_hash P (hd_byte this) dep (with_key this (tbyte P (childleaf_key this) dep)) (with_key leaf (tbyte P k dep)) (head_hash P leaf) = Some br
        \<and> head_ok P d br \<and> hd_byte br = hd_byte this \<and> head_map br = (head_map this)(k \<mapsto> v) \<and> head_map this k = None"
      using insert_parted [OF env ok leaf] part(2-4) lf(3) by simp
    then show ?thesis using part(5) lf(3) by (subst insert_leaf.simps) (auto simp: branch_new_def)
  next
    case same
    show ?thesis
    proof (cases "head_end_depth P this = key_len P")
      case True
      then have "childleaf_key this = k" using same(2) lf(3,4,7) agree_full [OF env] childleaf_length [OF ok] by simp
      then obtain v' where "head_map this k = Some v'" using head_keys_ok(1) [OF ok] by (auto simp: head_keys_def)
      then show ?thesis using same(1) True ok by (subst insert_leaf.simps) (simp add: fun_upd_idem)
    next
      case False
      then obtain b e cl lc sc h t where br: "this = Branch b e cl lc sc h t" by (cases this) auto
      have e: "e < key_len P" and k: "agree P e k cl" and t: "table_ok (pe_rand P) hd_byte t"
        using ok same(2) br lf(3,7) agree_sym by (auto simp: head_ok_Branch)
      let ?ins = "with_key leaf (tbyte P k e)"
      let ?f = "\<lambda>opt. case opt of Some old \<Rightarrow> do { h \<leftarrow> insert_leaf P old ?ins e; Some ((), Some h) } | None \<Rightarrow> Some ((), Some ?ins)"
      have unf: "insert_leaf P this leaf s = modify_child P this (tbyte P k e) ?f \<bind> (\<lambda>(_, this'). Some this')"
        using same(1) br e with_start_leaf [OF env leaf e] by (subst insert_leaf.simps) (simp add: case_prod_beta)
      have child: "\<exists>c r. ?f (Some o') = Some (r, Some c) \<and> head_ok P (Suc e) c
          \<and> head_map c = (head_map o')(k \<mapsto> (case head_map this k of None \<Rightarrow> v | Some v' \<Rightarrow> v')) \<and> True"
        if o': "table_map hd_byte t (tbyte P k e) = Some o'" for o'
        using less.hyps [unfolded br, OF child_size_map [OF t o'] env child_agree(1) [OF ok [unfolded br] k o'] lf(6) [of "tbyte P k e"] child_agree(2) [OF ok [unfolded br] k o'], of e]
          branch_map_at(2) [OF ok [unfolded br] o'] br by auto
      from upsert_branch [where f = ?f and Q = "\<lambda>_. True", OF env ok [unfolded br] leaf k _ child] show ?thesis
        using branch_map_at(1) [OF ok [unfolded br]] unf unfolding br by fastforce
    qed
  qed
qed

section \<open>Replacement\<close>

text \<open>The leaf that a replacement retires is the one that held the old value.\<close>

definition retired_for :: "u8 list \<Rightarrow> 'v option \<Rightarrow> 'v head option \<Rightarrow> bool" where
  "retired_for k old r \<longleftrightarrow> map_option head_map r = map_option (\<lambda>v. [k \<mapsto> v]) old"

lemma full_depth_leaf:
  assumes "head_ok P d h" "head_end_depth P h = key_len P"
  obtains v where "head_map h = [childleaf_key h \<mapsto> v]"
  using assms by (cases h) (auto simp: head_ok_Branch)

lemma replace_leaf_spec:
  assumes "env_ok P" "head_ok P d this" "leaf_for P k v leaf" "agree P d k (childleaf_key this)" "s \<le> d"
  shows "\<exists>h r. replace_leaf P this leaf s = Some (h, r) \<and> head_ok P d h \<and> hd_byte h = hd_byte this
    \<and> head_map h = (head_map this)(k \<mapsto> v) \<and> retired_for k (head_map this k) r"
  using assms
proof (induction "size this" arbitrary: this leaf d s rule: less_induct)
  case less
  note env = less.prems(1) and ok = less.prems(2) and leaf = less.prems(3)
  note lf = leaf_for_simps [OF leaf]
  have agr: "agree P s (childleaf_key this) (childleaf_key leaf)" using less.prems(4,5) lf(3) agree_mono agree_sym by metis
  from env ok lf(5) [of 0, simplified] agr show ?case
  proof (cases rule: first_divergence_cases)
    case (part dep)
    have "d \<le> dep" using part(4) less.prems(4) lf(3) unfolding agree_def by (metis not_le)
    then have "\<exists>br. branch_new_with_rchild_hash P (hd_byte this) dep (with_key this (tbyte P (childleaf_key this) dep)) (with_key leaf (tbyte P k dep)) (head_hash P leaf) = Some br
        \<and> head_ok P d br \<and> hd_byte br = hd_byte this \<and> head_map br = (head_map this)(k \<mapsto> v) \<and> head_map this k = None"
      using insert_parted [OF env ok leaf] part(2-4) lf(3) by simp
    then show ?thesis using part(5) lf(3) by (subst replace_leaf.simps) (auto simp: branch_new_def retired_for_def)
  next
    case same
    show ?thesis
    proof (cases "head_end_depth P this = key_len P")
      case True
      then have cl: "childleaf_key this = k" using same(2) lf(3,4,7) agree_full [OF env] childleaf_length [OF ok] by simp
      obtain v' where v': "head_map this = [k \<mapsto> v']" using full_depth_leaf [OF ok True] cl by auto
      have "head_ok P d leaf" using lf(5) head_ok_end [OF ok] by simp
      then show ?thesis using same(1) True v' lf(1) by (subst replace_leaf.simps) (simp add: retired_for_def)
    next
      case False
      then obtain b e cl lc sc h t where br: "this = Branch b e cl lc sc h t" by (cases this) auto
      have e: "e < key_len P" and k: "agree P e k cl" and t: "table_ok (pe_rand P) hd_byte t"
        using ok same(2) br lf(3,7) agree_sym by (auto simp: head_ok_Branch)
      let ?ins = "with_key leaf (tbyte P k e)"
      let ?f = "\<lambda>opt. case opt of Some old \<Rightarrow> do { (h, retired) \<leftarrow> replace_leaf P old ?ins e; Some (retired, Some h) } | None \<Rightarrow> Some (None, Some ?ins)"
      have unf: "replace_leaf P this leaf s = modify_child P this (tbyte P k e) ?f \<bind> (\<lambda>(retired, this'). Some (this', retired))"
        using same(1) br e with_start_leaf [OF env leaf e] by (subst replace_leaf.simps) (simp add: case_prod_beta)
      have child: "\<exists>c r. ?f (Some o') = Some (r, Some c) \<and> head_ok P (Suc e) c \<and> head_map c = (head_map o')(k \<mapsto> v) \<and> retired_for k (head_map this k) r"
        if o': "table_map hd_byte t (tbyte P k e) = Some o'" for o'
        using less.hyps [unfolded br, OF child_size_map [OF t o'] env child_agree(1) [OF ok [unfolded br] k o'] lf(6) [of "tbyte P k e"] child_agree(2) [OF ok [unfolded br] k o'], of e]
          branch_map_at(2) [OF ok [unfolded br] o'] br by auto
      from upsert_branch [where f = ?f and Q = "retired_for k (head_map this k)" and ?r0.0 = None, OF env ok [unfolded br] leaf k _ child] show ?thesis
        using branch_map_at(1) [OF ok [unfolded br]] unf unfolding br by (fastforce simp: retired_for_def)
    qed
  qed
qed

section \<open>Insertion with a known digest\<close>

lemma modify_child_hint:
  assumes "\<And>r c. f None = Some (r, Some c) \<Longrightarrow> head_hash P c = hint"
  shows "modify_child_with_inserted_hint P this k hint f = modify_child P this k f"
  using assms by (cases this) (auto simp: modify_child_with_inserted_hint_def modify_child_def modify_child_with_def Let_def
    intro!: Option.bind_cong split: option.splits)

lemma insert_archive_leaf_eq: "leaf_hash = head_hash P leaf \<Longrightarrow> insert_archive_leaf P this leaf leaf_hash s = insert_leaf P this leaf s"
proof (induction P this leaf leaf_hash s rule: insert_archive_leaf.induct)
  case (1 P this leaf leaf_hash s)
  let ?e = "head_end_depth P this"
  show ?case
  proof (cases "\<exists>ins. first_divergence P this leaf s = Some None \<and> ?e \<noteq> key_len P \<and> with_start P leaf ?e = Some ins")
    case True
    then obtain ins where dv: "first_divergence P this leaf s = Some None" and e: "?e \<noteq> key_len P" and ins: "with_start P leaf ?e = Some ins" by blast
    then have h: "leaf_hash = head_hash P ins" using "1.prems" by (auto simp: with_start_def Option.bind_eq_Some_conv)
    have "modify_child_with_inserted_hint P this (hd_byte ins) leaf_hash (\<lambda>opt. case opt of None \<Rightarrow> Some ((), Some ins)
          | Some old \<Rightarrow> do { h \<leftarrow> insert_archive_leaf P old ins leaf_hash ?e; Some ((), Some h) })
      = modify_child_with_inserted_hint P this (hd_byte ins) leaf_hash (\<lambda>opt. case opt of None \<Rightarrow> Some ((), Some ins)
          | Some old \<Rightarrow> do { h \<leftarrow> insert_leaf P old ins ?e; Some ((), Some h) })"
      by (rule modify_child_with_inserted_hint_cong) (use "1.IH" [OF dv refl refl e ins] h in auto)
    also have "\<dots> = modify_child P this (hd_byte ins) (\<lambda>opt. case opt of None \<Rightarrow> Some ((), Some ins)
          | Some old \<Rightarrow> do { h \<leftarrow> insert_leaf P old ins ?e; Some ((), Some h) })"
      by (rule modify_child_hint) (use h in auto)
    finally show ?thesis using dv e ins by (subst insert_archive_leaf.simps, subst insert_leaf.simps) (simp add: Let_def)
  next
    case False
    then show ?thesis using "1.prems"
      by (subst insert_archive_leaf.simps, subst insert_leaf.simps) (auto simp: branch_new_def Let_def split: option.splits Option.bind_splits)
  qed
qed

section \<open>Keys that start with a prefix\<close>

text \<open>A prefix is in tree order; \<open>tree_of\<close> is a whole key in tree order.\<close>

definition starts :: "patch_env \<Rightarrow> u8 list \<Rightarrow> u8 list \<Rightarrow> bool" where
  "starts P prefix k \<longleftrightarrow> (\<forall>j < length prefix. tbyte P k j = prefix ! j)"

definition tree_of :: "patch_env \<Rightarrow> u8 list \<Rightarrow> u8 list" where
  "tree_of P k = map (tbyte P k) [0..<key_len P]"

lemma tree_of_simps [simp]: "length (tree_of P k) = key_len P" "j < key_len P \<Longrightarrow> tree_of P k ! j = tbyte P k j"
  by (simp_all add: tree_of_def)

lemma tree_of_ordered:
  assumes "env_ok P" "length k = key_len P"
  shows "tree_ordered (pe_schema P) k = Some (tree_of P k)"
proof -
  obtain t where "tree_ordered (pe_schema P) k = Some t" "length t = key_len P" "\<forall>d < key_len P. t ! d = k ! (ks_tree_to_key (pe_schema P) ! d)"
    using reorder_round_trip assms unfolding env_ok_def by blast
  then show ?thesis by (auto simp: tbyte_def intro: nth_equalityI)
qed

lemma starts_tree_of:
  assumes "env_ok P" "length k = key_len P" "length x = key_len P"
  shows "starts P (tree_of P k) x \<longleftrightarrow> x = k"
  using agree_full [OF assms(1,3,2)] by (auto simp: starts_def agree_def)

lemma key_has_prefix_eq:
  assumes "env_ok P" "length k = key_len P" "length prefix \<le> key_len P"
  shows "key_has_prefix (pe_schema P) k at_depth prefix = Some (\<forall>j < length prefix. at_depth \<le> j \<longrightarrow> tbyte P k j = prefix ! j)"
proof -
  have "key_has_prefix (pe_schema P) k at_depth prefix = Some (\<forall>j \<in> set [at_depth..<length prefix]. tbyte P k j = prefix ! j)"
    unfolding key_has_prefix_def min_absorb1 [OF assms(3)] by (rule all_panic_Some) (use tree_byte_in [OF assms(1,2)] assms(3) in auto)
  then show ?thesis by auto
qed

text \<open>
  The three ways a walk along a prefix goes on at a branch: the compressed path contradicts the prefix,
  the prefix ends on it, or the walk goes to the child under the next byte.
\<close>

lemma walk_path:
  assumes env: "env_ok P" and ok: "head_ok P d (Branch b e cl lc sc h t)" and len: "length prefix \<le> key_len P"
    and at: "\<forall>j < length prefix. j < at_depth \<longrightarrow> tbyte P cl j = prefix ! j"
  shows "key_has_prefix (pe_schema P) cl at_depth (take (min (length prefix) e) prefix) = Some (starts P (take e prefix) cl)"
proof -
  have "length cl = key_len P" using childleaf_length [OF ok] by simp
  then have "key_has_prefix (pe_schema P) cl at_depth (take (min (length prefix) e) prefix)
      = Some (\<forall>j < min (length prefix) e. at_depth \<le> j \<longrightarrow> tbyte P cl j = prefix ! j)"
    using key_has_prefix_eq [OF env _, of cl "take (min (length prefix) e) prefix" at_depth] len by auto
  also have "(\<forall>j < min (length prefix) e. at_depth \<le> j \<longrightarrow> tbyte P cl j = prefix ! j) \<longleftrightarrow> starts P (take e prefix) cl"
    using at by (auto simp: starts_def)
  finally show ?thesis .
qed

lemma walk_keys:
  assumes ok: "head_ok P d (Branch b e cl lc sc h t)" and k: "k \<in> head_keys (Branch b e cl lc sc h t)"
  shows "\<not> starts P (take e prefix) cl \<Longrightarrow> \<not> starts P prefix k"
    and "starts P (take e prefix) cl \<Longrightarrow> length prefix \<le> e \<Longrightarrow> starts P prefix k"
  using head_keys_ok(2) [OF ok k] by (auto simp: starts_def agree_def)

lemma walk_child:
  assumes ok: "head_ok P d (Branch b e cl lc sc h t)" and e: "e < length prefix" and st: "starts P (take e prefix) cl"
  shows "{k \<in> head_keys (Branch b e cl lc sc h t). starts P prefix k}
    = (case table_map hd_byte t (prefix ! e) of None \<Rightarrow> {} | Some c \<Rightarrow> {k \<in> head_keys c. starts P prefix k})"
    and "table_map hd_byte t (prefix ! e) = Some c \<Longrightarrow> head_ok P (Suc e) c \<and> (\<forall>j < length prefix. j < Suc e \<longrightarrow> tbyte P (childleaf_key c) j = prefix ! j)"
proof -
  have t: "table_ok (pe_rand P) hd_byte t" using ok by (simp add: head_ok_Branch)
  note keys = branch_keys [OF t, of b e cl lc sc h]
  have "table_map hd_byte t (prefix ! e) = Some c" if c: "table_map hd_byte t x = Some c" "k \<in> head_keys c" "starts P prefix k" for x c k
    using child_byte(1) [OF ok c(1,2)] c(1,3) e by (simp add: starts_def)
  then show "{k \<in> head_keys (Branch b e cl lc sc h t). starts P prefix k}
      = (case table_map hd_byte t (prefix ! e) of None \<Rightarrow> {} | Some c \<Rightarrow> {k \<in> head_keys c. starts P prefix k})"
    unfolding keys by (auto simp: ran_def split: option.splits)
  show "head_ok P (Suc e) c \<and> (\<forall>j < length prefix. j < Suc e \<longrightarrow> tbyte P (childleaf_key c) j = prefix ! j)"
    if c: "table_map hd_byte t (prefix ! e) = Some c"
  proof -
    have "head_ok P (Suc e) c" "tbyte P (childleaf_key c) e = prefix ! e" "agree P e (childleaf_key c) cl" using ok c by (auto simp: head_ok_Branch)
    then show ?thesis using st e by (auto simp: starts_def agree_def less_Suc_eq)
  qed
qed

lemma child_get_eq: "head_ok P d (Branch b e cl lc sc h t) \<Longrightarrow> child_get P (Branch b e cl lc sc h t) x = Some (table_map hd_byte t x)"
  by (simp add: child_get_def head_ok_Branch table_get_eq)

lemma head_has_prefix_spec:
  assumes "env_ok P" "head_ok P d h" "length prefix \<le> key_len P" "\<forall>j < length prefix. j < s \<longrightarrow> tbyte P (childleaf_key h) j = prefix ! j"
  shows "head_has_prefix P h s prefix = Some (\<exists>k \<in> head_keys h. starts P prefix k)"
  using assms
proof (induction "size h" arbitrary: h d s rule: less_induct)
  case less
  show ?case
  proof (cases h)
    case (Branch b e cl lc sc hs t)
    note ok = less.prems(2) [unfolded Branch]
    have t: "table_ok (pe_rand P) hd_byte t" using ok by (simp add: head_ok_Branch)
    have path: "key_has_prefix (pe_schema P) cl s (take (min (length prefix) e) prefix) = Some (starts P (take e prefix) cl)"
      using walk_path [OF less.prems(1) ok less.prems(3)] less.prems(4) Branch by simp
    show ?thesis
    proof (cases "starts P (take e prefix) cl \<and> e < length prefix")
      case True
      show ?thesis
      proof (cases "table_map hd_byte t (prefix ! e)")
        case None
        then show ?thesis using walk_child(1) [OF ok, of prefix] True Branch path child_get_eq [OF ok]
          by (subst head_has_prefix.simps) auto
      next
        case (Some c)
        have "head_has_prefix P c e prefix = Some (\<exists>k \<in> head_keys c. starts P prefix k)"
          using less.hyps [unfolded Branch, OF child_size_map [OF t Some] less.prems(1) _ less.prems(3), of "Suc e" e] walk_child(2) [OF ok _ _ Some] True by auto
        then show ?thesis using walk_child(1) [OF ok, of prefix] True Branch path child_get_eq [OF ok] Some
          by (subst head_has_prefix.simps) (auto simp: set_eq_iff)
      qed
    next
      case False
      have "(\<exists>k \<in> head_keys h. starts P prefix k) \<longleftrightarrow> starts P (take e prefix) cl"
        using walk_keys [OF ok, of _ prefix] False head_keys_ok(1) [OF ok] Branch by (metis not_le)
      then show ?thesis using False path Branch by (subst head_has_prefix.simps) auto
    qed
  qed (use less.prems key_has_prefix_eq in \<open>(subst head_has_prefix.simps, auto simp: starts_def)+\<close>)
qed

section \<open>Removal\<close>

lemma distinct_entries:
  assumes "\<And>i j e f. i < length xs \<Longrightarrow> j < length xs \<Longrightarrow> xs ! i = Some e \<Longrightarrow> xs ! j = Some f \<Longrightarrow> key e = key f \<Longrightarrow> i = j"
  shows "distinct (map key (table_entries xs))"
  using assms
proof (induction xs)
  case (Cons x xs)
  have IH: "distinct (map key (table_entries xs))"
  proof (rule Cons.IH)
    show "i = j" if "i < length xs" "j < length xs" "xs ! i = Some e" "xs ! j = Some f" "key e = key f" for i j e f
      using Cons.prems [of "Suc i" "Suc j" e f] that by simp
  qed
  show ?case
  proof (cases x)
    case (Some e)
    have "key e \<noteq> key f" if "f \<in> set (table_entries xs)" for f
      using Cons.prems [of 0 "Suc i" e f for i] that Some by (auto simp: set_table_entries)
    then show ?thesis using IH Some by (auto simp: table_entries_def map_filter_simps)
  qed (use IH in \<open>simp add: table_entries_def map_filter_simps\<close>)
qed (simp add: table_entries_def map_filter_simps)

lemma table_entries_card:
  assumes "table_ok rh key t"
  shows "length (table_entries t) = card (dom (table_map key t))"
proof -
  have "distinct (map key (table_entries t))"
    by (rule distinct_entries) (use assms in \<open>auto simp: table_ok_def\<close>)
  moreover have "dom (table_map key t) = set (map key (table_entries t))"
    unfolding table_map_def dom_map_of_conv_image_fst by force
  ultimately show ?thesis by (metis distinct_card length_map)
qed

text \<open>A branch without one of its children, when two are left.\<close>

lemma branch_take:
  fixes t :: "'v head option list" and k :: u8
  defines "M \<equiv> table_map hd_byte t"
  assumes ok: "head_ok P d (Branch b e cl lc sc h t)"
    and t': "table_ok (pe_rand P) hd_byte t'" "table_map hd_byte t' = M(k := None)" and two: "2 \<le> card (dom (M(k := None)))"
    and k: "M k = Some o'" and cl': "cl' = (if childleaf_key o' = cl then (case table_entries t' of [] \<Rightarrow> cl | other # _ \<Rightarrow> childleaf_key other) else cl)"
    and lc': "lc' = lc - head_count o'" and sc': "sc' = sc - the (count_segment P o' e)" and h': "h' = h XOR head_hash P o'"
  shows "head_ok P d (Branch b e cl' lc' sc' h' t')"
    and "head_map (Branch b e cl' lc' sc' h' t') x = (if tbyte P x e = k then None else head_map (Branch b e cl lc sc h t) x)"
proof -
  note old = ok [unfolded head_ok_Branch, folded M_def]
  have ne: "table_entries t' \<noteq> []" using table_entries_card [OF t'(1)] two t'(2) by (metis list.size(3) not_numeral_le_zero)
  have cl_in: "\<exists>y c0. y \<noteq> k \<and> M y = Some c0 \<and> childleaf_key c0 = cl'"
  proof (cases "childleaf_key o' = cl")
    case True
    obtain c0 where "c0 \<in> set (table_entries t')" "cl' = childleaf_key c0" using cl' True ne by (cases "table_entries t'") auto
    then show ?thesis using table_entries_ran [OF t'(1)] t'(2) by (auto simp: ran_def split: if_splits)
  next
    case False
    obtain y c0 where "M y = Some c0" "childleaf_key c0 = cl" using old by (auto simp: ran_def)
    then show ?thesis using False k cl' by (metis option.inject)
  qed
  then have agr: "agree P e cl cl'" using old agree_sym by metis
  show new: "head_ok P d (Branch b e cl' lc' sc' h' t')"
    unfolding head_ok_Branch t'(2)
  proof (intro conjI allI impI)
    show "d \<le> e" "e < key_len P" "table_ok (pe_rand P) hd_byte t'" "2 \<le> card (dom (M(k := None)))" using old t'(1) two by auto
    fix y c0 assume y: "(M(k := None)) y = Some c0"
    show "head_ok P (Suc e) c0" "tbyte P (childleaf_key c0) e = y" using y old by (auto split: if_splits)
    show "agree P e (childleaf_key c0) cl'" using y old agr by (auto split: if_splits intro: agree_trans)
  next
    show "cl' \<in> childleaf_key ` ran (M(k := None))" using cl_in by (auto simp: ran_def image_iff)
    show "lc' = msum head_count (M(k := None))" using old lc' k msum_at [of head_count M k] by simp
    show "sc' = msum (\<lambda>c. the (count_segment P c e)) (M(k := None))" using old sc' k msum_at [of "\<lambda>c. the (count_segment P c e)" M k] by simp
    show "h' = mxor (head_hash P) (M(k := None))" using old h' k mxor_at [of "head_hash P" M k] by (simp add: ac_simps xor_cancel)
  qed
  show "head_map (Branch b e cl' lc' sc' h' t') x = (if tbyte P x e = k then None else head_map (Branch b e cl lc sc h t) x)"
    unfolding branch_map [OF new] branch_map [OF ok] t'(2) M_def by simp
qed

text \<open>\<open>modify_child\<close> with a closure that takes the child away.\<close>

lemma modify_child_take:
  fixes t :: "'v head option list" and cl :: "u8 list" and e lc sc :: nat and h :: u128 and b :: u8
  defines "M \<equiv> table_map hd_byte t" and "this \<equiv> Branch b e cl lc sc h t"
  assumes env: "env_ok P" and ok: "head_ok P d this" and k: "M k = Some o'" and f: "f (Some o') = Some (r, None)"
  shows "\<exists>br. modify_child P this k f = Some (r, br) \<and> table_ok (pe_rand P) hd_byte (head_table br) \<and> table_map hd_byte (head_table br) = M(k := None)
    \<and> (2 \<le> card (dom (M(k := None))) \<longrightarrow> head_ok P d br \<and> (\<forall>x. head_map br x = (if tbyte P x e = k then None else head_map this x)))"
proof -
  note old = ok [unfolded this_def head_ok_Branch, folded M_def]
  have e: "e < key_len P" and t: "table_ok (pe_rand P) hd_byte t" using old by auto
  obtain i where i: "table_get_slot (pe_rand P) hd_byte t k = Some (Some i)" "i < length t" "t ! i = Some o'" "hd_byte o' = k"
    using table_get_slot_eq [OF t, of k] k unfolding M_def by (auto split: option.splits)
  obtain s where s: "count_segment P o' e = Some s" using count_segment_in [OF env _ e, of "Suc e" o'] old k by blast
  let ?t = "t[i := None]"
  have t': "table_ok (pe_rand P) hd_byte ?t" "table_map hd_byte ?t = M(k := None)"
    using table_slot_write [OF t i(2,3), of None] i(4) by (simp_all add: M_def)
  define cl' where "cl' = (if childleaf_key o' = cl then (case table_entries ?t of [] \<Rightarrow> cl | other # _ \<Rightarrow> childleaf_key other) else cl)"
  let ?br = "Branch b e cl' (lc - head_count o') (sc - s) (xor_edit_branch h (Some (head_hash P o')) None) ?t"
  have mod: "modify_child P this k f = Some (r, ?br)"
    using i f s by (simp add: modify_child_def modify_child_with_def this_def Let_def cl'_def)
  have "head_ok P d ?br \<and> (\<forall>x. head_map ?br x = (if tbyte P x e = k then None else head_map this x))" if two: "2 \<le> card (dom (M(k := None)))"
    using branch_take [OF ok [unfolded this_def] t'(1) t'(2) [unfolded M_def] two [unfolded M_def] k [unfolded M_def], of cl' "lc - head_count o'" "sc - s" "h XOR head_hash P o'"]
      s cl'_def by (simp add: this_def xor_edit_branch_def)
  then show ?thesis using mod t' by auto
qed

lemma not_in_child:
  "head_ok P d (Branch b e cl lc sc h t) \<Longrightarrow> table_map hd_byte t y = Some c \<Longrightarrow> tbyte P x e \<noteq> y \<Longrightarrow> head_map c x = None"
  using child_byte(1) [of P d b e cl lc sc h t y c x] by (cases "head_map c x") (auto simp: head_keys_def)

text \<open>The node that is left when a branch has one child.\<close>

lemma collapse_single:
  assumes env: "env_ok P" and ok: "head_ok P d (Branch b e cl lc sc h t)" and s: "s \<le> d"
    and c: "table_map hd_byte t y = Some c" "\<And>x c0. x \<noteq> k \<Longrightarrow> table_map hd_byte t x = Some c0 \<Longrightarrow> x = y" "y \<noteq> k"
  shows "\<exists>r. with_start P c s = Some r \<and> head_ok P d r \<and> (\<forall>x. head_map r x = (if tbyte P x e = k then None else head_map (Branch b e cl lc sc h t) x))"
proof -
  have c': "head_ok P (Suc e) c" and e: "d \<le> e" "e < key_len P" using ok c(1) by (auto simp: head_ok_Branch)
  have "with_start P c s = Some (with_key c (tbyte P (childleaf_key c) s))"
    using tree_byte_in [OF env childleaf_length [OF c'], of s] s e by (simp add: with_start_def)
  moreover have "head_ok P d c" using head_ok_mono [OF c'] e(1) by simp
  moreover have "head_map c x = (if tbyte P x e = k then None else head_map (Branch b e cl lc sc h t) x)" for x
  proof (cases "tbyte P x e = y")
    case True
    then show ?thesis using branch_map [OF ok, of x] c(1,3) by simp
  next
    case False
    then have "head_map c x = None" using not_in_child [OF ok c(1)] by simp
    moreover have "tbyte P x e \<noteq> k \<Longrightarrow> table_map hd_byte t (tbyte P x e) = None" using False c(2) by (metis not_None_eq)
    ultimately show ?thesis using branch_map [OF ok, of x] by simp
  qed
  ultimately show ?thesis by auto
qed

lemma two_entries: "head_ok P d (Branch b e cl lc sc h t) \<Longrightarrow> \<exists>x y zs. table_entries t = x # y # zs"
  using table_entries_card [of "pe_rand P" hd_byte t] by (cases "table_entries t" rule: remdups_adj.cases) (auto simp: head_ok_Branch)

text \<open>The result of an operation that may leave nothing.\<close>

definition result_map :: "'v head option \<Rightarrow> u8 list \<rightharpoonup> 'v" where
  "result_map r = (case r of None \<Rightarrow> Map.empty | Some h \<Rightarrow> head_map h)"

definition result_ok :: "patch_env \<Rightarrow> nat \<Rightarrow> 'v head option \<Rightarrow> bool" where
  "result_ok P d r \<longleftrightarrow> (\<forall>h. r = Some h \<longrightarrow> head_ok P d h)"

lemma result_simps [simp]:
  "result_map None = Map.empty" "result_map (Some h) = head_map h" "result_ok P d None" "result_ok P d (Some h) = head_ok P d h"
  by (simp_all add: result_map_def result_ok_def)

text \<open>The branch after its child under one byte has changed: with one child or none left it collapses.\<close>

definition collapse_branch :: "patch_env \<Rightarrow> nat \<Rightarrow> 'v head \<Rightarrow> 'v head option option" where
  "collapse_branch P at_depth br = (case table_entries (head_table br) of
     [] \<Rightarrow> Some None
   | [child] \<Rightarrow> do { remaining \<leftarrow> with_start P child at_depth; Some (Some remaining) }
   | _ \<Rightarrow> Some (Some br))"

lemma collapse_branch_intact:
  "head_ok P d br \<Longrightarrow> head_end_depth P br < key_len P \<Longrightarrow> collapse_branch P s br = Some (Some br)"
  using two_entries by (cases br) (fastforce simp: collapse_branch_def)+

text \<open>A branch whose child under one byte is replaced by a part of it, or taken away.\<close>

lemma shrink_branch:
  fixes t :: "'v head option list" and cl :: "u8 list" and e lc sc :: nat and h :: u128 and b k :: u8
  defines "this \<equiv> Branch b e cl lc sc h t" and "M \<equiv> table_map hd_byte t"
  assumes env: "env_ok P" and ok: "head_ok P d this" and s: "s \<le> d" and k: "M k = Some c"
    and f: "f (Some c) = Some (r, slot)" and slot: "result_ok P (Suc e) slot" "dom (result_map slot) \<subseteq> head_keys c"
  shows "\<exists>br res. modify_child P this k f = Some (r, br) \<and> collapse_branch P s br = Some res \<and> result_ok P d res
    \<and> (\<forall>x. result_map res x = (if tbyte P x e = k then result_map slot x else head_map this x))"
proof (cases slot)
  note ok' = ok [unfolded this_def]
  case (Some c')
  have c': "head_ok P (Suc e) c'" using slot(1) Some by simp
  have "childleaf_key c' \<in> head_keys c" using head_keys_ok(1) [OF c'] slot(2) Some by (auto simp: head_keys_def)
  then have below: "tbyte P (childleaf_key c') e = k" "agree P e (childleaf_key c') cl" using child_byte [OF ok' k [unfolded M_def]] by blast+
  obtain br where br: "modify_child P this k f = Some (r, br)" "head_ok P d br" "head_end_depth P br = e"
      "\<And>x. head_map br x = (if tbyte P x e = k then head_map c' x else head_map this x)"
    using modify_child_put [where f = f and ih = "head_hash P", OF env ok' _ c' below, of r] f k Some unfolding this_def M_def modify_child_def by auto
  have "head_end_depth P br < key_len P" using ok' br(3) by (simp add: head_ok_Branch)
  then show ?thesis using br collapse_branch_intact [OF br(2)] Some by auto
next
  note ok' = ok [unfolded this_def]
  case None
  obtain br where br: "modify_child P this k f = Some (r, br)" "table_ok (pe_rand P) hd_byte (head_table br)" "table_map hd_byte (head_table br) = M(k := None)"
      "2 \<le> card (dom (M(k := None))) \<longrightarrow> head_ok P d br \<and> (\<forall>x. head_map br x = (if tbyte P x e = k then None else head_map this x))"
    using modify_child_take [where f = f, OF env ok' k [unfolded M_def]] f None unfolding this_def M_def by auto
  have len: "length (table_entries (head_table br)) = card (dom (M(k := None)))" using table_entries_card [OF br(2)] br(3) by simp
  show ?thesis
  proof (cases "2 \<le> card (dom (M(k := None)))")
    case True
    then obtain x y zs where "table_entries (head_table br) = x # y # zs" using len by (metis Suc_le_length_iff numeral_2_eq_2)
    then show ?thesis using br True None by (auto simp: collapse_branch_def)
  next
    case False
    have "card (dom M) = Suc (card (dom (M(k := None))))" using k by (simp add: card_Suc_Diff1 [symmetric] domI del: card_Diff_insert)
    then have one: "card (dom (M(k := None))) = 1" using False ok' by (simp add: head_ok_Branch M_def)
    then obtain c1 where c1: "table_entries (head_table br) = [c1]" using len by (auto simp: length_Suc_conv)
    obtain y where y: "dom (M(k := None)) = {y}" using one by (auto simp: card_1_singleton_iff)
    have c1': "M y = Some c1" "y \<noteq> k" using table_entries_ran [OF br(2)] c1 y br(3) by (auto simp: ran_def dom_def set_eq_iff fun_upd_def split: if_splits)
    have "\<exists>r. with_start P c1 s = Some r \<and> head_ok P d r \<and> (\<forall>x. head_map r x = (if tbyte P x e = k then None else head_map this x))"
      unfolding this_def by (rule collapse_single [OF env ok' s]) (use c1' y in \<open>auto simp: M_def dom_def set_eq_iff\<close>)
    then show ?thesis using br(1) c1 None by (auto simp: collapse_branch_def)
  qed
qed

text \<open>What is left after a removal, and the leaf that was detached.\<close>

definition removed :: "patch_env \<Rightarrow> nat \<Rightarrow> u8 list \<Rightarrow> 'v head \<Rightarrow> 'v head option \<times> 'v head option \<Rightarrow> bool" where
  "removed P d k this = (\<lambda>(r, slot). result_ok P d slot \<and> result_map slot = (head_map this)(k := None)
    \<and> (\<forall>leaf. r = Some leaf \<longrightarrow> head_map leaf = head_map this |` {k}))"

lemma remove_branch:
  fixes t :: "'v head option list" and cl :: "u8 list" and e lc sc :: nat and h :: u128 and b :: u8
  defines "this \<equiv> Branch b e cl lc sc h t" and "M \<equiv> table_map hd_byte t"
  assumes env: "env_ok P" and ok: "head_ok P d this" and s: "s \<le> d" and k: "M (tbyte P k e) = Some c"
    and f: "f (Some c) = Some (r, slot)" and rem: "removed P (Suc e) k c (r, slot)"
  shows "\<exists>res. (do { (retired, this') \<leftarrow> modify_child P this (tbyte P k e) f;
      case table_entries (head_table this') of
        [] \<Rightarrow> Some (retired, None)
      | [child] \<Rightarrow> do { remaining \<leftarrow> with_start P child s; Some (retired, Some remaining) }
      | _ \<Rightarrow> Some (retired, Some this') }) = Some res \<and> removed P d k this res"
proof -
  let ?kb = "tbyte P k e"
  note ok' = ok [unfolded this_def]
  have at: "head_map this x = head_map c x" if "tbyte P x e = ?kb" for x
    using branch_map_at(2) [OF ok', of x c] k that by (simp add: this_def M_def)
  have slot: "result_ok P (Suc e) slot" "result_map slot = (head_map c)(k := None)" using rem by (simp_all add: removed_def)
  have "dom (result_map slot) \<subseteq> head_keys c" unfolding slot(2) by (auto simp: head_keys_def)
  from shrink_branch [where f = f, OF env ok' s k [unfolded M_def] f slot(1) this]
  obtain br res where br: "modify_child P this ?kb f = Some (r, br)" "collapse_branch P s br = Some res" "result_ok P d res"
      "\<And>x. result_map res x = (if tbyte P x e = ?kb then result_map slot x else head_map this x)" unfolding this_def by blast
  have "result_map res = (head_map this)(k := None)" unfolding fun_eq_iff br(4) slot(2) using at by auto
  moreover have "\<forall>leaf. r = Some leaf \<longrightarrow> head_map leaf = head_map this |` {k}"
    using rem at [of k] by (auto simp: removed_def restrict_map_def fun_eq_iff)
  moreover have "(case table_entries (head_table br) of [] \<Rightarrow> Some (r, None)
      | [child] \<Rightarrow> do { remaining \<leftarrow> with_start P child s; Some (r, Some remaining) } | _ \<Rightarrow> Some (r, Some br)) = Some (r, res)"
    using br(2) by (auto simp: collapse_branch_def Option.bind_eq_Some_conv split: list.splits)
  ultimately show ?thesis using br(1,3) by (simp add: removed_def)
qed

lemma remove_leaf_spec:
  assumes "env_ok P" "head_ok P d this" "length k = key_len P" "agree P d k (childleaf_key this)" "s \<le> d"
  shows "\<exists>res. remove_leaf P (Some this) (tree_of P k) s = Some res \<and> removed P d k this res"
  using assms
proof (induction "size this" arbitrary: this d s rule: less_induct)
  case less
  note env = less.prems(1) and ok = less.prems(2) and k = less.prems(3)
  have "\<forall>j < key_len P. j < s \<longrightarrow> tbyte P (childleaf_key this) j = tree_of P k ! j" using less.prems(4,5) by (auto simp: agree_def)
  then have "head_has_prefix P this s (tree_of P k) = Some (\<exists>x \<in> head_keys this. starts P (tree_of P k) x)"
    using head_has_prefix_spec [OF env ok, of "tree_of P k" s] by simp
  also have "(\<exists>x \<in> head_keys this. starts P (tree_of P k) x) \<longleftrightarrow> k \<in> head_keys this"
    using starts_tree_of [OF env k] head_keys_ok(2) [OF ok] k by blast
  finally have hp: "head_has_prefix P this s (tree_of P k) = Some (k \<in> head_keys this)" .
  show ?case
  proof (cases "k \<in> head_keys this")
    case False
    then show ?thesis using hp ok by (subst remove_leaf.simps) (simp add: removed_def head_keys_def domIff fun_upd_idem)
  next
    case True
    show ?thesis
    proof (cases this)
      case (Branch b e cl lc sc h t)
      have e: "e < key_len P" and t: "table_ok (pe_rand P) hd_byte t" using ok Branch by (simp_all add: head_ok_Branch)
      have kcl: "agree P e k cl" using head_keys_ok(2) [OF ok True] Branch by simp
      obtain c where c: "table_map hd_byte t (tbyte P k e) = Some c"
        using True branch_map [OF ok [unfolded Branch], of k] Branch by (auto simp: head_keys_def split: option.splits)
      let ?f = "\<lambda>opt. remove_leaf P opt (tree_of P k) e"
      obtain res where res: "?f (Some c) = Some res" "removed P (Suc e) k c res"
        using less.hyps [unfolded Branch, OF child_size_map [OF t c] env child_agree(1) [OF ok [unfolded Branch] kcl c] k child_agree(2) [OF ok [unfolded Branch] kcl c], of e] by auto
      obtain r slot where "res = (r, slot)" by (cases res)
      then show ?thesis
        using remove_branch [where f = ?f, OF env ok [unfolded Branch] less.prems(5) c] res hp True Branch e
        by (subst remove_leaf.simps) simp
    qed (use hp True in \<open>(subst remove_leaf.simps, auto simp: removed_def restrict_map_def fun_eq_iff)+\<close>)
  qed
qed

end
