(* ===== verification/Patch_Query.thy ===== *)
theory Patch_Query
  imports Patch_Update
begin

text \<open>
  The lookups of a PATCH node (\<open>patch.rs\<close>, \<open>patch/branch.rs\<close>, \<open>patch/leaf.rs\<close>): the value of a key, the
  subtree below a prefix, the number of distinct segment values below a prefix, and the infixes that
  follow a prefix, all of them, those in a range, the first of them and their number. Keys and prefixes
  are in tree order. A callback that is run for each infix is the list of the infixes in the order of
  the calls.
\<close>

section \<open>The value of a key\<close>

text \<open>
  A branch at the full depth would answer with the leaf its representative points to; such branches are
  not built.
\<close>

function head_get :: "patch_env \<Rightarrow> 'v head \<Rightarrow> nat \<Rightarrow> u8 list \<Rightarrow> 'v option option" where
  "head_get P h at_depth key = (case h of
     Leaf _ k _ v \<Rightarrow> do { m \<leftarrow> key_matches (pe_schema P) k at_depth key; Some (if m then Some v else None) }
   | LocalLeaf _ k v \<Rightarrow> do { m \<leftarrow> key_matches (pe_schema P) k at_depth key; Some (if \<not> m then None else Some v) }
   | Branch _ e cl _ _ _ t \<Rightarrow> do {
       ok \<leftarrow> key_has_prefix (pe_schema P) cl at_depth (take (min (key_len P) e) key);
       if \<not> ok then Some None
       else if key_len P \<le> e then Some (map_of (head_leaves h) cl)
       else do {
         b \<leftarrow> idx key e;
         child \<leftarrow> child_get P h b;
         case child of Some c \<Rightarrow> head_get P c e key | None \<Rightarrow> Some None
       }
     })"
  by pat_completeness auto
termination
  by (relation "measure (\<lambda>(P, h, d, p). size h)") (auto dest: child_get_size)

function head_get_key :: "patch_env \<Rightarrow> 'v head \<Rightarrow> nat \<Rightarrow> u8 list \<Rightarrow> u8 list option option" where
  "head_get_key P h at_depth key = (case h of
     Leaf _ k _ _ \<Rightarrow> do { m \<leftarrow> key_matches (pe_schema P) k at_depth key; Some (if m then Some k else None) }
   | LocalLeaf _ k _ \<Rightarrow> do { m \<leftarrow> key_matches (pe_schema P) k at_depth key; Some (if m then Some k else None) }
   | Branch _ e cl _ _ _ t \<Rightarrow> do {
       ok \<leftarrow> key_has_prefix (pe_schema P) cl at_depth (take (min e (key_len P)) key);
       if \<not> ok then Some None
       else if key_len P \<le> e then Some (Some cl)
       else do {
         b \<leftarrow> idx key e;
         child \<leftarrow> child_get P h b;
         case child of Some c \<Rightarrow> head_get_key P c e key | None \<Rightarrow> Some None
       }
     })"
  by pat_completeness auto
termination
  by (relation "measure (\<lambda>(P, h, d, p). size h)") (auto dest: child_get_size)

section \<open>Segments below a prefix\<close>

definition key_segmented_len :: "key_schema \<Rightarrow> u8 list \<Rightarrow> nat \<Rightarrow> u8 list \<Rightarrow> nat option" where
  "key_segmented_len S key at_depth prefix = do {
     ok \<leftarrow> all_panic (\<lambda>d. do { b \<leftarrow> tree_byte S key d; Some (b = prefix ! d) }) [at_depth..<length prefix];
     Some (if ok then 1 else 0)
   }"

function segmented_len :: "patch_env \<Rightarrow> 'v head \<Rightarrow> nat \<Rightarrow> u8 list \<Rightarrow> nat option" where
  "segmented_len P h at_depth prefix = (case h of
     Leaf _ k _ _ \<Rightarrow> key_segmented_len (pe_schema P) k at_depth prefix
   | LocalLeaf _ k _ \<Rightarrow> key_segmented_len (pe_schema P) k at_depth prefix
   | Branch _ e cl _ sc _ t \<Rightarrow> do {
       ok \<leftarrow> key_has_prefix (pe_schema P) cl at_depth (take (min (length prefix) e) prefix);
       if \<not> ok then Some 0
       else if length prefix \<le> e then do {
         same \<leftarrow> same_segment_tree (pe_schema P) (length prefix) e;
         Some (if \<not> same then 1 else sc)
       }
       else do {
         child \<leftarrow> child_get P h (prefix ! e);
         case child of Some c \<Rightarrow> segmented_len P c e prefix | None \<Rightarrow> Some 0
       }
     })"
  by pat_completeness auto
termination
  by (relation "measure (\<lambda>(P, h, d, p). size h)") (auto dest: child_get_size)

text \<open>The shallowest subtree whose keys all share the prefix.\<close>

function locate_prefix :: "patch_env \<Rightarrow> 'v head \<Rightarrow> nat \<Rightarrow> u8 list \<Rightarrow> 'v head option option" where
  "locate_prefix P h at_depth prefix = do {
     let e = head_end_depth P h;
     ok \<leftarrow> key_has_prefix (pe_schema P) (childleaf_key h) at_depth (take (min (length prefix) e) prefix);
     if \<not> ok then Some None
     else if length prefix \<le> e then Some (Some h)
     else case h of
       Branch _ _ _ _ _ _ t \<Rightarrow> do {
         child \<leftarrow> child_get P h (prefix ! e);
         case child of Some c \<Rightarrow> locate_prefix P c e prefix | None \<Rightarrow> Some None
       }
     | _ \<Rightarrow> None
   }"
  by pat_completeness auto
termination
  by (relation "measure (\<lambda>(P, h, d, p). size h)") (auto dest: child_get_size)

section \<open>Infixes after a prefix\<close>

text \<open>\<open>core::array::from_fn(|i| key[O::TREE_TO_KEY[PREFIX_LEN + i]])\<close>.\<close>

definition infix_at :: "key_schema \<Rightarrow> u8 list \<Rightarrow> nat \<Rightarrow> nat \<Rightarrow> u8 list option" where
  "infix_at S key prefix_len infix_len = map_panic (\<lambda>i. tree_byte S key (prefix_len + i)) [0..<infix_len]"

definition key_infixes :: "key_schema \<Rightarrow> u8 list \<Rightarrow> u8 list \<Rightarrow> nat \<Rightarrow> nat \<Rightarrow> u8 list list option" where
  "key_infixes S key prefix infix_len at_depth = do {
     ok \<leftarrow> key_has_prefix S key at_depth prefix;
     if \<not> ok then Some [] else do { x \<leftarrow> infix_at S key (length prefix) infix_len; Some [x] }
   }"

lemma map_panic_cong [fundef_cong]:
  "xs = ys \<Longrightarrow> (\<And>x. x \<in> set ys \<Longrightarrow> f x = g x) \<Longrightarrow> map_panic f xs = map_panic g ys"
proof (induction xs arbitrary: ys)
  case (Cons x xs)
  then show ?case by (cases "g x") auto
qed simp

lemma entry_in_size: "c \<in> set (table_entries t) \<Longrightarrow> size c < size (Branch b e cl lc sc h t)"
  using entry_size by fastforce

lemma find_map_panic_cong [fundef_cong]:
  "xs = ys \<Longrightarrow> (\<And>x. x \<in> set ys \<Longrightarrow> f x = g x) \<Longrightarrow> find_map_panic f xs = find_map_panic g ys"
proof (induction xs arbitrary: ys)
  case (Cons x xs)
  then show ?case by (cases "g x") (auto split: option.splits)
qed simp

function head_infixes :: "patch_env \<Rightarrow> 'v head \<Rightarrow> u8 list \<Rightarrow> nat \<Rightarrow> nat \<Rightarrow> u8 list list option" where
  "head_infixes P h prefix infix_len at_depth = (case h of
     Leaf _ k _ _ \<Rightarrow> key_infixes (pe_schema P) k prefix infix_len at_depth
   | LocalLeaf _ k _ \<Rightarrow> key_infixes (pe_schema P) k prefix infix_len at_depth
   | Branch _ e cl _ _ _ t \<Rightarrow> do {
       ok \<leftarrow> key_has_prefix (pe_schema P) cl at_depth (take (min (length prefix) e) prefix);
       if \<not> ok then Some []
       else if length prefix + infix_len \<le> e then do { x \<leftarrow> infix_at (pe_schema P) cl (length prefix) infix_len; Some [x] }
       else if e < length prefix then do {
         child \<leftarrow> child_get P h (prefix ! e);
         case child of Some c \<Rightarrow> head_infixes P c prefix infix_len e | None \<Rightarrow> Some []
       }
       else do {
         xss \<leftarrow> map_panic (\<lambda>c. head_infixes P c prefix infix_len e) (table_entries t);
         Some (concat xss)
       }
     })"
  by pat_completeness auto
termination
  by (relation "measure (\<lambda>(P, h, p, il, d). size h)") (auto dest: child_get_size entry_size)

text \<open>\<open>infixes_from_matched_prefix\<close>: the prefix is known to match.\<close>

function infixes_from_matched_prefix :: "patch_env \<Rightarrow> 'v head \<Rightarrow> nat \<Rightarrow> nat \<Rightarrow> u8 list list option" where
  "infixes_from_matched_prefix P h prefix_len infix_len =
     (if prefix_len + infix_len \<le> head_end_depth P h then do {
        x \<leftarrow> infix_at (pe_schema P) (childleaf_key h) prefix_len infix_len;
        Some [x]
      }
      else case h of
        Branch _ _ _ _ _ _ t \<Rightarrow> do {
          xss \<leftarrow> map_panic (\<lambda>c. infixes_from_matched_prefix P c prefix_len infix_len) (table_entries t);
          Some (concat xss)
        }
      | _ \<Rightarrow> None)"
  by pat_completeness auto
termination
  by (relation "measure (\<lambda>(P, h, p, il). size h)") (auto dest: entry_size)

section \<open>Infixes in a range\<close>

text \<open>
  The part of the infix on the compressed path against the two bounds: nothing when it leaves the range,
  otherwise whether it still equals the lower and the upper bound.
\<close>

fun range_tight :: "key_schema \<Rightarrow> u8 list \<Rightarrow> nat \<Rightarrow> u8 list \<Rightarrow> u8 list \<Rightarrow> nat list \<Rightarrow> bool \<Rightarrow> bool \<Rightarrow> (bool \<times> bool) option option" where
  "range_tight S key prefix_len lo hi [] min_tight max_tight = Some (Some (min_tight, max_tight))"
| "range_tight S key prefix_len lo hi (i # is) min_tight max_tight = do {
     b \<leftarrow> tree_byte S key (prefix_len + i);
     l \<leftarrow> idx lo i;
     u \<leftarrow> idx hi i;
     if min_tight \<and> b < l then Some None
     else (let min' = (min_tight \<and> \<not> b > l) in
       if max_tight \<and> b > u then Some None
       else (let max' = (max_tight \<and> \<not> b < u) in range_tight S key prefix_len lo hi is min' max'))
   }"

definition key_infixes_range :: "key_schema \<Rightarrow> u8 list \<Rightarrow> u8 list \<Rightarrow> nat \<Rightarrow> u8 list \<Rightarrow> u8 list \<Rightarrow> u8 list list option" where
  "key_infixes_range S key prefix at_depth lo hi = do {
     ok \<leftarrow> key_has_prefix S key at_depth prefix;
     if \<not> ok then Some []
     else do { x \<leftarrow> infix_at S key (length prefix) (length lo); Some (if lo \<le> x \<and> x \<le> hi then [x] else []) }
   }"

function head_infixes_range :: "patch_env \<Rightarrow> 'v head \<Rightarrow> u8 list \<Rightarrow> nat \<Rightarrow> u8 list \<Rightarrow> u8 list \<Rightarrow> u8 list list option" where
  "head_infixes_range P h prefix at_depth lo hi = (case h of
     Leaf _ k _ _ \<Rightarrow> key_infixes_range (pe_schema P) k prefix at_depth lo hi
   | LocalLeaf _ k _ \<Rightarrow> key_infixes_range (pe_schema P) k prefix at_depth lo hi
   | Branch _ e cl _ _ _ t \<Rightarrow> do {
       ok \<leftarrow> key_has_prefix (pe_schema P) cl at_depth (take (min (length prefix) e) prefix);
       if \<not> ok then Some []
       else if length prefix + length lo \<le> e then do {
         x \<leftarrow> infix_at (pe_schema P) cl (length prefix) (length lo);
         Some (if lo \<le> x \<and> x \<le> hi then [x] else [])
       }
       else if e < length prefix then do {
         child \<leftarrow> child_get P h (prefix ! e);
         case child of Some c \<Rightarrow> head_infixes_range P c prefix e lo hi | None \<Rightarrow> Some []
       }
       else do {
         let i = e - length prefix;
         tight \<leftarrow> range_tight (pe_schema P) cl (length prefix) lo hi [0..<i] True True;
         case tight of
           None \<Rightarrow> Some []
         | Some (min_tight, max_tight) \<Rightarrow> do {
             xss \<leftarrow> map_panic (\<lambda>c.
               if min_tight \<and> i < length lo \<and> hd_byte c < lo ! i then Some []
               else if max_tight \<and> i < length lo \<and> hd_byte c > hi ! i then Some []
               else head_infixes_range P c prefix e lo hi) (table_entries t);
             Some (concat xss)
           }
       }
     })"
  by pat_completeness auto
termination
  by (relation "measure (\<lambda>(P, h, p, d, lo, hi). size h)") (auto dest: child_get_size entry_size)

definition key_first_infix_range :: "key_schema \<Rightarrow> u8 list \<Rightarrow> u8 list \<Rightarrow> nat \<Rightarrow> u8 list \<Rightarrow> u8 list \<Rightarrow> u8 list option option" where
  "key_first_infix_range S key prefix at_depth lo hi = do {
     ok \<leftarrow> key_has_prefix S key at_depth prefix;
     if \<not> ok then Some None
     else do { x \<leftarrow> infix_at S key (length prefix) (length lo); Some (if lo \<le> x \<and> x \<le> hi then Some x else None) }
   }"

text \<open>The range of bytes \<open>lower..=upper\<close>.\<close>

definition byte_range :: "u8 \<Rightarrow> u8 \<Rightarrow> u8 list" where
  "byte_range lower upper = map word_of_nat [unat lower..<Suc (unat upper)]"

function head_first_infix_range :: "patch_env \<Rightarrow> 'v head \<Rightarrow> u8 list \<Rightarrow> nat \<Rightarrow> u8 list \<Rightarrow> u8 list \<Rightarrow> u8 list option option" where
  "head_first_infix_range P h prefix at_depth lo hi = (case h of
     Leaf _ k _ _ \<Rightarrow> key_first_infix_range (pe_schema P) k prefix at_depth lo hi
   | LocalLeaf _ k _ \<Rightarrow> key_first_infix_range (pe_schema P) k prefix at_depth lo hi
   | Branch _ e cl _ _ _ t \<Rightarrow> do {
       ok \<leftarrow> key_has_prefix (pe_schema P) cl at_depth (take (min (length prefix) e) prefix);
       if \<not> ok then Some None
       else if length prefix + length lo \<le> e then do {
         x \<leftarrow> infix_at (pe_schema P) cl (length prefix) (length lo);
         Some (if lo \<le> x \<and> x \<le> hi then Some x else None)
       }
       else if e < length prefix then do {
         child \<leftarrow> child_get P h (prefix ! e);
         case child of Some c \<Rightarrow> head_first_infix_range P c prefix e lo hi | None \<Rightarrow> Some None
       }
       else do {
         let i = e - length prefix;
         tight \<leftarrow> range_tight (pe_schema P) cl (length prefix) lo hi [0..<i] True True;
         case tight of
           None \<Rightarrow> Some None
         | Some (min_tight, max_tight) \<Rightarrow> do {
             l \<leftarrow> idx lo i;
             u \<leftarrow> idx hi i;
             let lower = (if min_tight then l else 0);
             let upper = (if max_tight then u else 255);
             find_map_panic (\<lambda>b. do {
               child \<leftarrow> child_get P h b;
               case child of None \<Rightarrow> Some None | Some c \<Rightarrow> head_first_infix_range P c prefix e lo hi
             }) (byte_range lower upper)
           }
       }
     })"
  by pat_completeness auto
termination
  by (relation "measure (\<lambda>(P, h, p, d, lo, hi). size h)") (auto dest: child_get_size)

definition key_count_range :: "key_schema \<Rightarrow> u8 list \<Rightarrow> u8 list \<Rightarrow> nat \<Rightarrow> u8 list \<Rightarrow> u8 list \<Rightarrow> nat option" where
  "key_count_range S key prefix at_depth lo hi = do {
     ok \<leftarrow> key_has_prefix S key at_depth prefix;
     if \<not> ok then Some 0
     else do { x \<leftarrow> infix_at S key (length prefix) (length lo); Some (if lo \<le> x \<and> x \<le> hi then 1 else 0) }
   }"

function head_count_range :: "patch_env \<Rightarrow> 'v head \<Rightarrow> u8 list \<Rightarrow> nat \<Rightarrow> u8 list \<Rightarrow> u8 list \<Rightarrow> nat option" where
  "head_count_range P h prefix at_depth lo hi = (case h of
     Leaf _ k _ _ \<Rightarrow> key_count_range (pe_schema P) k prefix at_depth lo hi
   | LocalLeaf _ k _ \<Rightarrow> key_count_range (pe_schema P) k prefix at_depth lo hi
   | Branch _ e cl _ _ _ t \<Rightarrow> do {
       ok \<leftarrow> key_has_prefix (pe_schema P) cl at_depth (take (min (length prefix) e) prefix);
       if \<not> ok then Some 0
       else if length prefix + length lo \<le> e then do {
         x \<leftarrow> infix_at (pe_schema P) cl (length prefix) (length lo);
         Some (if lo \<le> x \<and> x \<le> hi then 1 else 0)
       }
       else if e < length prefix then do {
         child \<leftarrow> child_get P h (prefix ! e);
         case child of Some c \<Rightarrow> head_count_range P c prefix e lo hi | None \<Rightarrow> Some 0
       }
       else do {
         let i = e - length prefix;
         tight \<leftarrow> range_tight (pe_schema P) cl (length prefix) lo hi [0..<i] True True;
         case tight of
           None \<Rightarrow> Some 0
         | Some (min_tight, max_tight) \<Rightarrow> do {
             l \<leftarrow> idx lo i;
             u \<leftarrow> idx hi i;
             ns \<leftarrow> map_panic (\<lambda>c.
               if min_tight \<and> hd_byte c < l \<or> max_tight \<and> hd_byte c > u then Some 0
               else if min_tight \<and> hd_byte c = l \<or> max_tight \<and> hd_byte c = u then head_count_range P c prefix e lo hi
               else count_segment P c e) (table_entries t);
             Some (sum_list ns)
           }
       }
     })"
  by pat_completeness auto
termination
  by (relation "measure (\<lambda>(P, h, p, d, lo, hi). size h)") (auto dest: child_get_size entry_size)

declare head_get.simps [simp del] head_get_key.simps [simp del] segmented_len.simps [simp del] locate_prefix.simps [simp del]
  head_infixes.simps [simp del] infixes_from_matched_prefix.simps [simp del] head_infixes_range.simps [simp del]
  head_first_infix_range.simps [simp del] head_count_range.simps [simp del]

end
