(* ===== verification/Patch_Lookup.thy ===== *)
theory Patch_Lookup
  imports Patch_Query
begin

text \<open>
  What the lookups of a PATCH node return, in terms of its map. They share one walk along a prefix, and
  so one induction: at a branch the compressed path contradicts the prefix, or the prefix ends on it, or
  the walk goes on in the child under the next byte.
\<close>

section \<open>The walk\<close>

definition below :: "patch_env \<Rightarrow> u8 list \<Rightarrow> 'v head \<Rightarrow> u8 list set" where
  "below P prefix h = {k \<in> head_keys h. starts P prefix k}"

definition matched :: "patch_env \<Rightarrow> u8 list \<Rightarrow> nat \<Rightarrow> 'v head \<Rightarrow> bool" where
  "matched P prefix s h \<longleftrightarrow> (\<forall>j < length prefix. j < s \<longrightarrow> tbyte P (childleaf_key h) j = prefix ! j)"

lemma matched_0 [simp]: "matched P prefix 0 h"
  by (simp add: matched_def)

lemma walk_induct [consumes 4, case_names leaf miss here no_child child]:
  assumes env: "env_ok P" and ok: "head_ok P d h" and len: "length prefix \<le> key_len P" and m: "matched P prefix s h"
    and leaf: "\<And>h s k v. leaf_for P k v h \<Longrightarrow> head_table h = [] \<Longrightarrow> matched P prefix s h \<Longrightarrow> R h s"
    and miss: "\<And>d b e cl lc sc hs t s. head_ok P d (Branch b e cl lc sc hs t) \<Longrightarrow>
      key_has_prefix (pe_schema P) cl s (take (min (length prefix) e) prefix) = Some False \<Longrightarrow>
      below P prefix (Branch b e cl lc sc hs t) = {} \<Longrightarrow> R (Branch b e cl lc sc hs t) s"
    and here: "\<And>d b e cl lc sc hs t s. head_ok P d (Branch b e cl lc sc hs t) \<Longrightarrow>
      key_has_prefix (pe_schema P) cl s (take (min (length prefix) e) prefix) = Some True \<Longrightarrow> length prefix \<le> e \<Longrightarrow>
      below P prefix (Branch b e cl lc sc hs t) = head_keys (Branch b e cl lc sc hs t) \<Longrightarrow>
      (\<And>x c. table_map hd_byte t x = Some c \<Longrightarrow> below P prefix c = head_keys c \<and> R c e) \<Longrightarrow> R (Branch b e cl lc sc hs t) s"
    and no_child: "\<And>d b e cl lc sc hs t s. head_ok P d (Branch b e cl lc sc hs t) \<Longrightarrow>
      key_has_prefix (pe_schema P) cl s (take (min (length prefix) e) prefix) = Some True \<Longrightarrow> e < length prefix \<Longrightarrow>
      child_get P (Branch b e cl lc sc hs t) (prefix ! e) = Some None \<Longrightarrow>
      below P prefix (Branch b e cl lc sc hs t) = {} \<Longrightarrow> R (Branch b e cl lc sc hs t) s"
    and child: "\<And>d b e cl lc sc hs t s c. head_ok P d (Branch b e cl lc sc hs t) \<Longrightarrow>
      key_has_prefix (pe_schema P) cl s (take (min (length prefix) e) prefix) = Some True \<Longrightarrow> e < length prefix \<Longrightarrow>
      child_get P (Branch b e cl lc sc hs t) (prefix ! e) = Some (Some c) \<Longrightarrow> table_map hd_byte t (prefix ! e) = Some c \<Longrightarrow>
      below P prefix (Branch b e cl lc sc hs t) = below P prefix c \<Longrightarrow> R c e \<Longrightarrow> R (Branch b e cl lc sc hs t) s"
  shows "R h s"
  using ok m
proof (induction "size h" arbitrary: h d s rule: less_induct)
  case less
  show ?case
  proof (cases h)
    case (Branch b e cl lc sc hs t)
    note ok = less.prems(1) [unfolded Branch]
    have t: "table_ok (pe_rand P) hd_byte t" using ok by (simp add: head_ok_Branch)
    have path: "key_has_prefix (pe_schema P) cl s (take (min (length prefix) e) prefix) = Some (starts P (take e prefix) cl)"
      using walk_path [OF env ok len] less.prems(2) Branch by (simp add: matched_def)
    note IH = less.hyps [unfolded Branch, OF child_size_map [OF t]]
    show ?thesis
    proof (cases "starts P (take e prefix) cl")
      case False
      then show ?thesis using miss [OF ok] path walk_keys(1) [OF ok] Branch by (auto simp: below_def)
    next
      case st: True
      show ?thesis
      proof (cases "e < length prefix")
        case False
        have sub: "below P prefix c = head_keys c \<and> R c e" if c: "table_map hd_byte t x = Some c" for x c
        proof
          have "head_keys c \<subseteq> head_keys (Branch b e cl lc sc hs t)" unfolding branch_keys [OF t] using c by (auto simp: ran_def)
          then show "below P prefix c = head_keys c" using walk_keys(2) [OF ok _ st] False by (auto simp: below_def)
          have cok: "head_ok P (Suc e) c" using ok c by (simp add: head_ok_Branch)
          note cl = head_keys_ok(1) [OF cok]
          have "matched P prefix e c" using \<open>below P prefix c = head_keys c\<close> cl
            by (auto simp: below_def matched_def starts_def)
          then show "R c e" using IH [OF c cok] by blast
        qed
        have "below P prefix (Branch b e cl lc sc hs t) = head_keys (Branch b e cl lc sc hs t)"
          using walk_keys(2) [OF ok _ st] False by (auto simp: below_def)
        with here [OF ok] sub path st False show ?thesis unfolding Branch by (metis not_le)
      next
        case True
        show ?thesis
        proof (cases "table_map hd_byte t (prefix ! e)")
          case None
          then show ?thesis using no_child [OF ok] path st True walk_child(1) [OF ok True st] child_get_eq [OF ok] Branch by (simp add: below_def)
        next
          case (Some c)
          then have "R c e" using IH [OF Some] walk_child(2) [OF ok True st Some] by (auto simp: matched_def)
          then show ?thesis using child [OF ok] path st True walk_child(1) [OF ok True st] child_get_eq [OF ok] Branch Some by (simp add: below_def)
        qed
      qed
    qed
  qed (use less.prems leaf in \<open>auto simp: leaf_for_def\<close>)
qed

lemma leaf_below: "leaf_for P k v h \<Longrightarrow> below P prefix h = (if starts P prefix k then {k} else {})"
  by (auto simp: below_def leaf_for_simps)

text \<open>The comparison of the key of a leaf with a prefix that matches so far.\<close>

lemma leaf_has_prefix:
  assumes "env_ok P" "leaf_for P k v h" "length prefix \<le> key_len P" "matched P prefix s h"
  shows "key_has_prefix (pe_schema P) k s prefix = Some (starts P prefix k)"
  using key_has_prefix_eq [OF assms(1) leaf_for_simps(4) [OF assms(2)] assms(3)] assms(4) leaf_for_simps(3) [OF assms(2)]
  by (auto simp: starts_def matched_def)

lemma leaf_cases:
  assumes "leaf_for P k v h" "head_table h = []"
  obtains b where "h = Leaf b k (pe_leaf_hash P k) v" | b where "h = LocalLeaf b k v"
proof (cases h)
  case (Branch b e cl lc sc hs t)
  then show thesis using assms by (simp add: leaf_for_def table_entries_def map_filter_simps)
qed (use assms that in \<open>auto simp: leaf_for_def\<close>)

section \<open>The value of a key\<close>

lemma key_matches_eq: "length query = ks_key_len S \<Longrightarrow> key_matches S k s query = key_has_prefix S k s query"
  by (simp add: key_matches_def key_has_prefix_def)

lemma map_at_below: "length k = key_len P \<Longrightarrow> below P (tree_of P k) h = {} \<Longrightarrow> head_map h k = None"
  by (cases "head_map h k") (auto simp: below_def head_keys_def starts_def)

lemma head_get_spec:
  assumes "env_ok P" "head_ok P d h" "length k = key_len P" "matched P (tree_of P k) s h"
  shows "head_get P h s (tree_of P k) = Some (head_map h k)"
proof -
  have len: "length (tree_of P k) \<le> key_len P" by simp
  show ?thesis using assms(1,2) len assms(4)
  proof (induction rule: walk_induct)
    case (leaf h s k' v)
    have "key_matches (pe_schema P) k' s (tree_of P k) = Some (k' = k)"
      using leaf_has_prefix [OF assms(1) leaf(1) len leaf(3)] starts_tree_of [OF assms(1,3) leaf_for_simps(4) [OF leaf(1)]] by (simp add: key_matches_eq)
    with leaf(1,2) show ?case by (cases rule: leaf_cases) (auto simp: head_get.simps)
  next
    case (miss d b e cl lc sc hs t s)
    then have "e < key_len P" by (simp add: head_ok_Branch)
    with miss map_at_below [OF assms(3) miss(3)] show ?case by (simp add: head_get.simps)
  next
    case (here d b e cl lc sc hs t s)
    then show ?case by (simp add: head_ok_Branch)
  next
    case (no_child d b e cl lc sc hs t s)
    with map_at_below [OF assms(3) no_child(5)] show ?case by (subst head_get.simps) simp
  next
    case (child d b e cl lc sc hs t s c)
    then have "head_map (Branch b e cl lc sc hs t) k = head_map c k" using branch_map_at(2) [OF child(1), of k c] by simp
    with child show ?case by (subst head_get.simps) simp
  qed
qed

lemma head_get_key_spec:
  assumes "env_ok P" "head_ok P d h" "length k = key_len P" "matched P (tree_of P k) s h"
  shows "head_get_key P h s (tree_of P k) = Some (if k \<in> head_keys h then Some k else None)"
proof -
  have len: "length (tree_of P k) \<le> key_len P" by simp
  have none: "k \<notin> head_keys h" if "below P (tree_of P k) h = {}" for h :: "'a head" using map_at_below [OF assms(3) that] by (simp add: head_keys_def domIff)
  show ?thesis using assms(1,2) len assms(4)
  proof (induction rule: walk_induct)
    case (leaf h s k' v)
    have "key_matches (pe_schema P) k' s (tree_of P k) = Some (k' = k)"
      using leaf_has_prefix [OF assms(1) leaf(1) len leaf(3)] starts_tree_of [OF assms(1,3) leaf_for_simps(4) [OF leaf(1)]] by (simp add: key_matches_eq)
    with leaf(1,2) show ?case by (cases rule: leaf_cases) (auto simp: head_get_key.simps)
  next
    case (miss d b e cl lc sc hs t s)
    then have "e < key_len P" by (simp add: head_ok_Branch)
    with miss none show ?case by (simp add: head_get_key.simps min.commute)
  next
    case (here d b e cl lc sc hs t s)
    then show ?case by (simp add: head_ok_Branch)
  next
    case (no_child d b e cl lc sc hs t s)
    with none show ?case by (subst head_get_key.simps) (simp add: min.commute)
  next
    case (child d b e cl lc sc hs t s c)
    then have "k \<in> head_keys (Branch b e cl lc sc hs t) \<longleftrightarrow> k \<in> head_keys c" using branch_map_at(2) [OF child(1), of k c] by (simp add: head_keys_def domIff)
    with child show ?case by (subst head_get_key.simps) (simp add: min.commute)
  qed
qed

text \<open>The subtree of a prefix.\<close>

lemma locate_prefix_spec:
  assumes "env_ok P" "head_ok P d h" "length prefix \<le> key_len P" "matched P prefix s h"
  shows "\<exists>r. locate_prefix P h s prefix = Some r \<and> (case r of None \<Rightarrow> below P prefix h = {}
    | Some h' \<Rightarrow> (\<exists>d. head_ok P d h') \<and> length prefix \<le> head_end_depth P h' \<and> head_keys h' = below P prefix h)"
  using assms
proof (induction rule: walk_induct)
  case (leaf h s k v)
  have "locate_prefix P h s prefix = Some (if starts P prefix k then Some h else None)"
    using leaf_has_prefix [OF assms(1) leaf(1) assms(3) leaf(3)] leaf_for_simps(3,7) [OF leaf(1)] assms(3)
    by (subst locate_prefix.simps) simp
  then show ?case using leaf_below [OF leaf(1)] leaf_for_simps(2,7) [OF leaf(1)] leaf_for_simps(5) [OF leaf(1), of 0] assms(3) by auto
next
  case (miss d b e cl lc sc hs t s)
  then show ?case by (subst locate_prefix.simps) simp
next
  case (here d b e cl lc sc hs t s)
  then have "locate_prefix P (Branch b e cl lc sc hs t) s prefix = Some (Some (Branch b e cl lc sc hs t))" by (subst locate_prefix.simps) simp
  then show ?case using here by auto
next
  case (no_child d b e cl lc sc hs t s)
  then show ?case by (subst locate_prefix.simps) simp
next
  case (child d b e cl lc sc hs t s c)
  then have "locate_prefix P (Branch b e cl lc sc hs t) s prefix = locate_prefix P c e prefix" by (subst locate_prefix.simps) simp
  then show ?case using child(7) unfolding child(6) by simp
qed

section \<open>Segments\<close>

text \<open>
  The segments of a schema are runs of depths. \<open>seg_end\<close> says where the segment of a depth ends.
\<close>

abbreviation seg_of :: "patch_env \<Rightarrow> nat \<Rightarrow> nat" where
  "seg_of P d \<equiv> ks_segments (pe_schema P) ! (ks_tree_to_key (pe_schema P) ! d)"

definition seg_end :: "patch_env \<Rightarrow> nat \<Rightarrow> nat \<Rightarrow> bool" where
  "seg_end P d B \<longleftrightarrow> d < B \<and> B \<le> key_len P \<and> (\<forall>j. d \<le> j \<longrightarrow> j < key_len P \<longrightarrow> (seg_of P j = seg_of P d \<longleftrightarrow> j < B))"

definition key_prefix :: "patch_env \<Rightarrow> nat \<Rightarrow> u8 list \<Rightarrow> u8 list" where
  "key_prefix P n k = map (tbyte P k) [0..<n]"

lemma key_prefix_eq: "key_prefix P n k = key_prefix P n k' \<longleftrightarrow> agree P n k k'"
  by (auto simp: key_prefix_def agree_def)

lemma same_segment_in:
  assumes "env_ok P" "a < key_len P" "b < key_len P"
  shows "same_segment_tree (pe_schema P) a b = Some (seg_of P a = seg_of P b)"
  using assms schema_perms(4,8,9) [of "pe_schema P"] by (simp add: env_ok_def same_segment_tree_def segment_of_tree_depth_def)

lemma finite_keys: "finite (head_keys h)"
  by (simp add: head_keys_def head_map_def finite_dom_map_of)

text \<open>The keys of a branch, split by child.\<close>

lemma branch_keys_byte:
  assumes "head_ok P d (Branch b e cl lc sc h t)"
  shows "head_keys (Branch b e cl lc sc h t) = (\<Union>x. case table_map hd_byte t x of None \<Rightarrow> {} | Some c \<Rightarrow> head_keys c)"
  using branch_keys [of "pe_rand P" t b e cl lc sc h] assms by (fastforce simp: head_ok_Branch ran_def split: option.splits)

text \<open>A sum over the children counts the images of the keys when an image determines the child.\<close>

lemma card_by_child:
  assumes ok: "head_ok P d (Branch b e cl lc sc h t)"
    and g: "\<And>k k'. g k = g k' \<Longrightarrow> tbyte P k e = tbyte P k' e"
    and f: "\<And>x c. table_map hd_byte t x = Some c \<Longrightarrow> f c = card (g ` (A \<inter> head_keys c))"
  shows "msum f (table_map hd_byte t) = card (g ` (A \<inter> head_keys (Branch b e cl lc sc h t)))"
proof -
  let ?K = "\<lambda>x. case table_map hd_byte t x of None \<Rightarrow> {} | Some c \<Rightarrow> g ` (A \<inter> head_keys c)"
  have byte: "tbyte P k e = x" if "table_map hd_byte t x = Some c" "k \<in> head_keys c" for x c k using child_byte(1) [OF ok that] .
  have "msum f (table_map hd_byte t) = (\<Sum>x \<in> UNIV. card (?K x))" unfolding msum_def using f by (intro sum.cong) (auto split: option.splits)
  also have "\<dots> = card (\<Union>x. ?K x)"
  proof (rule card_UN_disjoint [symmetric])
    show "\<forall>i \<in> UNIV. finite (?K i)" using finite_keys by (auto split: option.splits)
    have "i = j" if y: "y \<in> ?K i" "y \<in> ?K j" for y i j
    proof -
      obtain c k where c: "table_map hd_byte t i = Some c" "k \<in> head_keys c" "y = g k" using y(1) by (auto split: option.splits)
      obtain c' k' where c': "table_map hd_byte t j = Some c'" "k' \<in> head_keys c'" "y = g k'" using y(2) by (auto split: option.splits)
      show ?thesis using byte [OF c(1,2)] byte [OF c'(1,2)] g c(3) c'(3) by metis
    qed
    then show "\<forall>i \<in> UNIV. \<forall>j \<in> UNIV. i \<noteq> j \<longrightarrow> ?K i \<inter> ?K j = {}" by blast
  qed simp
  also have "(\<Union>x. ?K x) = g ` (A \<inter> head_keys (Branch b e cl lc sc h t))"
    unfolding branch_keys_byte [OF ok] by (fastforce split: option.splits)
  finally show ?thesis .
qed

lemma count_segment_spec:
  assumes env: "env_ok P" and ok: "head_ok P d h" and at: "at \<le> head_end_depth P h" and B: "seg_end P at B"
  shows "count_segment P h at = Some (card (key_prefix P B ` head_keys h))"
  using ok at B
proof (induction arbitrary: at)
  case (branch d e t cl lc sc h b)
  let ?br = "Branch b e cl lc sc h t"
  have ok: "head_ok P d ?br" using branch.hyps branch.IH by (intro head_ok.branch) auto
  have atn: "at < key_len P" using branch.prems by (auto simp: seg_end_def)
  have same: "same_segment_tree (pe_schema P) at e = Some (e < B)"
    using same_segment_in [OF env atn branch.hyps(2)] branch.prems branch.hyps(2) by (auto simp: seg_end_def)
  show ?case
  proof (cases "e < B")
    case True
    then have B: "seg_end P e B" using branch.prems branch.hyps(2) unfolding seg_end_def by (metis head_end_depth.simps(3) order_trans)
    have "count_segment P c e = Some (card (key_prefix P B ` head_keys c))" if "table_map hd_byte t x = Some c" for x c
      using branch.IH [OF that] B head_ok_end by (meson Suc_leD)
    then have "msum (\<lambda>c. the (count_segment P c e)) (table_map hd_byte t) = card (key_prefix P B ` (UNIV \<inter> head_keys ?br))"
      by (intro card_by_child [OF ok]) (use True in \<open>auto simp: key_prefix_eq agree_def\<close>)
    then have "sc = card (key_prefix P B ` head_keys ?br)" using branch.hyps(7) by simp
    then show ?thesis using same True by simp
  next
    case False
    have "key_prefix P B ` head_keys ?br = {key_prefix P B cl}"
      using head_keys_ok [OF ok] False agree_mono by (fastforce simp: key_prefix_eq)
    then show ?thesis using same False by simp
  qed
qed simp_all

lemma segmented_len_spec:
  assumes env: "env_ok P" and ok: "head_ok P d h" and len: "length prefix < key_len P" and m: "matched P prefix s h"
    and B: "seg_end P (length prefix) B"
  shows "segmented_len P h s prefix = Some (card (key_prefix P B ` below P prefix h))"
  using env ok less_imp_le [OF len] m
proof (induction rule: walk_induct)
  case (leaf h s k v)
  have "key_segmented_len (pe_schema P) k s prefix = Some (if starts P prefix k then 1 else 0)"
    using leaf_has_prefix [OF env leaf(1) less_imp_le [OF len] leaf(3)] len by (simp add: key_segmented_len_def key_has_prefix_def)
  with leaf(1,2) leaf_below [OF leaf(1), of prefix] show ?case by (cases rule: leaf_cases) (auto simp: segmented_len.simps)
next
  case (here d b e cl lc sc hs t s)
  then show ?case using count_segment_spec [OF env here(1) _ B] by (subst segmented_len.simps) simp
qed (subst segmented_len.simps, simp)+

section \<open>Infixes\<close>

definition infix_of :: "patch_env \<Rightarrow> nat \<Rightarrow> nat \<Rightarrow> u8 list \<Rightarrow> u8 list" where
  "infix_of P p n k = map (\<lambda>i. tbyte P k (p + i)) [0..<n]"

lemma infix_of_simps [simp]: "length (infix_of P p n k) = n" "i < n \<Longrightarrow> infix_of P p n k ! i = tbyte P k (p + i)"
  by (simp_all add: infix_of_def)

lemma infix_at_eq:
  assumes "env_ok P" "length k = key_len P" "p + n \<le> key_len P"
  shows "infix_at (pe_schema P) k p n = Some (infix_of P p n k)"
  unfolding infix_at_def infix_of_def by (rule map_panic_Some) (use tree_byte_in [OF assms(1,2)] assms(3) in auto)

lemma infix_of_agree: "agree P e k k' \<Longrightarrow> p + n \<le> e \<Longrightarrow> infix_of P p n k = infix_of P p n k'"
  by (auto simp: infix_of_def agree_def)

lemma infix_of_byte: "infix_of P p n k = infix_of P p n k' \<Longrightarrow> p \<le> e \<Longrightarrow> e < p + n \<Longrightarrow> tbyte P k e = tbyte P k' e"
  by (auto simp: infix_of_def dest!: bspec [of _ _ "e - p"])

lemma distinct_concat_map:
  assumes "distinct cs" "\<And>c. c \<in> set cs \<Longrightarrow> distinct (X c)" "\<And>c c'. c \<in> set cs \<Longrightarrow> c' \<in> set cs \<Longrightarrow> c \<noteq> c' \<Longrightarrow> set (X c) \<inter> set (X c') = {}"
  shows "distinct (concat (map X cs))"
  using assms by (induction cs) auto

text \<open>The lists of the children, one after the other.\<close>

lemma concat_children:
  assumes ok: "head_ok P d (Branch b e cl lc sc h t)"
    and g: "\<And>k k'. g k = g k' \<Longrightarrow> tbyte P k e = tbyte P k' e"
    and F: "\<And>x c. table_map hd_byte t x = Some c \<Longrightarrow> \<exists>xs. F c = Some xs \<and> distinct xs \<and> set xs = g ` (A \<inter> head_keys c)"
  shows "\<exists>xss. map_panic F (table_entries t) = Some xss \<and> distinct (concat xss) \<and> set (concat xss) = g ` (A \<inter> head_keys (Branch b e cl lc sc h t))"
proof -
  have t: "table_ok (pe_rand P) hd_byte t" using ok by (simp add: head_ok_Branch)
  have child: "\<exists>x. table_map hd_byte t x = Some c" if "c \<in> set (table_entries t)" for c
    using that table_entries_ran [OF t] by (auto simp: ran_def)
  let ?X = "\<lambda>c. the (F c)"
  have X: "F c = Some (?X c) \<and> distinct (?X c) \<and> set (?X c) = g ` (A \<inter> head_keys c)" if "c \<in> set (table_entries t)" for c
    using child [OF that] F by fastforce
  have "map_panic F (table_entries t) = Some (map ?X (table_entries t))" using X by (intro map_panic_Some) blast
  moreover have "distinct (concat (map ?X (table_entries t)))"
  proof (rule distinct_concat_map)
    have "distinct (map hd_byte (table_entries t))" by (rule distinct_entries) (use t in \<open>auto simp: table_ok_def\<close>)
    then show "distinct (table_entries t)" by (simp add: distinct_map)
    show "distinct (?X c)" if "c \<in> set (table_entries t)" for c using X [OF that] by blast
    show "set (?X c) \<inter> set (?X c') = {}" if c: "c \<in> set (table_entries t)" "c' \<in> set (table_entries t)" "c \<noteq> c'" for c c'
    proof -
      obtain x x' where x: "table_map hd_byte t x = Some c" "table_map hd_byte t x' = Some c'" using child c by blast
      have "x = x'" if "k \<in> head_keys c" "k' \<in> head_keys c'" "g k = g k'" for k k'
        using child_byte(1) [OF ok x(1) that(1)] child_byte(1) [OF ok x(2) that(2)] g [OF that(3)] by simp
      then show ?thesis using X [OF c(1)] X [OF c(2)] x c(3) by auto
    qed
  qed
  moreover have "set (concat (map ?X (table_entries t))) = g ` (A \<inter> head_keys (Branch b e cl lc sc h t))"
    using X unfolding branch_keys [OF t] table_entries_ran [OF t, symmetric] by auto
  ultimately show ?thesis by blast
qed

text \<open>A leaf has its own infix; a branch whose path holds the whole infix has that one.\<close>

lemma branch_infix:
  assumes "env_ok P" "head_ok P d (Branch b e cl lc sc h t)" "p + n \<le> e"
  shows "infix_at (pe_schema P) cl p n = Some (infix_of P p n cl)" "infix_of P p n ` head_keys (Branch b e cl lc sc h t) = {infix_of P p n cl}"
    "k \<in> head_keys (Branch b e cl lc sc h t) \<Longrightarrow> infix_of P p n k = infix_of P p n cl"
proof -
  have "e < key_len P" using assms(2) by (simp add: head_ok_Branch)
  then show "infix_at (pe_schema P) cl p n = Some (infix_of P p n cl)"
    using infix_at_eq [OF assms(1)] childleaf_length [OF assms(2)] assms(3) by simp
  show eq: "k \<in> head_keys (Branch b e cl lc sc h t) \<Longrightarrow> infix_of P p n k = infix_of P p n cl" for k
    using head_keys_ok(2) [OF assms(2), of k] infix_of_agree [of P e k cl p n] assms(3) by simp
  have "cl \<in> head_keys (Branch b e cl lc sc h t)" using head_keys_ok(1) [OF assms(2)] by simp
  then show "infix_of P p n ` head_keys (Branch b e cl lc sc h t) = {infix_of P p n cl}"
    by (intro equalityI image_subsetI) (use eq in blast, blast)
qed

lemma head_infixes_spec:
  assumes env: "env_ok P" and ok: "head_ok P d h" and len: "length prefix + n \<le> key_len P" and m: "matched P prefix s h"
  shows "\<exists>xs. head_infixes P h prefix n s = Some xs \<and> distinct xs \<and> set xs = infix_of P (length prefix) n ` below P prefix h"
proof -
  have len': "length prefix \<le> key_len P" using len by simp
  show ?thesis using env ok len' m
  proof (induction rule: walk_induct)
    case (leaf h s k v)
    have "key_infixes (pe_schema P) k prefix n s = Some (if starts P prefix k then [infix_of P (length prefix) n k] else [])"
      using leaf_has_prefix [OF env leaf(1) len' leaf(3)] infix_at_eq [OF env leaf_for_simps(4) [OF leaf(1)] len] by (simp add: key_infixes_def)
    with leaf(1,2) leaf_below [OF leaf(1), of prefix] show ?case by (cases rule: leaf_cases) (auto simp: head_infixes.simps)
  next
    case (here d b e cl lc sc hs t s)
    show ?case
    proof (cases "length prefix + n \<le> e")
      case True
      then show ?thesis using here(2,3,4) branch_infix [OF env here(1) True] by (subst head_infixes.simps) simp
    next
      case False
      have "\<exists>xss. map_panic (\<lambda>c. head_infixes P c prefix n e) (table_entries t) = Some xss \<and> distinct (concat xss)
          \<and> set (concat xss) = infix_of P (length prefix) n ` (UNIV \<inter> head_keys (Branch b e cl lc sc hs t))"
      proof (rule concat_children [OF here(1)])
        show "\<exists>xs. head_infixes P c prefix n e = Some xs \<and> distinct xs \<and> set xs = infix_of P (length prefix) n ` (UNIV \<inter> head_keys c)"
          if "table_map hd_byte t x = Some c" for x c using here(5) [OF that] by (metis Int_UNIV_left)
      qed (use here(3) False in \<open>auto dest!: infix_of_byte\<close>)
      then show ?thesis using here(2,3,4) False by (subst head_infixes.simps) auto
    qed
  next
    case (child d b e cl lc sc hs t s c)
    then have "head_infixes P (Branch b e cl lc sc hs t) prefix n s = head_infixes P c prefix n e" by (subst head_infixes.simps) simp
    then show ?case using child(7) unfolding child(6) by simp
  next
    case (no_child d b e cl lc sc hs t s)
    then show ?case by (subst head_infixes.simps) simp
  next
    case (miss d b e cl lc sc hs t s)
    then show ?case by (subst head_infixes.simps) simp
  qed
qed

lemma infixes_from_matched_prefix_spec:
  assumes env: "env_ok P" and ok: "head_ok P d h" and len: "p + n \<le> key_len P" and p: "p \<le> head_end_depth P h"
  shows "\<exists>xs. infixes_from_matched_prefix P h p n = Some xs \<and> distinct xs \<and> set xs = infix_of P p n ` head_keys h"
  using ok p
proof induction
  case (branch d e t cl lc sc h b)
  let ?br = "Branch b e cl lc sc h t"
  have ok: "head_ok P d ?br" using branch.hyps branch.IH by (intro head_ok.branch) auto
  show ?case
  proof (cases "p + n \<le> e")
    case True
    then show ?thesis using branch_infix [OF env ok True] by (subst infixes_from_matched_prefix.simps) simp
  next
    case False
    have "p \<le> head_end_depth P c" if "table_map hd_byte t x = Some c" for x c
      using branch.IH [OF that] head_ok_end branch.prems by (metis Suc_leD head_end_depth.simps(3) order_trans)
    then have "\<exists>xss. map_panic (\<lambda>c. infixes_from_matched_prefix P c p n) (table_entries t) = Some xss \<and> distinct (concat xss)
        \<and> set (concat xss) = infix_of P p n ` (UNIV \<inter> head_keys ?br)"
      using branch.IH branch.prems False by (intro concat_children [OF ok]) (auto dest!: infix_of_byte)
    then show ?thesis using False by (subst infixes_from_matched_prefix.simps) auto
  qed
qed (use infix_at_eq [OF env] len in \<open>(subst infixes_from_matched_prefix.simps, simp)+\<close>)

end
