(* ===== verification/Patch_Range.thy ===== *)
theory Patch_Range
  imports Patch_Lookup
begin

text \<open>
  What the range lookups of a PATCH node return: the infixes after a prefix that lie between two bounds in
  the lexicographic order, the least of them, and their number. The walk compares the bytes on a
  compressed path with the bounds as it goes; the lemmas relate that to the order on whole infixes.
\<close>

section \<open>The lexicographic order, byte by byte\<close>

lemma lex_append:
  fixes u v :: "'a::linorder list"
  assumes "length u = length v"
  shows "u @ x \<le> v @ y \<longleftrightarrow> u < v \<or> u = v \<and> x \<le> y"
  using assms by (induction u v rule: list_induct2) auto

lemma tight_or: "a < b \<or> a = b \<and> c \<longleftrightarrow> a \<le> b \<and> (a = b \<longrightarrow> c)" for a b :: "'a::order"
  by auto

lemma lex_at:
  fixes x y :: "'a::linorder list"
  assumes "length x = length y" "m < length x"
  shows "x \<le> y \<longleftrightarrow> take m x \<le> take m y \<and> (take m x = take m y \<longrightarrow> x ! m \<le> y ! m \<and> (x ! m = y ! m \<longrightarrow> drop (Suc m) x \<le> drop (Suc m) y))"
proof -
  have "x = take m x @ x ! m # drop (Suc m) x" "y = take m y @ y ! m # drop (Suc m) y" using assms id_take_nth_drop by metis+
  then have "x \<le> y \<longleftrightarrow> take m x @ x ! m # drop (Suc m) x \<le> take m y @ y ! m # drop (Suc m) y" by metis
  also have "\<dots> \<longleftrightarrow> take m x < take m y \<or> take m x = take m y \<and> x ! m # drop (Suc m) x \<le> y ! m # drop (Suc m) y"
    using assms by (intro lex_append) simp
  finally show ?thesis by (simp only: tight_or Cons_le_Cons)
qed

lemma lex_take_le: "x \<le> y \<Longrightarrow> length x = length y \<Longrightarrow> take m x \<le> take m y" for x y :: "'a::linorder list"
  using lex_append [of "take m x" "take m y" "drop m x" "drop m y"] by (auto simp: less_imp_le)

section \<open>A path against the bounds\<close>

definition within :: "u8 list \<Rightarrow> u8 list \<Rightarrow> nat \<Rightarrow> u8 list \<Rightarrow> bool" where
  "within lo hi m x \<longleftrightarrow> take m lo \<le> take m x \<and> take m x \<le> take m hi"

lemma within_Suc:
  assumes "length lo = length x" "length hi = length x" "m < length x"
  shows "within lo hi (Suc m) x \<longleftrightarrow> within lo hi m x \<and> \<not> (take m x = take m lo \<and> x ! m < lo ! m) \<and> \<not> (take m x = take m hi \<and> x ! m > hi ! m)"
proof -
  have le: "take (Suc m) u \<le> take (Suc m) v \<longleftrightarrow> take m u \<le> take m v \<and> (take m u = take m v \<longrightarrow> u ! m \<le> v ! m)"
    if "length u = length v" "m < length u" for u v :: "u8 list"
    using lex_at [of "take (Suc m) u" "take (Suc m) v" m] that by simp
  show ?thesis unfolding within_def using le [of lo x] le [of x hi] assms by (auto simp: not_less)
qed

lemma tight_Suc:
  assumes "length lo = length x" "m < length x"
  shows "take (Suc m) x = take (Suc m) lo \<longleftrightarrow> take m x = take m lo \<and> x ! m = lo ! m"
  using assms by (simp add: take_Suc_conv_app_nth)

lemma within_mono: "within lo hi m x \<Longrightarrow> j \<le> m \<Longrightarrow> length lo = length x \<Longrightarrow> length hi = length x \<Longrightarrow> within lo hi j x"
  using lex_take_le [of "take m lo" "take m x" j] lex_take_le [of "take m x" "take m hi" j] by (simp add: within_def min_def)

lemma range_tight_spec:
  assumes env: "env_ok P" and k: "length k = key_len P" and len: "p + m \<le> key_len P" "m \<le> n"
    and lens: "length lo = n" "length hi = n" and j: "j \<le> m" "within lo hi j (infix_of P p n k)" and pn: "x = infix_of P p n k"
  shows "range_tight (pe_schema P) k p lo hi [j..<m] (take j x = take j lo) (take j x = take j hi)
    = Some (if within lo hi m x then Some (take m x = take m lo, take m x = take m hi) else None)"
  using j
proof (induction "m - j" arbitrary: j)
  case 0
  then show ?case using pn by simp
next
  case (Suc d)
  then have jm: "j < m" by simp
  have x: "length lo = length x" "length hi = length x" "j < length x" using lens jm len pn by auto
  have byte: "tree_byte (pe_schema P) k (p + j) = Some (x ! j)" using tree_byte_in [OF env k, of "p + j"] jm len pn by simp
  note W = within_Suc [OF x]
  have w: "within lo hi j x" using Suc.prems pn by simp
  have list: "[j..<m] = j # [Suc j..<m]" using jm by (simp add: upt_conv_Cons)
  show ?case
  proof (cases "within lo hi (Suc j) x")
    case True
    have "d = m - Suc j" using Suc.hyps(2) by simp
    then have IH: "range_tight (pe_schema P) k p lo hi [Suc j..<m] (take (Suc j) x = take (Suc j) lo) (take (Suc j) x = take (Suc j) hi)
        = Some (if within lo hi m x then Some (take m x = take m lo, take m x = take m hi) else None)"
      using Suc.hyps(1) [of "Suc j"] jm True pn by simp
    have "(take (Suc j) x = take (Suc j) lo) = (take j x = take j lo \<and> \<not> x ! j > lo ! j)" "(take (Suc j) x = take (Suc j) hi) = (take j x = take j hi \<and> \<not> x ! j < hi ! j)"
      using True W tight_Suc [OF x(1,3)] tight_Suc [OF x(2,3)] by auto
    then show ?thesis unfolding list using IH byte True W x lens by (simp add: Let_def)
  next
    case False
    then have "\<not> within lo hi m x" using within_mono [of lo hi m x "Suc j"] jm x by auto
    then show ?thesis unfolding list using False W w byte x by (auto simp: Let_def)
  qed
qed

section \<open>Keys in a range\<close>

definition in_range :: "patch_env \<Rightarrow> nat \<Rightarrow> u8 list \<Rightarrow> u8 list \<Rightarrow> u8 list set" where
  "in_range P p lo hi = {k. lo \<le> infix_of P p (length lo) k \<and> infix_of P p (length lo) k \<le> hi}"

lemma range_byte:
  fixes lo y hi :: "u8 list"
  assumes "length lo = length y" "length hi = length y" "m < length y"
  shows "take m y = take m lo \<Longrightarrow> y ! m < lo ! m \<Longrightarrow> \<not> lo \<le> y" "take m y = take m hi \<Longrightarrow> hi ! m < y ! m \<Longrightarrow> \<not> y \<le> hi"
    "within lo hi m y \<Longrightarrow> \<not> (take m y = take m lo \<and> y ! m \<le> lo ! m) \<Longrightarrow> lo \<le> y"
    "within lo hi m y \<Longrightarrow> \<not> (take m y = take m hi \<and> hi ! m \<le> y ! m) \<Longrightarrow> y \<le> hi"
    "lo \<le> y \<Longrightarrow> y \<le> hi \<Longrightarrow> within lo hi m y"
proof -
  have lo: "lo \<le> y \<longleftrightarrow> take m lo \<le> take m y \<and> (take m lo = take m y \<longrightarrow> lo ! m \<le> y ! m \<and> (lo ! m = y ! m \<longrightarrow> drop (Suc m) lo \<le> drop (Suc m) y))"
    and hi: "y \<le> hi \<longleftrightarrow> take m y \<le> take m hi \<and> (take m y = take m hi \<longrightarrow> y ! m \<le> hi ! m \<and> (y ! m = hi ! m \<longrightarrow> drop (Suc m) y \<le> drop (Suc m) hi))"
    using lex_at [of lo y m] lex_at [of y hi m] assms by simp_all
  show "take m y = take m lo \<Longrightarrow> y ! m < lo ! m \<Longrightarrow> \<not> lo \<le> y" "take m y = take m hi \<Longrightarrow> hi ! m < y ! m \<Longrightarrow> \<not> y \<le> hi" by (simp_all add: lo hi)
  show "within lo hi m y \<Longrightarrow> \<not> (take m y = take m lo \<and> y ! m \<le> lo ! m) \<Longrightarrow> lo \<le> y"
    "within lo hi m y \<Longrightarrow> \<not> (take m y = take m hi \<and> hi ! m \<le> y ! m) \<Longrightarrow> y \<le> hi"
    "lo \<le> y \<Longrightarrow> y \<le> hi \<Longrightarrow> within lo hi m y"
    unfolding lo hi within_def by auto
qed

text \<open>The children of a branch whose path holds the first part of the infix.\<close>

lemma range_children:
  fixes e p :: nat and lo hi cl :: "u8 list" and P :: patch_env
  defines "m \<equiv> e - p" and "x \<equiv> infix_of P p (length lo) cl"
  assumes env: "env_ok P" and ok: "head_ok P d (Branch b e cl lc sc h t)" and p: "p \<le> e" "e < p + length lo" and len: "p + length lo \<le> key_len P"
    and hi: "length hi = length lo"
  shows "range_tight (pe_schema P) cl p lo hi [0..<m] True True
      = Some (if within lo hi m x then Some (take m x = take m lo, take m x = take m hi) else None)"
    and "\<not> within lo hi m x \<Longrightarrow> in_range P p lo hi \<inter> head_keys (Branch b e cl lc sc h t) = {}"
    and "table_map hd_byte t y = Some c \<Longrightarrow> hd_byte c = y"
    and "table_map hd_byte t y = Some c \<Longrightarrow> take m x = take m lo \<and> y < lo ! m \<or> take m x = take m hi \<and> hi ! m < y \<Longrightarrow> in_range P p lo hi \<inter> head_keys c = {}"
    and "table_map hd_byte t y = Some c \<Longrightarrow> within lo hi m x \<Longrightarrow> \<not> (take m x = take m lo \<and> y \<le> lo ! m) \<Longrightarrow> \<not> (take m x = take m hi \<and> hi ! m \<le> y) \<Longrightarrow> head_keys c \<subseteq> in_range P p lo hi"
proof -
  let ?g = "infix_of P p (length lo)"
  have m: "m < length lo" "p + m = e" using p by (auto simp: m_def)
  have t: "table_ok (pe_rand P) hd_byte t" using ok by (simp add: head_ok_Branch)
  show "range_tight (pe_schema P) cl p lo hi [0..<m] True True
      = Some (if within lo hi m x then Some (take m x = take m lo, take m x = take m hi) else None)"
    using range_tight_spec [OF env, of cl p m "length lo" lo hi 0 x] childleaf_length [OF ok] len m hi by (simp add: within_def x_def)
  have path: "take m (?g k) = take m x" if "agree P e k cl" for k
    using that m by (intro nth_equalityI) (auto simp: x_def agree_def)
  have lens: "length lo = length (?g k)" "length hi = length (?g k)" "m < length (?g k)" for k using hi m by simp_all
  have w: "within lo hi m (?g k) = within lo hi m x" if "agree P e k cl" for k using path [OF that] by (simp add: within_def)
  show "\<not> within lo hi m x \<Longrightarrow> in_range P p lo hi \<inter> head_keys (Branch b e cl lc sc h t) = {}"
    using range_byte(5) [OF lens] w head_keys_ok(2) [OF ok] by (fastforce simp: in_range_def)
  show "table_map hd_byte t y = Some c \<Longrightarrow> hd_byte c = y" using table_map_Some [OF t] by blast
  assume c: "table_map hd_byte t y = Some c"
  have byte: "?g k ! m = y \<and> agree P e k cl" if "k \<in> head_keys c" for k using child_byte [OF ok c that] m by simp
  show "take m x = take m lo \<and> y < lo ! m \<or> take m x = take m hi \<and> hi ! m < y \<Longrightarrow> in_range P p lo hi \<inter> head_keys c = {}"
    using range_byte(1,2) [OF lens] byte path by (fastforce simp: in_range_def)
  show "within lo hi m x \<Longrightarrow> \<not> (take m x = take m lo \<and> y \<le> lo ! m) \<Longrightarrow> \<not> (take m x = take m hi \<and> hi ! m \<le> y) \<Longrightarrow> head_keys c \<subseteq> in_range P p lo hi"
    using range_byte(3,4) [OF lens] byte path w by (fastforce simp: in_range_def)
qed

lemma head_infixes_range_spec:
  assumes env: "env_ok P" and ok: "head_ok P d h" and len: "length prefix + length lo \<le> key_len P" and hi: "length hi = length lo" and m: "matched P prefix s h"
  shows "\<exists>xs. head_infixes_range P h prefix s lo hi = Some xs \<and> distinct xs
    \<and> set xs = infix_of P (length prefix) (length lo) ` (in_range P (length prefix) lo hi \<inter> below P prefix h)"
proof -
  let ?p = "length prefix" and ?n = "length lo"
  let ?R = "in_range P ?p lo hi" and ?g = "infix_of P (length prefix) (length lo)"
  have len': "?p \<le> key_len P" using len by simp
  show ?thesis using env ok len' m
  proof (induction rule: walk_induct)
    case (leaf h s k v)
    have "key_infixes_range (pe_schema P) k prefix s lo hi = Some (if starts P prefix k \<and> k \<in> ?R then [?g k] else [])"
      using leaf_has_prefix [OF env leaf(1) len' leaf(3)] infix_at_eq [OF env leaf_for_simps(4) [OF leaf(1)] len]
      by (simp add: key_infixes_range_def in_range_def)
    with leaf(1,2) leaf_below [OF leaf(1), of prefix] show ?case by (cases rule: leaf_cases) (auto simp: head_infixes_range.simps)
  next
    case (here d b e cl lc sc hs t s)
    show ?case
    proof (cases "?p + ?n \<le> e")
      case True
      have "head_infixes_range P (Branch b e cl lc sc hs t) prefix s lo hi = Some (if cl \<in> ?R then [?g cl] else [])"
        using here(2) True branch_infix(1) [OF env here(1) True] by (subst head_infixes_range.simps) (simp add: in_range_def)
      moreover have "?R \<inter> below P prefix (Branch b e cl lc sc hs t) = (if cl \<in> ?R then head_keys (Branch b e cl lc sc hs t) else {})"
        using here(4) branch_infix(3) [OF env here(1) True] by (auto simp: in_range_def)
      ultimately show ?thesis using branch_infix(2) [OF env here(1) True] by simp
    next
      case False
      let ?m = "e - ?p" and ?F = "\<lambda>a b c. if a \<and> e - ?p < length lo \<and> hd_byte c < lo ! (e - ?p) then Some []
        else if b \<and> e - ?p < length lo \<and> hi ! (e - ?p) < hd_byte c then Some [] else head_infixes_range P c prefix e lo hi"
      note rc = range_children [OF env here(1,3) _ len hi] and e = False [unfolded not_le]
      show ?thesis
      proof (cases "within lo hi ?m (?g cl)")
        case True
        let ?a = "take ?m (?g cl) = take ?m lo" and ?b = "take ?m (?g cl) = take ?m hi"
        have "\<exists>xss. map_panic (?F ?a ?b) (table_entries t) = Some xss \<and> distinct (concat xss)
            \<and> set (concat xss) = ?g ` (?R \<inter> head_keys (Branch b e cl lc sc hs t))"
        proof (rule concat_children [OF here(1)])
          show "\<exists>xs. ?F ?a ?b c = Some xs \<and> distinct xs \<and> set xs = ?g ` (?R \<inter> head_keys c)" if c: "table_map hd_byte t y = Some c" for y c
            using here(5) [OF c] rc(3,4) [OF e c] by auto
        qed (use here(3) e in \<open>auto dest!: infix_of_byte\<close>)
        then show ?thesis using here(2,3,4) e rc(1) [OF e] True by (subst head_infixes_range.simps) (auto simp: Let_def)
      next
        case False
        then show ?thesis using here(2,3,4) e rc(1,2) [OF e] by (subst head_infixes_range.simps) (auto simp: Let_def)
      qed
    qed
  next
    case (child d b e cl lc sc hs t s c)
    then have "head_infixes_range P (Branch b e cl lc sc hs t) prefix s lo hi = head_infixes_range P c prefix e lo hi" by (subst head_infixes_range.simps) simp
    then show ?case using child(7) unfolding child(6) by simp
  next
    case (no_child d b e cl lc sc hs t s)
    then show ?case by (subst head_infixes_range.simps) simp
  next
    case (miss d b e cl lc sc hs t s)
    then show ?case by (subst head_infixes_range.simps) simp
  qed
qed

section \<open>Counting\<close>

lemma entries_sum:
  assumes "table_ok rh key t"
  shows "sum_list (map f (table_entries t)) = msum f (table_map key t)"
proof -
  let ?M = "table_map key t"
  have d: "distinct (map key (table_entries t))" by (rule distinct_entries) (use assms in \<open>auto simp: table_ok_def\<close>)
  then have "sum_list (map f (table_entries t)) = (\<Sum>c \<in> set (table_entries t). f c)" by (simp add: sum_list_distinct_conv_sum_set distinct_map)
  also have "\<dots> = (\<Sum>b \<in> dom ?M. f (the (?M b)))"
  proof (rule sum.reindex_bij_witness [of _ "\<lambda>b. the (?M b)" key])
    show "the (?M (key c)) = c" "key c \<in> dom ?M" "f (the (?M (key c))) = f c" if "c \<in> set (table_entries t)" for c
      using that table_map_Some [OF assms, of "key c" c] by (auto simp: set_table_entries)
    show "key (the (?M b)) = b" "the (?M b) \<in> set (table_entries t)" if "b \<in> dom ?M" for b
      using that table_map_Some [OF assms, of b "the (?M b)"] by (auto simp: set_table_entries domIff)
  qed
  also have "\<dots> = msum f ?M" unfolding msum_def by (rule sum.mono_neutral_cong_left) (auto simp: domIff split: option.splits)
  finally show ?thesis .
qed

lemma card_image_eq:
  assumes "finite K" "\<And>x y. x \<in> K \<Longrightarrow> y \<in> K \<Longrightarrow> f x = f y \<longleftrightarrow> g x = g y"
  shows "card (f ` K) = card (g ` K)"
  using assms
proof (induction K)
  case (insert x K)
  then have "f x \<in> f ` K \<longleftrightarrow> g x \<in> g ` K" by (auto simp: image_iff)
  then show ?case using insert by (simp add: card_insert_if)
qed simp

text \<open>Below a prefix, the bytes up to the end of the infix are as many as the infixes.\<close>

lemma card_infixes:
  assumes "K \<subseteq> below P prefix h"
  shows "card (infix_of P (length prefix) n ` K) = card (key_prefix P (length prefix + n) ` K)"
proof (rule card_image_eq)
  show "finite K" using assms finite_keys finite_subset by (metis (no_types, lifting) below_def mem_Collect_eq subsetI)
  show "infix_of P (length prefix) n x = infix_of P (length prefix) n y \<longleftrightarrow> key_prefix P (length prefix + n) x = key_prefix P (length prefix + n) y"
    if k: "x \<in> K" "y \<in> K" for x y
  proof -
    have "agree P (length prefix) x y" using subsetD [OF assms k(1)] subsetD [OF assms k(2)] by (simp add: below_def starts_def agree_def)
    then have "agree P (length prefix + n) x y \<longleftrightarrow> (\<forall>i < n. tbyte P x (length prefix + i) = tbyte P y (length prefix + i))"
      unfolding agree_def by (metis add_less_cancel_left le_Suc_ex not_le)
    then show ?thesis by (auto simp: key_prefix_eq infix_of_def)
  qed
qed

lemma seg_end_within:
  assumes "seg_end P d B" "d \<le> e" "e < B"
  shows "seg_end P e B"
proof -
  have eq: "seg_of P e = seg_of P d" using assms by (simp add: seg_end_def)
  show ?thesis using assms unfolding seg_end_def eq by auto
qed

lemma head_count_range_spec:
  assumes env: "env_ok P" and ok: "head_ok P d h" and hi: "length hi = length lo" and m: "matched P prefix s h"
    and seg: "seg_end P (length prefix) (length prefix + length lo)"
  shows "head_count_range P h prefix s lo hi
    = Some (card (infix_of P (length prefix) (length lo) ` (in_range P (length prefix) lo hi \<inter> below P prefix h)))"
proof -
  let ?p = "length prefix" and ?n = "length lo"
  let ?R = "in_range P ?p lo hi" and ?g = "infix_of P (length prefix) (length lo)"
  have len: "?p + ?n \<le> key_len P" and len': "?p \<le> key_len P" using seg by (auto simp: seg_end_def)
  show ?thesis using env ok len' m
  proof (induction rule: walk_induct)
    case (leaf h s k v)
    have "key_count_range (pe_schema P) k prefix s lo hi = Some (if starts P prefix k \<and> k \<in> ?R then 1 else 0)"
      using leaf_has_prefix [OF env leaf(1) len' leaf(3)] infix_at_eq [OF env leaf_for_simps(4) [OF leaf(1)] len]
      by (simp add: key_count_range_def in_range_def)
    with leaf(1,2) leaf_below [OF leaf(1), of prefix] show ?case by (cases rule: leaf_cases) (auto simp: head_count_range.simps)
  next
    case (here d b e cl lc sc hs t s)
    let ?br = "Branch b e cl lc sc hs t"
    show ?case
    proof (cases "?p + ?n \<le> e")
      case True
      have "head_count_range P ?br prefix s lo hi = Some (if cl \<in> ?R then 1 else 0)"
        using here(2) True branch_infix(1) [OF env here(1) True] by (subst head_count_range.simps) (simp add: in_range_def)
      moreover have "?R \<inter> below P prefix ?br = (if cl \<in> ?R then head_keys ?br else {})"
        using here(4) branch_infix(3) [OF env here(1) True] by (auto simp: in_range_def)
      ultimately show ?thesis using branch_infix(2) [OF env here(1) True] by simp
    next
      case False
      let ?m = "e - ?p" and ?F = "\<lambda>a b c. if a \<and> hd_byte c < lo ! (e - ?p) \<or> b \<and> hi ! (e - ?p) < hd_byte c then Some 0
        else if a \<and> hd_byte c = lo ! (e - ?p) \<or> b \<and> hd_byte c = hi ! (e - ?p) then head_count_range P c prefix e lo hi else count_segment P c e"
      note rc = range_children [OF env here(1,3) _ len hi] and e = False [unfolded not_le]
      have t: "table_ok (pe_rand P) hd_byte t" using here(1) by (simp add: head_ok_Branch)
      show ?thesis
      proof (cases "within lo hi ?m (?g cl)")
        case True
        let ?a = "take ?m (?g cl) = take ?m lo" and ?b = "take ?m (?g cl) = take ?m hi"
        have seg': "seg_end P e (?p + ?n)" using seg_end_within [OF seg here(3) e] .
        have F: "?F ?a ?b c = Some (card (?g ` (?R \<inter> head_keys c)))" if c: "table_map hd_byte t y = Some c" for y c
        proof -
          have cok: "head_ok P (Suc e) c" using here(1) c by (simp add: head_ok_Branch)
          have "count_segment P c e = Some (card (?g ` head_keys c))"
            using count_segment_spec [OF env cok _ seg'] head_ok_end [OF cok] card_infixes [of "head_keys c" P prefix c "length lo"] here(5) [OF c] by simp
          moreover have "\<not> (?a \<and> y \<le> lo ! ?m) \<Longrightarrow> \<not> (?b \<and> hi ! ?m \<le> y) \<Longrightarrow> ?R \<inter> head_keys c = head_keys c" using rc(5) [OF e c True] by blast
          ultimately show ?thesis using here(5) [OF c] rc(3,4) [OF e c] by (auto simp: not_le less_le)
        qed
        have "map_panic (?F ?a ?b) (table_entries t) = Some (map (\<lambda>c. card (?g ` (?R \<inter> head_keys c))) (table_entries t))"
        proof (rule map_panic_Some)
          fix c assume "c \<in> set (table_entries t)"
          then obtain y where y: "table_map hd_byte t y = Some c" using table_entries_ran [OF t] by (auto simp: ran_def)
          show "?F ?a ?b c = Some (card (?g ` (?R \<inter> head_keys c)))" by (rule F [OF y])
        qed
        moreover have "sum_list (map (\<lambda>c. card (?g ` (?R \<inter> head_keys c))) (table_entries t)) = card (?g ` (?R \<inter> head_keys ?br))"
          unfolding entries_sum [OF t] by (rule card_by_child [OF here(1)]) (use here(3) e in \<open>auto dest!: infix_of_byte\<close>)
        moreover have "?m < length lo" "?m < length hi" using here(3) e hi by linarith+
        ultimately show ?thesis using here(2,3,4) e rc(1) [OF e] True by (subst head_count_range.simps) (simp add: Let_def)
      next
        case False
        then show ?thesis using here(2,3,4) e rc(1,2) [OF e] by (subst head_count_range.simps) (simp add: Let_def)
      qed
    qed
  next
    case (child d b e cl lc sc hs t s c)
    then show ?case by (subst head_count_range.simps) simp
  next
    case (no_child d b e cl lc sc hs t s)
    then show ?case by (subst head_count_range.simps) simp
  next
    case (miss d b e cl lc sc hs t s)
    then show ?case by (subst head_count_range.simps) simp
  qed
qed

section \<open>The first infix\<close>

definition least_of :: "'a::linorder set \<Rightarrow> 'a option \<Rightarrow> bool" where
  "least_of A r \<longleftrightarrow> (case r of None \<Rightarrow> A = {} | Some x \<Rightarrow> x \<in> A \<and> (\<forall>y \<in> A. x \<le> y))"

lemma find_map_least:
  assumes "sorted_wrt (<) bs" "\<And>b. b \<in> set bs \<Longrightarrow> \<exists>r. f b = Some r \<and> least_of (T b) r"
    "\<And>b b' x y. b < b' \<Longrightarrow> x \<in> T b \<Longrightarrow> y \<in> T b' \<Longrightarrow> x \<le> y"
  shows "\<exists>r. find_map_panic f bs = Some r \<and> least_of (\<Union>b \<in> set bs. T b) r"
  using assms
proof (induction bs)
  case (Cons b bs)
  obtain r where r: "f b = Some r" "least_of (T b) r" using Cons.prems(2) by auto
  show ?case
  proof (cases r)
    case None
    obtain r' where "find_map_panic f bs = Some r'" "least_of (\<Union>b \<in> set bs. T b) r'" using Cons.IH Cons.prems by auto
    then show ?thesis using r None by (auto simp: least_of_def)
  next
    case (Some x)
    then have "least_of (\<Union>b \<in> set (b # bs). T b) (Some x)" using r Cons.prems(1,3) unfolding least_of_def by fastforce
    then show ?thesis using r Some by auto
  qed
qed (simp add: least_of_def)

lemma byte_range_simps: "set (byte_range l u) = {l..u}" "sorted_wrt (<) (byte_range l u)"
proof -
  have lt: "unat (word_of_nat i :: u8) = i" if "i \<le> unat u" for i
  proof -
    have "unat u < 256" using unsigned_less [where 'a = nat and w = u] by simp
    then show ?thesis using that by (simp add: unat_of_nat)
  qed
  show "sorted_wrt (<) (byte_range l u)"
    unfolding byte_range_def sorted_wrt_map
  proof (rule sorted_wrt_mono_rel [OF _ sorted_wrt_upt])
    show "(word_of_nat i :: u8) < word_of_nat j" if "i \<in> set [unat l..<Suc (unat u)]" "j \<in> set [unat l..<Suc (unat u)]" "i < j" for i j
      using that lt [of i] lt [of j] by (auto simp: word_less_nat_alt)
  qed
  have "x \<in> set (byte_range l u) \<longleftrightarrow> l \<le> x \<and> x \<le> u" for x
  proof
    assume "l \<le> x \<and> x \<le> u"
    then show "x \<in> set (byte_range l u)" unfolding byte_range_def by (auto simp: word_le_nat_alt image_iff simp del: upt_Suc intro!: bexI [of _ "unat x"])
  qed (auto simp: byte_range_def word_le_nat_alt lt)
  then show "set (byte_range l u) = {l..u}" by (simp add: set_eq_iff)
qed

lemma head_first_infix_range_spec:
  assumes env: "env_ok P" and ok: "head_ok P d h" and len: "length prefix + length lo \<le> key_len P" and hi: "length hi = length lo" and m: "matched P prefix s h"
  shows "\<exists>r. head_first_infix_range P h prefix s lo hi = Some r
    \<and> least_of (infix_of P (length prefix) (length lo) ` (in_range P (length prefix) lo hi \<inter> below P prefix h)) r"
proof -
  let ?p = "length prefix" and ?n = "length lo"
  let ?R = "in_range P ?p lo hi" and ?g = "infix_of P (length prefix) (length lo)"
  have len': "?p \<le> key_len P" using len by simp
  show ?thesis using env ok len' m
  proof (induction rule: walk_induct)
    case (leaf h s k v)
    have "key_first_infix_range (pe_schema P) k prefix s lo hi = Some (if starts P prefix k \<and> k \<in> ?R then Some (?g k) else None)"
      using leaf_has_prefix [OF env leaf(1) len' leaf(3)] infix_at_eq [OF env leaf_for_simps(4) [OF leaf(1)] len]
      by (simp add: key_first_infix_range_def in_range_def)
    with leaf(1,2) leaf_below [OF leaf(1), of prefix] show ?case by (cases rule: leaf_cases) (auto simp: head_first_infix_range.simps least_of_def)
  next
    case (here d b e cl lc sc hs t s)
    let ?br = "Branch b e cl lc sc hs t"
    show ?case
    proof (cases "?p + ?n \<le> e")
      case True
      have "head_first_infix_range P ?br prefix s lo hi = Some (if cl \<in> ?R then Some (?g cl) else None)"
        using here(2) True branch_infix(1) [OF env here(1) True] by (subst head_first_infix_range.simps) (simp add: in_range_def)
      moreover have "?R \<inter> below P prefix ?br = (if cl \<in> ?R then head_keys ?br else {})"
        using here(4) branch_infix(3) [OF env here(1) True] by (auto simp: in_range_def)
      ultimately show ?thesis using branch_infix(2) [OF env here(1) True] by (simp add: least_of_def)
    next
      case False
      let ?m = "e - ?p" and ?T = "\<lambda>y. case table_map hd_byte t y of None \<Rightarrow> {} | Some c \<Rightarrow> ?g ` (?R \<inter> head_keys c)"
      let ?f = "\<lambda>y. do { child \<leftarrow> child_get P ?br y; case child of None \<Rightarrow> Some None | Some c \<Rightarrow> head_first_infix_range P c prefix e lo hi }"
      note rc = range_children [OF env here(1,3) _ len hi] and e = False [unfolded not_le]
      have mm: "?m < ?n" "?m < length hi" "?p + ?m = e" using here(3) e hi by linarith+
      have union: "?g ` (?R \<inter> head_keys ?br) = (\<Union>y. ?T y)" unfolding branch_keys_byte [OF here(1)] by (fastforce split: option.splits)
      show ?thesis
      proof (cases "within lo hi ?m (?g cl)")
        case True
        let ?a = "take ?m (?g cl) = take ?m lo" and ?b = "take ?m (?g cl) = take ?m hi"
        let ?l = "if ?a then lo ! ?m else 0" and ?u = "if ?b then hi ! ?m else 255"
        have less: "x \<le> x'" if y: "y < y'" "x \<in> ?T y" "x' \<in> ?T y'" for y y' x x'
        proof -
          obtain c k where k: "table_map hd_byte t y = Some c" "k \<in> head_keys c" "x = ?g k" using y(2) by (auto split: option.splits)
          obtain c' k' where k': "table_map hd_byte t y' = Some c'" "k' \<in> head_keys c'" "x' = ?g k'" using y(3) by (auto split: option.splits)
          have "agree P e k k'" using child_byte(2) [OF here(1) k(1,2)] child_byte(2) [OF here(1) k'(1,2)] agree_trans agree_sym by metis
          then have "take ?m x = take ?m x'" using k(3) k'(3) mm by (intro nth_equalityI) (auto simp: agree_def)
          moreover have "x ! ?m < x' ! ?m" using child_byte(1) [OF here(1) k(1,2)] child_byte(1) [OF here(1) k'(1,2)] k(3) k'(3) mm y(1) by simp
          ultimately show ?thesis using lex_at [of x x' ?m] k(3) k'(3) mm by auto
        qed
        have each: "\<exists>r. ?f y = Some r \<and> least_of (?T y) r" for y
        proof (cases "table_map hd_byte t y")
          case (Some c)
          then show ?thesis using here(5) [OF Some] child_get_eq [OF here(1)] by auto
        qed (use child_get_eq [OF here(1)] in \<open>simp add: least_of_def\<close>)
        have "\<exists>r. find_map_panic ?f (byte_range ?l ?u) = Some r \<and> least_of (\<Union>y \<in> set (byte_range ?l ?u). ?T y) r"
          by (rule find_map_least [where T = ?T, OF byte_range_simps(2) each]) (rule less)
        then obtain r where r: "find_map_panic ?f (byte_range ?l ?u) = Some r" "least_of (\<Union>y \<in> set (byte_range ?l ?u). ?T y) r" by blast
        have "(\<Union>y. ?T y) = (\<Union>y \<in> set (byte_range ?l ?u). ?T y)"
        proof -
          have max: "y \<le> 255" for y :: u8 using unsigned_less [where 'a = nat and w = y] by (simp add: word_le_nat_alt)
          have "?T y = {}" if "y \<notin> {?l..?u}" for y
            using that rc(4) [OF e, of y] word_zero_le [of y] max [of y] by (auto simp: not_le split: option.splits if_splits)
          then show ?thesis unfolding byte_range_simps(1) by blast
        qed
        then have "least_of (?g ` (?R \<inter> below P prefix ?br)) r" using r(2) union here(4) by metis
        moreover have "head_first_infix_range P ?br prefix s lo hi = Some r"
          using here(2,3) e rc(1) [OF e] True r(1) mm by (subst head_first_infix_range.simps) (simp add: Let_def)
        ultimately show ?thesis by blast
      next
        case False
        then show ?thesis using here(2,3,4) e rc(1,2) [OF e] by (subst head_first_infix_range.simps) (simp add: Let_def least_of_def)
      qed
    qed
  next
    case (child d b e cl lc sc hs t s c)
    then have "head_first_infix_range P (Branch b e cl lc sc hs t) prefix s lo hi = head_first_infix_range P c prefix e lo hi" by (subst head_first_infix_range.simps) simp
    then show ?case using child(7) unfolding child(6) by simp
  next
    case (no_child d b e cl lc sc hs t s)
    then show ?case by (subst head_first_infix_range.simps) (simp add: least_of_def)
  next
    case (miss d b e cl lc sc hs t s)
    then show ?case by (subst head_first_infix_range.simps) (simp add: least_of_def)
  qed
qed

end
