(* ===== verification/Patch_Map.thy ===== *)
theory Patch_Map
  imports Patch_Range
begin

text \<open>
  The container \<open>PATCH\<close> of \<open>patch.rs\<close> over its nodes: construction, insertion, replacement, removal and
  the lookups, and what they mean for the map of its keys. A \<open>PATCH\<close> also holds the owners of the archives
  its keys may point into, which only keeps memory alive and is left out.
\<close>

section \<open>Operations\<close>

record 'v patch =
  pt_root :: "'v head option"

definition patch_new :: "'v patch" where
  "patch_new = \<lparr>pt_root = None\<rparr>"

text \<open>An entry is the leaf it allocates; every PATCH it is inserted into gets a head that points to it.\<close>

definition entry_with_value :: "patch_env \<Rightarrow> u8 list \<Rightarrow> 'v \<Rightarrow> 'v head" where
  "entry_with_value P key v = leaf_new P key v"

definition patch_insert :: "patch_env \<Rightarrow> 'v patch \<Rightarrow> 'v head \<Rightarrow> 'v patch option" where
  "patch_insert P p entry = (case pt_root p of
     Some this \<Rightarrow> do { h \<leftarrow> insert_leaf P this entry 0; Some (p\<lparr>pt_root := Some h\<rparr>) }
   | None \<Rightarrow> Some (p\<lparr>pt_root := Some entry\<rparr>))"

definition patch_insert_archive :: "patch_env \<Rightarrow> 'v patch \<Rightarrow> u8 list \<Rightarrow> 'v \<Rightarrow> 'v patch option" where
  "patch_insert_archive P p bytes unit_value =
     (let leaf_head = local_leaf_new bytes unit_value; leaf_hash = pe_leaf_hash P bytes in
      case pt_root p of
        Some this \<Rightarrow> do { h \<leftarrow> insert_archive_leaf P this leaf_head leaf_hash 0; Some (p\<lparr>pt_root := Some h\<rparr>) }
      | None \<Rightarrow> Some (p\<lparr>pt_root := Some leaf_head\<rparr>))"

definition patch_replace :: "patch_env \<Rightarrow> 'v patch \<Rightarrow> 'v head \<Rightarrow> 'v patch option" where
  "patch_replace P p entry = (case pt_root p of
     Some this \<Rightarrow> do { (h, retired) \<leftarrow> replace_leaf P this entry 0; Some (p\<lparr>pt_root := Some h\<rparr>) }
   | None \<Rightarrow> Some (p\<lparr>pt_root := Some entry\<rparr>))"

definition patch_remove :: "patch_env \<Rightarrow> 'v patch \<Rightarrow> u8 list \<Rightarrow> 'v patch option" where
  "patch_remove P p key = do { (retired, root) \<leftarrow> remove_leaf P (pt_root p) key 0; Some (p\<lparr>pt_root := root\<rparr>) }"

definition patch_len :: "'v patch \<Rightarrow> nat" where
  "patch_len p = (case pt_root p of Some root \<Rightarrow> head_count root | None \<Rightarrow> 0)"

definition patch_is_empty :: "'v patch \<Rightarrow> bool" where
  "patch_is_empty p \<longleftrightarrow> patch_len p = 0"

definition patch_root_hash :: "patch_env \<Rightarrow> 'v patch \<Rightarrow> u128 option" where
  "patch_root_hash P p = map_option (head_hash P) (pt_root p)"

definition patch_get :: "patch_env \<Rightarrow> 'v patch \<Rightarrow> u8 list \<Rightarrow> 'v option option" where
  "patch_get P p key = (case pt_root p of Some root \<Rightarrow> head_get P root 0 key | None \<Rightarrow> Some None)"

definition patch_get_key :: "patch_env \<Rightarrow> 'v patch \<Rightarrow> u8 list \<Rightarrow> u8 list option option" where
  "patch_get_key P p key = (case pt_root p of Some root \<Rightarrow> head_get_key P root 0 key | None \<Rightarrow> Some None)"

definition patch_has_prefix :: "patch_env \<Rightarrow> 'v patch \<Rightarrow> u8 list \<Rightarrow> bool option" where
  "patch_has_prefix P p prefix = (case pt_root p of Some root \<Rightarrow> head_has_prefix P root 0 prefix | None \<Rightarrow> Some (length prefix = 0))"

text \<open>The assertion that an infix covers a whole segment.\<close>

definition assert_segment :: "key_schema \<Rightarrow> nat \<Rightarrow> nat \<Rightarrow> unit option" where
  "assert_segment S prefix_len infix_len =
     (if prefix_len + infix_len = 0 then None
      else do {
        a \<leftarrow> same_segment_tree S prefix_len (prefix_len + infix_len - 1);
        b \<leftarrow> (if \<not> a then Some False
             else if prefix_len + infix_len = ks_key_len S then Some True
             else do { s \<leftarrow> same_segment_tree S (prefix_len + infix_len - 1) (prefix_len + infix_len); Some (\<not> s) });
        assert_that b
      })"

definition patch_infixes :: "patch_env \<Rightarrow> 'v patch \<Rightarrow> u8 list \<Rightarrow> nat \<Rightarrow> u8 list list option" where
  "patch_infixes P p prefix infix_len = do {
     assert_that (length prefix + infix_len \<le> key_len P);
     assert_segment (pe_schema P) (length prefix) infix_len;
     case pt_root p of Some root \<Rightarrow> head_infixes P root prefix infix_len 0 | None \<Rightarrow> Some []
   }"

text \<open>The prefix of a segment query ends where a segment ends.\<close>

definition assert_aligned :: "key_schema \<Rightarrow> nat \<Rightarrow> unit option" where
  "assert_aligned S prefix_len =
     (if 0 < prefix_len \<and> prefix_len < ks_key_len S
      then do { s \<leftarrow> same_segment_tree S (prefix_len - 1) prefix_len; assert_that (\<not> s) } else Some ())"

definition patch_segmented_len :: "patch_env \<Rightarrow> 'v patch \<Rightarrow> u8 list \<Rightarrow> nat option" where
  "patch_segmented_len P p prefix = do {
     assert_that (length prefix \<le> key_len P);
     assert_aligned (pe_schema P) (length prefix);
     case pt_root p of Some root \<Rightarrow> segmented_len P root 0 prefix | None \<Rightarrow> Some 0
   }"

text \<open>The view of a bounded traversal: the located subtree and its number of infixes.\<close>

record 'v bounded_infixes =
  bi_located :: "'v head option"
  bi_count :: nat

definition patch_bounded_infixes :: "patch_env \<Rightarrow> 'v patch \<Rightarrow> u8 list \<Rightarrow> nat \<Rightarrow> nat \<Rightarrow> 'v bounded_infixes option option" where
  "patch_bounded_infixes P p prefix infix_len limit = do {
     assert_that (length prefix + infix_len \<le> key_len P);
     assert_segment (pe_schema P) (length prefix) infix_len;
     assert_aligned (pe_schema P) (length prefix);
     case pt_root p of
       None \<Rightarrow> Some (Some \<lparr>bi_located = None, bi_count = 0\<rparr>)
     | Some root \<Rightarrow> do {
         located \<leftarrow> locate_prefix P root 0 prefix;
         case located of
           None \<Rightarrow> Some (Some \<lparr>bi_located = None, bi_count = 0\<rparr>)
         | Some h \<Rightarrow> do {
             count \<leftarrow> count_segment P h (length prefix);
             Some (if limit < count then None else Some \<lparr>bi_located = Some h, bi_count = count\<rparr>)
           }
       }
   }"

definition bounded_for_each :: "patch_env \<Rightarrow> 'v bounded_infixes \<Rightarrow> nat \<Rightarrow> nat \<Rightarrow> u8 list list option" where
  "bounded_for_each P view prefix_len infix_len = (case bi_located view of
     Some located \<Rightarrow> infixes_from_matched_prefix P located prefix_len infix_len
   | None \<Rightarrow> Some [])"

definition patch_infixes_range :: "patch_env \<Rightarrow> 'v patch \<Rightarrow> u8 list \<Rightarrow> u8 list \<Rightarrow> u8 list \<Rightarrow> u8 list list option" where
  "patch_infixes_range P p prefix lo hi = do {
     assert_that (length prefix + length lo \<le> key_len P);
     assert_segment (pe_schema P) (length prefix) (length lo);
     case pt_root p of Some root \<Rightarrow> head_infixes_range P root prefix 0 lo hi | None \<Rightarrow> Some []
   }"

definition patch_first_infix_range :: "patch_env \<Rightarrow> 'v patch \<Rightarrow> u8 list \<Rightarrow> u8 list \<Rightarrow> u8 list \<Rightarrow> u8 list option option" where
  "patch_first_infix_range P p prefix lo hi = do {
     assert_that (length prefix + length lo \<le> key_len P);
     assert_segment (pe_schema P) (length prefix) (length lo);
     if hi < lo then Some None
     else case pt_root p of Some root \<Rightarrow> head_first_infix_range P root prefix 0 lo hi | None \<Rightarrow> Some None
   }"

text \<open>The successor of an infix in the byte order: the loop runs from the last byte to the first.\<close>

fun successor_at :: "u8 list \<Rightarrow> nat \<Rightarrow> u8 list option" where
  "successor_at lower 0 = None"
| "successor_at lower (Suc cursor) =
     (if lower ! cursor \<noteq> 255
      then Some (take cursor lower @ (lower ! cursor + 1) # replicate (length lower - Suc cursor) 0)
      else successor_at lower cursor)"

definition patch_next_infix_after :: "patch_env \<Rightarrow> 'v patch \<Rightarrow> u8 list \<Rightarrow> u8 list \<Rightarrow> u8 list \<Rightarrow> u8 list option option" where
  "patch_next_infix_after P p prefix after hi = (case successor_at after (length after) of
     None \<Rightarrow> Some None
   | Some lower \<Rightarrow> patch_first_infix_range P p prefix lower hi)"

definition patch_count_range :: "patch_env \<Rightarrow> 'v patch \<Rightarrow> u8 list \<Rightarrow> u8 list \<Rightarrow> u8 list \<Rightarrow> nat option" where
  "patch_count_range P p prefix lo hi = do {
     assert_that (length prefix + length lo \<le> key_len P);
     case pt_root p of Some root \<Rightarrow> head_count_range P root prefix 0 lo hi | None \<Rightarrow> Some 0
   }"

section \<open>The map\<close>

definition patch_ok :: "patch_env \<Rightarrow> 'v patch \<Rightarrow> bool" where
  "patch_ok P p \<longleftrightarrow> (case pt_root p of None \<Rightarrow> True | Some h \<Rightarrow> head_ok P 0 h)"

definition patch_map :: "'v patch \<Rightarrow> u8 list \<rightharpoonup> 'v" where
  "patch_map p = (case pt_root p of None \<Rightarrow> Map.empty | Some h \<Rightarrow> head_map h)"

lemma patch_new_map [simp]: "patch_ok P patch_new" "patch_map patch_new = Map.empty"
  by (simp_all add: patch_ok_def patch_map_def patch_new_def)

text \<open>The keys of a PATCH that start with a prefix, as the node lookups see them.\<close>

definition keys_with :: "patch_env \<Rightarrow> u8 list \<Rightarrow> 'v patch \<Rightarrow> u8 list set" where
  "keys_with P prefix p = {k \<in> dom (patch_map p). starts P prefix k}"

lemma root_keys:
  assumes "pt_root p = Some h"
  shows "dom (patch_map p) = head_keys h" "keys_with P prefix p = below P prefix h" "patch_map p = head_map h"
  using assms by (auto simp: patch_map_def head_keys_def keys_with_def below_def)

lemma no_root: "pt_root p = None \<Longrightarrow> keys_with P prefix p = {}" "pt_root p = None \<Longrightarrow> patch_map p = Map.empty"
  by (simp_all add: keys_with_def patch_map_def)

text \<open>The cached count is the number of keys, and the digest the exclusive or of their digests.\<close>

lemma disjoint_children:
  assumes ok: "head_ok P d (Branch b e cl lc sc h t)"
  shows "x \<noteq> y \<Longrightarrow> table_map hd_byte t x = Some c \<Longrightarrow> table_map hd_byte t y = Some c' \<Longrightarrow> head_keys c \<inter> head_keys c' = {}"
  using child_byte(1) [OF ok] by blast

lemma head_count_card: "head_ok P d h \<Longrightarrow> head_count h = card (head_keys h)"
proof (induction rule: head_ok.induct)
  case (branch d e t cl lc sc h b)
  have ok: "head_ok P d (Branch b e cl lc sc h t)" using branch.hyps branch.IH by (intro head_ok.branch) auto
  let ?K = "\<lambda>x. case table_map hd_byte t x of None \<Rightarrow> {} | Some c \<Rightarrow> head_keys c"
  have "lc = (\<Sum>x \<in> UNIV. card (?K x))" unfolding branch.hyps(6) msum_def using branch.IH by (intro sum.cong) (auto split: option.splits)
  also have "\<dots> = card (\<Union>x. ?K x)"
    using finite_keys disjoint_children [OF ok] by (intro card_UN_disjoint [symmetric]) (auto split: option.splits)
  finally show ?case using branch_keys_byte [OF ok] by simp
qed simp_all

lemma head_hash_keys: "head_ok P d h \<Longrightarrow> head_hash P h = xor128.F (pe_leaf_hash P) (head_keys h)"
proof (induction rule: head_ok.induct)
  case (branch d e t cl lc sc h b)
  have ok: "head_ok P d (Branch b e cl lc sc h t)" using branch.hyps branch.IH by (intro head_ok.branch) auto
  let ?K = "\<lambda>x. case table_map hd_byte t x of None \<Rightarrow> {} | Some c \<Rightarrow> head_keys c"
  have "h = xor128.F (\<lambda>x. xor128.F (pe_leaf_hash P) (?K x)) UNIV"
    unfolding branch.hyps(8) mxor_def using branch.IH by (intro xor128.cong) (auto split: option.splits)
  also have "\<dots> = xor128.F (pe_leaf_hash P) (\<Union>x. ?K x)"
    using finite_keys disjoint_children [OF ok] by (intro xor128.UNION_disjoint [symmetric]) (auto split: option.splits)
  finally show ?case using branch_keys_byte [OF ok] by simp
qed simp_all


lemma patch_len_card: "patch_ok P p \<Longrightarrow> patch_len p = card (dom (patch_map p))"
  by (auto simp: patch_ok_def patch_len_def patch_map_def head_count_card head_keys_def split: option.splits)

lemma patch_root_hash_keys:
  "patch_ok P p \<Longrightarrow> patch_root_hash P p = (if pt_root p = None then None else Some (xor128.F (pe_leaf_hash P) (dom (patch_map p))))"
  by (auto simp: patch_ok_def patch_root_hash_def patch_map_def head_hash_keys head_keys_def split: option.splits)

lemma patch_empty_iff: "patch_ok P p \<Longrightarrow> pt_root p = None \<longleftrightarrow> patch_map p = Map.empty"
  using head_keys_ok(1) by (fastforce simp: patch_ok_def patch_map_def head_keys_def split: option.splits)

section \<open>Updates\<close>

lemma patch_insert_spec:
  assumes "env_ok P" "patch_ok P p" "leaf_for P k v leaf"
  shows "\<exists>q. patch_insert P p leaf = Some q \<and> patch_ok P q
    \<and> patch_map q = (patch_map p)(k \<mapsto> (case patch_map p k of None \<Rightarrow> v | Some v' \<Rightarrow> v'))"
proof (cases "pt_root p")
  case None
  then show ?thesis using leaf_for_simps(1,5) [OF assms(3)] by (auto simp: patch_insert_def patch_ok_def patch_map_def)
next
  case (Some h)
  then show ?thesis using insert_leaf_spec [OF assms(1) _ assms(3), of 0 h 0] assms(2)
    by (auto simp: patch_insert_def patch_ok_def patch_map_def agree_def)
qed

lemma patch_replace_spec:
  assumes "env_ok P" "patch_ok P p" "leaf_for P k v leaf"
  shows "\<exists>q. patch_replace P p leaf = Some q \<and> patch_ok P q \<and> patch_map q = (patch_map p)(k \<mapsto> v)"
proof (cases "pt_root p")
  case None
  then show ?thesis using leaf_for_simps(1,5) [OF assms(3)] by (auto simp: patch_replace_def patch_ok_def patch_map_def)
next
  case (Some h)
  then show ?thesis using replace_leaf_spec [OF assms(1) _ assms(3), of 0 h 0] assms(2)
    by (auto simp: patch_replace_def patch_ok_def patch_map_def agree_def)
qed

lemma patch_remove_spec:
  assumes "env_ok P" "patch_ok P p" "length k = key_len P"
  shows "\<exists>q. patch_remove P p (tree_of P k) = Some q \<and> patch_ok P q \<and> patch_map q = (patch_map p)(k := None)"
proof (cases "pt_root p")
  case None
  then show ?thesis by (auto simp: patch_remove_def patch_ok_def patch_map_def remove_leaf.simps)
next
  case (Some h)
  then show ?thesis using remove_leaf_spec [OF assms(1) _ assms(3), of 0 h 0] assms(2)
    by (fastforce simp: patch_remove_def patch_ok_def patch_map_def agree_def removed_def result_ok_def result_map_def split: option.splits)
qed

lemma patch_insert_archive_eq: "patch_insert_archive P p bytes u = patch_insert P p (local_leaf_new bytes u)"
proof -
  have "insert_archive_leaf P h (local_leaf_new bytes u) (pe_leaf_hash P bytes) 0 = insert_leaf P h (local_leaf_new bytes u) 0" for h
    by (rule insert_archive_leaf_eq) (simp add: local_leaf_new_def)
  then show ?thesis by (cases "pt_root p") (simp_all add: patch_insert_archive_def patch_insert_def Let_def)
qed

lemma patch_get_spec:
  assumes "env_ok P" "patch_ok P p" "length k = key_len P"
  shows "patch_get P p (tree_of P k) = Some (patch_map p k)"
  using head_get_spec [OF assms(1) _ assms(3) matched_0] assms(2) by (auto simp: patch_get_def patch_ok_def patch_map_def split: option.splits)

lemma patch_get_key_spec:
  assumes "env_ok P" "patch_ok P p" "length k = key_len P"
  shows "patch_get_key P p (tree_of P k) = Some (if k \<in> dom (patch_map p) then Some k else None)"
proof (cases "pt_root p")
  case (Some h)
  then show ?thesis using head_get_key_spec [OF assms(1) _ assms(3) matched_0, of 0 h] assms(2) root_keys(1) [OF Some]
    by (simp add: patch_get_key_def patch_ok_def)
qed (simp add: patch_get_key_def patch_map_def)

lemma patch_has_prefix_spec:
  assumes "env_ok P" "patch_ok P p" "length prefix \<le> key_len P"
  shows "patch_has_prefix P p prefix = Some (keys_with P prefix p \<noteq> {} \<or> patch_map p = Map.empty \<and> prefix = [])"
proof (cases "pt_root p")
  case None
  then show ?thesis by (simp add: patch_has_prefix_def no_root)
next
  case (Some h)
  then have "head_ok P 0 h" "patch_map p \<noteq> Map.empty" using assms(2) patch_empty_iff [OF assms(2)] by (auto simp: patch_ok_def)
  then show ?thesis using head_has_prefix_spec [OF assms(1) _ assms(3), of 0 h 0] root_keys [OF Some]
    by (auto simp: patch_has_prefix_def Some below_def)
qed


section \<open>Whole segments\<close>

text \<open>
  The schemas lay the bytes of a segment side by side; then the assertion that the range queries start with
  says that the infix ends where its segment ends.
\<close>

definition segments_contiguous :: "key_schema \<Rightarrow> bool" where
  "segments_contiguous S \<longleftrightarrow> (let segs = map ((!) (ks_segments S)) (ks_tree_to_key S) in
     \<forall>c < ks_key_len S. \<forall>a \<le> c. segs ! a = segs ! c \<longrightarrow> (\<forall>b \<le> c. a \<le> b \<longrightarrow> segs ! b = segs ! c))"

lemma contiguous_between:
  assumes env: "env_ok P" and con: "segments_contiguous (pe_schema P)" and "a \<le> b" "b \<le> c" "c < key_len P" "seg_of P a = seg_of P c"
  shows "seg_of P b = seg_of P c"
proof -
  let ?segs = "map ((!) (ks_segments (pe_schema P))) (ks_tree_to_key (pe_schema P))"
  have seg: "?segs ! i = seg_of P i" if "i < key_len P" for i
    using that schema_perms(4) [of "pe_schema P"] env by (simp add: env_ok_def)
  have bounds: "a \<le> c" "a < key_len P" "b < key_len P" using assms(3-5) by simp_all
  have "?segs ! a = ?segs ! c" using assms(5,6) bounds by (simp only: seg)
  then have "?segs ! b = ?segs ! c"
    using con assms(3,4,5) bounds(1) unfolding segments_contiguous_def Let_def by blast
  then show ?thesis using assms(5) bounds by (simp only: seg)
qed

lemma seg_end_iff:
  assumes env: "env_ok P" and con: "segments_contiguous (pe_schema P)" and d: "d < B" "B \<le> key_len P"
  shows "seg_end P d B \<longleftrightarrow> seg_of P d = seg_of P (B - 1) \<and> (B = key_len P \<or> seg_of P (B - 1) \<noteq> seg_of P B)"
proof
  assume e: "seg_end P d B"
  have "seg_of P (B - 1) = seg_of P d" "B < key_len P \<Longrightarrow> seg_of P B \<noteq> seg_of P d" using e d by (simp_all add: seg_end_def)
  then show "seg_of P d = seg_of P (B - 1) \<and> (B = key_len P \<or> seg_of P (B - 1) \<noteq> seg_of P B)" using d by fastforce
next
  assume asm: "seg_of P d = seg_of P (B - 1) \<and> (B = key_len P \<or> seg_of P (B - 1) \<noteq> seg_of P B)"
  have "seg_of P j = seg_of P d \<longleftrightarrow> j < B" if j: "d \<le> j" "j < key_len P" for j
  proof
    assume "seg_of P j = seg_of P d"
    show "j < B"
    proof (rule ccontr)
      assume "\<not> j < B"
      then have "seg_of P B = seg_of P j" "seg_of P (B - 1) = seg_of P j"
        using contiguous_between [OF env con, of d B j] contiguous_between [OF env con, of d "B - 1" j] d j \<open>seg_of P j = seg_of P d\<close> by auto
      then show False using asm d j \<open>\<not> j < B\<close> by auto
    qed
  next
    assume "j < B"
    then show "seg_of P j = seg_of P d" using contiguous_between [OF env con, of d j "B - 1"] asm d j by auto
  qed
  then show "seg_end P d B" using d by (simp add: seg_end_def)
qed

lemma seg_end_pos: "seg_end P p (p + n) \<Longrightarrow> 0 < n \<and> p + n \<le> key_len P"
  by (simp add: seg_end_def)

lemma same_segment_out: "env_ok P \<Longrightarrow> key_len P \<le> a \<Longrightarrow> same_segment_tree (pe_schema P) a b = None"
  using schema_perms(4) [of "pe_schema P"] by (simp add: same_segment_tree_def segment_of_tree_depth_def env_ok_def idx_def)

lemma assert_segment_spec:
  assumes env: "env_ok P" and con: "segments_contiguous (pe_schema P)" and len: "p + n \<le> key_len P"
  shows "assert_segment (pe_schema P) p n = (if seg_end P p (p + n) then Some () else None)"
proof (cases "n = 0")
  case True
  then have "\<not> seg_end P p (p + n)" by (simp add: seg_end_def)
  moreover have "same_segment_tree (pe_schema P) p (p - 1) = None" if "p = key_len P" using same_segment_out [OF env] that by simp
  moreover have "same_segment_tree (pe_schema P) p (p - 1) = Some (seg_of P p = seg_of P (p - 1))"
    "same_segment_tree (pe_schema P) (p - 1) p = Some (seg_of P (p - 1) = seg_of P p)" if "p < key_len P"
    using same_segment_in [OF env] that by simp_all
  ultimately show ?thesis using True len by (cases "p = key_len P") (auto simp: assert_segment_def assert_that_def)
next
  case False
  then have "same_segment_tree (pe_schema P) p (p + n - 1) = Some (seg_of P p = seg_of P (p + n - 1))"
    "p + n < key_len P \<Longrightarrow> same_segment_tree (pe_schema P) (p + n - 1) (p + n) = Some (seg_of P (p + n - 1) = seg_of P (p + n))"
    using same_segment_in [OF env] len by simp_all
  then show ?thesis using seg_end_iff [OF env con, of p "p + n"] False len by (auto simp: assert_segment_def assert_that_def)
qed

text \<open>The start of an infix that begins a segment.\<close>

lemma assert_aligned_spec:
  assumes env: "env_ok P" and p: "p < key_len P"
  shows "assert_aligned (pe_schema P) p = (if p = 0 \<or> seg_of P (p - 1) \<noteq> seg_of P p then Some () else None)"
  using same_segment_in [OF env, of "p - 1" p] p by (auto simp: assert_aligned_def assert_that_def)

section \<open>Queries\<close>

lemma patch_infixes_spec:
  assumes "env_ok P" "patch_ok P p" "length prefix + n \<le> key_len P"
    and "assert_segment (pe_schema P) (length prefix) n = Some ()"
  shows "\<exists>xs. patch_infixes P p prefix n = Some xs \<and> distinct xs \<and> set xs = infix_of P (length prefix) n ` keys_with P prefix p"
proof (cases "pt_root p")
  case None
  then show ?thesis using assms(3,4) by (simp add: patch_infixes_def no_root)
next
  case (Some h)
  then show ?thesis using head_infixes_spec [OF assms(1) _ assms(3) matched_0, of 0 h] assms root_keys(2) [OF Some]
    by (simp add: patch_infixes_def patch_ok_def)
qed

lemma patch_segmented_len_spec:
  assumes "env_ok P" "patch_ok P p" "seg_end P (length prefix) B" "assert_aligned (pe_schema P) (length prefix) = Some ()"
  shows "patch_segmented_len P p prefix = Some (card (key_prefix P B ` keys_with P prefix p))"
proof -
  have len: "length prefix < key_len P" using assms(3) by (simp add: seg_end_def)
  show ?thesis
  proof (cases "pt_root p")
    case None
    then show ?thesis using len assms(4) by (simp add: patch_segmented_len_def no_root)
  next
    case (Some h)
    then show ?thesis using segmented_len_spec [OF assms(1) _ len matched_0 assms(3), of 0 h] assms len root_keys(2) [OF Some]
      by (simp add: patch_segmented_len_def patch_ok_def)
  qed
qed

lemma patch_infixes_range_spec:
  assumes "env_ok P" "patch_ok P p" "length prefix + length lo \<le> key_len P" "length hi = length lo"
    and "assert_segment (pe_schema P) (length prefix) (length lo) = Some ()"
  shows "\<exists>xs. patch_infixes_range P p prefix lo hi = Some xs \<and> distinct xs
    \<and> set xs = {x \<in> infix_of P (length prefix) (length lo) ` keys_with P prefix p. lo \<le> x \<and> x \<le> hi}"
proof (cases "pt_root p")
  case None
  then show ?thesis using assms(3,5) by (simp add: patch_infixes_range_def no_root)
next
  case (Some h)
  then show ?thesis using head_infixes_range_spec [OF assms(1) _ assms(3,4) matched_0, of 0 h] assms root_keys(2) [OF Some]
    by (fastforce simp: patch_infixes_range_def patch_ok_def in_range_def)
qed

lemma patch_first_infix_range_spec:
  assumes "env_ok P" "patch_ok P p" "length prefix + length lo \<le> key_len P" "length hi = length lo"
    and "assert_segment (pe_schema P) (length prefix) (length lo) = Some ()"
  shows "\<exists>r. patch_first_infix_range P p prefix lo hi = Some r
    \<and> least_of {x \<in> infix_of P (length prefix) (length lo) ` keys_with P prefix p. lo \<le> x \<and> x \<le> hi} r"
proof -
  let ?A = "{x \<in> infix_of P (length prefix) (length lo) ` keys_with P prefix p. lo \<le> x \<and> x \<le> hi}"
  show ?thesis
  proof (cases "hi < lo \<or> pt_root p = None")
    case True
    then have "?A = {}" using no_root(1) [of p P prefix] by (auto dest: order_trans)
    then show ?thesis using True assms(3,5) by (auto simp: patch_first_infix_range_def least_of_def)
  next
    case False
    then obtain h where h: "pt_root p = Some h" by auto
    have "infix_of P (length prefix) (length lo) ` (in_range P (length prefix) lo hi \<inter> below P prefix h) = ?A"
      using root_keys(2) [OF h] by (auto simp: in_range_def)
    then show ?thesis using head_first_infix_range_spec [OF assms(1) _ assms(3,4) matched_0, of 0 h] assms False h
      by (simp add: patch_first_infix_range_def patch_ok_def)
  qed
qed

lemma patch_count_range_spec:
  assumes "env_ok P" "patch_ok P p" "length hi = length lo" "seg_end P (length prefix) (length prefix + length lo)"
  shows "patch_count_range P p prefix lo hi = Some (card {x \<in> infix_of P (length prefix) (length lo) ` keys_with P prefix p. lo \<le> x \<and> x \<le> hi})"
proof (cases "pt_root p")
  case None
  then show ?thesis using seg_end_pos [OF assms(4)] by (simp add: patch_count_range_def no_root)
next
  case (Some h)
  have "infix_of P (length prefix) (length lo) ` (in_range P (length prefix) lo hi \<inter> below P prefix h)
      = {x \<in> infix_of P (length prefix) (length lo) ` keys_with P prefix p. lo \<le> x \<and> x \<le> hi}"
    using root_keys(2) [OF Some] by (auto simp: in_range_def)
  then show ?thesis using head_count_range_spec [OF assms(1) _ assms(3) matched_0 assms(4), of 0 h] assms Some seg_end_pos [OF assms(4)]
    by (simp add: patch_count_range_def patch_ok_def)
qed


text \<open>The successor of an infix is the least infix above it.\<close>

lemma byte_top: "x \<le> 255" and byte_succ: "b \<noteq> 255 \<Longrightarrow> b + 1 \<le> x \<longleftrightarrow> b < x" for b x :: u8
proof -
  have lt: "unat y < 256" for y :: u8 using unsigned_less [where 'a = nat and w = y] by simp
  show "x \<le> 255" using lt [of x] by (simp add: word_le_nat_alt)
  assume "b \<noteq> 255"
  then have "unat b \<noteq> 255" using word_unat_eq_iff [of b 255] by simp
  then have "unat (b + 1) = unat b + 1" using lt [of b] by (simp add: unat_word_ariths)
  then show "b + 1 \<le> x \<longleftrightarrow> b < x" by (auto simp: word_le_nat_alt word_less_nat_alt)
qed

lemma bounds_of_bytes: "replicate (length y) 0 \<le> y" "y \<le> replicate (length y) 255" for y :: "u8 list"
proof -
  have zero: "0 < a \<or> 0 = a" for a :: u8 by (auto simp: word_neq_0_conv)
  show "replicate (length y) 0 \<le> y" by (induction y) (use zero in \<open>auto simp: Cons_le_Cons\<close>)
  show "y \<le> replicate (length y) 255" by (induction y) (use byte_top order_le_less in \<open>auto simp: Cons_le_Cons\<close>)
qed

lemma lex_negate: "x \<le> y \<and> (x = y \<longrightarrow> a < b) \<longleftrightarrow> \<not> (y \<le> x \<and> (y = x \<longrightarrow> b \<le> a))" for x y :: "'a::linorder" and a b :: "'b::linorder"
  by (cases x y rule: linorder_cases) auto

lemma successor_at_spec:
  assumes "cursor \<le> length l" "drop cursor l = replicate (length l - cursor) 255"
  shows "case successor_at l cursor of
      None \<Rightarrow> \<forall>y. length y = length l \<longrightarrow> y \<le> l
    | Some s \<Rightarrow> length s = length l \<and> (\<forall>y. length y = length l \<longrightarrow> (s \<le> y \<longleftrightarrow> l < y))"
  using assms
proof (induction cursor)
  case 0
  have "y \<le> l" if "length y = length l" for y using bounds_of_bytes(2) [of y] 0 that by simp
  then show ?case by simp
next
  case (Suc c)
  then have c: "c < length l" by simp
  show ?case
  proof (cases "l ! c = 255")
    case True
    have "drop c l = l ! c # drop (Suc c) l" using c by (simp add: Cons_nth_drop_Suc)
    then have "drop c l = replicate (length l - c) 255" using Suc.prems True c by (simp add: Suc_diff_Suc flip: replicate_Suc)
    then show ?thesis using Suc.IH c True by simp
  next
    case False
    let ?s = "take c l @ (l ! c + 1) # replicate (length l - Suc c) 0"
    have s: "length ?s = length l" "take c ?s = take c l" "?s ! c = l ! c + 1" "drop (Suc c) ?s = replicate (length l - Suc c) 0"
      using c by (auto simp: nth_append min_def)
    have "?s \<le> y \<longleftrightarrow> l < y" if y: "length y = length l" for y
    proof -
      have z: "replicate (length l - Suc c) 0 \<le> drop (Suc c) y" "drop (Suc c) y \<le> drop (Suc c) l"
        using bounds_of_bytes [of "drop (Suc c) y"] y Suc.prems(2) by simp_all
      have "?s \<le> y \<longleftrightarrow> take c l \<le> take c y \<and> (take c l = take c y \<longrightarrow> l ! c < y ! c)"
        using lex_at [of ?s y c] y c unfolding s by (simp only: s(1) z byte_succ [OF False] simp_thms)
      also have "\<dots> \<longleftrightarrow> \<not> (take c y \<le> take c l \<and> (take c y = take c l \<longrightarrow> y ! c \<le> l ! c))"
        by (rule lex_negate)
      also have "\<dots> \<longleftrightarrow> \<not> y \<le> l" using lex_at [of y l c] y c by (simp only: z simp_thms)
      finally show ?thesis by (simp add: not_le)
    qed
    then show ?thesis using False s(1) by simp
  qed
qed

lemma patch_next_infix_after_spec:
  assumes "env_ok P" "patch_ok P p" "length prefix + length l \<le> key_len P" "length hi = length l"
    and "assert_segment (pe_schema P) (length prefix) (length l) = Some ()"
  shows "\<exists>r. patch_next_infix_after P p prefix l hi = Some r
    \<and> least_of {x \<in> infix_of P (length prefix) (length l) ` keys_with P prefix p. l < x \<and> x \<le> hi} r"
proof -
  note succ = successor_at_spec [of "length l" l, simplified]
  show ?thesis
  proof (cases "successor_at l (length l)")
    case None
    then have "{x \<in> infix_of P (length prefix) (length l) ` keys_with P prefix p. l < x \<and> x \<le> hi} = {}" using succ by (auto simp: not_less [symmetric])
    then show ?thesis using None by (simp add: patch_next_infix_after_def least_of_def)
  next
    case (Some s)
    then have s: "length s = length l" "\<And>k. s \<le> infix_of P (length prefix) (length l) k \<longleftrightarrow> l < infix_of P (length prefix) (length l) k"
      using succ by simp_all
    then have "{x \<in> infix_of P (length prefix) (length s) ` keys_with P prefix p. s \<le> x \<and> x \<le> hi}
        = {x \<in> infix_of P (length prefix) (length l) ` keys_with P prefix p. l < x \<and> x \<le> hi}" by auto
    then show ?thesis using patch_first_infix_range_spec [of P p prefix s hi] assms s(1) Some by (simp add: patch_next_infix_after_def)
  qed
qed

text \<open>The bounded view: absent when there are more infixes than the limit, and complete otherwise.\<close>

lemma patch_bounded_infixes_spec:
  assumes env: "env_ok P" and ok: "patch_ok P p" and seg: "seg_end P (length prefix) (length prefix + n)"
    and asserts: "assert_segment (pe_schema P) (length prefix) n = Some ()" "assert_aligned (pe_schema P) (length prefix) = Some ()"
  defines "K \<equiv> infix_of P (length prefix) n ` keys_with P prefix p"
  shows "\<exists>view. patch_bounded_infixes P p prefix n limit = Some view
    \<and> (case view of None \<Rightarrow> limit < card K
       | Some b \<Rightarrow> card K \<le> limit \<and> bi_count b = card K
           \<and> (\<exists>xs. bounded_for_each P b (length prefix) n = Some xs \<and> distinct xs \<and> set xs = K))"
proof (cases "pt_root p")
  case None
  then show ?thesis using seg_end_pos [OF seg] asserts by (simp add: patch_bounded_infixes_def bounded_for_each_def K_def no_root)
next
  case (Some root)
  note len = seg_end_pos [OF seg]
  then have root: "head_ok P 0 root" and le: "length prefix \<le> key_len P" using ok Some by (auto simp: patch_ok_def)
  have K: "K = infix_of P (length prefix) n ` below P prefix root" using root_keys(2) [OF Some] by (simp add: K_def)
  obtain r where r: "locate_prefix P root 0 prefix = Some r" "case r of None \<Rightarrow> below P prefix root = {}
      | Some h' \<Rightarrow> (\<exists>d. head_ok P d h') \<and> length prefix \<le> head_end_depth P h' \<and> head_keys h' = below P prefix root"
    using locate_prefix_spec [OF env root le matched_0] by blast
  show ?thesis
  proof (cases r)
    case None
    then show ?thesis using r len asserts Some K by (simp add: patch_bounded_infixes_def bounded_for_each_def)
  next
    case (Some h)
    then obtain d where h: "head_ok P d h" "length prefix \<le> head_end_depth P h" "head_keys h = below P prefix root" using r(2) by auto
    have "count_segment P h (length prefix) = Some (card K)"
      using count_segment_spec [OF env h(1,2) seg] card_infixes [of "below P prefix root" P prefix root n] by (simp add: K h(3))
    moreover have "\<exists>xs. infixes_from_matched_prefix P h (length prefix) n = Some xs \<and> distinct xs \<and> set xs = K"
      using infixes_from_matched_prefix_spec [OF env h(1) _ h(2)] len by (simp add: K h(3))
    ultimately show ?thesis using \<open>pt_root p = Some root\<close> Some r(1) len asserts by (simp add: patch_bounded_infixes_def bounded_for_each_def)
  qed
qed

end
