(* ===== verification/Patch_Contract.thy ===== *)
theory Patch_Contract
  imports Patch_Map
begin

text \<open>
  What a PATCH promises: it is a map from keys of the schema's length to values. The contract is the locale
  \<open>key_map\<close>; it is interpreted on the operations of \<open>Patch_Map\<close>, and the properties of the container follow,
  together with those of its queries over segments of the keys.
\<close>

section \<open>The contract of a map\<close>

datatype ('k, 'v) map_op = Insert 'k 'v | Replace 'k 'v | Remove 'k

fun op_key :: "('k, 'v) map_op \<Rightarrow> 'k" where
  "op_key (Insert k _) = k"
| "op_key (Replace k _) = k"
| "op_key (Remove k) = k"

text \<open>The effect of an operation on a map: an insertion keeps the value of a key that is there.\<close>

fun apply_op :: "('k \<rightharpoonup> 'v) \<Rightarrow> ('k, 'v) map_op \<Rightarrow> ('k \<rightharpoonup> 'v)" where
  "apply_op m (Insert k v) = (if m k = None then m(k \<mapsto> v) else m)"
| "apply_op m (Replace k v) = m(k \<mapsto> v)"
| "apply_op m (Remove k) = m(k := None)"

locale key_map =
  fixes valid :: "'k \<Rightarrow> bool" and ok :: "'p \<Rightarrow> bool" and contents :: "'p \<Rightarrow> 'k \<rightharpoonup> 'v"
    and new :: 'p and step :: "'p \<Rightarrow> ('k, 'v) map_op \<Rightarrow> 'p option" and lookup :: "'p \<Rightarrow> 'k \<Rightarrow> 'v option option"
  assumes new: "ok new" "contents new = Map.empty"
    and step: "ok p \<Longrightarrow> valid (op_key a) \<Longrightarrow> \<exists>q. step p a = Some q \<and> ok q \<and> contents q = apply_op (contents p) a"
    and lookup: "ok p \<Longrightarrow> valid k \<Longrightarrow> lookup p k = Some (contents p k)"
begin

lemma run:
  assumes "ok p" "\<forall>a \<in> set ops. valid (op_key a)"
  shows "\<exists>q. for_each step p ops = Some q \<and> ok q \<and> contents q = foldl apply_op (contents p) ops"
  using assms
proof (induction ops arbitrary: p)
  case (Cons a ops)
  then obtain q where "step p a = Some q" "ok q" "contents q = apply_op (contents p) a" using step [of p a] by auto
  then show ?case using Cons.IH [of q] Cons.prems(2) by simp
qed simp

lemma run_new:
  assumes "\<forall>a \<in> set ops. valid (op_key a)"
  shows "\<exists>q. for_each step new ops = Some q \<and> ok q \<and> contents q = foldl apply_op Map.empty ops"
  using run [OF new(1) assms] new(2) by simp

lemma lookup_after:
  assumes "ok p" "valid (op_key a)" "valid k" "step p a = Some q"
  shows "lookup q k = Some (apply_op (contents p) a k)"
  using step [OF assms(1,2)] lookup [OF _ assms(3)] assms(4) by auto

end

text \<open>Insertions alone: the first value of each key stays.\<close>

lemma insert_ops: "foldl apply_op m (map (\<lambda>(k, v). Insert k v) kvs) = map_of kvs ++ m"
proof (induction kvs arbitrary: m)
  case (Cons a kvs)
  obtain k v where a: "a = (k, v)" by (cases a)
  show ?case unfolding a list.map foldl.simps prod.case Cons.IH apply_op.simps map_of.simps fst_conv snd_conv
    by (rule ext) (auto simp: map_add_def split: option.splits)
qed simp

section \<open>PATCH as a map\<close>

definition patch_step :: "patch_env \<Rightarrow> 'v patch \<Rightarrow> (u8 list, 'v) map_op \<Rightarrow> 'v patch option" where
  "patch_step P p a = (case a of
     Insert k v \<Rightarrow> patch_insert P p (entry_with_value P k v)
   | Replace k v \<Rightarrow> patch_replace P p (entry_with_value P k v)
   | Remove k \<Rightarrow> tree_ordered (pe_schema P) k \<bind> patch_remove P p)"

definition patch_lookup :: "patch_env \<Rightarrow> 'v patch \<Rightarrow> u8 list \<Rightarrow> 'v option option" where
  "patch_lookup P p k = tree_ordered (pe_schema P) k \<bind> patch_get P p"

lemma entry_leaf_for: "length k = key_len P \<Longrightarrow> leaf_for P k v (entry_with_value P k v)"
  by (simp add: entry_with_value_def new_leaf_for)

lemma patch_step_spec:
  assumes "env_ok P" "patch_ok P p" "length (op_key a) = key_len P"
  shows "\<exists>q. patch_step P p a = Some q \<and> patch_ok P q \<and> patch_map q = apply_op (patch_map p) a"
proof (cases a)
  case (Insert k v)
  then show ?thesis using patch_insert_spec [OF assms(1,2) entry_leaf_for, of k v] assms(3)
    by (auto simp: patch_step_def fun_upd_idem split: option.splits)
next
  case (Replace k v)
  then show ?thesis using patch_replace_spec [OF assms(1,2) entry_leaf_for, of k v] assms(3) by (simp add: patch_step_def)
next
  case (Remove k)
  then show ?thesis using patch_remove_spec [OF assms(1,2), of k] assms(3) by (simp add: patch_step_def tree_of_ordered [OF assms(1)])
qed

lemma patch_lookup_spec: "env_ok P \<Longrightarrow> patch_ok P p \<Longrightarrow> length k = key_len P \<Longrightarrow> patch_lookup P p k = Some (patch_map p k)"
  by (simp add: patch_lookup_def patch_get_spec tree_of_ordered)

interpretation patch: key_map "\<lambda>k. env_ok P \<and> length k = key_len P" "patch_ok P" patch_map patch_new "patch_step P" "patch_lookup P"
  for P :: patch_env
  by unfold_locales (simp_all add: patch_step_spec patch_lookup_spec)

section \<open>Contiguous schemas\<close>

lemma ranked_contiguous:
  assumes "schema_ok S" "sorted (map (f \<circ> ((!) (ks_segments S))) (ks_tree_to_key S))" "inj_on f (set (map ((!) (ks_segments S)) (ks_tree_to_key S)))"
  shows "segments_contiguous S"
proof -
  let ?segs = "map ((!) (ks_segments S)) (ks_tree_to_key S)"
  have len: "length (ks_tree_to_key S) = ks_key_len S" by (rule schema_perms(4) [OF assms(1)])
  have "?segs ! b = ?segs ! c" if c: "c < ks_key_len S" "a \<le> b" "b \<le> c" "?segs ! a = ?segs ! c" for a b c
  proof -
    have "f (?segs ! a) \<le> f (?segs ! b)" "f (?segs ! b) \<le> f (?segs ! c)"
      using sorted_nth_mono [OF assms(2)] c(1-3) len by simp_all
    then have "f (?segs ! b) = f (?segs ! c)" using c(4) by simp
    moreover have "?segs ! b \<in> set ?segs" "?segs ! c \<in> set ?segs" using c(1-3) len by (auto intro!: nth_mem)
    ultimately show ?thesis using assms(3) by (simp add: inj_on_eq_iff)
  qed
  then show ?thesis unfolding segments_contiguous_def Let_def by blast
qed


lemma trible_segments:
  "map_option (\<lambda>S. map ((!) (ks_segments S)) (ks_tree_to_key S)) eav_order = Some (replicate 16 0 @ replicate 16 1 @ replicate 32 2)"
  "map_option (\<lambda>S. map ((!) (ks_segments S)) (ks_tree_to_key S)) eva_order = Some (replicate 16 0 @ replicate 32 2 @ replicate 16 1)"
  "map_option (\<lambda>S. map ((!) (ks_segments S)) (ks_tree_to_key S)) aev_order = Some (replicate 16 1 @ replicate 16 0 @ replicate 32 2)"
  "map_option (\<lambda>S. map ((!) (ks_segments S)) (ks_tree_to_key S)) ave_order = Some (replicate 16 1 @ replicate 32 2 @ replicate 16 0)"
  "map_option (\<lambda>S. map ((!) (ks_segments S)) (ks_tree_to_key S)) vea_order = Some (replicate 32 2 @ replicate 16 0 @ replicate 16 1)"
  "map_option (\<lambda>S. map ((!) (ks_segments S)) (ks_tree_to_key S)) vae_order = Some (replicate 32 2 @ replicate 16 1 @ replicate 16 0)"
  by code_simp+

lemma three_runs:
  assumes "schema_ok S" "map ((!) (ks_segments S)) (ks_tree_to_key S) = replicate l a @ replicate m b @ replicate n c" "distinct [a, b, c]"
  shows "segments_contiguous S"
proof (rule ranked_contiguous [OF assms(1)])
  let ?f = "\<lambda>x. if x = a then 0 else if x = b then 1 else (2::nat)"
  show "sorted (map (?f \<circ> ((!) (ks_segments S))) (ks_tree_to_key S))"
    using assms(3) unfolding map_map [symmetric] assms(2) by (auto simp: sorted_append)
  show "inj_on ?f (set (map ((!) (ks_segments S)) (ks_tree_to_key S)))"
    using assms(3) unfolding assms(2) by (auto simp: inj_on_def)
qed

lemma trible_order_contiguous:
  assumes "ord \<in> {eav_order, eva_order, aev_order, ave_order, vea_order, vae_order}"
  shows "\<exists>S. ord = Some S \<and> schema_ok S \<and> segments_contiguous S \<and> ks_key_len S = 64"
proof -
  obtain S where S: "ord = Some S" "schema_ok S" "ks_key_len S = 64" using trible_order_ok [OF assms] by blast
  have runs: "segments_contiguous S" if "map_option (\<lambda>S. map ((!) (ks_segments S)) (ks_tree_to_key S)) ord = Some (replicate l a @ replicate m b @ replicate n c)"
      "distinct [a, b, c]" for l m n a b c
    using three_runs [OF S(2) _ that(2)] that(1) S(1) by simp
  consider "ord = eav_order" | "ord = eva_order" | "ord = aev_order" | "ord = ave_order" | "ord = vea_order" | "ord = vae_order"
    using assms by auto
  then have "segments_contiguous S"
  proof cases
    case 1
    show ?thesis by (rule runs [OF trible_segments(1) [folded 1]]) simp
  next
    case 2
    show ?thesis by (rule runs [OF trible_segments(2) [folded 2]]) simp
  next
    case 3
    show ?thesis by (rule runs [OF trible_segments(3) [folded 3]]) simp
  next
    case 4
    show ?thesis by (rule runs [OF trible_segments(4) [folded 4]]) simp
  next
    case 5
    show ?thesis by (rule runs [OF trible_segments(5) [folded 5]]) simp
  next
    case 6
    show ?thesis by (rule runs [OF trible_segments(6) [folded 6]]) simp
  qed
  then show ?thesis using S by blast
qed


lemma card_keys_with: "card (key_prefix P (length prefix + n) ` keys_with P prefix p) = card (infix_of P (length prefix) n ` keys_with P prefix p)"
proof (cases "pt_root p")
  case (Some h)
  then show ?thesis using card_infixes [of "below P prefix h" P prefix h n] by (simp add: root_keys)
qed (simp add: no_root)

section \<open>Properties\<close>

text \<open>A PATCH over keys of two one-byte segments that the tree visits in the opposite order.\<close>

definition swapped_env :: patch_env where
  "swapped_env = \<lparr>pe_schema = \<lparr>ks_key_len = 2, ks_segments = [0, 1], ks_key_to_tree = [1, 0], ks_tree_to_key = [1, 0]\<rparr>,
     pe_rand = id, pe_leaf_hash = (\<lambda>k. word_of_nat (unat (k ! 0) + 256 * unat (k ! 1)))\<rparr>"

lemma swapped_env_schema: "key_schema_of 2 [1, 1] [1, 0] = Some (pe_schema swapped_env)"
  unfolding swapped_env_def patch_env.simps by code_simp

lemma swapped_env_ok: "key_len swapped_env = 2" "env_ok swapped_env" "segments_contiguous (pe_schema swapped_env)"
  by (auto simp: swapped_env_def env_ok_def schema_ok_def segments_contiguous_def Let_def less_Suc_eq le_Suc_eq numeral_2_eq_2)

lemma swapped_env_hash: "pe_leaf_hash swapped_env [1, 2] = 513"
  by (simp add: swapped_env_def)

lemma swapped_patch:
  obtains p where "patch_insert swapped_env patch_new (entry_with_value swapped_env [1, 2] ()) = Some p" "patch_ok swapped_env p" "patch_map p = [[1, 2] \<mapsto> ()]"
  using patch_step_spec [OF swapped_env_ok(2), of patch_new "Insert [1, 2] ()"] by (auto simp: patch_step_def swapped_env_ok)

lemma swapped_segments: "\<not> seg_end swapped_env 0 2" "seg_end swapped_env (Suc 0) (Suc (Suc 0))" "seg_of swapped_env 0 \<noteq> seg_of swapped_env (Suc 0)"
  "starts swapped_env [2] [1, 2]" "infix_of swapped_env (Suc 0) (Suc 0) [1, 2] = [1]"
  by (auto simp: seg_end_def starts_def infix_of_def tbyte_def swapped_env_def less_Suc_eq numeral_2_eq_2)

text \<open>
  C12. A PATCH is a map. Any sequence of insertions, replacements and removals of keys of the schema's length
  runs without a panic from the empty PATCH, keeps the trie's invariant, and leaves the contents that the
  same updates give a map, where an insertion keeps the value of a key that is already there; every lookup
  returns what the map holds.
\<close>

theorem patch_runs_as_map:
  assumes "env_ok P" "\<forall>a \<in> set ops. length (op_key a) = key_len P"
  shows "\<exists>p. for_each (patch_step P) patch_new ops = Some p \<and> patch_ok P p \<and> patch_map p = foldl apply_op Map.empty ops
    \<and> (\<forall>k. length k = key_len P \<longrightarrow> patch_lookup P p k = Some (foldl apply_op Map.empty ops k))"
  using patch.run_new [of ops P] patch.lookup [of P] assms by metis

theorem patch_runs_as_map_witness:
  "\<exists>p. for_each (patch_step swapped_env) patch_new [Insert [1, 2] ''a'', Insert [1, 3] ''b'', Insert [1, 2] ''c'', Remove [1, 3]] = Some p
    \<and> patch_ok swapped_env p \<and> patch_lookup swapped_env p [1, 2] = Some (Some ''a'') \<and> patch_lookup swapped_env p [1, 3] = Some None"
  using patch_runs_as_map [OF swapped_env_ok(2), of "[Insert [1, 2] ''a'', Insert [1, 3] ''b'', Insert [1, 2] ''c'', Remove [1, 3]]"]
  by (fastforce simp: swapped_env_ok)

text \<open>
  C13. The aggregates of a PATCH, which its branches cache: the length is the number of keys, the PATCH is
  empty exactly when it has none, and the root digest is absent then and otherwise the exclusive or of the
  digests of the keys. So two PATCHes with the same keys have the same length and root digest, whatever the
  order in which they were built.
\<close>

theorem patch_aggregates:
  assumes "patch_ok P p"
  shows "patch_len p = card (dom (patch_map p))
    \<and> (patch_is_empty p \<longleftrightarrow> patch_map p = Map.empty)
    \<and> patch_root_hash P p = (if patch_map p = Map.empty then None else Some (xor128.F (pe_leaf_hash P) (dom (patch_map p))))
    \<and> (\<forall>q. patch_ok P q \<longrightarrow> dom (patch_map q) = dom (patch_map p) \<longrightarrow> patch_len q = patch_len p \<and> patch_root_hash P q = patch_root_hash P p)"
proof -
  have hash: "patch_root_hash P q = (if dom (patch_map q) = {} then None else Some (xor128.F (pe_leaf_hash P) (dom (patch_map q))))"
    if "patch_ok P q" for q
    using patch_root_hash_keys [OF that] patch_empty_iff [OF that] by simp
  have "finite (dom (patch_map p))" by (auto simp: patch_map_def head_map_def finite_dom_map_of split: option.splits)
  then have "patch_is_empty p \<longleftrightarrow> patch_map p = Map.empty" using patch_len_card [OF assms] by (simp add: patch_is_empty_def)
  moreover have "patch_len q = patch_len p \<and> patch_root_hash P q = patch_root_hash P p" if "patch_ok P q" "dom (patch_map q) = dom (patch_map p)" for q
    using hash [OF that(1)] hash [OF assms] patch_len_card [OF that(1)] patch_len_card [OF assms] that(2) by simp
  moreover have "patch_root_hash P p = (if patch_map p = Map.empty then None else Some (xor128.F (pe_leaf_hash P) (dom (patch_map p))))"
    using hash [OF assms] by simp
  ultimately show ?thesis using patch_len_card [OF assms] by blast
qed

theorem patch_aggregates_witness:
  "\<exists>p. patch_insert swapped_env patch_new (entry_with_value swapped_env [1, 2] ()) = Some p \<and> patch_len p = 1 \<and> patch_root_hash swapped_env p = Some 513"
proof -
  obtain p where p: "patch_insert swapped_env patch_new (entry_with_value swapped_env [1, 2] ()) = Some p" "patch_ok swapped_env p" "patch_map p = [[1, 2] \<mapsto> ()]"
    by (rule swapped_patch)
  then show ?thesis using patch_aggregates [OF p(2)] by (auto simp: swapped_env_hash)
qed

text \<open>
  C16. Lookups by prefix. \<open>get_key\<close> finds a key exactly when the PATCH has it. \<open>has_prefix\<close> holds exactly when
  some key starts with the prefix in tree order, except that the empty PATCH answers true for the empty
  prefix. None of them panics.
\<close>

theorem patch_prefix_lookup:
  assumes "env_ok P" "patch_ok P p"
  shows "(\<forall>k. length k = key_len P \<longrightarrow> tree_ordered (pe_schema P) k \<bind> patch_get_key P p = Some (if k \<in> dom (patch_map p) then Some k else None))
    \<and> (\<forall>prefix. length prefix \<le> key_len P \<longrightarrow>
        patch_has_prefix P p prefix = Some ((\<exists>k \<in> dom (patch_map p). starts P prefix k) \<or> patch_map p = Map.empty \<and> prefix = []))"
  using patch_get_key_spec [OF assms] patch_has_prefix_spec [OF assms] tree_of_ordered [OF assms(1)] by (auto simp: keys_with_def)

theorem patch_prefix_lookup_witness:
  "patch_has_prefix swapped_env (patch_new :: unit patch) [] = Some True \<and> patch_has_prefix swapped_env (patch_new :: unit patch) [7] = Some False"
  using patch_prefix_lookup [of swapped_env "patch_new :: unit patch", OF swapped_env_ok(2) patch_new_map(1)] by (auto simp: swapped_env_ok)


text \<open>
  C14. The distinct values of a segment. For a prefix in tree order and an infix length, \<open>infixes\<close> panics unless
  the infix ends where its segment ends; then it yields each infix that follows the prefix in some key once.
  \<open>segmented_len\<close> of a prefix that ends a segment is the number of values that the next segment takes below it.
\<close>

theorem patch_infixes_correct:
  assumes env: "env_ok P" and con: "segments_contiguous (pe_schema P)" and ok: "patch_ok P p" and len: "length prefix + n \<le> key_len P"
  shows "(\<not> seg_end P (length prefix) (length prefix + n) \<longrightarrow> patch_infixes P p prefix n = None)
    \<and> (seg_end P (length prefix) (length prefix + n) \<longrightarrow>
        (\<exists>xs. patch_infixes P p prefix n = Some xs \<and> distinct xs
           \<and> set xs = {infix_of P (length prefix) n k | k. k \<in> dom (patch_map p) \<and> starts P prefix k}
           \<and> patch_segmented_len P p prefix = (if prefix = [] \<or> seg_of P (length prefix - 1) \<noteq> seg_of P (length prefix) then Some (length xs) else None)))"
proof (intro conjI impI)
  assume "\<not> seg_end P (length prefix) (length prefix + n)"
  then show "patch_infixes P p prefix n = None" using assert_segment_spec [OF env con len] len by (simp add: patch_infixes_def)
next
  assume seg: "seg_end P (length prefix) (length prefix + n)"
  then have asrt: "assert_segment (pe_schema P) (length prefix) n = Some ()" using assert_segment_spec [OF env con len] by simp
  obtain xs where xs: "patch_infixes P p prefix n = Some xs" "distinct xs" "set xs = infix_of P (length prefix) n ` keys_with P prefix p"
    using patch_infixes_spec [OF env ok len asrt] by blast
  have al: "assert_aligned (pe_schema P) (length prefix) = (if prefix = [] \<or> seg_of P (length prefix - 1) \<noteq> seg_of P (length prefix) then Some () else None)"
    using assert_aligned_spec [OF env, of "length prefix"] seg by (simp add: seg_end_def)
  have "card (key_prefix P (length prefix + n) ` keys_with P prefix p) = length xs"
    using card_keys_with [of P prefix n p] distinct_card [OF xs(2)] xs(3) by simp
  then have "patch_segmented_len P p prefix = (if prefix = [] \<or> seg_of P (length prefix - 1) \<noteq> seg_of P (length prefix) then Some (length xs) else None)"
    using patch_segmented_len_spec [OF env ok seg] al seg_end_pos [OF seg] by (auto simp: patch_segmented_len_def)
  moreover have "set xs = {infix_of P (length prefix) n k | k. k \<in> dom (patch_map p) \<and> starts P prefix k}"
    unfolding xs(3) by (auto simp: keys_with_def)
  ultimately show "\<exists>xs. patch_infixes P p prefix n = Some xs \<and> distinct xs
      \<and> set xs = {infix_of P (length prefix) n k | k. k \<in> dom (patch_map p) \<and> starts P prefix k}
      \<and> patch_segmented_len P p prefix = (if prefix = [] \<or> seg_of P (length prefix - 1) \<noteq> seg_of P (length prefix) then Some (length xs) else None)"
    using xs(1,2) by blast
qed

theorem patch_infixes_correct_witness:
  "patch_infixes swapped_env (patch_new :: unit patch) [] 2 = None \<and> patch_segmented_len swapped_env (patch_new :: unit patch) [4] = Some 0"
  using patch_infixes_correct [of swapped_env "patch_new :: unit patch" "[]" 2, OF swapped_env_ok(2,3) patch_new_map(1)]
    patch_infixes_correct [of swapped_env "patch_new :: unit patch" "[4]" 1, OF swapped_env_ok(2,3) patch_new_map(1)] swapped_segments
  by (auto simp: swapped_env_ok simp flip: numeral_2_eq_2)

text \<open>
  Bounded traversal. For a prefix that ends a segment and a limit, \<open>bounded_infixes\<close> refuses exactly when the
  next segment takes more values than the limit; otherwise the view it returns has the exact count, and
  \<open>for_each\<close> visits each of these values once.
\<close>

theorem patch_bounded_infixes_correct:
  assumes env: "env_ok P" and con: "segments_contiguous (pe_schema P)" and ok: "patch_ok P p"
    and seg: "seg_end P (length prefix) (length prefix + n)" "prefix = [] \<or> seg_of P (length prefix - 1) \<noteq> seg_of P (length prefix)"
  shows "\<exists>view. patch_bounded_infixes P p prefix n limit = Some view
    \<and> (let values = {infix_of P (length prefix) n k | k. k \<in> dom (patch_map p) \<and> starts P prefix k} in
       case view of None \<Rightarrow> limit < card values
       | Some b \<Rightarrow> card values \<le> limit \<and> bi_count b = card values
           \<and> (\<exists>xs. bounded_for_each P b (length prefix) n = Some xs \<and> distinct xs \<and> set xs = values))"
proof -
  have "{infix_of P (length prefix) n k | k. k \<in> dom (patch_map p) \<and> starts P prefix k} = infix_of P (length prefix) n ` keys_with P prefix p"
    by (auto simp: keys_with_def)
  moreover have "assert_segment (pe_schema P) (length prefix) n = Some ()" using assert_segment_spec [OF env con] seg_end_pos [OF seg(1)] seg(1) by simp
  moreover have "assert_aligned (pe_schema P) (length prefix) = Some ()" using assert_aligned_spec [OF env, of "length prefix"] seg by (auto simp: seg_end_def)
  ultimately show ?thesis using patch_bounded_infixes_spec [OF env ok seg(1), of limit] by (simp add: Let_def)
qed

theorem patch_bounded_infixes_correct_witness:
  "\<exists>p. patch_insert swapped_env patch_new (entry_with_value swapped_env [1, 2] ()) = Some p
    \<and> patch_bounded_infixes swapped_env p [2] 1 0 = Some None"
proof -
  obtain p where p: "patch_insert swapped_env patch_new (entry_with_value swapped_env [1, 2] ()) = Some p" "patch_ok swapped_env p" "patch_map p = [[1, 2] \<mapsto> ()]"
    by (rule swapped_patch)
  have vals: "{infix_of swapped_env (Suc 0) (Suc 0) k | k. k \<in> dom (patch_map p) \<and> starts swapped_env [2] k} = {[1]}"
    using swapped_segments(4,5) p(3) by auto
  obtain view where view: "patch_bounded_infixes swapped_env p [2] 1 0 = Some view"
      "case view of None \<Rightarrow> True | Some b \<Rightarrow> card {[1 :: u8]} \<le> 0"
    using patch_bounded_infixes_correct [OF swapped_env_ok(2,3) p(2), of "[2]" 1 0] swapped_segments vals
    by (fastforce simp: Let_def split: option.splits)
  then show ?thesis using p(1) by (cases view) auto
qed


lemma least_of_simps: "least_of {} r \<longleftrightarrow> r = None" "least_of {a} r \<longleftrightarrow> r = Some a"
  by (auto simp: least_of_def split: option.splits)

text \<open>
  C15. Range queries. For an infix that ends its segment and two bounds of its length, \<open>infixes_range\<close> yields
  each infix between the bounds once, \<open>count_range\<close> their number from the cached counts, \<open>first_infix_range\<close>
  the least of them in the byte order, and \<open>next_infix_after\<close> the least one above its argument. So repeating
  the last from the first enumerates the range in order.
\<close>

theorem patch_range_queries_correct:
  assumes env: "env_ok P" and con: "segments_contiguous (pe_schema P)" and ok: "patch_ok P p"
    and seg: "seg_end P (length prefix) (length prefix + length lo)" and hi: "length hi = length lo"
  defines "values \<equiv> {infix_of P (length prefix) (length lo) k | k. k \<in> dom (patch_map p) \<and> starts P prefix k}"
  shows "(\<exists>xs. patch_infixes_range P p prefix lo hi = Some xs \<and> distinct xs \<and> set xs = {x \<in> values. lo \<le> x \<and> x \<le> hi})
    \<and> patch_count_range P p prefix lo hi = Some (card {x \<in> values. lo \<le> x \<and> x \<le> hi})
    \<and> (\<exists>r. patch_first_infix_range P p prefix lo hi = Some r \<and> least_of {x \<in> values. lo \<le> x \<and> x \<le> hi} r)
    \<and> (\<exists>r. patch_next_infix_after P p prefix lo hi = Some r \<and> least_of {x \<in> values. lo < x \<and> x \<le> hi} r)"
proof -
  have v: "values = infix_of P (length prefix) (length lo) ` keys_with P prefix p" by (auto simp: values_def keys_with_def)
  note len = conjunct2 [OF seg_end_pos [OF seg]]
  have asrt: "assert_segment (pe_schema P) (length prefix) (length lo) = Some ()" using assert_segment_spec [OF env con len] seg by simp
  show ?thesis unfolding v
    using patch_infixes_range_spec [OF env ok len hi asrt] patch_count_range_spec [OF env ok hi seg]
      patch_first_infix_range_spec [OF env ok len hi asrt] patch_next_infix_after_spec [OF env ok len hi asrt] by blast
qed

theorem patch_range_queries_correct_witness:
  "\<exists>p. patch_insert swapped_env patch_new (entry_with_value swapped_env [1, 2] ()) = Some p
    \<and> patch_count_range swapped_env p [2] [0] [9] = Some 1 \<and> patch_first_infix_range swapped_env p [2] [0] [9] = Some (Some [1])
    \<and> patch_next_infix_after swapped_env p [2] [1] [9] = Some None"
proof -
  obtain p where p: "patch_insert swapped_env patch_new (entry_with_value swapped_env [1, 2] ()) = Some p" "patch_ok swapped_env p" "patch_map p = [[1, 2] \<mapsto> ()]"
    by (rule swapped_patch)
  have vals: "{infix_of swapped_env (length [2 :: u8]) (length [b]) k | k. k \<in> dom (patch_map p) \<and> starts swapped_env [2] k} = {[1]}" for b :: u8
    using swapped_segments(4,5) p(3) by auto
  have sets: "{x \<in> {[1 :: u8]}. [0] \<le> x \<and> x \<le> [9]} = {[1]}" "{x \<in> {[1 :: u8]}. [1] < x \<and> x \<le> [9]} = {}" by auto
  have seg: "seg_end swapped_env (length [2 :: u8]) (length [2 :: u8] + length [b])" for b :: u8 using swapped_segments(2) by simp
  note q = patch_range_queries_correct [OF swapped_env_ok(2,3) p(2) seg, unfolded vals]
  have "patch_count_range swapped_env p [2] [0] [9] = Some 1" "patch_first_infix_range swapped_env p [2] [0] [9] = Some (Some [1])"
    using q [of "[9]" 0] unfolding sets by (auto simp: least_of_simps)
  moreover have "patch_next_infix_after swapped_env p [2] [1] [9] = Some None"
    using q [of "[9]" 1] unfolding sets by (auto simp: least_of_simps)
  ultimately show ?thesis using p(1) by blast
qed

text \<open>
  Archive-backed insertion. Inserting a key that lies in an archive, with its digest computed once and
  handed down, gives the same contents, length and root digest as inserting an entry that owns the key,
  and no panic.
\<close>

theorem patch_insert_archive_equiv:
  assumes env: "env_ok P" and ok: "patch_ok P p" and k: "length k = key_len P"
  shows "\<exists>q r. patch_insert_archive P p k u = Some q \<and> patch_insert P p (entry_with_value P k u) = Some r \<and> patch_ok P q
    \<and> patch_map q = patch_map r \<and> patch_len q = patch_len r \<and> patch_root_hash P q = patch_root_hash P r"
proof -
  obtain q where q: "patch_insert_archive P p k u = Some q" "patch_ok P q"
      "patch_map q = (patch_map p)(k \<mapsto> (case patch_map p k of None \<Rightarrow> u | Some v' \<Rightarrow> v'))"
    using patch_insert_spec [OF env ok new_leaf_for(2) [OF k]] by (auto simp: patch_insert_archive_eq)
  obtain r where r: "patch_insert P p (entry_with_value P k u) = Some r" "patch_ok P r"
      "patch_map r = (patch_map p)(k \<mapsto> (case patch_map p k of None \<Rightarrow> u | Some v' \<Rightarrow> v'))"
    using patch_insert_spec [OF env ok entry_leaf_for [OF k]] by blast
  show ?thesis using q r patch_len_card [OF q(2)] patch_len_card [OF r(2)] patch_root_hash_keys [OF q(2)] patch_root_hash_keys [OF r(2)]
      patch_empty_iff [OF q(2)] patch_empty_iff [OF r(2)] by simp
qed

theorem patch_insert_archive_equiv_witness:
  "\<exists>q r. patch_insert_archive swapped_env patch_new [1, 2] () = Some q \<and> patch_insert swapped_env patch_new (entry_with_value swapped_env [1, 2] ()) = Some r
    \<and> patch_root_hash swapped_env q = patch_root_hash swapped_env r"
  using patch_insert_archive_equiv [OF swapped_env_ok(2) patch_new_map(1), of "[1, 2]" "()"] swapped_env_ok(1) by force

end
