(* ===== verification/Trible_Set.thy ===== *)
theory Trible_Set
  imports Inline_Value Patch_Contract
begin

text \<open>
  \<open>trible.rs\<close> and \<open>trible/tribleset.rs\<close>: the 64-byte trible of entity, attribute and value, and the set of
  tribles, kept in six PATCHes, one for each order of the three segments. The key schemas are those of
  \<open>Key_Schema\<close>; the keyed hash of a leaf and the random permutation of the tables are parameters, shared by
  the six indexes.

  What a client uses of an index is the locale \<open>covering_index\<close>: the values of a segment below a prefix of
  whole segments, their number, and whether there is one. The locale \<open>trible_store\<close> gives the six instances.
\<close>

section \<open>Tribles\<close>

record trible =
  tr_e :: raw_id
  tr_a :: raw_id
  tr_v :: raw_inline

definition trible_force :: "raw_id \<Rightarrow> raw_id \<Rightarrow> raw_inline \<Rightarrow> trible" where
  "trible_force e a v = \<lparr>tr_e = e, tr_a = a, tr_v = v\<rparr>"

definition trible_as_raw :: "trible \<Rightarrow> u8 list" where
  "trible_as_raw t = id_bytes (tr_e t) @ id_bytes (tr_a t) @ inline_bytes (tr_v t)"

text \<open>A copy of a slice into an array of fixed length; it is only used on slices of that length.\<close>

definition id_pad :: "u8 list \<Rightarrow> raw_id" where
  "id_pad bs = Raw_Id (take 16 (bs @ replicate 16 0))"

lemma id_bytes_pad [simp, code abstract]: "id_bytes (id_pad bs) = take 16 (bs @ replicate 16 0)"
  by (simp add: id_pad_def Raw_Id_inverse)

text \<open>Reading a trible from 64 bytes checks the row rule: neither the entity nor the attribute is nil.\<close>

definition trible_force_raw :: "u8 list \<Rightarrow> trible option" where
  "trible_force_raw data =
     (let t = trible_force (id_pad (take 16 data)) (id_pad (take 16 (drop 16 data))) (inline_pad (drop 32 data)) in
      if length data \<noteq> 64 \<or> id_is_nil (tr_e t) \<or> id_is_nil (tr_a t) then None else Some t)"

lemma length_as_raw [simp]: "length (trible_as_raw t) = 64"
  by (simp add: trible_as_raw_def)

lemma as_raw_parts:
  "take 16 (trible_as_raw t) = id_bytes (tr_e t)" "take 16 (drop 16 (trible_as_raw t)) = id_bytes (tr_a t)"
  "drop 32 (trible_as_raw t) = inline_bytes (tr_v t)"
  by (simp_all add: trible_as_raw_def)

lemma id_pad_bytes [simp]: "id_pad (id_bytes i) = i"
  by (simp add: id_bytes_inject [symmetric])

lemma inline_pad_bytes [simp]: "inline_pad (inline_bytes v) = v"
  by (simp add: inline_bytes_inject [symmetric])

lemma as_raw_inject [simp]: "trible_as_raw t = trible_as_raw u \<longleftrightarrow> t = u"
proof
  assume eq: "trible_as_raw t = trible_as_raw u"
  show "t = u" using as_raw_parts [of t] as_raw_parts [of u] unfolding eq
    by (simp add: id_bytes_inject inline_bytes_inject)
qed simp

text \<open>Every array of 64 bytes is the content of one record.\<close>

definition trible_of :: "u8 list \<Rightarrow> trible" where
  "trible_of data = trible_force (id_pad (take 16 data)) (id_pad (take 16 (drop 16 data))) (inline_pad (drop 32 data))"

lemma as_raw_of: "length data = 64 \<Longrightarrow> trible_as_raw (trible_of data) = data"
proof -
  assume "length data = 64"
  then have "trible_as_raw (trible_of data) = take 16 data @ take 16 (drop 16 data) @ drop (16 + 16) data"
    by (simp add: trible_as_raw_def trible_of_def trible_force_def)
  also have "\<dots> = data" by (metis append_take_drop_id drop_drop add.commute)
  finally show ?thesis .
qed

section \<open>Trible sets\<close>

record hash_env =
  he_rand :: "u8 \<Rightarrow> u8"
  he_leaf_hash :: "u8 list \<Rightarrow> u128"

definition order_env :: "hash_env \<Rightarrow> key_schema option \<Rightarrow> patch_env" where
  "order_env H ord = \<lparr>pe_schema = the ord, pe_rand = he_rand H, pe_leaf_hash = he_leaf_hash H\<rparr>"

record trible_set =
  ts_eav :: "unit patch"
  ts_vea :: "unit patch"
  ts_ave :: "unit patch"
  ts_vae :: "unit patch"
  ts_eva :: "unit patch"
  ts_aev :: "unit patch"

definition ts_new :: trible_set where
  "ts_new = \<lparr>ts_eav = patch_new, ts_vea = patch_new, ts_ave = patch_new, ts_vae = patch_new, ts_eva = patch_new, ts_aev = patch_new\<rparr>"

definition ts_len :: "trible_set \<Rightarrow> nat" where
  "ts_len s = patch_len (ts_eav s)"

definition ts_is_empty :: "trible_set \<Rightarrow> bool" where
  "ts_is_empty s \<longleftrightarrow> ts_len s = 0"

definition ts_insert :: "hash_env \<Rightarrow> trible_set \<Rightarrow> trible \<Rightarrow> trible_set option" where
  "ts_insert H s t = do {
     let key = (\<lambda>ord. entry_with_value (order_env H ord) (trible_as_raw t) ());
     eav \<leftarrow> patch_insert (order_env H eav_order) (ts_eav s) (key eav_order);
     eva \<leftarrow> patch_insert (order_env H eva_order) (ts_eva s) (key eva_order);
     aev \<leftarrow> patch_insert (order_env H aev_order) (ts_aev s) (key aev_order);
     ave \<leftarrow> patch_insert (order_env H ave_order) (ts_ave s) (key ave_order);
     vea \<leftarrow> patch_insert (order_env H vea_order) (ts_vea s) (key vea_order);
     vae \<leftarrow> patch_insert (order_env H vae_order) (ts_vae s) (key vae_order);
     Some \<lparr>ts_eav = eav, ts_vea = vea, ts_ave = ave, ts_vae = vae, ts_eva = eva, ts_aev = aev\<rparr>
   }"

definition ts_insert_archive :: "hash_env \<Rightarrow> trible_set \<Rightarrow> trible \<Rightarrow> trible_set option" where
  "ts_insert_archive H s t = do {
     eav \<leftarrow> patch_insert_archive (order_env H eav_order) (ts_eav s) (trible_as_raw t) ();
     eva \<leftarrow> patch_insert_archive (order_env H eva_order) (ts_eva s) (trible_as_raw t) ();
     aev \<leftarrow> patch_insert_archive (order_env H aev_order) (ts_aev s) (trible_as_raw t) ();
     ave \<leftarrow> patch_insert_archive (order_env H ave_order) (ts_ave s) (trible_as_raw t) ();
     vea \<leftarrow> patch_insert_archive (order_env H vea_order) (ts_vea s) (trible_as_raw t) ();
     vae \<leftarrow> patch_insert_archive (order_env H vae_order) (ts_vae s) (trible_as_raw t) ();
     Some \<lparr>ts_eav = eav, ts_vea = vea, ts_ave = ave, ts_vae = vae, ts_eva = eva, ts_aev = aev\<rparr>
   }"

definition ts_contains :: "hash_env \<Rightarrow> trible_set \<Rightarrow> trible \<Rightarrow> bool option" where
  "ts_contains H s t = patch_has_prefix (order_env H eav_order) (ts_eav s) (trible_as_raw t)"

definition ts_from_iter :: "hash_env \<Rightarrow> trible list \<Rightarrow> trible_set option" where
  "ts_from_iter H ts = for_each (ts_insert H) ts_new ts"

section \<open>The environments of the six orders\<close>

lemma order_env_simps [simp]: "pe_rand (order_env H ord) = he_rand H" "pe_leaf_hash (order_env H ord) = he_leaf_hash H"
  "pe_schema (order_env H ord) = the ord"
  by (simp_all add: order_env_def)

definition six_orders :: "key_schema option set" where
  "six_orders = {eav_order, eva_order, aev_order, ave_order, vea_order, vae_order}"

lemma six_orders_mem [simp]: "eav_order \<in> six_orders" "eva_order \<in> six_orders" "aev_order \<in> six_orders" "ave_order \<in> six_orders"
  "vea_order \<in> six_orders" "vae_order \<in> six_orders"
  by (simp_all add: six_orders_def)

lemma order_env_ok:
  assumes "ord \<in> six_orders"
  shows "env_ok (order_env H ord)" "key_len (order_env H ord) = 64" "segments_contiguous (pe_schema (order_env H ord))"
proof -
  obtain S where "ord = Some S" "schema_ok S" "segments_contiguous S" "ks_key_len S = 64"
    using trible_order_contiguous [of ord] assms unfolding six_orders_def by blast
  then show "env_ok (order_env H ord)" "key_len (order_env H ord) = 64" "segments_contiguous (pe_schema (order_env H ord))"
    by (simp_all add: env_ok_def)
qed

lemma order_tree:
  assumes "ord \<in> six_orders" "map_option ks_tree_to_key ord = Some t2k"
  shows "tree_of (order_env H ord) (trible_as_raw t) = map ((!) (trible_as_raw t)) t2k"
proof -
  have "trible_bytes (id_bytes (tr_e t)) (id_bytes (tr_a t)) (inline_bytes (tr_v t))" by (simp add: trible_bytes_def)
  then have "ord \<bind> (\<lambda>S. tree_ordered S (trible_as_raw t)) = Some (map ((!) (trible_as_raw t)) t2k)"
    using trible_order_layout [of ord t2k] assms unfolding six_orders_def trible_as_raw_def by blast
  moreover have "tree_ordered (pe_schema (order_env H ord)) (trible_as_raw t) = Some (tree_of (order_env H ord) (trible_as_raw t))"
    using tree_of_ordered [OF order_env_ok(1) [OF assms(1)]] order_env_ok(2) [OF assms(1)] by simp
  ultimately show ?thesis using assms(2) by auto
qed

lemma tree_orders:
  fixes H :: hash_env and t :: trible
  defines "e \<equiv> id_bytes (tr_e t)" and "a \<equiv> id_bytes (tr_a t)" and "v \<equiv> inline_bytes (tr_v t)"
  shows "tree_of (order_env H eav_order) (trible_as_raw t) = e @ a @ v" "tree_of (order_env H eva_order) (trible_as_raw t) = e @ v @ a"
    "tree_of (order_env H aev_order) (trible_as_raw t) = a @ e @ v" "tree_of (order_env H ave_order) (trible_as_raw t) = a @ v @ e"
    "tree_of (order_env H vea_order) (trible_as_raw t) = v @ e @ a" "tree_of (order_env H vae_order) (trible_as_raw t) = v @ a @ e"
proof -
  have b: "trible_bytes e a v" by (simp add: trible_bytes_def e_def a_def v_def)
  have r: "trible_as_raw t = e @ a @ v" by (simp add: trible_as_raw_def e_def a_def v_def)
  note s = trible_slices [OF b]
  note tree = order_tree [of _ _ H t, unfolded r]
  show "tree_of (order_env H eav_order) (trible_as_raw t) = e @ a @ v" "tree_of (order_env H eva_order) (trible_as_raw t) = e @ v @ a"
    "tree_of (order_env H aev_order) (trible_as_raw t) = a @ e @ v" "tree_of (order_env H ave_order) (trible_as_raw t) = a @ v @ e"
    "tree_of (order_env H vea_order) (trible_as_raw t) = v @ e @ a" "tree_of (order_env H vae_order) (trible_as_raw t) = v @ a @ e"
    using tree [OF six_orders_mem(1) trible_tree_to_key(1)] tree [OF six_orders_mem(2) trible_tree_to_key(2)]
      tree [OF six_orders_mem(3) trible_tree_to_key(3)] tree [OF six_orders_mem(4) trible_tree_to_key(4)]
      tree [OF six_orders_mem(5) trible_tree_to_key(5)] tree [OF six_orders_mem(6) trible_tree_to_key(6)]
    unfolding r by (simp_all only: map_append s)
qed


section \<open>Covering indexes\<close>

lemma starts_take: "length prefix \<le> key_len P \<Longrightarrow> starts P prefix k \<longleftrightarrow> take (length prefix) (tree_of P k) = prefix"
  by (auto simp: starts_def list_eq_iff_nth_eq)

lemma infix_take: "p + n \<le> key_len P \<Longrightarrow> infix_of P p n k = take n (drop p (tree_of P k))"
  by (auto simp: list_eq_iff_nth_eq)

locale covering_index =
  fixes P :: patch_env and p :: "unit patch" and T :: "trible set"
    and pr1 pr2 pr3 :: "trible \<Rightarrow> u8 list" and l1 l2 l3 :: nat
  assumes env: "env_ok P" and con: "segments_contiguous (pe_schema P)" and ok: "patch_ok P p"
    and keys: "dom (patch_map p) = trible_as_raw ` T"
    and layout: "tree_of P (trible_as_raw t) = pr1 t @ pr2 t @ pr3 t"
    and lens: "length (pr1 t) = l1" "length (pr2 t) = l2" "length (pr3 t) = l3" "key_len P = l1 + l2 + l3"
    and segs: "seg_end P 0 l1" "seg_end P l1 (l1 + l2)" "seg_end P (l1 + l2) (l1 + l2 + l3)"
begin

lemma pos: "0 < l1" "0 < l2" "0 < l3"
  using segs by (simp_all add: seg_end_def)

lemma has_prefix:
  assumes "prefix \<noteq> []" "length prefix \<le> key_len P"
  shows "patch_has_prefix P p prefix = Some (\<exists>t \<in> T. take (length prefix) (pr1 t @ pr2 t @ pr3 t) = prefix)"
  using patch_has_prefix_spec [OF env ok assms(2)] assms(1) by (auto simp: keys_with_def keys starts_take [OF assms(2)] layout)

lemma has_first: "length x = l1 \<Longrightarrow> patch_has_prefix P p x = Some (\<exists>t \<in> T. pr1 t = x)"
  using has_prefix [of x] pos lens by auto

lemma has_second: "length x = l1 \<Longrightarrow> length y = l2 \<Longrightarrow> patch_has_prefix P p (x @ y) = Some (\<exists>t \<in> T. pr1 t = x \<and> pr2 t = y)"
  using has_prefix [of "x @ y"] pos lens by auto

lemma has_third:
  "length x = l1 \<Longrightarrow> length y = l2 \<Longrightarrow> length z = l3 \<Longrightarrow>
     patch_has_prefix P p (x @ y @ z) = Some (\<exists>t \<in> T. pr1 t = x \<and> pr2 t = y \<and> pr3 t = z)"
  using has_prefix [of "x @ y @ z"] pos lens by auto

text \<open>The values of the segment after a prefix of whole segments.\<close>

lemma values_eq:
  assumes "length prefix + n \<le> key_len P"
  shows "infix_of P (length prefix) n ` keys_with P prefix p
    = (\<lambda>t. take n (drop (length prefix) (pr1 t @ pr2 t @ pr3 t))) ` {t \<in> T. take (length prefix) (pr1 t @ pr2 t @ pr3 t) = prefix}"
proof -
  have "starts P prefix k \<longleftrightarrow> take (length prefix) (tree_of P k) = prefix" for k using assms by (intro starts_take) simp
  then have "keys_with P prefix p = trible_as_raw ` {t \<in> T. take (length prefix) (tree_of P (trible_as_raw t)) = prefix}"
    by (auto simp: keys_with_def keys)
  then show ?thesis unfolding infix_take [OF assms] layout [symmetric] by (simp only: image_image)
qed

lemma infixes:
  assumes "seg_end P (length prefix) (length prefix + n)"
  shows "\<exists>xs. patch_infixes P p prefix n = Some xs \<and> distinct xs
    \<and> set xs = (\<lambda>t. take n (drop (length prefix) (pr1 t @ pr2 t @ pr3 t))) ` {t \<in> T. take (length prefix) (pr1 t @ pr2 t @ pr3 t) = prefix}"
proof -
  note len = conjunct2 [OF seg_end_pos [OF assms]]
  have "assert_segment (pe_schema P) (length prefix) n = Some ()" using assert_segment_spec [OF env con len] assms by simp
  then show ?thesis using patch_infixes_spec [OF env ok len] values_eq [OF len] by simp
qed

lemma segmented_len:
  assumes seg: "seg_end P (length prefix) (length prefix + n)"
    and al: "prefix = [] \<or> seg_of P (length prefix - 1) \<noteq> seg_of P (length prefix)"
  shows "patch_segmented_len P p prefix
    = Some (card ((\<lambda>t. take n (drop (length prefix) (pr1 t @ pr2 t @ pr3 t))) ` {t \<in> T. take (length prefix) (pr1 t @ pr2 t @ pr3 t) = prefix}))"
proof -
  note len = conjunct2 [OF seg_end_pos [OF seg]]
  have "length prefix < key_len P" using seg by (simp add: seg_end_def)
  then have "assert_aligned (pe_schema P) (length prefix) = Some ()" using assert_aligned_spec [OF env] al by auto
  then show ?thesis using patch_segmented_len_spec [OF env ok seg] card_keys_with [of P prefix n p] values_eq [OF len] by simp
qed

lemma boundary: "seg_of P (l1 - 1) \<noteq> seg_of P l1" "seg_of P (l1 + l2 - 1) \<noteq> seg_of P (l1 + l2)"
proof -
  have "seg_of P (l1 - 1) = seg_of P 0" "seg_of P l1 \<noteq> seg_of P 0" using segs(1) pos lens(4) by (auto simp: seg_end_def)
  then show "seg_of P (l1 - 1) \<noteq> seg_of P l1" by metis
  have "seg_of P (l1 + l2 - 1) = seg_of P l1" "seg_of P (l1 + l2) \<noteq> seg_of P l1" using segs(2) pos lens(4) by (auto simp: seg_end_def)
  then show "seg_of P (l1 + l2 - 1) \<noteq> seg_of P (l1 + l2)" by metis
qed

lemma infixes_first: "\<exists>xs. patch_infixes P p [] l1 = Some xs \<and> distinct xs \<and> set xs = pr1 ` T"
  using infixes [of "[]" l1] segs(1) lens by simp

lemma infixes_second:
  assumes "length x = l1"
  shows "\<exists>xs. patch_infixes P p x l2 = Some xs \<and> distinct xs \<and> set xs = pr2 ` {t \<in> T. pr1 t = x}"
  using infixes [of x l2] segs(2) lens assms by simp

lemma infixes_third:
  assumes "length x = l1" "length y = l2"
  shows "\<exists>xs. patch_infixes P p (x @ y) l3 = Some xs \<and> distinct xs \<and> set xs = pr3 ` {t \<in> T. pr1 t = x \<and> pr2 t = y}"
  using infixes [of "x @ y" l3] segs(3) lens assms by simp

lemma segmented_len_first: "patch_segmented_len P p [] = Some (card (pr1 ` T))"
  using segmented_len [of "[]" l1] segs(1) lens by simp

lemma segmented_len_second:
  assumes "length x = l1"
  shows "patch_segmented_len P p x = Some (card (pr2 ` {t \<in> T. pr1 t = x}))"
  using segmented_len [of x l2] segs(2) lens boundary(1) assms by simp

lemma segmented_len_third:
  assumes "length x = l1" "length y = l2"
  shows "patch_segmented_len P p (x @ y) = Some (card (pr3 ` {t \<in> T. pr1 t = x \<and> pr2 t = y}))"
  using segmented_len [of "x @ y" l3] segs(3) lens boundary(2) assms by simp

end

section \<open>The store\<close>

text \<open>The contents of a set are read off its first index; the others hold the same keys.\<close>

definition ts_contents :: "trible_set \<Rightarrow> trible set" where
  "ts_contents s = {t. trible_as_raw t \<in> dom (patch_map (ts_eav s))}"

definition ts_ok :: "hash_env \<Rightarrow> trible_set \<Rightarrow> bool" where
  "ts_ok H s \<longleftrightarrow> (let K = dom (patch_map (ts_eav s)) in
     patch_ok (order_env H eav_order) (ts_eav s) \<and> patch_ok (order_env H eva_order) (ts_eva s) \<and> dom (patch_map (ts_eva s)) = K
     \<and> patch_ok (order_env H aev_order) (ts_aev s) \<and> dom (patch_map (ts_aev s)) = K
     \<and> patch_ok (order_env H ave_order) (ts_ave s) \<and> dom (patch_map (ts_ave s)) = K
     \<and> patch_ok (order_env H vea_order) (ts_vea s) \<and> dom (patch_map (ts_vea s)) = K
     \<and> patch_ok (order_env H vae_order) (ts_vae s) \<and> dom (patch_map (ts_vae s)) = K)"

lemma ts_keys: "ts_ok H s \<Longrightarrow> dom (patch_map (ts_eav s)) = trible_as_raw ` ts_contents s"
proof
  assume "ts_ok H s"
  then have ok: "patch_ok (order_env H eav_order) (ts_eav s)" by (simp add: ts_ok_def Let_def)
  show "dom (patch_map (ts_eav s)) \<subseteq> trible_as_raw ` ts_contents s"
  proof
    fix k assume k: "k \<in> dom (patch_map (ts_eav s))"
    have "length k = 64"
      using ok k order_env_ok(2) [of eav_order H] head_keys_ok(2) by (fastforce simp: patch_ok_def patch_map_def head_keys_def split: option.splits)
    then show "k \<in> trible_as_raw ` ts_contents s" using k as_raw_of [of k] by (auto simp: ts_contents_def image_iff intro!: exI [of _ "trible_of k"])
  qed
qed (auto simp: ts_contents_def)

text \<open>The runs of segments of an order, with their ends.\<close>

lemma run_ends:
  assumes ord: "ord \<in> six_orders" and runs: "map_option (\<lambda>S. map ((!) (ks_segments S)) (ks_tree_to_key S)) ord = Some (replicate l a @ replicate m b @ replicate n c)"
    and d: "distinct [a, b, c]" "0 < l" "0 < m" "0 < n" "l + m + n = 64"
  shows "seg_end (order_env H ord) 0 l" "seg_end (order_env H ord) l (l + m)" "seg_end (order_env H ord) (l + m) (l + m + n)"
proof -
  have "length (ks_tree_to_key (the ord)) = 64" using order_env_ok [OF ord] schema_perms(4) [of "the ord"] by (simp add: env_ok_def)
  then have seg: "seg_of (order_env H ord) j = (replicate l a @ replicate m b @ replicate n c) ! j" if "j < 64" for j
    using that runs by (cases ord) (auto simp flip: nth_map)
  have "seg_of (order_env H ord) j = (if j < l then a else if j < l + m then b else c)" if "j < 64" for j
    unfolding seg [OF that] using that d(5) by (auto simp: nth_append)
  note at = this [simplified]
  show "seg_end (order_env H ord) 0 l" "seg_end (order_env H ord) l (l + m)" "seg_end (order_env H ord) (l + m) (l + m + n)"
    unfolding seg_end_def order_env_ok(2) [OF ord] using d by (auto simp: at)
qed

lemma order_ends:
  "seg_end (order_env H eav_order) 0 16" "seg_end (order_env H eav_order) 16 32" "seg_end (order_env H eav_order) 32 64"
  "seg_end (order_env H eva_order) 0 16" "seg_end (order_env H eva_order) 16 48" "seg_end (order_env H eva_order) 48 64"
  "seg_end (order_env H aev_order) 0 16" "seg_end (order_env H aev_order) 16 32" "seg_end (order_env H aev_order) 32 64"
  "seg_end (order_env H ave_order) 0 16" "seg_end (order_env H ave_order) 16 48" "seg_end (order_env H ave_order) 48 64"
  "seg_end (order_env H vea_order) 0 32" "seg_end (order_env H vea_order) 32 48" "seg_end (order_env H vea_order) 48 64"
  "seg_end (order_env H vae_order) 0 32" "seg_end (order_env H vae_order) 32 48" "seg_end (order_env H vae_order) 48 64"
  using run_ends [OF six_orders_mem(1) trible_segments(1), of H]
    run_ends [OF six_orders_mem(2) trible_segments(2), of H]
    run_ends [OF six_orders_mem(3) trible_segments(3), of H]
    run_ends [OF six_orders_mem(4) trible_segments(4), of H]
    run_ends [OF six_orders_mem(5) trible_segments(5), of H]
    run_ends [OF six_orders_mem(6) trible_segments(6), of H]
  by simp_all

locale trible_store =
  fixes H :: hash_env and s :: trible_set
  assumes store_ok: "ts_ok H s"

sublocale trible_store \<subseteq> eav: covering_index "order_env H eav_order" "ts_eav s" "ts_contents s"
  "\<lambda>t. id_bytes (tr_e t)" "\<lambda>t. id_bytes (tr_a t)" "\<lambda>t. inline_bytes (tr_v t)" 16 16 32
  using store_ok ts_keys [OF store_ok] order_env_ok [of eav_order H] order_ends [of H]
  by unfold_locales (simp_all add: ts_ok_def Let_def tree_orders)

sublocale trible_store \<subseteq> eva: covering_index "order_env H eva_order" "ts_eva s" "ts_contents s"
  "\<lambda>t. id_bytes (tr_e t)" "\<lambda>t. inline_bytes (tr_v t)" "\<lambda>t. id_bytes (tr_a t)" 16 32 16
  using store_ok ts_keys [OF store_ok] order_env_ok [of eva_order H] order_ends [of H]
  by unfold_locales (simp_all add: ts_ok_def Let_def tree_orders)

sublocale trible_store \<subseteq> aev: covering_index "order_env H aev_order" "ts_aev s" "ts_contents s"
  "\<lambda>t. id_bytes (tr_a t)" "\<lambda>t. id_bytes (tr_e t)" "\<lambda>t. inline_bytes (tr_v t)" 16 16 32
  using store_ok ts_keys [OF store_ok] order_env_ok [of aev_order H] order_ends [of H]
  by unfold_locales (simp_all add: ts_ok_def Let_def tree_orders)

sublocale trible_store \<subseteq> ave: covering_index "order_env H ave_order" "ts_ave s" "ts_contents s"
  "\<lambda>t. id_bytes (tr_a t)" "\<lambda>t. inline_bytes (tr_v t)" "\<lambda>t. id_bytes (tr_e t)" 16 32 16
  using store_ok ts_keys [OF store_ok] order_env_ok [of ave_order H] order_ends [of H]
  by unfold_locales (simp_all add: ts_ok_def Let_def tree_orders)

sublocale trible_store \<subseteq> vea: covering_index "order_env H vea_order" "ts_vea s" "ts_contents s"
  "\<lambda>t. inline_bytes (tr_v t)" "\<lambda>t. id_bytes (tr_e t)" "\<lambda>t. id_bytes (tr_a t)" 32 16 16
  using store_ok ts_keys [OF store_ok] order_env_ok [of vea_order H] order_ends [of H]
  by unfold_locales (simp_all add: ts_ok_def Let_def tree_orders)

sublocale trible_store \<subseteq> vae: covering_index "order_env H vae_order" "ts_vae s" "ts_contents s"
  "\<lambda>t. inline_bytes (tr_v t)" "\<lambda>t. id_bytes (tr_a t)" "\<lambda>t. id_bytes (tr_e t)" 32 16 16
  using store_ok ts_keys [OF store_ok] order_env_ok [of vae_order H] order_ends [of H]
  by unfold_locales (simp_all add: ts_ok_def Let_def tree_orders)


section \<open>Operations on the store\<close>

text \<open>One index after an insertion.\<close>

lemma index_insert:
  assumes "ord \<in> six_orders" "patch_ok (order_env H ord) p" "leaf_for (order_env H ord) (trible_as_raw t) () leaf"
  shows "\<exists>q. patch_insert (order_env H ord) p leaf = Some q \<and> patch_ok (order_env H ord) q
    \<and> dom (patch_map q) = insert (trible_as_raw t) (dom (patch_map p))"
  using patch_insert_spec [OF order_env_ok(1) [OF assms(1)] assms(2,3)] by auto

lemma index_leaves:
  assumes "ord \<in> six_orders"
  shows "leaf_for (order_env H ord) (trible_as_raw t) () (entry_with_value (order_env H ord) (trible_as_raw t) ())"
    "leaf_for (order_env H ord) (trible_as_raw t) () (local_leaf_new (trible_as_raw t) ())"
  using order_env_ok(2) [OF assms] by (simp_all add: entry_leaf_for new_leaf_for)

lemma ts_new_ok: "ts_ok H ts_new" "ts_contents ts_new = {}"
  by (simp_all add: ts_ok_def ts_new_def ts_contents_def)

lemma index_insert_entry:
  assumes "ord \<in> six_orders" "patch_ok (order_env H ord) p"
  shows "\<exists>q. patch_insert (order_env H ord) p (entry_with_value (order_env H ord) (trible_as_raw t) ()) = Some q
    \<and> patch_ok (order_env H ord) q \<and> dom (patch_map q) = insert (trible_as_raw t) (dom (patch_map p))"
    "\<exists>q. patch_insert_archive (order_env H ord) p (trible_as_raw t) () = Some q
    \<and> patch_ok (order_env H ord) q \<and> dom (patch_map q) = insert (trible_as_raw t) (dom (patch_map p))"
  unfolding patch_insert_archive_eq using index_insert [OF assms] index_leaves [OF assms(1)] by blast+

text \<open>The same update of all six.\<close>

lemma six_updates:
  assumes "ts_ok H s" and F: "\<And>ord p. ord \<in> six_orders \<Longrightarrow> patch_ok (order_env H ord) p \<Longrightarrow>
    \<exists>q. F ord p = Some q \<and> patch_ok (order_env H ord) q \<and> dom (patch_map q) = insert (trible_as_raw t) (dom (patch_map p))"
  shows "\<exists>s'. do { eav \<leftarrow> F eav_order (ts_eav s); eva \<leftarrow> F eva_order (ts_eva s); aev \<leftarrow> F aev_order (ts_aev s);
      ave \<leftarrow> F ave_order (ts_ave s); vea \<leftarrow> F vea_order (ts_vea s); vae \<leftarrow> F vae_order (ts_vae s);
      Some \<lparr>ts_eav = eav, ts_vea = vea, ts_ave = ave, ts_vae = vae, ts_eva = eva, ts_aev = aev\<rparr> } = Some s'
    \<and> ts_ok H s' \<and> ts_contents s' = insert t (ts_contents s)"
proof -
  note ok = assms(1) [unfolded ts_ok_def Let_def]
  have upd: "\<exists>q. F ord p = Some q \<and> patch_ok (order_env H ord) q \<and> dom (patch_map q) = insert (trible_as_raw t) (dom (patch_map (ts_eav s)))"
    if "ord \<in> six_orders" "patch_ok (order_env H ord) p \<and> dom (patch_map p) = dom (patch_map (ts_eav s))" for ord p
    using F [OF that(1), of p] that(2) by auto
  obtain eav eva aev where 1: "F eav_order (ts_eav s) = Some eav" "F eva_order (ts_eva s) = Some eva" "F aev_order (ts_aev s) = Some aev"
      "patch_ok (order_env H eav_order) eav" "patch_ok (order_env H eva_order) eva" "patch_ok (order_env H aev_order) aev"
      "dom (patch_map eav) = insert (trible_as_raw t) (dom (patch_map (ts_eav s)))"
      "dom (patch_map eva) = insert (trible_as_raw t) (dom (patch_map (ts_eav s)))" "dom (patch_map aev) = insert (trible_as_raw t) (dom (patch_map (ts_eav s)))"
    using upd [of eav_order "ts_eav s"] upd [of eva_order "ts_eva s"] upd [of aev_order "ts_aev s"] ok by auto
  obtain ave vea vae where 2: "F ave_order (ts_ave s) = Some ave" "F vea_order (ts_vea s) = Some vea" "F vae_order (ts_vae s) = Some vae"
      "patch_ok (order_env H ave_order) ave" "patch_ok (order_env H vea_order) vea" "patch_ok (order_env H vae_order) vae"
      "dom (patch_map ave) = insert (trible_as_raw t) (dom (patch_map (ts_eav s)))"
      "dom (patch_map vea) = insert (trible_as_raw t) (dom (patch_map (ts_eav s)))" "dom (patch_map vae) = insert (trible_as_raw t) (dom (patch_map (ts_eav s)))"
    using upd [of ave_order "ts_ave s"] upd [of vea_order "ts_vea s"] upd [of vae_order "ts_vae s"] ok by auto
  show ?thesis using 1 2 by (simp add: ts_ok_def ts_contents_def Let_def) auto
qed

lemma ts_insert_spec:
  assumes "ts_ok H s"
  shows "\<exists>s'. ts_insert H s t = Some s' \<and> ts_ok H s' \<and> ts_contents s' = insert t (ts_contents s)"
    "\<exists>s'. ts_insert_archive H s t = Some s' \<and> ts_ok H s' \<and> ts_contents s' = insert t (ts_contents s)"
  unfolding ts_insert_def ts_insert_archive_def Let_def
  by (rule six_updates [OF assms], erule (1) index_insert_entry)+

text \<open>Inserting one by one, from any set and from the empty one.\<close>

lemma ts_insert_all:
  "ts_ok H s \<Longrightarrow> \<exists>s'. for_each (ts_insert H) s ts = Some s' \<and> ts_ok H s' \<and> ts_contents s' = ts_contents s \<union> set ts"
proof (induction ts arbitrary: s)
  case (Cons t ts)
  then show ?case using ts_insert_spec(1) [OF Cons.prems, of t] by fastforce
qed simp

lemma ts_from_iter_spec: "\<exists>s. ts_from_iter H ts = Some s \<and> ts_ok H s \<and> ts_contents s = set ts"
  using ts_insert_all [OF ts_new_ok(1), of H ts] ts_new_ok(2) by (simp add: ts_from_iter_def)

lemma ts_from_iter_ok: "ts_ok H (the (ts_from_iter H ts))" "ts_contents (the (ts_from_iter H ts)) = set ts"
proof -
  obtain s where "ts_from_iter H ts = Some s" "ts_ok H s" "ts_contents s = set ts" using ts_from_iter_spec by blast
  then show "ts_ok H (the (ts_from_iter H ts))" "ts_contents (the (ts_from_iter H ts)) = set ts" by simp_all
qed

lemma built_store: "trible_store H (the (ts_from_iter H ts))"
  by (rule trible_store.intro [OF ts_from_iter_ok(1)])

interpretation built: trible_store H "the (ts_from_iter H ts)" for H ts
  by (rule built_store)

context trible_store
begin

lemma contains: "ts_contains H s t = Some (t \<in> ts_contents s)"
proof -
  have "patch_has_prefix (order_env H eav_order) (ts_eav s) (trible_as_raw t)
      = Some (\<exists>u \<in> ts_contents s. id_bytes (tr_e u) = id_bytes (tr_e t) \<and> id_bytes (tr_a u) = id_bytes (tr_a t) \<and> inline_bytes (tr_v u) = inline_bytes (tr_v t))"
    unfolding trible_as_raw_def by (rule eav.has_third) simp_all
  moreover have "u = t" if "id_bytes (tr_e u) = id_bytes (tr_e t)" "id_bytes (tr_a u) = id_bytes (tr_a t)" "inline_bytes (tr_v u) = inline_bytes (tr_v t)" for u
    using that by (cases u, cases t) (simp add: id_bytes_inject inline_bytes_inject)
  ultimately show ?thesis unfolding ts_contains_def by auto
qed

end

lemma ts_len_spec:
  assumes "ts_ok H s"
  shows "ts_len s = card (ts_contents s)" "finite (ts_contents s)"
proof -
  have ok: "patch_ok (order_env H eav_order) (ts_eav s)" using assms by (simp add: ts_ok_def Let_def)
  have "card (dom (patch_map (ts_eav s))) = card (ts_contents s)" unfolding ts_keys [OF assms] by (rule card_image) (simp add: inj_on_def)
  then show "ts_len s = card (ts_contents s)" using patch_len_card [OF ok] by (simp add: ts_len_def)
  have "finite (trible_as_raw ` ts_contents s)" unfolding ts_keys [OF assms, symmetric]
    by (auto simp: patch_map_def head_map_def finite_dom_map_of split: option.splits)
  then show "finite (ts_contents s)" by (rule finite_imageD) (simp add: inj_on_def)
qed


text \<open>What each of the six indexes holds, and what a client sees of it: the prefixes of its keys in tree order.\<close>

definition index_holds :: "patch_env \<Rightarrow> unit patch \<Rightarrow> trible set \<Rightarrow> bool" where
  "index_holds P p T \<longleftrightarrow> patch_ok P p \<and> dom (patch_map p) = trible_as_raw ` T
     \<and> (\<forall>prefix. prefix \<noteq> [] \<and> length prefix \<le> 64 \<longrightarrow>
          patch_has_prefix P p prefix = Some (\<exists>t \<in> T. take (length prefix) (tree_of P (trible_as_raw t)) = prefix))"

definition six_indexes_hold :: "hash_env \<Rightarrow> trible_set \<Rightarrow> trible set \<Rightarrow> bool" where
  "six_indexes_hold H s T \<longleftrightarrow> index_holds (order_env H eav_order) (ts_eav s) T \<and> index_holds (order_env H eva_order) (ts_eva s) T
     \<and> index_holds (order_env H aev_order) (ts_aev s) T \<and> index_holds (order_env H ave_order) (ts_ave s) T
     \<and> index_holds (order_env H vea_order) (ts_vea s) T \<and> index_holds (order_env H vae_order) (ts_vae s) T"

lemma index_holds_keys:
  assumes ord: "ord \<in> six_orders" and p: "patch_ok (order_env H ord) p" "dom (patch_map p) = trible_as_raw ` T"
  shows "index_holds (order_env H ord) p T"
  unfolding index_holds_def
proof (intro conjI allI impI)
  fix prefix :: "u8 list" assume "prefix \<noteq> [] \<and> length prefix \<le> 64"
  then have len: "length prefix \<le> key_len (order_env H ord)" "prefix \<noteq> []" using order_env_ok(2) [OF ord, of H] by simp_all
  show "patch_has_prefix (order_env H ord) p prefix = Some (\<exists>t \<in> T. take (length prefix) (tree_of (order_env H ord) (trible_as_raw t)) = prefix)"
    using patch_has_prefix_spec [OF order_env_ok(1) [OF ord] p(1) len(1)] len(2) by (auto simp: keys_with_def p(2) starts_take [OF len(1)])
qed (rule p)+

lemma six_indexes: "ts_ok H s \<Longrightarrow> six_indexes_hold H s (ts_contents s)"
  using ts_keys [of H s] unfolding six_indexes_hold_def ts_ok_def Let_def by (simp add: index_holds_keys)

section \<open>Properties\<close>

text \<open>
  C27. The rows of a trible set are tribles: reading 64 bytes succeeds exactly when neither the entity nor the
  attribute is nil, and the trible read is the one whose bytes they are; so every trible that is stored from
  raw bytes satisfies the row rule, and writing it yields the bytes again.
\<close>

theorem trible_raw_valid:
  "trible_force_raw data = Some t \<longleftrightarrow> trible_as_raw t = data \<and> \<not> id_is_nil (tr_e t) \<and> \<not> id_is_nil (tr_a t)"
proof
  assume asm: "trible_force_raw data = Some t"
  then have "length data = 64" "t = trible_of data" by (auto simp: trible_force_raw_def trible_of_def Let_def split: if_splits)
  then show "trible_as_raw t = data \<and> \<not> id_is_nil (tr_e t) \<and> \<not> id_is_nil (tr_a t)"
    using asm as_raw_of by (auto simp: trible_force_raw_def Let_def split: if_splits)
next
  assume asm: "trible_as_raw t = data \<and> \<not> id_is_nil (tr_e t) \<and> \<not> id_is_nil (tr_a t)"
  then have "length data = 64" "trible_of data = t" using as_raw_of [of data] by (metis length_as_raw, metis as_raw_inject length_as_raw)
  then show "trible_force_raw data = Some t" using asm by (auto simp: trible_force_raw_def trible_of_def Let_def)
qed

text \<open>
  C17. A trible set is a set. Collecting any list of tribles builds, without a panic, a set whose contents are
  the tribles of the list: membership is exact and the length counts the distinct ones. All six indexes are intact
  and hold exactly those tribles: each answers, for every prefix of bytes in its own order, whether some trible has
  it. One more insertion, owned or archive-backed, adds its trible to all six.
\<close>

theorem trible_set_is_set:
  "\<exists>s. ts_from_iter H ts = Some s \<and> six_indexes_hold H s (set ts)
    \<and> (\<forall>t. ts_contains H s t = Some (t \<in> set ts)) \<and> ts_len s = card (set ts) \<and> (ts_is_empty s \<longleftrightarrow> ts = [])
    \<and> (\<forall>t. \<exists>s'. ts_insert H s t = Some s' \<and> six_indexes_hold H s' (insert t (set ts)))
    \<and> (\<forall>t. \<exists>s'. ts_insert_archive H s t = Some s' \<and> six_indexes_hold H s' (insert t (set ts)))"
proof -
  obtain s where s: "ts_from_iter H ts = Some s" "ts_ok H s" "ts_contents s = set ts" using ts_from_iter_spec by blast
  have "the (ts_from_iter H ts) = s" using s(1) by simp
  note contains = built.contains [of H ts, unfolded this s(3)]
  have "ts_is_empty s \<longleftrightarrow> ts = []" using ts_len_spec(1) [OF s(2)] s(3) by (simp add: ts_is_empty_def)
  moreover have "\<exists>s'. ts_insert H s t = Some s' \<and> six_indexes_hold H s' (insert t (set ts))" for t
    using ts_insert_spec(1) [OF s(2), of t] six_indexes unfolding s(3) by metis
  moreover have "\<exists>s'. ts_insert_archive H s t = Some s' \<and> six_indexes_hold H s' (insert t (set ts))" for t
    using ts_insert_spec(2) [OF s(2), of t] six_indexes unfolding s(3) by metis
  ultimately show ?thesis using s contains ts_len_spec(1) [OF s(2)] six_indexes [OF s(2)] by auto
qed

end
