(* ===== verification/Trible_Pattern.thy ===== *)
theory Trible_Pattern
  imports Constraint Trible_Set "HOL-Library.Product_Lexorder"
begin

text \<open>
  \<open>trible/tribleset/triblesetconstraint.rs\<close>: the constraint that a trible set holds a trible whose entity,
  attribute and value are given terms, each a variable or a constant. Which of the six indexes answers
  depends on the positions that have a value and on those that the variable in question occupies. A batch is
  answered by groups of rows that agree on every value the constraint reads. The build without the
  \<open>parallel\<close> feature is modelled.
\<close>

section \<open>The constraint\<close>

record trible_constraint =
  tc_e :: raw_term
  tc_a :: raw_term
  tc_v :: raw_term
  tc_set :: trible_set

definition tc_new :: "raw_term \<Rightarrow> raw_term \<Rightarrow> raw_term \<Rightarrow> trible_set \<Rightarrow> trible_constraint" where
  "tc_new e a v s = \<lparr>tc_e = e, tc_a = a, tc_v = v, tc_set = s\<rparr>"

definition sorted_probe_min :: nat where
  "sorted_probe_min = 2"

definition touches :: "trible_constraint \<Rightarrow> nat \<Rightarrow> bool" where
  "touches c v \<longleftrightarrow> rt_is_var (tc_e c) v \<or> rt_is_var (tc_a c) v \<or> rt_is_var (tc_v c) v"

text \<open>
  The identifier at a position: absent when the position has no value, and \<open>None\<close> when its value is not the
  encoding of an identifier.
\<close>

definition bound_id :: "raw_term \<Rightarrow> binding \<Rightarrow> raw_id option option option" where
  "bound_id term b = do {
     r \<leftarrow> rt_position_value term b;
     Some (case r of None \<Rightarrow> Some None | Some x \<Rightarrow> (case id_from_value x of None \<Rightarrow> None | Some i \<Rightarrow> Some (Some i)))
   }"

subsection \<open>Estimates\<close>

definition estimate_arm ::
  "hash_env \<Rightarrow> trible_set \<Rightarrow> raw_id option \<Rightarrow> raw_id option \<Rightarrow> raw_inline option \<Rightarrow> bool \<Rightarrow> bool \<Rightarrow> bool \<Rightarrow> nat option" where
  "estimate_arm H s e_bound a_bound v_bound e_var a_var v_var =
     (let eav = patch_segmented_len (order_env H eav_order) (ts_eav s); eva = patch_segmented_len (order_env H eva_order) (ts_eva s);
          aev = patch_segmented_len (order_env H aev_order) (ts_aev s); ave = patch_segmented_len (order_env H ave_order) (ts_ave s);
          vea = patch_segmented_len (order_env H vea_order) (ts_vea s); vae = patch_segmented_len (order_env H vae_order) (ts_vae s) in
      case (e_bound, a_bound, v_bound, e_var, a_var, v_var) of
        (None, None, None, True, False, False) \<Rightarrow> eav []
      | (None, None, None, False, True, False) \<Rightarrow> aev []
      | (None, None, None, False, False, True) \<Rightarrow> vea []
      | (Some e, None, None, False, True, False) \<Rightarrow> eav (id_bytes e)
      | (Some e, None, None, False, False, True) \<Rightarrow> eva (id_bytes e)
      | (None, Some a, None, True, False, False) \<Rightarrow> aev (id_bytes a)
      | (None, Some a, None, False, False, True) \<Rightarrow> ave (id_bytes a)
      | (None, None, Some v, True, False, False) \<Rightarrow> vea (inline_bytes v)
      | (None, None, Some v, False, True, False) \<Rightarrow> vae (inline_bytes v)
      | (None, Some a, Some v, True, False, False) \<Rightarrow> ave (id_bytes a @ inline_bytes v)
      | (Some e, None, Some v, False, True, False) \<Rightarrow> eva (id_bytes e @ inline_bytes v)
      | (Some e, Some a, None, False, False, True) \<Rightarrow> eav (id_bytes e @ id_bytes a)
      | (_, Some a, _, True, False, True) \<Rightarrow> aev (id_bytes a)
      | (_, None, _, True, False, True) \<Rightarrow> eav []
      | (_, _, Some v, True, True, False) \<Rightarrow> vae (inline_bytes v)
      | (_, _, None, True, True, False) \<Rightarrow> aev []
      | (Some e, _, _, False, True, True) \<Rightarrow> eav (id_bytes e)
      | (None, _, _, False, True, True) \<Rightarrow> aev []
      | (_, _, _, True, True, True) \<Rightarrow> eav []
      | _ \<Rightarrow> None)"

definition tc_estimate :: "hash_env \<Rightarrow> trible_constraint \<Rightarrow> nat \<Rightarrow> binding \<Rightarrow> nat option option" where
  "tc_estimate H c v b =
     (let e_var = rt_is_var (tc_e c) v; a_var = rt_is_var (tc_a c) v; v_var = rt_is_var (tc_v c) v in
      if \<not> e_var \<and> \<not> a_var \<and> \<not> v_var then Some None
      else do {
        e \<leftarrow> bound_id (tc_e c) b;
        case e of None \<Rightarrow> Some (Some 0) | Some e_bound \<Rightarrow> do {
          a \<leftarrow> bound_id (tc_a c) b;
          case a of None \<Rightarrow> Some (Some 0) | Some a_bound \<Rightarrow> do {
            v_bound \<leftarrow> rt_position_value (tc_v c) b;
            n \<leftarrow> estimate_arm H (tc_set c) e_bound a_bound v_bound e_var a_var v_var;
            Some (Some n)
          }
        }
      })"

subsection \<open>Proposals\<close>

text \<open>The closures that an index walk calls with each infix: push it, or push it where a test holds.\<close>

definition push_ids :: "proposal_buffer \<Rightarrow> u8 list list \<Rightarrow> proposal_buffer option" where
  "push_ids pb xs = for_each (\<lambda>pb x. pb_push pb (id_into_value (id_pad x))) pb xs"

definition push_values :: "proposal_buffer \<Rightarrow> u8 list list \<Rightarrow> proposal_buffer option" where
  "push_values pb xs = for_each (\<lambda>pb x. pb_push pb (inline_pad x)) pb xs"

definition push_where :: "(raw_id \<Rightarrow> bool option) \<Rightarrow> proposal_buffer \<Rightarrow> u8 list list \<Rightarrow> proposal_buffer option" where
  "push_where test pb xs = for_each (\<lambda>pb x. let i = id_pad x in do {
     h \<leftarrow> test i;
     if h then pb_push pb (id_into_value i) else Some pb
   }) pb xs"

definition propose_arm ::
  "hash_env \<Rightarrow> trible_set \<Rightarrow> raw_id option \<Rightarrow> raw_id option \<Rightarrow> raw_inline option \<Rightarrow> bool \<Rightarrow> bool \<Rightarrow> bool \<Rightarrow> proposal_buffer \<Rightarrow> proposal_buffer option" where
  "propose_arm H s e_bound a_bound v_bound e_var a_var v_var pb =
     (let eav = patch_infixes (order_env H eav_order) (ts_eav s); eva = patch_infixes (order_env H eva_order) (ts_eva s);
          aev = patch_infixes (order_env H aev_order) (ts_aev s); ave = patch_infixes (order_env H ave_order) (ts_ave s);
          vea = patch_infixes (order_env H vea_order) (ts_vea s); vae = patch_infixes (order_env H vae_order) (ts_vae s);
          has_eav = patch_has_prefix (order_env H eav_order) (ts_eav s); has_eva = patch_has_prefix (order_env H eva_order) (ts_eva s);
          has_ave = patch_has_prefix (order_env H ave_order) (ts_ave s) in
      case (e_bound, a_bound, v_bound, e_var, a_var, v_var) of
        (None, None, None, True, False, False) \<Rightarrow> eav [] 16 \<bind> push_ids pb
      | (None, None, None, False, True, False) \<Rightarrow> aev [] 16 \<bind> push_ids pb
      | (None, None, None, False, False, True) \<Rightarrow> vea [] 32 \<bind> push_values pb
      | (Some e, None, None, False, True, False) \<Rightarrow> eav (id_bytes e) 16 \<bind> push_ids pb
      | (Some e, None, None, False, False, True) \<Rightarrow> eva (id_bytes e) 32 \<bind> push_values pb
      | (None, Some a, None, True, False, False) \<Rightarrow> aev (id_bytes a) 16 \<bind> push_ids pb
      | (None, Some a, None, False, False, True) \<Rightarrow> ave (id_bytes a) 32 \<bind> push_values pb
      | (None, None, Some v, True, False, False) \<Rightarrow> vea (inline_bytes v) 16 \<bind> push_ids pb
      | (None, None, Some v, False, True, False) \<Rightarrow> vae (inline_bytes v) 16 \<bind> push_ids pb
      | (None, Some a, Some v, True, False, False) \<Rightarrow> ave (id_bytes a @ inline_bytes v) 16 \<bind> push_ids pb
      | (Some e, None, Some v, False, True, False) \<Rightarrow> eva (id_bytes e @ inline_bytes v) 16 \<bind> push_ids pb
      | (Some e, Some a, None, False, False, True) \<Rightarrow> eav (id_bytes e @ id_bytes a) 32 \<bind> push_values pb
      | (_, Some a, _, True, False, True) \<Rightarrow>
          aev (id_bytes a) 16 \<bind> push_where (\<lambda>e. has_eav (id_bytes e @ id_bytes a @ inline_bytes (id_into_value e))) pb
      | (_, None, _, True, False, True) \<Rightarrow>
          eav [] 16 \<bind> push_where (\<lambda>e. has_eva (id_bytes e @ inline_bytes (id_into_value e))) pb
      | (_, _, Some v, True, True, False) \<Rightarrow>
          vae (inline_bytes v) 16 \<bind> push_where (\<lambda>a. has_eav (id_bytes a @ id_bytes a @ inline_bytes v)) pb
      | (_, _, None, True, True, False) \<Rightarrow>
          aev [] 16 \<bind> push_where (\<lambda>a. has_eav (id_bytes a @ id_bytes a)) pb
      | (Some e, _, _, False, True, True) \<Rightarrow>
          eav (id_bytes e) 16 \<bind> push_where (\<lambda>a. has_eav (id_bytes e @ id_bytes a @ inline_bytes (id_into_value a))) pb
      | (None, _, _, False, True, True) \<Rightarrow>
          aev [] 16 \<bind> push_where (\<lambda>a. has_ave (id_bytes a @ inline_bytes (id_into_value a))) pb
      | (_, _, _, True, True, True) \<Rightarrow>
          eav [] 16 \<bind> push_where (\<lambda>e. has_eav (id_bytes e @ id_bytes e @ inline_bytes (id_into_value e))) pb
      | _ \<Rightarrow> None)"

definition propose_row :: "hash_env \<Rightarrow> trible_constraint \<Rightarrow> nat \<Rightarrow> binding \<Rightarrow> proposal_buffer \<Rightarrow> proposal_buffer option" where
  "propose_row H c v b pb =
     (let e_var = rt_is_var (tc_e c) v; a_var = rt_is_var (tc_a c) v; v_var = rt_is_var (tc_v c) v in
      if \<not> e_var \<and> \<not> a_var \<and> \<not> v_var then Some pb
      else do {
        e \<leftarrow> bound_id (tc_e c) b;
        case e of None \<Rightarrow> Some pb | Some e_bound \<Rightarrow> do {
          a \<leftarrow> bound_id (tc_a c) b;
          case a of None \<Rightarrow> Some pb | Some a_bound \<Rightarrow> do {
            v_bound \<leftarrow> rt_position_value (tc_v c) b;
            propose_arm H (tc_set c) e_bound a_bound v_bound e_var a_var v_var pb
          }
        }
      })"

subsection \<open>Probe groups\<close>

definition write_probe_key :: "trible_constraint \<Rightarrow> binding \<Rightarrow> u8 list \<Rightarrow> u8 list option" where
  "write_probe_key c b out = for_each (\<lambda>out term. do {
     r \<leftarrow> rt_position_value term b;
     Some (case r of Some v \<Rightarrow> out @ inline_bytes v | None \<Rightarrow> out)
   }) out [tc_e c, tc_a c, tc_v c]"

text \<open>
  The rows are ordered by key and, within a key, by number, so the unstable sort has one result. The keys of
  the rows lie one after the other; the slice of a row is in range because the stride is their length
  divided by the number of rows.
\<close>

definition label_rows :: "(u32 \<Rightarrow> u8 list) \<Rightarrow> u32 list \<Rightarrow> nat \<Rightarrow> u32 list option" where
  "label_rows key order rows = do {
     (group, _) \<leftarrow> for_each (\<lambda>(group, label :: u32) i. do {
       x \<leftarrow> idx order i;
       y \<leftarrow> idx order (i - 1);
       let label = (if key x \<noteq> key y then label + 1 else label);
       group \<leftarrow> idx_update group (unat x) label;
       Some (group, label)
     }) (replicate rows 0, 0) [1..<rows];
     Some group
   }"

definition probe_groups :: "trible_constraint \<Rightarrow> frontier \<Rightarrow> (u32 list \<times> u32 list) option" where
  "probe_groups c f = (let rows = fr_len f; order = map word_of_nat [0..<unat (word_of_nat rows :: u32)] in
     if rows < sorted_probe_min then Some (order, order)
     else do {
       keys \<leftarrow> for_each (\<lambda>keys row. do { b \<leftarrow> fr_row f row; write_probe_key c b keys }) [] [0..<rows];
       let stride = length keys div rows;
       let key = (\<lambda>row :: u32. take stride (drop (unat row * stride) keys));
       let order = (if stride \<noteq> 0 then sort_key (\<lambda>r. (key r, r)) order else order);
       group \<leftarrow> label_rows key order rows;
       Some (group, order)
     })"

text \<open>The inner loop that extends a run while the labels agree.\<close>

function run_until :: "(nat \<Rightarrow> u32 option) \<Rightarrow> u32 \<Rightarrow> nat \<Rightarrow> nat \<Rightarrow> nat option" where
  "run_until label_at label e n =
     (if e < n then do { l \<leftarrow> label_at e; if l = label then run_until label_at label (e + 1) n else Some e } else Some e)"
  by pat_completeness auto
termination
  by (relation "measure (\<lambda>(_, _, e, n). n - e)") auto

declare run_until.simps [simp del]

lemma run_until_ge: "run_until label_at label e n = Some e' \<Longrightarrow> e \<le> e' \<and> (e \<le> n \<longrightarrow> e' \<le> n)"
proof (induction label_at label e n rule: run_until.induct)
  case (1 label_at label e n)
  note eq = "1.prems" [unfolded run_until.simps [of label_at label e n]]
  show ?case
  proof (cases "e < n \<and> label_at e = Some label")
    case True
    then have "run_until label_at label (e + 1) n = Some e'" using eq by simp
    then show ?thesis using "1.IH" [of label] True by simp
  next
    case False
    then show ?thesis using eq by (cases "label_at e") (auto split: if_splits)
  qed
qed

function propose_runs ::
  "hash_env \<Rightarrow> trible_constraint \<Rightarrow> nat \<Rightarrow> frontier \<Rightarrow> u32 list \<Rightarrow> u32 list \<Rightarrow> proposal_buffer \<Rightarrow> nat \<Rightarrow> proposal_buffer option" where
  "propose_runs H c v f groups ordr pb run_start =
     (let rows = fr_len f in
      if run_start < rows then do {
        lead \<leftarrow> idx ordr run_start;
        label \<leftarrow> idx groups (unat lead);
        run_end \<leftarrow> run_until (\<lambda>i. do { r \<leftarrow> idx ordr i; idx groups (unat r) }) label (run_start + 1) rows;
        let base = pb_len pb;
        b \<leftarrow> fr_row f (unat lead);
        pb \<leftarrow> propose_row H c v b (pb_open lead pb);
        pb \<leftarrow> (if run_end - run_start > 1 then
                 let shared = drop base (pb_entries pb) in
                 for_each (\<lambda>pb row. pb_extend_from_slice (pb_open row pb) shared) pb (take (run_end - (run_start + 1)) (drop (run_start + 1) ordr))
               else Some pb);
        propose_runs H c v f groups ordr pb run_end
      } else Some pb)"
  by pat_completeness auto
termination
  by (relation "measure (\<lambda>(_, _, _, f, _, _, _, run_start). fr_len f - run_start)") (auto dest: run_until_ge)

declare propose_runs.simps [simp del]

definition tc_propose :: "hash_env \<Rightarrow> trible_constraint \<Rightarrow> nat \<Rightarrow> frontier \<Rightarrow> proposal_buffer \<Rightarrow> proposal_buffer option" where
  "tc_propose H c v f pb =
     (if fr_len f = 0 \<or> \<not> touches c v then Some pb
      else do { (group, order) \<leftarrow> probe_groups c f; propose_runs H c v f group order pb 0 })"

subsection \<open>Confirmation\<close>

text \<open>The verdict on a value is kept for the next entry with the same value.\<close>

definition retain_range :: "candidates \<Rightarrow> nat \<Rightarrow> nat \<Rightarrow> (raw_inline \<Rightarrow> bool option) \<Rightarrow> candidates option" where
  "retain_range cands lo hi keep = do {
     (cands, _) \<leftarrow> for_each (\<lambda>(cands, memo) i. do {
       live \<leftarrow> cd_is_live cands i;
       if \<not> live then Some (cands, memo)
       else do {
         x \<leftarrow> idx (cd_values cands) i;
         (verdict, memo) \<leftarrow> (case memo of
             Some (seen, verdict) \<Rightarrow> if seen = x then Some (verdict, memo) else do { k \<leftarrow> keep x; Some (k, Some (x, k)) }
           | None \<Rightarrow> do { k \<leftarrow> keep x; Some (k, Some (x, k)) });
         if \<not> verdict then do { cands \<leftarrow> cd_kill cands i; Some (cands, memo) } else Some (cands, memo)
       }
     }) (cands, None) [lo..<hi];
     Some cands
   }"

definition kill_range :: "candidates \<Rightarrow> nat \<Rightarrow> nat \<Rightarrow> candidates option" where
  "kill_range cands lo hi = for_each cd_kill cands [lo..<hi]"

definition keep_id :: "(raw_id \<Rightarrow> bool option) \<Rightarrow> raw_inline \<Rightarrow> bool option" where
  "keep_id test x = (case id_from_value x of None \<Rightarrow> Some False | Some i \<Rightarrow> test i)"

definition confirm_arm ::
  "hash_env \<Rightarrow> trible_set \<Rightarrow> raw_id option \<Rightarrow> raw_id option \<Rightarrow> raw_inline option \<Rightarrow> bool \<Rightarrow> bool \<Rightarrow> bool \<Rightarrow> (raw_inline \<Rightarrow> bool option) option" where
  "confirm_arm H s e_bound a_bound v_bound e_var a_var v_var =
     (let eav = patch_has_prefix (order_env H eav_order) (ts_eav s); eva = patch_has_prefix (order_env H eva_order) (ts_eva s);
          aev = patch_has_prefix (order_env H aev_order) (ts_aev s); ave = patch_has_prefix (order_env H ave_order) (ts_ave s);
          vea = patch_has_prefix (order_env H vea_order) (ts_vea s); vae = patch_has_prefix (order_env H vae_order) (ts_vae s) in
      case (e_bound, a_bound, v_bound, e_var, a_var, v_var) of
        (None, None, None, True, False, False) \<Rightarrow> Some (keep_id (\<lambda>i. eav (id_bytes i)))
      | (None, None, None, False, True, False) \<Rightarrow> Some (keep_id (\<lambda>i. aev (id_bytes i)))
      | (None, None, None, False, False, True) \<Rightarrow> Some (\<lambda>x. vea (inline_bytes x))
      | (Some e, None, None, False, True, False) \<Rightarrow> Some (keep_id (\<lambda>i. eav (id_bytes e @ id_bytes i)))
      | (Some e, None, None, False, False, True) \<Rightarrow> Some (\<lambda>x. eva (id_bytes e @ inline_bytes x))
      | (None, Some a, None, True, False, False) \<Rightarrow> Some (keep_id (\<lambda>i. aev (id_bytes a @ id_bytes i)))
      | (None, Some a, None, False, False, True) \<Rightarrow> Some (\<lambda>x. ave (id_bytes a @ inline_bytes x))
      | (None, None, Some v, True, False, False) \<Rightarrow> Some (keep_id (\<lambda>i. vea (inline_bytes v @ id_bytes i)))
      | (None, None, Some v, False, True, False) \<Rightarrow> Some (keep_id (\<lambda>i. vae (inline_bytes v @ id_bytes i)))
      | (None, Some a, Some v, True, False, False) \<Rightarrow> Some (keep_id (\<lambda>i. ave (id_bytes a @ inline_bytes v @ id_bytes i)))
      | (Some e, None, Some v, False, True, False) \<Rightarrow> Some (keep_id (\<lambda>i. eva (id_bytes e @ inline_bytes v @ id_bytes i)))
      | (Some e, Some a, None, False, False, True) \<Rightarrow> Some (\<lambda>x. eav (id_bytes e @ id_bytes a @ inline_bytes x))
      | (_, Some a, _, True, False, True) \<Rightarrow> Some (keep_id (\<lambda>i. eav (id_bytes i @ id_bytes a @ inline_bytes (id_into_value i))))
      | (_, None, _, True, False, True) \<Rightarrow> Some (keep_id (\<lambda>i. eva (id_bytes i @ inline_bytes (id_into_value i))))
      | (_, _, Some v, True, True, False) \<Rightarrow> Some (keep_id (\<lambda>i. eav (id_bytes i @ id_bytes i @ inline_bytes v)))
      | (_, _, None, True, True, False) \<Rightarrow> Some (keep_id (\<lambda>i. eav (id_bytes i @ id_bytes i)))
      | (Some e, _, _, False, True, True) \<Rightarrow> Some (keep_id (\<lambda>i. eav (id_bytes e @ id_bytes i @ inline_bytes (id_into_value i))))
      | (None, _, _, False, True, True) \<Rightarrow> Some (keep_id (\<lambda>i. ave (id_bytes i @ inline_bytes (id_into_value i))))
      | (_, _, _, True, True, True) \<Rightarrow> Some (keep_id (\<lambda>i. eav (id_bytes i @ id_bytes i @ inline_bytes (id_into_value i))))
      | _ \<Rightarrow> None)"

definition confirm_at ::
  "hash_env \<Rightarrow> trible_constraint \<Rightarrow> nat \<Rightarrow> binding \<Rightarrow> candidates \<Rightarrow> nat \<Rightarrow> nat \<Rightarrow> candidates option" where
  "confirm_at H c v b cands lo hi =
     (let e_var = rt_is_var (tc_e c) v; a_var = rt_is_var (tc_a c) v; v_var = rt_is_var (tc_v c) v in
      if \<not> e_var \<and> \<not> a_var \<and> \<not> v_var then Some cands
      else do {
        e \<leftarrow> bound_id (tc_e c) b;
        case e of None \<Rightarrow> kill_range cands lo hi | Some e_bound \<Rightarrow> do {
          a \<leftarrow> bound_id (tc_a c) b;
          case a of None \<Rightarrow> kill_range cands lo hi | Some a_bound \<Rightarrow> do {
            v_bound \<leftarrow> rt_position_value (tc_v c) b;
            keep \<leftarrow> confirm_arm H (tc_set c) e_bound a_bound v_bound e_var a_var v_var;
            retain_range cands lo hi keep
          }
        }
      })"

function confirm_grouped ::
  "hash_env \<Rightarrow> trible_constraint \<Rightarrow> nat \<Rightarrow> frontier \<Rightarrow> u32 list \<Rightarrow> nat \<Rightarrow> candidates \<Rightarrow> nat \<Rightarrow> candidates option" where
  "confirm_grouped H c v f groups entries cands run_start =
     (if run_start < entries then do {
        lead \<leftarrow> cd_parent cands run_start;
        label \<leftarrow> idx groups (unat lead);
        run_end \<leftarrow> run_until (\<lambda>i. do { r \<leftarrow> cd_parent cands i; idx groups (unat r) }) label (run_start + 1) entries;
        b \<leftarrow> fr_row f (unat lead);
        cands \<leftarrow> confirm_at H c v b cands run_start run_end;
        confirm_grouped H c v f groups entries cands run_end
      } else Some cands)"
  by pat_completeness auto
termination
  by (relation "measure (\<lambda>(_, _, _, _, _, entries, _, run_start). entries - run_start)") (auto dest: run_until_ge)

declare confirm_grouped.simps [simp del]

definition tc_confirm :: "hash_env \<Rightarrow> trible_constraint \<Rightarrow> nat \<Rightarrow> frontier \<Rightarrow> candidates \<Rightarrow> candidates option" where
  "tc_confirm H c v f cands =
     (if cd_len cands = 0 \<or> fr_is_empty f \<or> \<not> touches c v then Some cands
      else do { (group, _) \<leftarrow> probe_groups c f; confirm_grouped H c v f group (cd_len cands) cands 0 })"

subsection \<open>The methods\<close>

definition tc_satisfied :: "hash_env \<Rightarrow> trible_constraint \<Rightarrow> binding \<Rightarrow> bool option" where
  "tc_satisfied H c b = do {
     e \<leftarrow> rt_position_value (tc_e c) b;
     a \<leftarrow> rt_position_value (tc_a c) b;
     v \<leftarrow> rt_position_value (tc_v c) b;
     case (e, a, v) of
       (Some e_raw, Some a_raw, Some v_raw) \<Rightarrow> (case id_from_value e_raw of None \<Rightarrow> Some False | Some e \<Rightarrow>
         (case id_from_value a_raw of None \<Rightarrow> Some False | Some a \<Rightarrow>
           patch_has_prefix (order_env H eav_order) (ts_eav (tc_set c)) (id_bytes e @ id_bytes a @ inline_bytes v_raw)))
     | _ \<Rightarrow> Some True
   }"

definition tc_variables :: "trible_constraint \<Rightarrow> variable_set" where
  "tc_variables c = rt_add_to (tc_v c) (rt_add_to (tc_a c) (rt_add_to (tc_e c) vs_new_empty))"

definition trible_set_constraint :: "hash_env \<Rightarrow> trible_constraint \<Rightarrow> constraint" where
  "trible_set_constraint H c =
     \<lparr>c_variables = tc_variables c, c_estimate = tc_estimate H c, c_propose = tc_propose H c, c_confirm = tc_confirm H c,
      c_satisfied = tc_satisfied H c, c_influence = default_influence (tc_variables c)\<rparr>"

end
