(* ===== verification/Pattern_Arms.thy ===== *)
theory Pattern_Arms
  imports Trible_Pattern
begin

text \<open>
  What an arm of the dispatch of \<open>TribleSetConstraint\<close> answers, for the nineteen combinations of positions
  that have a value, are asked for, or are free: the tribles of the store that match decide. The three
  dispatches (estimating, proposing, confirming) are reduced to the laws of the covering indexes.
\<close>

declare inline_bytes_id_into_value [simp del]

section \<open>What an arm is asked\<close>

text \<open>A trible that has the given values, and one that has \<open>x\<close> at the positions of a variable.\<close>

definition matches :: "raw_id option \<Rightarrow> raw_id option \<Rightarrow> raw_inline option \<Rightarrow> trible \<Rightarrow> bool" where
  "matches e a v t \<longleftrightarrow> (\<forall>x. e = Some x \<longrightarrow> tr_e t = x) \<and> (\<forall>x. a = Some x \<longrightarrow> tr_a t = x) \<and> (\<forall>x. v = Some x \<longrightarrow> tr_v t = x)"

definition takes :: "bool \<Rightarrow> bool \<Rightarrow> bool \<Rightarrow> raw_inline \<Rightarrow> trible \<Rightarrow> bool" where
  "takes e a v x t \<longleftrightarrow> (e \<longrightarrow> id_into_value (tr_e t) = x) \<and> (a \<longrightarrow> id_into_value (tr_a t) = x) \<and> (v \<longrightarrow> tr_v t = x)"

lemma matches_simps [simp]:
  "matches None a v t \<longleftrightarrow> (\<forall>x. a = Some x \<longrightarrow> tr_a t = x) \<and> (\<forall>x. v = Some x \<longrightarrow> tr_v t = x)"
  "matches (Some e) a v t \<longleftrightarrow> tr_e t = e \<and> (\<forall>x. a = Some x \<longrightarrow> tr_a t = x) \<and> (\<forall>x. v = Some x \<longrightarrow> tr_v t = x)"
  by (auto simp: matches_def)

lemma into_value_inject [simp]: "id_into_value i = id_into_value j \<longleftrightarrow> i = j"
  using raw_id_codec.to_inline_inj by auto

lemma id_from_into [simp]: "id_from_value (id_into_value i) = Some i"
  by (rule raw_id_codec.decode_encode)

lemma id_from_value_cases: "id_from_value x = None \<and> (\<forall>i. x \<noteq> id_into_value i) \<or> (\<exists>i. id_from_value x = Some i \<and> x = id_into_value i)"
proof (cases "id_from_value x")
  case (Some i)
  then show ?thesis using raw_id_codec.encode_decode by auto
qed auto

text \<open>A variable can only be asked for where its positions have no value, and has at least one.\<close>

definition asked :: "raw_id option \<Rightarrow> raw_id option \<Rightarrow> raw_inline option \<Rightarrow> bool \<Rightarrow> bool \<Rightarrow> bool \<Rightarrow> bool" where
  "asked e a v ef af vf \<longleftrightarrow> (ef \<longrightarrow> e = None) \<and> (af \<longrightarrow> a = None) \<and> (vf \<longrightarrow> v = None) \<and> (ef \<or> af \<or> vf)"

lemma askedE:
  assumes "asked e a v ef af vf"
  obtains "e = None" "ef" "\<not> af" "\<not> vf" | "a = None" "\<not> ef" "af" "\<not> vf" | "v = None" "\<not> ef" "\<not> af" "vf"
    | "e = None" "v = None" "ef" "\<not> af" "vf" | "e = None" "a = None" "ef" "af" "\<not> vf" | "a = None" "v = None" "\<not> ef" "af" "vf"
    | "e = None" "a = None" "v = None" "ef" "af" "vf"
  using assms unfolding asked_def by blast

section \<open>Confirming and estimating\<close>

lemma keep_id_spec:
  assumes "\<And>i. test i = Some (P (id_into_value i))" "\<And>x. P x \<Longrightarrow> \<exists>i. x = id_into_value i"
  shows "keep_id test x = Some (P x)"
  using id_from_value_cases [of x] assms(1) assms(2) [of x] by (auto simp: keep_id_def)

lemma keep_id_spec_all:
  "(\<forall>x. keep_id test x = Some (P x)) \<longleftrightarrow> (\<forall>i. test i = Some (P (id_into_value i))) \<and> (\<forall>x. (\<forall>i. x \<noteq> id_into_value i) \<longrightarrow> \<not> P x)"
proof
  assume "(\<forall>i. test i = Some (P (id_into_value i))) \<and> (\<forall>x. (\<forall>i. x \<noteq> id_into_value i) \<longrightarrow> \<not> P x)"
  then show "\<forall>x. keep_id test x = Some (P x)" using keep_id_spec [of test P] by blast
next
  assume k: "\<forall>x. keep_id test x = Some (P x)"
  have "test i = Some (P (id_into_value i))" for i using k [rule_format, of "id_into_value i"] by (simp add: keep_id_def)
  moreover have "\<not> P x" if "\<forall>i. x \<noteq> id_into_value i" for x using k [rule_format, of x] id_from_value_cases [of x] that by (auto simp: keep_id_def)
  ultimately show "(\<forall>i. test i = Some (P (id_into_value i))) \<and> (\<forall>x. (\<forall>i. x \<noteq> id_into_value i) \<longrightarrow> \<not> P x)" by blast
qed

context trible_store
begin

lemmas has_prefixes =
  eav.has_first eav.has_second eav.has_third eva.has_first eva.has_second eva.has_third aev.has_first aev.has_second aev.has_third
  ave.has_first ave.has_second ave.has_third vea.has_first vea.has_second vea.has_third vae.has_first vae.has_second vae.has_third

lemmas arm_simps = takes_def has_prefixes id_bytes_inject inline_bytes_inject keep_id_spec_all
lemmas segment_lens =
  eav.segmented_len_first eav.segmented_len_second eav.segmented_len_third eva.segmented_len_first eva.segmented_len_second
  eva.segmented_len_third aev.segmented_len_first aev.segmented_len_second aev.segmented_len_third ave.segmented_len_first
  ave.segmented_len_second ave.segmented_len_third vea.segmented_len_first vea.segmented_len_second vea.segmented_len_third
  vae.segmented_len_first vae.segmented_len_second vae.segmented_len_third

lemma confirm_arm_spec:
  assumes "asked e a v ef af vf"
  shows "\<exists>keep. confirm_arm H s e a v ef af vf = Some keep
    \<and> (\<forall>x. keep x = Some (\<exists>t \<in> ts_contents s. matches e a v t \<and> takes ef af vf x t))"
  using assms
proof (cases rule: askedE)
  case 1
  then show ?thesis by (cases a; cases v; simp add: confirm_arm_def arm_simps; force)
next
  case 2
  then show ?thesis by (cases e; cases v; simp add: confirm_arm_def arm_simps; force)
next
  case 3
  then show ?thesis by (cases e; cases a) (simp_all add: confirm_arm_def arm_simps)
qed (cases e; cases a; cases v; simp add: confirm_arm_def arm_simps; force)+

text \<open>An estimate is the number of values of one segment, so at most the number of tribles.\<close>

lemma card_segment: "finite T \<Longrightarrow> card (q ` {t \<in> T. P t}) \<le> card T"
  by (rule order_trans [OF card_image_le card_mono]) auto

lemma estimate_arm_spec:
  assumes "asked e a v ef af vf"
  shows "\<exists>n. estimate_arm H s e a v ef af vf = Some n \<and> n \<le> card (ts_contents s)"
proof -
  have fin: "finite (ts_contents s)" by (rule ts_len_spec(2) [OF store_ok])
  note c = card_segment [OF fin] card_image_le [OF fin]
  note arms = estimate_arm_def segment_lens c
  show ?thesis using assms
  proof (cases rule: askedE)
    case 1
    then show ?thesis by (cases a; cases v) (simp_all add: arms)
  next
    case 2
    then show ?thesis by (cases e; cases v) (simp_all add: arms)
  next
    case 3
    then show ?thesis by (cases e; cases a) (simp_all add: arms)
  qed (cases e; cases a; cases v; simp add: arms)+
qed

end

section \<open>Proposing\<close>

text \<open>What an arm appends: the values \<open>A\<close>, each once, under the open tag.\<close>

definition appends :: "proposal_buffer \<Rightarrow> proposal_buffer option \<Rightarrow> raw_inline set \<Rightarrow> bool" where
  "appends pb r A \<longleftrightarrow> (\<exists>pb' vs. r = Some pb' \<and> pb_wf pb' \<and> pb_rows pb' = pb_rows pb @ map (\<lambda>x. (pb_parent pb, x, True)) vs
     \<and> pb_parent pb' = pb_parent pb \<and> distinct vs \<and> set vs = A)"

lemma appends_cong: "appends pb r A \<Longrightarrow> A = B \<Longrightarrow> appends pb r B"
  by simp

lemma push_all:
  assumes "pb_wf pb" "distinct xs" "inj_on g (set xs)"
  shows "appends pb (for_each (\<lambda>pb x. pb_push pb (g x)) pb xs) (g ` set xs)"
  using buffer_sink.append_all [OF assms(1), of "map g xs"] assms(2,3) unfolding appends_def for_each_map by (fastforce simp: distinct_map)

lemma push_where_eq:
  assumes "\<And>i. i \<in> id_pad ` set xs \<Longrightarrow> test i = Some (P i)"
  shows "push_where test pb xs = push_ids pb (filter (\<lambda>x. P (id_pad x)) xs)"
  using assms unfolding push_where_def push_ids_def Let_def
proof (induction xs arbitrary: pb)
  case (Cons x xs)
  then show ?case by (cases "pb_push pb (id_into_value (id_pad x))") (simp_all add: Cons.prems [of "id_pad x"])
qed simp

text \<open>The three ways to append a segment of an index.\<close>

lemma appends_ids:
  assumes "pb_wf pb" "\<exists>xs. r = Some xs \<and> distinct xs \<and> set xs = (\<lambda>t. id_bytes (q t)) ` S"
  shows "appends pb (r \<bind> push_ids pb) ((\<lambda>t. id_into_value (q t)) ` S)"
proof -
  obtain xs where xs: "r = Some xs" "distinct xs" "set xs = (\<lambda>t. id_bytes (q t)) ` S" using assms(2) by blast
  have "inj_on (\<lambda>x. id_into_value (id_pad x)) (set xs)" unfolding xs(3) by (auto simp: inj_on_def)
  from push_all [OF assms(1) xs(2) this] show ?thesis by (simp add: xs push_ids_def image_image)
qed

lemma appends_values:
  assumes "pb_wf pb" "\<exists>xs. r = Some xs \<and> distinct xs \<and> set xs = (\<lambda>t. inline_bytes (q t)) ` S"
  shows "appends pb (r \<bind> push_values pb) (q ` S)"
proof -
  obtain xs where xs: "r = Some xs" "distinct xs" "set xs = (\<lambda>t. inline_bytes (q t)) ` S" using assms(2) by blast
  have "inj_on inline_pad (set xs)" unfolding xs(3) by (auto simp: inj_on_def)
  from push_all [OF assms(1) xs(2) this] show ?thesis by (simp add: xs push_values_def image_image)
qed

lemma appends_where:
  assumes "pb_wf pb" "\<exists>xs. r = Some xs \<and> distinct xs \<and> set xs = (\<lambda>t. id_bytes (q t)) ` S" "\<And>i. test i = Some (P i)"
  shows "appends pb (r \<bind> push_where test pb) ((\<lambda>t. id_into_value (q t)) ` {t \<in> S. P (q t)})"
proof -
  obtain xs where xs: "r = Some xs" "distinct xs" "set xs = (\<lambda>t. id_bytes (q t)) ` S" using assms(2) by blast
  have "set (filter (\<lambda>x. P (id_pad x)) xs) = (\<lambda>t. id_bytes (q t)) ` {t \<in> S. P (q t)}" unfolding set_filter xs(3) by auto
  then have "\<exists>ys. Some (filter (\<lambda>x. P (id_pad x)) xs) = Some ys \<and> distinct ys \<and> set ys = (\<lambda>t. id_bytes (q t)) ` {t \<in> S. P (q t)}" using xs(2) by simp
  from appends_ids [OF assms(1) this] show ?thesis unfolding xs(1) by (simp add: push_where_eq [OF assms(3)])
qed


context trible_store
begin

lemma propose_arm_spec:
  assumes "asked e a v ef af vf" "pb_wf pb"
  shows "appends pb (propose_arm H s e a v ef af vf pb) {x. \<exists>t \<in> ts_contents s. matches e a v t \<and> takes ef af vf x t}"
proof -
  note ids = appends_cong [OF appends_ids [OF assms(2)]]
  note vals = appends_cong [OF appends_values [OF assms(2)]]
  note wher = appends_cong [OF appends_where [OF assms(2)]]
  note eqs = propose_arm_def
  note sets = takes_def id_bytes_inject inline_bytes_inject
  show ?thesis using assms(1)
  proof (cases rule: askedE)
    case 1
    show ?thesis
    proof (cases a; cases v)
      assume "a = None" "v = None"
      with 1 show ?thesis by (simp add: eqs) (rule ids [OF eav.infixes_first], auto simp: sets)
    next
      fix v' assume "a = None" "v = Some v'"
      with 1 show ?thesis by (simp add: eqs) (rule ids [OF vea.infixes_second], auto simp: sets)
    next
      fix a' assume "a = Some a'" "v = None"
      with 1 show ?thesis by (simp add: eqs) (rule ids [OF aev.infixes_second], auto simp: sets)
    next
      fix a' v' assume "a = Some a'" "v = Some v'"
      with 1 show ?thesis by (simp add: eqs) (rule ids [OF ave.infixes_third], auto simp: sets)
    qed
  next
    case 2
    show ?thesis
    proof (cases e; cases v)
      assume "e = None" "v = None"
      with 2 show ?thesis by (simp add: eqs) (rule ids [OF aev.infixes_first], auto simp: sets)
    next
      fix v' assume "e = None" "v = Some v'"
      with 2 show ?thesis by (simp add: eqs) (rule ids [OF vae.infixes_second], auto simp: sets)
    next
      fix e' assume "e = Some e'" "v = None"
      with 2 show ?thesis by (simp add: eqs) (rule ids [OF eav.infixes_second], auto simp: sets)
    next
      fix e' v' assume "e = Some e'" "v = Some v'"
      with 2 show ?thesis by (simp add: eqs) (rule ids [OF eva.infixes_third], auto simp: sets)
    qed
  next
    case 3
    show ?thesis
    proof (cases e; cases a)
      assume "e = None" "a = None"
      with 3 show ?thesis by (simp add: eqs) (rule vals [OF vea.infixes_first], auto simp: sets)
    next
      fix a' assume "e = None" "a = Some a'"
      with 3 show ?thesis by (simp add: eqs) (rule vals [OF ave.infixes_second], auto simp: sets)
    next
      fix e' assume "e = Some e'" "a = None"
      with 3 show ?thesis by (simp add: eqs) (rule vals [OF eva.infixes_second], auto simp: sets)
    next
      fix e' a' assume "e = Some e'" "a = Some a'"
      with 3 show ?thesis by (simp add: eqs) (rule vals [OF eav.infixes_third], auto simp: sets)
    qed
  next
    case 4
    show ?thesis
    proof (cases a)
      case None
      with 4 show ?thesis
        by (simp add: eqs) (rule wher [OF eav.infixes_first eva.has_second], auto simp: sets intro!: rev_image_eqI)
    next
      case (Some a')
      with 4 show ?thesis
        by (simp add: eqs) (rule wher [OF aev.infixes_second eav.has_third], auto simp: sets intro!: rev_image_eqI)
    qed
  next
    case 5
    show ?thesis
    proof (cases v)
      case None
      with 5 show ?thesis by (simp add: eqs) (rule wher [OF aev.infixes_first eav.has_second], auto simp: sets intro!: rev_image_eqI)
    next
      case (Some v')
      with 5 show ?thesis by (simp add: eqs) (rule wher [OF vae.infixes_second eav.has_third], auto simp: sets intro!: rev_image_eqI)
    qed
  next
    case 6
    show ?thesis
    proof (cases e)
      case None
      with 6 show ?thesis by (simp add: eqs) (rule wher [OF aev.infixes_first ave.has_second], auto simp: sets intro!: rev_image_eqI)
    next
      case (Some e')
      with 6 show ?thesis by (simp add: eqs) (rule wher [OF eav.infixes_second eav.has_third], auto simp: sets intro!: rev_image_eqI)
    qed
  next
    case 7
    then show ?thesis by (simp add: eqs) (rule wher [OF eav.infixes_first eav.has_third], auto simp: sets intro!: rev_image_eqI)
  qed
qed

end

end
