(* ===== verification/Pattern_Rows.thy ===== *)
theory Pattern_Rows
  imports Pattern_Arms
begin

text \<open>
  One row of a batch: what \<open>TribleSetConstraint\<close> estimates, proposes and confirms for it, in terms of the
  tribles of the store that fit the row's assignment extended by a value of the variable.
\<close>

section \<open>Tribles that fit an assignment\<close>

definition pos_val :: "raw_term \<Rightarrow> assignment \<Rightarrow> raw_inline option" where
  "pos_val term \<sigma> = (case term of Var v \<Rightarrow> \<sigma> v | Const x \<Rightarrow> Some x)"

definition fits :: "trible_constraint \<Rightarrow> assignment \<Rightarrow> trible \<Rightarrow> bool" where
  "fits c \<sigma> t \<longleftrightarrow> (\<forall>x. pos_val (tc_e c) \<sigma> = Some x \<longrightarrow> id_into_value (tr_e t) = x)
     \<and> (\<forall>x. pos_val (tc_a c) \<sigma> = Some x \<longrightarrow> id_into_value (tr_a t) = x) \<and> (\<forall>x. pos_val (tc_v c) \<sigma> = Some x \<longrightarrow> tr_v t = x)"

definition fitting :: "trible_constraint \<Rightarrow> assignment \<Rightarrow> bool" where
  "fitting c \<sigma> \<longleftrightarrow> (\<exists>t \<in> ts_contents (tc_set c). fits c \<sigma> t)"

definition term_wf :: "raw_term \<Rightarrow> bool" where
  "term_wf term \<longleftrightarrow> (\<forall>v. term = Var v \<longrightarrow> v < 128)"

definition tc_wf :: "trible_constraint \<Rightarrow> bool" where
  "tc_wf c \<longleftrightarrow> term_wf (tc_e c) \<and> term_wf (tc_a c) \<and> term_wf (tc_v c)"

lemma pos_val_eq: "term_wf term \<Longrightarrow> bd_wf b \<Longrightarrow> rt_position_value term b = Some (pos_val term (bd_map b))"
  using rt_position_value_eq [of b "term"] by (simp add: term_wf_def pos_val_def)

lemma pos_val_upd: "\<sigma> v = None \<Longrightarrow> pos_val term (\<sigma>(v \<mapsto> x)) = (if rt_is_var term v then Some x else pos_val term \<sigma>)"
  by (cases "term") (auto simp: pos_val_def rt_is_var_def)

lemma pos_val_var: "rt_is_var term v \<Longrightarrow> pos_val term \<sigma> = \<sigma> v"
  by (cases "term") (auto simp: pos_val_def rt_is_var_def)

lemma bound_id_eq:
  "term_wf term \<Longrightarrow> bd_wf b \<Longrightarrow> bound_id term b = Some (case pos_val term (bd_map b) of None \<Rightarrow> Some None
     | Some x \<Rightarrow> (case id_from_value x of None \<Rightarrow> None | Some i \<Rightarrow> Some (Some i)))"
  by (simp add: bound_id_def pos_val_eq)

lemma bound_id_cases:
  assumes "term_wf term" "bd_wf b"
  obtains "bound_id term b = Some None" "\<exists>x. pos_val term (bd_map b) = Some x \<and> (\<forall>i. id_into_value i \<noteq> x)"
  | i where "bound_id term b = Some (Some i)" "pos_val term (bd_map b) = map_option id_into_value i"
proof (cases "pos_val term (bd_map b)")
  case None
  then show thesis using that(2) [of None] bound_id_eq [OF assms] by simp
next
  case (Some x)
  then show thesis using that id_from_value_cases [of x] bound_id_eq [OF assms] by fastforce
qed

lemma vs_elems_tc_variables: "tc_wf c \<Longrightarrow> vs_elems (tc_variables c) = {v. touches c v}"
  by (auto simp: tc_variables_def rt_add_to_def touches_def rt_is_var_def tc_wf_def term_wf_def split: raw_term.splits)

lemma touches_bound: "tc_wf c \<Longrightarrow> touches c v \<Longrightarrow> v < 128"
  by (auto simp: touches_def rt_is_var_def tc_wf_def term_wf_def split: raw_term.splits)

text \<open>What the methods read of a row: a position that holds no identifier, or the arguments of an arm.\<close>

lemma row_cases:
  assumes wf: "tc_wf c" "bd_wf b" and v: "touches c v" "bd_map b v = None"
  obtains (malformed) "bound_id (tc_e c) b = Some None \<or> (\<exists>e. bound_id (tc_e c) b = Some (Some e) \<and> bound_id (tc_a c) b = Some None)"
      "\<And>x t. \<not> fits c ((bd_map b)(v \<mapsto> x)) t"
  | (asked) e a u where "bound_id (tc_e c) b = Some (Some e)" "bound_id (tc_a c) b = Some (Some a)" "rt_position_value (tc_v c) b = Some u"
      "asked e a u (rt_is_var (tc_e c) v) (rt_is_var (tc_a c) v) (rt_is_var (tc_v c) v)"
      "\<And>x t. fits c ((bd_map b)(v \<mapsto> x)) t
         \<longleftrightarrow> matches e a u t \<and> takes (rt_is_var (tc_e c) v) (rt_is_var (tc_a c) v) (rt_is_var (tc_v c) v) x t"
proof -
  have tw: "term_wf (tc_e c)" "term_wf (tc_a c)" "term_wf (tc_v c)" using wf(1) by (simp_all add: tc_wf_def)
  note upd = pos_val_upd [of "bd_map b" v, OF v(2)]
  have var: "\<not> rt_is_var term v" if "pos_val term (bd_map b) = Some x" for "term" x using pos_val_var [of "term" v] that v(2) by auto
  show thesis
  proof (cases rule: bound_id_cases [OF tw(1) wf(2)])
    case 1
    then show thesis using malformed var by (fastforce simp: fits_def upd)
  next
    case e: (2 e)
    show thesis
    proof (cases rule: bound_id_cases [OF tw(2) wf(2)])
      case 1
      then show thesis using malformed e(1) var by (fastforce simp: fits_def upd)
    next
      case a: (2 a)
      let ?u = "pos_val (tc_v c) (bd_map b)"
      have "asked e a ?u (rt_is_var (tc_e c) v) (rt_is_var (tc_a c) v) (rt_is_var (tc_v c) v)"
        using e(2) a(2) v pos_val_var [of _ v "bd_map b"] unfolding asked_def touches_def by auto
      moreover have "fits c ((bd_map b)(v \<mapsto> x)) t
          \<longleftrightarrow> matches e a ?u t \<and> takes (rt_is_var (tc_e c) v) (rt_is_var (tc_a c) v) (rt_is_var (tc_v c) v) x t" for x t
        unfolding fits_def matches_def takes_def upd using e(2) a(2) v(2) pos_val_var [of _ v "bd_map b"]
        by (auto split: if_splits)
      ultimately show thesis using asked e(1) a(1) pos_val_eq [OF tw(3) wf(2)] by blast
    qed
  qed
qed

section \<open>The three answers\<close>

lemma appends_nothing: "pb_wf pb \<Longrightarrow> appends pb (Some pb) {}"
  by (simp add: appends_def)

context trible_store
begin

lemma tc_estimate_spec:
  assumes "tc_wf c" "bd_wf b" "touches c v" "bd_map b v = None" "tc_set c = s"
  shows "\<exists>n. tc_estimate H c v b = Some (Some n) \<and> n \<le> card (ts_contents s)"
  using assms(1-4)
proof (cases rule: row_cases)
  case malformed
  then show ?thesis using assms(3) by (auto simp: tc_estimate_def touches_def)
next
  case (asked e a u)
  then show ?thesis using assms(3,5) estimate_arm_spec [OF asked(4)] by (auto simp: tc_estimate_def touches_def)
qed

lemma propose_row_spec:
  assumes "tc_wf c" "bd_wf b" "touches c v" "bd_map b v = None" "tc_set c = s" "pb_wf pb"
  shows "appends pb (propose_row H c v b pb) {x. fitting c ((bd_map b)(v \<mapsto> x))}"
  using assms(1-4)
proof (cases rule: row_cases)
  case malformed
  then have "propose_row H c v b pb = Some pb" using assms(3) by (auto simp: propose_row_def touches_def)
  then show ?thesis using malformed(2) appends_nothing [OF assms(6)] by (simp add: fitting_def)
next
  case (asked e a u)
  then have "propose_row H c v b pb = propose_arm H s e a u (rt_is_var (tc_e c) v) (rt_is_var (tc_a c) v) (rt_is_var (tc_v c) v) pb"
    using assms(3,5) by (simp add: propose_row_def touches_def Let_def) blast
  then show ?thesis using propose_arm_spec [OF asked(4) assms(6)] by (simp add: fitting_def asked(5) assms(5))
qed

end

subsection \<open>Ranges of candidates\<close>

lemma keeps_range_step:
  assumes "cd_keeps (\<lambda>i. lo \<le> i \<longrightarrow> i < k \<longrightarrow> K i) c c1" "cd_keeps (\<lambda>i. i = k \<longrightarrow> K i) c1 c2" "lo \<le> k"
  shows "cd_keeps (\<lambda>i. lo \<le> i \<longrightarrow> i < Suc k \<longrightarrow> K i) c c2"
  using cd_keeps_trans [OF assms(1,2)] by (rule cd_keeps_cong [THEN iffD1, rotated]) (use assms(3) in \<open>auto simp: less_Suc_eq\<close>)

lemma keeps_same: "cd_alive c k \<longrightarrow> K k \<Longrightarrow> cd_keeps (\<lambda>i. i = k \<longrightarrow> K i) c c"
  by (rule cd_keeps_cong [THEN iffD1, OF _ cd_keeps_all]) auto

lemma kill_one:
  assumes "cd_wf c" "k < cd_len c" "\<not> K k"
  shows "\<exists>c'. cd_kill c k = Some c' \<and> cd_keeps (\<lambda>i. i = k \<longrightarrow> K i) c c'"
proof -
  have "cd_keeps (\<lambda>i. i \<noteq> k) c c' = cd_keeps (\<lambda>i. i = k \<longrightarrow> K i) c c'" for c' by (rule cd_keeps_cong) (use assms(3) in auto)
  then show ?thesis using cd_kill_keeps [OF assms(1,2)] by simp
qed

lemma keeps_shape: "cd_keeps K c c' \<Longrightarrow> cd_values c' = cd_values c \<and> cd_len c' = cd_len c \<and> cd_parents c' = cd_parents c"
  by (simp add: cd_keeps_def cd_same_shape_def cd_len_def)

text \<open>A loop over a range that treats each candidate.\<close>

lemma range_loop:
  assumes wf: "cd_wf c" "lo \<le> hi" "hi \<le> cd_len c" and I: "I m"
    and step: "\<And>c1 m k. cd_wf c1 \<Longrightarrow> cd_values c1 = cd_values c \<Longrightarrow> k < cd_len c1 \<Longrightarrow> lo \<le> k \<Longrightarrow> k < hi \<Longrightarrow> I m \<Longrightarrow>
      \<exists>c2 m'. body (c1, m) k = Some (c2, m') \<and> cd_keeps (\<lambda>i. i = k \<longrightarrow> K i) c1 c2 \<and> I m'"
  shows "\<exists>c' m'. for_each body (c, m) [lo..<hi] = Some (c', m') \<and> cd_keeps (\<lambda>i. lo \<le> i \<longrightarrow> i < hi \<longrightarrow> K i) c c'"
proof -
  let ?J = "\<lambda>n (c', m'). cd_keeps (\<lambda>i. lo \<le> i \<longrightarrow> i < lo + n \<longrightarrow> K i) c c' \<and> I m'"
  have "\<exists>r. for_each body (c, m) [lo..<hi] = Some r \<and> ?J (length [lo..<hi]) r"
  proof (rule for_each_invariant, goal_cases)
    case 1
    have "cd_keeps (\<lambda>i. lo \<le> i \<longrightarrow> i < lo + 0 \<longrightarrow> K i) c c" by (rule cd_keeps_cong [THEN iffD1, OF _ cd_keeps_all]) auto
    then show ?case using I by simp
  next
    case (2 n r)
    obtain c1 m1 where r: "r = (c1, m1)" by force
    have c1: "cd_keeps (\<lambda>i. lo \<le> i \<longrightarrow> i < lo + n \<longrightarrow> K i) c c1" "I m1" using 2(2) unfolding r by auto
    note sh = keeps_shape [OF c1(1)]
    have n: "lo + n < hi" "[lo..<hi] ! n = lo + n" using 2(1) by simp_all
    obtain c2 m2 where c2: "body (c1, m1) (lo + n) = Some (c2, m2)" "cd_keeps (\<lambda>i. i = lo + n \<longrightarrow> K i) c1 c2" "I m2"
      using step [of c1 "lo + n" m1] cd_keeps_wf [OF c1(1) wf(1)] sh n(1) wf(3) c1(2) by auto
    have "cd_keeps (\<lambda>i. lo \<le> i \<longrightarrow> i < Suc (lo + n) \<longrightarrow> K i) c c2" by (rule keeps_range_step [OF c1(1) c2(2)]) simp
    then show ?case using c2(1,3) n(2) by (simp add: r)
  qed
  then show ?thesis using wf(2) by auto
qed

lemma kill_range_spec:
  assumes "cd_wf c" "lo \<le> hi" "hi \<le> cd_len c"
  shows "\<exists>c'. kill_range c lo hi = Some c' \<and> cd_keeps (\<lambda>i. lo \<le> i \<longrightarrow> i < hi \<longrightarrow> False) c c'"
proof -
  let ?J = "\<lambda>n c'. cd_keeps (\<lambda>i. lo \<le> i \<longrightarrow> i < lo + n \<longrightarrow> False) c c'"
  have "\<exists>c'. for_each cd_kill c [lo..<hi] = Some c' \<and> ?J (length [lo..<hi]) c'"
  proof (rule for_each_invariant, goal_cases)
    case 1
    show ?case by (rule cd_keeps_cong [THEN iffD1, OF _ cd_keeps_all]) auto
  next
    case (2 n c1)
    have n: "lo + n < hi" "[lo..<hi] ! n = lo + n" using 2(1) by simp_all
    obtain c2 where c2: "cd_kill c1 (lo + n) = Some c2" "cd_keeps (\<lambda>i. i = lo + n \<longrightarrow> False) c1 c2"
      using kill_one [OF cd_keeps_wf [OF 2(2) assms(1)], of "lo + n" "\<lambda>_. False"] keeps_shape [OF 2(2)] n(1) assms(3) by auto
    have "cd_keeps (\<lambda>i. lo \<le> i \<longrightarrow> i < Suc (lo + n) \<longrightarrow> False) c c2" by (rule keeps_range_step [OF 2(2) c2(2)]) simp
    then show ?case using c2(1) n(2) by simp
  qed
  then show ?thesis using assms(2) by (simp add: kill_range_def)
qed

lemma retain_range_spec:
  assumes "cd_wf c" "lo \<le> hi" "hi \<le> cd_len c" and keep: "\<And>x. keep x = Some (K x)"
  shows "\<exists>c'. retain_range c lo hi keep = Some c' \<and> cd_keeps (\<lambda>i. lo \<le> i \<longrightarrow> i < hi \<longrightarrow> K (cd_values c ! i)) c c'"
proof -
  let ?body = "\<lambda>(cands, memo) i. do {
       live \<leftarrow> cd_is_live cands i;
       if \<not> live then Some (cands, memo)
       else do {
         x \<leftarrow> idx (cd_values cands) i;
         (verdict, memo) \<leftarrow> (case memo of
             Some (seen, verdict) \<Rightarrow> if seen = x then Some (verdict, memo) else do { k \<leftarrow> keep x; Some (k, Some (x, k)) }
           | None \<Rightarrow> do { k \<leftarrow> keep x; Some (k, Some (x, k)) });
         if \<not> verdict then do { cands \<leftarrow> cd_kill cands i; Some (cands, memo) } else Some (cands, memo)
       }
     }"
  let ?I = "\<lambda>memo. \<forall>x k. memo = Some (x, k) \<longrightarrow> k = K x"
  have "\<exists>c' m'. for_each ?body (c, None) [lo..<hi] = Some (c', m') \<and> cd_keeps (\<lambda>i. lo \<le> i \<longrightarrow> i < hi \<longrightarrow> K (cd_values c ! i)) c c'"
  proof (rule range_loop [OF assms(1-3), where I = ?I])
    fix c1 m k
    assume c1: "cd_wf c1" "cd_values c1 = cd_values c" "k < cd_len c1" and m: "?I m"
    let ?x = "cd_values c ! k"
    have live: "cd_is_live c1 k = Some (cd_alive c1 k)" by (rule cd_is_live_eq [OF c1(1,3)])
    have x: "idx (cd_values c1) k = Some ?x" using c1(2,3) by (simp add: cd_len_def)
    have "(case m of Some (seen, verdict) \<Rightarrow> if seen = ?x then Some (verdict, m) else do { k \<leftarrow> keep ?x; Some (k, Some (?x, k)) }
           | None \<Rightarrow> do { k \<leftarrow> keep ?x; Some (k, Some (?x, k)) }) = Some (K ?x, if \<exists>k. m = Some (?x, k) then m else Some (?x, K ?x))"
      using m by (auto simp: keep split: option.splits)
    note body = this live x
    show "\<exists>c2 m'. ?body (c1, m) k = Some (c2, m') \<and> cd_keeps (\<lambda>i. i = k \<longrightarrow> K (cd_values c ! i)) c1 c2 \<and> ?I m'"
    proof (cases "cd_alive c1 k \<and> \<not> K ?x")
      case True
      then show ?thesis using kill_one [OF c1(1,3), of "\<lambda>i. K (cd_values c ! i)"] m by (auto simp: body)
    next
      case False
      then have "cd_keeps (\<lambda>i. i = k \<longrightarrow> K (cd_values c ! i)) c1 c1" by (intro keeps_same) auto
      then show ?thesis using False m by (auto simp: body)
    qed
  qed simp
  then show ?thesis unfolding retain_range_def by auto
qed

context trible_store
begin

lemma confirm_at_spec:
  assumes "tc_wf c" "bd_wf b" "touches c v" "bd_map b v = None" "tc_set c = s" and cd: "cd_wf cs" "lo \<le> hi" "hi \<le> cd_len cs"
  shows "\<exists>cs'. confirm_at H c v b cs lo hi = Some cs'
    \<and> cd_keeps (\<lambda>i. lo \<le> i \<longrightarrow> i < hi \<longrightarrow> fitting c ((bd_map b)(v \<mapsto> cd_values cs ! i))) cs cs'"
  using assms(1-4)
proof (cases rule: row_cases)
  case malformed
  then have "confirm_at H c v b cs lo hi = kill_range cs lo hi" using assms(3) by (auto simp: confirm_at_def touches_def)
  then show ?thesis using malformed(2) kill_range_spec [OF cd] by (simp add: fitting_def)
next
  case (asked e a u)
  obtain keep where keep: "confirm_arm H s e a u (rt_is_var (tc_e c) v) (rt_is_var (tc_a c) v) (rt_is_var (tc_v c) v) = Some keep"
      "\<And>x. keep x = Some (fitting c ((bd_map b)(v \<mapsto> x)))"
    using confirm_arm_spec [OF asked(4)] unfolding fitting_def asked(5) assms(5) by blast
  then have "confirm_at H c v b cs lo hi = retain_range cs lo hi keep"
    using assms(3,5) asked(1-3) by (simp add: confirm_at_def touches_def Let_def) blast
  then show ?thesis using retain_range_spec [OF cd keep(2)] by simp
qed

end

end
