(* ===== verification/Pattern_Groups.thy ===== *)
theory Pattern_Groups
  imports Pattern_Rows
begin

text \<open>
  The probe groups of a batch: rows with equal labels read equal values at the three positions, so one
  answer serves them all, and the order is a permutation of the rows. Labels do not wrap around for a batch
  of fewer than \<open>2 ^ 32\<close> rows.
\<close>

section \<open>Probe keys\<close>

definition key_of :: "trible_constraint \<Rightarrow> assignment \<Rightarrow> u8 list" where
  "key_of c \<sigma> = concat (map (\<lambda>term. case pos_val term \<sigma> of None \<Rightarrow> [] | Some x \<Rightarrow> inline_bytes x) [tc_e c, tc_a c, tc_v c])"

definition reads_alike :: "trible_constraint \<Rightarrow> assignment \<Rightarrow> assignment \<Rightarrow> bool" where
  "reads_alike c \<sigma> \<tau> \<longleftrightarrow> pos_val (tc_e c) \<sigma> = pos_val (tc_e c) \<tau> \<and> pos_val (tc_a c) \<sigma> = pos_val (tc_a c) \<tau> \<and> pos_val (tc_v c) \<sigma> = pos_val (tc_v c) \<tau>"

lemma write_probe_key_eq:
  "tc_wf c \<Longrightarrow> bd_wf b \<Longrightarrow> write_probe_key c b out = Some (out @ key_of c (bd_map b))"
  by (auto simp: write_probe_key_def key_of_def tc_wf_def pos_val_eq split: option.splits)

lemma pos_val_dom: "dom \<sigma> = dom \<tau> \<Longrightarrow> pos_val term \<sigma> = None \<longleftrightarrow> pos_val term \<tau> = None"
  by (auto simp: pos_val_def split: raw_term.splits)

lemma key_of_length: "dom \<sigma> = dom \<tau> \<Longrightarrow> length (key_of c \<sigma>) = length (key_of c \<tau>)"
  using pos_val_dom [of \<sigma> \<tau> "tc_e c"] pos_val_dom [of \<sigma> \<tau> "tc_a c"] pos_val_dom [of \<sigma> \<tau> "tc_v c"]
  by (auto simp: key_of_def split: option.splits)

lemma key_of_inject: "dom \<sigma> = dom \<tau> \<Longrightarrow> key_of c \<sigma> = key_of c \<tau> \<Longrightarrow> reads_alike c \<sigma> \<tau>"
  using pos_val_dom [of \<sigma> \<tau> "tc_e c"] pos_val_dom [of \<sigma> \<tau> "tc_a c"] pos_val_dom [of \<sigma> \<tau> "tc_v c"]
  by (auto simp: key_of_def reads_alike_def inline_bytes_inject split: option.splits)

lemma fitting_alike:
  assumes "reads_alike c \<sigma> \<tau>" "\<sigma> v = None" "\<tau> v = None"
  shows "fitting c (\<sigma>(v \<mapsto> x)) = fitting c (\<tau>(v \<mapsto> x))"
  using assms by (simp add: fitting_def fits_def pos_val_upd reads_alike_def)

text \<open>The keys of equal length lie one after the other.\<close>

lemma slice_of_concat:
  "(\<And>xs. xs \<in> set xss \<Longrightarrow> length xs = n) \<Longrightarrow> i < length xss \<Longrightarrow> take n (drop (i * n) (concat xss)) = xss ! i"
proof (induction xss arbitrary: i)
  case (Cons xs xss)
  then show ?case by (cases i) auto
qed simp

lemma length_concat_same: "(\<And>xs. xs \<in> set xss \<Longrightarrow> length xs = n) \<Longrightarrow> length (concat xss) = length xss * n"
  by (induction xss) auto

section \<open>Labels\<close>

fun lab :: "(nat \<Rightarrow> bool) \<Rightarrow> nat \<Rightarrow> nat" where
  "lab change 0 = 0"
| "lab change (Suc n) = (if change (Suc n) then lab change n + 1 else lab change n)"

lemma lab_le: "lab change n \<le> n"
  by (induction n) auto

lemma lab_mono: "m \<le> n \<Longrightarrow> lab change m \<le> lab change n"
  by (induction n) (auto simp: le_Suc_eq)

lemma lab_same: "lab change m = lab change n \<Longrightarrow> m < k \<Longrightarrow> k \<le> n \<Longrightarrow> \<not> change k"
proof
  assume eq: "lab change m = lab change n" and k: "m < k" "k \<le> n" and ch: "change k"
  obtain k' where k': "k = Suc k'" using k by (cases k) auto
  have "lab change m \<le> lab change k'" "lab change (Suc k') \<le> lab change n" using k k' by (auto intro!: lab_mono simp del: lab.simps)
  then show False using eq ch k' by simp
qed

lemma unchanged_equal:
  fixes g :: "nat \<Rightarrow> 'a"
  assumes "\<And>k. m < k \<Longrightarrow> k \<le> n \<Longrightarrow> g k = g (k - 1)" "m \<le> n"
  shows "g m = g n"
  using assms(2,1)
proof (induction n rule: dec_induct)
  case (step n)
  then show ?case using step.prems [of "Suc n"] by auto
qed simp

lemma same_label_same_key:
  fixes g :: "nat \<Rightarrow> 'a"
  assumes "lab (\<lambda>k. g k \<noteq> g (k - 1)) m = lab (\<lambda>k. g k \<noteq> g (k - 1)) n"
  shows "g m = g n"
proof (cases "m \<le> n")
  case True
  show ?thesis by (rule unchanged_equal [OF _ True]) (use lab_same [OF assms] in blast)
next
  case False
  then have "n \<le> m" by simp
  then have "g n = g m" by (rule unchanged_equal [rotated]) (use lab_same [OF assms [symmetric]] in blast)
  then show ?thesis by simp
qed

text \<open>The loop that writes the labels.\<close>

lemma label_rows_spec:
  fixes key :: "u32 \<Rightarrow> u8 list" and ord :: "u32 list"
  assumes n: "length ord = n" "0 < n" and ord: "distinct ord" "\<And>r. r \<in> set ord \<Longrightarrow> unat r < n"
  defines "change \<equiv> \<lambda>k. key (ord ! k) \<noteq> key (ord ! (k - 1))"
  shows "\<exists>group. label_rows key ord n = Some group \<and> length group = n
     \<and> (\<forall>j < n. group ! unat (ord ! j) = word_of_nat (lab change j))"
proof -
  let ?J = "\<lambda>m (group, label). length group = n \<and> label = word_of_nat (lab change m)
    \<and> (\<forall>j \<le> m. group ! unat (ord ! j) = word_of_nat (lab change j)) \<and> (\<forall>j < n. m < j \<longrightarrow> group ! unat (ord ! j) = 0)"
  let ?body = "\<lambda>(group, label :: u32) i. do {
       x \<leftarrow> idx ord i;
       y \<leftarrow> idx ord (i - 1);
       let label = (if key x \<noteq> key y then label + 1 else label);
       group \<leftarrow> idx_update group (unat x) label;
       Some (group, label)
     }"
  have at: "unat (ord ! j) < n" if "j < n" for j using ord(2) n(1) that by simp
  have inj: "unat (ord ! j) \<noteq> unat (ord ! k)" if "j < n" "k < n" "j \<noteq> k" for j k
    using that ord(1) n(1) by (simp add: nth_eq_iff_index_eq word_unat_eq_iff [symmetric])
  have "\<exists>r. for_each ?body (replicate n 0, 0) [1..<n] = Some r \<and> ?J (length [1..<n]) r"
  proof (rule for_each_invariant, goal_cases)
    case 1
    then show ?case using at n by auto
  next
    case (2 m r)
    obtain group label where r: "r = (group, label)" by force
    have m: "Suc m < n" "[1..<n] ! m = Suc m" using 2(1) by simp_all
    let ?l = "word_of_nat (lab change (Suc m)) :: u32"
    let ?g = "group[unat (ord ! Suc m) := ?l]"
    have body: "?body r ([1..<n] ! m) = Some (?g, ?l)"
      using 2(2) m at [of "Suc m"] n(1) by (simp add: r change_def Let_def add.commute)
    have other: "?g ! unat (ord ! j) = group ! unat (ord ! j)" if "j < n" "j \<noteq> Suc m" for j
      using inj [of "Suc m" j] that m(1) by (simp add: nth_list_update_neq)
    have "?J (Suc m) (?g, ?l)"
      using 2(2) m at [of "Suc m"] other unfolding r by (auto simp: le_Suc_eq simp del: lab.simps)
    then show ?case unfolding body by blast
  qed
  then obtain group lb where "for_each ?body (replicate n 0, 0) [1..<n] = Some (group, lb)" "?J (n - 1) (group, lb)" by auto
  then show ?thesis using n(2) unfolding label_rows_def by auto
qed

section \<open>The groups of a batch\<close>

lemma row_numbers:
  assumes "n < 2 ^ 32"
  defines "rs \<equiv> map word_of_nat [0..<unat (word_of_nat n :: u32)] :: u32 list"
  shows "length rs = n" "distinct rs" "unat ` set rs = {..<n}" "\<And>i. i < n \<Longrightarrow> unat (rs ! i) = i"
proof -
  have u: "unat (word_of_nat k :: u32) = k" if "k \<le> n" for k using that assms by (intro unat_u32_of_nat) simp
  have rs: "rs = map word_of_nat [0..<n]" unfolding rs_def u [OF order_refl] ..
  have "inj_on (word_of_nat :: nat \<Rightarrow> u32) {0..<n}" by (rule inj_on_inverseI [where g = unat]) (simp add: u)
  then show "length rs = n" "distinct rs" by (simp_all add: rs distinct_map)
  show "unat ` set rs = {..<n}" by (auto simp: rs image_image u)
  show "unat (rs ! i) = i" if "i < n" for i using that by (simp add: rs u)
qed

lemma keys_of_rows:
  assumes "tc_wf c" "fr_wf f"
  shows "for_each (\<lambda>keys row. do { b \<leftarrow> fr_row f row; write_probe_key c b keys }) [] [0..<fr_len f]
    = Some (concat (map (\<lambda>row. key_of c (fr_assign f row)) [0..<fr_len f]))"
proof -
  let ?K = "\<lambda>n. concat (map (\<lambda>row. key_of c (fr_assign f row)) [0..<n])"
  have "\<exists>ks. for_each (\<lambda>keys row. do { b \<leftarrow> fr_row f row; write_probe_key c b keys }) [] [0..<fr_len f] = Some ks
      \<and> ks = ?K (length [0..<fr_len f])"
  proof (rule for_each_invariant, goal_cases)
    case (2 k ks)
    then have "k < fr_len f" by simp
    then obtain b where "fr_row f k = Some b" "bd_wf b" "bd_map b = fr_assign f k" using fr_rowE [OF assms(2)] by metis
    then show ?case using 2 by (simp add: write_probe_key_eq [OF assms(1)])
  qed simp
  then show ?thesis by simp
qed

lemma fr_assign_dom: "fr_wf f \<Longrightarrow> i < fr_len f \<Longrightarrow> dom (fr_assign f i) = vs_elems (fr_bound f)"
  by (erule (1) fr_rowE)

lemma probe_groups_spec:
  assumes "tc_wf c" "fr_wf f" "fr_len f < 2 ^ 32"
  shows "\<exists>group ord. probe_groups c f = Some (group, ord) \<and> length group = fr_len f \<and> length ord = fr_len f \<and> distinct ord
    \<and> unat ` set ord = {..<fr_len f}
    \<and> (\<forall>i < fr_len f. \<forall>j < fr_len f. group ! i = group ! j \<longrightarrow> reads_alike c (fr_assign f i) (fr_assign f j))"
proof (cases "fr_len f < sorted_probe_min")
  case True
  note rn = row_numbers [OF assms(3)]
  have "i = j" if "i < fr_len f" "j < fr_len f" for i j using True that by (simp add: sorted_probe_min_def)
  then show ?thesis using True rn(1-3) by (auto simp: probe_groups_def Let_def reads_alike_def)
next
  case False
  define n where "n = fr_len f"
  note rn = row_numbers [OF assms(3), folded n_def]
  define rs where "rs = (map word_of_nat [0..<unat (word_of_nat n :: u32)] :: u32 list)"
  define keys where "keys = concat (map (\<lambda>row. key_of c (fr_assign f row)) [0..<n])"
  have n: "0 < n" "n < 2 ^ 32" using False assms(3) by (simp_all add: sorted_probe_min_def n_def)
  define stride where "stride = length keys div n"
  define key where "key = (\<lambda>row :: u32. take stride (drop (unat row * stride) keys))"
  define ord where "ord = (if stride \<noteq> 0 then sort_key (\<lambda>r. (key r, r)) rs else rs)"
  have dom: "dom (fr_assign f i) = dom (fr_assign f j)" if "i < n" "j < n" for i j
    using fr_assign_dom [OF assms(2)] that unfolding n_def by simp
  have len: "length xs = length (key_of c (fr_assign f 0))" if "xs \<in> set (map (\<lambda>row. key_of c (fr_assign f row)) [0..<n])" for xs
  proof -
    obtain row where "row < n" "xs = key_of c (fr_assign f row)" using \<open>xs \<in> _\<close> by auto
    then show ?thesis using key_of_length [OF dom [OF _ n(1)]] by blast
  qed
  have "length keys = n * length (key_of c (fr_assign f 0))"
    using length_concat_same [of "map (\<lambda>row. key_of c (fr_assign f row)) [0..<n]", OF len] by (simp only: keys_def length_map length_upt diff_zero)
  then have stride: "stride = length (key_of c (fr_assign f 0))" using n(1) by (simp add: stride_def)
  have key: "key r = key_of c (fr_assign f (unat r))" if "unat r < n" for r
    using slice_of_concat [of "map (\<lambda>row. key_of c (fr_assign f row)) [0..<n]", OF len, of "unat r"] that by (simp add: key_def keys_def stride)
  have ord: "length ord = n" "distinct ord" "set ord = set rs" using rn by (auto simp: ord_def rs_def)
  have rows: "unat ` set ord = {..<n}" using rn(3) ord(3) by (simp add: rs_def)
  then have rows': "unat r < n" if "r \<in> set ord" for r using that by blast
  obtain group where g: "label_rows key ord n = Some group" "length group = n"
     "\<forall>j < n. group ! unat (ord ! j) = word_of_nat (lab (\<lambda>k. key (ord ! k) \<noteq> key (ord ! (k - 1))) j)"
    using label_rows_spec [OF ord(1) n(1) ord(2) rows', of key] by blast
  have "probe_groups c f = Some (group, ord)"
    using False keys_of_rows [OF assms(1,2)] g(1)
    unfolding probe_groups_def Let_def n_def [symmetric] keys_def [symmetric] rs_def [symmetric]
    by (simp add: stride_def [symmetric] key_def [symmetric]) (cases "stride = 0"; simp add: ord_def key_def)
  moreover have "reads_alike c (fr_assign f i) (fr_assign f j)" if ij: "i < n" "j < n" "group ! i = group ! j" for i j
  proof -
    have at: "\<exists>p < n. unat (ord ! p) = i" if "i < n" for i
    proof -
      have "i \<in> unat ` set ord" using that rows by simp
      then show ?thesis using ord(1) by (auto simp: in_set_conv_nth)
    qed
    obtain p where p: "p < n" "unat (ord ! p) = i" using at [OF ij(1)] by auto
    obtain q where q: "q < n" "unat (ord ! q) = j" using at [OF ij(2)] by auto
    note pq = p(1) q(1) p(2) q(2)
    let ?L = "lab (\<lambda>k. key (ord ! k) \<noteq> key (ord ! (k - 1)))"
    have "(word_of_nat (?L p) :: u32) = word_of_nat (?L q)" using g(3) [rule_format, OF pq(1)] g(3) [rule_format, OF pq(2)] ij(3) unfolding pq(3,4) by simp
    moreover have "?L p < 2 ^ 32" "?L q < 2 ^ 32" using lab_le pq(1,2) n(2) by (meson le_less_trans less_trans)+
    ultimately have "?L p = ?L q" using unat_u32_of_nat [of "?L p"] unat_u32_of_nat [of "?L q"] by simp
    from same_label_same_key [of "\<lambda>k. key (ord ! k)", OF this]
    have "key_of c (fr_assign f i) = key_of c (fr_assign f j)" using key [of "ord ! p"] key [of "ord ! q"] pq ij(1,2) by simp
    then show ?thesis by (rule key_of_inject [OF dom [OF ij(1,2)]])
  qed
  ultimately show ?thesis using g(2) ord rows unfolding n_def by auto
qed

end
