(* ===== verification/Pattern_Laws.thy ===== *)
theory Pattern_Laws
  imports Pattern_Groups
begin

text \<open>
  \<open>TribleSetConstraint\<close> keeps the contract of the trait: a batch is answered row by row although rows are
  visited in the order of their probe keys and groups of rows share one index walk.
\<close>

section \<open>Runs of rows\<close>

lemma run_until_spec:
  assumes "\<And>i. i < n \<Longrightarrow> label_at i = Some (g i)" "e \<le> n"
  shows "\<exists>e'. run_until label_at label e n = Some e' \<and> e \<le> e' \<and> e' \<le> n \<and> (\<forall>i. e \<le> i \<longrightarrow> i < e' \<longrightarrow> g i = label)"
  using assms(2)
proof (induction "n - e" arbitrary: e)
  case 0
  then show ?case by (subst run_until.simps) auto
next
  case (Suc k)
  then have e: "e < n" by simp
  show ?case
  proof (cases "g e = label")
    case True
    obtain e' where e': "run_until label_at label (e + 1) n = Some e'" "e + 1 \<le> e'" "e' \<le> n" "\<forall>i. e + 1 \<le> i \<longrightarrow> i < e' \<longrightarrow> g i = label"
    proof -
      have "k = n - (e + 1)" "e + 1 \<le> n" using Suc.hyps(2) e by simp_all
      from Suc.hyps(1) [OF this] show thesis using that by blast
    qed
    have "run_until label_at label e n = Some e'" by (subst run_until.simps) (use e True e'(1) assms(1) in simp)
    moreover have "\<forall>i. e \<le> i \<longrightarrow> i < e' \<longrightarrow> g i = label" using e'(4) True by (metis Suc_eq_plus1 Suc_leI le_neq_implies_less)
    ultimately show ?thesis using e'(2,3) by auto
  next
    case False
    have "run_until label_at label e n = Some e" by (subst run_until.simps) (use e False assms(1) in simp)
    then show ?thesis using e by auto
  qed
qed

definition tagged :: "u32 list \<Rightarrow> raw_inline list list \<Rightarrow> candidate_row list" where
  "tagged rs vss = concat (map2 (\<lambda>r vs. map (\<lambda>x. (r, x, True)) vs) rs vss)"

lemma tagged_simps [simp]: "tagged [] vss = []" "tagged (r # rs) (vs # vss) = map (\<lambda>x. (r, x, True)) vs @ tagged rs vss"
  by (simp_all add: tagged_def)

lemma tagged_append: "length rs = length vss \<Longrightarrow> tagged (rs @ rs') (vss @ vss') = tagged rs vss @ tagged rs' vss'"
  by (simp add: tagged_def)

lemma set_tagged: "length rs = length vss \<Longrightarrow> (p, x, l) \<in> set (tagged rs vss) \<longleftrightarrow> l \<and> (\<exists>i < length rs. rs ! i = p \<and> x \<in> set (vss ! i))"
proof (induction rs vss rule: list_induct2)
  case (Cons r rs vs vss)
  then show ?case by (auto simp: less_Suc_eq_0_disj)
qed simp

lemma length_tagged: "length rs = length vss \<Longrightarrow> (\<And>vs. vs \<in> set vss \<Longrightarrow> length vs \<le> K) \<Longrightarrow> length (tagged rs vss) \<le> K * length rs"
proof (induction rs vss rule: list_induct2)
  case (Cons r rs vs vss)
  have "length vs \<le> K" "length (tagged rs vss) \<le> K * length rs" using Cons by auto
  then show ?case by simp
qed simp

lemma tagged_live: "length rs = length vss \<Longrightarrow> filter row_live (tagged rs vss) = tagged rs vss"
  by (rule filter_True) (auto simp: set_tagged)

lemma distinct_tagged:
  "length rs = length vss \<Longrightarrow> distinct rs \<Longrightarrow> (\<And>vs. vs \<in> set vss \<Longrightarrow> distinct vs) \<Longrightarrow>
     distinct (map (\<lambda>r. (row_tag r, row_value r)) (tagged rs vss))"
proof (induction rs vss rule: list_induct2)
  case (Cons r rs vs vss)
  have "(r, x) \<notin> (\<lambda>r. (row_tag r, row_value r)) ` set (tagged rs vss)" for x
  proof
    assume "(r, x) \<in> (\<lambda>r. (row_tag r, row_value r)) ` set (tagged rs vss)"
    then obtain p y l where "(p, y, l) \<in> set (tagged rs vss)" "p = r" by auto
    then have "r \<in> set rs" using set_tagged [OF Cons.hyps, of p y l] by auto
    then show False using Cons.prems(1) by simp
  qed
  moreover have "distinct (map (\<lambda>x. (r, x)) vs)" using Cons.prems(2) [of vs] by (simp add: distinct_map inj_on_def)
  moreover have "distinct (map (\<lambda>r. (row_tag r, row_value r)) (tagged rs vss))" using Cons.prems Cons.IH by simp
  ultimately show ?case by (auto simp: comp_def)
qed simp

text \<open>The copies of one answer under the other tags of a run.\<close>

lemma pb_parent_open [simp]: "pb_parent (pb_open r pb) = r"
  by (simp add: pb_open_def)

lemma fan_out:
  "pb_wf pb \<Longrightarrow> \<exists>pb'. for_each (\<lambda>pb row. pb_extend_from_slice (pb_open row pb) shared) pb rs = Some pb' \<and> pb_wf pb'
     \<and> pb_rows pb' = pb_rows pb @ tagged rs (replicate (length rs) shared)"
proof (induction rs arbitrary: pb)
  case (Cons r rs)
  obtain pb1 where pb1: "pb_extend_from_slice (pb_open r pb) shared = Some pb1" "pb_wf pb1"
      "pb_rows pb1 = pb_rows pb @ map (\<lambda>x. (r, x, True)) shared"
    using pb_extend_from_slice_rows [of "pb_open r pb" shared] Cons.prems by auto
  then show ?case using Cons.IH [OF pb1(2)] by auto
qed simp

lemma entries_of_rows: "pb_wf pb \<Longrightarrow> pb_entries pb = map row_value (pb_rows pb)"
  by (rule nth_equalityI) (auto simp: pb_len_def)

text \<open>The answer to a row: the values that make its assignment fit, each once.\<close>

definition answers :: "trible_constraint \<Rightarrow> nat \<Rightarrow> frontier \<Rightarrow> u32 \<Rightarrow> raw_inline list \<Rightarrow> bool" where
  "answers c v f r vs \<longleftrightarrow> distinct vs \<and> set vs = {x. fitting c ((fr_assign f (unat r))(v \<mapsto> x))}"

lemma run_rows:
  assumes "st < en" "en \<le> length xs"
  shows "drop st xs = xs ! st # take (en - (st + 1)) (drop (st + 1) xs) @ drop en xs"
    "x \<in> set (xs ! st # take (en - (st + 1)) (drop (st + 1) xs)) \<Longrightarrow> \<exists>i \<ge> st. i < en \<and> x = xs ! i"
proof -
  have "drop st xs = xs ! st # drop (st + 1) xs" using assms Cons_nth_drop_Suc [of st xs] by simp
  also have "drop (st + 1) xs = take (en - (st + 1)) (drop (st + 1) xs) @ drop (en - (st + 1)) (drop (st + 1) xs)" by (rule append_take_drop_id [symmetric])
  also have "drop (en - (st + 1)) (drop (st + 1) xs) = drop en xs" unfolding drop_drop using assms by simp
  finally show "drop st xs = xs ! st # take (en - (st + 1)) (drop (st + 1) xs) @ drop en xs" .
  assume "x \<in> set (xs ! st # take (en - (st + 1)) (drop (st + 1) xs))"
  then consider "x = xs ! st" | k where "k < en - (st + 1)" "x = xs ! (st + 1 + k)"
    using assms by (auto simp: in_set_conv_nth)
  then show "\<exists>i \<ge> st. i < en \<and> x = xs ! i"
  proof cases
    case (2 k)
    then show ?thesis by (intro exI [of _ "st + 1 + k"]) simp
  qed (use assms(1) in auto)
qed

text \<open>One run: the answer of its first row serves every row of it.\<close>

context trible_store
begin

lemma propose_run:
  assumes c: "tc_wf c" "touches c v" "tc_set c = s" and f: "fr_wf f" "v \<notin> vs_elems (fr_bound f)"
    and lead: "unat lead < fr_len f" and pb: "pb_wf pb"
    and alike: "\<And>r. r \<in> set (lead # rest) \<Longrightarrow> unat r < fr_len f \<and> reads_alike c (fr_assign f (unat r)) (fr_assign f (unat lead))"
  shows "\<exists>pb1 pb2 vs. do { b \<leftarrow> fr_row f (unat lead); propose_row H c v b (pb_open lead pb) } = Some pb1
    \<and> drop (pb_len pb) (pb_entries pb1) = vs
    \<and> for_each (\<lambda>pb row. pb_extend_from_slice (pb_open row pb) vs) pb1 rest = Some pb2 \<and> pb_wf pb2
    \<and> pb_rows pb2 = pb_rows pb @ tagged (lead # rest) (replicate (length (lead # rest)) vs)
    \<and> (\<forall>r \<in> set (lead # rest). answers c v f r vs)"
proof -
  obtain b where b: "fr_row f (unat lead) = Some b" "bd_wf b" "bd_map b = fr_assign f (unat lead)"
    using fr_rowE [OF f(1) lead] by metis
  have un: "fr_assign f i v = None" if "i < fr_len f" for i by (rule fr_assign_unbound [OF f(1) that f(2)])
  obtain pb1 vs where pb1: "propose_row H c v b (pb_open lead pb) = Some pb1" "pb_wf pb1"
      "pb_rows pb1 = pb_rows pb @ map (\<lambda>x. (lead, x, True)) vs" "distinct vs" "set vs = {x. fitting c ((bd_map b)(v \<mapsto> x))}"
    using propose_row_spec [OF c(1) b(2) c(2) _ c(3), of "pb_open lead pb"] un [OF lead] pb unfolding appends_def b(3) by auto
  have vs: "drop (pb_len pb) (pb_entries pb1) = vs" unfolding entries_of_rows [OF pb1(2)] pb1(3) by (simp add: comp_def)
  obtain pb2 where pb2: "for_each (\<lambda>pb row. pb_extend_from_slice (pb_open row pb) vs) pb1 rest = Some pb2" "pb_wf pb2"
      "pb_rows pb2 = pb_rows pb1 @ tagged rest (replicate (length rest) vs)"
    using fan_out [OF pb1(2), of vs rest] by blast
  have "answers c v f r vs" if "r \<in> set (lead # rest)" for r
  proof -
    note r = alike [OF that]
    have "fitting c ((fr_assign f (unat r))(v \<mapsto> x)) = fitting c ((bd_map b)(v \<mapsto> x))" for x
      unfolding b(3) by (rule fitting_alike [OF conjunct2 [OF r] un [OF conjunct1 [OF r]] un [OF lead]])
    then show ?thesis using pb1(4,5) by (simp add: answers_def)
  qed
  then show ?thesis using b(1) pb1(1,3) vs pb2 by simp
qed

lemma propose_runs_spec:
  assumes c: "tc_wf c" "touches c v" "tc_set c = s" and f: "fr_wf f" "v \<notin> vs_elems (fr_bound f)"
    and len: "length ord = fr_len f" "length groups = fr_len f" and rows: "\<And>r. r \<in> set ord \<Longrightarrow> unat r < fr_len f"
    and same: "\<And>i j. i < fr_len f \<Longrightarrow> j < fr_len f \<Longrightarrow> groups ! i = groups ! j \<Longrightarrow> reads_alike c (fr_assign f i) (fr_assign f j)"
  shows "pb_wf pb \<Longrightarrow> st \<le> fr_len f \<Longrightarrow> \<exists>pb' vss. propose_runs H c v f groups ord pb st = Some pb' \<and> pb_wf pb'
    \<and> pb_rows pb' = pb_rows pb @ tagged (drop st ord) vss \<and> list_all2 (answers c v f) (drop st ord) vss"
proof (induction "fr_len f - st" arbitrary: st pb rule: less_induct)
  case less
  let ?n = "fr_len f"
  show ?case
  proof (cases "st < ?n")
    case False
    then show ?thesis using less.prems len(1) by (subst propose_runs.simps) (simp add: Let_def)
  next
    case True
    have row: "unat (ord ! i) < ?n" if "i < ?n" for i using rows that len(1) by simp
    let ?lab = "\<lambda>i. groups ! unat (ord ! i)"
    obtain en where en: "run_until (\<lambda>i. do { r \<leftarrow> idx ord i; idx groups (unat r) }) (?lab st) (st + 1) ?n = Some en"
        "st + 1 \<le> en" "en \<le> ?n" "\<forall>i. st + 1 \<le> i \<longrightarrow> i < en \<longrightarrow> ?lab i = ?lab st"
      using run_until_spec [of ?n "\<lambda>i. do { r \<leftarrow> idx ord i; idx groups (unat r) }" ?lab "st + 1" "?lab st"] row len True by auto
    define rest where "rest = take (en - (st + 1)) (drop (st + 1) ord)"
    have st: "st < en" "en \<le> length ord" using en(2,3) len(1) by simp_all
    note run = run_rows [OF st, folded rest_def]
    have alike: "unat r < ?n \<and> reads_alike c (fr_assign f (unat r)) (fr_assign f (unat (ord ! st)))" if "r \<in> set (ord ! st # rest)" for r
    proof -
      obtain i where i: "st \<le> i" "i < en" "r = ord ! i" using run(2) [OF \<open>r \<in> _\<close>] by blast
      then have "?lab i = ?lab st" using en(4) by (cases "i = st") auto
      then show ?thesis using same row i en(3) True by simp
    qed
    obtain pb1 pb2 vs where 1: "do { b \<leftarrow> fr_row f (unat (ord ! st)); propose_row H c v b (pb_open (ord ! st) pb) } = Some pb1"
        "drop (pb_len pb) (pb_entries pb1) = vs" "for_each (\<lambda>pb row. pb_extend_from_slice (pb_open row pb) vs) pb1 rest = Some pb2" "pb_wf pb2"
        "pb_rows pb2 = pb_rows pb @ tagged (ord ! st # rest) (replicate (length (ord ! st # rest)) vs)"
        "\<forall>r \<in> set (ord ! st # rest). answers c v f r vs"
      using propose_run [OF c f row [OF True] less.prems(1) alike] by blast
    obtain pb3 vss where 3: "propose_runs H c v f groups ord pb2 en = Some pb3" "pb_wf pb3"
        "pb_rows pb3 = pb_rows pb2 @ tagged (drop en ord) vss" "list_all2 (answers c v f) (drop en ord) vss"
      using less.hyps [OF _ 1(4) en(3)] diff_less_mono2 [OF st(1) True] by blast
    have "rest = []" if "\<not> en - st > 1" using that by (simp add: rest_def)
    then have "propose_runs H c v f groups ord pb st = propose_runs H c v f groups ord pb2 en"
      using 1(1-3) en(1) row [OF True] True len by (subst propose_runs.simps) (auto simp: Let_def rest_def split: Option.bind_splits)
    moreover have "drop st ord = (ord ! st # rest) @ drop en ord" using run(1) by simp
    moreover have "list_all2 (answers c v f) (ord ! st # rest) (replicate (length (ord ! st # rest)) vs)"
      using 1(6) by (simp add: list_all2_conv_all_nth nth_Cons split: nat.splits)
    ultimately show ?thesis using 3 1(5)
      by (intro exI [of _ pb3] exI [of _ "replicate (length (ord ! st # rest)) vs @ vss"]) (simp only: tagged_append length_replicate list_all2_appendI append_assoc simp_thms)
  qed
qed


text \<open>The confirmations of the runs, each for the row of its first entry.\<close>

lemma confirm_grouped_spec:
  assumes c: "tc_wf c" "touches c v" "tc_set c = s" and f: "fr_wf f" "v \<notin> vs_elems (fr_bound f)"
    and len: "length groups = fr_len f"
    and same: "\<And>i j. i < fr_len f \<Longrightarrow> j < fr_len f \<Longrightarrow> groups ! i = groups ! j \<Longrightarrow> reads_alike c (fr_assign f i) (fr_assign f j)"
  shows "cd_wf cs \<Longrightarrow> (\<And>p. p \<in> set (cd_parents cs) \<Longrightarrow> unat p < fr_len f) \<Longrightarrow> st \<le> cd_len cs \<Longrightarrow>
    \<exists>cs'. confirm_grouped H c v f groups (cd_len cs) cs st = Some cs'
      \<and> cd_keeps (\<lambda>i. st \<le> i \<longrightarrow> fitting c ((fr_assign f (unat (cd_parents cs ! i)))(v \<mapsto> cd_values cs ! i))) cs cs'"
proof (induction "cd_len cs - st" arbitrary: st cs rule: less_induct)
  case less
  let ?n = "cd_len cs"
  let ?K = "\<lambda>i. fitting c ((fr_assign f (unat (cd_parents cs ! i)))(v \<mapsto> cd_values cs ! i))"
  show ?case
  proof (cases "st < ?n")
    case False
    have "cd_keeps (\<lambda>i. st \<le> i \<longrightarrow> ?K i) cs cs" by (rule cd_keeps_cong [THEN iffD1, OF _ cd_keeps_all]) (use False in auto)
    then show ?thesis using False by (subst confirm_grouped.simps) simp
  next
    case True
    have par: "length (cd_parents cs) = ?n" using less.prems(1) by (simp add: cd_wf_def cd_len_def)
    have row: "unat (cd_parents cs ! i) < fr_len f" if "i < ?n" for i using less.prems(2) that par by simp
    let ?lab = "\<lambda>i. groups ! unat (cd_parents cs ! i)"
    obtain en where en: "run_until (\<lambda>i. do { r \<leftarrow> cd_parent cs i; idx groups (unat r) }) (?lab st) (st + 1) ?n = Some en"
        "st + 1 \<le> en" "en \<le> ?n" "\<forall>i. st + 1 \<le> i \<longrightarrow> i < en \<longrightarrow> ?lab i = ?lab st"
      using run_until_spec [of ?n "\<lambda>i. do { r \<leftarrow> cd_parent cs i; idx groups (unat r) }" ?lab "st + 1" "?lab st"] row len par True
      by (auto simp: cd_parent_def)
    let ?lead = "unat (cd_parents cs ! st)"
    obtain b where b: "fr_row f ?lead = Some b" "bd_wf b" "bd_map b = fr_assign f ?lead" using fr_rowE [OF f(1) row [OF True]] by metis
    have un: "fr_assign f i v = None" if "i < fr_len f" for i by (rule fr_assign_unbound [OF f(1) that f(2)])
    have "st \<le> en" using en(2) by simp
    then obtain cs1 where cs1: "confirm_at H c v b cs st en = Some cs1"
        "cd_keeps (\<lambda>i. st \<le> i \<longrightarrow> i < en \<longrightarrow> fitting c ((fr_assign f ?lead)(v \<mapsto> cd_values cs ! i))) cs cs1"
      using confirm_at_spec [OF c(1) b(2) c(2) _ c(3) less.prems(1) _ en(3)] un [OF row [OF True]] unfolding b(3) by blast
    have lead: "fitting c ((fr_assign f ?lead)(v \<mapsto> x)) = fitting c ((fr_assign f (unat (cd_parents cs ! i)))(v \<mapsto> x))" if "st \<le> i" "i < en" for i x
    proof (rule fitting_alike [OF same un un])
      show "?lab st = ?lab i" using en(4) that by (cases "i = st") auto
    qed (use row that en(3) True in auto)
    have 1: "cd_keeps (\<lambda>i. st \<le> i \<longrightarrow> i < en \<longrightarrow> ?K i) cs cs1"
      by (rule cd_keeps_cong [THEN iffD1, OF _ cs1(2)]) (use lead in auto)
    note sh = keeps_shape [OF 1]
    obtain cs2 where cs2: "confirm_grouped H c v f groups ?n cs1 en = Some cs2" "cd_keeps (\<lambda>i. en \<le> i \<longrightarrow> ?K i) cs1 cs2"
      using less.hyps [of cs1 en] sh cd_keeps_wf [OF 1 less.prems(1)] less.prems(2) en(3) diff_less_mono2 [of st en ?n] en(2) True by auto
    have "cd_keeps (\<lambda>i. st \<le> i \<longrightarrow> ?K i) cs cs2"
      by (rule cd_keeps_cong [THEN iffD1, OF _ cd_keeps_trans [OF 1 cs2(2)]]) (use en(2) in \<open>auto simp: not_less\<close>)
    moreover have "confirm_grouped H c v f groups ?n cs st = Some cs2"
      using en(1) cs1(1) cs2(1) b(1) row [OF True] True par len by (subst confirm_grouped.simps) (simp add: cd_parent_def)
    ultimately show ?thesis by blast
  qed
qed

end

section \<open>The contract\<close>

text \<open>
  The assignments that a pattern does not reject: those that some trible fits, and those that bind no
  variable of a pattern that has one.
\<close>

definition pattern_good :: "trible_constraint \<Rightarrow> assignment \<Rightarrow> bool" where
  "pattern_good c \<sigma> \<longleftrightarrow> (\<exists>v. touches c v) \<and> (\<forall>v. touches c v \<longrightarrow> \<sigma> v = None) \<or> fitting c \<sigma>"

lemma pattern_good_touched: "touches c v \<Longrightarrow> pattern_good c (\<sigma>(v \<mapsto> x)) = fitting c (\<sigma>(v \<mapsto> x))"
  by (auto simp: pattern_good_def)

lemma pos_val_const: "\<forall>v. \<not> rt_is_var term v \<Longrightarrow> pos_val term \<sigma> \<noteq> None"
  by (cases "term") (auto simp: pos_val_def rt_is_var_def)

lemma pos_val_local: "(\<forall>v. rt_is_var term v \<longrightarrow> \<sigma> v = \<tau> v) \<Longrightarrow> pos_val term \<sigma> = pos_val term \<tau>"
  by (auto simp: pos_val_def rt_is_var_def split: raw_term.splits)

lemma pos_val_mono: "\<sigma> \<subseteq>\<^sub>m \<tau> \<Longrightarrow> pos_val term \<sigma> = Some x \<Longrightarrow> pos_val term \<tau> = Some x"
  by (cases "term") (auto simp: pos_val_def map_le_def dom_def)

lemma pattern_good_local:
  assumes "\<forall>v. touches c v \<longrightarrow> \<sigma> v = \<tau> v"
  shows "pattern_good c \<sigma> = pattern_good c \<tau>"
proof -
  have "pos_val (tc_e c) \<sigma> = pos_val (tc_e c) \<tau>" "pos_val (tc_a c) \<sigma> = pos_val (tc_a c) \<tau>" "pos_val (tc_v c) \<sigma> = pos_val (tc_v c) \<tau>"
    using assms by (auto simp: touches_def intro!: pos_val_local)
  then show ?thesis using assms by (auto simp: pattern_good_def fitting_def fits_def)
qed

lemma pattern_good_antimono: "pattern_good c \<tau> \<Longrightarrow> \<sigma> \<subseteq>\<^sub>m \<tau> \<Longrightarrow> pattern_good c \<sigma>"
proof -
  assume good: "pattern_good c \<tau>" and le: "\<sigma> \<subseteq>\<^sub>m \<tau>"
  have "fits c \<sigma> t" if "fits c \<tau> t" for t using that pos_val_mono [OF le] by (simp add: fits_def)
  moreover have "\<sigma> v = None" if "\<tau> v = None" for v using le that by (metis domIff map_le_def)
  ultimately show ?thesis using good by (auto simp: pattern_good_def fitting_def)
qed

context trible_store
begin

lemma tc_satisfied_spec:
  assumes "tc_wf c" "bd_wf b" "tc_set c = s"
  defines "full \<equiv> pos_val (tc_e c) (bd_map b) \<noteq> None \<and> pos_val (tc_a c) (bd_map b) \<noteq> None \<and> pos_val (tc_v c) (bd_map b) \<noteq> None"
  shows "tc_satisfied H c b = Some (full \<longrightarrow> fitting c (bd_map b))"
proof (cases full)
  case True
  then obtain e a u where p: "pos_val (tc_e c) (bd_map b) = Some e" "pos_val (tc_a c) (bd_map b) = Some a" "pos_val (tc_v c) (bd_map b) = Some u"
    by (auto simp: full_def)
  then have fit: "fitting c (bd_map b) \<longleftrightarrow> (\<exists>t \<in> ts_contents s. id_into_value (tr_e t) = e \<and> id_into_value (tr_a t) = a \<and> tr_v t = u)"
    by (simp add: fitting_def fits_def assms(3))
  have sat: "tc_satisfied H c b = (case id_from_value e of None \<Rightarrow> Some False | Some e \<Rightarrow> (case id_from_value a of None \<Rightarrow> Some False
      | Some a \<Rightarrow> patch_has_prefix (order_env H eav_order) (ts_eav s) (id_bytes e @ id_bytes a @ inline_bytes u)))"
    using assms(1,2) p unfolding tc_satisfied_def assms(3) by (simp add: tc_wf_def pos_val_eq)
  show ?thesis
    using id_from_value_cases [of e] id_from_value_cases [of a] True unfolding sat fit
    by (elim disjE conjE exE; simp add: arm_simps; metis)
next
  case False
  then show ?thesis using assms(1,2) by (auto simp: tc_satisfied_def tc_wf_def pos_val_eq full_def split: option.splits)
qed

lemma card_fitting:
  assumes "touches c v" "\<sigma> v = None" "tc_set c = s"
  shows "card {x. fitting c (\<sigma>(v \<mapsto> x))} \<le> card (ts_contents s)"
proof -
  have fin: "finite (ts_contents s)" by (rule ts_len_spec(2) [OF store_ok])
  let ?g = "\<lambda>t. if rt_is_var (tc_e c) v then id_into_value (tr_e t) else if rt_is_var (tc_a c) v then id_into_value (tr_a t) else tr_v t"
  have "x = ?g t" if "fits c (\<sigma>(v \<mapsto> x)) t" for x t
    using that assms(1) by (auto simp: fits_def touches_def pos_val_upd [of \<sigma> v, OF assms(2)] split: if_splits)
  then have "{x. fitting c (\<sigma>(v \<mapsto> x))} \<subseteq> ?g ` ts_contents s" using assms(3) unfolding fitting_def by blast
  then show ?thesis using card_mono [OF finite_imageI [OF fin]] card_image_le [OF fin] by (meson le_trans)
qed

lemma tc_propose_spec:
  assumes c: "tc_wf c" "tc_set c = s" and f: "fr_wf f" "fr_len f < 2 ^ 32" "v \<notin> vs_elems (fr_bound f)" and pb: "pb_wf pb"
  shows "\<exists>pb' rows. tc_propose H c v f pb = Some pb' \<and> pb_wf pb' \<and> pb_rows pb' = pb_rows pb @ rows
    \<and> propose_spec (pattern_good c) v f (\<lambda>_. touches c v) rows \<and> length rows \<le> card (ts_contents s) * fr_len f"
proof (cases "fr_len f = 0 \<or> \<not> touches c v")
  case True
  then show ?thesis using pb by (auto simp: tc_propose_def propose_spec_def)
next
  case False
  then have t: "touches c v" by simp
  obtain groups ord where g: "probe_groups c f = Some (groups, ord)" "length groups = fr_len f" "length ord = fr_len f" "distinct ord"
      "unat ` set ord = {..<fr_len f}"
      "\<forall>i < fr_len f. \<forall>j < fr_len f. groups ! i = groups ! j \<longrightarrow> reads_alike c (fr_assign f i) (fr_assign f j)"
    using probe_groups_spec [OF c(1) f(1,2)] by blast
  obtain pb' vss where pb': "propose_runs H c v f groups ord pb 0 = Some pb'" "pb_wf pb'"
      "pb_rows pb' = pb_rows pb @ tagged ord vss" "list_all2 (answers c v f) ord vss"
  proof -
    have "unat r < fr_len f" if "r \<in> set ord" for r using g(5) that by blast
    from propose_runs_spec [OF c(1) t c(2) f(1,3) g(3,2) this g(6) [rule_format] pb le0, unfolded drop0] show thesis using that by blast
  qed
  have len: "length ord = length vss" using pb'(4) by (rule list_all2_lengthD)
  have ans: "distinct (vss ! i)" "set (vss ! i) = {x. pattern_good c ((fr_assign f (unat (ord ! i)))(v \<mapsto> x))}" if "i < length ord" for i
    using list_all2_nthD [OF pb'(4) that] by (simp_all add: answers_def pattern_good_touched [OF t])
  have "propose_spec (pattern_good c) v f (\<lambda>_. touches c v) (tagged ord vss)"
    unfolding propose_spec_def tagged_live [OF len]
  proof (intro conjI allI impI ballI)
    fix r assume "r \<in> set (tagged ord vss)"
    moreover obtain p x l where r: "r = (p, x, l)" by (cases r)
    ultimately obtain i where i: "i < length ord" "ord ! i = row_tag r" "row_value r \<in> set (vss ! i)"
      using set_tagged [OF len, of p x l] by auto
    have "unat (ord ! i) \<in> {..<fr_len f}" unfolding g(5) [symmetric] using i(1) by simp
    then show "unat (row_tag r) < fr_len f" using i(2) by simp
    show "pattern_good c ((fr_assign f (unat (row_tag r)))(v \<mapsto> row_value r))" using i ans(2) [OF i(1)] by simp
  next
    fix p x assume p: "p < fr_len f" "pattern_good c ((fr_assign f p)(v \<mapsto> x))"
    then have "p \<in> unat ` set ord" by (simp add: g(5))
    then obtain i where i: "i < length ord" "unat (ord ! i) = p" by (auto simp: in_set_conv_nth)
    then have "ord ! i = word_of_nat p" by auto
    then show "(word_of_nat p, x, True) \<in> set (tagged ord vss)" using i p(2) ans(2) [OF i(1)] by (auto simp: set_tagged [OF len])
  next
    show "distinct (map (\<lambda>r. (row_tag r, row_value r)) (tagged ord vss))"
      by (rule distinct_tagged [OF len g(4)]) (use ans(1) len in \<open>auto simp: in_set_conv_nth\<close>)
  qed
  moreover have "length vs \<le> card (ts_contents s)" if "vs \<in> set vss" for vs
  proof -
    obtain i where i: "i < length ord" "vs = vss ! i" using \<open>vs \<in> _\<close> len by (auto simp: in_set_conv_nth)
    then have "distinct vs" "set vs = {x. fitting c ((fr_assign f (unat (ord ! i)))(v \<mapsto> x))}"
      using list_all2_nthD [OF pb'(4) i(1)] by (simp_all add: answers_def)
    moreover have "fr_assign f (unat (ord ! i)) v = None" using i(1) g(5) by (intro fr_assign_unbound [OF f(1) _ f(3)]) auto
    ultimately show ?thesis using card_fitting [OF t] c(2) by (metis distinct_card)
  qed
  ultimately show ?thesis using pb'(1-3) g(1,3) False length_tagged [OF len, of "card (ts_contents s)"] by (auto simp: tc_propose_def)
qed

lemma tc_confirm_spec:
  assumes c: "tc_wf c" "tc_set c = s" and f: "fr_wf f" "fr_len f < 2 ^ 32" "v \<notin> vs_elems (fr_bound f)"
    and cs: "cd_wf cs" "\<forall>p \<in> set (cd_parents cs). unat p < fr_len f"
  shows "\<exists>cs'. tc_confirm H c v f cs = Some cs'
    \<and> cd_filters (\<lambda>p x. touches c v \<longrightarrow> fitting c ((fr_assign f (unat p))(v \<mapsto> x))) cs cs'"
proof (cases "cd_len cs = 0 \<or> \<not> touches c v")
  case True
  then have "cd_filters (\<lambda>p x. touches c v \<longrightarrow> fitting c ((fr_assign f (unat p))(v \<mapsto> x))) cs cs"
    unfolding cd_filters_def by (intro cd_keeps_cong [THEN iffD1, OF _ cd_keeps_all]) auto
  then show ?thesis using True by (auto simp: tc_confirm_def)
next
  case False
  then have t: "touches c v" by simp
  have "length (cd_parents cs) = cd_len cs" using cs(1) by (simp add: cd_wf_def cd_len_def)
  then have "\<not> fr_is_empty f" using False cs(2) by (cases "cd_parents cs") (auto simp: fr_is_empty_def fr_len_def)
  obtain groups ord where g: "probe_groups c f = Some (groups, ord)" "length groups = fr_len f"
      "\<forall>i < fr_len f. \<forall>j < fr_len f. groups ! i = groups ! j \<longrightarrow> reads_alike c (fr_assign f i) (fr_assign f j)"
    using probe_groups_spec [OF c(1) f(1,2)] by blast
  obtain cs' where "confirm_grouped H c v f groups (cd_len cs) cs 0 = Some cs'"
      "cd_keeps (\<lambda>i. fitting c ((fr_assign f (unat (cd_parents cs ! i)))(v \<mapsto> cd_values cs ! i))) cs cs'"
    using confirm_grouped_spec [OF c(1) t c(2) f(1,3) g(2) _ cs(1), of 0] g(3) cs(2) by auto
  then show ?thesis using g(1) t False \<open>\<not> fr_is_empty f\<close> by (auto simp: tc_confirm_def cd_filters_def)
qed

end

lemma touched_unbound:
  "touches c v \<Longrightarrow> \<sigma> v = None \<Longrightarrow> pos_val (tc_e c) \<sigma> = None \<or> pos_val (tc_a c) \<sigma> = None \<or> pos_val (tc_v c) \<sigma> = None"
  using pos_val_var [of _ v \<sigma>] by (auto simp: touches_def)

lemma pattern_good_full:
  assumes "pattern_good c \<sigma>" "pos_val (tc_e c) \<sigma> \<noteq> None" "pos_val (tc_a c) \<sigma> \<noteq> None" "pos_val (tc_v c) \<sigma> \<noteq> None"
  shows "fitting c \<sigma>"
proof (rule ccontr)
  assume "\<not> fitting c \<sigma>"
  then obtain v where "touches c v" "\<sigma> v = None" using assms(1) by (auto simp: pattern_good_def)
  then show False using touched_unbound [of c v \<sigma>] assms(2-4) by simp
qed

lemma tc_estimate_foreign: "\<not> touches c v \<Longrightarrow> tc_estimate H c v b = Some None"
  by (auto simp: tc_estimate_def touches_def)

text \<open>What the laws need of a pattern: variables that the engine can name, and a store that is intact.\<close>

definition pattern_ok :: "hash_env \<Rightarrow> trible_constraint \<Rightarrow> bool" where
  "pattern_ok H c \<longleftrightarrow> tc_wf c \<and> ts_ok H (tc_set c)"

lemma tsc_sel [simp]:
  "c_variables (trible_set_constraint H c) = tc_variables c" "c_estimate (trible_set_constraint H c) = tc_estimate H c"
  "c_propose (trible_set_constraint H c) = tc_propose H c" "c_confirm (trible_set_constraint H c) = tc_confirm H c"
  "c_satisfied (trible_set_constraint H c) = tc_satisfied H c"
  by (simp_all add: trible_set_constraint_def)

lemma pattern_lawful:
  assumes "pattern_ok H c"
  shows "lawful (trible_set_constraint H c) (pattern_good c)"
proof -
  have wf: "tc_wf c" and store: "trible_store H (tc_set c)" using assms by (simp_all add: pattern_ok_def trible_store.intro)
  note vars = vs_elems_tc_variables [OF wf]
  note est = trible_store.tc_estimate_spec [OF store wf _ _ _ refl]
  have unb: "bd_map b v = None" if "bd_wf b" "v \<notin> vs_elems (bd_bound b)" for b v using dom_bd_map [OF that(1)] that(2) by auto
  show ?thesis
  proof (unfold_locales, unfold tsc_sel vars)
    show "pattern_good c \<sigma> = pattern_good c \<tau>" if "\<forall>v \<in> {v. touches c v}. \<sigma> v = \<tau> v" for \<sigma> \<tau>
      using that by (intro pattern_good_local) simp
    show "pattern_good c \<sigma>" if "pattern_good c \<tau>" "\<sigma> \<subseteq>\<^sub>m \<tau>" for \<sigma> \<tau> using that by (rule pattern_good_antimono)
    show "\<exists>s. tc_satisfied H c b = Some s \<and> (pattern_good c (bd_map b) \<longrightarrow> s)" if "bd_wf b" for b
      using trible_store.tc_satisfied_spec [OF store wf that refl] pattern_good_full [of c "bd_map b"] by auto
    show "pattern_good c Map.empty" if "bd_wf b" "bd_map b = Map.empty" "tc_satisfied H c b = Some True" for b
    proof (cases "\<exists>v. touches c v")
      case False
      then have "pos_val (tc_e c) Map.empty \<noteq> None" "pos_val (tc_a c) Map.empty \<noteq> None" "pos_val (tc_v c) Map.empty \<noteq> None"
        by (intro pos_val_const; simp add: touches_def)+
      then show ?thesis using trible_store.tc_satisfied_spec [OF store wf that(1) refl] that(2,3) by (simp add: pattern_good_def)
    qed (auto simp: pattern_good_def)
    show "\<exists>e. tc_estimate H c v b = Some e" if "bd_wf b" "v \<notin> vs_elems (bd_bound b)" for b v
      using est [OF that(1) _ unb [OF that]] tc_estimate_foreign by (cases "touches c v") auto
    show "tc_estimate H c v b' = Some None" if "bd_wf b" "bd_wf b'" "bd_bound b = bd_bound b'" "v \<notin> vs_elems (bd_bound b)"
        "tc_estimate H c v b = Some None" for b b' v
      using est [OF that(1) _ unb [OF that(1,4)]] that(5) tc_estimate_foreign by (cases "touches c v") auto
    show "tc_estimate H c v b = Some None" if "v \<notin> {v. touches c v}" for b v using that by (simp add: tc_estimate_foreign)
    show "pattern_good c ((bd_map b)(v \<mapsto> x))" if "bd_wf b" "tc_estimate H c v b = Some None" "v \<notin> vs_elems (bd_bound b)"
        "pattern_good c (bd_map b)" for b v x
    proof (cases "touches c v")
      case True
      then show ?thesis using est [OF that(1) _ unb [OF that(1,3)]] that(2) by auto
    next
      case False
      then show ?thesis using pattern_good_local [of c "(bd_map b)(v \<mapsto> x)" "bd_map b"] that(4) by auto
    qed
  next
    fix f :: frontier and v pb assume f: "fr_wf f" "fr_len f < 2 ^ 32" "v \<notin> vs_elems (fr_bound f)" "pb_wf pb"
    have off: "touches c v" if "offers (trible_set_constraint H c) v f p" for p
      by (rule ccontr) (use that tc_estimate_foreign [of c v H] in \<open>auto simp: offers_def\<close>)
    obtain pb' rows where "tc_propose H c v f pb = Some pb'" "pb_wf pb'" "pb_rows pb' = pb_rows pb @ rows"
        "propose_spec (pattern_good c) v f (\<lambda>_. touches c v) rows"
      using trible_store.tc_propose_spec [OF store wf refl f] by blast
    then show "\<exists>pb' rows. tc_propose H c v f pb = Some pb' \<and> pb_wf pb' \<and> pb_rows pb' = pb_rows pb @ rows
        \<and> propose_spec (pattern_good c) v f (offers (trible_set_constraint H c) v f) rows"
      using off by (auto simp: propose_spec_def)
  next
    fix f :: frontier and v cs
    assume f: "fr_wf f" "v \<notin> vs_elems (fr_bound f)" "cd_wf cs" "\<forall>p \<in> set (cd_parents cs). unat p < fr_len f" "fr_len f < 2 ^ 32"
    let ?Q = "\<lambda>p x. touches c v \<longrightarrow> fitting c ((fr_assign f (unat p))(v \<mapsto> x))"
    have "pattern_good c (\<sigma>(v \<mapsto> x)) = pattern_good c \<sigma>" if "\<not> touches c v" for \<sigma> x
      using that by (intro pattern_good_local) auto
    then have "confirm_spec (pattern_good c) v f ?Q" by (cases "touches c v") (simp_all add: confirm_spec_def pattern_good_touched)
    then show "\<exists>cs' Q. tc_confirm H c v f cs = Some cs' \<and> cd_filters Q cs cs' \<and> confirm_spec (pattern_good c) v f Q"
      using trible_store.tc_confirm_spec [OF store wf refl f(1,5,2,3,4)] by blast
  qed
qed

lemma pattern_proposing:
  assumes "pattern_ok H c" "card (ts_contents (tc_set c)) < usize_max"
  shows "proposing (trible_set_constraint H c) (pattern_good c) (card (ts_contents (tc_set c)))"
proof (intro proposing.intro pattern_lawful [OF assms(1)] proposing_axioms.intro)
  fix b v assume b: "bd_wf b" "v \<in> vs_elems (c_variables (trible_set_constraint H c))" "v \<notin> vs_elems (bd_bound b)"
  have wf: "tc_wf c" "trible_store H (tc_set c)" using assms(1) by (simp_all add: pattern_ok_def trible_store.intro)
  have "touches c v" "bd_map b v = None" using b dom_bd_map [OF b(1)] by (auto simp: vs_elems_tc_variables [OF wf(1)])
  then show "\<exists>e. c_estimate (trible_set_constraint H c) v b = Some (Some e) \<and> e \<le> card (ts_contents (tc_set c))"
    using trible_store.tc_estimate_spec [OF wf(2,1) b(1) _ _ refl] by simp
qed (rule assms(2))

end
