(* ===== verification/Pattern_Query.thy ===== *)
theory Pattern_Query
  imports Engine_Run Pattern_Laws
begin

text \<open>
  Queries over conjunctions of patterns: the engine, the intersection and the pattern constraint put
  together. What the engine needs beyond the contract is that a proposal fits the \<open>u32\<close> row numbers, so the
  first section bounds how much a pattern, and an intersection of them, proposes for a batch.
\<close>

section \<open>How much is proposed\<close>

definition proposes_at_most :: "nat \<Rightarrow> constraint \<Rightarrow> bool" where
  "proposes_at_most K c \<longleftrightarrow> (\<forall>f v b b'. fr_wf f \<longrightarrow> fr_len f < 2 ^ 32 \<longrightarrow> v < 128 \<longrightarrow> v \<notin> vs_elems (fr_bound f) \<longrightarrow> pb_wf b \<longrightarrow>
     c_propose c v f b = Some b' \<longrightarrow> pb_len b' \<le> pb_len b + K * fr_len f)"

lemma pattern_proposes_at_most:
  assumes "pattern_ok H c" "card (ts_contents (tc_set c)) \<le> K"
  shows "proposes_at_most K (trible_set_constraint H c)"
  unfolding proposes_at_most_def tsc_sel
proof (intro allI impI)
  fix f v b b' assume f: "fr_wf f" "fr_len f < 2 ^ 32" "v \<notin> vs_elems (fr_bound f)" "pb_wf b" and b': "tc_propose H c v f b = Some b'"
  have "tc_wf c" "trible_store H (tc_set c)" using assms(1) by (simp_all add: pattern_ok_def trible_store.intro)
  then obtain rows where rows: "pb_rows b' = pb_rows b @ rows" "length rows \<le> card (ts_contents (tc_set c)) * fr_len f"
    using trible_store.tc_propose_spec [OF _ _ refl f] b' by fastforce
  have "pb_len b' = pb_len b + length rows" using arg_cong [OF rows(1), of length] by simp
  then show "pb_len b' \<le> pb_len b + K * fr_len f" using order_trans [OF rows(2) mult_le_mono1 [OF assms(2)]] by simp
qed

lemma with_region_len: "pb_with_region b base g = Some b' \<Longrightarrow> pb_len b' = pb_len b"
  by (auto simp: pb_with_region_def pb_len_def split: Option.bind_splits)

lemma remap_region_len: "pb_remap_region b base m = Some b' \<Longrightarrow> pb_len b' = pb_len b"
  by (auto simp: pb_remap_region_def pb_len_def split: Option.bind_splits)

text \<open>The groups of an intersection's batch hold every row at most once.\<close>

lemma group_sizes:
  fixes choice :: "nat option list"
  shows "(\<Sum>k < n. length (filter (\<lambda>row. choice ! row = Some k) [0..<length choice])) \<le> length choice"
proof -
  let ?A = "\<lambda>k. {row \<in> {..<length choice}. choice ! row = Some k}"
  have "length (filter (\<lambda>row. choice ! row = Some k) [0..<length choice]) = card (?A k)" for k
    by (subst distinct_card [symmetric]) (auto intro!: arg_cong [where f = card])
  then have "(\<Sum>k < n. length (filter (\<lambda>row. choice ! row = Some k) [0..<length choice])) = card (\<Union>k < n. ?A k)"
    by (subst card_UN_disjoint) auto
  also have "\<dots> \<le> card {..<length choice}" by (rule card_mono) auto
  finally show ?thesis by simp
qed

context children
begin

lemma propose_by_len:
  assumes bd: "\<And>i. i < length cgs \<Longrightarrow> proposes_at_most K (fst (cgs ! i))"
    and f: "fr_wf f" "fr_len f < 2 ^ 32" "v < 128" "v \<notin> vs_elems (fr_bound f)" "pb_wf b"
    and b': "propose_by (map fst cgs) v f k confirmers b = Some b'"
  shows "pb_len b' \<le> pb_len b + K * fr_len f"
proof -
  obtain b1 where k: "k < length cgs" and b1: "c_propose (fst (cgs ! k)) v f b = Some b1"
      "pb_with_region b1 (pb_len b) (confirm_others (map fst cgs) v f k confirmers) = Some b'"
    using b' by (auto simp: propose_by_def Let_def dest!: idx_SomeD split: Option.bind_splits)
  then have "pb_len b1 \<le> pb_len b + K * fr_len f" using bd [OF k] f unfolding proposes_at_most_def by blast
  then show ?thesis using with_region_len [OF b1(2)] by simp
qed

lemma propose_group_len:
  assumes bd: "\<And>i. i < length cgs \<Longrightarrow> proposes_at_most K (fst (cgs ! i))"
    and f: "fr_wf f" "fr_len f < 2 ^ 32" "v < 128" "v \<notin> vs_elems (fr_bound f)" "pb_wf b" and len: "length choice = fr_len f"
    and b': "propose_group (map fst cgs) v f choice confirmers b k = Some b'"
  shows "pb_len b' \<le> pb_len b + K * length (filter (\<lambda>row. choice ! row = Some k) [0..<length choice])"
proof (cases "filter (\<lambda>row. choice ! row = Some k) [0..<length choice] = []")
  case True
  then show ?thesis using b' by (simp add: propose_group_def)
next
  case False
  define ps where "ps = map (word_of_nat :: nat \<Rightarrow> u32) (filter (\<lambda>row. choice ! row = Some k) [0..<length choice])"
  define sub where "sub = fr_with_select f (map (\<lambda>p. rs_list (fr_select f) ! unat p) ps)"
  have psl: "unat p < fr_len f" if "p \<in> set ps" for p using that len tag_of_row [OF _ f(2)] by (auto simp: ps_def)
  note sub = fr_sub_batch [OF f(1), of ps, OF psl, folded sub_def]
  have n: "length ps \<le> fr_len f" using length_filter_le [of "\<lambda>row. choice ! row = Some k" "[0..<length choice]"] len by (simp add: ps_def)
  obtain b1 where b1: "propose_by (map fst cgs) v sub k confirmers b = Some b1" "pb_remap_region b1 (pb_len b) ps = Some b'"
    using b' False fr_compose_eq [OF f(1) psl, of ps "[]"] unfolding propose_group_def ps_def [symmetric] sub_def
    by (auto simp: Let_def ps_def split: Option.bind_splits)
  have "pb_len b1 \<le> pb_len b + K * fr_len sub"
    by (rule propose_by_len [OF bd sub(1) _ f(3) _ f(5) b1(1)]) (use sub(2,3) n f(2,4) in auto)
  then show ?thesis using remap_region_len [OF b1(2)] sub(2) by (simp add: ps_def)
qed

lemma ic_propose_cases:
  assumes "ic_propose (map fst cgs) v f b = Some b'" "fr_len f \<noteq> 0"
    and "for_each (scan_row (map fst cgs) v f) ([], replicate (length (map fst cgs)) 0, []) [0..<fr_len f] = Some (choice, relevant, conf)"
  shows "b' = b \<or> (\<exists>k. propose_by (map fst cgs) v f k conf b = Some b')
    \<or> for_each (propose_group (map fst cgs) v f choice conf) b [0..<length cgs] = Some b'"
proof -
  define P Q where "P \<longleftrightarrow> (\<forall>ch \<in> set choice. ch = None)" and "Q \<longleftrightarrow> (\<forall>ch \<in> set choice. ch = hd choice)"
  have "ic_propose (map fst cgs) v f b = do {
      assert_that (\<forall>n \<in> set relevant. n = 0 \<or> n = fr_len f);
      if P then Some b
      else if Q then (case hd choice of None \<Rightarrow> None | Some proposer \<Rightarrow> propose_by (map fst cgs) v f proposer conf b)
      else for_each (propose_group (map fst cgs) v f choice conf) b [0..<length cgs] }"
    unfolding ic_propose_def Let_def assms(3) using assms(2) by (simp add: P_def [symmetric] Q_def [symmetric] del: not_None_eq)
  then show ?thesis using assms(1) by (cases P; cases Q; cases "hd choice") (auto simp: assert_that_def split: if_splits)
qed

lemma intersection_proposes_at_most:
  assumes bd: "\<And>i. i < length cgs \<Longrightarrow> proposes_at_most K (fst (cgs ! i))"
  shows "proposes_at_most K (intersection_constraint (map fst cgs))"
  unfolding proposes_at_most_def
proof (intro allI impI)
  fix f v b b' assume f: "fr_wf f" "fr_len f < 2 ^ 32" "v < 128" "v \<notin> vs_elems (fr_bound f)" "pb_wf b"
    and "c_propose (intersection_constraint (map fst cgs)) v f b = Some b'"
  then have b': "ic_propose (map fst cgs) v f b = Some b'" by (simp add: intersection_constraint_def)
  show "pb_len b' \<le> pb_len b + K * fr_len f"
  proof (cases "fr_len f = 0")
    case True
    then show ?thesis using b' by (simp add: ic_propose_def)
  next
    case nonempty: False
    let ?conf = "with_estimate (row_estimate (map fst cgs) v f 0) (length cgs)"
    obtain choice relevant where scan: "for_each (scan_row (map fst cgs) v f) ([], replicate (length (map fst cgs)) 0, []) [0..<fr_len f] =
        Some (choice, relevant, ?conf)" "length choice = fr_len f"
      by (rule ic_scan [OF f(1) nonempty f(4)]) (erule that, assumption)
    from b' nonempty scan(1) have "b' = b \<or> (\<exists>k. propose_by (map fst cgs) v f k ?conf b = Some b')
      \<or> for_each (propose_group (map fst cgs) v f choice ?conf) b [0..<length cgs] = Some b'" by (rule ic_propose_cases)
    then consider "b' = b" | k where "propose_by (map fst cgs) v f k ?conf b = Some b'"
      | "for_each (propose_group (map fst cgs) v f choice ?conf) b [0..<length cgs] = Some b'" by blast
    then show ?thesis
    proof cases
      case 3
      let ?n = "\<lambda>k. length (filter (\<lambda>row. choice ! row = Some k) [0..<length choice])"
      have "\<exists>b2. for_each (propose_group (map fst cgs) v f choice ?conf) b [0..<length cgs] = Some b2
          \<and> (pb_wf b2 \<and> pb_len b2 \<le> pb_len b + K * (\<Sum>k < length [0..<length cgs]. ?n k))"
      proof (rule for_each_invariant [where I = "\<lambda>m b2. pb_wf b2 \<and> pb_len b2 \<le> pb_len b + K * (\<Sum>k < m. ?n k)"], goal_cases)
        case (2 k b1)
        then have k: "k < length cgs" "[0..<length cgs] ! k = k" by simp_all
        have "\<exists>b2 rows. propose_group (map fst cgs) v f choice ?conf b1 k = Some b2 \<and> pb_wf b2 \<and> pb_rows b2 = pb_rows b1 @ rows
            \<and> (\<forall>r \<in> set rows. choice ! unat (row_tag r) = Some k)
            \<and> propose_spec (all_good cgs) v f (\<lambda>p. choice ! p = Some k \<and> offers (fst (cgs ! k)) v f p) rows"
          by (rule propose_group_spec [OF k(1) confirmers_range f(1-4) conjunct1 [OF 2(2)] scan(2)]) (rule not_confirmer [OF f(1) nonempty f(4)])
        then obtain b2 where b2: "propose_group (map fst cgs) v f choice ?conf b1 k = Some b2" "pb_wf b2" by (elim exE conjE)
        have "pb_len b2 \<le> pb_len b1 + K * ?n k" by (rule propose_group_len [OF bd f(1-4) conjunct1 [OF 2(2)] scan(2) b2(1)])
        then show ?case using b2 2(2) k(2) by (simp add: distrib_left)
      qed (simp add: f(5))
      then have "pb_len b' \<le> pb_len b + K * (\<Sum>k < length cgs. ?n k)" using 3 by auto
      also have "K * (\<Sum>k < length cgs. ?n k) \<le> K * fr_len f" using mult_le_mono2 [OF group_sizes [of choice "length cgs"]] unfolding scan(2) .
      finally show ?thesis by simp
    qed (use propose_by_len [OF bd f] in auto)
  qed
qed

end

section \<open>Conjunctions of patterns\<close>

definition conjunction :: "hash_env \<Rightarrow> trible_constraint list \<Rightarrow> constraint" where
  "conjunction H cs = intersection_constraint (map (trible_set_constraint H) cs)"

definition with_meaning :: "hash_env \<Rightarrow> trible_constraint list \<Rightarrow> (constraint \<times> (assignment \<Rightarrow> bool)) list" where
  "with_meaning H cs = map (\<lambda>c. (trible_set_constraint H c, pattern_good c)) cs"

lemma with_meaning_simps: "map fst (with_meaning H cs) = map (trible_set_constraint H) cs" "length (with_meaning H cs) = length cs"
  "i < length cs \<Longrightarrow> with_meaning H cs ! i = (trible_set_constraint H (cs ! i), pattern_good (cs ! i))"
  "all_good (with_meaning H cs) \<sigma> \<longleftrightarrow> (\<forall>c \<in> set cs. pattern_good c \<sigma>)"
  by (simp_all add: with_meaning_def all_good_def)

text \<open>The variables of the patterns.\<close>

definition pattern_vars :: "trible_constraint list \<Rightarrow> nat set" where
  "pattern_vars cs = {v. \<exists>c \<in> set cs. touches c v}"

lemma conjunction_vars:
  assumes "\<And>c. c \<in> set cs \<Longrightarrow> pattern_ok H c"
  shows "vs_elems (c_variables (conjunction H cs)) = pattern_vars cs"
proof -
  have "vs_elems (tc_variables c) = {v. touches c v}" if "c \<in> set cs" for c
    using assms [OF that] by (intro vs_elems_tc_variables) (simp add: pattern_ok_def)
  then show ?thesis by (auto simp: conjunction_def intersection_constraint_def ic_variables_elems pattern_vars_def)
qed

lemma conjunction_search_run:
  assumes ok: "\<And>c. c \<in> set cs \<Longrightarrow> pattern_ok H c" and card: "\<And>c. c \<in> set cs \<Longrightarrow> card (ts_contents (tc_set c)) \<le> m" "m < usize_max"
    and W: "0 < W" "W < 2 ^ 32" "W * m \<le> 2 ^ 32"
    and post: "\<And>bd. bd_wf bd \<Longrightarrow> vs_elems (bd_bound bd) = pattern_vars cs \<Longrightarrow> post bd = Some (proj (bd_map bd))"
  shows "search_run (conjunction H cs) (all_good (with_meaning H cs)) m W post proj"
proof -
  have ch: "children (with_meaning H cs)" by (rule children_of) (auto simp: with_meaning_simps pattern_lawful ok)
  have "proposing (intersection_constraint (map fst (with_meaning H cs))) (all_good (with_meaning H cs)) m"
  proof (rule children.intersection_proposing [OF ch _ card(2)])
    fix b v assume b: "bd_wf b" "v \<in> vs_elems (ic_variables (map fst (with_meaning H cs)))" "v \<notin> vs_elems (bd_bound b)"
    then obtain c where c: "c \<in> set cs" "v \<in> vs_elems (c_variables (trible_set_constraint H c))"
      by (auto simp: ic_variables_elems with_meaning_def)
    obtain e where e: "c_estimate (trible_set_constraint H c) v b = Some (Some e)" "e \<le> card (ts_contents (tc_set c))"
      using proposing.estimate_some [OF pattern_proposing [OF ok [OF c(1)] le_less_trans [OF card(1) [OF c(1)] card(2)]] b(1) c(2) b(3)] by blast
    obtain i where "i < length cs" "c = cs ! i" using c(1) by (auto simp: in_set_conv_nth)
    then show "\<exists>i < length (with_meaning H cs). \<exists>e \<le> m. c_estimate (fst (with_meaning H cs ! i)) v b = Some (Some e)"
      using e(1) le_trans [OF e(2) card(1) [OF c(1)]] by (intro exI [of _ i] exI [of _ e] conjI) (simp_all add: with_meaning_simps)
  qed
  moreover have "proposes_at_most m (conjunction H cs)"
    using children.intersection_proposes_at_most [OF ch, of m] pattern_proposes_at_most ok card(1)
    by (simp add: with_meaning_simps conjunction_def)
  then have "pb_len pb \<le> 2 ^ 32" if "fr_wf f" "fr_len f \<le> W" "v < 128" "v \<notin> vs_elems (fr_bound f)" "c_propose (conjunction H cs) v f pb_new = Some pb" for f v pb
  proof -
    have "pb_len pb \<le> pb_len pb_new + m * fr_len f"
      using \<open>proposes_at_most m _\<close> that le_less_trans [OF that(2) W(2)] pb_wf_new(1) unfolding proposes_at_most_def by blast
    also have "\<dots> \<le> W * m" using that(2) by (simp add: pb_new_def pb_len_def mult.commute)
    finally show ?thesis using W(3) by (rule le_trans)
  qed
  moreover have "post bd = Some (proj (bd_map bd))" if "bd_wf bd" "vs_elems (bd_bound bd) = vs_elems (c_variables (conjunction H cs))" for bd
    using post that conjunction_vars [OF ok] by simp
  ultimately show ?thesis unfolding with_meaning_simps conjunction_def
    by (intro search_run.intro search_run_axioms.intro W(1,2))
qed

text \<open>For a total assignment the meaning of a pattern is that some trible fits.\<close>

lemma total_pattern_good: "dom \<tau> = pattern_vars cs \<Longrightarrow> c \<in> set cs \<Longrightarrow> pattern_good c \<tau> \<longleftrightarrow> fitting c \<tau>"
  by (auto simp: pattern_good_def pattern_vars_def)


section \<open>Properties\<close>

text \<open>
  C1. A query over a conjunction of patterns returns exactly its answers. For patterns over intact trible
  sets of at most \<open>m\<close> tribles, any frontier width whose proposals \<open>u32\<close> can number, and a projection that does
  not panic on full rows: constructing the query succeeds, iterating it panics nowhere and ends, and the rows
  returned are the projections of a list that holds, once each, the assignments of all variables for which
  every pattern has a trible in its set with the assigned entity, attribute and value.
\<close>

theorem conjunctive_query_answers:
  assumes "\<And>c. c \<in> set cs \<Longrightarrow> pattern_ok H c" "\<And>c. c \<in> set cs \<Longrightarrow> card (ts_contents (tc_set c)) \<le> m"
    and "m < usize_max" "0 < W" "W < 2 ^ 32" "W * m \<le> 2 ^ 32"
    and "\<And>bd. bd_wf bd \<Longrightarrow> vs_elems (bd_bound bd) = pattern_vars cs \<Longrightarrow> post bd = Some (proj (bd_map bd))"
  shows "\<exists>q0 q sols N. query_new (conjunction H cs) = Some q0 \<and> with_frontier_width q0 W = Some q
    \<and> distinct sols \<and> set sols = {\<tau>. dom \<tau> = pattern_vars cs \<and> (\<forall>c \<in> set cs. \<exists>t \<in> ts_contents (tc_set c). fits c \<tau> t)}
    \<and> (\<forall>n \<ge> N. \<forall>k > length (List.map_filter proj sols).
        query_collect k n (conjunction H cs) post q = Some (Some (List.map_filter proj sols)))"
proof -
  have run: "search_run (conjunction H cs) (all_good (with_meaning H cs)) m W post proj" using assms by (rule conjunction_search_run)
  have vars: "vs_elems (c_variables (conjunction H cs)) = pattern_vars cs" using assms(1) by (rule conjunction_vars)
  have sol: "solution (conjunction H cs) (all_good (with_meaning H cs)) \<tau> \<longleftrightarrow>
      dom \<tau> = pattern_vars cs \<and> (\<forall>c \<in> set cs. \<exists>t \<in> ts_contents (tc_set c). fits c \<tau> t)" for \<tau>
    unfolding solution_def vars with_meaning_simps using total_pattern_good [of \<tau> cs] by (auto simp: fitting_def)
  obtain q0 q sols N where "query_new (conjunction H cs) = Some q0" "with_frontier_width q0 W = Some q"
      "distinct sols" "set sols = {\<tau>. solution (conjunction H cs) (all_good (with_meaning H cs)) \<tau>}"
      "\<And>n k. n \<ge> N \<Longrightarrow> k > length (List.map_filter proj sols) \<Longrightarrow>
        query_collect k n (conjunction H cs) post q = Some (Some (List.map_filter proj sols))"
    using search_run.run_solutions [OF run] by metis
  then show ?thesis unfolding sol by (intro exI [of _ q0] exI [of _ q] exI [of _ sols] exI [of _ N]) auto
qed

text \<open>Two patterns that share a variable, over a set of two tribles.\<close>

definition sample_env :: hash_env where
  "sample_env = \<lparr>he_rand = (\<lambda>b. b), he_leaf_hash = (\<lambda>_. 0)\<rparr>"

definition sample_tribles :: "trible list" where
  "sample_tribles = [trible_force (id_pad [1]) (id_pad [7]) (id_into_value (id_pad [2])), trible_force (id_pad [2]) (id_pad [7]) (id_into_value (id_pad [3]))]"

definition sample_patterns :: "trible_constraint list" where
  "sample_patterns =
     [tc_new (Var 0) (Const (id_into_value (id_pad [7]))) (Var 1) (the (ts_from_iter sample_env sample_tribles)),
      tc_new (Var 1) (Const (id_into_value (id_pad [7]))) (Var 2) (the (ts_from_iter sample_env sample_tribles))]"

lemma sample_patterns_ok:
  assumes "c \<in> set sample_patterns"
  shows "pattern_ok sample_env c" "card (ts_contents (tc_set c)) \<le> 2"
proof -
  have "tc_set c = the (ts_from_iter sample_env sample_tribles)" "tc_wf c"
    using assms by (auto simp: sample_patterns_def tc_new_def tc_wf_def term_wf_def)
  then show "pattern_ok sample_env c" "card (ts_contents (tc_set c)) \<le> 2"
    using ts_from_iter_ok [of sample_env sample_tribles] card_length [of sample_tribles] by (simp_all add: pattern_ok_def sample_tribles_def)
qed

lemma sample_patterns_vars: "pattern_vars sample_patterns = {0, 1, 2}"
  by (auto simp: pattern_vars_def sample_patterns_def tc_new_def touches_def rt_is_var_def)

theorem conjunctive_query_answers_witness:
  "\<exists>q0 q sols N. query_new (conjunction sample_env sample_patterns) = Some q0 \<and> with_frontier_width q0 5 = Some q
    \<and> distinct sols \<and> set sols = {\<tau>. dom \<tau> = pattern_vars sample_patterns
        \<and> (\<forall>c \<in> set sample_patterns. \<exists>t \<in> ts_contents (tc_set c). fits c \<tau> t)}
    \<and> (\<forall>n \<ge> N. \<forall>k > length (List.map_filter (\<lambda>\<sigma>. \<sigma> 2) sols).
        query_collect k n (conjunction sample_env sample_patterns) (\<lambda>bd. map_option Some (variable_extract 2 bd)) q
          = Some (Some (List.map_filter (\<lambda>\<sigma>. \<sigma> 2) sols)))"
proof (rule conjunctive_query_answers [where m = 2])
  fix bd assume bd: "bd_wf bd" "vs_elems (bd_bound bd) = pattern_vars sample_patterns"
  have "2 \<in> pattern_vars sample_patterns" by (simp add: sample_patterns_vars)
  then show "map_option Some (variable_extract 2 bd) = Some (bd_map bd 2)" by (rule variable_extract_eq [OF bd])
qed (simp_all add: sample_patterns_ok usize_max_def)

text \<open>
  C5. A pattern keeps the contract of a constraint. Over an intact trible set it proposes every one of its
  variables with an estimate of at most the number of tribles, offers each admissible value of each row once
  although rows that read alike share one walk of an index, and confirms exactly the admissible ones; on a
  binding of all its variables \<open>satisfied\<close> is exactly the presence of the trible.
\<close>

theorem pattern_keeps_contract:
  assumes "pattern_ok H c" "card (ts_contents (tc_set c)) < usize_max" "bd_wf b" "\<And>v. touches c v \<Longrightarrow> bd_map b v \<noteq> None"
  shows "proposing (trible_set_constraint H c) (pattern_good c) (card (ts_contents (tc_set c)))
    \<and> tc_satisfied H c b = Some (\<exists>t \<in> ts_contents (tc_set c). fits c (bd_map b) t)"
proof -
  have "tc_wf c" "trible_store H (tc_set c)" using assms(1) by (simp_all add: pattern_ok_def trible_store.intro)
  moreover have "pos_val term (bd_map b) \<noteq> None" if "\<And>v. rt_is_var term v \<Longrightarrow> touches c v" for "term"
    using that assms(4) by (cases "term") (auto simp: pos_val_def rt_is_var_def)
  ultimately show ?thesis using pattern_proposing [OF assms(1,2)] trible_store.tc_satisfied_spec [OF _ _ assms(3) refl, of H c]
    by (simp add: fitting_def touches_def)
qed

theorem pattern_keeps_contract_witness:
  "proposing (trible_set_constraint sample_env (tc_new (Const (id_into_value (id_pad [1]))) (Const (id_into_value (id_pad [7]))) (Const (id_into_value (id_pad [2])))
       (the (ts_from_iter sample_env sample_tribles))))
     (pattern_good (tc_new (Const (id_into_value (id_pad [1]))) (Const (id_into_value (id_pad [7]))) (Const (id_into_value (id_pad [2])))
       (the (ts_from_iter sample_env sample_tribles)))) (card (set sample_tribles))"
proof -
  let ?s = "the (ts_from_iter sample_env sample_tribles)"
  let ?c = "tc_new (Const (id_into_value (id_pad [1]))) (Const (id_into_value (id_pad [7]))) (Const (id_into_value (id_pad [2]))) ?s"
  have "pattern_ok sample_env ?c" using ts_from_iter_ok(1) [of sample_env sample_tribles] by (simp add: pattern_ok_def tc_new_def tc_wf_def term_wf_def)
  moreover have "card (ts_contents (tc_set ?c)) = card (set sample_tribles)" using ts_from_iter_ok(2) [of sample_env sample_tribles] by (simp add: tc_new_def)
  moreover have "card (set sample_tribles) < usize_max" using card_length [of sample_tribles] by (simp add: sample_tribles_def usize_max_def)
  ultimately show ?thesis using pattern_keeps_contract [of sample_env ?c bd_default] by (auto simp: touches_def rt_is_var_def tc_new_def)
qed

lemma default_frontier:
  obtains f where "fr_default = Some f" "fr_wf f" "fr_len f < 2 ^ 32"
proof
  let ?f = "\<lparr>fr_bound = vs_new_empty, fr_block = replicate 128 0, fr_stride = 128, fr_select = Consecutive 0 1, fr_levels = replicate 128 lv_empty\<rparr>"
  show "fr_default = Some ?f" using rs_identity_eq [of 1] by (simp add: fr_default_def)
  show "fr_len ?f < 2 ^ 32" by (simp add: fr_len_def)
  show "fr_wf ?f"
    by (simp add: fr_wf_def fr_len_def fr_row_def fr_row_indexes_def rs_get_expect_def u32_try_from_def bd_wf_def)
qed

text \<open>
  C6. Grouping rows by probe key is sound: for a batch of fewer than \<open>2 ^ 32\<close> rows the groups are computed
  without a panic, the order visits every row once, and rows with equal labels have equal values at all three
  positions of the pattern, so labels never wrap around onto a different key.
\<close>

theorem probe_groups_sound:
  assumes "tc_wf c" "fr_wf f" "fr_len f < 2 ^ 32"
  shows "\<exists>group ord. probe_groups c f = Some (group, ord) \<and> length group = fr_len f \<and> distinct ord \<and> unat ` set ord = {..<fr_len f}
    \<and> (\<forall>i < fr_len f. \<forall>j < fr_len f. group ! i = group ! j \<longrightarrow> reads_alike c (fr_assign f i) (fr_assign f j))"
  using probe_groups_spec [OF assms] by blast

theorem probe_groups_sound_witness:
  "\<exists>f group ord. fr_default = Some f \<and> probe_groups (tc_new (Var 0) (Var 1) (Var 2) ts_new) f = Some (group, ord) \<and> unat ` set ord = {..<fr_len f}"
proof -
  obtain f where f: "fr_default = Some f" "fr_wf f" "fr_len f < 2 ^ 32" by (rule default_frontier)
  have "tc_wf (tc_new (Var 0) (Var 1) (Var 2) ts_new)" by (simp add: tc_new_def tc_wf_def term_wf_def)
  then show ?thesis using probe_groups_sound [OF _ f(2,3)] f(1) by blast
qed

end
