(* ===== verification/Index_Constraints.thy ===== *)
theory Index_Constraints
  imports Leaf_Constraints Pattern_Laws
begin

text \<open>
  \<open>query/patchconstraint.rs\<close>: membership of a variable in a PATCH of values or of identifiers; and
  \<open>triblesetrangeconstraint.rs\<close>, \<open>triblesetidrangeconstraint.rs\<close>: a variable between two bounds, proposed from
  an index of a trible set.
\<close>

section \<open>The constraints\<close>

subsection \<open>Membership in a PATCH\<close>

definition identity_env :: "hash_env \<Rightarrow> nat \<Rightarrow> patch_env" where
  "identity_env H n = \<lparr>pe_schema = the (identity_schema n), pe_rand = he_rand H, pe_leaf_hash = he_leaf_hash H\<rparr>"

definition patch_value_constraint :: "hash_env \<Rightarrow> nat \<Rightarrow> unit patch \<Rightarrow> constraint" where
  "patch_value_constraint H var p = (let P = identity_env H 32 in
     \<lparr>c_variables = vs_new_singleton var,
      c_estimate = (\<lambda>v b. Some (if var = v then Some (patch_len p) else None)),
      c_propose = (\<lambda>v f pb. if var = v then
          for_rows f (\<lambda>row pb. patch_infixes P p [] 32 \<bind> push_values (pb_open (word_of_nat row) pb)) pb
        else Some pb),
      c_confirm = (\<lambda>v f cs. if var = v then
          for_each (\<lambda>cs i. do {
            x \<leftarrow> idx (cd_values cs) i;
            live \<leftarrow> cd_is_live cs i;
            if live then do { h \<leftarrow> patch_has_prefix P p (inline_bytes x); if \<not> h then cd_kill cs i else Some cs } else Some cs
          }) cs [0..<cd_len cs]
        else Some cs),
      c_satisfied = default_satisfied,
      c_influence = default_influence (vs_new_singleton var)\<rparr>)"

definition patch_id_constraint :: "hash_env \<Rightarrow> nat \<Rightarrow> unit patch \<Rightarrow> constraint" where
  "patch_id_constraint H var p = (let P = identity_env H 16 in
     \<lparr>c_variables = vs_new_singleton var,
      c_estimate = (\<lambda>v b. Some (if var = v then Some (patch_len p) else None)),
      c_propose = (\<lambda>v f pb. if var = v then
          for_rows f (\<lambda>row pb. patch_infixes P p [] 16 \<bind> push_ids (pb_open (word_of_nat row) pb)) pb
        else Some pb),
      c_confirm = (\<lambda>v f cs. if var \<noteq> v then Some cs else
          for_each (\<lambda>cs i. do {
            live \<leftarrow> cd_is_live cs i;
            if \<not> live then Some cs
            else do {
              x \<leftarrow> idx (cd_values cs) i;
              keep \<leftarrow> (case id_from_value x of Some i \<Rightarrow> patch_has_prefix P p (id_bytes i) | None \<Rightarrow> Some False);
              if \<not> keep then cd_kill cs i else Some cs
            }
          }) cs [0..<cd_len cs]),
      c_satisfied = default_satisfied,
      c_influence = default_influence (vs_new_singleton var)\<rparr>)"

subsection \<open>Ranges of values and of identifiers\<close>

record value_range =
  vr_variable :: nat
  vr_min :: raw_inline
  vr_max :: raw_inline
  vr_set :: trible_set
  vr_cached_estimate :: nat

definition value_range_new :: "hash_env \<Rightarrow> nat \<Rightarrow> raw_inline \<Rightarrow> raw_inline \<Rightarrow> trible_set \<Rightarrow> value_range option" where
  "value_range_new H var lo hi s = do {
     n \<leftarrow> patch_count_range (order_env H vea_order) (ts_vea s) [] (inline_bytes lo) (inline_bytes hi);
     Some \<lparr>vr_variable = var, vr_min = lo, vr_max = hi, vr_set = s, vr_cached_estimate = min n usize_max\<rparr>
   }"

definition value_range_constraint :: "hash_env \<Rightarrow> value_range \<Rightarrow> constraint" where
  "value_range_constraint H r =
     \<lparr>c_variables = vs_new_singleton (vr_variable r),
      c_estimate = (\<lambda>v b. Some (if v \<noteq> vr_variable r then None else Some (vr_cached_estimate r))),
      c_propose = (\<lambda>v f pb. if v \<noteq> vr_variable r then Some pb else
          for_rows f (\<lambda>row pb. patch_infixes_range (order_env H vea_order) (ts_vea (vr_set r)) [] (inline_bytes (vr_min r)) (inline_bytes (vr_max r))
            \<bind> push_values (pb_open (word_of_nat row) pb)) pb),
      c_confirm = (\<lambda>v f cs. if v = vr_variable r then cd_retain cs (\<lambda>x. x \<ge> vr_min r \<and> x \<le> vr_max r) else Some cs),
      c_satisfied = (\<lambda>b. do { r' \<leftarrow> bd_get b (vr_variable r); Some (case r' of Some x \<Rightarrow> x \<ge> vr_min r \<and> x \<le> vr_max r | None \<Rightarrow> True) }),
      c_influence = default_influence (vs_new_singleton (vr_variable r))\<rparr>"

record id_range =
  ir_variable :: nat
  ir_min :: raw_id
  ir_max :: raw_id
  ir_set :: trible_set

definition id_in_range :: "id_range \<Rightarrow> raw_inline \<Rightarrow> bool" where
  "id_in_range r x = (case id_from_value x of None \<Rightarrow> False
     | Some i \<Rightarrow> id_bytes i \<ge> id_bytes (ir_min r) \<and> id_bytes i \<le> id_bytes (ir_max r))"

definition entity_range_constraint :: "hash_env \<Rightarrow> id_range \<Rightarrow> constraint" where
  "entity_range_constraint H r =
     \<lparr>c_variables = vs_new_singleton (ir_variable r),
      c_estimate = (\<lambda>v b. if v \<noteq> ir_variable r then Some None else do {
          n \<leftarrow> patch_count_range (order_env H eav_order) (ts_eav (ir_set r)) [] (id_bytes (ir_min r)) (id_bytes (ir_max r));
          Some (Some (min n usize_max)) }),
      c_propose = (\<lambda>v f pb. if v \<noteq> ir_variable r then Some pb else
          for_rows f (\<lambda>row pb. patch_infixes_range (order_env H eav_order) (ts_eav (ir_set r)) [] (id_bytes (ir_min r)) (id_bytes (ir_max r))
            \<bind> push_ids (pb_open (word_of_nat row) pb)) pb),
      c_confirm = (\<lambda>v f cs. if v = ir_variable r then cd_retain cs (id_in_range r) else Some cs),
      c_satisfied = (\<lambda>b. do { r' \<leftarrow> bd_get b (ir_variable r); Some (case r' of Some x \<Rightarrow> id_in_range r x | None \<Rightarrow> True) }),
      c_influence = default_influence (vs_new_singleton (ir_variable r))\<rparr>"

definition attribute_range_constraint :: "hash_env \<Rightarrow> id_range \<Rightarrow> constraint" where
  "attribute_range_constraint H r =
     \<lparr>c_variables = vs_new_singleton (ir_variable r),
      c_estimate = (\<lambda>v b. if v \<noteq> ir_variable r then Some None else do {
          n \<leftarrow> patch_count_range (order_env H aev_order) (ts_aev (ir_set r)) [] (id_bytes (ir_min r)) (id_bytes (ir_max r));
          Some (Some (min n usize_max)) }),
      c_propose = (\<lambda>v f pb. if v \<noteq> ir_variable r then Some pb else
          for_rows f (\<lambda>row pb. patch_infixes_range (order_env H aev_order) (ts_aev (ir_set r)) [] (id_bytes (ir_min r)) (id_bytes (ir_max r))
            \<bind> push_ids (pb_open (word_of_nat row) pb)) pb),
      c_confirm = (\<lambda>v f cs. if v = ir_variable r then cd_retain cs (id_in_range r) else Some cs),
      c_satisfied = (\<lambda>b. do { r' \<leftarrow> bd_get b (ir_variable r); Some (case r' of Some x \<Rightarrow> id_in_range r x | None \<Rightarrow> True) }),
      c_influence = default_influence (vs_new_singleton (ir_variable r))\<rparr>"

section \<open>PATCHes of whole keys\<close>

lemma identity_map_eq: "identity_map n = Some [0..<n]"
proof -
  have "\<exists>m. identity_map n = Some m \<and> length m = n \<and> (\<forall>i < length [0..<n]. m ! i = i)"
    unfolding identity_map_def
  proof (rule for_each_invariant [where I = "\<lambda>k m. length m = n \<and> (\<forall>i < k. m ! i = i)", simplified])
  qed (auto simp: less_Suc_eq)
  then obtain m where m: "identity_map n = Some m" "length m = n" "\<forall>i < n. m ! i = i" by auto
  have "m = [0..<n]" by (rule nth_equalityI) (use m in auto)
  with m(1) show ?thesis by simp
qed

lemma identity_env_ok:
  "env_ok (identity_env H n)" "key_len (identity_env H n) = n" "segments_contiguous (pe_schema (identity_env H n))"
  "0 < n \<Longrightarrow> seg_end (identity_env H n) 0 n" "length k = n \<Longrightarrow> tree_of (identity_env H n) k = k"
proof -
  let ?S = "\<lparr>ks_key_len = n, ks_segments = replicate n 0, ks_key_to_tree = [0..<n], ks_tree_to_key = [0..<n]\<rparr>"
  have S: "pe_schema (identity_env H n) = ?S" by (simp add: identity_env_def identity_schema_def identity_map_eq)
  show "env_ok (identity_env H n)" "key_len (identity_env H n) = n"
    using identity_schema_ok [of n] by (auto simp: env_ok_def identity_env_def)
  show "segments_contiguous (pe_schema (identity_env H n))" unfolding S by (simp add: segments_contiguous_def)
  show "0 < n \<Longrightarrow> seg_end (identity_env H n) 0 n" unfolding seg_end_def S by simp
  show "length k = n \<Longrightarrow> tree_of (identity_env H n) k = k" 
  proof -
    assume "length k = n"
    then show "tree_of (identity_env H n) k = k"
      by (intro nth_equalityI) (auto simp: tree_of_def tbyte_def S)
  qed
qed

lemma identity_key_length: "patch_ok (identity_env H n) p \<Longrightarrow> k \<in> dom (patch_map p) \<Longrightarrow> length k = n"
  using identity_env_ok(2) [of H n] head_keys_ok(2)
  by (fastforce simp: patch_ok_def patch_map_def head_keys_def split: option.splits)

lemma identity_lookups:
  assumes "patch_ok (identity_env H n) p" "0 < n"
  shows "length k = n \<Longrightarrow> patch_has_prefix (identity_env H n) p k = Some (k \<in> dom (patch_map p))"
    "\<exists>xs. patch_infixes (identity_env H n) p [] n = Some xs \<and> distinct xs \<and> set xs = dom (patch_map p)"
proof -
  note klen = identity_key_length [OF assms(1)]
  note env = identity_env_ok [where H = H and n = n]
  have st: "starts (identity_env H n) k k' \<longleftrightarrow> k' = k" if "length k = n" "k' \<in> dom (patch_map p)" for k k'
    using starts_take [of k "identity_env H n"] env(2,5) that klen by auto
  show "patch_has_prefix (identity_env H n) p k = Some (k \<in> dom (patch_map p))" if "length k = n"
    using patch_has_prefix_spec [OF env(1) assms(1), of k] env(2) that assms(2) st [OF that] by (auto simp: keys_with_def)
  have seg: "assert_segment (pe_schema (identity_env H n)) (length []) n = Some ()"
    using assert_segment_spec [OF env(1,3), of 0 n] env(2,4) assms(2) by simp
  have "infix_of (identity_env H n) 0 n ` keys_with (identity_env H n) [] p = dom (patch_map p)"
  proof -
    have "infix_of (identity_env H n) 0 n k = k" if "k \<in> dom (patch_map p)" for k
      using infix_take [of 0 n "identity_env H n" k] env(2,5) klen [OF that] by simp
    then show ?thesis by (simp add: keys_with_def starts_def)
  qed
  then show "\<exists>xs. patch_infixes (identity_env H n) p [] n = Some xs \<and> distinct xs \<and> set xs = dom (patch_map p)"
    using patch_infixes_spec [OF env(1) assms(1) _ seg] env(2) by simp
qed

section \<open>Membership in a PATCH keeps the contract\<close>

text \<open>A loop that decides each candidate by its value.\<close>

lemma confirm_loop:
  assumes wf: "cd_wf cs"
    and step: "\<And>c k. cd_wf c \<Longrightarrow> k < cd_len c \<Longrightarrow> \<exists>c'. body c k = Some c' \<and> cd_keeps (\<lambda>i. i = k \<longrightarrow> P (cd_values c ! i)) c c'"
  shows "\<exists>cs'. for_each body cs [0..<cd_len cs] = Some cs' \<and> cd_filters (\<lambda>_. P) cs cs'"
proof -
  let ?K = "\<lambda>i. P (cd_values cs ! i)"
  have "\<exists>cs'. for_each body cs [0..<cd_len cs] = Some cs' \<and> cd_keeps (\<lambda>i. 0 \<le> i \<longrightarrow> i < length [0..<cd_len cs] \<longrightarrow> ?K i) cs cs'"
  proof (rule for_each_invariant [where I = "\<lambda>n. cd_keeps (\<lambda>i. 0 \<le> i \<longrightarrow> i < n \<longrightarrow> ?K i) cs"], goal_cases)
    case 1
    show ?case by simp
  next
    case (2 n c)
    note sh = keeps_shape [OF 2(2)]
    have n: "n < cd_len c" "[0..<cd_len cs] ! n = n" using 2(1) sh by simp_all
    obtain c' where c': "body c n = Some c'" "cd_keeps (\<lambda>i. i = n \<longrightarrow> P (cd_values c ! i)) c c'"
      using step [OF cd_keeps_wf [OF 2(2) wf] n(1)] by blast
    have "cd_keeps (\<lambda>i. i = n \<longrightarrow> ?K i) c c'" using c'(2) sh by simp
    from keeps_range_step [OF 2(2) this] c'(1) n(2) show ?case by simp
  qed
  then obtain cs' where "for_each body cs [0..<cd_len cs] = Some cs'" "cd_keeps (\<lambda>i. 0 \<le> i \<longrightarrow> i < cd_len cs \<longrightarrow> ?K i) cs cs'" by auto
  moreover from this(2) have "cd_keeps ?K cs cs'" by (rule cd_keeps_cong [THEN iffD1, rotated]) simp
  ultimately show ?thesis by (auto simp: cd_filters_def)
qed

lemma decide_one:
  assumes "cd_wf c" "k < cd_len c" "cd_alive c k \<Longrightarrow> r = (if P (cd_values c ! k) then Some c else cd_kill c k)"
    and "\<not> cd_alive c k \<Longrightarrow> r = Some c"
  shows "\<exists>c'. r = Some c' \<and> cd_keeps (\<lambda>i. i = k \<longrightarrow> P (cd_values c ! i)) c c'"
proof (cases "cd_alive c k \<and> \<not> P (cd_values c ! k)")
  case True
  obtain c' where c': "cd_kill c k = Some c'" "cd_keeps (\<lambda>j. j \<noteq> k) c c'" using cd_kill_keeps [OF assms(1,2)] by blast
  have "cd_keeps (\<lambda>i. i = k \<longrightarrow> P (cd_values c ! i)) c c'" using c'(2) by (rule cd_keeps_cong [THEN iffD1, rotated]) (use True in auto)
  with c'(1) True assms(3) show ?thesis by simp
next
  case False
  then have "r = Some c" using assms(3,4) by (cases "cd_alive c k") auto
  moreover have "cd_keeps (\<lambda>i. i = k \<longrightarrow> P (cd_values c ! i)) c c" by (rule keeps_same) (use False in auto)
  ultimately show ?thesis by simp
qed

lemma propose_keys:
  assumes "pb_wf pb"
  shows "\<exists>pb'. for_rows f (\<lambda>row pb. Some xs \<bind> (\<lambda>ks. for_each (\<lambda>pb x. pb_push pb (g x)) (pb_open (word_of_nat row) pb) ks)) pb = Some pb'
    \<and> pb_wf pb' \<and> pb_rows pb' = pb_rows pb @ concat (map (\<lambda>row. map (\<lambda>x. (word_of_nat row, x, True)) (map g xs)) [0..<fr_len f])"
proof (rule for_rows_rows [OF assms])
  fix row b assume "pb_wf b"
  from pb_extend_open_rows [OF this, of "word_of_nat row" "map g xs"]
  show "\<exists>b'. Some xs \<bind> (\<lambda>ks. for_each (\<lambda>pb x. pb_push pb (g x)) (pb_open (word_of_nat row) b) ks) = Some b' \<and> pb_wf b'
      \<and> pb_rows b' = pb_rows b @ map (\<lambda>x. (word_of_nat row, x, True)) (map g xs)"
    by (simp add: pb_extend_def for_each_map)
qed

lemma patch_value_unary:
  assumes "patch_ok (identity_env H 32) p" "var < 128"
  shows "\<exists>vals. unary (patch_value_constraint H var p) var (\<lambda>x. inline_bytes x \<in> dom (patch_map p)) vals (patch_len p)"
proof -
  note klen = identity_key_length [OF assms(1)]
  obtain xs where xs: "patch_infixes (identity_env H 32) p [] 32 = Some xs" "distinct xs" "set xs = dom (patch_map p)"
    using identity_lookups(2) [OF assms(1)] by auto
  have pad: "inline_bytes (inline_pad x) = x" if "x \<in> set xs" for x using klen that xs(3) by simp
  let ?c = "patch_value_constraint H var p"
  have "unary ?c var (\<lambda>x. inline_bytes x \<in> dom (patch_map p)) (map inline_pad xs) (patch_len p)"
  proof
    show "\<exists>pb'. c_propose ?c var f pb = Some pb' \<and> pb_wf pb' \<and> pb_rows pb' = pb_rows pb @
        concat (map (\<lambda>row. map (\<lambda>x. (word_of_nat row, x, True)) (map inline_pad xs)) [0..<fr_len f])" if "pb_wf pb" for f pb
      using propose_keys [OF that, of f xs inline_pad] by (simp add: patch_value_constraint_def Let_def xs(1) push_values_def)
    show "\<exists>cs'. c_confirm ?c var f cs = Some cs' \<and> cd_filters (\<lambda>_ x. inline_bytes x \<in> dom (patch_map p)) cs cs'"
      if "cd_wf cs" for f cs
      unfolding patch_value_constraint_def Let_def constraint.simps simp_thms if_True
      by (rule confirm_loop [OF that], rule decide_one)
        (auto simp: cd_is_live_eq identity_lookups(1) [OF assms(1)] cd_len_def)
    show "\<exists>s. c_satisfied ?c b = Some s \<and> (unary_good var (\<lambda>x. inline_bytes x \<in> dom (patch_map p)) (bd_map b) \<longrightarrow> s)" for b
      by (auto simp: patch_value_constraint_def Let_def default_satisfied_def)
    show "distinct (map inline_pad xs)" unfolding distinct_map using xs(2) inj_on_inverseI [of "set xs" inline_bytes inline_pad, OF pad] by blast
    show "inline_bytes x \<in> dom (patch_map p)" if "x \<in> set (map inline_pad xs)" for x
      using that pad unfolding set_map xs(3) by (fastforce simp del: inline_bytes_pad)
    show "x \<in> set (map inline_pad xs)" if "inline_bytes x \<in> dom (patch_map p)" for x
      using that inline_pad_bytes [of x] unfolding xs(3) [symmetric] set_map by (metis imageI)
  qed (use assms(2) in \<open>auto simp: patch_value_constraint_def Let_def\<close>)
  then show ?thesis ..
qed

lemma patch_id_unary:
  assumes "patch_ok (identity_env H 16) p" "var < 128"
  shows "\<exists>vals. unary (patch_id_constraint H var p) var (\<lambda>x. \<exists>i. x = id_into_value i \<and> id_bytes i \<in> dom (patch_map p)) vals (patch_len p)"
proof -
  note klen = identity_key_length [OF assms(1)]
  obtain xs where xs: "patch_infixes (identity_env H 16) p [] 16 = Some xs" "distinct xs" "set xs = dom (patch_map p)"
    using identity_lookups(2) [OF assms(1)] by auto
  let ?c = "patch_id_constraint H var p" and ?v = "\<lambda>x. id_into_value (id_pad x)"
  let ?P = "\<lambda>x. \<exists>i. x = id_into_value i \<and> id_bytes i \<in> dom (patch_map p)"
  have pad: "id_bytes (id_pad x) = x" if "x \<in> set xs" for x using klen that xs(3) by simp
  have keep: "(case id_from_value x of Some i \<Rightarrow> patch_has_prefix (identity_env H 16) p (id_bytes i) | None \<Rightarrow> Some False) = Some (?P x)" for x
  proof (cases "id_from_value x")
    case (Some i)
    then have "x = id_into_value i" using raw_id_codec.encode_decode by metis
    then show ?thesis using Some identity_lookups(1) [OF assms(1), of "id_bytes i"] by auto
  qed auto
  have "unary ?c var ?P (map ?v xs) (patch_len p)"
  proof
    show "\<exists>pb'. c_propose ?c var f pb = Some pb' \<and> pb_wf pb' \<and> pb_rows pb' = pb_rows pb @
        concat (map (\<lambda>row. map (\<lambda>x. (word_of_nat row, x, True)) (map ?v xs)) [0..<fr_len f])" if "pb_wf pb" for f pb
      using propose_keys [OF that, of f xs ?v] by (simp add: patch_id_constraint_def Let_def xs(1) push_ids_def)
    show "\<exists>cs'. c_confirm ?c var f cs = Some cs' \<and> cd_filters (\<lambda>_. ?P) cs cs'" if "cd_wf cs" for f cs
      unfolding patch_id_constraint_def Let_def constraint.simps simp_thms if_False keep
      by (rule confirm_loop [OF that], rule decide_one) (auto simp: cd_is_live_eq cd_len_def)
    show "\<exists>s. c_satisfied ?c b = Some s \<and> (unary_good var ?P (bd_map b) \<longrightarrow> s)" for b
      by (auto simp: patch_id_constraint_def Let_def default_satisfied_def)
    have "inj_on ?v (set xs)" by (rule inj_on_inverseI [of _ "\<lambda>x. id_bytes (the (id_from_value x))"]) (simp add: raw_id_codec.decode_encode pad del: id_bytes_pad)
    then show "distinct (map ?v xs)" unfolding distinct_map using xs(2) by blast
    show "?P x" if "x \<in> set (map ?v xs)" for x using that pad unfolding set_map xs(3) by (fastforce simp del: id_bytes_pad)
    show "x \<in> set (map ?v xs)" if "?P x" for x
    proof -
      from that obtain i where i: "x = id_into_value i" "id_bytes i \<in> set xs" using xs(3) by auto
      have "x = ?v (id_bytes i)" using i(1) by simp
      then show ?thesis using i(2) unfolding set_map by (rule image_eqI)
    qed
  qed (use assms(2) in \<open>auto simp: patch_id_constraint_def Let_def\<close>)
  then show ?thesis ..
qed

section \<open>Ranges\<close>

context covering_index
begin

lemma first_segment:
  assumes "length lo = l1"
  shows "{x \<in> infix_of P (length []) (length lo) ` keys_with P [] p. lo \<le> x \<and> x \<le> hi} = {x \<in> pr1 ` T. lo \<le> x \<and> x \<le> hi}"
  using values_eq [of "[]" l1] lens assms by simp

lemma infixes_range_first:
  assumes "length lo = l1" "length hi = l1"
  shows "\<exists>xs. patch_infixes_range P p [] lo hi = Some xs \<and> distinct xs \<and> set xs = {x \<in> pr1 ` T. lo \<le> x \<and> x \<le> hi}"
proof -
  have len: "length [] + length lo \<le> key_len P" "length hi = length lo" using assms lens(4) by simp_all
  have "assert_segment (pe_schema P) (length []) (length lo) = Some ()"
    using assert_segment_spec [OF env con len(1)] segs(1) assms by simp
  from patch_infixes_range_spec [OF env ok len this] show ?thesis unfolding first_segment [OF assms(1)] .
qed

lemma count_range_first:
  assumes "length lo = l1" "length hi = l1"
  shows "patch_count_range P p [] lo hi = Some (card {x \<in> pr1 ` T. lo \<le> x \<and> x \<le> hi})"
proof -
  have "length hi = length lo" "seg_end P (length []) (length [] + length lo)" using assms segs(1) by simp_all
  from patch_count_range_spec [OF env ok this] show ?thesis unfolding first_segment [OF assms(1)] .
qed

end

text \<open>
  What the three range constraints do: they offer the values of \<open>S\<close>, those of the set in the range, and test
  only the range \<open>P\<close>.
\<close>

locale index_scan =
  fixes c :: constraint and var :: nat and S :: "raw_inline set" and P :: "raw_inline \<Rightarrow> bool"
  assumes var: "var < 128"
    and variables: "c_variables c = vs_new_singleton var"
    and estimate: "c_estimate c v b = Some (if v = var then Some (min (card S) usize_max) else None)"
    and offered: "S \<subseteq> {x. P x}"
    and propose_rows: "\<exists>vals. distinct vals \<and> set vals = S \<and> (\<forall>f pb. pb_wf pb \<longrightarrow> (\<exists>pb'. c_propose c var f pb = Some pb' \<and> pb_wf pb'
      \<and> pb_rows pb' = pb_rows pb @ concat (map (\<lambda>row. map (\<lambda>x. (word_of_nat row, x, True)) vals) [0..<fr_len f])))"
    and propose_foreign: "v \<noteq> var \<Longrightarrow> c_propose c v f pb = Some pb"
    and confirm_values: "cd_wf cs \<Longrightarrow> \<exists>cs'. c_confirm c var f cs = Some cs' \<and> cd_filters (\<lambda>_. P) cs cs'"
    and confirm_foreign: "v \<noteq> var \<Longrightarrow> c_confirm c v f cs = Some cs"
    and satisfied: "bd_wf b \<Longrightarrow> c_satisfied c b = Some (unary_good var P (bd_map b))"
begin

text \<open>Where every value of the range occurs in the set, the constraint keeps the contract.\<close>

lemma full_range_exact:
  assumes "\<And>x. P x \<Longrightarrow> x \<in> S"
  shows "exact c (unary_good var P)"
proof -
  obtain vals where vals: "distinct vals" "set vals = S" "\<And>f pb. pb_wf pb \<Longrightarrow> \<exists>pb'. c_propose c var f pb = Some pb' \<and> pb_wf pb'
      \<and> pb_rows pb' = pb_rows pb @ concat (map (\<lambda>row. map (\<lambda>x. (word_of_nat row, x, True)) vals) [0..<fr_len f])"
    using propose_rows by metis
  have "unary c var P vals (min (card S) usize_max)"
    by unfold_locales (use var variables estimate vals propose_foreign confirm_values confirm_foreign satisfied offered assms in auto)
  then show ?thesis by (intro exact.intro unary.is_lawful exact_axioms.intro) (auto simp: satisfied)
qed

text \<open>Otherwise it keeps no contract at all: it confirms a value that it does not offer.\<close>

lemma no_contract:
  assumes "P x" "x \<notin> S" "card S < usize_max"
  shows "\<not> lawful c good"
proof
  assume law: "lawful c good"
  obtain f b where f: "fr_wf f" "fr_len f = 1" "fr_bound f = vs_new_empty" "fr_row f 0 = Some b" "bd_wf b" "bd_map b = Map.empty"
    by (rule empty_row)
  have v: "var < 128" "var \<notin> vs_elems (fr_bound f)" "fr_len f < 2 ^ 32" and row: "fr_assign f 0 = Map.empty"
    using var f by (simp_all add: fr_assign_def)
  have "c_satisfied c b = Some True" using satisfied [OF f(5)] f(6) by (simp add: unary_good_def)
  then have root: "good Map.empty" using lawful.satisfied_root [OF law f(5,6)] by simp
  let ?cs = "\<lparr>cd_values = [x], cd_parents = [0], cd_words = [1], cd_bit_offset = 0\<rparr>"
  have cs: "cd_wf ?cs" "\<forall>p \<in> set (cd_parents ?cs). unat p < fr_len f" using f(2) by (simp_all add: cd_wf_def words_for_def)
  obtain cs' Q where Q: "c_confirm c var f ?cs = Some cs'" "cd_filters Q ?cs cs'" "confirm_spec good var f Q"
    using lawful.confirm [OF law f(1) v(1,2) cs v(3)] by blast
  have "cd_filters (\<lambda>_. P) ?cs cs'" using confirm_values [OF cs(1), of f] Q(1) by auto
  then have P: "wbit (cd_words cs') 0 \<longleftrightarrow> wbit [1] 0 \<and> P x" unfolding cd_filters_def cd_keeps_def by (simp add: cd_len_def)
  have Q0: "wbit (cd_words cs') 0 \<longleftrightarrow> wbit [1] 0 \<and> Q 0 x" using Q(2) unfolding cd_filters_def cd_keeps_def by (simp add: cd_len_def)
  have "wbit [1 :: u32] 0" by (simp add: wbit_def)
  then have "Q 0 x" using P Q0 assms(1) by blast
  then have good: "good (Map.empty(var \<mapsto> x))" using Q(3) f(2) row root unfolding confirm_spec_def by (metis less_one unat_0)
  obtain vals where vals: "set vals = S" "\<And>f pb. pb_wf pb \<Longrightarrow> \<exists>pb'. c_propose c var f pb = Some pb' \<and> pb_wf pb'
      \<and> pb_rows pb' = pb_rows pb @ concat (map (\<lambda>row. map (\<lambda>x. (word_of_nat row, x, True)) vals) [0..<fr_len f])"
    using propose_rows by metis
  obtain pb' rows where pb': "c_propose c var f pb_new = Some pb'" "pb_rows pb' = pb_rows pb_new @ rows" "propose_spec good var f (offers c var f) rows"
    using lawful.propose [OF law f(1) v(3,1,2) pb_wf_new(1)] by blast
  have "offers c var f 0" using f(4) assms(3) by (simp add: offers_def estimate)
  then have "(word_of_nat 0, x, True) \<in> set rows" using pb'(3) f(2) good row unfolding propose_spec_def by (metis less_one)
  moreover have "rows = concat (map (\<lambda>row. map (\<lambda>x. (word_of_nat row, x, True)) vals) [0..<fr_len f])"
    using vals(2) [OF pb_wf_new(1), of f] pb'(1,2) by auto
  ultimately show False using f(2) vals(1) assms(2) by auto
qed

end

text \<open>The bytes of a value or an identifier are ordered as the value is.\<close>

lemma scan_values:
  assumes "\<exists>xs. r = Some xs \<and> distinct xs \<and> set xs = {x \<in> (\<lambda>t. inline_bytes (q t)) ` T. inline_bytes lo \<le> x \<and> x \<le> inline_bytes hi}"
  obtains xs where "r = Some xs" "distinct (map inline_pad xs)" "set (map inline_pad xs) = {x \<in> q ` T. lo \<le> x \<and> x \<le> hi}"
    "card {x \<in> (\<lambda>t. inline_bytes (q t)) ` T. inline_bytes lo \<le> x \<and> x \<le> inline_bytes hi} = card {x \<in> q ` T. lo \<le> x \<and> x \<le> hi}"
proof -
  from assms obtain xs where xs: "r = Some xs" "distinct xs" "set xs = {x \<in> (\<lambda>t. inline_bytes (q t)) ` T. inline_bytes lo \<le> x \<and> x \<le> inline_bytes hi}"
    by (elim exE conjE)
  have inj: "inj_on inline_pad (set xs)" unfolding xs(3) by (rule inj_on_inverseI [of _ inline_bytes]) auto
  have img: "set (map inline_pad xs) = {x \<in> q ` T. lo \<le> x \<and> x \<le> hi}"
    unfolding set_map xs(3) less_eq_raw_inline_def by force
  show ?thesis
  proof (rule that [OF xs(1) _ img])
    show "distinct (map inline_pad xs)" using xs(2) inj by (simp add: distinct_map)
  qed (use card_image [OF inj] img in \<open>simp only: xs(3) set_map\<close>)
qed

lemma scan_ids:
  assumes "\<exists>xs. r = Some xs \<and> distinct xs \<and> set xs = {x \<in> (\<lambda>t. id_bytes (q t)) ` T. id_bytes lo \<le> x \<and> x \<le> id_bytes hi}"
  obtains xs where "r = Some xs" "distinct (map (\<lambda>x. id_into_value (id_pad x)) xs)"
    "set (map (\<lambda>x. id_into_value (id_pad x)) xs) = id_into_value ` {i \<in> q ` T. id_bytes lo \<le> id_bytes i \<and> id_bytes i \<le> id_bytes hi}"
    "card {x \<in> (\<lambda>t. id_bytes (q t)) ` T. id_bytes lo \<le> x \<and> x \<le> id_bytes hi}
      = card (id_into_value ` {i \<in> q ` T. id_bytes lo \<le> id_bytes i \<and> id_bytes i \<le> id_bytes hi})"
proof -
  from assms obtain xs where xs: "r = Some xs" "distinct xs" "set xs = {x \<in> (\<lambda>t. id_bytes (q t)) ` T. id_bytes lo \<le> x \<and> x \<le> id_bytes hi}"
    by (elim exE conjE)
  have inj: "inj_on (\<lambda>x. id_into_value (id_pad x)) (set xs)" unfolding xs(3)
    by (rule inj_on_inverseI [of _ "\<lambda>x. id_bytes (the (id_from_value x))"]) (auto simp: raw_id_codec.decode_encode)
  have img: "set (map (\<lambda>x. id_into_value (id_pad x)) xs) = id_into_value ` {i \<in> q ` T. id_bytes lo \<le> id_bytes i \<and> id_bytes i \<le> id_bytes hi}"
    unfolding set_map xs(3) by force
  show ?thesis
  proof (rule that [OF xs(1) _ img])
    show "distinct (map (\<lambda>x. id_into_value (id_pad x)) xs)" using xs(2) inj by (simp add: distinct_map)
  qed (use card_image [OF inj] img in \<open>simp only: xs(3) set_map\<close>)
qed

lemma id_in_range_iff:
  "id_in_range r x \<longleftrightarrow> (\<exists>i. x = id_into_value i \<and> id_bytes (ir_min r) \<le> id_bytes i \<and> id_bytes i \<le> id_bytes (ir_max r))"
  using raw_id_codec.encode_decode [of x] raw_id_codec.decode_encode by (auto simp: id_in_range_def split: option.splits)

text \<open>The two constraints on identifiers differ in the index they read.\<close>

lemma id_scan:
  assumes var: "ir_variable r < 128"
    and c: "c = \<lparr>c_variables = vs_new_singleton (ir_variable r),
      c_estimate = (\<lambda>v b. if v \<noteq> ir_variable r then Some None else do {
          n \<leftarrow> patch_count_range P p [] (id_bytes (ir_min r)) (id_bytes (ir_max r));
          Some (Some (min n usize_max)) }),
      c_propose = (\<lambda>v f pb. if v \<noteq> ir_variable r then Some pb else
          for_rows f (\<lambda>row pb. patch_infixes_range P p [] (id_bytes (ir_min r)) (id_bytes (ir_max r))
            \<bind> push_ids (pb_open (word_of_nat row) pb)) pb),
      c_confirm = (\<lambda>v f cs. if v = ir_variable r then cd_retain cs (id_in_range r) else Some cs),
      c_satisfied = (\<lambda>b. do { r' \<leftarrow> bd_get b (ir_variable r); Some (case r' of Some x \<Rightarrow> id_in_range r x | None \<Rightarrow> True) }),
      c_influence = default_influence (vs_new_singleton (ir_variable r))\<rparr>"
    and infixes: "\<exists>xs. patch_infixes_range P p [] (id_bytes (ir_min r)) (id_bytes (ir_max r)) = Some xs \<and> distinct xs
      \<and> set xs = {x \<in> (\<lambda>t. id_bytes (q t)) ` T. id_bytes (ir_min r) \<le> x \<and> x \<le> id_bytes (ir_max r)}"
    and count: "patch_count_range P p [] (id_bytes (ir_min r)) (id_bytes (ir_max r))
      = Some (card {x \<in> (\<lambda>t. id_bytes (q t)) ` T. id_bytes (ir_min r) \<le> x \<and> x \<le> id_bytes (ir_max r)})"
  shows "index_scan c (ir_variable r) (id_into_value ` {i \<in> q ` T. id_bytes (ir_min r) \<le> id_bytes i \<and> id_bytes i \<le> id_bytes (ir_max r)}) (id_in_range r)"
    (is "index_scan c _ ?S _")
proof -
  let ?v = "\<lambda>x. id_into_value (id_pad x)"
  obtain xs where xs: "patch_infixes_range P p [] (id_bytes (ir_min r)) (id_bytes (ir_max r)) = Some xs"
      "distinct (map ?v xs)" "set (map ?v xs) = ?S"
      "card {x \<in> (\<lambda>t. id_bytes (q t)) ` T. id_bytes (ir_min r) \<le> x \<and> x \<le> id_bytes (ir_max r)} = card ?S"
    by (rule scan_ids [OF infixes])
  show ?thesis
  proof
    have "\<exists>pb'. c_propose c (ir_variable r) f pb = Some pb' \<and> pb_wf pb'
        \<and> pb_rows pb' = pb_rows pb @ concat (map (\<lambda>row. map (\<lambda>x. (word_of_nat row, x, True)) (map ?v xs)) [0..<fr_len f])" if "pb_wf pb" for f pb
      using propose_keys [OF that, of f xs ?v] by (simp add: c xs(1) push_ids_def)
    then show "\<exists>vals. distinct vals \<and> set vals = ?S \<and> (\<forall>f pb. pb_wf pb \<longrightarrow> (\<exists>pb'. c_propose c (ir_variable r) f pb = Some pb' \<and> pb_wf pb'
        \<and> pb_rows pb' = pb_rows pb @ concat (map (\<lambda>row. map (\<lambda>x. (word_of_nat row, x, True)) vals) [0..<fr_len f])))"
      using xs(2,3) by (intro exI [of _ "map ?v xs"]) blast
    show "\<exists>cs'. c_confirm c (ir_variable r) f cs = Some cs' \<and> cd_filters (\<lambda>_. id_in_range r) cs cs'" if "cd_wf cs" for f cs
      using cd_retain_filters [OF that] by (simp add: c)
    show "c_satisfied c b = Some (unary_good (ir_variable r) (id_in_range r) (bd_map b))" if "bd_wf b" for b
      using bd_get_map [OF that var] by (simp add: c unary_good_def)
    show "?S \<subseteq> {x. id_in_range r x}" by (auto simp: id_in_range_iff)
    show "c_estimate c v b = Some (if v = ir_variable r then Some (min (card ?S) usize_max) else None)" for v b
      unfolding xs(4) [symmetric] by (simp add: c count)
  qed (use var in \<open>auto simp: c\<close>)
qed

context trible_store
begin

lemma value_scan:
  assumes "var < 128"
  shows "\<exists>r. value_range_new H var lo hi s = Some r
    \<and> index_scan (value_range_constraint H r) var {x \<in> tr_v ` ts_contents s. lo \<le> x \<and> x \<le> hi} (\<lambda>x. lo \<le> x \<and> x \<le> hi)"
proof -
  let ?S = "{x \<in> tr_v ` ts_contents s. lo \<le> x \<and> x \<le> hi}"
  obtain xs where xs: "patch_infixes_range (order_env H vea_order) (ts_vea s) [] (inline_bytes lo) (inline_bytes hi) = Some xs"
      "distinct (map inline_pad xs)" "set (map inline_pad xs) = ?S"
      "card {x \<in> (\<lambda>t. inline_bytes (tr_v t)) ` ts_contents s. inline_bytes lo \<le> x \<and> x \<le> inline_bytes hi} = card ?S"
    by (rule scan_values [OF vea.infixes_range_first [of "inline_bytes lo" "inline_bytes hi"]]) simp_all
  let ?r = "\<lparr>vr_variable = var, vr_min = lo, vr_max = hi, vr_set = s, vr_cached_estimate = min (card ?S) usize_max\<rparr>"
  let ?c = "value_range_constraint H ?r"
  have "value_range_new H var lo hi s = Some ?r"
    using vea.count_range_first [of "inline_bytes lo" "inline_bytes hi"] xs(4) by (simp add: value_range_new_def)
  moreover have "index_scan ?c var ?S (\<lambda>x. lo \<le> x \<and> x \<le> hi)"
  proof
    have "\<exists>pb'. c_propose ?c var f pb = Some pb' \<and> pb_wf pb'
        \<and> pb_rows pb' = pb_rows pb @ concat (map (\<lambda>row. map (\<lambda>x. (word_of_nat row, x, True)) (map inline_pad xs)) [0..<fr_len f])" if "pb_wf pb" for f pb
      using propose_keys [OF that, of f xs inline_pad] by (simp add: value_range_constraint_def xs(1) push_values_def)
    then show "\<exists>vals. distinct vals \<and> set vals = ?S \<and> (\<forall>f pb. pb_wf pb \<longrightarrow> (\<exists>pb'. c_propose ?c var f pb = Some pb' \<and> pb_wf pb'
        \<and> pb_rows pb' = pb_rows pb @ concat (map (\<lambda>row. map (\<lambda>x. (word_of_nat row, x, True)) vals) [0..<fr_len f])))"
      using xs(2,3) by (intro exI [of _ "map inline_pad xs"]) blast
    show "\<exists>cs'. c_confirm ?c var f cs = Some cs' \<and> cd_filters (\<lambda>_ x. lo \<le> x \<and> x \<le> hi) cs cs'" if "cd_wf cs" for f cs
      using cd_retain_filters [OF that] by (simp add: value_range_constraint_def)
    show "c_satisfied ?c b = Some (unary_good var (\<lambda>x. lo \<le> x \<and> x \<le> hi) (bd_map b))" if "bd_wf b" for b
      using bd_get_map [OF that assms] by (simp add: value_range_constraint_def unary_good_def split: option.split)
  qed (use assms in \<open>auto simp: value_range_constraint_def\<close>)
  ultimately show ?thesis by blast
qed

lemma entity_scan:
  assumes "ir_variable r < 128" "ir_set r = s"
  shows "index_scan (entity_range_constraint H r) (ir_variable r)
    (id_into_value ` {i \<in> tr_e ` ts_contents s. id_bytes (ir_min r) \<le> id_bytes i \<and> id_bytes i \<le> id_bytes (ir_max r)}) (id_in_range r)"
  by (rule id_scan [OF assms(1) entity_range_constraint_def])
    (use eav.infixes_range_first eav.count_range_first in \<open>simp_all add: assms(2)\<close>)

lemma attribute_scan:
  assumes "ir_variable r < 128" "ir_set r = s"
  shows "index_scan (attribute_range_constraint H r) (ir_variable r)
    (id_into_value ` {i \<in> tr_a ` ts_contents s. id_bytes (ir_min r) \<le> id_bytes i \<and> id_bytes i \<le> id_bytes (ir_max r)}) (id_in_range r)"
  by (rule id_scan [OF assms(1) attribute_range_constraint_def])
    (use aev.infixes_range_first aev.count_range_first in \<open>simp_all add: assms(2)\<close>)

end

interpretation built_entities: index_scan
  "entity_range_constraint H \<lparr>ir_variable = var_index q, ir_min = lo, ir_max = hi, ir_set = the (ts_from_iter H ts)\<rparr>" "var_index q"
  "id_into_value ` {i \<in> tr_e ` set ts. id_bytes lo \<le> id_bytes i \<and> id_bytes i \<le> id_bytes hi}"
  "id_in_range \<lparr>ir_variable = var_index q, ir_min = lo, ir_max = hi, ir_set = the (ts_from_iter H ts)\<rparr>" for H q lo hi ts
  using built.entity_scan [of "\<lparr>ir_variable = var_index q, ir_min = lo, ir_max = hi, ir_set = the (ts_from_iter H ts)\<rparr>" H ts]
    ts_from_iter_ok(2) [of H ts] by simp

section \<open>Properties\<close>

text \<open>
  C34. Membership in a PATCH of whole values, or of whole identifiers, keeps the contract of the trait and can
  propose its variable, with the number of keys as its estimate: every key is proposed once for each row of
  the batch, and a candidate is confirmed exactly when it is a key.
\<close>

theorem patch_membership_proposes:
  assumes "v < 128" "patch_ok (identity_env H 32) p" "patch_len p < usize_max" "patch_ok (identity_env H 16) q" "patch_len q < usize_max"
  shows "proposing (patch_value_constraint H v p) (unary_good v (\<lambda>x. inline_bytes x \<in> dom (patch_map p))) (patch_len p)
    \<and> proposing (patch_id_constraint H v q) (unary_good v (\<lambda>x. \<exists>i. x = id_into_value i \<and> id_bytes i \<in> dom (patch_map q))) (patch_len q)"
  using patch_value_unary [OF assms(2,1)] patch_id_unary [OF assms(4,1)] unary_proposing assms(3,5) by blast

lemma one_key_patch:
  assumes "length k = n"
  obtains p where "patch_insert (identity_env H n) patch_new (entry_with_value (identity_env H n) k ()) = Some p"
    "patch_ok (identity_env H n) p" "patch_map p = [k \<mapsto> ()]"
  using patch_step_spec [OF identity_env_ok(1) [of H n], of patch_new "Insert k ()"] assms by (auto simp: patch_step_def identity_env_ok(2))

theorem patch_membership_proposes_witness:
  "\<exists>p. patch_insert (identity_env \<lparr>he_rand = id, he_leaf_hash = (\<lambda>_. 0)\<rparr> 32) patch_new
      (entry_with_value (identity_env \<lparr>he_rand = id, he_leaf_hash = (\<lambda>_. 0)\<rparr> 32) (replicate 32 7) ()) = Some p
    \<and> proposing (patch_value_constraint \<lparr>he_rand = id, he_leaf_hash = (\<lambda>_. 0)\<rparr> 3 p) (unary_good 3 (\<lambda>x. inline_bytes x \<in> {replicate 32 7})) 1"
proof -
  let ?H = "\<lparr>he_rand = id, he_leaf_hash = (\<lambda>_. 0)\<rparr>"
  obtain p :: "unit patch" where p: "patch_insert (identity_env ?H 32) patch_new (entry_with_value (identity_env ?H 32) (replicate 32 7) ()) = Some p"
      "patch_ok (identity_env ?H 32) p" "patch_map p = [replicate 32 7 \<mapsto> ()]"
    by (rule one_key_patch [of "replicate 32 7" 32]) simp
  obtain q :: "unit patch" where q: "patch_ok (identity_env ?H 16) q" "patch_map q = [replicate 16 9 \<mapsto> ()]"
    by (rule one_key_patch [of "replicate 16 9" 16]) simp
  have len: "patch_len p = 1" "patch_len q = 1" using patch_len_card [OF p(2)] patch_len_card [OF q(1)] p(3) q(2) by simp_all
  have "proposing (patch_value_constraint ?H 3 p) (unary_good 3 (\<lambda>x. inline_bytes x \<in> dom (patch_map p))) (patch_len p)"
    by (rule conjunct1 [OF patch_membership_proposes [of 3 ?H p q]]) (use p(2) q(1) len in \<open>simp_all add: usize_max_def\<close>)
  then show ?thesis using p(1) unfolding len(1) p(3) by (intro exI [of _ p]) simp
qed

text \<open>
  C35. The range constraints over an intact set, for values, entities and attributes: the estimate is the
  number of distinct values of the set in the range (at most \<open>usize::MAX\<close>), \<open>propose\<close> appends each of them once
  for each row and nothing else, \<open>confirm\<close> kills exactly the candidates outside of the range, and \<open>satisfied\<close>
  tests the range.
\<close>

theorem range_constraints_scan:
  assumes "ts_ok H s" "var < 128" "ir_variable r < 128" "ir_set r = s"
  shows "(\<exists>vr. value_range_new H var lo hi s = Some vr
      \<and> index_scan (value_range_constraint H vr) var {x \<in> tr_v ` ts_contents s. lo \<le> x \<and> x \<le> hi} (\<lambda>x. lo \<le> x \<and> x \<le> hi))
    \<and> index_scan (entity_range_constraint H r) (ir_variable r)
      (id_into_value ` {i \<in> tr_e ` ts_contents s. id_bytes (ir_min r) \<le> id_bytes i \<and> id_bytes i \<le> id_bytes (ir_max r)}) (id_in_range r)
    \<and> index_scan (attribute_range_constraint H r) (ir_variable r)
      (id_into_value ` {i \<in> tr_a ` ts_contents s. id_bytes (ir_min r) \<le> id_bytes i \<and> id_bytes i \<le> id_bytes (ir_max r)}) (id_in_range r)"
  using trible_store.value_scan [OF trible_store.intro [OF assms(1)] assms(2)]
    trible_store.entity_scan [OF trible_store.intro [OF assms(1)] assms(3,4)]
    trible_store.attribute_scan [OF trible_store.intro [OF assms(1)] assms(3,4)] by blast

definition one_trible :: "hash_env \<Rightarrow> trible_set" where
  "one_trible H = the (ts_from_iter H [trible_force (id_pad [1]) (id_pad [2]) (inline_pad [3])])"

lemma one_trible_ok: "ts_ok H (one_trible H)" "ts_contents (one_trible H) = {trible_force (id_pad [1]) (id_pad [2]) (inline_pad [3])}"
  using ts_from_iter_ok [of H "[trible_force (id_pad [1]) (id_pad [2]) (inline_pad [3])]"] by (simp_all add: one_trible_def)

theorem range_constraints_scan_witness:
  "\<exists>vr. value_range_new \<lparr>he_rand = id, he_leaf_hash = (\<lambda>_. 0)\<rparr> 4 (inline_pad [2]) (inline_pad [5]) (one_trible \<lparr>he_rand = id, he_leaf_hash = (\<lambda>_. 0)\<rparr>) = Some vr
    \<and> index_scan (value_range_constraint \<lparr>he_rand = id, he_leaf_hash = (\<lambda>_. 0)\<rparr> vr) 4 {inline_pad [3]} (\<lambda>x. inline_pad [2] \<le> x \<and> x \<le> inline_pad [5])"
proof -
  let ?H = "\<lparr>he_rand = id, he_leaf_hash = (\<lambda>_. 0)\<rparr>"
  let ?r = "\<lparr>ir_variable = 0, ir_min = id_pad [0], ir_max = id_pad [9], ir_set = one_trible ?H\<rparr>"
  have "\<exists>vr. value_range_new ?H 4 (inline_pad [2]) (inline_pad [5]) (one_trible ?H) = Some vr
      \<and> index_scan (value_range_constraint ?H vr) 4 {x \<in> tr_v ` ts_contents (one_trible ?H). inline_pad [2] \<le> x \<and> x \<le> inline_pad [5]}
        (\<lambda>x. inline_pad [2] \<le> x \<and> x \<le> inline_pad [5])"
    using range_constraints_scan [OF one_trible_ok(1), of 4 ?r] by simp
  moreover have "inline_pad [2] \<le> inline_pad [3]" "inline_pad [3] \<le> inline_pad [5]" by (simp_all add: less_eq_raw_inline_def)
  then have "{x \<in> tr_v ` ts_contents (one_trible ?H). inline_pad [2] \<le> x \<and> x \<le> inline_pad [5]} = {inline_pad [3]}"
    unfolding one_trible_ok(2) by (auto simp: trible_force_def)
  ultimately show ?thesis by simp
qed

text \<open>
  C36. A range constraint confirms every value of the range but proposes only those that occur in the set.
  So when some value of the range does not occur in the set, there is no meaning for which the constraint keeps
  the contract of the trait: the answers of a query depend on which of its constraints proposes the variable.
\<close>

theorem value_range_no_contract:
  assumes "ts_ok H s" "var < 128" "lo \<le> x" "x \<le> hi" "x \<notin> tr_v ` ts_contents s" "card (ts_contents s) < usize_max"
  shows "\<exists>r. value_range_new H var lo hi s = Some r \<and> (\<forall>good. \<not> lawful (value_range_constraint H r) good)"
proof -
  let ?S = "{x \<in> tr_v ` ts_contents s. lo \<le> x \<and> x \<le> hi}"
  have fin: "finite (ts_contents s)" by (rule ts_len_spec(2) [OF assms(1)])
  have "card ?S \<le> card (tr_v ` ts_contents s)" using fin by (intro card_mono) auto
  also have "\<dots> \<le> card (ts_contents s)" by (rule card_image_le [OF fin])
  finally have "card ?S < usize_max" using assms(6) by simp
  moreover obtain r where r: "value_range_new H var lo hi s = Some r" "index_scan (value_range_constraint H r) var ?S (\<lambda>x. lo \<le> x \<and> x \<le> hi)"
    using trible_store.value_scan [OF trible_store.intro [OF assms(1)] assms(2)] by blast
  ultimately show ?thesis using index_scan.no_contract [OF r(2), of x] assms(3-5) by auto
qed

theorem value_range_no_contract_witness:
  "\<exists>r. value_range_new \<lparr>he_rand = id, he_leaf_hash = (\<lambda>_. 0)\<rparr> 4 (inline_pad [2]) (inline_pad [5]) (one_trible \<lparr>he_rand = id, he_leaf_hash = (\<lambda>_. 0)\<rparr>) = Some r
    \<and> (\<forall>good. \<not> lawful (value_range_constraint \<lparr>he_rand = id, he_leaf_hash = (\<lambda>_. 0)\<rparr> r) good)"
proof (rule value_range_no_contract [OF one_trible_ok(1), of _ _ "inline_pad [4]"])
  let ?H = "\<lparr>he_rand = id, he_leaf_hash = (\<lambda>_. 0)\<rparr>"
  show "inline_pad [2] \<le> inline_pad [4]" "inline_pad [4] \<le> inline_pad [5]" by (simp_all add: less_eq_raw_inline_def)
  have "inline_bytes (inline_pad [4]) ! 0 \<noteq> inline_bytes (inline_pad [3]) ! 0" by simp
  then have "inline_pad [4] \<noteq> inline_pad [3]" by metis
  then show "inline_pad [4] \<notin> tr_v ` ts_contents (one_trible ?H)" unfolding one_trible_ok(2) by (simp add: trible_force_def)
  show "card (ts_contents (one_trible ?H)) < usize_max" unfolding one_trible_ok(2) by (simp add: usize_max_def)
qed simp

end
