(* ===== verification/Patch_Set_Ops.thy ===== *)
theory Patch_Set_Ops
  imports Patch_Contract
begin

text \<open>
  The set operations of PATCH nodes (\<open>patch.rs\<close>): union, intersection, difference and inclusion, in the
  build without the \<open>parallel\<close> feature. The four share one walk over two tries. Equal digests settle a pair of
  nodes without a walk, and so does a byte on which their compressed paths differ; otherwise the node with the
  longer path goes below the child under its next byte, or the two branches are combined child by child.

  \<open>head_union\<close> edits one of the nodes in place while it walks over the children of the other; its recursion is
  bounded by fuel, one unit for each depth. The other three change nothing and recurse on smaller nodes.
\<close>

section \<open>Two nodes\<close>

fun is_archive_singleton_pair :: "'v head \<Rightarrow> 'w head \<Rightarrow> bool" where
  "is_archive_singleton_pair (LocalLeaf _ _ _) (Leaf _ _ _ _) = True"
| "is_archive_singleton_pair (LocalLeaf _ _ _) (LocalLeaf _ _ _) = True"
| "is_archive_singleton_pair (Leaf _ _ _ _) (LocalLeaf _ _ _) = True"
| "is_archive_singleton_pair _ _ = False"

fun is_local_leaf :: "'v head \<Rightarrow> bool" where
  "is_local_leaf (LocalLeaf _ _ _) = True"
| "is_local_leaf _ = False"

fun is_branch :: "'v head \<Rightarrow> bool" where
  "is_branch (Branch _ _ _ _ _ _ _) = True"
| "is_branch _ = False"

definition local_leaf_cardinality_allows_equality :: "'v head \<Rightarrow> 'w head \<Rightarrow> bool" where
  "local_leaf_cardinality_allows_equality this other =
     (if is_local_leaf this then head_count other = 1 else if is_local_leaf other then head_count this = 1 else True)"

definition branch_new_with_child_hashes :: "patch_env \<Rightarrow> u8 \<Rightarrow> nat \<Rightarrow> 'v head \<Rightarrow> 'v head \<Rightarrow> u128 \<Rightarrow> u128 \<Rightarrow> 'v head option" where
  "branch_new_with_child_hashes P byte end_depth lchild rchild lchild_hash rchild_hash = do {
     lseg \<leftarrow> count_segment P lchild end_depth;
     rseg \<leftarrow> count_segment P rchild end_depth;
     Some (Branch byte end_depth (childleaf_key lchild) (head_count lchild + head_count rchild) (lseg + rseg)
       (hash_two_children lchild_hash rchild_hash) [Some lchild, Some rchild])
   }"

section \<open>Union\<close>

text \<open>The step of the three loops and branches of \<open>union\<close> that puts a node below a branch.\<close>

definition union_child :: "patch_env \<Rightarrow> ('v head \<Rightarrow> 'v head \<Rightarrow> nat \<Rightarrow> 'v head option) \<Rightarrow> nat \<Rightarrow> 'v head \<Rightarrow> 'v head \<Rightarrow> 'v head option" where
  "union_child P rec depth this other = do {
     inserted \<leftarrow> with_start P other (head_end_depth P this);
     (_, this') \<leftarrow> modify_child P this (hd_byte inserted) (\<lambda>opt. case opt of
         Some old \<Rightarrow> do { h \<leftarrow> rec old inserted depth; Some ((), Some h) }
       | None \<Rightarrow> Some ((), Some inserted));
     Some this'
   }"

fun head_union :: "nat \<Rightarrow> patch_env \<Rightarrow> 'v head \<Rightarrow> 'v head \<Rightarrow> nat \<Rightarrow> 'v head option" where
  "head_union 0 P this other at_depth = None"
| "head_union (Suc fuel) P this other at_depth =
     (if is_archive_singleton_pair this other then do {
        divergence \<leftarrow> first_divergence P this other at_depth;
        case divergence of
          Some (depth, this_byte_key, other_byte_key) \<Rightarrow>
            branch_new_with_child_hashes P (hd_byte this) depth (with_key this this_byte_key) (with_key other other_byte_key)
              (head_hash P this) (head_hash P other)
        | None \<Rightarrow> Some this
      }
      else if local_leaf_cardinality_allows_equality this other \<and> head_hash P this = head_hash P other then Some this
      else do {
        divergence \<leftarrow> first_divergence P this other at_depth;
        case divergence of
          Some (depth, this_byte_key, other_byte_key) \<Rightarrow>
            branch_new P (hd_byte this) depth (with_key this this_byte_key) (with_key other other_byte_key)
        | None \<Rightarrow>
            (let this_depth = head_end_depth P this; other_depth = head_end_depth P other in
             if this_depth < other_depth then union_child P (\<lambda>a b d. head_union fuel P a b d) this_depth this other
             else if other_depth < this_depth then do {
               other' \<leftarrow> union_child P (\<lambda>a b d. head_union fuel P a b d) other_depth other this;
               Some (with_key other' (hd_byte this))
             }
             else
               (let (this, other) = (if length (head_table other) > length (head_table this) then (other, this) else (this, other)) in
                if \<not> is_branch this \<or> \<not> is_branch other then None
                else for_each (union_child P (\<lambda>a b d. head_union fuel P a b d) this_depth) this (table_entries (head_table other))))
      })"

declare head_union.simps [simp del]

section \<open>Intersection, difference and inclusion\<close>

text \<open>\<open>filter_map\<close> with a body that can panic, over the children of a branch.\<close>

fun filter_map_panic :: "('a \<Rightarrow> 'b option option) \<Rightarrow> 'a list \<Rightarrow> 'b list option" where
  "filter_map_panic f [] = Some []"
| "filter_map_panic f (x # xs) = do {
     r \<leftarrow> f x;
     ys \<leftarrow> filter_map_panic f xs;
     Some (case r of Some y \<Rightarrow> y # ys | None \<Rightarrow> ys)
   }"

lemma filter_map_panic_cong [fundef_cong]:
  "xs = ys \<Longrightarrow> (\<And>x. x \<in> set ys \<Longrightarrow> f x = g x) \<Longrightarrow> filter_map_panic f xs = filter_map_panic g ys"
  by (induction xs arbitrary: ys) auto

text \<open>The branch that intersection and difference build from the children that are left.\<close>

definition install_child :: "patch_env \<Rightarrow> nat \<Rightarrow> 'v head \<Rightarrow> 'v head \<Rightarrow> 'v head option" where
  "install_child P depth br child = do {
     inserted \<leftarrow> with_start P child depth;
     (_, br') \<leftarrow> modify_child P br (hd_byte inserted) (\<lambda>_. Some ((), Some inserted));
     Some br'
   }"

fun rebuild :: "patch_env \<Rightarrow> nat \<Rightarrow> 'v head list \<Rightarrow> 'v head option option" where
  "rebuild P depth [] = Some None"
| "rebuild P depth [first_child] = Some (Some first_child)"
| "rebuild P depth (first_child # second_child # others) = do {
     l \<leftarrow> with_start P first_child depth;
     r \<leftarrow> with_start P second_child depth;
     new_branch \<leftarrow> branch_new P 0 depth l r;
     h \<leftarrow> for_each (install_child P depth) new_branch others;
     Some (Some h)
   }"

lemma entries_size: "c \<in> set (table_entries (head_table h)) \<Longrightarrow> size c < size h"
  using entry_size [of c] by (cases h) (auto simp: table_entries_def map_filter_simps)

function head_intersect :: "patch_env \<Rightarrow> 'v head \<Rightarrow> 'v head \<Rightarrow> nat \<Rightarrow> 'v head option option" where
  "head_intersect P this other at_depth =
     (if is_archive_singleton_pair this other then do {
        divergence \<leftarrow> first_divergence P this other at_depth;
        Some (if divergence = None then Some this else None)
      }
      else if local_leaf_cardinality_allows_equality this other \<and> head_hash P this = head_hash P other then Some (Some this)
      else do {
        divergence \<leftarrow> first_divergence P this other at_depth;
        if divergence \<noteq> None then Some None
        else (let this_depth = head_end_depth P this; other_depth = head_end_depth P other in
          if this_depth < other_depth then
            if \<not> is_branch this then None
            else do {
              b \<leftarrow> tree_byte (pe_schema P) (childleaf_key other) this_depth;
              child \<leftarrow> child_get P this b;
              case child of Some this_child \<Rightarrow> head_intersect P other this_child this_depth | None \<Rightarrow> Some None
            }
          else if other_depth < this_depth then
            if \<not> is_branch other then None
            else do {
              b \<leftarrow> tree_byte (pe_schema P) (childleaf_key this) other_depth;
              child \<leftarrow> child_get P other b;
              case child of Some other_child \<Rightarrow> head_intersect P this other_child other_depth | None \<Rightarrow> Some None
            }
          else if \<not> is_branch this \<or> \<not> is_branch other then None
          else do {
            kept \<leftarrow> filter_map_panic (\<lambda>this_child. do {
                child \<leftarrow> child_get P other (hd_byte this_child);
                case child of Some other_child \<Rightarrow> head_intersect P this_child other_child this_depth | None \<Rightarrow> Some None
              }) (table_entries (head_table this));
            rebuild P this_depth kept
          })
      })"
  by pat_completeness auto
termination
  by (relation "measure (\<lambda>(P, this, other, d). size this + size other)") (auto dest!: child_get_size entries_size)

declare head_intersect.simps [simp del]

function head_difference :: "patch_env \<Rightarrow> 'v head \<Rightarrow> 'w head \<Rightarrow> nat \<Rightarrow> 'v head option option" where
  "head_difference P this other at_depth =
     (if is_archive_singleton_pair this other then do {
        divergence \<leftarrow> first_divergence P this other at_depth;
        Some (if divergence = None then None else Some this)
      }
      else if local_leaf_cardinality_allows_equality this other \<and> head_hash P this = head_hash P other then Some None
      else do {
        divergence \<leftarrow> first_divergence P this other at_depth;
        if divergence \<noteq> None then Some (Some this)
        else (let this_depth = head_end_depth P this; other_depth = head_end_depth P other in
          if this_depth < other_depth then do {
            other_byte_key \<leftarrow> tree_byte (pe_schema P) (childleaf_key other) this_depth;
            (_, new_branch) \<leftarrow> modify_child P this other_byte_key (\<lambda>opt. case opt of
                Some child \<Rightarrow> do { r \<leftarrow> head_difference P child other this_depth; Some ((), r) }
              | None \<Rightarrow> Some ((), None));
            collapse_branch P at_depth new_branch
          }
          else if other_depth < this_depth then
            if \<not> is_branch other then None
            else do {
              this_byte_key \<leftarrow> tree_byte (pe_schema P) (childleaf_key this) other_depth;
              child \<leftarrow> child_get P other this_byte_key;
              case child of Some other_child \<Rightarrow> head_difference P this other_child at_depth | None \<Rightarrow> Some (Some this)
            }
          else if \<not> is_branch this \<or> \<not> is_branch other then None
          else do {
            kept \<leftarrow> filter_map_panic (\<lambda>this_child. do {
                child \<leftarrow> child_get P other (hd_byte this_child);
                case child of Some other_child \<Rightarrow> head_difference P this_child other_child this_depth | None \<Rightarrow> Some (Some this_child)
              }) (table_entries (head_table this));
            rebuild P this_depth kept
          })
      })"
  by pat_completeness auto
termination
  by (relation "measure (\<lambda>(P, this, other, d). size this + size other)") (auto dest!: child_get_size entries_size child_size)

declare head_difference.simps [simp del]

datatype ordering = Less | Equal | Greater

definition meet :: "ordering option \<Rightarrow> ordering option \<Rightarrow> ordering option option" where
  "meet left right = do {
     l \<leftarrow> left;
     r \<leftarrow> right;
     case (l, r) of (Equal, x) \<Rightarrow> Some (Some x) | (x, Equal) \<Rightarrow> Some (Some x)
     | (Less, Less) \<Rightarrow> Some (Some Less) | (Greater, Greater) \<Rightarrow> Some (Some Greater) | _ \<Rightarrow> None
   }"

text \<open>
  The loop \<open>order = meet(order, ..)?\<close> over children, some of which are skipped. The inner \<open>None\<close> is the early
  return of \<open>?\<close>, which says that the sets are incomparable.
\<close>

fun meet_loop :: "('a \<Rightarrow> ordering option option option) \<Rightarrow> ordering option \<Rightarrow> 'a list \<Rightarrow> ordering option option option" where
  "meet_loop f ord [] = Some (Some ord)"
| "meet_loop f ord (x # xs) = do {
     r \<leftarrow> f x;
     case r of
       None \<Rightarrow> meet_loop f ord xs
     | Some c \<Rightarrow> (case meet ord c of None \<Rightarrow> Some None | Some ord' \<Rightarrow> meet_loop f ord' xs)
   }"

lemma meet_loop_cong [fundef_cong]:
  "xs = ys \<Longrightarrow> (\<And>x. x \<in> set ys \<Longrightarrow> f x = g x) \<Longrightarrow> ord = ord' \<Longrightarrow> meet_loop f ord xs = meet_loop g ord' ys"
  by (induction xs arbitrary: ys ord ord') (auto split: option.splits intro!: Option.bind_cong)

function head_inclusion :: "patch_env \<Rightarrow> 'v head \<Rightarrow> 'v head \<Rightarrow> nat \<Rightarrow> ordering option option" where
  "head_inclusion P this other at_depth =
     (if is_archive_singleton_pair this other then do {
        divergence \<leftarrow> first_divergence P this other at_depth;
        Some (if divergence = None then Some Equal else None)
      }
      else if local_leaf_cardinality_allows_equality this other \<and> head_hash P this = head_hash P other then Some (Some Equal)
      else do {
        divergence \<leftarrow> first_divergence P this other at_depth;
        if divergence \<noteq> None then Some None
        else (let this_depth = head_end_depth P this; other_depth = head_end_depth P other in
          if this_depth < other_depth then
            if \<not> is_branch this then None
            else do {
              other_byte_key \<leftarrow> tree_byte (pe_schema P) (childleaf_key other) this_depth;
              child \<leftarrow> child_get P this other_byte_key;
              case child of
                Some this_child \<Rightarrow> do {
                  r \<leftarrow> head_inclusion P this_child other at_depth;
                  Some (if r = Some Equal \<or> r = Some Greater then Some Greater else None)
                }
              | None \<Rightarrow> Some None
            }
          else if other_depth < this_depth then
            if \<not> is_branch other then None
            else do {
              this_byte_key \<leftarrow> tree_byte (pe_schema P) (childleaf_key this) other_depth;
              child \<leftarrow> child_get P other this_byte_key;
              case child of
                Some other_child \<Rightarrow> do {
                  r \<leftarrow> head_inclusion P this other_child at_depth;
                  Some (if r = Some Equal \<or> r = Some Less then Some Less else None)
                }
              | None \<Rightarrow> Some None
            }
          else if \<not> is_branch this \<or> \<not> is_branch other then None
          else do {
            r \<leftarrow> meet_loop (\<lambda>this_child. do {
                child \<leftarrow> child_get P other (hd_byte this_child);
                child_order \<leftarrow> (case child of Some other_child \<Rightarrow> head_inclusion P this_child other_child this_depth | None \<Rightarrow> Some (Some Greater));
                Some (Some child_order)
              }) (Some Equal) (table_entries (head_table this));
            case r of None \<Rightarrow> Some None
            | Some ord \<Rightarrow> do {
                r' \<leftarrow> meet_loop (\<lambda>other_child. do {
                    child \<leftarrow> child_get P this (hd_byte other_child);
                    Some (if child = None then Some (Some Less) else None)
                  }) ord (table_entries (head_table other));
                Some (case r' of None \<Rightarrow> None | Some ord' \<Rightarrow> ord')
              }
          })
      })"
  by pat_completeness auto
termination
  by (relation "measure (\<lambda>(P, this, other, d). size this + size other)") (auto dest!: child_get_size entries_size)

declare head_inclusion.simps [simp del]

end
