(* ===== verification/Patch_Iter.thy ===== *)
theory Patch_Iter
  imports Patch_Set_Ops
begin

text \<open>
  The iterators of \<open>patch.rs\<close>: all keys in the order of the tables (\<open>PATCHIterator\<close>, \<open>PATCHIntoIterator\<close>), all
  keys in tree order (\<open>PATCHOrderedIterator\<close> with its entries, \<open>PATCHIntoOrderedIterator\<close>), and the prefixes of
  one length with the number of keys below each (\<open>PATCHPrefixIterator\<close>, \<open>PATCHIntoPrefixSetIterator\<close>).

  An iterator is its state and a \<open>next\<close> that returns the item and the new state, or panics where a bounded
  \<open>ArrayVec\<close> overflows. A \<open>Vec\<close> that is only used as a stack is held with the end that \<open>pop\<close> takes first; a
  \<open>slice::Iter\<close> is the list of the slots still to come. What a loop over an iterator sees is \<open>drain\<close>.
\<close>

section \<open>Loops over iterators\<close>

partial_function (option) drain :: "('s \<Rightarrow> ('r option \<times> 's) option) \<Rightarrow> 's \<Rightarrow> 'r list option" where
  "drain nxt s = do {
     (r, s') \<leftarrow> nxt s;
     case r of None \<Rightarrow> Some [] | Some x \<Rightarrow> do { xs \<leftarrow> drain nxt s'; Some (x # xs) }
   }"

definition array_push :: "nat \<Rightarrow> 'a list \<Rightarrow> 'a \<Rightarrow> 'a list option" where
  "array_push cap xs x = (if length xs < cap then Some (x # xs) else None)"

definition array_collect :: "nat \<Rightarrow> 'a list \<Rightarrow> 'a list option" where
  "array_collect cap xs = (if length xs \<le> cap then Some xs else None)"

section \<open>Sizes\<close>

definition weight :: "'v head list \<Rightarrow> nat" where
  "weight hs = (\<Sum>h \<leftarrow> hs. Suc (size h))"

lemma weight_simps [simp]: "weight [] = 0" "weight (h # hs) = Suc (size h) + weight hs" "weight (hs @ gs) = weight hs + weight gs"
  by (simp_all add: weight_def)

lemma weight_sort [simp]: "weight (sort_key f hs) = weight hs"
proof -
  have "weight hs = (\<Sum>h \<in># mset hs. Suc (size h))" for hs :: "'a head list" unfolding weight_def by (simp add: sum_mset_sum_list [symmetric])
  then show ?thesis by simp
qed

lemma weight_table: "weight (table_entries t) \<le> size_list (size_option size) t"
proof (induction t)
  case (Cons c t)
  then show ?case by (cases c) (simp_all add: table_entries_def map_filter_simps)
qed (simp add: table_entries_def map_filter_simps)

lemma weight_entries: "is_branch h \<Longrightarrow> weight (table_entries (head_table h)) < size h"
  using weight_table [of "head_table h"] by (cases h) simp_all

section \<open>All keys\<close>

subsection \<open>\<open>PATCHIterator\<close>\<close>

record 'v patch_iterator =
  pi_stack :: "'v head option list list"
  pi_pending_leaf :: "u8 list option"
  pi_remaining :: nat

definition patch_iter :: "patch_env \<Rightarrow> 'v patch \<Rightarrow> 'v patch_iterator option" where
  "patch_iter P p =
     (let r = \<lparr>pi_stack = [], pi_pending_leaf = None, pi_remaining = min (patch_len p) usize_max\<rparr> in
      case pt_root p of
        None \<Rightarrow> Some r
      | Some root \<Rightarrow>
          if is_branch root then do { st \<leftarrow> array_push (key_len P) (pi_stack r) (head_table root); Some (r\<lparr>pi_stack := st\<rparr>) }
          else Some (r\<lparr>pi_pending_leaf := Some (childleaf_key root)\<rparr>))"

function iter_loop :: "patch_env \<Rightarrow> 'v head option list list \<Rightarrow> (u8 list option \<times> 'v head option list list) option" where
  "iter_loop P [] = Some (None, [])"
| "iter_loop P ([] # st) = iter_loop P st"
| "iter_loop P ((None # slots) # st) = iter_loop P (slots # st)"
| "iter_loop P ((Some child # slots) # st) =
     (if is_branch child then do { st' \<leftarrow> array_push (key_len P) (slots # st) (head_table child); iter_loop P st' }
      else Some (Some (childleaf_key child), slots # st))"
  by pat_completeness auto
termination
proof (relation "measure (\<lambda>(P, st). \<Sum>slots \<leftarrow> st. Suc (size_list (size_option size) slots))", goal_cases)
  case (4 P child slots st st')
  then show ?case by (cases child) (auto simp: array_push_def split: if_splits)
qed auto

definition patch_iter_next :: "patch_env \<Rightarrow> 'v patch_iterator \<Rightarrow> (u8 list option \<times> 'v patch_iterator) option" where
  "patch_iter_next P it = (case pi_pending_leaf it of
     Some key \<Rightarrow> Some (Some key, it\<lparr>pi_pending_leaf := None, pi_remaining := pi_remaining it - 1\<rparr>)
   | None \<Rightarrow> do {
       (r, st) \<leftarrow> iter_loop P (pi_stack it);
       Some (r, it\<lparr>pi_stack := st, pi_remaining := (if r = None then pi_remaining it else pi_remaining it - 1)\<rparr>)
     })"

subsection \<open>\<open>PATCHIntoIterator\<close>\<close>

record 'v into_iterator =
  ii_queue :: "'v head list"
  ii_remaining :: nat

definition patch_into_iter :: "'v patch \<Rightarrow> 'v into_iterator" where
  "patch_into_iter p = \<lparr>ii_queue = (case pt_root p of Some root \<Rightarrow> [root] | None \<Rightarrow> []), ii_remaining = min (patch_len p) usize_max\<rparr>"

function into_loop :: "'v head list \<Rightarrow> 'v head option \<times> 'v head list" where
  "into_loop [] = (None, [])"
| "into_loop (h # q) = (if is_branch h then into_loop (table_entries (head_table h) @ q) else (Some h, q))"
  by pat_completeness auto
termination
proof (relation "measure weight", goal_cases)
  case (2 h q)
  then show ?case using weight_entries [of h] by simp
qed simp

definition patch_into_next :: "'v into_iterator \<Rightarrow> (u8 list option \<times> 'v into_iterator) option" where
  "patch_into_next it = (let (r, q) = into_loop (ii_queue it) in
     Some (map_option childleaf_key r, it\<lparr>ii_queue := q, ii_remaining := (if r = None then ii_remaining it else ii_remaining it - 1)\<rparr>))"

section \<open>Keys in tree order\<close>

text \<open>The children of a branch collected into an \<open>ArrayVec\<close> of 256 and sorted by their byte, the least at the end that is popped.\<close>

definition sorted_children :: "'v head \<Rightarrow> 'v head list option" where
  "sorted_children h = (if is_branch h then map_option (sort_key hd_byte) (array_collect 256 (table_entries (head_table h))) else None)"

lemma sorted_children_weight: "sorted_children h = Some cs \<Longrightarrow> weight cs < size h"
  using weight_entries [of h] by (auto simp: sorted_children_def array_collect_def split: if_splits)

subsection \<open>\<open>PATCHOrderedIterator\<close>\<close>

record 'v ordered_iterator =
  oi_stack :: "'v head list list"
  oi_remaining :: nat

definition patch_iter_ordered :: "'v patch \<Rightarrow> 'v ordered_iterator option" where
  "patch_iter_ordered p =
     (let r = \<lparr>oi_stack = [], oi_remaining = min (patch_len p) usize_max\<rparr> in
      case pt_root p of
        None \<Rightarrow> Some r
      | Some root \<Rightarrow>
          if is_branch root then do { level \<leftarrow> sorted_children root; Some (r\<lparr>oi_stack := [level]\<rparr>) }
          else Some (r\<lparr>oi_stack := [[root]]\<rparr>))"

function ordered_loop :: "'v head list list \<Rightarrow> ('v head option \<times> 'v head list list) option" where
  "ordered_loop [] = Some (None, [])"
| "ordered_loop ([] # st) = ordered_loop st"
| "ordered_loop ((child # level) # st) =
     (if is_branch child then do { deeper \<leftarrow> sorted_children child; ordered_loop (deeper # level # st) }
      else Some (Some child, level # st))"
  by pat_completeness auto
termination
proof (relation "measure (\<lambda>st. \<Sum>level \<leftarrow> st. Suc (weight level))", goal_cases)
  case (3 child level st deeper)
  then show ?case using sorted_children_weight [of child deeper] by simp
qed auto

definition next_leaf :: "'v ordered_iterator \<Rightarrow> ('v head option \<times> 'v ordered_iterator) option" where
  "next_leaf it = do {
     (r, st) \<leftarrow> ordered_loop (oi_stack it);
     Some (r, it\<lparr>oi_stack := st, oi_remaining := (if r = None then oi_remaining it else oi_remaining it - 1)\<rparr>)
   }"

definition ordered_next :: "'v ordered_iterator \<Rightarrow> (u8 list option \<times> 'v ordered_iterator) option" where
  "ordered_next it = do { (r, it') \<leftarrow> next_leaf it; Some (map_option childleaf_key r, it') }"

fun leaf_entry :: "'v head \<Rightarrow> (u8 list \<times> 'v) option" where
  "leaf_entry (Leaf _ k _ v) = Some (k, v)"
| "leaf_entry (LocalLeaf _ k v) = Some (k, v)"
| "leaf_entry (Branch _ _ _ _ _ _ _) = None"

definition entries_ordered_next :: "'v ordered_iterator \<Rightarrow> ((u8 list \<times> 'v) option \<times> 'v ordered_iterator) option" where
  "entries_ordered_next it = do {
     (r, it') \<leftarrow> next_leaf it;
     case r of None \<Rightarrow> Some (None, it') | Some h \<Rightarrow> do { kv \<leftarrow> leaf_entry h; Some (Some kv, it') }
   }"

subsection \<open>\<open>PATCHIntoOrderedIterator\<close>\<close>

definition patch_into_iter_ordered :: "'v patch \<Rightarrow> 'v into_iterator" where
  "patch_into_iter_ordered p = \<lparr>ii_queue = (case pt_root p of Some root \<Rightarrow> [root] | None \<Rightarrow> []), ii_remaining = min (patch_len p) usize_max\<rparr>"

function into_ordered_loop :: "'v head list \<Rightarrow> ('v head option \<times> 'v head list) option" where
  "into_ordered_loop [] = Some (None, [])"
| "into_ordered_loop (h # q) =
     (if is_branch h then do { cs \<leftarrow> sorted_children h; into_ordered_loop (cs @ q) }
      else Some (Some h, q))"
  by pat_completeness auto
termination
proof (relation "measure weight", goal_cases)
  case (2 h q cs)
  then show ?case using sorted_children_weight [of h cs] by simp
qed simp

definition next_with :: "(u8 list \<Rightarrow> 'v \<Rightarrow> 'r option) \<Rightarrow> 'v into_iterator \<Rightarrow> ('r option \<times> 'v into_iterator) option" where
  "next_with visit it = do {
     (r, q) \<leftarrow> into_ordered_loop (ii_queue it);
     case r of
       None \<Rightarrow> Some (None, it\<lparr>ii_queue := q\<rparr>)
     | Some h \<Rightarrow> do { (key, v) \<leftarrow> leaf_entry h; x \<leftarrow> visit key v; Some (Some x, it\<lparr>ii_queue := q, ii_remaining := ii_remaining it - 1\<rparr>) }
   }"

definition into_ordered_next :: "'v into_iterator \<Rightarrow> (u8 list option \<times> 'v into_iterator) option" where
  "into_ordered_next = next_with (\<lambda>key _. Some key)"

section \<open>Prefixes\<close>

subsection \<open>\<open>PATCHPrefixIterator\<close>\<close>

definition patch_iter_prefix_count :: "patch_env \<Rightarrow> nat \<Rightarrow> 'v patch \<Rightarrow> 'v head list list option" where
  "patch_iter_prefix_count P n p =
     (if n > key_len P then None
      else case pt_root p of
        None \<Rightarrow> Some []
      | Some root \<Rightarrow> if head_end_depth P root \<ge> n then Some [[root]] else do { level \<leftarrow> sorted_children root; Some [level] })"

function prefix_loop :: "patch_env \<Rightarrow> nat \<Rightarrow> 'v head list list \<Rightarrow> ('v head option \<times> 'v head list list) option" where
  "prefix_loop P n [] = Some (None, [])"
| "prefix_loop P n ([] # st) = prefix_loop P n st"
| "prefix_loop P n ((child # level) # st) =
     (if head_end_depth P child \<ge> n then Some (Some child, level # st)
      else do { deeper \<leftarrow> sorted_children child; prefix_loop P n (deeper # level # st) })"
  by pat_completeness auto
termination
proof (relation "measure (\<lambda>(P, n, st). \<Sum>level \<leftarrow> st. Suc (weight level))", goal_cases)
  case (3 P n child level st deeper)
  then show ?case using sorted_children_weight [of child deeper] by simp
qed auto

definition key_prefix_bytes :: "patch_env \<Rightarrow> nat \<Rightarrow> 'v head \<Rightarrow> u8 list option" where
  "key_prefix_bytes P n h = map_option (take n) (tree_ordered (pe_schema P) (childleaf_key h))"

definition prefix_next :: "patch_env \<Rightarrow> nat \<Rightarrow> 'v head list list \<Rightarrow> ((u8 list \<times> nat) option \<times> 'v head list list) option" where
  "prefix_next P n st = do {
     (r, st') \<leftarrow> prefix_loop P n st;
     case r of None \<Rightarrow> Some (None, st') | Some child \<Rightarrow> do { key \<leftarrow> key_prefix_bytes P n child; Some (Some (key, head_count child), st') }
   }"

subsection \<open>\<open>PATCHIntoPrefixSetIterator\<close>\<close>

text \<open>The length is checked against the segments when the program is compiled.\<close>

definition patch_into_prefixes :: "patch_env \<Rightarrow> nat \<Rightarrow> 'v patch \<Rightarrow> 'v head list option" where
  "patch_into_prefixes P n p = do {
     _ \<leftarrow> (if 0 < n \<and> n \<le> key_len P then Some () else None);
     _ \<leftarrow> (if n < key_len P then do { same \<leftarrow> same_segment_tree (pe_schema P) (n - 1) n; if same then None else Some () } else Some ());
     Some (case pt_root p of Some root \<Rightarrow> [root] | None \<Rightarrow> [])
   }"

function into_prefix_loop :: "patch_env \<Rightarrow> nat \<Rightarrow> 'v head list \<Rightarrow> ('v head option \<times> 'v head list) option" where
  "into_prefix_loop P n [] = Some (None, [])"
| "into_prefix_loop P n (h # q) =
     (if head_end_depth P h \<ge> n then Some (Some h, q)
      else do { cs \<leftarrow> sorted_children h; into_prefix_loop P n (cs @ q) })"
  by pat_completeness auto
termination
proof (relation "measure (\<lambda>(P, n, q). weight q)", goal_cases)
  case (2 P n h q cs)
  then show ?case using sorted_children_weight [of h cs] by simp
qed simp

definition into_prefix_next :: "patch_env \<Rightarrow> nat \<Rightarrow> 'v head list \<Rightarrow> (u8 list option \<times> 'v head list) option" where
  "into_prefix_next P n q = do {
     (r, q') \<leftarrow> into_prefix_loop P n q;
     case r of None \<Rightarrow> Some (None, q') | Some h \<Rightarrow> do { key \<leftarrow> key_prefix_bytes P n h; Some (Some key, q') }
   }"

end
