(* ===== verification/Patch_Walk.thy ===== *)
theory Patch_Walk
  imports Patch_Iter
begin

text \<open>
  What the iterators of a PATCH return. The six loops stop at the same nodes as one walk, \<open>tips\<close>; the lemmas on
  \<open>tips\<close> say which keys lie below those nodes and in which order they come. The contract of an iterator is the
  locale \<open>cursor\<close>, with \<open>sized_cursor\<close> for those that know how many items are left; each iterator is an instance.
\<close>

section \<open>The nodes a walk stops at\<close>

text \<open>
  All six walks visit a node's children from left to right, sorted by byte or as they lie in the table, down to
  the leaves or to the nodes that reach a depth. \<open>tips\<close> lists the nodes they stop at.
\<close>

definition kids :: "bool \<Rightarrow> 'v head \<Rightarrow> 'v head list" where
  "kids srt h = (let cs = table_entries (head_table h) in if srt then sort_key hd_byte cs else cs)"

lemma kids_set [simp]: "set (kids srt h) = set (table_entries (head_table h))"
  by (simp add: kids_def Let_def)

function tips :: "bool \<Rightarrow> ('v head \<Rightarrow> bool) \<Rightarrow> 'v head \<Rightarrow> 'v head list" where
  "tips srt stop h = (if is_branch h \<and> \<not> stop h then concat (map (tips srt stop) (kids srt h)) else [h])"
  by pat_completeness auto
termination
  by (relation "measure (\<lambda>(srt, stop, h). size h)") (auto dest: entries_size)

declare tips.simps [simp del]

abbreviation tips_of :: "bool \<Rightarrow> ('v head \<Rightarrow> bool) \<Rightarrow> 'v head list \<Rightarrow> 'v head list" where
  "tips_of srt stop hs \<equiv> concat (map (tips srt stop) hs)"

abbreviation at_leaf :: "'v head \<Rightarrow> bool" where
  "at_leaf h \<equiv> \<not> is_branch h"

abbreviation at_depth :: "patch_env \<Rightarrow> nat \<Rightarrow> 'v head \<Rightarrow> bool" where
  "at_depth P n h \<equiv> n \<le> head_end_depth P h"

lemma tips_go: "is_branch h \<Longrightarrow> \<not> stop h \<Longrightarrow> tips srt stop h = tips_of srt stop (kids srt h)"
  and tips_stop: "\<not> (is_branch h \<and> \<not> stop h) \<Longrightarrow> tips srt stop h = [h]"
  by (auto simp: tips.simps [of srt stop h])

lemma branch_entries:
  assumes "head_ok P d h" "is_branch h"
  obtains e where "d \<le> e" "e < key_len P" "head_end_depth P h = e" "distinct (map hd_byte (table_entries (head_table h)))"
    "\<And>c. c \<in> set (table_entries (head_table h)) \<Longrightarrow> head_ok P (Suc e) c
      \<and> (\<forall>k \<in> head_keys c. tbyte P k e = hd_byte c \<and> agree P e k (childleaf_key h) \<and> head_map h k = head_map c k)"
    "head_keys h = (\<Union>c \<in> set (table_entries (head_table h)). head_keys c)"
proof (cases h)
  case (Branch b e cl lc sc hs t)
  note ok = assms(1) [unfolded Branch]
  have t: "table_ok (pe_rand P) hd_byte t" using ok by (simp add: head_ok_Branch)
  have dis: "distinct (map hd_byte (table_entries t))" by (rule distinct_entries) (use t in \<open>auto simp: table_ok_def\<close>)
  show thesis
  proof (rule that)
    show "d \<le> e" "e < key_len P" "head_end_depth P h = e" using ok Branch by (auto simp: head_ok_Branch)
    show "distinct (map hd_byte (table_entries (head_table h)))" using dis Branch by simp
    fix c assume "c \<in> set (table_entries (head_table h))"
    then have "c \<in> ran (table_map hd_byte t)" using table_entries_ran [OF t] Branch by simp
    then obtain x where x: "table_map hd_byte t x = Some c" by (auto simp: ran_def)
    then have "hd_byte c = x" using table_map_Some [OF t] by blast
    then show "head_ok P (Suc e) c \<and> (\<forall>k \<in> head_keys c. tbyte P k e = hd_byte c \<and> agree P e k (childleaf_key h) \<and> head_map h k = head_map c k)"
      using ok x child_byte [OF ok x] branch_map [OF ok] Branch by (auto simp: head_ok_Branch)
  next
    show "head_keys h = (\<Union>c \<in> set (table_entries (head_table h)). head_keys c)"
      using branch_keys [OF t] table_entries_ran [OF t] Branch by simp
  qed
qed (use assms in auto)

section \<open>The loops follow the walk\<close>

definition yields :: "'a list \<Rightarrow> 'a option \<Rightarrow> 'a list \<Rightarrow> bool" where
  "yields xs r ys \<longleftrightarrow> (case xs of [] \<Rightarrow> r = None \<and> ys = [] | x # xs' \<Rightarrow> r = Some x \<and> ys = xs')"

lemma yields_simps [simp]: "yields [] r ys \<longleftrightarrow> r = None \<and> ys = []" "yields (x # xs) r ys \<longleftrightarrow> r = Some x \<and> ys = xs"
  by (simp_all add: yields_def)

lemma yields_map: "yields xs r ys \<Longrightarrow> yields (map f xs) (map_option f r) (map f ys)"
  by (cases xs) simp_all

lemma yields_length: "yields xs r ys \<Longrightarrow> length ys = (if r = None then length xs else length xs - 1)"
  by (cases xs) simp_all

definition heads_ok :: "patch_env \<Rightarrow> 'v head list \<Rightarrow> bool" where
  "heads_ok P hs \<longleftrightarrow> (\<forall>h \<in> set hs. head_ok P 0 h)"

lemma heads_ok_simps [simp]: "heads_ok P []" "heads_ok P (h # hs) \<longleftrightarrow> head_ok P 0 h \<and> heads_ok P hs"
  "heads_ok P (hs @ gs) \<longleftrightarrow> heads_ok P hs \<and> heads_ok P gs"
  by (auto simp: heads_ok_def)

lemma sorted_children_ok:
  assumes "head_ok P 0 h" "is_branch h"
  shows "sorted_children h = Some (kids True h)" "heads_ok P (kids srt h)"
proof -
  let ?cs = "table_entries (head_table h)"
  obtain e where e: "distinct (map hd_byte ?cs)" "\<And>c. c \<in> set ?cs \<Longrightarrow> head_ok P (Suc e) c" using branch_entries [OF assms] by metis
  have "length ?cs = card (hd_byte ` set ?cs)" using distinct_card [OF e(1)] by simp
  also have "\<dots> \<le> card (UNIV :: u8 set)" by (rule card_mono) auto
  finally show "sorted_children h = Some (kids True h)" using assms(2) by (simp add: sorted_children_def array_collect_def kids_def card_word Let_def)
  show "heads_ok P (kids srt h)" using e(2) head_ok_mono by (fastforce simp: heads_ok_def)
qed

lemma into_loop_spec: "into_loop q = (r, q') \<Longrightarrow> yields (tips_of False at_leaf q) r (tips_of False at_leaf q')"
  by (induction q rule: into_loop.induct) (auto simp: tips_go tips_stop kids_def Let_def split: if_splits)

lemma into_ordered_loop_spec:
  assumes "heads_ok P q"
  shows "\<exists>r q'. into_ordered_loop q = Some (r, q') \<and> heads_ok P q' \<and> yields (tips_of True at_leaf q) r (tips_of True at_leaf q')"
  using assms
proof (induction q rule: into_ordered_loop.induct)
  case (2 h q)
  then show ?case using sorted_children_ok [of P h] by (cases "is_branch h") (auto simp: tips_go tips_stop)
qed simp

lemma ordered_loop_spec:
  assumes "heads_ok P (concat st)"
  shows "\<exists>r st'. ordered_loop st = Some (r, st') \<and> heads_ok P (concat st')
    \<and> yields (tips_of True at_leaf (concat st)) r (tips_of True at_leaf (concat st'))"
  using assms
proof (induction st rule: ordered_loop.induct)
  case (3 h level st)
  then show ?case using sorted_children_ok [of P h] by (cases "is_branch h") (auto simp: tips_go tips_stop)
qed simp_all

lemma short_is_branch: "head_ok P d h \<Longrightarrow> n \<le> key_len P \<Longrightarrow> \<not> at_depth P n h \<Longrightarrow> is_branch h"
  by (cases h) auto

lemma prefix_loop_spec:
  assumes "heads_ok P (concat st)" "n \<le> key_len P"
  shows "\<exists>r st'. prefix_loop P n st = Some (r, st') \<and> heads_ok P (concat st') 
    \<and> yields (tips_of True (at_depth P n) (concat st)) r (tips_of True (at_depth P n) (concat st'))"
  using assms
proof (induction P n st rule: prefix_loop.induct)
  case (3 P n h level st)
  then show ?case using sorted_children_ok [of P h] short_is_branch [of P 0 h n] by (cases "at_depth P n h") (auto simp: tips_go tips_stop)
qed simp_all

lemma into_prefix_loop_spec:
  assumes "heads_ok P q" "n \<le> key_len P"
  shows "\<exists>r q'. into_prefix_loop P n q = Some (r, q') \<and> heads_ok P q'
    \<and> yields (tips_of True (at_depth P n) q) r (tips_of True (at_depth P n) q')"
  using assms
proof (induction P n q rule: into_prefix_loop.induct)
  case (2 P n h q)
  then show ?case using sorted_children_ok [of P h] short_is_branch [of P 0 h n] by (cases "at_depth P n h") (auto simp: tips_go tips_stop)
qed simp

text \<open>
  The frames of \<open>PATCHIterator\<close>: the nodes of a frame start below the branches of the frames under it, so there
  is room for one more frame whenever a branch is entered.
\<close>

fun slot_stacks_ok :: "patch_env \<Rightarrow> 'v head option list list \<Rightarrow> bool" where
  "slot_stacks_ok P [] = True"
| "slot_stacks_ok P (slots # st) \<longleftrightarrow> (\<forall>c \<in> set (table_entries slots). head_ok P (Suc (length st)) c) \<and> slot_stacks_ok P st"

lemma entries_Cons [simp]: "table_entries (None # slots) = table_entries slots" "table_entries (Some c # slots) = c # table_entries slots"
  "table_entries [] = []"
  by (simp_all add: table_entries_def map_filter_simps)

lemma iter_loop_spec:
  assumes "slot_stacks_ok P st"
  shows "\<exists>r st'. iter_loop P st = Some (r, st') \<and> slot_stacks_ok P st'
    \<and> yields (map childleaf_key (tips_of False at_leaf (concat (map table_entries st)))) r (map childleaf_key (tips_of False at_leaf (concat (map table_entries st'))))"
  using assms
proof (induction P st rule: iter_loop.induct)
  case (4 P h slots st)
  show ?case
  proof (cases "is_branch h")
    case True
    obtain e where e: "Suc (length st) \<le> e" "e < key_len P" "\<And>c. c \<in> set (table_entries (head_table h)) \<Longrightarrow> head_ok P (Suc e) c"
      using branch_entries [of P "Suc (length st)" h] 4(2) True by auto
    have "slot_stacks_ok P (head_table h # slots # st)" using 4(2) e(1,3) head_ok_mono by fastforce
    then show ?thesis using 4(1) [OF True, of "head_table h # slots # st"] e(1,2) True by (simp add: array_push_def tips_go kids_def)
  next
    case False
    then show ?thesis using 4(2) by (simp add: tips_stop)
  qed
qed simp_all

section \<open>What the walk visits\<close>

definition prefix_at :: "patch_env \<Rightarrow> nat \<Rightarrow> u8 list \<Rightarrow> u8 list" where
  "prefix_at P n k = take n (tree_of P k)"

text \<open>The order in which a walk visits bytes and prefixes: ascending, or just without repetition.\<close>

definition before :: "bool \<Rightarrow> 'a::linorder \<Rightarrow> 'a \<Rightarrow> bool" where
  "before srt a b \<longleftrightarrow> (if srt then a < b else a \<noteq> b)"

lemma prefix_before:
  assumes "e < n" "n \<le> key_len P" "agree P e k k'" "before srt (tbyte P k e) (tbyte P k' e)"
  shows "before srt (prefix_at P n k) (prefix_at P n k')"
proof -
  let ?x = "prefix_at P n k" and ?y = "prefix_at P n k'"
  have len: "length ?y = length ?x" "e < length ?y" using assms(1,2) by (simp_all add: prefix_at_def)
  have nth: "?x ! j = tbyte P k j" "?y ! j = tbyte P k' j" if "j < n" for j using that assms(2) by (simp_all add: prefix_at_def)
  have "take e ?x = take e ?y" using len nth assms(1,3) by (intro nth_equalityI) (auto simp: agree_def)
  then show ?thesis using lex_at [OF len] nth [OF assms(1)] assms(4) by (auto simp: before_def not_le [symmetric] split: if_splits)
qed

lemma prefix_agree: "n \<le> key_len P \<Longrightarrow> agree P n k k' \<Longrightarrow> prefix_at P n k = prefix_at P n k'"
  by (rule nth_equalityI) (auto simp: prefix_at_def agree_def)

lemma sorted_wrt_concat_map:
  assumes "sorted_wrt R xs" "\<And>x. x \<in> set xs \<Longrightarrow> sorted_wrt S (f x)" "\<And>x y a b. x \<in> set xs \<Longrightarrow> y \<in> set xs \<Longrightarrow> R x y \<Longrightarrow> a \<in> set (f x) \<Longrightarrow> b \<in> set (f y) \<Longrightarrow> S a b"
  shows "sorted_wrt S (concat (map f xs))"
  using assms
proof (induction xs)
  case (Cons x xs)
  have "sorted_wrt S (concat (map f xs))" by (rule Cons.IH) (use Cons.prems in \<open>simp, simp, meson list.set_intros(2)\<close>)
  moreover have "S a b" if "a \<in> set (f x)" "y \<in> set xs" "b \<in> set (f y)" for a b y
    by (rule Cons.prems(3) [of x y]) (use that Cons.prems(1) in auto)
  ultimately show ?case using Cons.prems(2) by (auto simp: sorted_wrt_append)
qed simp

lemma distinct_sorted_wrt: "distinct xs \<Longrightarrow> sorted_wrt (\<noteq>) xs"
  by (induction xs) auto

lemma kids_before:
  assumes "distinct (map hd_byte (table_entries (head_table h)))"
  shows "sorted_wrt (\<lambda>c c'. before srt (hd_byte c) (hd_byte c')) (kids srt h)"
proof (cases srt)
  case True
  have "distinct (map hd_byte (sort_key hd_byte (table_entries (head_table h))))" using assms by (simp add: distinct_map)
  then have "sorted_wrt (<) (map hd_byte (sort_key hd_byte (table_entries (head_table h))))" by (simp add: strict_sorted_iff)
  then show ?thesis using True by (simp add: sorted_wrt_map before_def kids_def Let_def)
next
  case False
  then show ?thesis using distinct_sorted_wrt [OF assms] by (simp add: before_def kids_def Let_def sorted_wrt_map)
qed

lemma tips_spec:
  assumes ok: "head_ok P d h" and n: "n \<le> key_len P"
  shows "t \<in> set (tips srt (at_depth P n) h) \<Longrightarrow> head_ok P 0 t \<and> at_depth P n t \<and> head_keys t \<subseteq> head_keys h \<and> (\<forall>k \<in> head_keys t. head_map h k = head_map t k)"
    "(\<Union>t \<in> set (tips srt (at_depth P n) h). head_keys t) = head_keys h"
    "sorted_wrt (\<lambda>t t'. before srt (prefix_at P n (childleaf_key t)) (prefix_at P n (childleaf_key t'))) (tips srt (at_depth P n) h)"
proof -
  let ?T = "tips srt (at_depth P n)"
  have "(\<forall>t \<in> set (?T h). head_ok P 0 t \<and> at_depth P n t \<and> head_keys t \<subseteq> head_keys h \<and> (\<forall>k \<in> head_keys t. head_map h k = head_map t k))
      \<and> (\<Union>t \<in> set (?T h). head_keys t) = head_keys h
      \<and> sorted_wrt (\<lambda>t t'. before srt (prefix_at P n (childleaf_key t)) (prefix_at P n (childleaf_key t'))) (?T h)"
    using ok
  proof (induction "size h" arbitrary: h d rule: less_induct)
    case less
    show ?case
    proof (cases "at_depth P n h")
      case True
      then show ?thesis using head_ok_mono [OF less(2), of 0] by (simp add: tips_stop)
    next
      case False
      have br: "is_branch h" by (rule short_is_branch [OF less(2) n False])
      obtain e where e: "e < key_len P" "head_end_depth P h = e" "distinct (map hd_byte (table_entries (head_table h)))"
          "\<And>c. c \<in> set (table_entries (head_table h)) \<Longrightarrow> head_ok P (Suc e) c
            \<and> (\<forall>k \<in> head_keys c. tbyte P k e = hd_byte c \<and> agree P e k (childleaf_key h) \<and> head_map h k = head_map c k)"
          "head_keys h = (\<Union>c \<in> set (table_entries (head_table h)). head_keys c)"
        using branch_entries [OF less(2) br] by metis
      have T: "?T h = tips_of srt (at_depth P n) (kids srt h)" using tips_go [of h "at_depth P n", OF br] False by simp
      note IH = less(1) [OF entries_size]
      have sub: "head_ok P 0 t \<and> at_depth P n t \<and> head_keys t \<subseteq> head_keys c \<and> (\<forall>k \<in> head_keys t. head_map c k = head_map t k)"
        if "c \<in> set (table_entries (head_table h))" "t \<in> set (?T c)" for c t
        using IH [OF that(1)] e(4) [OF that(1)] that(2) by blast
      show ?thesis
      proof (intro conjI ballI)
        fix t assume "t \<in> set (?T h)"
        then obtain c where c: "c \<in> set (table_entries (head_table h))" "t \<in> set (?T c)" unfolding T by auto
        note s = sub [OF c]
        show "head_ok P 0 t" "at_depth P n t" using s by blast+
        show "head_keys t \<subseteq> head_keys h" using s c(1) e(5) by blast
        show "head_map h k = head_map t k" if "k \<in> head_keys t" for k using s that e(4) [OF c(1)] by auto
      next
        have "(\<Union>t \<in> set (?T c). head_keys t) = head_keys c" if "c \<in> set (table_entries (head_table h))" for c
          using IH [OF that] e(4) [OF that] by blast
        then show "(\<Union>t \<in> set (?T h). head_keys t) = head_keys h" unfolding T e(5) by simp
      next
        show "sorted_wrt (\<lambda>t t'. before srt (prefix_at P n (childleaf_key t)) (prefix_at P n (childleaf_key t'))) (?T h)" unfolding T
        proof (rule sorted_wrt_concat_map [OF kids_before [OF e(3)]])
          show "sorted_wrt (\<lambda>t t'. before srt (prefix_at P n (childleaf_key t)) (prefix_at P n (childleaf_key t'))) (?T c)" if "c \<in> set (kids srt h)" for c
            using IH [of c] e(4) [of c] that by auto
          fix c c' t t' assume c: "c \<in> set (kids srt h)" "c' \<in> set (kids srt h)" "before srt (hd_byte c) (hd_byte c')" "t \<in> set (?T c)" "t' \<in> set (?T c')"
          have "childleaf_key t \<in> head_keys c" "childleaf_key t' \<in> head_keys c'"
            using sub [of c t] sub [of c' t'] head_keys_ok(1) [of P 0 t] head_keys_ok(1) [of P 0 t'] c by auto
          then have "agree P e (childleaf_key t) (childleaf_key h)" "agree P e (childleaf_key t') (childleaf_key h)"
              "before srt (tbyte P (childleaf_key t) e) (tbyte P (childleaf_key t') e)"
            using e(4) [of c] e(4) [of c'] c(1-3) by auto
          moreover from this(1,2) have "agree P e (childleaf_key t) (childleaf_key t')" by (blast intro: agree_trans agree_sym)
          ultimately show "before srt (prefix_at P n (childleaf_key t)) (prefix_at P n (childleaf_key t'))"
            using prefix_before [of e n P] False e(2) n by simp
        qed
      qed
    qed
  qed
  then show "t \<in> set (?T h) \<Longrightarrow> head_ok P 0 t \<and> at_depth P n t \<and> head_keys t \<subseteq> head_keys h \<and> (\<forall>k \<in> head_keys t. head_map h k = head_map t k)"
    "(\<Union>t \<in> set (?T h). head_keys t) = head_keys h"
    "sorted_wrt (\<lambda>t t'. before srt (prefix_at P n (childleaf_key t)) (prefix_at P n (childleaf_key t'))) (?T h)"
    by blast+
qed

text \<open>The walk over a whole PATCH.\<close>

definition root_heads :: "'v patch \<Rightarrow> 'v head list" where
  "root_heads p = (case pt_root p of Some root \<Rightarrow> [root] | None \<Rightarrow> [])"

abbreviation patch_tips :: "patch_env \<Rightarrow> bool \<Rightarrow> nat \<Rightarrow> 'v patch \<Rightarrow> 'v head list" where
  "patch_tips P srt n p \<equiv> tips_of srt (at_depth P n) (root_heads p)"

lemma patch_tips_spec:
  assumes ok: "patch_ok P p" and n: "n \<le> key_len P"
  shows "t \<in> set (patch_tips P srt n p) \<Longrightarrow> head_ok P 0 t \<and> at_depth P n t \<and> (\<forall>k \<in> head_keys t. patch_map p k = head_map t k)"
    "(\<Union>t \<in> set (patch_tips P srt n p). head_keys t) = dom (patch_map p)"
    "sorted_wrt (before srt) (map (\<lambda>t. prefix_at P n (childleaf_key t)) (patch_tips P srt n p))"
proof -
  show "t \<in> set (patch_tips P srt n p) \<Longrightarrow> head_ok P 0 t \<and> at_depth P n t \<and> (\<forall>k \<in> head_keys t. patch_map p k = head_map t k)"
    using tips_spec(1) [OF _ n, of 0 "the (pt_root p)" t srt] ok by (auto simp: root_heads_def patch_ok_def patch_map_def split: option.splits)
  show "(\<Union>t \<in> set (patch_tips P srt n p). head_keys t) = dom (patch_map p)"
    using tips_spec(2) [OF _ n, of 0 "the (pt_root p)" srt] ok by (auto simp: root_heads_def patch_ok_def patch_map_def head_keys_def split: option.splits)
  show "sorted_wrt (before srt) (map (\<lambda>t. prefix_at P n (childleaf_key t)) (patch_tips P srt n p))"
    using tips_spec(3) [OF _ n, of 0 "the (pt_root p)" srt] ok by (auto simp: root_heads_def patch_ok_def sorted_wrt_map split: option.splits)
qed

lemma before_distinct: "sorted_wrt (before srt) xs \<Longrightarrow> distinct xs"
  by (induction xs) (auto simp: before_def split: if_splits)

text \<open>Below a node that the walk stops at lie exactly the keys with its prefix.\<close>

lemma patch_tips_below:
  assumes ok: "patch_ok P p" and n: "n \<le> key_len P" and t: "t \<in> set (patch_tips P srt n p)"
  shows "head_keys t = {k \<in> dom (patch_map p). prefix_at P n k = prefix_at P n (childleaf_key t)}"
proof -
  note spec = patch_tips_spec [where srt = srt, OF ok n]
  have pre: "prefix_at P n k = prefix_at P n (childleaf_key u)" if "u \<in> set (patch_tips P srt n p)" "k \<in> head_keys u" for u k
  proof -
    have "agree P (head_end_depth P u) k (childleaf_key u)" using spec(1) [OF that(1)] head_keys_ok(2) that(2) by blast
    then show ?thesis using spec(1) [OF that(1)] by (intro prefix_agree [OF n]) (auto intro: agree_mono)
  qed
  have inj: "inj_on (\<lambda>t. prefix_at P n (childleaf_key t)) (set (patch_tips P srt n p))"
    using before_distinct [OF spec(3)] by (simp only: distinct_map)
  show ?thesis
  proof (intro equalityI subsetI CollectI conjI)
    show "k \<in> dom (patch_map p)" "prefix_at P n k = prefix_at P n (childleaf_key t)" if "k \<in> head_keys t" for k
      using that t spec(2) pre [OF t] by blast+
    fix k assume k: "k \<in> {k \<in> dom (patch_map p). prefix_at P n k = prefix_at P n (childleaf_key t)}"
    then obtain u where u: "u \<in> set (patch_tips P srt n p)" "k \<in> head_keys u" using spec(2) by blast
    then have "u = t" using inj_onD [OF inj _ u(1) t] pre [OF u] k by simp
    with u show "k \<in> head_keys t" by simp
  qed
qed

lemma patch_prefixes:
  assumes ok: "patch_ok P p" and n: "n \<le> key_len P"
  shows "(\<lambda>t. (prefix_at P n (childleaf_key t), head_count t)) ` set (patch_tips P srt n p)
    = (\<lambda>k. (prefix_at P n k, card {k' \<in> dom (patch_map p). prefix_at P n k' = prefix_at P n k})) ` dom (patch_map p)"
proof -
  note spec = patch_tips_spec [where srt = srt, OF ok n] and below = patch_tips_below [where srt = srt, OF ok n]
  have count: "head_count t = card {k' \<in> dom (patch_map p). prefix_at P n k' = prefix_at P n (childleaf_key t)}" if "t \<in> set (patch_tips P srt n p)" for t
    using head_count_card [of P 0 t] spec(1) [OF that] below [OF that] by simp
  show ?thesis
  proof (intro equalityI subsetI)
    fix x assume "x \<in> (\<lambda>t. (prefix_at P n (childleaf_key t), head_count t)) ` set (patch_tips P srt n p)"
    then obtain t where t: "t \<in> set (patch_tips P srt n p)" "x = (prefix_at P n (childleaf_key t), head_count t)" by blast
    have "childleaf_key t \<in> dom (patch_map p)" using spec(1) [OF t(1)] spec(2) head_keys_ok(1) t(1) by blast
    then show "x \<in> (\<lambda>k. (prefix_at P n k, card {k' \<in> dom (patch_map p). prefix_at P n k' = prefix_at P n k})) ` dom (patch_map p)"
      using t(2) count [OF t(1)] by blast
  next
    fix x assume "x \<in> (\<lambda>k. (prefix_at P n k, card {k' \<in> dom (patch_map p). prefix_at P n k' = prefix_at P n k})) ` dom (patch_map p)"
    then obtain k where k: "k \<in> dom (patch_map p)" "x = (prefix_at P n k, card {k' \<in> dom (patch_map p). prefix_at P n k' = prefix_at P n k})" by blast
    then obtain t where t: "t \<in> set (patch_tips P srt n p)" "k \<in> head_keys t" using spec(2) by blast
    then have "prefix_at P n k = prefix_at P n (childleaf_key t)" using below [OF t(1)] by blast
    then show "x \<in> (\<lambda>t. (prefix_at P n (childleaf_key t), head_count t)) ` set (patch_tips P srt n p)"
      using t(1) count [OF t(1)] k(2) by auto
  qed
qed

text \<open>The walk to the leaves is the walk to the full depth.\<close>

lemma tips_leaf: "head_ok P d h \<Longrightarrow> tips srt at_leaf h = tips srt (at_depth P (key_len P)) h"
proof (induction "size h" arbitrary: h d rule: less_induct)
  case less
  show ?case
  proof (cases "is_branch h")
    case True
    obtain e where e: "e < key_len P" "head_end_depth P h = e" "\<And>c. c \<in> set (table_entries (head_table h)) \<Longrightarrow> head_ok P (Suc e) c"
      using branch_entries [OF less(2) True] by metis
    have "tips srt at_leaf c = tips srt (at_depth P (key_len P)) c" if "c \<in> set (kids srt h)" for c
      using less(1) [of c "Suc e"] e(3) entries_size [of c h] that by simp
    then have eq: "tips_of srt at_leaf (kids srt h) = tips_of srt (at_depth P (key_len P)) (kids srt h)" by (intro arg_cong [where f = concat] map_cong) simp_all
    have "tips srt at_leaf h = tips_of srt at_leaf (kids srt h)" using tips_go [of h at_leaf srt] True by simp
    also note eq
    also have "tips_of srt (at_depth P (key_len P)) (kids srt h) = tips srt (at_depth P (key_len P)) h"
      using tips_go [of h "at_depth P (key_len P)" srt] True e(1,2) by simp
    finally show ?thesis .
  next
    case False
    then show ?thesis by (simp add: tips_stop)
  qed
qed

lemma patch_tips_leaf: "patch_ok P p \<Longrightarrow> tips_of srt at_leaf (root_heads p) = patch_tips P srt (key_len P) p"
  using tips_leaf [of P 0 _ srt] by (auto simp: root_heads_def patch_ok_def split: option.splits)

lemma tip_is_leaf:
  assumes "head_ok P d t" "at_depth P (key_len P) t"
  obtains v where "leaf_entry t = Some (childleaf_key t, v)" "head_map t = [childleaf_key t \<mapsto> v]" "head_keys t = {childleaf_key t}" "at_leaf t"
  using assms by (cases t) (auto simp: head_ok_Branch)

lemma patch_leaves:
  fixes P :: patch_env and p :: "'v patch" and srt :: bool
  defines "ks \<equiv> map childleaf_key (patch_tips P srt (key_len P) p)"
  assumes ok: "patch_ok P p"
  shows "distinct ks" "set ks = dom (patch_map p)" "sorted_wrt (before srt) (map (tree_of P) ks)" "length ks = patch_len p"
    "\<And>t. t \<in> set (patch_tips P srt (key_len P) p) \<Longrightarrow> leaf_entry t = Some (childleaf_key t, the (patch_map p (childleaf_key t)))"
proof -
  note spec = patch_tips_spec [where srt = srt, OF ok order_refl]
  have single: "head_keys t = {childleaf_key t}" and entry: "leaf_entry t = Some (childleaf_key t, the (patch_map p (childleaf_key t)))"
    if t: "t \<in> set (patch_tips P srt (key_len P) p)" for t
    using tip_is_leaf [of P 0 t] spec(1) [OF t] by (metis singletonD, metis (no_types, lifting) fun_upd_same option.sel singletonI)
  show "\<And>t. t \<in> set (patch_tips P srt (key_len P) p) \<Longrightarrow> leaf_entry t = Some (childleaf_key t, the (patch_map p (childleaf_key t)))" by (rule entry)
  show sorted: "sorted_wrt (before srt) (map (tree_of P) ks)" using spec(3) by (simp add: ks_def prefix_at_def comp_def)
  show dist: "distinct ks" using before_distinct [OF sorted] by (simp add: distinct_map)
  have "(\<Union>t \<in> set (patch_tips P srt (key_len P) p). head_keys t) = set ks" using single by (auto simp: ks_def)
  then show set: "set ks = dom (patch_map p)" using spec(2) by simp
  show "length ks = patch_len p" using distinct_card [OF dist] set patch_len_card [OF ok] by simp
qed

section \<open>Cursors\<close>

text \<open>The contract of an iterator: \<open>left\<close> is what it still has to return.\<close>

locale cursor =
  fixes nxt :: "'s \<Rightarrow> ('r option \<times> 's) option" and good :: "'s \<Rightarrow> bool" and left :: "'s \<Rightarrow> 'r list"
  assumes step: "good s \<Longrightarrow> \<exists>r s'. nxt s = Some (r, s') \<and> good s' \<and> yields (left s) r (left s')"
begin

lemma drain_left: "good s \<Longrightarrow> drain nxt s = Some (left s)"
proof (induction "left s" arbitrary: s)
  case Nil
  then show ?case using step [of s] by (subst drain.simps) auto
next
  case (Cons x xs)
  obtain s' where s': "nxt s = Some (Some x, s')" "good s'" "left s' = xs" using step [OF Cons(3)] Cons(2) [symmetric] by auto
  then show ?case using Cons(1) [of s'] Cons(2) by (subst drain.simps) simp
qed

text \<open>An iterator over the images of another one's items, where taking the image may panic.\<close>

lemma drain_mapped:
  assumes "\<And>s. nxt' s = do { (r, s') \<leftarrow> nxt s; case r of None \<Rightarrow> Some (None, s') | Some x \<Rightarrow> do { y \<leftarrow> f x; Some (Some y, s') } }"
    and "good s" "\<And>x. x \<in> set (left s) \<Longrightarrow> f x = Some (g x)"
  shows "drain nxt' s = Some (map g (left s))"
  using assms(2,3)
proof (induction "left s" arbitrary: s)
  case Nil
  then show ?case using step [of s] by (subst drain.simps) (auto simp: assms(1))
next
  case (Cons x xs)
  obtain s' where s': "nxt s = Some (Some x, s')" "good s'" "left s' = xs" using step [OF Cons(3)] Cons(2) [symmetric] by auto
  have "f x = Some (g x)" "\<And>y. y \<in> set xs \<Longrightarrow> f y = Some (g y)" using Cons(4) Cons(2) [symmetric] by simp_all
  then show ?case using Cons(1) [of s'] s' Cons(2) [symmetric] by (subst drain.simps) (simp add: assms(1))
qed

lemma fused: "good s \<Longrightarrow> left s = [] \<Longrightarrow> \<exists>s'. nxt s = Some (None, s') \<and> good s' \<and> left s' = []"
  using step [of s] by auto

end

locale sized_cursor = cursor +
  fixes hint :: "'s \<Rightarrow> nat"
  assumes exact: "good s \<Longrightarrow> hint s = length (left s)"
begin

lemma hint_counts_down:
  assumes "good s" "nxt s = Some (Some x, s')"
  shows "hint s = Suc (hint s')"
  using step [OF assms(1)] assms exact [OF assms(1)] exact [of s'] by (cases "left s") auto

end

definition iter_left :: "'v patch_iterator \<Rightarrow> u8 list list" where
  "iter_left it = (case pi_pending_leaf it of Some k \<Rightarrow> [k] | None \<Rightarrow> []) @ map childleaf_key (tips_of False at_leaf (concat (map table_entries (pi_stack it))))"

interpretation keys: sized_cursor "patch_iter_next P" "\<lambda>it. slot_stacks_ok P (pi_stack it) \<and> pi_remaining it = length (iter_left it)" iter_left pi_remaining for P
proof unfold_locales
  fix it :: "'v patch_iterator" assume it: "slot_stacks_ok P (pi_stack it) \<and> pi_remaining it = length (iter_left it)"
  obtain r st where st: "iter_loop P (pi_stack it) = Some (r, st)" "slot_stacks_ok P st"
      "yields (map childleaf_key (tips_of False at_leaf (concat (map table_entries (pi_stack it))))) r (map childleaf_key (tips_of False at_leaf (concat (map table_entries st))))"
    using iter_loop_spec [of P "pi_stack it"] it by auto
  show "\<exists>r it'. patch_iter_next P it = Some (r, it') \<and> (slot_stacks_ok P (pi_stack it') \<and> pi_remaining it' = length (iter_left it')) \<and> yields (iter_left it) r (iter_left it')"
  proof (cases "pi_pending_leaf it")
    case None
    then show ?thesis using st it yields_length [OF st(3)] by (auto simp: patch_iter_next_def iter_left_def)
  next
    case (Some k)
    then show ?thesis using it by (auto simp: patch_iter_next_def iter_left_def)
  qed
qed simp

abbreviation into_left :: "bool \<Rightarrow> 'v into_iterator \<Rightarrow> u8 list list" where
  "into_left srt it \<equiv> map childleaf_key (tips_of srt at_leaf (ii_queue it))"

interpretation owned_keys: sized_cursor patch_into_next "\<lambda>it. ii_remaining it = length (into_left False it)" "into_left False" ii_remaining
proof unfold_locales
  fix it :: "'v into_iterator" assume it: "ii_remaining it = length (into_left False it)"
  obtain r q where q: "into_loop (ii_queue it) = (r, q)" by (cases "into_loop (ii_queue it)")
  note y = into_loop_spec [OF q]
  show "\<exists>r it'. patch_into_next it = Some (r, it') \<and> ii_remaining it' = length (into_left False it') \<and> yields (into_left False it) r (into_left False it')"
    using it q yields_map [OF y] yields_length [OF yields_map [OF y, of childleaf_key]] by (auto simp: patch_into_next_def)
qed simp

abbreviation ordered_left :: "'v ordered_iterator \<Rightarrow> 'v head list" where
  "ordered_left it \<equiv> tips_of True at_leaf (concat (oi_stack it))"

interpretation leaves: sized_cursor next_leaf "\<lambda>it. heads_ok P (concat (oi_stack it)) \<and> oi_remaining it = length (ordered_left it)" ordered_left oi_remaining for P
proof unfold_locales
  fix it :: "'v ordered_iterator" assume it: "heads_ok P (concat (oi_stack it)) \<and> oi_remaining it = length (ordered_left it)"
  obtain r st where st: "ordered_loop (oi_stack it) = Some (r, st)" "heads_ok P (concat st)" "yields (ordered_left it) r (tips_of True at_leaf (concat st))"
    using ordered_loop_spec [of P "oi_stack it"] it by auto
  show "\<exists>r it'. next_leaf it = Some (r, it') \<and> (heads_ok P (concat (oi_stack it')) \<and> oi_remaining it' = length (ordered_left it')) \<and> yields (ordered_left it) r (ordered_left it')"
    using st it yields_length [OF st(3)] by (auto simp: next_leaf_def)
qed simp

text \<open>The leaves that the consuming ordered iterator hands to its callback.\<close>

definition next_owned_leaf :: "'v into_iterator \<Rightarrow> ('v head option \<times> 'v into_iterator) option" where
  "next_owned_leaf it = do {
     (r, q) \<leftarrow> into_ordered_loop (ii_queue it);
     Some (r, it\<lparr>ii_queue := q, ii_remaining := (if r = None then ii_remaining it else ii_remaining it - 1)\<rparr>)
   }"

abbreviation owned_left :: "'v into_iterator \<Rightarrow> 'v head list" where
  "owned_left it \<equiv> tips_of True at_leaf (ii_queue it)"

interpretation owned_leaves: sized_cursor next_owned_leaf "\<lambda>it. heads_ok P (ii_queue it) \<and> ii_remaining it = length (owned_left it)" owned_left ii_remaining for P
proof unfold_locales
  fix it :: "'v into_iterator" assume it: "heads_ok P (ii_queue it) \<and> ii_remaining it = length (owned_left it)"
  obtain r q where q: "into_ordered_loop (ii_queue it) = Some (r, q)" "heads_ok P q" "yields (owned_left it) r (tips_of True at_leaf q)"
    using into_ordered_loop_spec [of P "ii_queue it"] it by auto
  show "\<exists>r it'. next_owned_leaf it = Some (r, it') \<and> (heads_ok P (ii_queue it') \<and> ii_remaining it' = length (owned_left it')) \<and> yields (owned_left it) r (owned_left it')"
    using q it yields_length [OF q(3)] by (auto simp: next_owned_leaf_def)
qed simp

interpretation prefixes: cursor "prefix_loop P n" "\<lambda>st. heads_ok P (concat st) \<and> n \<le> key_len P" "\<lambda>st. tips_of True (at_depth P n) (concat st)" for P n
  using prefix_loop_spec by unfold_locales blast

interpretation owned_prefixes: cursor "into_prefix_loop P n" "\<lambda>q. heads_ok P q \<and> n \<le> key_len P" "tips_of True (at_depth P n)" for P n
  using into_prefix_loop_spec by unfold_locales blast

section \<open>The iterators of a PATCH\<close>

lemma root_ok: "patch_ok P p \<Longrightarrow> heads_ok P (root_heads p)"
  by (auto simp: root_heads_def patch_ok_def split: option.splits)

lemma patch_keys_spec:
  assumes ok: "patch_ok P p" and len: "patch_len p \<le> usize_max"
  defines "ks \<equiv> map childleaf_key (patch_tips P False (key_len P) p)"
  shows "\<exists>it. patch_iter P p = Some it \<and> pi_remaining it = length ks \<and> drain (patch_iter_next P) it = Some ks"
    "drain patch_into_next (patch_into_iter p) = Some ks"
proof -
  note leaf = patch_tips_leaf [OF ok, of False] and count = patch_leaves(4) [OF ok, of False]
  have "\<exists>it. patch_iter P p = Some it \<and> slot_stacks_ok P (pi_stack it) \<and> pi_remaining it = patch_len p \<and> iter_left it = ks"
  proof (cases "pt_root p")
    case None
    then show ?thesis using len by (simp add: patch_iter_def ks_def root_heads_def iter_left_def)
  next
    case (Some root)
    then have r: "head_ok P 0 root" using ok by (simp add: patch_ok_def)
    show ?thesis
    proof (cases "is_branch root")
      case True
      obtain e where e: "e < key_len P" "\<And>c. c \<in> set (table_entries (head_table root)) \<Longrightarrow> head_ok P (Suc e) c" using branch_entries [OF r True] by metis
      then have "slot_stacks_ok P [head_table root]" using head_ok_mono by fastforce
      moreover have "tips_of False at_leaf (table_entries (head_table root)) = patch_tips P False (key_len P) p"
        using leaf tips_go [of root at_leaf False] True Some by (simp add: root_heads_def kids_def)
      ultimately show ?thesis using Some True e(1) len by (simp add: patch_iter_def array_push_def ks_def iter_left_def)
    next
      case False
      then show ?thesis using Some len leaf [symmetric] by (simp add: patch_iter_def ks_def root_heads_def iter_left_def tips_stop)
    qed
  qed
  then show "\<exists>it. patch_iter P p = Some it \<and> pi_remaining it = length ks \<and> drain (patch_iter_next P) it = Some ks"
    using keys.drain_left count by (metis ks_def)
  have "into_left False (patch_into_iter p) = ks" using leaf by (simp add: patch_into_iter_def ks_def root_heads_def)
  then show "drain patch_into_next (patch_into_iter p) = Some ks"
    using owned_keys.drain_left [of "patch_into_iter p"] count len by (simp add: patch_into_iter_def ks_def)
qed

lemma patch_ordered_spec:
  assumes ok: "patch_ok P p" and len: "patch_len p \<le> usize_max"
  defines "ks \<equiv> map childleaf_key (patch_tips P True (key_len P) p)"
  shows "\<exists>it. patch_iter_ordered p = Some it \<and> oi_remaining it = length ks \<and> drain ordered_next it = Some ks
      \<and> drain entries_ordered_next it = Some (map (\<lambda>k. (k, the (patch_map p k))) ks)"
    "drain into_ordered_next (patch_into_iter_ordered p) = Some ks"
proof -
  let ?T = "patch_tips P True (key_len P) p"
  note leaf = patch_tips_leaf [OF ok, of True] and count = patch_leaves(4) [OF ok, of True] and entry = patch_leaves(5) [OF ok, of _ True]
  have "\<exists>it. patch_iter_ordered p = Some it \<and> heads_ok P (concat (oi_stack it)) \<and> oi_remaining it = patch_len p \<and> ordered_left it = ?T"
  proof (cases "pt_root p")
    case None
    then show ?thesis using len by (simp add: patch_iter_ordered_def root_heads_def)
  next
    case (Some root)
    then have r: "head_ok P 0 root" using ok by (simp add: patch_ok_def)
    show ?thesis using sorted_children_ok [OF r] leaf [symmetric] Some r len
      by (cases "is_branch root") (simp_all add: patch_iter_ordered_def root_heads_def tips_go)
  qed
  then obtain it where it: "patch_iter_ordered p = Some it" "heads_ok P (concat (oi_stack it)) \<and> oi_remaining it = length (ordered_left it)"
      "oi_remaining it = patch_len p" "ordered_left it = ?T"
    using count by auto
  have "drain ordered_next it = Some (map childleaf_key (ordered_left it))"
    by (rule leaves.drain_mapped [where f = "\<lambda>h. Some (childleaf_key h)", OF _ it(2)]) (auto simp: ordered_next_def split: option.splits intro!: Option.bind_cong)
  moreover have "drain entries_ordered_next it = Some (map (\<lambda>t. (childleaf_key t, the (patch_map p (childleaf_key t)))) (ordered_left it))"
    by (rule leaves.drain_mapped [where f = leaf_entry, OF _ it(2)]) (use entry it(4) in \<open>auto simp: entries_ordered_next_def\<close>)
  ultimately show "\<exists>it. patch_iter_ordered p = Some it \<and> oi_remaining it = length ks \<and> drain ordered_next it = Some ks
      \<and> drain entries_ordered_next it = Some (map (\<lambda>k. (k, the (patch_map p k))) ks)"
    using it(1,3) count unfolding it(4) by (auto simp: ks_def)
  have q: "ii_queue (patch_into_iter_ordered p) = root_heads p" "ii_remaining (patch_into_iter_ordered p) = patch_len p"
    using len by (simp_all add: patch_into_iter_ordered_def root_heads_def)
  have "drain into_ordered_next (patch_into_iter_ordered p) = Some (map childleaf_key (owned_left (patch_into_iter_ordered p)))"
    by (rule owned_leaves.drain_mapped [where P = P and f = "\<lambda>h. map_option fst (leaf_entry h)"])
      (use q leaf count entry root_ok [OF ok] in \<open>auto simp: into_ordered_next_def next_with_def next_owned_leaf_def map_conv_bind_option comp_def case_prod_beta split: option.splits intro!: Option.bind_cong\<close>)
  then show "drain into_ordered_next (patch_into_iter_ordered p) = Some ks" unfolding q leaf by (simp add: ks_def)
qed

lemma patch_prefix_spec:
  assumes env: "env_ok P" and ok: "patch_ok P p" and n: "n \<le> key_len P"
  defines "xs \<equiv> map (\<lambda>t. (prefix_at P n (childleaf_key t), head_count t)) (patch_tips P True n p)"
  shows "\<exists>st. patch_iter_prefix_count P n p = Some st \<and> drain (prefix_next P n) st = Some xs"
    "0 < n \<Longrightarrow> n = key_len P \<or> seg_of P (n - 1) \<noteq> seg_of P n \<Longrightarrow> \<exists>q. patch_into_prefixes P n p = Some q \<and> drain (into_prefix_next P n) q = Some (map fst xs)"
proof -
  let ?T = "patch_tips P True n p"
  have key: "key_prefix_bytes P n t = Some (prefix_at P n (childleaf_key t))" if "t \<in> set ?T" for t
    using tree_of_ordered [OF env, of "childleaf_key t"] childleaf_length [of P 0 t] patch_tips_spec(1) [OF ok n that]
    by (simp add: key_prefix_bytes_def prefix_at_def)
  have "\<exists>st. patch_iter_prefix_count P n p = Some st \<and> heads_ok P (concat st) \<and> tips_of True (at_depth P n) (concat st) = ?T"
  proof (cases "pt_root p")
    case None
    then show ?thesis using n by (simp add: patch_iter_prefix_count_def root_heads_def)
  next
    case (Some root)
    then have r: "head_ok P 0 root" using ok by (simp add: patch_ok_def)
    show ?thesis
    proof (cases "at_depth P n root")
      case False
      then show ?thesis using Some n sorted_children_ok [OF r short_is_branch [OF r n False]] short_is_branch [OF r n False]
        by (simp add: patch_iter_prefix_count_def root_heads_def tips_go)
    qed (use Some r n in \<open>simp add: patch_iter_prefix_count_def root_heads_def\<close>)
  qed
  then obtain st where st: "patch_iter_prefix_count P n p = Some st" "heads_ok P (concat st) \<and> n \<le> key_len P" "tips_of True (at_depth P n) (concat st) = ?T"
    using n by blast
  have "drain (prefix_next P n) st = Some (map (\<lambda>t. (prefix_at P n (childleaf_key t), head_count t)) (tips_of True (at_depth P n) (concat st)))"
    by (rule prefixes.drain_mapped [where f = "\<lambda>t. map_option (\<lambda>k. (k, head_count t)) (key_prefix_bytes P n t)", OF _ st(2)])
      (use key st(3) in \<open>auto simp: prefix_next_def map_conv_bind_option comp_def split: option.splits intro!: Option.bind_cong\<close>)
  then show "\<exists>st. patch_iter_prefix_count P n p = Some st \<and> drain (prefix_next P n) st = Some xs" using st(1) unfolding st(3) xs_def by blast
  assume n0: "0 < n" "n = key_len P \<or> seg_of P (n - 1) \<noteq> seg_of P n"
  have q: "patch_into_prefixes P n p = Some (root_heads p)"
  proof (cases "n = key_len P")
    case False
    then have "same_segment_tree (pe_schema P) (n - 1) n = Some False" using same_segment_in [OF env, of "n - 1" n] n n0 by simp
    then show ?thesis using n n0(1) by (simp add: patch_into_prefixes_def root_heads_def)
  qed (use n0(1) in \<open>simp add: patch_into_prefixes_def root_heads_def\<close>)
  have "drain (into_prefix_next P n) (root_heads p) = Some (map (\<lambda>t. prefix_at P n (childleaf_key t)) ?T)"
    by (rule owned_prefixes.drain_mapped [where f = "key_prefix_bytes P n"]) (use key root_ok [OF ok] n in \<open>auto simp: into_prefix_next_def\<close>)
  then show "\<exists>q. patch_into_prefixes P n p = Some q \<and> drain (into_prefix_next P n) q = Some (map fst xs)" using q by (simp add: xs_def comp_def)
qed

section \<open>Properties\<close>


text \<open>A PATCH of two keys whose order in the tree is not the order of their bytes.\<close>

lemma crossed_patch:
  obtains p where "foldl (\<lambda>p k. p \<bind> (\<lambda>p. patch_insert swapped_env p (entry_with_value swapped_env k ()))) (Some patch_new) [[1, 2], [3, 1]] = Some p"
    "patch_ok swapped_env p" "patch_map p = [[1, 2] \<mapsto> (), [3, 1] \<mapsto> ()]"
proof -
  obtain p where p: "patch_insert swapped_env patch_new (entry_with_value swapped_env [1, 2] ()) = Some p" "patch_ok swapped_env p" "patch_map p = [[1, 2] \<mapsto> ()]"
    by (rule swapped_patch)
  obtain q where q: "patch_insert swapped_env p (entry_with_value swapped_env [3, 1] ()) = Some q" "patch_ok swapped_env q" "patch_map q = [[1, 2] \<mapsto> (), [3, 1] \<mapsto> ()]"
    using patch_step_spec [OF swapped_env_ok(2) p(2), of "Insert [3, 1] ()"] p(3) by (auto simp: patch_step_def swapped_env_ok)
  show thesis by (rule that [OF _ q(2,3)]) (simp add: p(1) q(1))
qed

lemma crossed_trees: "tree_of swapped_env [1, 2] = [2, 1]" "tree_of swapped_env [3, 1] = [1, 3]"
  by (simp_all add: tree_of_def tbyte_def swapped_env_def numeral_2_eq_2)


text \<open>
  C22. The prefix iterators return every prefix of the given length that a key of an intact PATCH has, once each
  and in ascending order; with it comes the number of keys that have it. The consuming iterator refuses a length
  that does not end a segment and returns the same prefixes otherwise.
\<close>

theorem patch_prefixes_enumerate:
  assumes "env_ok P" "patch_ok P p" "n \<le> key_len P"
  shows "\<exists>st xs. patch_iter_prefix_count P n p = Some st \<and> drain (prefix_next P n) st = Some xs \<and> sorted_wrt (<) (map fst xs)
    \<and> set xs = (\<lambda>k. (take n (tree_of P k), card {k' \<in> dom (patch_map p). take n (tree_of P k') = take n (tree_of P k)})) ` dom (patch_map p)
    \<and> (if 0 < n \<and> (n = key_len P \<or> seg_of P (n - 1) \<noteq> seg_of P n)
       then (\<exists>q. patch_into_prefixes P n p = Some q \<and> drain (into_prefix_next P n) q = Some (map fst xs)) else patch_into_prefixes P n p = None)"
proof -
  let ?xs = "map (\<lambda>t. (prefix_at P n (childleaf_key t), head_count t)) (patch_tips P True n p)"
  note spec = patch_prefix_spec [OF assms]
  have "sorted_wrt (<) (map fst ?xs)" using patch_tips_spec(3) [OF assms(2,3), of True] by (simp add: sorted_wrt_map before_def comp_def)
  moreover have "set ?xs = (\<lambda>k. (take n (tree_of P k), card {k' \<in> dom (patch_map p). take n (tree_of P k') = take n (tree_of P k)})) ` dom (patch_map p)"
    using patch_prefixes [OF assms(2,3), of True] by (simp add: prefix_at_def)
  moreover have "patch_into_prefixes P n p = None" if "\<not> (0 < n \<and> (n = key_len P \<or> seg_of P (n - 1) \<noteq> seg_of P n))"
    using that same_segment_in [OF assms(1), of "n - 1" n] assms(3) by (cases "n = 0") (auto simp: patch_into_prefixes_def)
  moreover obtain st where "patch_iter_prefix_count P n p = Some st" "drain (prefix_next P n) st = Some ?xs" using spec(1) by blast
  ultimately show ?thesis using spec(2) by (intro exI [of _ st] exI [of _ ?xs]) (simp only: split: if_split, blast)
qed

theorem patch_prefixes_enumerate_witness:
  "\<exists>p st xs. foldl (\<lambda>p k. p \<bind> (\<lambda>p. patch_insert swapped_env p (entry_with_value swapped_env k ()))) (Some patch_new) [[1, 2], [3, 1]] = Some p
    \<and> patch_iter_prefix_count swapped_env 1 p = Some st \<and> drain (prefix_next swapped_env 1) st = Some xs \<and> fst ` set xs = {[1], [2]}"
proof -
  obtain p where p: "foldl (\<lambda>p k. p \<bind> (\<lambda>p. patch_insert swapped_env p (entry_with_value swapped_env k ()))) (Some patch_new) [[1, 2], [3, 1]] = Some p"
      "patch_ok swapped_env p" "patch_map p = [[1, 2] \<mapsto> (), [3, 1] \<mapsto> ()]"
    by (rule crossed_patch)
  have "1 \<le> key_len swapped_env" by (simp add: swapped_env_ok)
  from patch_prefixes_enumerate [OF swapped_env_ok(2) p(2) this]
  obtain st xs where x: "patch_iter_prefix_count swapped_env 1 p = Some st" "drain (prefix_next swapped_env 1) st = Some xs"
      "set xs = (\<lambda>k. (take 1 (tree_of swapped_env k), card {k' \<in> dom (patch_map p). take 1 (tree_of swapped_env k') = take 1 (tree_of swapped_env k)})) ` dom (patch_map p)"
    by blast
  have "fst ` set xs = {[1], [2]}" unfolding x(3) by (auto simp: image_image p(3) crossed_trees)
  then show ?thesis using p(1) x(1,2) by blast
qed

end
