(* ===== verification/Patch_Union.thy ===== *)
theory Patch_Union
  imports Patch_Set_Ops
begin

text \<open>
  The walk over two PATCH nodes that their set operations share, and what union does with it: the result has the
  keys of both, and the value of a key comes from one of them. The case rule \<open>walk_cases\<close> lists the ways the
  walk goes; the operations rely on digests that tell key sets apart, which is the predicate \<open>no_collision\<close>.
\<close>

abbreviation byte_at :: "patch_env \<Rightarrow> nat \<Rightarrow> 'v head \<Rightarrow> u8" where
  "byte_at P e c \<equiv> tbyte P (childleaf_key c) e"

section \<open>Digests that tell key sets apart\<close>

text \<open>
  Two nodes with equal digests are taken to hold the same keys. The digest is the exclusive or of keyed 128-bit
  hashes, so this is so except with negligible probability. What the operations rely on is that the keys of one
  PATCH below a prefix and the keys of another below a prefix have the same digest only if they are the same.
\<close>

definition no_collision :: "patch_env \<Rightarrow> u8 list set \<Rightarrow> u8 list set \<Rightarrow> bool" where
  "no_collision P K L \<longleftrightarrow> (\<forall>k \<in> K. \<forall>l \<in> L. \<forall>m n.
     xor128.F (pe_leaf_hash P) {x \<in> K. agree P m x k} = xor128.F (pe_leaf_hash P) {x \<in> L. agree P n x l} \<longrightarrow>
     {x \<in> K. agree P m x k} = {x \<in> L. agree P n x l})"

lemma no_collisionD:
  "no_collision P K L \<Longrightarrow> k \<in> K \<Longrightarrow> l \<in> L \<Longrightarrow>
     xor128.F (pe_leaf_hash P) {x \<in> K. agree P m x k} = xor128.F (pe_leaf_hash P) {x \<in> L. agree P n x l} \<Longrightarrow>
     {x \<in> K. agree P m x k} = {x \<in> L. agree P n x l}"
  unfolding no_collision_def by simp

lemma no_collision_sym:
  assumes "no_collision P K L"
  shows "no_collision P L K"
  unfolding no_collision_def by (intro ballI allI impI, rule sym, rule no_collisionD [OF assms]) (assumption | erule sym)+

lemma no_collision_below:
  assumes "no_collision P K L"
  shows "no_collision P {x \<in> K. agree P m x k} L"
  unfolding no_collision_def
proof (intro ballI allI impI)
  fix k' l m' n assume k': "k' \<in> {x \<in> K. agree P m x k}" and l: "l \<in> L"
    and F: "xor128.F (pe_leaf_hash P) {x \<in> {x \<in> K. agree P m x k}. agree P m' x k'} = xor128.F (pe_leaf_hash P) {x \<in> L. agree P n x l}"
  have "agree P m x k \<and> agree P m' x k' \<longleftrightarrow> agree P (max m m') x k'" for x
    using k' by (auto simp: agree_def less_max_iff_disj)
  then have eq: "{x \<in> {x \<in> K. agree P m x k}. agree P m' x k'} = {x \<in> K. agree P (max m m') x k'}" by simp
  show "{x \<in> {x \<in> K. agree P m x k}. agree P m' x k'} = {x \<in> L. agree P n x l}"
    unfolding eq by (rule no_collisionD [OF assms _ l F [unfolded eq]]) (use k' in simp)
qed

lemma equal_digests:
  assumes "head_ok P d a" "head_ok P d b" "no_collision P (head_keys a) (head_keys b)" "head_hash P a = head_hash P b"
  shows "head_keys a = head_keys b"
proof -
  have all: "{x \<in> K. agree P 0 x k} = K" for K k by (simp add: agree_def)
  show ?thesis
    using no_collisionD [OF assms(3) head_keys_ok(1) [OF assms(1)] head_keys_ok(1) [OF assms(2)], of 0 0] assms(4)
    unfolding all head_hash_keys [OF assms(1)] head_hash_keys [OF assms(2)] by simp
qed

section \<open>The walk over two nodes\<close>

lemma child_map:
  assumes "head_ok P d (Branch b e cl lc sc h t)" "table_map hd_byte t k = Some c"
  shows "head_map c x = (if tbyte P x e = k then head_map (Branch b e cl lc sc h t) x else None)"
  using branch_map [OF assms(1), of x] not_in_child [OF assms, of x] assms(2) by auto

lemma child_keys:
  assumes ok: "head_ok P d (Branch b e cl lc sc h t)" and c: "table_map hd_byte t k = Some c"
  shows "head_keys c = {x \<in> head_keys (Branch b e cl lc sc h t). agree P (Suc e) x (childleaf_key c)}"
proof -
  have c': "tbyte P (childleaf_key c) e = k" "agree P e (childleaf_key c) cl" using ok c by (auto simp: head_ok_Branch)
  have "agree P (Suc e) x (childleaf_key c) \<longleftrightarrow> tbyte P x e = k" if "x \<in> head_keys (Branch b e cl lc sc h t)" for x
    using head_keys_ok(2) [OF ok that] c' by (auto simp: agree_Suc intro: agree_trans agree_sym)
  moreover have "x \<in> head_keys c \<longleftrightarrow> x \<in> head_keys (Branch b e cl lc sc h t) \<and> tbyte P x e = k" for x
    using child_map [OF ok c, of x] by (auto simp: head_keys_def domIff)
  ultimately show ?thesis by blast
qed

lemma no_collision_child:
  assumes "head_ok P d (Branch b e cl lc sc h t)" "table_map hd_byte t k = Some c" "no_collision P (head_keys (Branch b e cl lc sc h t)) L"
  shows "no_collision P (head_keys c) L"
  unfolding child_keys [OF assms(1,2)] by (rule no_collision_below [OF assms(3)])

text \<open>Where a node ends below a branch, all its keys go to one child.\<close>

lemma below_child:
  assumes "head_ok P d' o'" "e < head_end_depth P o'" "head_map o' x = Some v"
  shows "tbyte P x e = tbyte P (childleaf_key o') e"
  using head_keys_ok(2) [OF assms(1), of x] assms(2,3) by (auto simp: head_keys_def agree_def)

text \<open>The cases that the four operations go through, in their order.\<close>

definition settled :: "patch_env \<Rightarrow> 'v head \<Rightarrow> 'w head \<Rightarrow> bool" where
  "settled P a b \<longleftrightarrow> local_leaf_cardinality_allows_equality a b \<and> head_hash P a = head_hash P b"

lemma walk_cases:
  fixes a :: "'v head" and b :: "'w head"
  assumes env: "env_ok P" and ok: "head_ok P d a" "head_ok P d b" and agr: "agree P d (childleaf_key a) (childleaf_key b)" and s: "s \<le> d"
    and nc: "no_collision P (head_keys a) (head_keys b)"
  obtains (pair) "is_archive_singleton_pair a b" "first_divergence P a b s = Some None" "head_keys a = head_keys b"
    | (same) "\<not> is_archive_singleton_pair a b" "settled P a b" "head_keys a = head_keys b"
    | (part) dep where "first_divergence P a b s = Some (Some (dep, tbyte P (childleaf_key a) dep, tbyte P (childleaf_key b) dep))"
        "\<not> settled P a b \<or> is_archive_singleton_pair a b"
        "d \<le> dep" "dep < head_end_depth P a" "dep < head_end_depth P b" "agree P dep (childleaf_key a) (childleaf_key b)"
        "tbyte P (childleaf_key a) dep \<noteq> tbyte P (childleaf_key b) dep"
    | (left) y e cl lc sc h t where "\<not> is_archive_singleton_pair a b" "\<not> settled P a b" "first_divergence P a b s = Some None"
        "a = Branch y e cl lc sc h t" "d \<le> e" "e < head_end_depth P b" "e < key_len P" "agree P e cl (childleaf_key b)"
    | (right) y e cl lc sc h t where "\<not> is_archive_singleton_pair a b" "\<not> settled P a b" "first_divergence P a b s = Some None"
        "b = Branch y e cl lc sc h t" "d \<le> e" "e < head_end_depth P a" "e < key_len P" "agree P e (childleaf_key a) cl"
    | (both) y e cl lc sc h t y' cl' lc' sc' h' t' where "\<not> is_archive_singleton_pair a b" "\<not> settled P a b" "first_divergence P a b s = Some None"
        "a = Branch y e cl lc sc h t" "b = Branch y' e cl' lc' sc' h' t'" "d \<le> e" "e < key_len P" "agree P e cl cl'"
proof -
  have "agree P s (childleaf_key a) (childleaf_key b)" using agr s agree_mono by blast
  note div = env ok this
  have dep: "d \<le> dep" if "tbyte P (childleaf_key a) dep \<noteq> tbyte P (childleaf_key b) dep" for dep
    using agr that unfolding agree_def by (metis not_le)
  note lens = childleaf_length [OF ok(1)] childleaf_length [OF ok(2)]
  consider "is_archive_singleton_pair a b" | "\<not> is_archive_singleton_pair a b" "settled P a b" | "\<not> is_archive_singleton_pair a b" "\<not> settled P a b" by blast
  then show thesis
  proof cases
    case 1
    then have ends: "head_end_depth P a = key_len P" "head_end_depth P b = key_len P" "head_keys a = {childleaf_key a}" "head_keys b = {childleaf_key b}"
      by (cases a; cases b; simp)+
    from div show thesis
    proof (cases rule: first_divergence_cases)
      case same
      then have "childleaf_key a = childleaf_key b" using agree_full [OF env lens] ends by simp
      then show thesis using pair 1 same(1) ends by simp
    next
      case (part dep)
      then show thesis using that(3) [of dep] dep [of dep] 1 by simp
    qed
  next
    case 2
    then show thesis using same equal_digests [OF ok nc] by (simp add: settled_def)
  next
    case 3
    from div show thesis
    proof (cases rule: first_divergence_cases)
      case (part dep)
      then show thesis using that(3) [of dep] dep [of dep] 3 by simp
    next
      case same
      consider (lt) "head_end_depth P a < head_end_depth P b" | (gt) "head_end_depth P b < head_end_depth P a" | (eq) "head_end_depth P a = head_end_depth P b" by linarith
      then show thesis
      proof cases
        case lt
        then obtain y e cl lc sc h t where a: "a = Branch y e cl lc sc h t" using head_ok_end [OF ok(2)] by (cases a) auto
        show thesis using left [OF 3 same(1) a] lt same(2) ok(1) unfolding a by (simp add: head_ok_Branch)
      next
        case gt
        then obtain y e cl lc sc h t where b: "b = Branch y e cl lc sc h t" using head_ok_end [OF ok(1)] by (cases b) auto
        show thesis using right [OF 3 same(1) b] gt same(2) ok(2) unfolding b by (simp add: head_ok_Branch)
      next
        case eq
        show thesis
        proof (cases "head_end_depth P a = key_len P")
          case True
          then have "childleaf_key a = childleaf_key b" using agree_full [OF env lens] same(2) eq by simp
          then have False using 3 ok True eq
            by (cases a; cases b) (auto simp: settled_def local_leaf_cardinality_allows_equality_def head_ok_Branch)
          then show thesis ..
        next
          case False
          obtain y e cl lc sc h t where a: "a = Branch y e cl lc sc h t" using False by (cases a) auto
          obtain y' e' cl' lc' sc' h' t' where b: "b = Branch y' e' cl' lc' sc' h' t'" using False eq by (cases b) auto
          have "e' = e" using eq a b by simp
          then show thesis using both [OF 3 same(1) a] b same(2) ok(1) unfolding a by (simp add: head_ok_Branch)
        qed
      qed
    qed
  qed
qed

section \<open>Union\<close>

text \<open>A map with the keys of two, whose values come from one of them.\<close>

definition merged :: "'v option \<Rightarrow> 'v option \<Rightarrow> 'v option \<Rightarrow> bool" where
  "merged r a b \<longleftrightarrow> (r = a \<or> r = b) \<and> (r = None \<longrightarrow> a = None \<and> b = None)"

definition merges :: "('k \<rightharpoonup> 'v) \<Rightarrow> ('k \<rightharpoonup> 'v) \<Rightarrow> ('k \<rightharpoonup> 'v) \<Rightarrow> bool" where
  "merges m a b \<longleftrightarrow> (\<forall>x. merged (m x) (a x) (b x))"

lemma merges_sym: "merges m a b \<Longrightarrow> merges m b a"
  by (auto simp: merges_def merged_def)

lemma merges_dom: "merges m a b \<Longrightarrow> dom m = dom a \<union> dom b"
  unfolding merges_def merged_def dom_def by (auto, metis+)

lemma merges_same: "dom a = dom b \<Longrightarrow> merges a a b"
  unfolding merges_def merged_def by (metis domIff)

text \<open>Two nodes that part become the children of a new branch.\<close>

lemma branch_hashes_eq: "branch_new_with_child_hashes P y e l r (head_hash P l) rh = branch_new_with_rchild_hash P y e l r rh"
  by (simp add: branch_new_with_child_hashes_def branch_new_with_rchild_hash_def)

lemma union_parted:
  assumes env: "env_ok P" and ok: "head_ok P d a" "head_ok P d b"
    and dep: "d \<le> dep" "dep < head_end_depth P a" "dep < head_end_depth P b" "agree P dep (childleaf_key a) (childleaf_key b)"
    and ne: "tbyte P (childleaf_key a) dep \<noteq> tbyte P (childleaf_key b) dep"
  shows "\<exists>h. branch_new_with_rchild_hash P (hd_byte a) dep (with_key a (tbyte P (childleaf_key a) dep)) (with_key b (tbyte P (childleaf_key b) dep)) (head_hash P b) = Some h
    \<and> head_ok P d h \<and> merges (head_map h) (head_map a) (head_map b)"
proof -
  let ?a = "with_key a (tbyte P (childleaf_key a) dep)" and ?b = "with_key b (tbyte P (childleaf_key b) dep)"
  have e: "dep < key_len P" using dep(2) head_ok_end [OF ok(1)] by simp
  have oks: "head_ok P (Suc dep) ?a" "head_ok P (Suc dep) ?b" using head_ok_raise [OF ok(1)] head_ok_raise [OF ok(2)] dep by simp_all
  obtain h where h: "branch_new_with_rchild_hash P (hd_byte a) dep ?a ?b (head_hash P b) = Some h" "head_ok P d h"
      "\<And>x. head_map h x = (if tbyte P x dep = hd_byte ?b then head_map ?b x else if tbyte P x dep = hd_byte ?a then head_map ?a x else None)"
    using branch_of_two [OF env oks dep(1) e, of "head_hash P b" "hd_byte a"] dep(4) ne by auto
  have "head_map a x = None" if "tbyte P x dep \<noteq> tbyte P (childleaf_key a) dep" for x using parted_not_below [OF ok(1) dep(2) that] .
  moreover have "head_map b x = None" if "tbyte P x dep \<noteq> tbyte P (childleaf_key b) dep" for x using parted_not_below [OF ok(2) dep(3) that] .
  ultimately have "merges (head_map h) (head_map a) (head_map b)" using ne by (auto simp: merges_def merged_def h(3))
  then show ?thesis using h(1,2) by blast
qed

lemma with_start_in:
  assumes "env_ok P" "head_ok P d c" "e < key_len P"
  shows "with_start P c e = Some (with_key c (tbyte P (childleaf_key c) e))"
  using tree_byte_in [OF assms(1) childleaf_length [OF assms(2)] assms(3)] by (simp add: with_start_def)

text \<open>A node is merged into the child under its byte.\<close>

lemma union_child_spec:
  fixes this :: "'v head"
  assumes env: "env_ok P" and ok: "head_ok P d this" and tb: "is_branch this" "head_end_depth P this = e"
    and c: "head_ok P (Suc e) c" "agree P e (childleaf_key c) (childleaf_key this)"
    and rec: "\<And>old ins. head_ok P (Suc e) old \<Longrightarrow> head_ok P (Suc e) ins \<Longrightarrow> agree P (Suc e) (childleaf_key old) (childleaf_key ins) \<Longrightarrow>
      head_map ins = head_map c \<Longrightarrow> head_keys old = {x \<in> head_keys this. agree P (Suc e) x (childleaf_key c)} \<Longrightarrow>
      \<exists>h. rec old ins depth = Some h \<and> head_ok P (Suc e) h \<and> merges (head_map h) (head_map old) (head_map ins)"
  shows "\<exists>h. union_child P rec depth this c = Some h \<and> head_ok P d h \<and> is_branch h \<and> head_end_depth P h = e
    \<and> (\<forall>x. if tbyte P x e = tbyte P (childleaf_key c) e then merged (head_map h x) (head_map this x) (head_map c x)
        else head_map h x = head_map this x)"
proof -
  obtain y cl lc sc hs t where br: "this = Branch y e cl lc sc hs t" using tb by (cases this) auto
  note ok' = ok [unfolded br]
  let ?k = "tbyte P (childleaf_key c) e" and ?ins = "with_key c (tbyte P (childleaf_key c) e)"
  let ?f = "\<lambda>opt. case opt of Some old \<Rightarrow> do { h \<leftarrow> rec old ?ins depth; Some ((), Some h) } | None \<Rightarrow> Some ((), Some ?ins)"
  have e: "e < key_len P" using ok' by (simp add: head_ok_Branch)
  have cl: "agree P e (childleaf_key c) cl" using c(2) br by simp
  obtain n where n: "?f (table_map hd_byte t ?k) = Some ((), Some n)" "head_ok P (Suc e) n"
      "merges (head_map n) (case table_map hd_byte t ?k of None \<Rightarrow> Map.empty | Some o' \<Rightarrow> head_map o') (head_map c)"
      "table_map hd_byte t ?k = None \<Longrightarrow> hd_byte n = ?k"
  proof (cases "table_map hd_byte t ?k")
    case None
    then show thesis using that [of ?ins] c(1) by (simp add: merges_def merged_def)
  next
    case (Some o')
    have o': "head_ok P (Suc e) o'" "agree P (Suc e) (childleaf_key o') (childleaf_key c)"
      using child_agree [OF ok' cl Some] agree_sym by blast+
    have "head_keys o' = {x \<in> head_keys this. agree P (Suc e) x (childleaf_key c)}"
      unfolding child_keys [OF ok' Some] br using o'(2) agree_trans agree_sym by blast
    then show thesis using rec [OF o'(1), of ?ins] c(1) o'(2) that Some by auto
  qed
  have dm: "head_keys n = (case table_map hd_byte t ?k of None \<Rightarrow> {} | Some o' \<Rightarrow> head_keys o') \<union> head_keys c"
    using merges_dom [OF n(3)] by (auto simp: head_keys_def split: option.splits)
  have "tbyte P x e = ?k \<and> agree P e x cl" if "x \<in> head_keys n" for x
  proof (cases "x \<in> head_keys c")
    case True
    then have "agree P (Suc e) x (childleaf_key c)" using head_keys_ok(2) [OF c(1)] head_ok_end [OF c(1)] agree_mono by blast
    then show ?thesis using cl by (auto simp: agree_Suc intro: agree_trans)
  next
    case False
    then show ?thesis using that child_byte [OF ok'] unfolding dm by (auto split: option.splits)
  qed
  then have nk: "tbyte P (childleaf_key n) e = ?k" "agree P e (childleaf_key n) cl" using head_keys_ok(1) [OF n(2)] by blast+
  obtain h where h: "modify_child_with P (head_hash P) this ?k ?f = Some ((), h)" "head_ok P d h" "head_end_depth P h = e"
      "\<And>x. head_map h x = (if tbyte P x e = ?k then head_map n x else head_map this x)"
    using modify_child_put [where f = ?f and ih = "head_hash P", OF env ok' n(1,2) nk] n(4) unfolding br by auto
  have "is_branch h" using h(2,3) e by (cases h) auto
  moreover have "union_child P rec depth this c = Some h"
    using with_start_in [OF env c(1) e] h(1) tb(2) by (simp add: union_child_def modify_child_def)
  moreover have "merged (head_map h x) (head_map this x) (head_map c x)"
    if "tbyte P x e = ?k" for x
    using n(3) branch_map [OF ok', of x] that unfolding h(4) br merges_def by (auto split: option.splits)
  ultimately show ?thesis using h(2-4) by (intro exI [of _ h]) auto
qed

lemma union_loop:
  fixes this :: "'v head"
  assumes "env_ok P" "head_ok P d this" "is_branch this" "head_end_depth P this = e"
    and "\<forall>c \<in> set cs. head_ok P (Suc e) c \<and> agree P e (childleaf_key c) (childleaf_key this)"
    and "distinct (map (\<lambda>c. tbyte P (childleaf_key c) e) cs)"
    and "\<And>c old ins. c \<in> set cs \<Longrightarrow> head_ok P (Suc e) old \<Longrightarrow> head_ok P (Suc e) ins \<Longrightarrow> agree P (Suc e) (childleaf_key old) (childleaf_key ins) \<Longrightarrow>
      head_map ins = head_map c \<Longrightarrow> head_keys old = {x \<in> head_keys this. agree P (Suc e) x (childleaf_key c)} \<Longrightarrow>
      \<exists>h. rec old ins depth = Some h \<and> head_ok P (Suc e) h \<and> merges (head_map h) (head_map old) (head_map ins)"
  shows "\<exists>h. for_each (union_child P rec depth) this cs = Some h \<and> head_ok P d h
    \<and> (\<forall>c \<in> set cs. \<forall>x. tbyte P x e = tbyte P (childleaf_key c) e \<longrightarrow> merged (head_map h x) (head_map this x) (head_map c x))
    \<and> (\<forall>x. tbyte P x e \<notin> (\<lambda>c. tbyte P (childleaf_key c) e) ` set cs \<longrightarrow> head_map h x = head_map this x)"
  using assms(2-)
proof (induction cs arbitrary: this)
  case (Cons c cs)
  note env = assms(1) and ok = Cons.prems(1) and tb = Cons.prems(2,3)
  let ?by = "\<lambda>c. tbyte P (childleaf_key c) e"
  have c: "head_ok P (Suc e) c" "agree P e (childleaf_key c) (childleaf_key this)" using Cons.prems(4) by auto
  obtain h where h: "union_child P rec depth this c = Some h" "head_ok P d h" "is_branch h" "head_end_depth P h = e"
      "\<And>x. tbyte P x e = ?by c \<Longrightarrow> merged (head_map h x) (head_map this x) (head_map c x)"
      "\<And>x. tbyte P x e \<noteq> ?by c \<Longrightarrow> head_map h x = head_map this x"
    using union_child_spec [OF env ok tb c, of rec depth] Cons.prems(6) [of c] by (auto split: if_splits)
  have cl: "agree P e (childleaf_key h) (childleaf_key this)"
  proof -
    have "childleaf_key h \<in> head_keys this \<or> childleaf_key h \<in> head_keys c"
      using head_keys_ok(1) [OF h(2)] h(5,6) [of "childleaf_key h"] by (auto simp: head_keys_def domIff merged_def) metis
    then show ?thesis
    proof
      assume "childleaf_key h \<in> head_keys c"
      then have "agree P (Suc e) (childleaf_key h) (childleaf_key c)" using head_keys_ok(2) [OF c(1)] head_ok_end [OF c(1)] agree_mono by blast
      then show ?thesis using c(2) by (auto simp: agree_Suc intro: agree_trans)
    qed (use head_keys_ok(2) [OF ok] tb(2) in auto)
  qed
  have ne: "?by c' \<noteq> ?by c" if "c' \<in> set cs" for c' using Cons.prems(5) that by (auto simp: image_iff)
  have "\<exists>h'. for_each (union_child P rec depth) h cs = Some h' \<and> head_ok P d h'
      \<and> (\<forall>c \<in> set cs. \<forall>x. tbyte P x e = ?by c \<longrightarrow> merged (head_map h' x) (head_map h x) (head_map c x))
      \<and> (\<forall>x. tbyte P x e \<notin> ?by ` set cs \<longrightarrow> head_map h' x = head_map h x)"
  proof (rule Cons.IH [OF h(2,3,4)])
    show "\<forall>c \<in> set cs. head_ok P (Suc e) c \<and> agree P e (childleaf_key c) (childleaf_key h)"
      using Cons.prems(4) cl by (auto intro: agree_trans agree_sym)
    show "distinct (map ?by cs)" using Cons.prems(5) by simp
    fix c' old ins :: "'v head"
    assume a: "c' \<in> set cs" "head_ok P (Suc e) old" "head_ok P (Suc e) ins" "agree P (Suc e) (childleaf_key old) (childleaf_key ins)" "head_map ins = head_map c'"
      and keys: "head_keys old = {x \<in> head_keys h. agree P (Suc e) x (childleaf_key c')}"
    have "head_keys old = {x \<in> head_keys this. agree P (Suc e) x (childleaf_key c')}"
      unfolding keys using h(6) ne [OF a(1)] by (auto simp: agree_Suc head_keys_def domIff)
    then show "\<exists>h. rec old ins depth = Some h \<and> head_ok P (Suc e) h \<and> merges (head_map h) (head_map old) (head_map ins)"
      using Cons.prems(6) [of c'] a by simp
  qed
  then obtain h' where h': "for_each (union_child P rec depth) h cs = Some h'" "head_ok P d h'"
      "\<And>c x. c \<in> set cs \<Longrightarrow> tbyte P x e = ?by c \<Longrightarrow> merged (head_map h' x) (head_map h x) (head_map c x)"
      "\<And>x. tbyte P x e \<notin> ?by ` set cs \<Longrightarrow> head_map h' x = head_map h x" by blast
  have "merged (head_map h' x) (head_map this x) (head_map c' x)" if "c' \<in> set (c # cs)" "tbyte P x e = ?by c'" for c' x
  proof (cases "c' \<in> set cs")
    case True
    then show ?thesis using h'(3) [OF True that(2)] h(6) [of x] ne [OF True] that(2) by simp
  next
    case False
    then have "c' = c" using that(1) by simp
    moreover have "tbyte P x e \<notin> ?by ` set cs" 
    proof
      assume "tbyte P x e \<in> ?by ` set cs"
      then obtain c2 where "c2 \<in> set cs" "tbyte P x e = ?by c2" by blast
      then show False using ne [of c2] that(2) \<open>c' = c\<close> by simp
    qed
    ultimately show ?thesis using h'(4) h(5) that(2) by simp
  qed
  moreover have "head_map h' x = head_map this x" if "tbyte P x e \<notin> ?by ` set (c # cs)" for x using h'(4) h(6) that by simp
  ultimately show ?case using h(1) h'(1,2) by simp
qed simp

lemma entries_children:
  assumes ok: "head_ok P d (Branch y e cl lc sc h t)"
  shows "distinct (map (\<lambda>c. tbyte P (childleaf_key c) e) (table_entries t))"
    "c \<in> set (table_entries t) \<longleftrightarrow> (\<exists>k. table_map hd_byte t k = Some c)"
    "c \<in> set (table_entries t) \<Longrightarrow> head_ok P (Suc e) c \<and> agree P e (childleaf_key c) cl \<and> hd_byte c = tbyte P (childleaf_key c) e \<and> table_map hd_byte t (hd_byte c) = Some c"
proof -
  have t: "table_ok (pe_rand P) hd_byte t" using ok by (simp add: head_ok_Branch)
  show iff: "c \<in> set (table_entries t) \<longleftrightarrow> (\<exists>k. table_map hd_byte t k = Some c)" for c
    unfolding table_entries_ran [OF t] by (simp add: ran_def)
  show ch: "head_ok P (Suc e) c \<and> agree P e (childleaf_key c) cl \<and> hd_byte c = tbyte P (childleaf_key c) e \<and> table_map hd_byte t (hd_byte c) = Some c"
    if "c \<in> set (table_entries t)" for c
  proof -
    obtain k where k: "table_map hd_byte t k = Some c" using \<open>c \<in> set (table_entries t)\<close> iff [of c] by blast
    moreover have "hd_byte c = k" using k unfolding table_map_Some [OF t] by blast
    moreover have "head_ok P (Suc e) c \<and> tbyte P (childleaf_key c) e = k \<and> agree P e (childleaf_key c) cl" using ok k unfolding head_ok_Branch by blast
    ultimately show ?thesis by simp
  qed
  have "distinct (map hd_byte (table_entries t))" by (rule distinct_entries) (use t in \<open>auto simp: table_ok_def\<close>)
  moreover have "map hd_byte (table_entries t) = map (\<lambda>c. tbyte P (childleaf_key c) e) (table_entries t)" using ch by auto
  ultimately show "distinct (map (\<lambda>c. tbyte P (childleaf_key c) e) (table_entries t))" by simp
qed

text \<open>Merging the children of one branch into another of the same depth.\<close>

lemma union_branches:
  fixes a b :: "'v head"
  assumes env: "env_ok P" and ok: "head_ok P d a" "head_ok P d b" and br: "is_branch a" "head_end_depth P a = e" "is_branch b" "head_end_depth P b = e"
    and agr: "agree P e (childleaf_key a) (childleaf_key b)" and nc: "no_collision P (head_keys a) (head_keys b)"
    and rec: "\<And>old ins. head_ok P (Suc e) old \<Longrightarrow> head_ok P (Suc e) ins \<Longrightarrow> agree P (Suc e) (childleaf_key old) (childleaf_key ins) \<Longrightarrow>
      no_collision P (head_keys old) (head_keys ins) \<Longrightarrow> \<exists>h. rec old ins depth = Some h \<and> head_ok P (Suc e) h \<and> merges (head_map h) (head_map old) (head_map ins)"
  shows "\<exists>h. for_each (union_child P rec depth) a (table_entries (head_table b)) = Some h \<and> head_ok P d h \<and> merges (head_map h) (head_map a) (head_map b)"
proof -
  obtain y cl lc sc hs t where b: "b = Branch y e cl lc sc hs t" using br(3,4) by (cases b) auto
  note ok' = ok(2) [unfolded b] and ch = entries_children [OF ok(2) [unfolded b]]
  have t: "head_table b = t" using b by simp
  obtain h where h: "for_each (union_child P rec depth) a (table_entries t) = Some h" "head_ok P d h"
      "\<And>c x. c \<in> set (table_entries t) \<Longrightarrow> tbyte P x e = tbyte P (childleaf_key c) e \<Longrightarrow> merged (head_map h x) (head_map a x) (head_map c x)"
      "\<And>x. tbyte P x e \<notin> (\<lambda>c. tbyte P (childleaf_key c) e) ` set (table_entries t) \<Longrightarrow> head_map h x = head_map a x"
  proof -
    have "\<exists>h. for_each (union_child P rec depth) a (table_entries t) = Some h \<and> head_ok P d h
      \<and> (\<forall>c \<in> set (table_entries t). \<forall>x. tbyte P x e = tbyte P (childleaf_key c) e \<longrightarrow> merged (head_map h x) (head_map a x) (head_map c x))
      \<and> (\<forall>x. tbyte P x e \<notin> (\<lambda>c. tbyte P (childleaf_key c) e) ` set (table_entries t) \<longrightarrow> head_map h x = head_map a x)"
    proof (rule union_loop [OF env ok(1) br(1,2) _ ch(1)])
      show "\<forall>c \<in> set (table_entries t). head_ok P (Suc e) c \<and> agree P e (childleaf_key c) (childleaf_key a)"
        using ch(3) agr b by (auto intro: agree_trans agree_sym)
      fix c old ins :: "'v head"
      assume c: "c \<in> set (table_entries t)" and a: "head_ok P (Suc e) old" "head_ok P (Suc e) ins" "agree P (Suc e) (childleaf_key old) (childleaf_key ins)"
        and ins: "head_map ins = head_map c" and keys: "head_keys old = {x \<in> head_keys a. agree P (Suc e) x (childleaf_key c)}"
      obtain k where "table_map hd_byte t k = Some c" using c ch(2) by blast
      from no_collision_child [OF ok' this] nc b have "no_collision P (head_keys c) (head_keys a)" using no_collision_sym by blast
      then have "no_collision P (head_keys old) (head_keys c)" unfolding keys using no_collision_below no_collision_sym by blast
      moreover have "head_keys ins = head_keys c" using ins by (simp add: head_keys_def)
      ultimately show "\<exists>h. rec old ins depth = Some h \<and> head_ok P (Suc e) h \<and> merges (head_map h) (head_map old) (head_map ins)"
        using rec [OF a] by simp
    qed
    then show thesis using that by blast
  qed
  have "merged (head_map h x) (head_map a x) (head_map b x)" for x
  proof (cases "table_map hd_byte t (tbyte P x e)")
    case None
    have "tbyte P x e \<notin> (\<lambda>c. tbyte P (childleaf_key c) e) ` set (table_entries t)"
    proof
      assume "tbyte P x e \<in> (\<lambda>c. tbyte P (childleaf_key c) e) ` set (table_entries t)"
      then obtain c where "c \<in> set (table_entries t)" "tbyte P x e = tbyte P (childleaf_key c) e" by blast
      then show False using ch(3) [of c] None by (metis option.distinct(1))
    qed
    then show ?thesis using h(4) [of x] branch_map [OF ok', of x] None b by (simp add: merged_def)
  next
    case (Some c)
    then have "c \<in> set (table_entries t)" using ch(2) by blast
    moreover have "tbyte P x e = tbyte P (childleaf_key c) e" using ok' Some by (auto simp: head_ok_Branch)
    ultimately show ?thesis using h(3) branch_map [OF ok', of x] Some b by simp
  qed
  then show ?thesis using h(1,2) t by (auto simp: merges_def)
qed

lemma head_union_spec:
  fixes a b :: "'v head"
  assumes "env_ok P" "head_ok P d a" "head_ok P d b" "agree P d (childleaf_key a) (childleaf_key b)" "s \<le> d"
    "no_collision P (head_keys a) (head_keys b)" "key_len P - d < fuel"
  shows "\<exists>h. head_union fuel P a b s = Some h \<and> head_ok P d h \<and> merges (head_map h) (head_map a) (head_map b)"
  using assms
proof (induction fuel arbitrary: a b d s)
  case (Suc fuel)
  note env = Suc.prems(1) and ok = Suc.prems(2,3) and nc = Suc.prems(6)
  let ?rec = "\<lambda>a b d. head_union fuel P a b d"
  have IH: "\<exists>h. ?rec old ins e = Some h \<and> head_ok P (Suc e) h \<and> merges (head_map h) (head_map old) (head_map ins)"
    if "d \<le> e" "e < key_len P" "head_ok P (Suc e) old" "head_ok P (Suc e) ins" "agree P (Suc e) (childleaf_key old) (childleaf_key ins)"
      "no_collision P (head_keys old) (head_keys ins)" for e and old ins :: "'v head"
    using Suc.IH [OF env that(3,4,5) _ that(6), of e] Suc.prems(7) that(1,2) by simp
  have into: "\<exists>h. union_child P ?rec e x z = Some h \<and> head_ok P d h \<and> merges (head_map h) (head_map x) (head_map z)"
    if x: "head_ok P d x" "is_branch x" "head_end_depth P x = e" "d \<le> e" "e < key_len P" and z: "head_ok P d z" "e < head_end_depth P z"
      and xz: "agree P e (childleaf_key z) (childleaf_key x)" "no_collision P (head_keys x) (head_keys z)" for e and x z :: "'v head"
  proof -
    have z': "head_ok P (Suc e) z" using head_ok_raise [OF z(1)] z(2) by simp
    have "\<exists>h. union_child P ?rec e x z = Some h \<and> head_ok P d h \<and> is_branch h \<and> head_end_depth P h = e
      \<and> (\<forall>k. if tbyte P k e = tbyte P (childleaf_key z) e then merged (head_map h k) (head_map x k) (head_map z k) else head_map h k = head_map x k)"
    proof (rule union_child_spec [OF env x(1-3) z' xz(1)])
      fix old ins :: "'v head" assume a: "head_ok P (Suc e) old" "head_ok P (Suc e) ins" "agree P (Suc e) (childleaf_key old) (childleaf_key ins)"
        and ins: "head_map ins = head_map z" and keys: "head_keys old = {k \<in> head_keys x. agree P (Suc e) k (childleaf_key z)}"
      have "head_keys ins = head_keys z" using ins by (simp add: head_keys_def)
      then have "no_collision P (head_keys old) (head_keys ins)" using no_collision_below [OF xz(2)] keys by simp
      from IH [OF x(4,5) a this] show "\<exists>h. ?rec old ins e = Some h \<and> head_ok P (Suc e) h \<and> merges (head_map h) (head_map old) (head_map ins)" .
    qed
    then obtain h where h: "union_child P ?rec e x z = Some h" "head_ok P d h"
        "\<And>k. if tbyte P k e = tbyte P (childleaf_key z) e then merged (head_map h k) (head_map x k) (head_map z k) else head_map h k = head_map x k" by blast
    have "merged (head_map h k) (head_map x k) (head_map z k)" for k
      using h(3) [of k] below_child [OF z(1,2), of k] by (cases "head_map z k") (auto simp: merged_def split: if_splits)
    then show ?thesis using h(1,2) by (auto simp: merges_def)
  qed
  have branches: "\<exists>h. for_each (union_child P ?rec e) x (table_entries (head_table z)) = Some h \<and> head_ok P d h \<and> merges (head_map h) (head_map x) (head_map z)"
    if "head_ok P d x" "head_ok P d z" "is_branch x" "head_end_depth P x = e" "is_branch z" "head_end_depth P z = e" "agree P e (childleaf_key x) (childleaf_key z)"
      "no_collision P (head_keys x) (head_keys z)" "d \<le> e" "e < key_len P" for e and x z :: "'v head"
    using union_branches [OF env that(1-8)] IH [OF that(9,10)] by blast
  note unf = head_union.simps(2) [of fuel P a b s, folded settled_def]
  from env ok Suc.prems(4,5) nc show ?case
  proof (cases rule: walk_cases)
    case pair
    then show ?thesis using ok merges_same [of "head_map a" "head_map b"] unfolding unf by (simp add: head_keys_def)
  next
    case same
    then show ?thesis using ok merges_same [of "head_map a" "head_map b"] unfolding unf by (simp add: head_keys_def)
  next
    case (part dep)
    then show ?thesis using union_parted [OF env ok part(3-7)] branch_hashes_eq [of P "hd_byte a" dep "with_key a (tbyte P (childleaf_key a) dep)"]
      unfolding unf by (auto simp: branch_new_def)
  next
    case (left y e cl lc sc h t)
    have "\<exists>h. union_child P ?rec e a b = Some h \<and> head_ok P d h \<and> merges (head_map h) (head_map a) (head_map b)"
      by (rule into [OF ok(1) _ _ left(5,7) ok(2) left(6) _ nc]) (use left agree_sym in simp_all)
    then show ?thesis using left unfolding unf by simp
  next
    case (right y e cl lc sc h t)
    have "\<exists>h. union_child P ?rec e b a = Some h \<and> head_ok P d h \<and> merges (head_map h) (head_map b) (head_map a)"
      by (rule into [OF ok(2) _ _ right(5,7) ok(1) right(6) _ no_collision_sym [OF nc]]) (use right in simp_all)
    then show ?thesis using right merges_sym unfolding unf by auto
  next
    case (both y e cl lc sc h t y' cl' lc' sc' h' t')
    show ?thesis
    proof (cases "length (head_table b) > length (head_table a)")
      case True
      have "\<exists>h. for_each (union_child P ?rec e) b (table_entries (head_table a)) = Some h \<and> head_ok P d h \<and> merges (head_map h) (head_map b) (head_map a)"
        by (rule branches [OF ok(2,1)]) (use both no_collision_sym [OF nc] agree_sym in simp_all)
      then show ?thesis using both True merges_sym unfolding unf by auto
    next
      case False
      have "\<exists>h. for_each (union_child P ?rec e) a (table_entries (head_table b)) = Some h \<and> head_ok P d h \<and> merges (head_map h) (head_map a) (head_map b)"
        by (rule branches [OF ok]) (use both nc in simp_all)
      then show ?thesis using both False unfolding unf by auto
    qed
  qed
qed simp

end
