(* ===== verification/Patch_Algebra.thy ===== *)
theory Patch_Algebra
  imports Patch_Union
begin

text \<open>
  Intersection, difference and inclusion of PATCH nodes, in terms of their maps: intersection keeps the keys of
  both, difference the entries of the first whose keys the second has not, and inclusion compares the key
  sets. Both constructions build a branch from the children that are left, which collapses when there is one.
\<close>

section \<open>Building a branch from what is left\<close>

lemma not_under:
  assumes "head_ok P (Suc e) c" "tbyte P x e \<noteq> byte_at P e c"
  shows "head_map c x = None"
  using below_child [OF assms(1), of e x] head_ok_end [OF assms(1)] assms(2) by (cases "head_map c x") auto

lemma install_loop:
  assumes "env_ok P" "head_ok P d br" "is_branch br" "head_end_depth P br = e"
    and "\<forall>c \<in> set cs. head_ok P (Suc e) c \<and> agree P e (childleaf_key c) cl0" "agree P e (childleaf_key br) cl0"
    and "distinct (map (byte_at P e) cs)"
  shows "\<exists>h. for_each (install_child P e) br cs = Some h \<and> head_ok P d h
    \<and> (\<forall>c \<in> set cs. \<forall>x. tbyte P x e = byte_at P e c \<longrightarrow> head_map h x = head_map c x)
    \<and> (\<forall>x. tbyte P x e \<notin> byte_at P e ` set cs \<longrightarrow> head_map h x = head_map br x)"
  using assms(2-)
proof (induction cs arbitrary: br)
  case (Cons c cs)
  note env = assms(1)
  obtain y cl lc sc hs t where br: "br = Branch y e cl lc sc hs t" using Cons.prems(2,3) by (cases br) auto
  note ok = Cons.prems(1) [unfolded br]
  have e: "e < key_len P" using ok by (simp add: head_ok_Branch)
  have c: "head_ok P (Suc e) c" "agree P e (childleaf_key c) cl0" using Cons.prems(4) by auto
  let ?k = "byte_at P e c" and ?ins = "with_key c (byte_at P e c)"
  have cl: "agree P e (childleaf_key ?ins) cl" using c(2) Cons.prems(5) br by (auto intro: agree_trans agree_sym)
  obtain h where h: "modify_child P br ?k (\<lambda>_. Some ((), Some ?ins)) = Some ((), h)" "head_ok P d h" "head_end_depth P h = e"
      "\<And>x. head_map h x = (if tbyte P x e = ?k then head_map c x else head_map br x)"
    using modify_child_put [where f = "\<lambda>_. Some ((), Some ?ins)" and ih = "head_hash P" and c = ?ins and k = ?k and r = "()", OF env ok _ _ _ cl] c(1)
    unfolding br modify_child_def by auto
  have h': "is_branch h" using h(2,3) e by (cases h) auto
  have clh: "agree P e (childleaf_key h) cl0"
  proof -
    have "childleaf_key h \<in> head_keys br \<or> childleaf_key h \<in> head_keys c"
      using head_keys_ok(1) [OF h(2)] h(4) [of "childleaf_key h"] by (auto simp: head_keys_def domIff split: if_splits)
    then show ?thesis
    proof
      assume "childleaf_key h \<in> head_keys c"
      then have "agree P (Suc e) (childleaf_key h) (childleaf_key c)" using head_keys_ok(2) [OF c(1)] head_ok_end [OF c(1)] agree_mono by blast
      then show ?thesis using c(2) by (auto simp: agree_Suc intro: agree_trans)
    next
      assume "childleaf_key h \<in> head_keys br"
      then have "agree P e (childleaf_key h) (childleaf_key br)" using head_keys_ok(2) [OF Cons.prems(1)] Cons.prems(3) by auto
      then show ?thesis using Cons.prems(5) agree_trans by blast
    qed
  qed
  have ne: "byte_at P e c' \<noteq> ?k" if "c' \<in> set cs" for c' using Cons.prems(6) that by (auto simp: image_iff)
  obtain g where g: "for_each (install_child P e) h cs = Some g" "head_ok P d g"
      "\<And>c' x. c' \<in> set cs \<Longrightarrow> tbyte P x e = byte_at P e c' \<Longrightarrow> head_map g x = head_map c' x"
      "\<And>x. tbyte P x e \<notin> byte_at P e ` set cs \<Longrightarrow> head_map g x = head_map h x"
    using Cons.IH [OF h(2) h' h(3) _ clh] Cons.prems(4,6) by auto
  have "tbyte P x e \<notin> byte_at P e ` set cs" if "tbyte P x e = ?k" for x
  proof
    assume "tbyte P x e \<in> byte_at P e ` set cs"
    then obtain c2 where "c2 \<in> set cs" "tbyte P x e = byte_at P e c2" by blast
    then show False using ne [of c2] that by simp
  qed
  then have "head_map g x = head_map c' x" if "c' \<in> set (c # cs)" "tbyte P x e = byte_at P e c'" for c' x
    using g(3) [of c' x] g(4) [of x] h(4) [of x] that by auto
  moreover have "head_map g x = head_map br x" if "tbyte P x e \<notin> byte_at P e ` set (c # cs)" for x using g(4) h(4) that by simp
  moreover have "install_child P e br c = Some h" using h(1) with_start_in [OF env c(1) e] by (simp add: install_child_def)
  ultimately show ?case using g(1,2) by simp
qed simp

lemma rebuild_spec:
  assumes env: "env_ok P" and e: "d \<le> e" "e < key_len P"
    and cs: "\<forall>c \<in> set cs. head_ok P (Suc e) c \<and> agree P e (childleaf_key c) cl0" "distinct (map (byte_at P e) cs)"
  shows "\<exists>r. rebuild P e cs = Some r \<and> result_ok P d r
    \<and> (\<forall>c \<in> set cs. \<forall>x. tbyte P x e = byte_at P e c \<longrightarrow> result_map r x = head_map c x)
    \<and> (\<forall>x. tbyte P x e \<notin> byte_at P e ` set cs \<longrightarrow> result_map r x = None)"
proof (cases cs rule: remdups_adj.cases)
  case (2 c)
  then show ?thesis using cs(1) e(1) head_ok_mono [of P "Suc e" c d] not_under [of P e c] by auto
next
  case (3 c1 c2 rest)
  let ?a = "with_key c1 (byte_at P e c1)" and ?b = "with_key c2 (byte_at P e c2)"
  have c: "head_ok P (Suc e) c1" "head_ok P (Suc e) c2" "agree P e (childleaf_key c1) cl0" "agree P e (childleaf_key c2) cl0" "byte_at P e c1 \<noteq> byte_at P e c2"
    using cs 3 by auto
  obtain br where br: "branch_new P 0 e ?a ?b = Some br" "head_ok P d br"
      "\<And>x. head_map br x = (if tbyte P x e = byte_at P e c2 then head_map c2 x else if tbyte P x e = byte_at P e c1 then head_map c1 x else None)"
    using branch_of_two [OF env, of e ?a ?b d "head_hash P c2" 0] c e agree_trans [OF c(3) agree_sym [OF c(4)]] by (auto simp: branch_new_def)
  have b: "is_branch br" "head_end_depth P br = e" "childleaf_key br = childleaf_key c1"
    using br(1) by (auto simp: branch_new_def branch_new_with_rchild_hash_def Option.bind_eq_Some_conv)
  obtain h where h: "for_each (install_child P e) br rest = Some h" "head_ok P d h"
      "\<And>c x. c \<in> set rest \<Longrightarrow> tbyte P x e = byte_at P e c \<Longrightarrow> head_map h x = head_map c x"
      "\<And>x. tbyte P x e \<notin> byte_at P e ` set rest \<Longrightarrow> head_map h x = head_map br x"
    using install_loop [OF env br(2) b(1,2), of rest cl0] cs 3 b(3) c(3) by auto
  have fresh: "byte_at P e c1 \<notin> byte_at P e ` set rest" "byte_at P e c2 \<notin> byte_at P e ` set rest" using cs(2) 3 by auto
  have "head_map h x = head_map c x" if "c \<in> set cs" "tbyte P x e = byte_at P e c" for c x
    using that h(3) [of c x] h(4) [of x] br(3) [of x] fresh c(5) unfolding 3 by (auto simp del: image_iff)
  moreover have "head_map h x = None" if "tbyte P x e \<notin> byte_at P e ` set cs" for x
    using that h(4) [of x] br(3) [of x] unfolding 3 by simp
  ultimately show ?thesis using h(1,2) br(1) with_start_in [OF env c(1) e(2)] with_start_in [OF env c(2) e(2)] unfolding 3 by simp
qed simp

lemma filter_map_panic_eq:
  "\<forall>x \<in> set xs. f x = Some (g x) \<Longrightarrow> filter_map_panic f xs = Some (List.map_filter g xs)"
  by (induction xs) (auto simp: map_filter_simps split: option.splits)

lemma set_map_filter_iff: "y \<in> set (List.map_filter g xs) \<longleftrightarrow> (\<exists>x \<in> set xs. g x = Some y)"
  by (induction xs) (auto simp: map_filter_simps split: option.splits)

lemma distinct_map_filter:
  "distinct (map f xs) \<Longrightarrow> (\<And>x y. x \<in> set xs \<Longrightarrow> g x = Some y \<Longrightarrow> f' y = f x) \<Longrightarrow> distinct (map f' (List.map_filter g xs))"
proof (induction xs)
  case (Cons x xs)
  have "f' y = f x' \<and> x' \<in> set xs" if "x' \<in> set xs" "g x' = Some y" for x' y using Cons.prems(2) that by simp
  then have "f x \<notin> f' ` set (List.map_filter g xs)" using Cons.prems(1) by (auto simp: set_map_filter_iff image_iff) metis
  moreover have "f' y = f x" if "g x = Some y" for y using Cons.prems(2) that by simp
  moreover have "distinct (map f' (List.map_filter g xs))" using Cons by simp
  ultimately show ?case by (cases "g x") (simp_all add: map_filter_simps)
qed (simp add: map_filter_simps)

text \<open>A branch whose children are each replaced by a part of them.\<close>

lemma filtered_children:
  fixes t :: "'v head option list" and f :: "'v head \<Rightarrow> 'v head option option"
  assumes env: "env_ok P" and ok: "head_ok P d (Branch y e cl lc sc h t)"
    and f: "\<And>c. c \<in> set (table_entries t) \<Longrightarrow> \<exists>r. f c = Some r \<and> result_ok P (Suc e) r \<and> dom (result_map r) \<subseteq> head_keys c"
  shows "\<exists>r. (filter_map_panic f (table_entries t) \<bind> rebuild P e) = Some r \<and> result_ok P d r
    \<and> (\<forall>x. result_map r x = (case table_map hd_byte t (tbyte P x e) of None \<Rightarrow> None | Some c \<Rightarrow> result_map (the (f c)) x))"
proof -
  note ch = entries_children [OF ok]
  let ?g = "\<lambda>c. the (f c)"
  let ?kept = "List.map_filter ?g (table_entries t)"
  have e: "d \<le> e" "e < key_len P" using ok by (simp_all add: head_ok_Branch)
  have g: "f c = Some (?g c)" "result_ok P (Suc e) (?g c)" "dom (result_map (?g c)) \<subseteq> head_keys c" if "c \<in> set (table_entries t)" for c
    using f [OF that] by auto
  have part: "head_ok P (Suc e) c'" "byte_at P e c' = byte_at P e c" "agree P e (childleaf_key c') cl"
    if c: "c \<in> set (table_entries t)" "?g c = Some c'" for c c'
  proof -
    show ok': "head_ok P (Suc e) c'" using g(2) [OF c(1)] c(2) by simp
    have "childleaf_key c' \<in> head_keys c" using head_keys_ok(1) [OF ok'] g(3) [OF c(1)] c(2) by (auto simp: head_keys_def)
    then have "agree P (Suc e) (childleaf_key c') (childleaf_key c)"
      using head_keys_ok(2) [of P "Suc e" c] head_ok_end [of P "Suc e" c] ch(3) [OF c(1)] agree_mono by blast
    then show "byte_at P e c' = byte_at P e c" "agree P e (childleaf_key c') cl" using ch(3) [OF c(1)] by (auto simp: agree_Suc intro: agree_trans)
  qed
  have "\<forall>c \<in> set ?kept. head_ok P (Suc e) c \<and> agree P e (childleaf_key c) cl" using part by (auto simp: set_map_filter_iff)
  moreover have "distinct (map (byte_at P e) ?kept)" by (rule distinct_map_filter [OF ch(1)]) (rule part(2))
  ultimately obtain r where r: "rebuild P e ?kept = Some r" "result_ok P d r"
      "\<And>c x. c \<in> set ?kept \<Longrightarrow> tbyte P x e = byte_at P e c \<Longrightarrow> result_map r x = head_map c x"
      "\<And>x. tbyte P x e \<notin> byte_at P e ` set ?kept \<Longrightarrow> result_map r x = None"
    using rebuild_spec [OF env e, of ?kept cl] by blast
  have "result_map r x = (case table_map hd_byte t (tbyte P x e) of None \<Rightarrow> None | Some c \<Rightarrow> result_map (?g c) x)" for x
  proof (cases "\<exists>c \<in> set (table_entries t). \<exists>c'. ?g c = Some c' \<and> byte_at P e c = tbyte P x e")
    case True
    then obtain c c' where c: "c \<in> set (table_entries t)" "?g c = Some c'" "byte_at P e c = tbyte P x e" by blast
    then have "table_map hd_byte t (tbyte P x e) = Some c" using ch(3) [OF c(1)] by metis
    moreover have "result_map r x = head_map c' x" using r(3) [of c' x] part(2) [OF c(1,2)] c by (auto simp: set_map_filter_iff)
    ultimately show ?thesis using c(2) by simp
  next
    case False
    have "tbyte P x e \<notin> byte_at P e ` set ?kept"
    proof
      assume "tbyte P x e \<in> byte_at P e ` set ?kept"
      then obtain c' where c': "c' \<in> set ?kept" "tbyte P x e = byte_at P e c'" by (rule imageE)
      then obtain c where "c \<in> set (table_entries t)" "?g c = Some c'" unfolding set_map_filter_iff by blast
      then show False using False part(2) c'(2) by metis
    qed
    then have "result_map r x = None" by (rule r(4))
    moreover have "?g c = None" if c: "table_map hd_byte t (tbyte P x e) = Some c" for c
    proof -
      have "c \<in> set (table_entries t)" using c ch(2) by blast
      moreover have "byte_at P e c = tbyte P x e" using ok c by (auto simp: head_ok_Branch)
      ultimately show ?thesis using False by (cases "?g c") auto
    qed
    ultimately show ?thesis by (auto split: option.split)
  qed
  moreover have "filter_map_panic f (table_entries t) = Some ?kept" by (rule filter_map_panic_eq) (use g(1) in blast)
  ultimately show ?thesis using r(1,2) by simp
qed

section \<open>Intersection\<close>

definition met :: "'v option \<Rightarrow> 'v option \<Rightarrow> 'v option \<Rightarrow> bool" where
  "met r a b \<longleftrightarrow> (if a = None \<or> b = None then r = None else r = a \<or> r = b)"

definition meets :: "('k \<rightharpoonup> 'v) \<Rightarrow> ('k \<rightharpoonup> 'v) \<Rightarrow> ('k \<rightharpoonup> 'v) \<Rightarrow> bool" where
  "meets m a b \<longleftrightarrow> (\<forall>x. met (m x) (a x) (b x))"

lemma met_sym: "met r a b = met r b a"
  by (auto simp: met_def)

lemma met_None [simp]: "met r None b \<longleftrightarrow> r = None" "met r a None \<longleftrightarrow> r = None"
  by (simp_all add: met_def)

lemma met_Some: "met r a b \<Longrightarrow> r \<noteq> None \<longleftrightarrow> a \<noteq> None \<and> b \<noteq> None"
  by (auto simp: met_def split: if_splits)

lemma meets_dom: "meets m a b \<Longrightarrow> dom m = dom a \<inter> dom b"
  using met_Some unfolding meets_def dom_def by blast

lemma meets_same: "dom a = dom b \<Longrightarrow> meets a a b"
  unfolding meets_def met_def by (metis domIff)

text \<open>Where one node ends below the other, which is a branch.\<close>

lemma below_branch:
  fixes P :: patch_env and t :: "'v head option list" and z :: "'w head" and y :: u8 and e lc sc :: nat and cl :: "u8 list" and h :: u128
  defines "br \<equiv> Branch y e cl lc sc h t" and "k \<equiv> byte_at P e z"
  assumes env: "env_ok P" and ok: "head_ok P d br" "head_ok P d z" and e: "e < head_end_depth P z" and agr: "agree P e cl (childleaf_key z)"
    and nc: "no_collision P (head_keys br) (head_keys z)"
  shows "tree_byte (pe_schema P) (childleaf_key z) e = Some k" "child_get P br k = Some (table_map hd_byte t k)"
    "head_ok P (Suc e) z" "head_map z x \<noteq> None \<Longrightarrow> tbyte P x e = k" "table_map hd_byte t k = None \<Longrightarrow> tbyte P x e = k \<Longrightarrow> head_map br x = None"
    "table_map hd_byte t k = Some c \<Longrightarrow> head_ok P (Suc e) c \<and> agree P (Suc e) (childleaf_key c) (childleaf_key z) \<and> no_collision P (head_keys c) (head_keys z)
      \<and> size c < size br \<and> head_map c x = (if tbyte P x e = k then head_map br x else None)"
proof -
  note ok' = ok(1) [unfolded br_def]
  have t: "table_ok (pe_rand P) hd_byte t" and ek: "e < key_len P" using ok' by (simp_all add: head_ok_Branch)
  show "tree_byte (pe_schema P) (childleaf_key z) e = Some k" unfolding k_def by (rule tree_byte_in [OF env childleaf_length [OF ok(2)] ek])
  show "child_get P br k = Some (table_map hd_byte t k)" unfolding br_def by (rule child_get_eq [OF ok'])
  show "head_ok P (Suc e) z" using head_ok_raise [OF ok(2)] e by simp
  show "head_map z x \<noteq> None \<Longrightarrow> tbyte P x e = k" unfolding k_def using below_child [OF ok(2) e] by blast
  show "table_map hd_byte t k = None \<Longrightarrow> tbyte P x e = k \<Longrightarrow> head_map br x = None" unfolding br_def using branch_map [OF ok', of x] by simp
  assume c: "table_map hd_byte t k = Some c"
  have "head_ok P (Suc e) c" "agree P (Suc e) (childleaf_key z) (childleaf_key c)"
    using child_agree [OF ok' agree_sym [OF agr]] c unfolding k_def by blast+
  moreover have "no_collision P (head_keys c) (head_keys z)" using no_collision_child [OF ok' c] nc unfolding br_def by blast
  moreover have "size c < size br" unfolding br_def by (rule child_size_map [OF t c])
  moreover have "head_map c x = (if tbyte P x e = k then head_map br x else None)" unfolding br_def by (rule child_map [OF ok' c])
  ultimately show "head_ok P (Suc e) c \<and> agree P (Suc e) (childleaf_key c) (childleaf_key z) \<and> no_collision P (head_keys c) (head_keys z)
      \<and> size c < size br \<and> head_map c x = (if tbyte P x e = k then head_map br x else None)" using agree_sym by blast
qed

lemma result_ok_mono: "result_ok P (Suc e) r \<Longrightarrow> d \<le> e \<Longrightarrow> result_ok P d r"
  using head_ok_mono by (fastforce simp: result_ok_def)

text \<open>Two branches of the same depth, child by child.\<close>

lemma matching_child:
  assumes ok: "head_ok P d (Branch y e cl lc sc h t)" "head_ok P d' (Branch y' e cl' lc' sc' h' t')" and agr: "agree P e cl cl'"
    and c: "c \<in> set (table_entries t)" and c': "table_map hd_byte t' (hd_byte c) = Some c'"
    and nc: "no_collision P (head_keys (Branch y e cl lc sc h t)) (head_keys (Branch y' e cl' lc' sc' h' t'))"
  shows "head_ok P (Suc e) c" "head_ok P (Suc e) c'" "agree P (Suc e) (childleaf_key c) (childleaf_key c')" "no_collision P (head_keys c) (head_keys c')"
    "size c < size (Branch y e cl lc sc h t)" "size c' < size (Branch y' e cl' lc' sc' h' t')"
proof -
  note ch = entries_children(3) [OF ok(1) c]
  have t': "table_ok (pe_rand P) hd_byte t'" using ok(2) by (simp add: head_ok_Branch)
  show "head_ok P (Suc e) c" using ch by blast
  have c2: "head_ok P (Suc e) c'" "byte_at P e c' = hd_byte c" "agree P e (childleaf_key c') cl'" using ok(2) c' by (auto simp: head_ok_Branch)
  then show "head_ok P (Suc e) c'" by blast
  have "agree P e (childleaf_key c) (childleaf_key c')" using ch agr c2(3) by (meson agree_sym agree_trans)
  then show "agree P (Suc e) (childleaf_key c) (childleaf_key c')" using ch c2(2) by (simp add: agree_Suc)
  have "no_collision P (head_keys c) (head_keys (Branch y' e cl' lc' sc' h' t'))" using no_collision_child [OF ok(1) _ nc] ch by blast
  from no_collision_child [OF ok(2) c' no_collision_sym [OF this]] show "no_collision P (head_keys c) (head_keys c')" by (rule no_collision_sym)
  show "size c < size (Branch y e cl lc sc h t)" using entry_size [OF c] by simp
  show "size c' < size (Branch y' e cl' lc' sc' h' t')" by (rule child_size_map [OF t' c'])
qed

lemma head_intersect_spec:
  fixes a b :: "'v head"
  assumes "env_ok P" "head_ok P d a" "head_ok P d b" "agree P d (childleaf_key a) (childleaf_key b)" "s \<le> d"
    "no_collision P (head_keys a) (head_keys b)"
  shows "\<exists>r. head_intersect P a b s = Some r \<and> result_ok P d r \<and> meets (result_map r) (head_map a) (head_map b)"
  using assms
proof (induction "size a + size b" arbitrary: a b d s rule: less_induct)
  case less
  note env = less.prems(1) and ok = less.prems(2,3) and nc = less.prems(6)
  note unf = head_intersect.simps [of P a b s, folded settled_def]
  from env ok less.prems(4,5) nc show ?case
  proof (cases rule: walk_cases)
    case pair
    then show ?thesis using ok meets_same [of "head_map a" "head_map b"] unfolding unf by (simp add: head_keys_def)
  next
    case same
    then show ?thesis using ok meets_same [of "head_map a" "head_map b"] unfolding unf by (simp add: head_keys_def)
  next
    case (part dep)
    have "head_map a x = None \<or> head_map b x = None" for x
      using parted_not_below [OF ok(1) part(4), of x] parted_not_below [OF ok(2) part(5), of x] part(7) by metis
    then have "meets Map.empty (head_map a) (head_map b)" by (simp add: meets_def met_def)
    then show ?thesis using part(1,2) unfolding unf by auto
  next
    case (left y e cl lc sc h t)
    note bl = below_branch [OF env ok(1) [unfolded left(4)] ok(2) left(6,8) nc [unfolded left(4)], folded left(4)]
    show ?thesis
    proof (cases "table_map hd_byte t (byte_at P e b)")
      case None
      have "met None (head_map a x) (head_map b x)" for x using bl(4) [of x] bl(5) [OF None, of x] by (auto simp: met_def)
      then have "meets Map.empty (head_map a) (head_map b)" by (simp add: meets_def)
      then show ?thesis using left None bl(1,2) unfolding unf by (auto simp: Let_def)
    next
      case (Some c)
      note c = bl(6) [OF Some]
      obtain r where r: "head_intersect P b c e = Some r" "result_ok P (Suc e) r" "meets (result_map r) (head_map b) (head_map c)"
        using less.hyps [OF _ env bl(3), of c e] c agree_sym no_collision_sym by force
      have "met (result_map r x) (head_map a x) (head_map b x)" for x
      proof (cases "tbyte P x e = byte_at P e b")
        case True
        have "met (result_map r x) (head_map b x) (head_map c x)" using r(3) by (simp add: meets_def)
        then show ?thesis using c [of x] True met_sym [of "result_map r x" "head_map b x" "head_map a x"] by simp
      next
        case False
        then show ?thesis using r(3) c [of x] bl(4) [of x] unfolding meets_def by (metis met_None)
      qed
      then show ?thesis using r left Some bl(1,2) result_ok_mono [OF r(2) left(5)] unfolding unf by (auto simp: Let_def meets_def)
    qed
  next
    case (right y e cl lc sc h t)
    note bl = below_branch [OF env ok(2) [unfolded right(4)] ok(1) right(6) agree_sym [OF right(8)] no_collision_sym [OF nc [unfolded right(4)]], folded right(4)]
    show ?thesis
    proof (cases "table_map hd_byte t (byte_at P e a)")
      case None
      have "met None (head_map a x) (head_map b x)" for x using bl(4) [of x] bl(5) [OF None, of x] by (auto simp: met_def)
      then have "meets Map.empty (head_map a) (head_map b)" by (simp add: meets_def)
      then show ?thesis using right None bl(1,2) unfolding unf by (auto simp: Let_def)
    next
      case (Some c)
      note c = bl(6) [OF Some]
      obtain r where r: "head_intersect P a c e = Some r" "result_ok P (Suc e) r" "meets (result_map r) (head_map a) (head_map c)"
        using less.hyps [OF _ env bl(3), of c e] c agree_sym no_collision_sym by force
      have "met (result_map r x) (head_map a x) (head_map b x)" for x
      proof (cases "tbyte P x e = byte_at P e a")
        case True
        have "met (result_map r x) (head_map a x) (head_map c x)" using r(3) by (simp add: meets_def)
        then show ?thesis using c [of x] True by simp
      next
        case False
        then show ?thesis using r(3) c [of x] bl(4) [of x] unfolding meets_def by (metis met_None)
      qed
      then show ?thesis using r right Some bl(1,2) result_ok_mono [OF r(2) right(5)] unfolding unf by (auto simp: Let_def meets_def)
    qed
  next
    case (both y e cl lc sc h t y' cl' lc' sc' h' t')
    note ok' = ok(1) [unfolded both(4)] ok(2) [unfolded both(5)]
    let ?f = "\<lambda>c. do { child \<leftarrow> child_get P b (hd_byte c); case child of Some c' \<Rightarrow> head_intersect P c c' e | None \<Rightarrow> Some None }"
    have f: "\<exists>r. ?f c = Some r \<and> result_ok P (Suc e) r
        \<and> meets (result_map r) (head_map c) (case table_map hd_byte t' (hd_byte c) of None \<Rightarrow> Map.empty | Some c' \<Rightarrow> head_map c')"
      if c: "c \<in> set (table_entries t)" for c
    proof (cases "table_map hd_byte t' (hd_byte c)")
      case None
      then show ?thesis using child_get_eq [OF ok'(2)] both(5) by (simp add: meets_def)
    next
      case (Some c')
      note mc = matching_child [OF ok' both(8) c Some nc [unfolded both(4,5)]]
      have "\<exists>r. head_intersect P c c' e = Some r \<and> result_ok P (Suc e) r \<and> meets (result_map r) (head_map c) (head_map c')"
        using less.hyps [OF _ env mc(1-3) _ mc(4), of e] mc(5,6) both(4,5) by simp
      then show ?thesis using child_get_eq [OF ok'(2)] Some both(5) by simp
    qed
    have "\<exists>r. ?f c = Some r \<and> result_ok P (Suc e) r \<and> dom (result_map r) \<subseteq> head_keys c" if "c \<in> set (table_entries t)" for c
      using f [OF that] meets_dom by (fastforce simp: head_keys_def)
    from filtered_children [OF env ok'(1) this] obtain r where r: "(filter_map_panic ?f (table_entries t) \<bind> rebuild P e) = Some r" "result_ok P d r"
        "\<And>x. result_map r x = (case table_map hd_byte t (tbyte P x e) of None \<Rightarrow> None | Some c \<Rightarrow> result_map (the (?f c)) x)" by blast
    have "met (result_map r x) (head_map a x) (head_map b x)" for x
    proof (cases "table_map hd_byte t (tbyte P x e)")
      case None
      then show ?thesis using r(3) [of x] branch_map [OF ok'(1), of x] both(4) by simp
    next
      case (Some c)
      have c: "c \<in> set (table_entries t)" "hd_byte c = tbyte P x e" using Some entries_children(2,3) [OF ok'(1), of c] ok'(1) by (auto simp: head_ok_Branch)
      show ?thesis using f [OF c(1)] r(3) [of x] branch_map [OF ok'(1), of x] branch_map [OF ok'(2), of x] Some c(2) both(4,5)
        by (auto simp: meets_def split: option.splits)
    qed
    then show ?thesis using r(1,2) both unfolding unf by (auto simp: Let_def meets_def)
  qed
qed

section \<open>Difference\<close>

lemma modify_absent:
  assumes "head_ok P d (Branch b e cl lc sc h t)" "table_map hd_byte t k = None" "f None = Some (r, None)"
  shows "modify_child P (Branch b e cl lc sc h t) k f = Some (r, Branch b e cl lc sc h t)"
proof -
  have "table_ok (pe_rand P) hd_byte t" using assms(1) by (simp add: head_ok_Branch)
  then have "table_get_slot (pe_rand P) hd_byte t k = Some None" using table_get_slot_eq [of "pe_rand P" hd_byte t k] assms(2) by (auto split: option.splits)
  then show ?thesis using assms(3) by (simp add: modify_child_def modify_child_with_def)
qed

lemma head_difference_spec:
  fixes a :: "'v head" and b :: "'w head"
  assumes "env_ok P" "head_ok P d a" "head_ok P d b" "agree P d (childleaf_key a) (childleaf_key b)" "s \<le> d"
    "no_collision P (head_keys a) (head_keys b)"
  shows "\<exists>r. head_difference P a b s = Some r \<and> result_ok P d r \<and> result_map r = head_map a |` (- head_keys b)"
  using assms
proof (induction "size a + size b" arbitrary: a b d s rule: less_induct)
  case less
  note env = less.prems(1) and ok = less.prems(2,3) and nc = less.prems(6)
  note unf = head_difference.simps [of P a b s, folded settled_def]
  have gone: "head_map a |` (- head_keys b) = Map.empty" if "head_keys a = head_keys b"
    using that by (auto simp: restrict_map_def head_keys_def fun_eq_iff)
  have kept: "head_map a |` (- head_keys b) = head_map a" if "\<And>x. head_map a x = None \<or> head_map b x = None"
    using that by (auto simp: restrict_map_def head_keys_def fun_eq_iff) (metis option.distinct(1))
  from env ok less.prems(4,5) nc show ?case
  proof (cases rule: walk_cases)
    case pair
    then show ?thesis using ok gone unfolding unf by simp
  next
    case same
    then show ?thesis using ok gone unfolding unf by simp
  next
    case (part dep)
    have "head_map a x = None \<or> head_map b x = None" for x
      using parted_not_below [OF ok(1) part(4), of x] parted_not_below [OF ok(2) part(5), of x] part(7) by metis
    then show ?thesis using part(1,2) ok(1) kept unfolding unf by auto
  next
    case (left y e cl lc sc h t)
    note ok' = ok(1) [unfolded left(4)]
    note bl = below_branch [OF env ok' ok(2) left(6,8) nc [unfolded left(4)], folded left(4)]
    let ?k = "byte_at P e b"
    let ?f = "\<lambda>opt. case opt of Some child \<Rightarrow> do { r \<leftarrow> head_difference P child b e; Some ((), r) } | None \<Rightarrow> Some ((), None)"
    have walk: "head_difference P a b s = (modify_child P a ?k ?f \<bind> (\<lambda>(_, br). collapse_branch P s br))"
      using left(1-4,6) bl(1) unfolding unf by (simp add: Let_def)
    show ?thesis
    proof (cases "table_map hd_byte t ?k")
      case None
      have "modify_child P a ?k ?f = Some ((), a)" unfolding left(4) by (rule modify_absent [OF ok' None]) simp
      moreover have "collapse_branch P s a = Some (Some a)" by (rule collapse_branch_intact [OF ok(1)]) (use left(4,7) in simp)
      moreover have "head_map a x = None \<or> head_map b x = None" for x using bl(4) [of x] bl(5) [OF None, of x] by blast
      ultimately show ?thesis using walk ok(1) kept by simp
    next
      case (Some c)
      note c = bl(6) [OF Some]
      obtain r where r: "head_difference P c b e = Some r" "result_ok P (Suc e) r" "result_map r = head_map c |` (- head_keys b)"
        using less.hyps [of c b "Suc e" e] env bl(3) c by force
      have "dom (result_map r) \<subseteq> head_keys c" unfolding r(3) by (auto simp: head_keys_def)
      from shrink_branch [where f = ?f and r = "()", OF env ok' less.prems(5) Some _ r(2) this] r(1)
      obtain br res where br: "modify_child P a ?k ?f = Some ((), br)" "collapse_branch P s br = Some res" "result_ok P d res"
          "\<And>x. result_map res x = (if tbyte P x e = ?k then result_map r x else head_map a x)" unfolding left(4) by auto
      have "result_map res x = (head_map a |` (- head_keys b)) x" for x
        using c [of x] bl(4) [of x] unfolding br(4) r(3) by (auto simp: restrict_map_def head_keys_def)
      then show ?thesis using walk br by auto
    qed
  next
    case (right y e cl lc sc h t)
    note bl = below_branch [OF env ok(2) [unfolded right(4)] ok(1) right(6) agree_sym [OF right(8)] no_collision_sym [OF nc [unfolded right(4)]], folded right(4)]
    show ?thesis
    proof (cases "table_map hd_byte t (byte_at P e a)")
      case None
      have "head_map a x = None \<or> head_map b x = None" for x
        using bl(4) [of x] bl(5) [OF None, of x] by (cases "head_map a x = None") simp_all
      then show ?thesis using right None bl(1,2) ok(1) kept unfolding unf by (simp add: Let_def)
    next
      case (Some c)
      note c = bl(6) [OF Some]
      have "head_ok P d c" "agree P d (childleaf_key a) (childleaf_key c)" "no_collision P (head_keys a) (head_keys c)"
        using c right(5) head_ok_mono [of P "Suc e" c d] agree_mono [of P "Suc e" _ _ d] agree_sym no_collision_sym by force+
      then obtain r where r: "head_difference P a c s = Some r" "result_ok P d r" "result_map r = head_map a |` (- head_keys c)"
        using less.hyps [of a c d s] env ok(1) less.prems(5) c by force
      have "(head_map a |` (- head_keys c)) x = (head_map a |` (- head_keys b)) x" for x
        using c [of x] bl(4) [of x] by (cases "tbyte P x e = byte_at P e a"; cases "head_map a x") (auto simp: restrict_map_def head_keys_def domIff)
      then show ?thesis using r right Some bl(1,2) unfolding unf by (auto simp: Let_def)
    qed
  next
    case (both y e cl lc sc h t y' cl' lc' sc' h' t')
    note ok' = ok(1) [unfolded both(4)] ok(2) [unfolded both(5)]
    let ?f = "\<lambda>c. do { child \<leftarrow> child_get P b (hd_byte c); case child of Some c' \<Rightarrow> head_difference P c c' e | None \<Rightarrow> Some (Some c) }"
    let ?M = "\<lambda>c. case table_map hd_byte t' (hd_byte c) of None \<Rightarrow> {} | Some c' \<Rightarrow> head_keys c'"
    have f: "\<exists>r. ?f c = Some r \<and> result_ok P (Suc e) r \<and> result_map r = head_map c |` (- ?M c)"
      if c: "c \<in> set (table_entries t)" for c
    proof (cases "table_map hd_byte t' (hd_byte c)")
      case None
      then show ?thesis using child_get_eq [OF ok'(2)] both(5) entries_children(3) [OF ok'(1) c] by (simp add: restrict_map_def)
    next
      case (Some c')
      note mc = matching_child [OF ok' both(8) c Some nc [unfolded both(4,5)]]
      have "\<exists>r. head_difference P c c' e = Some r \<and> result_ok P (Suc e) r \<and> result_map r = head_map c |` (- head_keys c')"
        using less.hyps [OF _ env mc(1-3) _ mc(4), of e] mc(5,6) both(4,5) by simp
      then show ?thesis using child_get_eq [OF ok'(2)] Some both(5) by simp
    qed
    have "\<exists>r. ?f c = Some r \<and> result_ok P (Suc e) r \<and> dom (result_map r) \<subseteq> head_keys c" if "c \<in> set (table_entries t)" for c
      using f [OF that] by (fastforce simp: head_keys_def)
    from filtered_children [OF env ok'(1) this] obtain r where r: "(filter_map_panic ?f (table_entries t) \<bind> rebuild P e) = Some r" "result_ok P d r"
        "\<And>x. result_map r x = (case table_map hd_byte t (tbyte P x e) of None \<Rightarrow> None | Some c \<Rightarrow> result_map (the (?f c)) x)" by blast
    have "result_map r x = (head_map a |` (- head_keys b)) x" for x
    proof (cases "table_map hd_byte t (tbyte P x e)")
      case None
      then show ?thesis using r(3) [of x] branch_map [OF ok'(1), of x] both(4) by (simp add: restrict_map_def)
    next
      case (Some c)
      have c: "c \<in> set (table_entries t)" "hd_byte c = tbyte P x e" using Some entries_children(2,3) [OF ok'(1), of c] ok'(1) by (auto simp: head_ok_Branch)
      have "result_map r x = (head_map c |` (- ?M c)) x" using f [OF c(1)] r(3) [of x] Some by auto
      moreover have "head_map a x = head_map c x" using branch_map [OF ok'(1), of x] Some both(4) by simp
      moreover have "x \<in> head_keys b \<longleftrightarrow> x \<in> ?M c"
        using branch_map [OF ok'(2), of x] c(2) both(5) by (simp add: head_keys_def domIff split: option.split)
      ultimately show ?thesis by (simp add: restrict_map_def)
    qed
    then show ?thesis using r(1,2) both unfolding unf by (auto simp: Let_def)
  qed
qed

section \<open>Inclusion\<close>

definition ord_of :: "bool \<Rightarrow> bool \<Rightarrow> ordering option" where
  "ord_of le ge = (if le then Some (if ge then Equal else Less) else if ge then Some Greater else None)"

text \<open>How two sets are ordered by inclusion.\<close>

definition set_order :: "'a set \<Rightarrow> 'a set \<Rightarrow> ordering option" where
  "set_order A B = ord_of (A \<subseteq> B) (B \<subseteq> A)"

lemma ord_of_iff [simp]: "ord_of a b = Some Equal \<longleftrightarrow> a \<and> b" "ord_of a b = Some Less \<longleftrightarrow> a \<and> \<not> b" "ord_of a b = Some Greater \<longleftrightarrow> \<not> a \<and> b"
  "ord_of a b = None \<longleftrightarrow> \<not> a \<and> \<not> b"
  by (simp_all add: ord_of_def)

lemma meet_ord_of: "meet (ord_of a b) (ord_of c d) = (if (a \<and> c) \<or> (b \<and> d) then Some (ord_of (a \<and> c) (b \<and> d)) else None)"
  by (auto simp: meet_def ord_of_def)

lemma meet_loop_eq:
  assumes "a \<or> b" "\<And>x. x \<in> set xs \<Longrightarrow> f x = Some (Some (ord_of (p x) (q x))) \<or> (f x = Some None \<and> p x \<and> q x)"
  shows "meet_loop f (ord_of a b) xs = (let a' = a \<and> (\<forall>x \<in> set xs. p x); b' = b \<and> (\<forall>x \<in> set xs. q x) in
    Some (if a' \<or> b' then Some (ord_of a' b') else None))"
  using assms
proof (induction xs arbitrary: a b)
  case (Cons x xs)
  consider "f x = Some None" "p x" "q x" | "f x = Some (Some (ord_of (p x) (q x)))" using Cons.prems(2) [of x] by auto
  then show ?case
  proof cases
    case 1
    then show ?thesis using Cons by (simp add: Let_def)
  next
    case 2
    show ?thesis
    proof (cases "(a \<and> p x) \<or> (b \<and> q x)")
      case True
      then show ?thesis using 2 Cons.IH [OF True] Cons.prems(2) by (auto simp: meet_ord_of Let_def)
    qed (use 2 in \<open>auto simp: meet_ord_of Let_def\<close>)
  qed
qed (simp add: Let_def)

text \<open>The keys below the child under a byte.\<close>

definition keys_under :: "'v head option list \<Rightarrow> u8 \<Rightarrow> u8 list set" where
  "keys_under t k = (case table_map hd_byte t k of None \<Rightarrow> {} | Some c \<Rightarrow> head_keys c)"

lemma in_branch_keys:
  assumes "head_ok P d (Branch y e cl lc sc h t)"
  shows "x \<in> head_keys (Branch y e cl lc sc h t) \<longleftrightarrow> x \<in> keys_under t (tbyte P x e)" "x \<in> keys_under t k \<Longrightarrow> tbyte P x e = k"
proof -
  show "x \<in> head_keys (Branch y e cl lc sc h t) \<longleftrightarrow> x \<in> keys_under t (tbyte P x e)"
    using branch_map [OF assms, of x] by (simp add: keys_under_def head_keys_def domIff split: option.split)
  show "x \<in> keys_under t k \<Longrightarrow> tbyte P x e = k"
    using child_byte(1) [OF assms, of k _ x] by (simp add: keys_under_def split: option.splits)
qed

lemma under_entry:
  assumes "head_ok P d (Branch y e cl lc sc h t)" "c \<in> set (table_entries t)"
  shows "keys_under t (hd_byte c) = head_keys c" "head_keys c \<noteq> {}"
  using entries_children(3) [OF assms] head_keys_ok(1) [of P "Suc e" c] by (auto simp: keys_under_def)

lemma branch_subset:
  assumes ok: "head_ok P d (Branch y e cl lc sc h t)" "head_ok P d' (Branch y' e cl' lc' sc' h' t')"
  shows "head_keys (Branch y e cl lc sc h t) \<subseteq> head_keys (Branch y' e cl' lc' sc' h' t') \<longleftrightarrow> (\<forall>c \<in> set (table_entries t). head_keys c \<subseteq> keys_under t' (hd_byte c))"
    (is "?A \<subseteq> ?B \<longleftrightarrow> ?R")
proof
  assume sub: "?A \<subseteq> ?B"
  show ?R
  proof (intro ballI subsetI)
    fix c x assume c: "c \<in> set (table_entries t)" "x \<in> head_keys c"
    have x: "x \<in> keys_under t (hd_byte c)" using under_entry(1) [OF ok(1) c(1)] c(2) by simp
    then have b: "tbyte P x e = hd_byte c" by (rule in_branch_keys(2) [OF ok(1)])
    then have "x \<in> ?A" using in_branch_keys(1) [OF ok(1), of x] x by simp
    then have "x \<in> ?B" using sub by blast
    then show "x \<in> keys_under t' (hd_byte c)" using in_branch_keys(1) [OF ok(2), of x] b by simp
  qed
next
  assume R: ?R
  show "?A \<subseteq> ?B"
  proof
    fix x assume "x \<in> ?A"
    then have x: "x \<in> keys_under t (tbyte P x e)" using in_branch_keys(1) [OF ok(1)] by simp
    then obtain c where c: "table_map hd_byte t (tbyte P x e) = Some c" "x \<in> head_keys c" by (auto simp: keys_under_def split: option.splits)
    then have m: "c \<in> set (table_entries t)" using entries_children(2) [OF ok(1)] by blast
    have "hd_byte c = tbyte P x e" using in_branch_keys(2) [OF ok(1), of x "hd_byte c"] under_entry(1) [OF ok(1) m] c(2) by simp
    moreover have "x \<in> keys_under t' (hd_byte c)" using R m c(2) by blast
    ultimately show "x \<in> ?B" using in_branch_keys(1) [OF ok(2), of x] by simp
  qed
qed

lemma covered_children:
  assumes ok: "head_ok P d (Branch y e cl lc sc h t)" "head_ok P d' (Branch y' e cl' lc' sc' h' t')"
  shows "(\<forall>c \<in> set (table_entries t'). head_keys c \<subseteq> keys_under t (hd_byte c)) \<longleftrightarrow>
    (\<forall>c \<in> set (table_entries t). keys_under t' (hd_byte c) \<subseteq> head_keys c) \<and> (\<forall>c \<in> set (table_entries t'). table_map hd_byte t (hd_byte c) \<noteq> None)"
    (is "?L \<longleftrightarrow> ?R1 \<and> ?R2")
proof (intro iffI conjI)
  assume L: ?L
  show ?R1
  proof
    fix c assume c: "c \<in> set (table_entries t)"
    show "keys_under t' (hd_byte c) \<subseteq> head_keys c"
    proof (cases "table_map hd_byte t' (hd_byte c)")
      case (Some c')
      then have c': "c' \<in> set (table_entries t')" using entries_children(2) [OF ok(2)] by blast
      have "hd_byte c' = hd_byte c" using entries_children(3) [OF ok(2) c'] ok(2) Some by (auto simp: head_ok_Branch)
      moreover have "head_keys c' \<subseteq> keys_under t (hd_byte c')" using L c' by blast
      moreover have "keys_under t' (hd_byte c) = head_keys c'" using Some by (simp add: keys_under_def)
      ultimately show ?thesis using under_entry(1) [OF ok(1) c] by simp
    qed (simp add: keys_under_def)
  qed
  show ?R2
  proof
    fix c assume c: "c \<in> set (table_entries t')"
    have "keys_under t (hd_byte c) \<noteq> {}" using L c under_entry(2) [OF ok(2) c] by blast
    then show "table_map hd_byte t (hd_byte c) \<noteq> None" by (auto simp: keys_under_def)
  qed
next
  assume R: "?R1 \<and> ?R2"
  show ?L
  proof
    fix c assume c: "c \<in> set (table_entries t')"
    then obtain o' where o': "table_map hd_byte t (hd_byte c) = Some o'" using R by blast
    then have m: "o' \<in> set (table_entries t)" using entries_children(2) [OF ok(1)] by blast
    have "hd_byte o' = hd_byte c" using entries_children(3) [OF ok(1) m] ok(1) o' by (auto simp: head_ok_Branch)
    moreover have "keys_under t' (hd_byte o') \<subseteq> head_keys o'" using R m by blast
    ultimately show "head_keys c \<subseteq> keys_under t (hd_byte c)" using under_entry(1) [OF ok(2) c] under_entry(1) [OF ok(1) m] by simp
  qed
qed

lemma two_bytes:
  assumes "head_ok P d (Branch y e cl lc sc h t)"
  obtains x where "x \<in> head_keys (Branch y e cl lc sc h t)" "tbyte P x e \<noteq> k"
proof -
  have "2 \<le> card (dom (table_map hd_byte t))" using assms by (simp add: head_ok_Branch)
  moreover have "card (dom (table_map hd_byte t)) \<le> 1" if "dom (table_map hd_byte t) \<subseteq> {k}" using card_mono [OF _ that] by simp
  ultimately obtain k' where k': "k' \<in> dom (table_map hd_byte t)" "k' \<noteq> k" by fastforce
  then obtain c where c: "table_map hd_byte t k' = Some c" by blast
  have "head_ok P (Suc e) c" using assms c by (auto simp: head_ok_Branch)
  then have x: "childleaf_key c \<in> keys_under t k'" using c head_keys_ok(1) by (simp add: keys_under_def)
  then have "tbyte P (childleaf_key c) e = k'" by (rule in_branch_keys(2) [OF assms])
  then show thesis using that [of "childleaf_key c"] x k'(2) in_branch_keys(1) [OF assms] by simp
qed

lemma head_inclusion_spec:
  fixes a b :: "'v head"
  assumes "env_ok P" "head_ok P d a" "head_ok P d b" "agree P d (childleaf_key a) (childleaf_key b)" "s \<le> d"
    "no_collision P (head_keys a) (head_keys b)"
  shows "head_inclusion P a b s = Some (set_order (head_keys a) (head_keys b))"
  using assms
proof (induction "size a + size b" arbitrary: a b d s rule: less_induct)
  case less
  note env = less.prems(1) and ok = less.prems(2,3) and nc = less.prems(6)
  note unf = head_inclusion.simps [of P a b s, folded settled_def]
  from env ok less.prems(4,5) nc show ?case
  proof (cases rule: walk_cases)
    case pair
    then show ?thesis unfolding unf by (simp add: set_order_def ord_of_def)
  next
    case same
    then show ?thesis unfolding unf by (simp add: set_order_def ord_of_def)
  next
    case (part dep)
    have "head_map a x = None \<or> head_map b x = None" for x
      using parted_not_below [OF ok(1) part(4), of x] parted_not_below [OF ok(2) part(5), of x] part(7) by metis
    then have "x \<notin> head_keys a \<or> x \<notin> head_keys b" for x by (simp add: head_keys_def domIff)
    then have "\<not> head_keys a \<subseteq> head_keys b" "\<not> head_keys b \<subseteq> head_keys a" using head_keys_ok(1) [OF ok(1)] head_keys_ok(1) [OF ok(2)] by blast+
    then have "set_order (head_keys a) (head_keys b) = None" by (simp add: set_order_def)
    then show ?thesis using part(1,2) unfolding unf by auto
  next
    case (left y e cl lc sc h t)
    note ok' = ok(1) [unfolded left(4)]
    note bl = below_branch [OF env ok' ok(2) left(6,8) nc [unfolded left(4)], folded left(4)]
    have bk: "tbyte P x e = byte_at P e b" if "x \<in> head_keys b" for x using bl(4) [of x] that by (simp add: head_keys_def domIff)
    have nle: "\<not> head_keys a \<subseteq> head_keys b" using two_bytes [OF ok', of "byte_at P e b"] bk unfolding left(4) by blast
    show ?thesis
    proof (cases "table_map hd_byte t (byte_at P e b)")
      case None
      have "childleaf_key b \<notin> head_keys a" using bl(5) [OF None, of "childleaf_key b"] by (simp add: head_keys_def domIff)
      then have "\<not> head_keys b \<subseteq> head_keys a" using head_keys_ok(1) [OF ok(2)] by blast
      then have "set_order (head_keys a) (head_keys b) = None" using nle by (simp add: set_order_def)
      then show ?thesis using left None bl(1,2) unfolding unf by (simp add: Let_def)
    next
      case (Some c)
      note c = bl(6) [OF Some]
      have "head_ok P d c" "agree P d (childleaf_key c) (childleaf_key b)"
        using c left(5) head_ok_mono [of P "Suc e" c d] agree_mono [of P "Suc e" _ _ d] by force+
      then have r: "head_inclusion P c b s = Some (set_order (head_keys c) (head_keys b))"
        using less.hyps [of c b d s] env ok(2) less.prems(5) c by force
      have "head_keys b \<subseteq> head_keys c \<longleftrightarrow> head_keys b \<subseteq> head_keys a"
        using c bk by (auto simp: head_keys_def domIff subset_iff split: if_splits)
      then show ?thesis using r left Some bl(1,2) nle unfolding unf by (auto simp: Let_def set_order_def ord_of_def)
    qed
  next
    case (right y e cl lc sc h t)
    note ok' = ok(2) [unfolded right(4)]
    note bl = below_branch [OF env ok' ok(1) right(6) agree_sym [OF right(8)] no_collision_sym [OF nc [unfolded right(4)]], folded right(4)]
    have ak: "tbyte P x e = byte_at P e a" if "x \<in> head_keys a" for x using bl(4) [of x] that by (simp add: head_keys_def domIff)
    have nge: "\<not> head_keys b \<subseteq> head_keys a" using two_bytes [OF ok', of "byte_at P e a"] ak unfolding right(4) by blast
    show ?thesis
    proof (cases "table_map hd_byte t (byte_at P e a)")
      case None
      have "childleaf_key a \<notin> head_keys b" using bl(5) [OF None, of "childleaf_key a"] by (simp add: head_keys_def domIff)
      then have "\<not> head_keys a \<subseteq> head_keys b" using head_keys_ok(1) [OF ok(1)] by blast
      then have "set_order (head_keys a) (head_keys b) = None" using nge by (simp add: set_order_def)
      then show ?thesis using right None bl(1,2) unfolding unf by (simp add: Let_def)
    next
      case (Some c)
      note c = bl(6) [OF Some]
      have "head_ok P d c" "agree P d (childleaf_key a) (childleaf_key c)" "no_collision P (head_keys a) (head_keys c)"
        using c right(5) head_ok_mono [of P "Suc e" c d] agree_mono [of P "Suc e" _ _ d] agree_sym no_collision_sym by force+
      then have r: "head_inclusion P a c s = Some (set_order (head_keys a) (head_keys c))"
        using less.hyps [of a c d s] env ok(1) less.prems(5) c by force
      have "head_keys a \<subseteq> head_keys c \<longleftrightarrow> head_keys a \<subseteq> head_keys b"
        using c ak by (auto simp: head_keys_def domIff subset_iff split: if_splits)
      then show ?thesis using r right Some bl(1,2) nge unfolding unf by (auto simp: Let_def set_order_def ord_of_def)
    qed
  next
    case (both y e cl lc sc h t y' cl' lc' sc' h' t')
    note ok' = ok(1) [unfolded both(4)] ok(2) [unfolded both(5)]
    let ?f = "\<lambda>c. do { child \<leftarrow> child_get P b (hd_byte c);
      child_order \<leftarrow> (case child of Some c' \<Rightarrow> head_inclusion P c c' e | None \<Rightarrow> Some (Some Greater)); Some (Some child_order) }"
    let ?g = "\<lambda>c. do { child \<leftarrow> child_get P a (hd_byte c); Some (if child = None then Some (Some Less) else None) }"
    let ?p = "\<lambda>c. head_keys c \<subseteq> keys_under t' (hd_byte c)" and ?q = "\<lambda>c. keys_under t' (hd_byte c) \<subseteq> head_keys c"
    let ?r = "\<lambda>c. table_map hd_byte t (hd_byte c) \<noteq> None"
    have f: "?f c = Some (Some (ord_of (?p c) (?q c)))" if c: "c \<in> set (table_entries t)" for c
    proof (cases "table_map hd_byte t' (hd_byte c)")
      case None
      then show ?thesis using child_get_eq [OF ok'(2)] both(5) under_entry(2) [OF ok'(1) c] by (auto simp: keys_under_def ord_of_def)
    next
      case (Some c')
      note mc = matching_child [OF ok' both(8) c Some nc [unfolded both(4,5)]]
      have "head_inclusion P c c' e = Some (set_order (head_keys c) (head_keys c'))"
        using less.hyps [OF _ env mc(1-3) _ mc(4), of e] mc(5,6) both(4,5) by simp
      then show ?thesis using child_get_eq [OF ok'(2)] Some both(5) by (simp add: keys_under_def set_order_def)
    qed
    have g: "?g c = Some (Some (ord_of True (?r c))) \<or> (?g c = Some None \<and> True \<and> ?r c)" for c
      using child_get_eq [OF ok'(1), of "hd_byte c"] both(4) by (auto simp: ord_of_def)
    have le: "head_keys a \<subseteq> head_keys b \<longleftrightarrow> (\<forall>c \<in> set (table_entries t). ?p c)" unfolding both(4,5) by (rule branch_subset [OF ok'])
    have ge: "head_keys b \<subseteq> head_keys a \<longleftrightarrow> (\<forall>c \<in> set (table_entries t). ?q c) \<and> (\<forall>c \<in> set (table_entries t'). ?r c)"
      unfolding both(4,5) branch_subset [OF ok'(2,1)] by (rule covered_children [OF ok'])
    have loop1: "meet_loop ?f (Some Equal) (table_entries t) = (let a' = (\<forall>c \<in> set (table_entries t). ?p c); b' = (\<forall>c \<in> set (table_entries t). ?q c) in
        Some (if a' \<or> b' then Some (ord_of a' b') else None))"
      using meet_loop_eq [of True True "table_entries t" ?f ?p ?q] f by (simp add: ord_of_def)
    show ?thesis
    proof (cases "head_keys a \<subseteq> head_keys b \<or> (\<forall>c \<in> set (table_entries t). ?q c)")
      case True
      let ?a = "\<forall>c \<in> set (table_entries t). ?p c" and ?b = "\<forall>c \<in> set (table_entries t). ?q c"
      have "meet_loop ?g (ord_of ?a ?b) (table_entries t') = (let a' = ?a \<and> (\<forall>c \<in> set (table_entries t'). True); b' = ?b \<and> (\<forall>c \<in> set (table_entries t'). ?r c) in
          Some (if a' \<or> b' then Some (ord_of a' b') else None))"
        by (rule meet_loop_eq [where p = "\<lambda>_. True"]) (use True le g in auto)
      then have "(meet_loop ?g (ord_of ?a ?b) (table_entries t') \<bind> (\<lambda>r'. Some (case r' of None \<Rightarrow> None | Some ord' \<Rightarrow> ord')))
          = Some (set_order (head_keys a) (head_keys b))" unfolding set_order_def le ge by (auto simp: Let_def ord_of_def)
      moreover have "meet_loop ?f (Some Equal) (table_entries t) = Some (Some (ord_of ?a ?b))" using loop1 True le by (simp add: Let_def)
      ultimately show ?thesis using both unfolding unf by (simp add: Let_def)
    next
      case False
      then have "meet_loop ?f (Some Equal) (table_entries t) = Some None" using loop1 le by (simp add: Let_def)
      moreover have "set_order (head_keys a) (head_keys b) = None" using False ge by (simp add: set_order_def)
      ultimately show ?thesis using both unfolding unf by (simp add: Let_def)
    qed
  qed
qed

end
