(* ===== verification/Patch_Sets.thy ===== *)
theory Patch_Sets
  imports Patch_Algebra Trible_Set
begin

text \<open>
  The set operations of the containers: \<open>PATCH::union\<close>, \<open>intersect\<close>, \<open>difference\<close> and the comparisons of
  \<open>patch.rs\<close>, and those of \<open>TribleSet\<close> in \<open>trible/tribleset.rs\<close>, which apply them to its six indexes. The
  contract that a client of either relies on is the locale \<open>set_algebra\<close>.
\<close>

section \<open>PATCH\<close>

definition patch_union :: "patch_env \<Rightarrow> 'v patch \<Rightarrow> 'v patch \<Rightarrow> 'v patch option" where
  "patch_union P p other = (case pt_root other of
     Some other_root \<Rightarrow> (case pt_root p of
       Some this \<Rightarrow> do { merged_root \<leftarrow> head_union (Suc (key_len P)) P this other_root 0; Some (p\<lparr>pt_root := Some merged_root\<rparr>) }
     | None \<Rightarrow> Some (p\<lparr>pt_root := Some other_root\<rparr>))
   | None \<Rightarrow> Some p)"

definition patch_intersect :: "patch_env \<Rightarrow> 'v patch \<Rightarrow> 'v patch \<Rightarrow> 'v patch option" where
  "patch_intersect P p other = (case (pt_root p, pt_root other) of
     (Some root, Some other_root) \<Rightarrow> do {
       result \<leftarrow> head_intersect P root other_root 0;
       case result of
         Some h \<Rightarrow> do { h' \<leftarrow> with_start P h 0; Some \<lparr>pt_root = Some h'\<rparr> }
       | None \<Rightarrow> Some \<lparr>pt_root = None\<rparr>
     }
   | _ \<Rightarrow> Some \<lparr>pt_root = None\<rparr>)"

definition patch_difference_keys :: "patch_env \<Rightarrow> 'v patch \<Rightarrow> 'w patch \<Rightarrow> 'v patch option" where
  "patch_difference_keys P p other = (case (pt_root p, pt_root other) of
     (Some root, Some other_root) \<Rightarrow> do { result \<leftarrow> head_difference P root other_root 0; Some \<lparr>pt_root = result\<rparr> }
   | (Some root, None) \<Rightarrow> Some \<lparr>pt_root = Some root\<rparr>
   | (None, _) \<Rightarrow> Some \<lparr>pt_root = None\<rparr>)"

definition patch_difference :: "patch_env \<Rightarrow> 'v patch \<Rightarrow> 'v patch \<Rightarrow> 'v patch option" where
  "patch_difference P p other = patch_difference_keys P p other"

definition patch_eq :: "patch_env \<Rightarrow> 'v patch \<Rightarrow> 'v patch \<Rightarrow> bool" where
  "patch_eq P p other \<longleftrightarrow> map_option (head_hash P) (pt_root p) = map_option (head_hash P) (pt_root other)"

definition patch_partial_cmp :: "patch_env \<Rightarrow> 'v patch \<Rightarrow> 'v patch \<Rightarrow> ordering option option" where
  "patch_partial_cmp P p other = (case (pt_root p, pt_root other) of
     (None, None) \<Rightarrow> Some (Some Equal)
   | (None, Some _) \<Rightarrow> Some (Some Less)
   | (Some _, None) \<Rightarrow> Some (Some Greater)
   | (Some root, Some other_root) \<Rightarrow> head_inclusion P root other_root 0)"

section \<open>Trible sets\<close>

definition ts_union :: "hash_env \<Rightarrow> trible_set \<Rightarrow> trible_set \<Rightarrow> trible_set option" where
  "ts_union H s other = do {
     eav \<leftarrow> patch_union (order_env H eav_order) (ts_eav s) (ts_eav other);
     eva \<leftarrow> patch_union (order_env H eva_order) (ts_eva s) (ts_eva other);
     aev \<leftarrow> patch_union (order_env H aev_order) (ts_aev s) (ts_aev other);
     ave \<leftarrow> patch_union (order_env H ave_order) (ts_ave s) (ts_ave other);
     vea \<leftarrow> patch_union (order_env H vea_order) (ts_vea s) (ts_vea other);
     vae \<leftarrow> patch_union (order_env H vae_order) (ts_vae s) (ts_vae other);
     Some \<lparr>ts_eav = eav, ts_vea = vea, ts_ave = ave, ts_vae = vae, ts_eva = eva, ts_aev = aev\<rparr>
   }"

definition ts_intersect :: "hash_env \<Rightarrow> trible_set \<Rightarrow> trible_set \<Rightarrow> trible_set option" where
  "ts_intersect H s other = do {
     eav \<leftarrow> patch_intersect (order_env H eav_order) (ts_eav s) (ts_eav other);
     eva \<leftarrow> patch_intersect (order_env H eva_order) (ts_eva s) (ts_eva other);
     aev \<leftarrow> patch_intersect (order_env H aev_order) (ts_aev s) (ts_aev other);
     ave \<leftarrow> patch_intersect (order_env H ave_order) (ts_ave s) (ts_ave other);
     vea \<leftarrow> patch_intersect (order_env H vea_order) (ts_vea s) (ts_vea other);
     vae \<leftarrow> patch_intersect (order_env H vae_order) (ts_vae s) (ts_vae other);
     Some \<lparr>ts_eav = eav, ts_vea = vea, ts_ave = ave, ts_vae = vae, ts_eva = eva, ts_aev = aev\<rparr>
   }"

definition ts_difference :: "hash_env \<Rightarrow> trible_set \<Rightarrow> trible_set \<Rightarrow> trible_set option" where
  "ts_difference H s other = do {
     eav \<leftarrow> patch_difference_keys (order_env H eav_order) (ts_eav s) (ts_eav other);
     eva \<leftarrow> patch_difference_keys (order_env H eva_order) (ts_eva s) (ts_eva other);
     aev \<leftarrow> patch_difference_keys (order_env H aev_order) (ts_aev s) (ts_aev other);
     ave \<leftarrow> patch_difference_keys (order_env H ave_order) (ts_ave s) (ts_ave other);
     vea \<leftarrow> patch_difference_keys (order_env H vea_order) (ts_vea s) (ts_vea other);
     vae \<leftarrow> patch_difference_keys (order_env H vae_order) (ts_vae s) (ts_vae other);
     Some \<lparr>ts_eav = eav, ts_vea = vea, ts_ave = ave, ts_vae = vae, ts_eva = eva, ts_aev = aev\<rparr>
   }"

definition ts_eq :: "hash_env \<Rightarrow> trible_set \<Rightarrow> trible_set \<Rightarrow> bool" where
  "ts_eq H s other \<longleftrightarrow> patch_eq (order_env H eav_order) (ts_eav s) (ts_eav other)"

definition ts_add :: "hash_env \<Rightarrow> trible_set \<Rightarrow> trible_set \<Rightarrow> trible_set option" where
  "ts_add H s rhs = ts_union H s rhs"

section \<open>The operations of a PATCH\<close>

lemma patch_root_cases:
  obtains (none) "pt_root p = None" "patch_map p = Map.empty"
    | (some) h where "pt_root p = Some h" "patch_map p = head_map h" "dom (patch_map p) = head_keys h"
  by (cases "pt_root p") (auto simp: patch_map_def head_keys_def)

lemma patch_union_spec:
  assumes env: "env_ok P" and ok: "patch_ok P p" "patch_ok P q" and nc: "no_collision P (dom (patch_map p)) (dom (patch_map q))"
  shows "\<exists>u. patch_union P p q = Some u \<and> patch_ok P u \<and> merges (patch_map u) (patch_map p) (patch_map q)"
proof (cases p rule: patch_root_cases)
  case none
  then show ?thesis using ok by (cases q rule: patch_root_cases) (auto simp: patch_union_def patch_ok_def merges_def merged_def patch_map_def)
next
  case (some a)
  show ?thesis
  proof (cases q rule: patch_root_cases)
    case none
    then show ?thesis using ok by (auto simp: patch_union_def merges_def merged_def)
  next
    case (some b)
    note a = \<open>pt_root p = Some a\<close> \<open>patch_map p = head_map a\<close> \<open>dom (patch_map p) = head_keys a\<close>
    have "head_ok P 0 a" "head_ok P 0 b" using ok a(1) some(1) by (simp_all add: patch_ok_def)
    then obtain h where "head_union (Suc (key_len P)) P a b 0 = Some h" "head_ok P 0 h" "merges (head_map h) (head_map a) (head_map b)"
      using head_union_spec [OF env, of 0 a b 0 "Suc (key_len P)"] nc a(3) some(3) by (auto simp: agree_def)
    then show ?thesis using a some by (auto simp: patch_union_def patch_ok_def patch_map_def)
  qed
qed

lemma patch_intersect_spec:
  assumes env: "env_ok P" "0 < key_len P" and ok: "patch_ok P p" "patch_ok P q" and nc: "no_collision P (dom (patch_map p)) (dom (patch_map q))"
  shows "\<exists>u. patch_intersect P p q = Some u \<and> patch_ok P u \<and> meets (patch_map u) (patch_map p) (patch_map q)"
proof (cases "pt_root p = None \<or> pt_root q = None")
  case True
  then show ?thesis by (cases p rule: patch_root_cases; cases q rule: patch_root_cases)
    (auto simp: patch_intersect_def patch_ok_def meets_def patch_map_def)
next
  case False
  then obtain a b where r: "pt_root p = Some a" "pt_root q = Some b" by auto
  have m: "patch_map p = head_map a" "patch_map q = head_map b" using r by (simp_all add: patch_map_def)
  have ab: "head_ok P 0 a" "head_ok P 0 b" using ok r by (simp_all add: patch_ok_def)
  obtain x where x: "head_intersect P a b 0 = Some x" "result_ok P 0 x" "meets (result_map x) (head_map a) (head_map b)"
    using head_intersect_spec [OF env(1) ab, of 0] nc m by (auto simp: agree_def head_keys_def)
  show ?thesis
  proof (cases x)
    case None
    then show ?thesis using x r m by (auto simp: patch_intersect_def patch_ok_def patch_map_def)
  next
    case (Some h)
    then have h: "head_ok P 0 h" using x(2) by simp
    show ?thesis using x Some r m with_start_in [OF env(1) h env(2)] h
      by (auto simp: patch_intersect_def patch_ok_def patch_map_def)
  qed
qed

lemma patch_difference_keys_spec:
  assumes env: "env_ok P" and ok: "patch_ok P p" "patch_ok P q" and nc: "no_collision P (dom (patch_map p)) (dom (patch_map q))"
  shows "\<exists>u. patch_difference_keys P p q = Some u \<and> patch_ok P u \<and> patch_map u = patch_map p |` (- dom (patch_map q))"
proof (cases "pt_root p = None \<or> pt_root q = None")
  case True
  then show ?thesis using ok by (cases p rule: patch_root_cases; cases q rule: patch_root_cases)
    (auto simp: patch_difference_keys_def patch_ok_def patch_map_def restrict_map_def)
next
  case False
  then obtain a b where r: "pt_root p = Some a" "pt_root q = Some b" by auto
  have m: "patch_map p = head_map a" "patch_map q = head_map b" using r by (simp_all add: patch_map_def)
  have ab: "head_ok P 0 a" "head_ok P 0 b" using ok r by (simp_all add: patch_ok_def)
  obtain x where x: "head_difference P a b 0 = Some x" "result_ok P 0 x" "result_map x = head_map a |` (- head_keys b)"
    using head_difference_spec [OF env ab, of 0] nc m by (auto simp: agree_def head_keys_def)
  then show ?thesis using r m by (cases x) (auto simp: patch_difference_keys_def patch_ok_def patch_map_def head_keys_def)
qed

lemma patch_cmp_spec:
  assumes env: "env_ok P" and ok: "patch_ok P p" "patch_ok P q" and nc: "no_collision P (dom (patch_map p)) (dom (patch_map q))"
  shows "patch_partial_cmp P p q = Some (set_order (dom (patch_map p)) (dom (patch_map q)))"
proof -
  have ne: "head_keys h \<noteq> {}" if "head_ok P 0 h" for h :: "'a head" using head_keys_ok(1) [OF that] by blast
  show ?thesis
    using head_inclusion_spec [OF env, of 0 "the (pt_root p)" "the (pt_root q)" 0] ok nc ne
    by (cases p rule: patch_root_cases; cases q rule: patch_root_cases)
      (auto simp: patch_partial_cmp_def patch_ok_def agree_def set_order_def ord_of_def)
qed

text \<open>PATCHes with the same keys compare equal, however they were built; this needs nothing of the digests.\<close>

lemma patch_eq_same_keys:
  assumes ok: "patch_ok P p" "patch_ok P q" and keys: "dom (patch_map p) = dom (patch_map q)"
  shows "patch_eq P p q"
proof -
  have "patch_root_hash P r = (if dom (patch_map r) = {} then None else Some (xor128.F (pe_leaf_hash P) (dom (patch_map r))))"
    if "patch_ok P r" for r :: "'a patch" using patch_root_hash_keys [OF that] patch_empty_iff [OF that] by simp
  from this [OF ok(1)] this [OF ok(2)] have "patch_root_hash P p = patch_root_hash P q" unfolding keys by (rule trans [OF _ sym])
  then show ?thesis by (simp add: patch_eq_def patch_root_hash_def)
qed

section \<open>The contract of a set\<close>

text \<open>
  What a client relies on: sets whose digests tell their parts apart (\<open>apart\<close>) can be united, intersected and
  subtracted, and the results are intact sets again; and sets of the same elements compare equal.
\<close>

locale set_algebra =
  fixes ok :: "'s \<Rightarrow> bool" and elems :: "'s \<Rightarrow> 'a set" and apart :: "'s \<Rightarrow> 's \<Rightarrow> bool"
    and uni inter diff :: "'s \<Rightarrow> 's \<Rightarrow> 's option" and eq :: "'s \<Rightarrow> 's \<Rightarrow> bool"
  assumes uni: "ok a \<Longrightarrow> ok b \<Longrightarrow> apart a b \<Longrightarrow> \<exists>c. uni a b = Some c \<and> ok c \<and> elems c = elems a \<union> elems b"
    and inter: "ok a \<Longrightarrow> ok b \<Longrightarrow> apart a b \<Longrightarrow> \<exists>c. inter a b = Some c \<and> ok c \<and> elems c = elems a \<inter> elems b"
    and diff: "ok a \<Longrightarrow> ok b \<Longrightarrow> apart a b \<Longrightarrow> \<exists>c. diff a b = Some c \<and> ok c \<and> elems c = elems a - elems b"
    and eq: "ok a \<Longrightarrow> ok b \<Longrightarrow> elems a = elems b \<Longrightarrow> eq a b"
    and apart_sym: "apart a b \<Longrightarrow> apart b a"
begin

text \<open>Union does not depend on the order of its operands.\<close>

lemma union_commutes:
  assumes "ok a" "ok b" "apart a b"
  shows "\<exists>c d. uni a b = Some c \<and> uni b a = Some d \<and> ok c \<and> ok d \<and> elems c = elems a \<union> elems b \<and> elems d = elems a \<union> elems b \<and> eq c d"
proof -
  obtain c where c: "uni a b = Some c" "ok c" "elems c = elems a \<union> elems b" using uni [OF assms] by blast
  obtain d where d: "uni b a = Some d" "ok d" "elems d = elems b \<union> elems a" using uni [OF assms(2,1) apart_sym [OF assms(3)]] by blast
  have "eq c d" using eq [OF c(2) d(2)] c(3) d(3) by (simp add: Un_commute)
  then show ?thesis using c d by (simp add: Un_commute)
qed

text \<open>Intersection and difference split a set, and union puts it together again.\<close>

lemma split_and_join:
  assumes "ok a" "ok b" "apart a b"
  shows "\<exists>i d. inter a b = Some i \<and> diff a b = Some d \<and> ok i \<and> ok d \<and> elems i \<inter> elems d = {}
    \<and> (apart i d \<longrightarrow> (\<exists>u. uni i d = Some u \<and> ok u \<and> elems u = elems a))"
proof -
  obtain i where i: "inter a b = Some i" "ok i" "elems i = elems a \<inter> elems b" using inter [OF assms] by blast
  obtain d where d: "diff a b = Some d" "ok d" "elems d = elems a - elems b" using diff [OF assms] by blast
  have "\<exists>u. uni i d = Some u \<and> ok u \<and> elems u = elems a" if "apart i d"
    using uni [OF i(2) d(2) that] unfolding i(3) d(3) Int_Diff_Un by blast
  then show ?thesis using i d by auto
qed

end

interpretation patch_sets: set_algebra "\<lambda>p. env_ok P \<and> 0 < key_len P \<and> patch_ok P p" "\<lambda>p. dom (patch_map p)"
  "\<lambda>p q. no_collision P (dom (patch_map p)) (dom (patch_map q))" "patch_union P" "patch_intersect P" "patch_difference P" "patch_eq P" for P
proof
  fix p q :: "'a patch"
  assume ok: "env_ok P \<and> 0 < key_len P \<and> patch_ok P p" "env_ok P \<and> 0 < key_len P \<and> patch_ok P q"
    and nc: "no_collision P (dom (patch_map p)) (dom (patch_map q))"
  show "\<exists>c. patch_union P p q = Some c \<and> (env_ok P \<and> 0 < key_len P \<and> patch_ok P c) \<and> dom (patch_map c) = dom (patch_map p) \<union> dom (patch_map q)"
    using patch_union_spec [OF _ _ _ nc] ok merges_dom by blast
  show "\<exists>c. patch_intersect P p q = Some c \<and> (env_ok P \<and> 0 < key_len P \<and> patch_ok P c) \<and> dom (patch_map c) = dom (patch_map p) \<inter> dom (patch_map q)"
    using patch_intersect_spec [OF _ _ _ _ nc] ok meets_dom by metis
  show "\<exists>c. patch_difference P p q = Some c \<and> (env_ok P \<and> 0 < key_len P \<and> patch_ok P c) \<and> dom (patch_map c) = dom (patch_map p) - dom (patch_map q)"
    using patch_difference_keys_spec [OF _ _ _ nc] ok unfolding patch_difference_def by fastforce
qed (use patch_eq_same_keys in \<open>blast intro: no_collision_sym\<close>)+

section \<open>The operations of a trible set\<close>

definition ts_apart :: "hash_env \<Rightarrow> trible_set \<Rightarrow> trible_set \<Rightarrow> bool" where
  "ts_apart H s u \<longleftrightarrow> (\<forall>ord \<in> six_orders. no_collision (order_env H ord) (trible_as_raw ` ts_contents s) (trible_as_raw ` ts_contents u))"

lemma six_combined:
  assumes ok: "ts_ok H s" "ts_ok H u" and ap: "ts_apart H s u"
    and op: "\<And>P p q :: unit patch. env_ok P \<Longrightarrow> 0 < key_len P \<Longrightarrow> patch_ok P p \<Longrightarrow> patch_ok P q \<Longrightarrow> no_collision P (dom (patch_map p)) (dom (patch_map q)) \<Longrightarrow>
      \<exists>c. f P p q = Some c \<and> patch_ok P c \<and> dom (patch_map c) = g (dom (patch_map p)) (dom (patch_map q))"
    and g: "\<And>A B. g (trible_as_raw ` A) (trible_as_raw ` B) = trible_as_raw ` g' A B"
  shows "\<exists>c. do {
     eav \<leftarrow> f (order_env H eav_order) (ts_eav s) (ts_eav u);
     eva \<leftarrow> f (order_env H eva_order) (ts_eva s) (ts_eva u);
     aev \<leftarrow> f (order_env H aev_order) (ts_aev s) (ts_aev u);
     ave \<leftarrow> f (order_env H ave_order) (ts_ave s) (ts_ave u);
     vea \<leftarrow> f (order_env H vea_order) (ts_vea s) (ts_vea u);
     vae \<leftarrow> f (order_env H vae_order) (ts_vae s) (ts_vae u);
     Some \<lparr>ts_eav = eav, ts_vea = vea, ts_ave = ave, ts_vae = vae, ts_eva = eva, ts_aev = aev\<rparr>
   } = Some c \<and> ts_ok H c \<and> ts_contents c = g' (ts_contents s) (ts_contents u)"
proof -
  let ?K = "trible_as_raw ` ts_contents s" and ?L = "trible_as_raw ` ts_contents u"
  note keys = ts_keys [OF ok(1)] ts_keys [OF ok(2)]
  have step: "\<exists>c. f (order_env H ord) p q = Some c \<and> patch_ok (order_env H ord) c \<and> dom (patch_map c) = g ?K ?L"
    if "ord \<in> six_orders" "patch_ok (order_env H ord) p" "patch_ok (order_env H ord) q" "dom (patch_map p) = ?K" "dom (patch_map q) = ?L" for ord p q
    using op [of "order_env H ord" p q] order_env_ok [OF that(1), of H] that ap by (auto simp: ts_apart_def)
  have ok': "patch_ok (order_env H eav_order) (ts_eav v)" "patch_ok (order_env H eva_order) (ts_eva v)" "patch_ok (order_env H aev_order) (ts_aev v)"
      "patch_ok (order_env H ave_order) (ts_ave v)" "patch_ok (order_env H vea_order) (ts_vea v)" "patch_ok (order_env H vae_order) (ts_vae v)"
      "dom (patch_map (ts_eav v)) = trible_as_raw ` ts_contents v" "dom (patch_map (ts_eva v)) = trible_as_raw ` ts_contents v"
      "dom (patch_map (ts_aev v)) = trible_as_raw ` ts_contents v" "dom (patch_map (ts_ave v)) = trible_as_raw ` ts_contents v"
      "dom (patch_map (ts_vea v)) = trible_as_raw ` ts_contents v" "dom (patch_map (ts_vae v)) = trible_as_raw ` ts_contents v" if "ts_ok H v" for v
    using that ts_keys [OF that] by (simp_all add: ts_ok_def Let_def)
  note s = ok' [OF ok(1)] and u = ok' [OF ok(2)]
  obtain eav where 1: "f (order_env H eav_order) (ts_eav s) (ts_eav u) = Some eav" "patch_ok (order_env H eav_order) eav" "dom (patch_map eav) = g ?K ?L"
    using step [OF six_orders_mem(1) s(1) u(1) s(7) u(7)] by blast
  obtain eva where 2: "f (order_env H eva_order) (ts_eva s) (ts_eva u) = Some eva" "patch_ok (order_env H eva_order) eva" "dom (patch_map eva) = g ?K ?L"
    using step [OF six_orders_mem(2) s(2) u(2) s(8) u(8)] by blast
  obtain aev where 3: "f (order_env H aev_order) (ts_aev s) (ts_aev u) = Some aev" "patch_ok (order_env H aev_order) aev" "dom (patch_map aev) = g ?K ?L"
    using step [OF six_orders_mem(3) s(3) u(3) s(9) u(9)] by blast
  obtain ave where 4: "f (order_env H ave_order) (ts_ave s) (ts_ave u) = Some ave" "patch_ok (order_env H ave_order) ave" "dom (patch_map ave) = g ?K ?L"
    using step [OF six_orders_mem(4) s(4) u(4) s(10) u(10)] by blast
  obtain vea where 5: "f (order_env H vea_order) (ts_vea s) (ts_vea u) = Some vea" "patch_ok (order_env H vea_order) vea" "dom (patch_map vea) = g ?K ?L"
    using step [OF six_orders_mem(5) s(5) u(5) s(11) u(11)] by blast
  obtain vae where 6: "f (order_env H vae_order) (ts_vae s) (ts_vae u) = Some vae" "patch_ok (order_env H vae_order) vae" "dom (patch_map vae) = g ?K ?L"
    using step [OF six_orders_mem(6) s(6) u(6) s(12) u(12)] by blast
  let ?c = "\<lparr>ts_eav = eav, ts_vea = vea, ts_ave = ave, ts_vae = vae, ts_eva = eva, ts_aev = aev\<rparr>"
  have "ts_ok H ?c" using 1 2 3 4 5 6 by (simp add: ts_ok_def Let_def)
  moreover have "ts_contents ?c = g' (ts_contents s) (ts_contents u)" using 1(3) by (auto simp: ts_contents_def g image_iff)
  ultimately show ?thesis using 1(1) 2(1) 3(1) 4(1) 5(1) 6(1) by simp
qed

lemma raw_image_ops:
  "trible_as_raw ` A \<union> trible_as_raw ` B = trible_as_raw ` (A \<union> B)"
  "trible_as_raw ` A \<inter> trible_as_raw ` B = trible_as_raw ` (A \<inter> B)"
  "trible_as_raw ` A - trible_as_raw ` B = trible_as_raw ` (A - B)"
  by auto

interpretation trible_sets: set_algebra "ts_ok H" ts_contents "ts_apart H" "ts_union H" "ts_intersect H" "ts_difference H" "ts_eq H" for H
proof
  fix s u assume ok: "ts_ok H s" "ts_ok H u" "ts_apart H s u"
  show "\<exists>c. ts_union H s u = Some c \<and> ts_ok H c \<and> ts_contents c = ts_contents s \<union> ts_contents u"
    unfolding ts_union_def using ok
  proof (rule six_combined [where g = "(\<union>)"])
    show "\<exists>c. patch_union P p q = Some c \<and> patch_ok P c \<and> dom (patch_map c) = dom (patch_map p) \<union> dom (patch_map q)"
      if "env_ok P" "0 < key_len P" "patch_ok P p" "patch_ok P q" "no_collision P (dom (patch_map p)) (dom (patch_map q))" for P and p q :: "unit patch"
      using patch_sets.uni [of P p q] that by metis
  qed (rule raw_image_ops)
  show "\<exists>c. ts_intersect H s u = Some c \<and> ts_ok H c \<and> ts_contents c = ts_contents s \<inter> ts_contents u"
    unfolding ts_intersect_def using ok
  proof (rule six_combined [where g = "(\<inter>)"])
    show "\<exists>c. patch_intersect P p q = Some c \<and> patch_ok P c \<and> dom (patch_map c) = dom (patch_map p) \<inter> dom (patch_map q)"
      if "env_ok P" "0 < key_len P" "patch_ok P p" "patch_ok P q" "no_collision P (dom (patch_map p)) (dom (patch_map q))" for P and p q :: "unit patch"
      using patch_sets.inter [of P p q] that by metis
  qed (rule raw_image_ops)
  show "\<exists>c. ts_difference H s u = Some c \<and> ts_ok H c \<and> ts_contents c = ts_contents s - ts_contents u"
    unfolding ts_difference_def using ok
  proof (rule six_combined [where g = "(-)"])
    show "\<exists>c. patch_difference_keys P p q = Some c \<and> patch_ok P c \<and> dom (patch_map c) = dom (patch_map p) - dom (patch_map q)"
      if "env_ok P" "0 < key_len P" "patch_ok P p" "patch_ok P q" "no_collision P (dom (patch_map p)) (dom (patch_map q))" for P and p q :: "unit patch"
      using patch_sets.diff [of P p q, unfolded patch_difference_def] that by metis
  qed (rule raw_image_ops)
next
  fix s u assume ok: "ts_ok H s" "ts_ok H u" "ts_contents s = ts_contents u"
  have "patch_ok (order_env H eav_order) (ts_eav s)" "patch_ok (order_env H eav_order) (ts_eav u)" using ok by (simp_all add: ts_ok_def Let_def)
  then show "ts_eq H s u" unfolding ts_eq_def by (rule patch_eq_same_keys) (use ok ts_keys in auto)
qed (auto simp: ts_apart_def dest: no_collision_sym)

section \<open>Properties\<close>

text \<open>
  C18. The set operations of a PATCH, for two intact PATCHes whose digests tell the keys below any two prefixes
  apart. None of them panics and the fuel of union is enough; the results keep the trie's invariant. Union has
  the keys of both, each with its value in one of the operands; intersection has the keys of both operands with
  a value of one of them; difference has exactly the entries of the left operand whose keys the right one lacks.
\<close>

theorem patch_set_operations:
  assumes "env_ok P" "0 < key_len P" "patch_ok P p" "patch_ok P q" "no_collision P (dom (patch_map p)) (dom (patch_map q))"
  shows "(\<exists>u. patch_union P p q = Some u \<and> patch_ok P u \<and> merges (patch_map u) (patch_map p) (patch_map q) \<and> dom (patch_map u) = dom (patch_map p) \<union> dom (patch_map q))
    \<and> (\<exists>i. patch_intersect P p q = Some i \<and> patch_ok P i \<and> meets (patch_map i) (patch_map p) (patch_map q) \<and> dom (patch_map i) = dom (patch_map p) \<inter> dom (patch_map q))
    \<and> (\<exists>d. patch_difference P p q = Some d \<and> patch_ok P d \<and> patch_map d = patch_map p |` (- dom (patch_map q)))"
proof (intro conjI)
  show "\<exists>u. patch_union P p q = Some u \<and> patch_ok P u \<and> merges (patch_map u) (patch_map p) (patch_map q) \<and> dom (patch_map u) = dom (patch_map p) \<union> dom (patch_map q)"
    using patch_union_spec [OF assms(1,3-5)] merges_dom by blast
  show "\<exists>i. patch_intersect P p q = Some i \<and> patch_ok P i \<and> meets (patch_map i) (patch_map p) (patch_map q) \<and> dom (patch_map i) = dom (patch_map p) \<inter> dom (patch_map q)"
    using patch_intersect_spec [OF assms] meets_dom by blast
  show "\<exists>d. patch_difference P p q = Some d \<and> patch_ok P d \<and> patch_map d = patch_map p |` (- dom (patch_map q))"
    using patch_difference_keys_spec [OF assms(1,3-5)] unfolding patch_difference_def .
qed

text \<open>The keys of one and of two entries, whose digests differ.\<close>

lemma two_element_subsets: "B \<subseteq> {a, b} \<Longrightarrow> B = {} \<or> B = {a} \<or> B = {b} \<or> B = {a, b}"
  by blast

lemma swapped_apart: "no_collision swapped_env {[1, 2]} {[1, 2], [3, 4]}"
  unfolding no_collision_def
proof (intro ballI allI impI)
  fix k l :: "u8 list" and m n :: nat
  let ?A = "{x \<in> {[1, 2]}. agree swapped_env m x k}" and ?B = "{x \<in> {[1, 2], [3, 4]}. agree swapped_env n x l}"
  assume k: "k \<in> {[1, 2]}" and l: "l \<in> {[1, 2], [3, 4 :: u8]}" and F: "xor128.F (pe_leaf_hash swapped_env) ?A = xor128.F (pe_leaf_hash swapped_env) ?B"
  have A: "?A = {[1, 2]}" using k by auto
  have "l \<in> ?B" using l by simp
  then have "?B \<noteq> {}" by (metis empty_iff)
  moreover have "?B = {} \<or> ?B = {[1, 2]} \<or> ?B = {[3, 4]} \<or> ?B = {[1, 2], [3, 4]}" by (rule two_element_subsets [OF Collect_restrict])
  ultimately consider "?B = {[1, 2]}" | "?B = {[3, 4]}" | "?B = {[1, 2], [3, 4]}" by argo
  then show "?A = ?B" using F unfolding A by cases (simp_all add: swapped_env_def)
qed

lemma no_collision_singletons:
  assumes "pe_leaf_hash P k \<noteq> pe_leaf_hash P l"
  shows "no_collision P {k} {l}"
proof -
  have "{x \<in> {k}. agree P m x k} = {k}" for m k by auto
  then show ?thesis using assms by (simp add: no_collision_def)
qed

lemma swapped_two:
  obtains p q where "patch_insert swapped_env patch_new (entry_with_value swapped_env [1, 2] ()) = Some p"
    "patch_insert swapped_env p (entry_with_value swapped_env [3, 4] ()) = Some q"
    "patch_ok swapped_env p" "patch_ok swapped_env q" "dom (patch_map p) = {[1, 2]}" "dom (patch_map q) = {[1, 2], [3, 4]}"
proof -
  obtain p where p: "patch_insert swapped_env patch_new (entry_with_value swapped_env [1, 2] ()) = Some p" "patch_ok swapped_env p" "patch_map p = [[1, 2] \<mapsto> ()]"
    by (rule swapped_patch)
  obtain q where q: "patch_insert swapped_env p (entry_with_value swapped_env [3, 4] ()) = Some q" "patch_ok swapped_env q" "patch_map q = [[1, 2] \<mapsto> (), [3, 4] \<mapsto> ()]"
    using patch_step_spec [OF swapped_env_ok(2) p(2), of "Insert [3, 4] ()"] p(3) by (auto simp: patch_step_def swapped_env_ok)
  show thesis by (rule that [OF p(1) q(1) p(2) q(2)]) (auto simp: p(3) q(3))
qed

theorem patch_set_operations_witness:
  "\<exists>p q u i. patch_insert swapped_env patch_new (entry_with_value swapped_env [1, 2] ()) = Some p
    \<and> patch_insert swapped_env p (entry_with_value swapped_env [3, 4] ()) = Some q
    \<and> patch_union swapped_env p q = Some u \<and> dom (patch_map u) = {[1, 2], [3, 4]}
    \<and> patch_intersect swapped_env p q = Some i \<and> dom (patch_map i) = {[1, 2]}"
proof -
  obtain p q where pq: "patch_insert swapped_env patch_new (entry_with_value swapped_env [1, 2] ()) = Some p"
      "patch_insert swapped_env p (entry_with_value swapped_env [3, 4] ()) = Some q"
      "patch_ok swapped_env p" "patch_ok swapped_env q" "dom (patch_map p) = {[1, 2]}" "dom (patch_map q) = {[1, 2], [3, 4]}"
    by (rule swapped_two)
  show ?thesis using patch_set_operations [OF swapped_env_ok(2) _ pq(3,4)] swapped_env_ok(1) swapped_apart pq by auto
qed

text \<open>
  C20. Comparing PATCHes compares their key sets, whatever the values and the order of building. For two intact
  PATCHes in which no two different sets of keys below a prefix have the same digest, the walk of \<open>partial_cmp\<close>, which
  stops at the first key that decides, answers the order of inclusion, with \<open>None\<close> when neither set holds the other.
\<close>

theorem patch_comparisons:
  assumes "env_ok P" "patch_ok P p" "patch_ok P q" "no_collision P (dom (patch_map p)) (dom (patch_map q))"
  shows "patch_partial_cmp P p q = Some (if dom (patch_map p) = dom (patch_map q) then Some Equal
      else if dom (patch_map p) \<subset> dom (patch_map q) then Some Less else if dom (patch_map q) \<subset> dom (patch_map p) then Some Greater else None)"
  using patch_cmp_spec [OF assms] by (auto simp: set_order_def ord_of_def)

theorem patch_comparisons_witness:
  "\<exists>p q. patch_insert swapped_env patch_new (entry_with_value swapped_env [1, 2] ()) = Some p
    \<and> patch_insert swapped_env p (entry_with_value swapped_env [3, 4] ()) = Some q
    \<and> patch_partial_cmp swapped_env p q = Some (Some Less)"
proof -
  obtain p q where pq: "patch_insert swapped_env patch_new (entry_with_value swapped_env [1, 2] ()) = Some p"
      "patch_insert swapped_env p (entry_with_value swapped_env [3, 4] ()) = Some q"
      "patch_ok swapped_env p" "patch_ok swapped_env q" "dom (patch_map p) = {[1, 2]}" "dom (patch_map q) = {[1, 2], [3, 4]}"
    by (rule swapped_two)
  have "{[1, 2 :: u8]} \<subset> {[1, 2], [3, 4]}" "{[1, 2 :: u8]} \<noteq> {[1, 2], [3, 4]}" by auto
  then show ?thesis using patch_comparisons [OF swapped_env_ok(2) pq(3,4)] swapped_apart pq by auto
qed

text \<open>
  C19. Union, intersection and difference of trible sets are those of the sets of tribles, for two intact sets in
  which no two different sets of tribles below a prefix, in any of the six orders, have the same digest (\<open>ts_apart\<close>).
  None panics, and all six indexes of each result hold its tribles. Uniting in either order gives sets that compare
  equal: equality of digests never tells sets of the same tribles apart.
\<close>

theorem trible_set_algebra:
  assumes "ts_ok H s" "ts_ok H u" "ts_apart H s u"
  shows "\<exists>c c' i d. ts_union H s u = Some c \<and> ts_union H u s = Some c' \<and> ts_intersect H s u = Some i \<and> ts_difference H s u = Some d
    \<and> six_indexes_hold H c (ts_contents s \<union> ts_contents u) \<and> six_indexes_hold H c' (ts_contents s \<union> ts_contents u) \<and> ts_eq H c c'
    \<and> six_indexes_hold H i (ts_contents s \<inter> ts_contents u) \<and> six_indexes_hold H d (ts_contents s - ts_contents u)"
proof -
  obtain c c' where c: "ts_union H s u = Some c" "ts_union H u s = Some c'" "ts_ok H c" "ts_ok H c'"
      "ts_contents c = ts_contents s \<union> ts_contents u" "ts_contents c' = ts_contents s \<union> ts_contents u" "ts_eq H c c'"
    using trible_sets.union_commutes [OF assms] by blast
  obtain i where i: "ts_intersect H s u = Some i" "ts_ok H i" "ts_contents i = ts_contents s \<inter> ts_contents u" using trible_sets.inter [OF assms] by blast
  obtain d where d: "ts_difference H s u = Some d" "ts_ok H d" "ts_contents d = ts_contents s - ts_contents u" using trible_sets.diff [OF assms] by blast
  show ?thesis using c i d six_indexes [OF c(3)] six_indexes [OF c(4)] six_indexes [OF i(2)] six_indexes [OF d(2)] by auto
qed

theorem trible_set_algebra_witness:
  "\<exists>c. ts_union \<lparr>he_rand = id, he_leaf_hash = (\<lambda>k. ucast (k ! 0))\<rparr>
      (the (ts_from_iter \<lparr>he_rand = id, he_leaf_hash = (\<lambda>k. ucast (k ! 0))\<rparr> [trible_force (id_pad [1]) (id_pad [7]) (inline_pad [2])]))
      (the (ts_from_iter \<lparr>he_rand = id, he_leaf_hash = (\<lambda>k. ucast (k ! 0))\<rparr> [trible_force (id_pad [2]) (id_pad [7]) (inline_pad [3])])) = Some c
    \<and> six_indexes_hold \<lparr>he_rand = id, he_leaf_hash = (\<lambda>k. ucast (k ! 0))\<rparr> c
        {trible_force (id_pad [1]) (id_pad [7]) (inline_pad [2]), trible_force (id_pad [2]) (id_pad [7]) (inline_pad [3])}"
proof -
  let ?H = "\<lparr>he_rand = id, he_leaf_hash = (\<lambda>k. ucast (k ! 0))\<rparr>"
  let ?t = "trible_force (id_pad [1]) (id_pad [7]) (inline_pad [2])" and ?u = "trible_force (id_pad [2]) (id_pad [7]) (inline_pad [3])"
  let ?s = "the (ts_from_iter ?H [?t])" and ?v = "the (ts_from_iter ?H [?u])"
  have "he_leaf_hash ?H (trible_as_raw ?t) \<noteq> he_leaf_hash ?H (trible_as_raw ?u)" by (simp add: trible_as_raw_def trible_force_def)
  then have "ts_apart ?H ?s ?v" unfolding ts_apart_def ts_from_iter_ok(2) by (simp add: no_collision_singletons)
  from trible_set_algebra [OF ts_from_iter_ok(1) ts_from_iter_ok(1) this] show ?thesis
    unfolding ts_from_iter_ok(2) by (auto simp: insert_commute)
qed

end
