(* ===== verification/Simple_Archive.thy ===== *)
theory Simple_Archive
  imports Patch_Walk Patch_Sets
begin

text \<open>
  \<open>blob/encodings/simplearchive.rs\<close>: the tribles of a set as a sequence of rows of 64 bytes in ascending order,
  its decoder, and the checks that decide which byte sequences are archives.

  The byte container is the library \<open>anybytes\<close>. What the code uses of it is a parameter, the record
  \<open>bytes_env\<close>, and what it promises is \<open>bytes_env_ok\<close>: the container of a vector of tribles holds their bytes at
  an aligned address, and a view of a container as rows checks alignment, length and, for tribles, every row.
  A view is the list of its rows. The order in which the parallel check meets errors is up to its thread pool; it
  is the parameter \<open>sched\<close>.
\<close>

section \<open>Iterating over a set\<close>

definition ts_iter :: "hash_env \<Rightarrow> trible_set \<Rightarrow> trible list option" where
  "ts_iter H s = do {
     it \<leftarrow> patch_iter (order_env H eav_order) (ts_eav s);
     keys \<leftarrow> drain (patch_iter_next (order_env H eav_order)) it;
     Some (map trible_of keys)
   }"

definition ts_iter_ordered :: "trible_set \<Rightarrow> trible list option" where
  "ts_iter_ordered s = do {
     it \<leftarrow> patch_iter_ordered (ts_eav s);
     keys \<leftarrow> drain ordered_next it;
     Some (map trible_of keys)
   }"

section \<open>Bytes\<close>

datatype view_error = Alignment | Size | Validity

record 'b bytes_env =
  be_content :: "'b \<Rightarrow> u8 list"
  be_aligned :: "'b \<Rightarrow> bool"
  be_from_vec :: "trible list \<Rightarrow> 'b"
  be_view :: "'b \<Rightarrow> view_error + trible list"
  be_view_aligned :: "'b \<Rightarrow> view_error + u8 list list"

function chunks :: "nat \<Rightarrow> 'a list \<Rightarrow> 'a list list" where
  "chunks n xs = (if xs = [] \<or> n = 0 then [] else take n xs # chunks n (drop n xs))"
  by pat_completeness auto
termination
  by (relation "measure (\<lambda>(n, xs). length xs)") auto

declare chunks.simps [simp del]

text \<open>The rows of a container, whether they lie whole and aligned in it, and whether each of them is a trible.\<close>

definition rows_in :: "'b bytes_env \<Rightarrow> 'b \<Rightarrow> u8 list list" where
  "rows_in B b = chunks 64 (be_content B b)"

definition rows_fit :: "'b bytes_env \<Rightarrow> 'b \<Rightarrow> bool" where
  "rows_fit B b \<longleftrightarrow> be_aligned B b \<and> length (be_content B b) mod 64 = 0"

definition row_valid :: "u8 list \<Rightarrow> bool" where
  "row_valid r \<longleftrightarrow> trible_force_raw r \<noteq> None"

definition bytes_env_ok :: "'b bytes_env \<Rightarrow> bool" where
  "bytes_env_ok B \<longleftrightarrow>
     (\<forall>ts. be_content B (be_from_vec B ts) = concat (map trible_as_raw ts) \<and> be_aligned B (be_from_vec B ts)) \<and>
     (\<forall>b. rows_fit B b \<longrightarrow> be_view_aligned B b = Inr (rows_in B b)) \<and>
     (\<forall>b. rows_fit B b \<longrightarrow> be_view B b = (if list_all row_valid (rows_in B b) then Inr (map trible_of (rows_in B b)) else Inl Validity)) \<and>
     (\<forall>b. \<not> rows_fit B b \<longrightarrow> be_view_aligned B b \<in> {Inl Alignment, Inl Size} \<and> be_view B b \<in> {Inl Alignment, Inl Size})"

section \<open>Encoding\<close>

definition ordered_rows :: "'b bytes_env \<Rightarrow> trible_set \<Rightarrow> 'b option" where
  "ordered_rows B source = map_option (be_from_vec B) (ts_iter_ordered source)"

section \<open>Checking and decoding\<close>

datatype unarchive_error = BadArchive | BadTrible | BadCanonicalizationRedundancy | BadCanonicalizationOrdering

definition view_rows :: "'b bytes_env \<Rightarrow> 'b \<Rightarrow> unarchive_error + trible list" where
  "view_rows B bytes = (let bytes = (if be_content B bytes = [] then be_from_vec B [] else bytes) in
     case be_view B bytes of
       Inl Alignment \<Rightarrow> Inl BadArchive | Inl Size \<Rightarrow> Inl BadArchive | Inl Validity \<Rightarrow> Inl BadTrible
     | Inr rows \<Rightarrow> Inr rows)"

text \<open>The loop of \<open>check_increasing\<close>, with the state that \<open>visit\<close> updates.\<close>

fun check_from :: "(nat \<Rightarrow> trible \<Rightarrow> 's \<Rightarrow> 's option) \<Rightarrow> nat \<Rightarrow> u8 list option \<Rightarrow> trible list \<Rightarrow> 's \<Rightarrow> ((unarchive_error + unit) \<times> 's) option" where
  "check_from visit index previous [] s = Some (Inr (), s)"
| "check_from visit index previous (trible # rows) s =
     (let row = trible_as_raw trible in
      if previous = Some row then Some (Inl BadCanonicalizationRedundancy, s)
      else if (case previous of Some p \<Rightarrow> p > row | None \<Rightarrow> False) then Some (Inl BadCanonicalizationOrdering, s)
      else do { s' \<leftarrow> visit index trible s; check_from visit (index + 1) (Some row) rows s' })"

definition check_increasing :: "(nat \<Rightarrow> trible \<Rightarrow> 's \<Rightarrow> 's option) \<Rightarrow> trible list \<Rightarrow> 's \<Rightarrow> ((unarchive_error + unit) \<times> 's) option" where
  "check_increasing visit rows s = check_from visit 0 None rows s"

definition validate_with :: "'b bytes_env \<Rightarrow> (nat \<Rightarrow> trible \<Rightarrow> 's \<Rightarrow> 's option) \<Rightarrow> 'b \<Rightarrow> 's \<Rightarrow> ((unarchive_error + trible list) \<times> 's) option" where
  "validate_with B visit bytes s = (case view_rows B bytes of
     Inl e \<Rightarrow> Some (Inl e, s)
   | Inr rows \<Rightarrow> do {
       (r, s') \<leftarrow> check_increasing visit rows s;
       Some (case r of Inl e \<Rightarrow> Inl e | Inr _ \<Rightarrow> Inr rows, s')
     })"

definition validate :: "'b bytes_env \<Rightarrow> 'b \<Rightarrow> (unarchive_error + trible list) option" where
  "validate B bytes = map_option fst (validate_with B (\<lambda>_ _ s. Some s) bytes ())"

definition from_tribles :: "trible list \<Rightarrow> (unarchive_error + trible list) option" where
  "from_tribles rows = do {
     (r, _) \<leftarrow> check_increasing (\<lambda>_ _ s. Some s) rows ();
     Some (case r of Inl e \<Rightarrow> Inl e | Inr _ \<Rightarrow> Inr rows)
   }"

definition from_set :: "'b bytes_env \<Rightarrow> trible_set \<Rightarrow> trible list option" where
  "from_set B s = do {
     bytes \<leftarrow> ordered_rows B s;
     case view_rows B bytes of Inl _ \<Rightarrow> None | Inr rows \<Rightarrow> Some rows
   }"

definition insert_row :: "hash_env \<Rightarrow> bool \<Rightarrow> trible_set \<Rightarrow> trible \<Rightarrow> trible_set option" where
  "insert_row H archive_backed s t = (if archive_backed then ts_insert_archive H s t else ts_insert H s t)"

definition serial_unarchive :: "hash_env \<Rightarrow> 'b bytes_env \<Rightarrow> 'b \<Rightarrow> bool \<Rightarrow> (unarchive_error + trible_set) option" where
  "serial_unarchive H B bytes archive_backed = do {
     (r, tribles) \<leftarrow> validate_with B (\<lambda>_ t s. insert_row H archive_backed s t) bytes ts_new;
     Some (case r of Inl e \<Rightarrow> Inl e | Inr _ \<Rightarrow> Inr tribles)
   }"

definition try_from_archive_bytes :: "hash_env \<Rightarrow> 'b bytes_env \<Rightarrow> 'b \<Rightarrow> (unarchive_error + trible_set) option" where
  "try_from_archive_bytes H B bytes = serial_unarchive H B bytes True"

definition try_from_blob_heap_only :: "hash_env \<Rightarrow> 'b bytes_env \<Rightarrow> 'b \<Rightarrow> (unarchive_error + trible_set) option" where
  "try_from_blob_heap_only H B bytes = serial_unarchive H B bytes False"

section \<open>The parallel check\<close>

definition view_aligned_rows :: "'b bytes_env \<Rightarrow> 'b \<Rightarrow> (unarchive_error + u8 list list) option" where
  "view_aligned_rows B bytes = (let bytes = (if be_content B bytes = [] then be_from_vec B [] else bytes) in
     case be_view_aligned B bytes of
       Inl Alignment \<Rightarrow> Some (Inl BadArchive) | Inl Size \<Rightarrow> Some (Inl BadArchive) | Inl Validity \<Rightarrow> None
     | Inr rows \<Rightarrow> Some (Inr rows))"

definition row_rule :: "u8 list list \<Rightarrow> unarchive_error + trible list" where
  "row_rule run = (case those (map trible_force_raw run) of None \<Rightarrow> Inl BadTrible | Some ts \<Rightarrow> Inr ts)"

definition seam_error :: "u8 list \<Rightarrow> u8 list \<Rightarrow> unarchive_error option" where
  "seam_error last_row first_row = (if last_row = first_row then Some BadCanonicalizationRedundancy
     else if last_row > first_row then Some BadCanonicalizationOrdering else None)"

fun first_offence :: "u8 list list \<Rightarrow> unarchive_error option" where
  "first_offence (x # y # rows) = (case seam_error x y of Some e \<Rightarrow> Some e | None \<Rightarrow> first_offence (y # rows))"
| "first_offence _ = None"

fun seam_windows :: "u8 list list list \<Rightarrow> (unarchive_error + unit) option" where
  "seam_windows (a # b # runs) =
     (if a = [] \<or> b = [] then None
      else case seam_error (last a) (hd b) of Some e \<Rightarrow> Some (Inl e) | None \<Rightarrow> seam_windows (b # runs))"
| "seam_windows _ = Some (Inr ())"

definition check_seams :: "u8 list list \<Rightarrow> nat \<Rightarrow> (unarchive_error + unit) option" where
  "check_seams rows run_len = (if run_len = 0 then None else seam_windows (chunks run_len rows))"

definition parallel_run_len :: "nat \<Rightarrow> nat \<Rightarrow> nat" where
  "parallel_run_len threads rows = max ((rows + (max threads 1 - 1)) div max threads 1) 1"

text \<open>One run: the row rule, then the order, with the results written to the run's part of the output.\<close>

definition check_run :: "(trible \<Rightarrow> 't) \<Rightarrow> 't \<Rightarrow> u8 list list \<Rightarrow> (unarchive_error + 't list) option" where
  "check_run f dflt run = (case row_rule run of
     Inl e \<Rightarrow> Some (Inl e)
   | Inr ts \<Rightarrow> do {
       (r, out) \<leftarrow> check_increasing (\<lambda>index t out. idx_update out index (f t)) ts (replicate (length run) dflt);
       Some (case r of Inl e \<Rightarrow> Inl e | Inr _ \<Rightarrow> Inr out)
     })"

text \<open>\<open>try_for_each\<close> of the thread pool: one of the errors of the items, if there is any.\<close>

definition try_for_each :: "('e list \<Rightarrow> 'e) \<Rightarrow> ('a \<Rightarrow> ('e + 'c) option) \<Rightarrow> 'a list \<Rightarrow> ('e + 'c list) option" where
  "try_for_each sched f xs = do {
     rs \<leftarrow> map_panic f xs;
     let errors = [e. Inl e \<leftarrow> rs];
     Some (if errors = [] then Inr [y. Inr y \<leftarrow> rs] else Inl (sched errors))
   }"

definition par_validate_map :: "'b bytes_env \<Rightarrow> (unarchive_error list \<Rightarrow> unarchive_error) \<Rightarrow> nat \<Rightarrow> (trible \<Rightarrow> 't) \<Rightarrow> 't \<Rightarrow> 'b
    \<Rightarrow> (unarchive_error + trible list \<times> 't list) option" where
  "par_validate_map B sched threads f dflt bytes = do {
     viewed \<leftarrow> view_aligned_rows B bytes;
     case viewed of
       Inl e \<Rightarrow> Some (Inl e)
     | Inr rows \<Rightarrow>
         (let run_len = parallel_run_len threads (length rows); runs = chunks run_len rows in do {
            seams \<leftarrow> check_seams rows run_len;
            result \<leftarrow> (case seams of
                Inl e \<Rightarrow> Some (Inl e)
              | Inr _ \<Rightarrow> do { r \<leftarrow> try_for_each sched (check_run f dflt) runs; Some (map_sum id concat r) });
            case result of
              Inr mapped \<Rightarrow> Some (Inr (map trible_of rows, mapped))
            | Inl BadTrible \<Rightarrow> Some (Inl BadTrible)
            | Inl _ \<Rightarrow> do {
                r \<leftarrow> try_for_each sched (\<lambda>run. Some (map_sum id (\<lambda>_. ()) (row_rule run))) runs;
                case r of
                  Inl e \<Rightarrow> Some (Inl e)
                | Inr _ \<Rightarrow> do { e \<leftarrow> first_offence rows; Some (Inl e) }
              }
          })
   }"

section \<open>Rows\<close>

lemma chunks_concat: "0 < n \<Longrightarrow> concat (chunks n xs) = xs"
  by (induction n xs rule: chunks.induct) (subst chunks.simps, simp)

lemma chunks_nonempty: "ys \<in> set (chunks n xs) \<Longrightarrow> ys \<noteq> []"
  by (induction n xs rule: chunks.induct) (subst (asm) chunks.simps, auto split: if_splits)

lemma chunks_length: "length xs mod n = 0 \<Longrightarrow> ys \<in> set (chunks n xs) \<Longrightarrow> length ys = n"
proof (induction n xs rule: chunks.induct)
  case (1 n xs)
  then have "xs \<noteq> []" "0 < n" by (auto simp: chunks.simps split: if_splits)
  moreover from this 1(2) have "n \<le> length xs" by (simp add: dvd_imp_le mod_0_imp_dvd)
  ultimately show ?case using 1 by (subst (asm) (2) chunks.simps) (auto simp: le_mod_geq)
qed

lemma chunks_rows: "(\<And>r. r \<in> set rs \<Longrightarrow> length r = n) \<Longrightarrow> 0 < n \<Longrightarrow> chunks n (concat rs) = rs"
proof (induction rs)
  case (Cons r rs)
  then have "r \<noteq> []" "length r = n" by auto
  then show ?case using Cons by (subst chunks.simps) simp
qed (simp add: chunks.simps)

lemma chunks_tribles [simp]: "chunks 64 (concat (map trible_as_raw ts)) = map trible_as_raw ts"
  by (rule chunks_rows) auto

lemma length_tribles [simp]: "length (concat (map trible_as_raw ts)) = 64 * length ts"
  by (induction ts) (simp_all del: length_concat)

lemma as_raw_rows: "length c mod 64 = 0 \<Longrightarrow> map trible_as_raw (map trible_of (chunks 64 c)) = chunks 64 c"
proof -
  assume "length c mod 64 = 0"
  then have "trible_as_raw (trible_of r) = r" if "r \<in> set (chunks 64 c)" for r using chunks_length [of c 64 r] as_raw_of that by simp
  then show ?thesis unfolding map_map by (intro map_idI) simp
qed

lemma trible_of_raw [simp]: "trible_of (trible_as_raw t) = t"
  using as_raw_of [of "trible_as_raw t"] by simp

lemma force_raw_of: "length data = 64 \<Longrightarrow> trible_force_raw data = (if id_is_nil (tr_e (trible_of data)) \<or> id_is_nil (tr_a (trible_of data)) then None else Some (trible_of data))"
  by (simp add: trible_force_raw_def trible_of_def Let_def)

definition trible_valid :: "trible \<Rightarrow> bool" where
  "trible_valid t \<longleftrightarrow> \<not> id_is_nil (tr_e t) \<and> \<not> id_is_nil (tr_a t)"

lemma force_raw_valid: "trible_force_raw (trible_as_raw t) = (if trible_valid t then Some t else None)"
  by (simp add: force_raw_of trible_valid_def)

section \<open>The order of the rows\<close>

lemma seam_error_None: "seam_error x y = None \<longleftrightarrow> x < y"
  by (auto simp: seam_error_def)

lemma offence_None: "first_offence rows = None \<longleftrightarrow> successively (<) rows"
  by (induction rows rule: first_offence.induct) (auto simp: seam_error_def split: option.splits if_splits)

lemma offence_sorted: "first_offence rows = None \<longleftrightarrow> sorted_wrt (<) rows"
  unfolding offence_None by (rule successively_conv_sorted_wrt [OF transp_on_less])

lemma offence_ordering: "first_offence rows = Some e \<Longrightarrow> e = BadCanonicalizationRedundancy \<or> e = BadCanonicalizationOrdering"
  by (induction rows rule: first_offence.induct) (auto simp: seam_error_def split: option.splits if_splits)

definition prev_list :: "'a option \<Rightarrow> 'a list" where
  "prev_list p = (case p of None \<Rightarrow> [] | Some x \<Rightarrow> [x])"

lemma prev_list_simps [simp]: "prev_list None = []" "prev_list (Some x) = [x]"
  by (simp_all add: prev_list_def)

text \<open>When nothing is out of order every row is visited; otherwise the first offence is reported.\<close>

lemma check_from_ok:
  "first_offence (prev_list p @ map trible_as_raw ts) = None \<Longrightarrow>
     check_from visit i p ts s = map_option (Pair (Inr ())) (for_each (\<lambda>s (j, t). visit j t s) s (enumerate i ts))"
proof (induction ts arbitrary: i p s)
  case (Cons t ts)
  have "first_offence (prev_list (Some (trible_as_raw t)) @ map trible_as_raw ts) = None"
    using Cons.prems by (cases p) (auto split: option.splits)
  note IH = Cons.IH [OF this]
  have "p \<noteq> Some (trible_as_raw t)" "\<not> (case p of Some q \<Rightarrow> q > trible_as_raw t | None \<Rightarrow> False)"
    using Cons.prems by (cases p; auto simp: seam_error_def split: option.splits if_splits)+
  then show ?case using IH by (simp add: map_option_bind comp_def Let_def cong: Option.bind_cong)
qed simp

lemma check_from_bad:
  assumes "\<And>j t s. I s \<Longrightarrow> j < n \<Longrightarrow> \<exists>s'. visit j t s = Some s' \<and> I s'"
  shows "first_offence (prev_list p @ map trible_as_raw ts) = Some e \<Longrightarrow> I s \<Longrightarrow> i + length ts \<le> n \<Longrightarrow> \<exists>s'. check_from visit i p ts s = Some (Inl e, s')"
proof (induction ts arbitrary: i p s)
  case (Cons t ts)
  show ?case
  proof (cases "p \<noteq> None \<and> seam_error (the p) (trible_as_raw t) \<noteq> None")
    case True
    then show ?thesis using Cons.prems(1) by (cases p) (auto simp: seam_error_def split: if_splits)
  next
    case False
    then have off: "first_offence (prev_list (Some (trible_as_raw t)) @ map trible_as_raw ts) = Some e"
        "p \<noteq> Some (trible_as_raw t)" "\<not> (case p of Some q \<Rightarrow> q > trible_as_raw t | None \<Rightarrow> False)"
      using Cons.prems(1) by (cases p; auto simp: seam_error_def split: option.splits if_splits)+
    obtain s' where "visit i t s = Some s'" "I s'" using assms [of s i t] Cons.prems(2,3) by auto
    then show ?thesis using Cons.IH [OF off(1), of s' "i + 1"] off(2,3) Cons.prems(3) by (simp add: Let_def)
  qed
qed (auto simp: prev_list_def split: option.splits)

section \<open>The verdict on a byte sequence\<close>

definition verdict :: "'b bytes_env \<Rightarrow> 'b \<Rightarrow> unarchive_error option" where
  "verdict B b =
     (if be_content B b \<noteq> [] \<and> \<not> rows_fit B b then Some BadArchive
      else if \<not> list_all row_valid (rows_in B b) then Some BadTrible
      else first_offence (rows_in B b))"

lemma chunks_Nil [simp]: "chunks n [] = []"
  by (simp add: chunks.simps)

lemma bytes_contract:
  assumes "bytes_env_ok B"
  shows "be_content B (be_from_vec B ts) = concat (map trible_as_raw ts)" "be_aligned B (be_from_vec B ts)"
    "rows_fit B b \<Longrightarrow> be_view_aligned B b = Inr (rows_in B b)"
    "rows_fit B b \<Longrightarrow> be_view B b = (if list_all row_valid (rows_in B b) then Inr (map trible_of (rows_in B b)) else Inl Validity)"
    "\<not> rows_fit B b \<Longrightarrow> be_view_aligned B b = Inl Alignment \<or> be_view_aligned B b = Inl Size"
    "\<not> rows_fit B b \<Longrightarrow> be_view B b = Inl Alignment \<or> be_view B b = Inl Size"
  using assms unfolding bytes_env_ok_def by blast+

lemma fits_vec: "bytes_env_ok B \<Longrightarrow> rows_fit B (be_from_vec B ts)" "bytes_env_ok B \<Longrightarrow> rows_in B (be_from_vec B ts) = map trible_as_raw ts"
  by (simp_all add: rows_fit_def rows_in_def bytes_contract del: length_concat)

lemma view_rows_spec:
  assumes B: "bytes_env_ok B"
  shows "view_rows B b = (if be_content B b \<noteq> [] \<and> \<not> rows_fit B b then Inl BadArchive
      else if list_all row_valid (rows_in B b) then Inr (map trible_of (rows_in B b)) else Inl BadTrible)"
    "view_aligned_rows B b = Some (if be_content B b \<noteq> [] \<and> \<not> rows_fit B b then Inl BadArchive else Inr (rows_in B b))"
proof -
  note v = bytes_contract [OF B]
  have empty: "be_view B (be_from_vec B []) = Inr []" "be_view_aligned B (be_from_vec B []) = Inr []"
    using v(3,4) [OF fits_vec(1) [OF B]] fits_vec(2) [OF B] by simp_all
  show "view_rows B b = (if be_content B b \<noteq> [] \<and> \<not> rows_fit B b then Inl BadArchive
      else if list_all row_valid (rows_in B b) then Inr (map trible_of (rows_in B b)) else Inl BadTrible)"
  proof (cases "be_content B b = []")
    case True
    then show ?thesis using empty by (simp add: view_rows_def rows_in_def)
  next
    case False
    then show ?thesis using v(4,6) [of b] by (cases "rows_fit B b") (auto simp: view_rows_def)
  qed
  show "view_aligned_rows B b = Some (if be_content B b \<noteq> [] \<and> \<not> rows_fit B b then Inl BadArchive else Inr (rows_in B b))"
  proof (cases "be_content B b = []")
    case True
    then show ?thesis using empty by (simp add: view_aligned_rows_def rows_in_def)
  next
    case False
    then show ?thesis using v(3,5) [of b] by (cases "rows_fit B b") (auto simp: view_aligned_rows_def)
  qed
qed

lemma rows_as_raw: "\<not> (be_content B b \<noteq> [] \<and> \<not> rows_fit B b) \<Longrightarrow> map trible_as_raw (map trible_of (rows_in B b)) = rows_in B b"
  unfolding rows_in_def by (rule as_raw_rows) (auto simp: rows_fit_def)

lemma validate_with_spec:
  assumes B: "bytes_env_ok B" and visit: "\<And>j t s. I s \<Longrightarrow> \<exists>s'. visit j t s = Some s' \<and> I s'" and s: "I s"
  shows "verdict B b = Some e \<Longrightarrow> \<exists>s'. validate_with B visit b s = Some (Inl e, s')"
    "verdict B b = None \<Longrightarrow> validate_with B visit b s
      = map_option (Pair (Inr (map trible_of (rows_in B b)))) (for_each (\<lambda>s (j, t). visit j t s) s (enumerate 0 (map trible_of (rows_in B b))))"
proof -
  let ?rows = "rows_in B b"
  consider (bad) x where "view_rows B b = Inl x" "verdict B b = Some x"
    | (rows) "view_rows B b = Inr (map trible_of ?rows)" "verdict B b = first_offence ?rows" "map trible_as_raw (map trible_of ?rows) = ?rows"
    using view_rows_spec(1) [OF B, of b] rows_as_raw [of B b] by (auto simp: verdict_def split: if_splits)
  note split = this
  show "\<exists>s'. validate_with B visit b s = Some (Inl e, s')" if e: "verdict B b = Some e"
    using split
  proof cases
    case bad
    then show ?thesis using e by (simp add: validate_with_def)
  next
    case rows
    obtain s' where "check_increasing visit (map trible_of ?rows) s = Some (Inl e, s')"
      using check_from_bad [of I "length ?rows" visit None "map trible_of ?rows" e s 0] visit s e rows(2,3) by (auto simp: check_increasing_def)
    then show ?thesis using rows(1) by (simp add: validate_with_def)
  qed
  assume none: "verdict B b = None"
  then have rows: "view_rows B b = Inr (map trible_of ?rows)" "first_offence (map trible_as_raw (map trible_of ?rows)) = None"
    using split by (metis option.distinct(1))+
  have "check_increasing visit (map trible_of ?rows) s = map_option (Pair (Inr ())) (for_each (\<lambda>s (j, t). visit j t s) s (enumerate 0 (map trible_of ?rows)))"
    using check_from_ok [of None "map trible_of ?rows" visit 0 s] rows(2) by (simp add: check_increasing_def)
  then show "validate_with B visit b s = map_option (Pair (Inr (map trible_of ?rows))) (for_each (\<lambda>s (j, t). visit j t s) s (enumerate 0 (map trible_of ?rows)))"
    using rows(1) by (cases "for_each (\<lambda>s (j, t). visit j t s) s (enumerate 0 (map trible_of ?rows))") (simp_all add: validate_with_def)
qed

section \<open>Decoding\<close>

lemma insert_row_spec: "ts_ok H s \<Longrightarrow> \<exists>s'. insert_row H backed s t = Some s' \<and> ts_ok H s' \<and> ts_contents s' = insert t (ts_contents s)"
  using ts_insert_spec [of H s t] by (simp add: insert_row_def)

lemma insert_rows:
  "ts_ok H s \<Longrightarrow> \<exists>s'. for_each (\<lambda>s (j, t). insert_row H backed s t) s (enumerate i ts) = Some s' \<and> ts_ok H s' \<and> ts_contents s' = ts_contents s \<union> set ts"
proof (induction ts arbitrary: s i)
  case (Cons t ts)
  obtain s1 where s1: "insert_row H backed s t = Some s1" "ts_ok H s1" "ts_contents s1 = insert t (ts_contents s)"
    using insert_row_spec [OF Cons.prems] by blast
  show ?case using Cons.IH [OF s1(2), of "Suc i"] s1 by auto
qed simp

lemma serial_unarchive_spec:
  assumes B: "bytes_env_ok B"
  shows "verdict B b = Some e \<Longrightarrow> serial_unarchive H B b backed = Some (Inl e)"
    "verdict B b = None \<Longrightarrow> \<exists>s. serial_unarchive H B b backed = Some (Inr s) \<and> ts_ok H s \<and> ts_contents s = trible_of ` set (rows_in B b)"
proof -
  let ?visit = "\<lambda>(_ :: nat) t s. insert_row H backed s t"
  have step: "\<exists>s'. insert_row H backed s t = Some s' \<and> ts_ok H s'" if "ts_ok H s" for s t using insert_row_spec [OF that] by blast
  note spec = validate_with_spec [OF B, where I = "ts_ok H" and visit = ?visit and s = ts_new and b = b]
  show "serial_unarchive H B b backed = Some (Inl e)" if "verdict B b = Some e"
    using spec(1) [OF step ts_new_ok(1) that] by (auto simp: serial_unarchive_def)
  assume none: "verdict B b = None"
  obtain s where s: "for_each (\<lambda>s (j, t). ?visit j t s) ts_new (enumerate 0 (map trible_of (rows_in B b))) = Some s" "ts_ok H s"
      "ts_contents s = trible_of ` set (rows_in B b)"
    using insert_rows [OF ts_new_ok(1), of H backed 0 "map trible_of (rows_in B b)"] ts_new_ok(2) by auto
  then show "\<exists>s. serial_unarchive H B b backed = Some (Inr s) \<and> ts_ok H s \<and> ts_contents s = trible_of ` set (rows_in B b)"
    using spec(2) [OF step ts_new_ok(1) none] by (auto simp: serial_unarchive_def)
qed

section \<open>Encoding\<close>

lemma eav_tree: "length k = 64 \<Longrightarrow> tree_of (order_env H eav_order) k = k"
  using tree_orders(1) [of H "trible_of k"] as_raw_of [of k] by (simp add: trible_as_raw_def)

lemma ts_iter_spec:
  assumes ok: "ts_ok H s" and len: "ts_len s \<le> usize_max"
  shows "\<exists>ts. ts_iter H s = Some ts \<and> distinct ts \<and> set ts = ts_contents s"
    "\<exists>ts. ts_iter_ordered s = Some ts \<and> sorted_wrt (<) (map trible_as_raw ts) \<and> set ts = ts_contents s"
proof -
  let ?P = "order_env H eav_order"
  have p: "patch_ok ?P (ts_eav s)" "patch_len (ts_eav s) \<le> usize_max" using ok len by (simp_all add: ts_ok_def ts_len_def Let_def)
  have raw: "dom (patch_map (ts_eav s)) = trible_as_raw ` ts_contents s" by (rule ts_keys [OF ok])
  have contents: "trible_of ` trible_as_raw ` A = A" for A by (simp add: image_image)
  obtain it ks where it: "patch_iter ?P (ts_eav s) = Some it" "drain (patch_iter_next ?P) it = Some ks" "distinct ks" "set ks = trible_as_raw ` ts_contents s"
    using patch_keys_spec(1) [OF p] patch_leaves(1,2) [OF p(1), of False] raw by blast
  have "inj_on trible_of (set ks)" unfolding it(4) by (rule inj_onI) auto
  then show "\<exists>ts. ts_iter H s = Some ts \<and> distinct ts \<and> set ts = ts_contents s"
    using it contents by (simp add: ts_iter_def distinct_map)
  let ?ks = "map childleaf_key (patch_tips ?P True (key_len ?P) (ts_eav s))"
  obtain it' where it': "patch_iter_ordered (ts_eav s) = Some it'" "drain ordered_next it' = Some ?ks" using patch_ordered_spec(1) [OF p] by blast
  have ks: "set ?ks = trible_as_raw ` ts_contents s" "sorted_wrt (<) (map (tree_of ?P) ?ks)"
    using patch_leaves(2,3) [OF p(1), of True] raw by (simp_all add: before_def [abs_def])
  have id: "tree_of ?P k = k" "trible_as_raw (trible_of k) = k" if "k \<in> set ?ks" for k using that ks(1) eav_tree by auto
  have "map (tree_of ?P) ?ks = ?ks" "map trible_as_raw (map trible_of ?ks) = ?ks"
    unfolding map_map [of trible_as_raw] by (rule map_idI, use id in simp)+
  then show "\<exists>ts. ts_iter_ordered s = Some ts \<and> sorted_wrt (<) (map trible_as_raw ts) \<and> set ts = ts_contents s"
    using it' ks contents by (intro exI [of _ "map trible_of ?ks"]) (simp add: ts_iter_ordered_def del: map_map)
qed

lemma ordered_rows_spec:
  assumes B: "bytes_env_ok B" and ok: "ts_ok H s" and len: "ts_len s \<le> usize_max"
  obtains ts where "ordered_rows B s = Some (be_from_vec B ts)" "sorted_wrt (<) (map trible_as_raw ts)" "set ts = ts_contents s"
    "be_content B (be_from_vec B ts) = concat (map trible_as_raw ts)" "rows_fit B (be_from_vec B ts)" "rows_in B (be_from_vec B ts) = map trible_as_raw ts"
  using ts_iter_spec(2) [OF ok len] bytes_contract(1) [OF B] fits_vec [OF B] by (auto simp: ordered_rows_def)

lemma verdict_rows:
  assumes "rows_fit B b" "rows_in B b = map trible_as_raw ts" "sorted_wrt (<) (map trible_as_raw ts)" "\<And>t. t \<in> set ts \<Longrightarrow> trible_valid t"
  shows "verdict B b = None"
proof -
  have "list_all row_valid (map trible_as_raw ts)" using assms(4) by (auto simp: list_all_iff row_valid_def force_raw_valid)
  then show ?thesis using assms(1-3) by (simp add: verdict_def offence_sorted)
qed

section \<open>Runs\<close>

lemma seam_windows_spec:
  assumes "\<And>r. r \<in> set runs \<Longrightarrow> r \<noteq> []"
  shows "\<exists>r. seam_windows runs = Some r \<and> (r = Inr () \<longleftrightarrow> successively (\<lambda>a b. last a < hd b) runs) \<and> r \<noteq> Inl BadTrible"
  using assms
proof (induction runs rule: seam_windows.induct)
  case (1 a b runs)
  then show ?case using 1(1) by (auto simp: seam_error_def split: option.splits if_splits)
qed simp_all

lemma successively_runs:
  assumes "\<And>r. r \<in> set runs \<Longrightarrow> r \<noteq> []"
  shows "successively R (concat runs) \<longleftrightarrow> successively (\<lambda>a b. R (last a) (hd b)) runs \<and> (\<forall>r \<in> set runs. successively R r)"
  using assms
proof (induction runs rule: induct_list012)
  case (3 a b runs)
  have "hd (concat (b # runs)) = hd b" "concat (b # runs) \<noteq> []" using 3(3) [of b] by simp_all
  then show ?case using 3 successively_append_iff [of R a "concat (b # runs)"] by auto
qed simp_all

lemma those_force:
  assumes "\<And>r. r \<in> set run \<Longrightarrow> length r = 64"
  shows "row_rule run = (if list_all row_valid run then Inr (map trible_of run) else Inl BadTrible)"
proof -
  have "those (map trible_force_raw run) = (if list_all row_valid run then Some (map trible_of run) else None)"
    using assms by (induction run) (auto simp: row_valid_def force_raw_of split: if_splits)
  then show ?thesis by (simp add: row_rule_def)
qed

lemma write_all:
  assumes "i + length ts \<le> length out"
  shows "for_each (\<lambda>out (j, t). idx_update out j (f t)) out (enumerate i ts) = Some (take i out @ map f ts @ drop (i + length ts) out)"
  using assms
proof (induction ts arbitrary: i out)
  case (Cons t ts)
  have "take (Suc i) (out[i := f t]) = take i out @ [f t]" "drop (Suc (i + length ts)) (out[i := f t]) = drop (Suc (i + length ts)) out"
    using Cons.prems by (simp_all add: take_Suc_conv_app_nth)
  then show ?case using Cons.IH [of "Suc i" "out[i := f t]"] Cons.prems by simp
qed simp

lemma write_total: "\<exists>r out'. check_from (\<lambda>j t out. idx_update out j (f t)) i p ts out = Some (r, out') \<and> 
    (case first_offence (prev_list p @ map trible_as_raw ts) of None \<Rightarrow> r = Inr () \<and> out' = take i out @ map f ts @ drop (i + length ts) out | Some e \<Rightarrow> r = Inl e)"
  if "i + length ts \<le> length out"
proof (cases "first_offence (prev_list p @ map trible_as_raw ts)")
  case None
  then show ?thesis using check_from_ok [of p ts _ i out] write_all [OF that, of f] by simp
next
  case (Some e)
  have "\<exists>out'. check_from (\<lambda>j t out. idx_update out j (f t)) i p ts out = Some (Inl e, out')"
    by (rule check_from_bad [where I = "\<lambda>out'. length out' = length out" and n = "length out"]) (use that Some in auto)
  then show ?thesis using Some by auto
qed

lemma check_run_spec:
  assumes "\<And>r. r \<in> set run \<Longrightarrow> length r = 64"
  shows "check_run f dflt run = Some (if \<not> list_all row_valid run then Inl BadTrible
    else case first_offence run of Some e \<Rightarrow> Inl e | None \<Rightarrow> Inr (map f (map trible_of run)))"
proof -
  have raw: "map trible_as_raw (map trible_of run) = run" using assms as_raw_of unfolding map_map by (intro map_idI) simp
  obtain r out where "check_from (\<lambda>j t out. idx_update out j (f t)) 0 None (map trible_of run) (replicate (length run) dflt) = Some (r, out)"
      "case first_offence run of None \<Rightarrow> r = Inr () \<and> out = map f (map trible_of run) | Some e \<Rightarrow> r = Inl e"
    using write_total [of 0 "map trible_of run" "replicate (length run) dflt" f None] raw by (auto split: option.splits)
  then show ?thesis using those_force [OF assms] by (auto simp: check_run_def check_increasing_def split: option.splits)
qed

lemma map_panic_total: "(\<And>x. x \<in> set xs \<Longrightarrow> f x = Some (g x)) \<Longrightarrow> map_panic f xs = Some (map g xs)"
  by (induction xs) auto

lemma try_for_each_ok:
  "(\<And>x. x \<in> set xs \<Longrightarrow> f x = Some (Inr (g x))) \<Longrightarrow> try_for_each sched f xs = Some (Inr (map g xs))"
  using map_panic_total [of xs f "\<lambda>x. Inr (g x)"] by (simp add: try_for_each_def Let_def comp_def)

lemma try_for_each_bad:
  assumes f: "\<And>x. x \<in> set xs \<Longrightarrow> f x = Some (g x)" and x: "x \<in> set xs" "g x = Inl e" and sched: "\<forall>es. es \<noteq> [] \<longrightarrow> sched es \<in> set es"
  shows "\<exists>y e'. y \<in> set xs \<and> g y = Inl e' \<and> try_for_each sched f xs = Some (Inl e')"
proof -
  let ?errors = "[e. Inl e \<leftarrow> map g xs]"
  have "e \<in> set ?errors" using x by force
  then have ne: "?errors \<noteq> []" by (metis empty_iff empty_set)
  have run: "map_panic f xs = Some (map g xs)" by (rule map_panic_total) (rule f)
  have "try_for_each sched f xs = Some (Inl (sched ?errors))" by (simp only: try_for_each_def run Option.bind.bind_lunit Let_def ne if_False)
  moreover have "\<exists>y. y \<in> set xs \<and> g y = Inl (sched ?errors)" using mp [OF spec [OF sched] ne] by (auto split: sum.splits)
  ultimately show ?thesis by blast
qed

lemma validate_spec:
  assumes "bytes_env_ok B"
  shows "validate B b = Some (case verdict B b of Some e \<Rightarrow> Inl e | None \<Rightarrow> Inr (map trible_of (rows_in B b)))"
proof -
  have all: "for_each (\<lambda>s (j, t). Some s) s xs = Some s" for s :: unit and xs :: "(nat \<times> trible) list" by (induction xs) auto
  have total: "\<exists>s'. Some s = Some s' \<and> True" for s :: unit by simp
  show ?thesis
  proof (cases "verdict B b")
    case None
    then show ?thesis using validate_with_spec(2) [OF assms, where I = "\<lambda>_. True" and visit = "\<lambda>_ _ s. Some s" and b = b and s = "()"] all
      by (simp add: validate_def)
  next
    case (Some e)
    then show ?thesis using validate_with_spec(1) [OF assms, where I = "\<lambda>_. True" and visit = "\<lambda>_ _ s. Some s" and b = b and s = "()"]
      by (auto simp: validate_def)
  qed
qed

text \<open>The parallel check, seam by seam and run by run, against the verdict of the serial one.\<close>

lemma par_runs_spec:
  fixes f :: "trible \<Rightarrow> 't" and dflt :: 't and rows :: "u8 list list" and n :: nat and sched :: "unarchive_error list \<Rightarrow> unarchive_error"
  assumes rows: "\<forall>r \<in> set rows. length r = 64" and n: "0 < n" and sched: "\<forall>es. es \<noteq> [] \<longrightarrow> sched es \<in> set es"
  defines "runs \<equiv> chunks n rows"
  defines "result \<equiv> do { seams \<leftarrow> check_seams rows n; case seams of Inl e \<Rightarrow> Some (Inl e)
      | Inr _ \<Rightarrow> do { r \<leftarrow> try_for_each sched (check_run f dflt) runs; Some (map_sum id concat r) } }"
  shows "list_all row_valid rows \<Longrightarrow> first_offence rows = None \<Longrightarrow> result = Some (Inr (map f (map trible_of rows)))"
    "\<not> (list_all row_valid rows \<and> first_offence rows = None) \<Longrightarrow> \<exists>e. result = Some (Inl e) \<and> (e = BadTrible \<longrightarrow> \<not> list_all row_valid rows)"
proof -
  have cat: "concat runs = rows" unfolding runs_def by (rule chunks_concat [OF n])
  have ne: "r \<noteq> []" if "r \<in> set runs" for r using that chunks_nonempty unfolding runs_def by blast
  have sub: "set r \<subseteq> set rows" if "r \<in> set runs" for r using that cat by auto
  have len: "length x = 64" if "r \<in> set runs" "x \<in> set r" for r x using rows sub [OF that(1)] that(2) by blast
  have run: "check_run f dflt r = Some (if \<not> list_all row_valid r then Inl BadTrible else case first_offence r of Some e \<Rightarrow> Inl e | None \<Rightarrow> Inr (map f (map trible_of r)))"
    if "r \<in> set runs" for r by (rule check_run_spec) (rule len [OF that])
  obtain seam where seam: "check_seams rows n = Some seam" "seam = Inr () \<longleftrightarrow> successively (\<lambda>a b. last a < hd b) runs" "seam \<noteq> Inl BadTrible"
    using seam_windows_spec [OF ne] n by (auto simp: check_seams_def runs_def)
  have sorted: "first_offence rows = None \<longleftrightarrow> seam = Inr () \<and> (\<forall>r \<in> set runs. first_offence r = None)"
  proof -
    have "successively (<) (concat runs) \<longleftrightarrow> successively (\<lambda>a b. last a < hd b) runs \<and> (\<forall>r \<in> set runs. successively (<) r)"
      by (rule successively_runs) (rule ne)
    then show ?thesis unfolding offence_None seam(2) cat .
  qed
  have valid: "list_all row_valid rows \<longleftrightarrow> (\<forall>r \<in> set runs. list_all row_valid r)" using cat [symmetric] by (auto simp: list_all_iff)
  show "result = Some (Inr (map f (map trible_of rows)))" if "list_all row_valid rows" "first_offence rows = None"
  proof -
    have "try_for_each sched (check_run f dflt) runs = Some (Inr (map (\<lambda>r. map f (map trible_of r)) runs))"
      by (rule try_for_each_ok) (use run that sorted valid in auto)
    then show ?thesis using that sorted seam(1) by (simp add: result_def cat [symmetric] map_concat comp_def)
  qed
  assume bad: "\<not> (list_all row_valid rows \<and> first_offence rows = None)"
  show "\<exists>e. result = Some (Inl e) \<and> (e = BadTrible \<longrightarrow> \<not> list_all row_valid rows)"
  proof (cases seam)
    case (Inl e)
    then show ?thesis using seam(1,3) by (simp add: result_def)
  next
    case (Inr u)
    let ?g = "\<lambda>r. if \<not> list_all row_valid r then Inl BadTrible else case first_offence r of Some e \<Rightarrow> Inl e | None \<Rightarrow> Inr (map f (map trible_of r))"
    have "\<exists>r \<in> set runs. \<not> list_all row_valid r \<or> first_offence r \<noteq> None" using bad sorted valid Inr by (cases u) blast
    then obtain r e where r: "r \<in> set runs" "?g r = Inl e" by (metis (no_types, lifting) not_None_eq option.simps(5))
    obtain y e' where y: "y \<in> set runs" "?g y = Inl e'" "try_for_each sched (check_run f dflt) runs = Some (Inl e')"
      using try_for_each_bad [of runs "check_run f dflt" ?g r e sched] run r sched by blast
    then have "e' = BadTrible \<Longrightarrow> \<not> list_all row_valid rows" using valid offence_ordering [of y] by (auto split: if_splits option.splits)
    then show ?thesis using y(3) seam(1) Inr by (simp add: result_def)
  qed
qed

lemma row_rule_runs:
  assumes "\<And>r. r \<in> set (concat runs) \<Longrightarrow> length r = 64" and sched: "\<forall>es. es \<noteq> [] \<longrightarrow> sched es \<in> set es"
  shows "try_for_each sched (\<lambda>run. Some (map_sum id (\<lambda>_. ()) (row_rule run))) runs
    = Some (if list_all row_valid (concat runs) then Inr (map (\<lambda>_. ()) runs) else Inl BadTrible)"
proof -
  let ?f = "\<lambda>run. map_sum id (\<lambda>_. ()) (row_rule run)"
  have g: "?f r = (if list_all row_valid r then Inr () else Inl BadTrible)" if "r \<in> set runs" for r
  proof -
    have "\<And>x. x \<in> set r \<Longrightarrow> length x = 64" using assms(1) that by auto
    then show ?thesis using those_force [of r] by simp
  qed
  show ?thesis
  proof (cases "list_all row_valid (concat runs)")
    case True
    then have "try_for_each sched (\<lambda>run. Some (?f run)) runs = Some (Inr (map (\<lambda>_. ()) runs))"
      by (intro try_for_each_ok) (use g in \<open>auto simp: list_all_iff\<close>)
    then show ?thesis using True by simp
  next
    case False
    then obtain r where r: "r \<in> set runs" "\<not> list_all row_valid r" by (auto simp: list_all_iff)
    then have "?f r = Inl BadTrible" using g by simp
    note r = r(1) this
    obtain y e' where "y \<in> set runs" "?f y = Inl e'" "try_for_each sched (\<lambda>run. Some (?f run)) runs = Some (Inl e')"
      using try_for_each_bad [of runs "\<lambda>run. Some (?f run)" ?f r BadTrible sched] r sched by blast
    then show ?thesis using False g by (auto split: if_splits)
  qed
qed

lemma par_validate_spec:
  assumes B: "bytes_env_ok B" and sched: "\<forall>es. es \<noteq> [] \<longrightarrow> sched es \<in> set es"
  shows "par_validate_map B sched threads f dflt b = Some (case verdict B b of Some e \<Rightarrow> Inl e | None \<Rightarrow> Inr (map trible_of (rows_in B b), map f (map trible_of (rows_in B b))))"
proof (cases "be_content B b \<noteq> [] \<and> \<not> rows_fit B b")
  case True
  then show ?thesis using view_rows_spec(2) [OF B, of b] by (simp add: par_validate_map_def verdict_def)
next
  case False
  let ?rows = "rows_in B b" and ?n = "parallel_run_len threads (length (rows_in B b))"
  have n: "0 < ?n" by (simp add: parallel_run_len_def)
  have len: "\<forall>r \<in> set ?rows. length r = 64"
  proof
    fix r assume r: "r \<in> set ?rows"
    have "length (be_content B b) mod 64 = 0" using False by (cases "be_content B b = []") (simp_all add: rows_fit_def)
    then show "length r = 64" using r unfolding rows_in_def by (rule chunks_length)
  qed
  note par = par_runs_spec [OF len n sched, where f = f and dflt = dflt]
  let ?K = "\<lambda>result. case result of
      Inr mapped \<Rightarrow> Some (Inr (map trible_of ?rows, mapped)) | Inl BadTrible \<Rightarrow> Some (Inl BadTrible)
    | Inl _ \<Rightarrow> do { r \<leftarrow> try_for_each sched (\<lambda>run. Some (map_sum id (\<lambda>_. ()) (row_rule run))) (chunks ?n ?rows);
        case r of Inl e \<Rightarrow> Some (Inl e) | Inr _ \<Rightarrow> do { e \<leftarrow> first_offence ?rows; Some (Inl e) } }"
  define result where "result = do { seams \<leftarrow> check_seams ?rows ?n; case seams of Inl e \<Rightarrow> Some (Inl e)
      | Inr _ \<Rightarrow> do { r \<leftarrow> try_for_each sched (check_run f dflt) (chunks ?n ?rows); Some (map_sum id concat r) } }"
  have view: "view_aligned_rows B b = Some (Inr ?rows)" using view_rows_spec(2) [OF B, of b] False by auto
  have eq: "par_validate_map B sched threads f dflt b = result \<bind> ?K"
    unfolding par_validate_map_def result_def view Let_def by (simp only: Option.bind.bind_lunit sum.case Option.bind_assoc)
  have rule: "try_for_each sched (\<lambda>run. Some (map_sum id (\<lambda>_. ()) (row_rule run))) (chunks ?n ?rows)
      = Some (if list_all row_valid ?rows then Inr (map (\<lambda>_. ()) (chunks ?n ?rows)) else Inl BadTrible)"
    using row_rule_runs [of "chunks ?n ?rows" sched] sched len unfolding chunks_concat [OF n] by blast
  have v: "verdict B b = (if list_all row_valid ?rows then first_offence ?rows else Some BadTrible)" using False by (auto simp: verdict_def)
  show ?thesis
  proof (cases "list_all row_valid ?rows \<and> first_offence ?rows = None")
    case True
    then have "result = Some (Inr (map f (map trible_of ?rows)))" unfolding result_def by (intro par(1)) simp_all
    then show ?thesis using True v unfolding eq by simp
  next
    case bad: False
    obtain e where e: "result = Some (Inl e)" "e = BadTrible \<longrightarrow> \<not> list_all row_valid ?rows" using par(2) [OF bad] unfolding result_def by blast
    show ?thesis
    proof (cases "e = BadTrible")
      case True
      then show ?thesis using e v unfolding eq by simp
    next
      case False
      then have "?K (Inl e) = (if list_all row_valid ?rows then map_option Inl (first_offence ?rows) else Some (Inl BadTrible))"
        unfolding rule by (cases e) (simp_all add: map_conv_bind_option comp_def)
      then show ?thesis using e(1) v bad unfolding eq by (auto split: if_splits)
    qed
  qed
qed

lemma offence_iff:
  "first_offence rows = Some e \<longleftrightarrow> (\<exists>i. Suc i < length rows \<and> sorted_wrt (<) (take (Suc i) rows) \<and> seam_error (rows ! i) (rows ! Suc i) = Some e)"
proof (induction rows rule: first_offence.induct)
  case (1 x y rows)
  show ?case
  proof (cases "seam_error x y")
    case None
    then have lt: "x < y" by (simp add: seam_error_None)
    have "(\<exists>i. Suc i < length (x # y # rows) \<and> sorted_wrt (<) (take (Suc i) (x # y # rows)) \<and> seam_error ((x # y # rows) ! i) ((x # y # rows) ! Suc i) = Some e)
        \<longleftrightarrow> (\<exists>i. Suc i < length (y # rows) \<and> sorted_wrt (<) (take (Suc i) (y # rows)) \<and> seam_error ((y # rows) ! i) ((y # rows) ! Suc i) = Some e)" (is "?L \<longleftrightarrow> ?R")
    proof
      assume ?L
      then obtain i where i: "Suc i < length (x # y # rows)" "sorted_wrt (<) (take (Suc i) (x # y # rows))" "seam_error ((x # y # rows) ! i) ((x # y # rows) ! Suc i) = Some e" by blast
      with None obtain j where "i = Suc j" by (cases i) auto
      with i show ?R by (intro exI [of _ j]) simp
    next
      assume ?R
      then obtain i where i: "Suc i < length (y # rows)" "sorted_wrt (<) (take (Suc i) (y # rows))" "seam_error ((y # rows) ! i) ((y # rows) ! Suc i) = Some e" by blast
      then have "sorted_wrt (<) (take (Suc (Suc i)) (x # y # rows))" using lt by (auto intro: less_trans)
      with i show ?L by (intro exI [of _ "Suc i"]) simp
    qed
    then show ?thesis using 1 None by simp
  next
    case (Some e')
    then have "\<not> x < y" by (simp add: seam_error_None [symmetric])
    then show ?thesis using Some by (auto simp: take_Cons' less_Suc_eq_0_disj split: if_splits intro!: exI [of _ 0])
  qed
qed auto

section \<open>Properties\<close>

text \<open>
  C23. Encoding an intact set and decoding the bytes gives the set back, archive-backed or not, for at most
  \<open>usize::MAX\<close> tribles whose entity and attribute are not nil, as the type of tribles demands. The bytes are the tribles of the set, once each and in
  ascending order; the view that \<open>from_set\<close> takes without the ordering check is the one the check accepts.
\<close>

theorem archive_round_trip:
  assumes "bytes_env_ok B" "ts_ok H s" "ts_len s \<le> usize_max" "\<forall>t \<in> ts_contents s. \<not> id_is_nil (tr_e t) \<and> \<not> id_is_nil (tr_a t)"
  shows "\<exists>ts b s'. ordered_rows B s = Some b \<and> be_content B b = concat (map trible_as_raw ts) \<and> set ts = ts_contents s \<and> sorted_wrt (<) (map trible_as_raw ts)
    \<and> from_set B s = Some ts \<and> validate B b = Some (Inr ts)
    \<and> serial_unarchive H B b backed = Some (Inr s') \<and> ts_ok H s' \<and> ts_contents s' = ts_contents s"
proof -
  obtain ts where ts: "ordered_rows B s = Some (be_from_vec B ts)" "sorted_wrt (<) (map trible_as_raw ts)" "set ts = ts_contents s"
      "be_content B (be_from_vec B ts) = concat (map trible_as_raw ts)" "rows_fit B (be_from_vec B ts)" "rows_in B (be_from_vec B ts) = map trible_as_raw ts"
    by (rule ordered_rows_spec [OF assms(1-3)])
  have v: "verdict B (be_from_vec B ts) = None" by (rule verdict_rows [OF ts(5,6,2)]) (use assms(4) ts(3) in \<open>auto simp: trible_valid_def\<close>)
  obtain s' where "serial_unarchive H B (be_from_vec B ts) backed = Some (Inr s')" "ts_ok H s'" "ts_contents s' = set ts"
    using serial_unarchive_spec(2) [OF assms(1) v, of H backed] ts(6) by (auto simp: image_image)
  moreover have "validate B (be_from_vec B ts) = Some (Inr ts)" using validate_spec [OF assms(1)] v ts(6) by (simp add: map_idI)
  moreover from this have "from_set B s = Some ts" using v view_rows_spec(1) [OF assms(1), of "be_from_vec B ts"] ts(1,5,6)
    by (auto simp: from_set_def verdict_def map_idI split: if_splits)
  ultimately show ?thesis using ts by blast
qed

text \<open>A container of bytes: a list and whether it lies at an aligned address.\<close>

definition plain_check :: "u8 list \<times> bool \<Rightarrow> view_error + 'a \<Rightarrow> view_error + 'a" where
  "plain_check b res = (if \<not> snd b then Inl Alignment else if length (fst b) mod 64 \<noteq> 0 then Inl Size else res)"

definition plain_bytes :: "(u8 list \<times> bool) bytes_env" where
  "plain_bytes =
     \<lparr>be_content = fst, be_aligned = snd, be_from_vec = (\<lambda>ts. (concat (map trible_as_raw ts), True)),
      be_view = (\<lambda>b. plain_check b (if list_all row_valid (chunks 64 (fst b)) then Inr (map trible_of (chunks 64 (fst b))) else Inl Validity)),
      be_view_aligned = (\<lambda>b. plain_check b (Inr (chunks 64 (fst b))))\<rparr>"

lemma plain_bytes_ok: "bytes_env_ok plain_bytes" "be_content plain_bytes = fst" "rows_fit plain_bytes b \<longleftrightarrow> snd b \<and> length (fst b) mod 64 = 0"
  "rows_in plain_bytes b = chunks 64 (fst b)"
  by (auto simp: bytes_env_ok_def plain_bytes_def plain_check_def rows_fit_def rows_in_def)

abbreviation sample_trible :: "u8 \<Rightarrow> trible" where
  "sample_trible n \<equiv> trible_force (id_pad [n]) (id_pad [7]) (inline_pad [2])"

lemma id_pad_not_nil: "n \<noteq> 0 \<Longrightarrow> \<not> id_is_nil (id_pad [n])"
  by (auto simp: id_is_nil_def dest: arg_cong [where f = hd])

theorem archive_round_trip_witness:
  "\<exists>b s'. ordered_rows plain_bytes (the (ts_from_iter \<lparr>he_rand = id, he_leaf_hash = (\<lambda>_. 0)\<rparr> [sample_trible 1, sample_trible 2])) = Some b
    \<and> serial_unarchive \<lparr>he_rand = id, he_leaf_hash = (\<lambda>_. 0)\<rparr> plain_bytes b True = Some (Inr s') \<and> ts_contents s' = {sample_trible 1, sample_trible 2}"
proof -
  let ?H = "\<lparr>he_rand = id, he_leaf_hash = (\<lambda>_. 0)\<rparr>"
  let ?s = "the (ts_from_iter ?H [sample_trible 1, sample_trible 2])"
  note ok = ts_from_iter_ok [of ?H "[sample_trible 1, sample_trible 2]"]
  have len: "ts_len ?s \<le> usize_max" using ts_len_spec(1) [OF ok(1)] card_length [of "[sample_trible 1, sample_trible 2]"] unfolding ok(2) by (simp add: usize_max_def)
  have nil: "\<forall>t \<in> ts_contents ?s. \<not> id_is_nil (tr_e t) \<and> \<not> id_is_nil (tr_a t)" unfolding ok(2) by (auto simp: trible_force_def id_pad_not_nil)
  show ?thesis using archive_round_trip [OF plain_bytes_ok(1) ok(1) len nil, of True] unfolding ok(2) by auto
qed

text \<open>
  C24. The bytes of a set are unique: whatever byte sequence the decoder accepts (of a length that a \<open>usize\<close> holds),
  encoding the decoded set gives that byte sequence again, so equal sets have equal archives.
\<close>

theorem archive_bytes_canonical:
  assumes "bytes_env_ok B" "serial_unarchive H B b backed = Some (Inr s)" "length (be_content B b) \<le> usize_max"
  shows "ts_ok H s \<and> (\<exists>b'. ordered_rows B s = Some b' \<and> be_content B b' = be_content B b)"
proof -
  have v: "verdict B b = None" using serial_unarchive_spec(1) [OF assms(1), of b _ H backed] assms(2) by (cases "verdict B b") auto
  then have s: "ts_ok H s" "ts_contents s = trible_of ` set (rows_in B b)" using serial_unarchive_spec(2) [OF assms(1) v, of H backed] assms(2) by auto
  have shape: "\<not> (be_content B b \<noteq> [] \<and> \<not> rows_fit B b)" "first_offence (rows_in B b) = None" using v by (auto simp: verdict_def split: if_splits)
  note raw = rows_as_raw [OF shape(1)]
  have cat: "concat (rows_in B b) = be_content B b" unfolding rows_in_def by (rule chunks_concat) simp
  then have "64 * length (rows_in B b) = length (be_content B b)" using length_tribles [of "map trible_of (rows_in B b)"] unfolding raw by simp
  moreover have "card (ts_contents s) \<le> length (rows_in B b)" using card_length [of "map trible_of (rows_in B b)"] s(2) by simp
  ultimately have "ts_len s \<le> usize_max" using ts_len_spec(1) [OF s(1)] assms(3) by simp
  then obtain ts where ts: "ordered_rows B s = Some (be_from_vec B ts)" "sorted_wrt (<) (map trible_as_raw ts)" "set ts = ts_contents s"
      "be_content B (be_from_vec B ts) = concat (map trible_as_raw ts)"
    using ordered_rows_spec [OF assms(1) s(1)] by metis
  have "set (map trible_as_raw ts) = set (rows_in B b)" using ts(3) s(2) raw by (metis image_set)
  then have "map trible_as_raw ts = rows_in B b" using ts(2) shape(2) unfolding offence_sorted by (intro strict_sorted_equal)
  then show ?thesis using s(1) ts(1,4) cat by auto
qed

theorem archive_bytes_canonical_witness:
  "\<exists>s b'. serial_unarchive \<lparr>he_rand = id, he_leaf_hash = (\<lambda>_. 0)\<rparr> plain_bytes (trible_as_raw (sample_trible 1), True) False = Some (Inr s)
    \<and> ordered_rows plain_bytes s = Some b' \<and> fst b' = trible_as_raw (sample_trible 1)"
proof -
  let ?b = "(trible_as_raw (sample_trible 1), True)"
  have rows: "rows_in plain_bytes ?b = map trible_as_raw [sample_trible 1]" unfolding plain_bytes_ok(4) using chunks_tribles [of "[sample_trible 1]"] by simp
  have "verdict plain_bytes ?b = None"
    by (rule verdict_rows [OF _ rows]) (auto simp: plain_bytes_ok(3) trible_valid_def trible_force_def id_pad_not_nil)
  then obtain s where s: "serial_unarchive \<lparr>he_rand = id, he_leaf_hash = (\<lambda>_. 0)\<rparr> plain_bytes ?b False = Some (Inr s)"
    using serial_unarchive_spec(2) [OF plain_bytes_ok(1)] by blast
  have "length (be_content plain_bytes ?b) \<le> usize_max" by (simp add: plain_bytes_ok(2) usize_max_def)
  from archive_bytes_canonical [OF plain_bytes_ok(1) s this] s show ?thesis by (auto simp: plain_bytes_ok(2))
qed

text \<open>
  C25. Which error the decoder reports, in the order its documentation gives: \<open>BadArchive\<close> exactly for bytes, not
  empty, that are misaligned or not whole rows; else \<open>BadTrible\<close> exactly when a row has a nil entity or attribute;
  else the first row that is not above the one before it, \<open>BadCanonicalizationRedundancy\<close> when it is equal and
  \<open>BadCanonicalizationOrdering\<close> when it is less; and it succeeds when there is none. It never panics.
\<close>

theorem unarchive_errors:
  assumes "bytes_env_ok B"
  shows "(serial_unarchive H B b backed = Some (Inl BadArchive) \<longleftrightarrow> be_content B b \<noteq> [] \<and> \<not> rows_fit B b)
    \<and> (serial_unarchive H B b backed = Some (Inl BadTrible) \<longleftrightarrow> (be_content B b = [] \<or> rows_fit B b) \<and> \<not> list_all row_valid (rows_in B b))
    \<and> (serial_unarchive H B b backed = Some (Inl BadCanonicalizationRedundancy) \<longleftrightarrow> (be_content B b = [] \<or> rows_fit B b) \<and> list_all row_valid (rows_in B b)
        \<and> (\<exists>i. Suc i < length (rows_in B b) \<and> sorted_wrt (<) (take (Suc i) (rows_in B b)) \<and> rows_in B b ! Suc i = rows_in B b ! i))
    \<and> (serial_unarchive H B b backed = Some (Inl BadCanonicalizationOrdering) \<longleftrightarrow> (be_content B b = [] \<or> rows_fit B b) \<and> list_all row_valid (rows_in B b)
        \<and> (\<exists>i. Suc i < length (rows_in B b) \<and> sorted_wrt (<) (take (Suc i) (rows_in B b)) \<and> rows_in B b ! Suc i < rows_in B b ! i))
    \<and> ((\<exists>s. serial_unarchive H B b backed = Some (Inr s)) \<longleftrightarrow> (be_content B b = [] \<or> rows_fit B b) \<and> list_all row_valid (rows_in B b) \<and> sorted_wrt (<) (rows_in B b))"
proof -
  have iff: "serial_unarchive H B b backed = Some (Inl e) \<longleftrightarrow> verdict B b = Some e" for e
    using serial_unarchive_spec [OF assms, where b = b and H = H and backed = backed] by (cases "verdict B b") auto
  have ok: "(\<exists>s. serial_unarchive H B b backed = Some (Inr s)) \<longleftrightarrow> verdict B b = None"
    using serial_unarchive_spec [OF assms, where b = b and H = H and backed = backed] by (cases "verdict B b") auto
  have seam: "seam_error x y = Some BadCanonicalizationRedundancy \<longleftrightarrow> y = x" "seam_error x y = Some BadCanonicalizationOrdering \<longleftrightarrow> y < x" for x y
    by (auto simp: seam_error_def)
  have no: "first_offence (rows_in B b) \<noteq> Some BadArchive" "first_offence (rows_in B b) \<noteq> Some BadTrible" using offence_ordering [of "rows_in B b"] by auto
  note off = offence_iff [of "rows_in B b" BadCanonicalizationRedundancy, unfolded seam] offence_iff [of "rows_in B b" BadCanonicalizationOrdering, unfolded seam]
  show ?thesis unfolding iff ok off [symmetric] offence_sorted [of "rows_in B b", symmetric] using no by (simp add: verdict_def)
qed

theorem unarchive_errors_witness:
  "serial_unarchive \<lparr>he_rand = id, he_leaf_hash = (\<lambda>_. 0)\<rparr> plain_bytes (replicate 63 1, True) True = Some (Inl BadArchive)
    \<and> serial_unarchive \<lparr>he_rand = id, he_leaf_hash = (\<lambda>_. 0)\<rparr> plain_bytes (replicate 64 0, True) True = Some (Inl BadTrible)
    \<and> serial_unarchive \<lparr>he_rand = id, he_leaf_hash = (\<lambda>_. 0)\<rparr> plain_bytes (trible_as_raw (sample_trible 1) @ trible_as_raw (sample_trible 1), True) True
      = Some (Inl BadCanonicalizationRedundancy)"
proof -
  let ?H = "\<lparr>he_rand = id, he_leaf_hash = (\<lambda>_. 0)\<rparr>"
  note errors = unarchive_errors [OF plain_bytes_ok(1), where H = ?H and backed = True, unfolded plain_bytes_ok(2-4)]
  have zero: "chunks 64 (replicate 64 (0 :: u8)) = [replicate 64 0]" using chunks_rows [of "[replicate 64 (0 :: u8)]" 64] by simp
  have "id_is_nil (tr_e (trible_of (replicate 64 0)))" by (simp add: id_is_nil_def trible_of_def trible_force_def)
  then have nil: "\<not> row_valid (replicate 64 0)" by (simp add: row_valid_def force_raw_of)
  have two: "chunks 64 (trible_as_raw (sample_trible 1) @ trible_as_raw (sample_trible 1)) = [trible_as_raw (sample_trible 1), trible_as_raw (sample_trible 1)]"
    using chunks_tribles [of "[sample_trible 1, sample_trible 1]"] by simp
  have ok: "row_valid (trible_as_raw (sample_trible 1))" by (simp add: row_valid_def force_raw_valid trible_valid_def) (simp add: trible_force_def id_pad_not_nil)
  have "serial_unarchive ?H plain_bytes (replicate 63 1, True) True = Some (Inl BadArchive)"
    using errors [where b = "(replicate 63 1, True)"] by simp
  moreover have "serial_unarchive ?H plain_bytes (replicate 64 0, True) True = Some (Inl BadTrible)"
    using errors [where b = "(replicate 64 0, True)"] zero nil by simp
  moreover have "serial_unarchive ?H plain_bytes (trible_as_raw (sample_trible 1) @ trible_as_raw (sample_trible 1), True) True = Some (Inl BadCanonicalizationRedundancy)"
    using errors [where b = "(trible_as_raw (sample_trible 1) @ trible_as_raw (sample_trible 1), True)"] two ok by auto
  ultimately show ?thesis by blast
qed

text \<open>
  C26. The parallel check is the serial one, whatever the number of threads and whichever of the errors of its runs
  the thread pool reports: it accepts the same bytes, returns the image of every row in order, and reports the same
  error, although it looks at the seams between runs first and stops at the first failing run it meets.
\<close>

theorem par_validate_is_validate:
  assumes "bytes_env_ok B" "\<forall>es. es \<noteq> [] \<longrightarrow> sched es \<in> set es"
  shows "par_validate_map B sched threads f dflt b = map_option (map_sum id (\<lambda>rows. (rows, map f rows))) (validate B b)"
  unfolding par_validate_spec [OF assms] validate_spec [OF assms(1)] by (simp split: option.splits)

theorem par_validate_is_validate_witness:
  "par_validate_map plain_bytes last 2 tr_v (inline_pad [0]) (trible_as_raw (sample_trible 1) @ trible_as_raw (sample_trible 1), True)
      = Some (Inl BadCanonicalizationRedundancy)
    \<and> par_validate_map plain_bytes last 2 tr_v (inline_pad [0]) (trible_as_raw (sample_trible 1), True)
      = Some (Inr ([sample_trible 1], [inline_pad [2]]))"
proof -
  let ?one = "(trible_as_raw (sample_trible 1), True)" and ?two = "(trible_as_raw (sample_trible 1) @ trible_as_raw (sample_trible 1), True)"
  have pick: "\<forall>es. es \<noteq> [] \<longrightarrow> last es \<in> set es" for es :: "unarchive_error list" by simp
  note par = par_validate_is_validate [OF plain_bytes_ok(1) pick, of 2 tr_v "inline_pad [0]"]
  have rows: "rows_in plain_bytes ?one = map trible_as_raw [sample_trible 1]" "rows_in plain_bytes ?two = map trible_as_raw [sample_trible 1, sample_trible 1]"
    unfolding plain_bytes_ok(4) using chunks_tribles [of "[sample_trible 1]"] chunks_tribles [of "[sample_trible 1, sample_trible 1]"] by simp_all
  have ok: "row_valid (trible_as_raw (sample_trible 1))" by (simp add: row_valid_def force_raw_valid trible_valid_def) (simp add: trible_force_def id_pad_not_nil)
  have "verdict plain_bytes ?one = None" "verdict plain_bytes ?two = Some BadCanonicalizationRedundancy"
    unfolding verdict_def rows using ok by (simp_all add: plain_bytes_ok(2,3) seam_error_def)
  then have "validate plain_bytes ?one = Some (Inr [sample_trible 1])" "validate plain_bytes ?two = Some (Inl BadCanonicalizationRedundancy)"
    unfolding validate_spec [OF plain_bytes_ok(1)] rows by simp_all
  moreover have "tr_v (sample_trible 1) = inline_pad [2]" by (simp add: trible_force_def)
  ultimately show ?thesis using par [of ?one] par [of ?two] by simp
qed

end
