(* ===== verification/Spec2Isabelle.thy ===== *)
theory Spec2Isabelle
  imports Pattern_Query Index_Constraints Simple_Archive
begin

text \<open>
  A verification library for triblespace, a store of 64-byte facts (tribles: entity, attribute, value) with a
  worst-case-optimal query engine. What is modelled is the core of \<open>src/triblespace-core/src\<close>: the persistent
  tries that hold facts, the sets of facts with their six indexes, the constraints over them, the search that
  answers queries, and the canonical archive of a set. Paths below are relative to that directory.

  \<^bold>\<open>How the parts interact.\<close> A \<open>PATCH\<close> (\<open>patch.rs\<close>) is a trie over keys of a fixed length, read in the byte order
  of a schema; the children of a node are in a cuckoo table (\<open>patch/bytetable.rs\<close>), and every node caches the
  number, the segment count and the digest of its keys. A \<open>TribleSet\<close> (\<open>trible/tribleset.rs\<close>) is six PATCHes over
  the same tribles, one for each order of entity, attribute and value. A constraint (\<open>query.rs\<close>, trait
  \<open>Constraint\<close>) answers for one query variable and a batch of partial rows how many candidates there are, which
  they are, and which of given candidates it accepts; the pattern constraint of a trible set answers from the
  index whose order puts the bound positions first, intersections and unions combine constraints. The engine
  (\<open>Query\<close>) picks the cheapest variable of each row, has the constraint propose candidates for it into a buffer
  with packed liveness bits (\<open>query/liveness.rs\<close>), and descends until all variables are bound. A set is written
  as, and read from, the bytes of its tribles in ascending order (\<open>blob/encodings/simplearchive.rs\<close>).

  \<^bold>\<open>Theories, in the order of the program.\<close>

  \<^item> \<open>Prelude\<close>: words, checked indexing, loops that can panic, shared list and word lemmas. \<open>Inline_Value\<close>
    (\<open>inline.rs\<close>, \<open>id.rs\<close>, \<open>inline/encodings/genid.rs\<close>): 32-byte values, 16-byte identifiers and the conversions;
    the locale \<open>inline_codec\<close> is what a constraint needs of an encoding.
  \<^item> \<open>Byte_Table\<close> (\<open>patch/bytetable.rs\<close>, growing from \<open>patch/branch.rs\<close>): the cuckoo table is a map from bytes (locale
    \<open>byte_map\<close>), an insertion loses no entry, doubling loses no entry, and growing until the entry fits ends.
    \<open>Key_Schema\<close>: the reordering tables of \<open>patch.rs\<close> and the six orders of \<open>trible.rs\<close>.
  \<^item> \<open>Patch_Head\<close>, \<open>Patch_Query\<close>: the nodes, their updates and lookups (\<open>patch.rs\<close>, \<open>patch/branch.rs\<close>,
    \<open>patch/leaf.rs\<close>). \<open>Patch_Invariant\<close>, \<open>Patch_Update\<close>, \<open>Patch_Lookup\<close>, \<open>Patch_Range\<close>: the invariant \<open>head_ok\<close>, the
    map a node stands for, and what each operation does to it. \<open>Patch_Map\<close>: the container. \<open>Patch_Contract\<close>: the
    locale \<open>key_map\<close>, its interpretation on the container, and the properties of insertion, replacement, removal,
    cached aggregates, infixes, ranges and prefixes.
  \<^item> \<open>Patch_Set_Ops\<close>, \<open>Patch_Union\<close>, \<open>Patch_Algebra\<close>, \<open>Patch_Sets\<close>: union, intersection, difference and inclusion of
    nodes, of containers and of trible sets; the locale \<open>set_algebra\<close> is interpreted on PATCHes and on trible sets.
    \<open>Patch_Iter\<close>, \<open>Patch_Walk\<close>: the iterators; each loop is one step of the walk \<open>tips\<close>, by the locales \<open>cursor\<close> and
    \<open>sized_cursor\<close>, interpreted on all six.
  \<^item> \<open>Trible_Set\<close> (\<open>trible.rs\<close>, \<open>trible/tribleset.rs\<close>): tribles and sets; the locale \<open>covering_index\<close> says what one
    index answers, and \<open>trible_store\<close> that six of them hold the same tribles. \<open>Simple_Archive\<close>: encoding, checking
    and decoding archives, and the parallel check.
  \<^item> \<open>Variable_Set\<close>, \<open>Row_Selection\<close>, \<open>Liveness_Words\<close>, \<open>Candidates\<close>, \<open>Proposal_Buffer\<close>, \<open>Binding\<close>: the data of the
    engine (\<open>query/variableset.rs\<close>, \<open>query/ordinal.rs\<close>, \<open>query/liveness.rs\<close>, \<open>query.rs\<close>), with locales \<open>draining\<close>,
    \<open>candidate_sink\<close> and \<open>variable_store\<close> for what their clients rely on.
  \<^item> \<open>Constraint\<close>: the trait as a record of its methods, and its contract as the locales \<open>lawful\<close> (estimates, proposals
    and confirmations agree with a meaning, each candidate of a row is proposed once), \<open>exact\<close> (\<open>satisfied\<close> decides
    when all variables are bound) and \<open>proposing\<close> (some unbound variable can be proposed, within a bound).
    \<open>Leaf_Constraints\<close>, \<open>Intersection_Constraint\<close>, \<open>Union_Constraint\<close>, \<open>Index_Constraints\<close>: the implementations and
    whether they keep it, with locales \<open>unary\<close>, \<open>children\<close>, \<open>variants\<close> and \<open>index_scan\<close>.
  \<^item> \<open>Trible_Pattern\<close>, \<open>Pattern_Arms\<close>, \<open>Pattern_Rows\<close>, \<open>Pattern_Groups\<close>, \<open>Pattern_Laws\<close>: the pattern constraint
    (\<open>trible/tribleset/triblesetconstraint.rs\<close>): what the nineteen arms of its dispatch answer for one row, that
    grouping rows of a batch by their bound values does not change the answers, and that it keeps the contract.
  \<^item> \<open>Query_Engine\<close>: the search. \<open>Engine_Plan\<close>, \<open>Engine_Draw\<close>, \<open>Engine_Invariant\<close>, \<open>Engine_Steps\<close>, \<open>Engine_Group\<close>,
    \<open>Engine_Chunk\<close>, \<open>Engine_Run\<close>: planning is a stable partition; each turn keeps the invariant, decreases a
    multiset measure and conserves the solutions still to come; so iterating ends and returns every solution
    once (locale \<open>search_run\<close>). \<open>Pattern_Query\<close>: the same for conjunctions of patterns, where the solutions are
    the assignments for which every pattern has a fitting trible.

  \<^bold>\<open>Modelling decisions.\<close> Definitions carry the names of the code. A panic is \<open>None\<close>, so a statement that an operation
  returns says that it does not panic; errors are the left side of a sum, or \<open>None\<close> inside \<open>Some\<close> for Rust's
  \<open>Option\<close>. The build is a release build: debug assertions are not executed, additions of \<open>u32\<close> and \<open>u128\<close> wrap, and
  \<open>as u32\<close> truncates; where a \<open>usize\<close> or \<open>u64\<close> only counts what is in memory it is a natural number, and
  \<open>usize_max\<close> stands where the code saturates or compares with it. Shared nodes are values, as no code can
  observe a node changing under another owner; the pointer to a representative key is the key. Sorting with
  \<open>sort_unstable\<close> is a stable sort: ties between different elements occur only among the confirmers of an
  intersection with equal estimates, and the contract of the trait makes their order immaterial.
  The sequential code is modelled: with the feature \<open>parallel\<close>, which is on by default, large inputs of the set
  operations, of the pattern constraint and of the decoder take parallel variants that are not modelled, except
  for \<open>par_validate_map\<close>, which is.

  \<^bold>\<open>Parameters.\<close> What the code takes from outside is an argument: the random permutation of the cuckoo tables and the
  digest of a key (\<open>hash_env\<close>, \<open>patch_env\<close>), of which nothing is assumed; the conversion of host values
  (\<open>inline_codec\<close>); the byte container of the library \<open>anybytes\<close> (\<open>bytes_env\<close>, \<open>bytes_env_ok\<close>) and the choice of the
  thread pool among several errors (\<open>sched\<close>). Set operations compare digests to share or skip subtrees, so their
  properties assume that no two different sets of keys below a prefix of the operands have the same digest
  (\<open>no_collision\<close>, \<open>ts_apart\<close>); nothing else depends on it. The validity of a trible's bytes, which a derive of
  the library \<open>zerocopy\<close> checks, is written out from the types of the fields.

  \<^bold>\<open>Termination and fuel.\<close> Recursions on nodes are structural or carry a measure. Growing a table has fuel 8: a table
  starts with at least two slots and 256 slots always suffice (\<open>byte_table_install\<close>). The union of two nodes has
  the key length plus one as fuel, one for every depth, and is shown not to exhaust it. The loop of the engine and
  the client's loop over it take numbers of turns; the properties say that from some number on the result is the
  one stated. A loop over an iterator is the partial function \<open>drain\<close>, and that it returns is part of the properties.

  \<^bold>\<open>Findings.\<close> Membership constraints leave \<open>satisfied\<close> at its default, and a union of conjunctions of them keeps rows
  that no variant accepts (\<open>union_of_memberships_leaks\<close>). The range constraints propose values of the set but
  confirm any value in the range (\<open>value_range_no_contract\<close>). Other places where a comment says something else
  than the code does are \<open>has_prefix\<close> on the empty PATCH, \<open>count_range\<close>, the order of \<open>iter_ordered\<close>, the index
  that value ranges scan, and where growing moves an entry.

  \<^bold>\<open>Not modelled.\<close> The rayon splits of a running search and the cloning of queries; the bottom-up construction of
  indexes, the owners that keep archive memory alive, the Merkle summary policy and the page cursors of PATCH;
  fragments; the conversions of numbers, times and strings into inline values; collections, repositories, piles
  and capabilities, which are storage and cryptography of external libraries; import and export; the crates
  around the core (network, search, path queries, command line, macros, device code).
\<close>

end
